(* ===== verification/Repo_Prelude.thy ===== *)
theory Repo_Prelude
  imports Main "HOL-Library.Word" "HOL-Library.List_Lexorder"
begin

unbundle bit_operations_syntax

text \<open>
  Shared vocabulary of the development: bytes, Go's error results, \<open>sort.Search\<close>, and the
  generic list lemmas the components use.

  A Go \<open>[]byte\<close> (and a Go \<open>string\<close>, which is a byte sequence) is a list of 8-bit words.
  \<open>bytes.Compare\<close> is the lexicographic order of \<open>HOL-Library.List_Lexorder\<close> over the unsigned
  order of bytes: \<open>bytes.Compare(a, b) < 0\<close> is \<open>a < b\<close>, \<open>bytes.Equal(a, b)\<close> is \<open>a = b\<close>.
  A fallible Go function returns \<open>error + 'a\<close>, with \<^const>\<open>Inl\<close> for a non-nil error.
\<close>

section \<open>Types shared by every component\<close>

type_synonym byte = "8 word"
type_synonym bytes = "byte list"
type_synonym uint64 = "64 word"
type_synonym int64 = "64 word"

text \<open>
  The errors the modelled code returns. An error built by \<open>fmt.Errorf\<close> is one constructor per
  format string; the interpolated values are dropped, because no code branches on them, and an
  error wrapped with \<open>%w\<close> is its cause; a commit error also has the outcome it reports. \<open>LibraryError\<close> is an error of code outside the repository.
\<close>

datatype key_error =
    IntegerKeyType | UnsignedKeyType | FloatKeyType | NaNKey | DecimalKeyType | DatetimeKeyType
  | TimeKeyType | EnumKeyType | BinaryKeyType | StringKeyType | TypeNotKeyable | ColumnNotKeyable
  | NoSortOrder | MalformedString | NonFiniteKey | KeyExponentRange | PrimaryKeyNull
  | TooManyRangeColumns | UnsupportedLowerBound | UnsupportedUpperBound

datatype row_error =
    RowValueCount | IntegerType | UnsignedType | EnumType | FloatType | DoubleType | DatetimeType
  | TimeType | DecimalValueType | DecimalColumnType | JSONType | BinaryType | TextType
  | DecimalNotFinite | TruncatedRow | RowWidthMismatch | TrailingRowBytes | EnumIndexRange
  | UnknownDecimalForm | ColumnNotNull | RowKeyMismatch

datatype table_error =
    UniqueKeyErr | DeleteRowNotFound | IndexEditsNotBuilt | NilDereference

datatype schema_error =
    UnsupportedSqlType | UnsupportedColumn

datatype repo_error =
    ForeignSnapshot | InvalidImportedHash | InvalidRetainedHash | RetainedUnavailable
  | EmptyDefaultDatabase | TablesAbsent | EmptyTableName | RootNotInInventory
  | ErrConflict | ErrCommitUnknown | ErrNotInitialized | TrailingManifest | UnsupportedFormat
  | InvalidInventoryHash | InventoryNotSorted | UnlistedTreeEntry | MissingTreeEntries
  | PublishedInventoryDiffers | PublishedObjectDiffers | BaseSnapshotRequired
  | RefNotFound | NotFastForward | SnapshotCommitRequired | CorruptSnapshot

datatype journal_error =
    InvalidFrameMagic | InvalidFrameLength | ChecksumMismatch | TrailingFrameContent
  | UnsupportedJournalFormat | JournalReplaced | IncompletePrepare | JournalObjectIntegrity
  | IncompleteTypedPrepare | UnmatchedCommit | NonMonotonicGeneration | BaseChangedWhileDirty
  | CheckpointAfterIncomplete | CheckpointGenerationDiffers | UnknownRecordKind
  | ErrWorkingBaseChanged | ErrWorkingStateDirty | ErrPendingRowEdits | TransactionIDRequired
  | ErrWorkingHistoryTruncated | UndecodableRecord | ForeignWriter | JournalNotFound

datatype CommitOutcome = OutcomeRejected | OutcomeCommitted | OutcomeUnknown

datatype error =
    StoreRequired | StoreNotFound | InvalidRootHash | InvalidObjectHash | WriterCommitted
  | StoreReadOnly | ObjectHasNoGitObject | ObjectFailedIntegrity
  | InvalidChildHash | NotProllyNode | UnsupportedNodeCodec | TruncatedNode | TrailingNodeBytes
  | InvalidChunkSizes | InvalidBoundaryBits | DuplicateKey
  | EditKeyRequired | EditsNotOrdered | InvalidLeafLink | EntriesNotOrdered | BuilderFinished
  | InvalidInternalNode | LeafHasChildren | NodeEntriesNotOrdered | InvalidChildLink
  | ChildCountMismatch | KeyNotFound | IndexOutOfRange
  | KeyError key_error | RowError row_error | TableError table_error | SchemaError schema_error
  | RepoError repo_error | JournalError journal_error | InvalidResolution | DuplicateIndexKey
  | LibraryError nat | CommitError CommitOutcome error

section \<open>Facts collected for the component proofs\<close>

named_theorems word_bits \<open>bitwise facts on bytes and 64-bit words\<close>
named_theorems codec_roundtrip \<open>decoders applied to the output of their encoders\<close>
named_theorems order_keys \<open>order facts on encoded keys and sorted key lists\<close>

section \<open>sort.Search\<close>

text \<open>
  \<open>sort.Search(n, f)\<close> of the Go library: the loop over \<open>i, j\<close> that halves \<open>[i, j)\<close>.
\<close>

function search_loop :: "(nat \<Rightarrow> bool) \<Rightarrow> nat \<Rightarrow> nat \<Rightarrow> nat" where
  "search_loop f i j =
     (if i < j
      then let h = (i + j) div 2 in if \<not> f h then search_loop f (h + 1) j else search_loop f i h
      else i)"
  by pat_completeness auto
termination
  by (relation "measure (\<lambda>(f, i, j). j - i)") (auto simp: Let_def)

declare search_loop.simps [simp del]

definition sort_search :: "nat \<Rightarrow> (nat \<Rightarrow> bool) \<Rightarrow> nat" where
  "sort_search n f = search_loop f 0 n"

definition first_hit :: "(nat \<Rightarrow> bool) \<Rightarrow> nat \<Rightarrow> nat \<Rightarrow> bool" where
  "first_hit f n r \<longleftrightarrow> r \<le> n \<and> (\<forall>k < r. \<not> f k) \<and> (\<forall>k. r \<le> k \<longrightarrow> k < n \<longrightarrow> f k)"

lemma search_loop_first_hit:
  assumes mono: "\<forall>a b. f a \<longrightarrow> a \<le> b \<longrightarrow> b < n \<longrightarrow> f b"
    and "i \<le> j" "j \<le> n" "\<forall>k < i. \<not> f k" "\<forall>k. j \<le> k \<longrightarrow> k < n \<longrightarrow> f k"
  shows "first_hit f n (search_loop f i j)"
  using assms(2-)
proof (induction "j - i" arbitrary: i j rule: less_induct)
  case less
  show ?case
  proof (cases "i < j")
    case False
    then have "search_loop f i j = i" by (simp add: search_loop.simps)
    with False less.prems show ?thesis unfolding first_hit_def by (metis order_antisym_conv not_less)
  next
    case True
    define h where "h = (i + j) div 2"
    have h: "i \<le> h" "h < j" using True by (auto simp: h_def)
    have eq: "search_loop f i j = (if \<not> f h then search_loop f (h + 1) j else search_loop f i h)"
      using True by (subst search_loop.simps) (simp add: h_def Let_def)
    show ?thesis
    proof (cases "f h")
      case True
      have "\<forall>k. h \<le> k \<longrightarrow> k < n \<longrightarrow> f k" using mono True by blast
      then have "first_hit f n (search_loop f i h)"
        using h less.prems(2,3) by (intro less.hyps) linarith+
      then show ?thesis by (simp only: eq True if_False not_True_eq_False)
    next
      case False
      have "\<not> f k" if "k < h + 1" for k
        using mono False h less.prems(2) that by (metis Suc_eq_plus1 less_Suc_eq_le order_less_le_trans)
      then have "first_hit f n (search_loop f (h + 1) j)"
        using h less.prems(2,4) by (intro less.hyps) (linarith | blast)+
      then show ?thesis by (simp only: eq False if_True not_False_eq_True)
    qed
  qed
qed

lemma search_loop_cong:
  assumes "\<And>k. k < j \<Longrightarrow> f k = g k"
  shows "search_loop f i j = search_loop g i j"
  using assms
proof (induction "j - i" arbitrary: i j rule: less_induct)
  case less
  show ?case
  proof (cases "i < j")
    case False
    then show ?thesis by (simp add: search_loop.simps)
  next
    case True
    define h where "h = (i + j) div 2"
    have h: "i \<le> h" "h < j" using True by (auto simp: h_def)
    have fg: "f h = g h" using less.prems h by blast
    have "search_loop f (h + 1) j = search_loop g (h + 1) j"
      using h less.prems by (intro less.hyps) auto
    moreover have "search_loop f i h = search_loop g i h"
      using h less.prems by (intro less.hyps) auto
    ultimately show ?thesis
      using True fg by (subst (1 2) search_loop.simps) (simp add: h_def Let_def)
  qed
qed

text \<open>On a list along which the predicate is monotone, the search finds the first hit.\<close>

lemma sort_search_takeWhile:
  assumes "sorted_wrt (\<lambda>x y. P x \<longrightarrow> P y) xs"
  shows "sort_search (length xs) (\<lambda>i. P (xs ! i)) = length (takeWhile (\<lambda>x. \<not> P x) xs)"
proof -
  let ?f = "\<lambda>i. i < length xs \<longrightarrow> P (xs ! i)"
  define r where "r = sort_search (length xs) (\<lambda>i. P (xs ! i))"
  have mono: "P (xs ! b)" if "P (xs ! a)" "a \<le> b" "b < length xs" for a b
    using sorted_wrt_nth_less[OF assms, of a b] that by (cases "a = b") simp_all
  have "r = search_loop ?f 0 (length xs)"
    unfolding r_def sort_search_def by (rule search_loop_cong) simp
  moreover have "first_hit ?f (length xs) (search_loop ?f 0 (length xs))"
    by (rule search_loop_first_hit) (use mono in \<open>meson order_le_less_trans | simp\<close>)+
  ultimately have spec: "r \<le> length xs" "\<forall>k < r. \<not> ?f k" "\<forall>k. r \<le> k \<longrightarrow> k < length xs \<longrightarrow> ?f k"
    unfolding first_hit_def by metis+
  have "takeWhile (\<lambda>x. \<not> P x) xs = take r xs"
  proof (rule takeWhile_eq_take_P_nth)
    show "\<not> P (xs ! i)" if "i < r" "i < length xs" for i using spec(2) that by blast
    show "\<not> \<not> P (xs ! r)" if "r < length xs" using spec(3) that by blast
  qed
  then show ?thesis using spec(1) by (simp add: r_def)
qed

section \<open>Generic list facts\<close>

lemma sorted_wrt_less_map_distinct:
  fixes f :: "'a \<Rightarrow> 'b::linorder"
  shows "sorted_wrt (<) (map f xs) \<Longrightarrow> distinct (map f xs)"
  by (simp add: strict_sorted_iff)

lemma filter_sorted_key_unique:
  fixes f :: "'a \<Rightarrow> 'b::linorder"
  assumes "sorted_wrt (<) (map f xs)" "x \<in> set xs"
  shows "filter (\<lambda>y. f y = f x) xs = [x]"
  using assms by (induction xs) (auto simp: filter_empty_conv)

end
