(* ===== verification/Go_Binary.thy ===== *)
theory Go_Binary
  imports Repo_Prelude
begin

text \<open>
  The parts of Go's \<open>encoding/binary\<close> and \<open>encoding/hex\<close> the program uses: unsigned and zigzag
  varints, fixed-width little- and big-endian integers, and hexadecimal text. Each decoder is
  shown to undo its encoder on any continuation, and the big-endian encodings to preserve order.
\<close>

section \<open>Varints\<close>

text \<open>\<open>binary.AppendUvarint\<close> (what it appends) and \<open>binary.Uvarint\<close> (value and byte count).\<close>

function append_uvarint :: "uint64 \<Rightarrow> bytes" where
  "append_uvarint x =
     (if x \<ge> 0x80 then (ucast x OR 0x80) # append_uvarint (drop_bit 7 x) else [ucast x])"
  by pat_completeness auto
termination
proof (relation "measure unat", simp)
  fix x :: uint64
  assume "0x80 \<le> x"
  then have "128 \<le> unat x" by (simp add: word_le_nat_alt)
  then show "(drop_bit 7 x, x) \<in> measure unat" by (simp add: unat_drop_bit_eq) (simp add: drop_bit_eq_div)
qed

declare append_uvarint.simps [simp del]

fun uvarint_loop :: "bytes \<Rightarrow> nat \<Rightarrow> uint64 \<Rightarrow> nat \<Rightarrow> uint64 \<times> int" where
  "uvarint_loop [] i x s = (0, 0)"
| "uvarint_loop (b # bs) i x s =
     (if i = 10 then (0, - (int i + 1))
      else if b < 0x80 then
        if i = 9 \<and> b > 1 then (0, - (int i + 1))
        else (x OR push_bit s (ucast b), int i + 1)
      else uvarint_loop bs (i + 1) (x OR push_bit s (ucast (b AND 0x7f))) (s + 7))"

definition uvarint :: "bytes \<Rightarrow> uint64 \<times> int" where
  "uvarint buf = uvarint_loop buf 0 0 0"

text \<open>\<open>binary.AppendVarint\<close> and \<open>binary.Varint\<close>: zigzag over the unsigned varint.\<close>

definition append_varint :: "int64 \<Rightarrow> bytes" where
  "append_varint x =
     (let ux = push_bit 1 x in append_uvarint (if sint x < 0 then NOT ux else ux))"

definition varint :: "bytes \<Rightarrow> int64 \<times> int" where
  "varint buf =
     (let (ux, n) = uvarint buf; x = drop_bit 1 ux
      in (if ux AND 1 \<noteq> 0 then NOT x else x, n))"

lemma append_uvarint_nonempty [simp]: "append_uvarint x \<noteq> []"
  by (subst append_uvarint.simps) simp

lemma length_append_uvarint_pos: "0 < length (append_uvarint x)"
  by simp

lemma byte_7f: "(0x7f :: byte) = mask 7" and word_7f: "(0x7f :: uint64) = mask 7"
  and byte_80: "(0x80 :: byte) = push_bit 7 1"
  by (simp_all add: mask_eq_exp_minus_1)

lemma bit_byte_80: "bit (0x80 :: byte) n \<longleftrightarrow> n = 7"
  unfolding byte_80 bit_push_bit_iff bit_1_iff by auto

lemma ucast_or_80 [word_bits]:
  "ucast ((ucast x OR 0x80 :: byte) AND 0x7f) = (x AND 0x7f :: uint64)"
proof -
  have "(ucast x OR 0x80 :: byte) AND 0x7f = ucast x AND mask 7"
    by (rule bit_word_eqI) (unfold byte_7f bit_or_iff bit_and_iff bit_byte_80 bit_mask_iff, auto)
  moreover have "(ucast (ucast x AND mask 7 :: byte) :: uint64) = x AND mask 7"
    by (rule bit_word_eqI) (auto simp: bit_simps)
  ultimately show ?thesis by (simp only: word_7f)
qed

lemma or_80_ge: "\<not> (ucast (x :: uint64) OR 0x80 :: byte) < 0x80"
  by (simp add: not_less le_word_or1)

lemma split_low7 [word_bits]:
  fixes y :: uint64
  shows "push_bit s (y AND 0x7f) OR push_bit (s + 7) (drop_bit 7 y) = push_bit s y"
  unfolding word_7f
proof (rule bit_word_eqI)
  fix n assume "n < LENGTH(64)"
  have "7 + (n - (s + 7)) = n - s" if "s + 7 \<le> n" using that by simp
  then show "bit (push_bit s (y AND mask 7) OR push_bit (s + 7) (drop_bit 7 y)) n = bit (push_bit s y) n"
    by (cases "s + 7 \<le> n") (auto simp: bit_simps)
qed

lemma ucast_ucast_small:
  fixes y :: uint64
  assumes "y < 0x80"
  shows "ucast (ucast y :: byte) = y" "(ucast y :: byte) < 0x80"
proof -
  have y: "unat y < 128" using assms by (simp add: word_less_nat_alt)
  have "unat (ucast y :: byte) = take_bit 8 (unat y)"
    by (simp only: unsigned_ucast_eq) simp
  then have u: "unat (ucast y :: byte) = unat y"
    using y by (simp add: take_bit_nat_eq_self)
  then show "(ucast y :: byte) < 0x80" using y by (simp add: word_less_nat_alt)
  have "unat (ucast (ucast y :: byte) :: uint64) = unat (ucast y :: byte)"
    by (simp only: unsigned_ucast_eq) (simp add: unsigned_take_bit_eq)
  with u show "ucast (ucast y :: byte) = y" by (simp only: word_unat_eq_iff)
qed

lemma uvarint_loop_append:
  assumes "unat y < 2 ^ (64 - 7 * i)" "i \<le> 9"
  shows "uvarint_loop (append_uvarint y @ rest) i x (7 * i) =
    (x OR push_bit (7 * i) y, int i + int (length (append_uvarint y)))"
  using assms
proof (induction y arbitrary: i x rule: append_uvarint.induct)
  case (1 y)
  show ?case
  proof (cases "0x80 \<le> y")
    case False
    then have y: "y < 0x80" by simp
    have "i = 9 \<Longrightarrow> \<not> (1 < (ucast y :: byte))"
      using "1.prems"(1) ucast_ucast_small[OF y]
      by (simp add: word_less_nat_alt unsigned_ucast_eq take_bit_nat_eq_self)
    then show ?thesis
      using False "1.prems"(2) ucast_ucast_small[OF y] by (subst (1 2) append_uvarint.simps) simp
  next
    case True
    then have "128 \<le> unat y" by (simp add: word_le_nat_alt)
    then have i: "i \<le> 8" using "1.prems" by (cases "i = 9") auto
    have "unat (drop_bit 7 y) = unat y div 2 ^ 7"
      using drop_bit_eq_div[of 7 "unat y"] by (simp only: unat_drop_bit_eq)
    also have "\<dots> < 2 ^ (64 - 7 * (i + 1))"
      using "1.prems"(1) i by (intro less_mult_imp_div_less) (simp only: power_add [symmetric], simp)
    finally have IH: "uvarint_loop (append_uvarint (drop_bit 7 y) @ rest) (i + 1) x' (7 * (i + 1)) =
        (x' OR push_bit (7 * (i + 1)) (drop_bit 7 y),
         int (i + 1) + int (length (append_uvarint (drop_bit 7 y))))" for x'
      using "1.IH"[OF True, of "i + 1" x'] i by simp
    have "uvarint_loop (append_uvarint y @ rest) i x (7 * i) =
      uvarint_loop (append_uvarint (drop_bit 7 y) @ rest) (i + 1)
        (x OR push_bit (7 * i) (y AND 0x7f)) (7 * (i + 1))"
      using True i or_80_ge[of y]
      by (subst append_uvarint.simps) (simp add: ucast_or_80 add.commute)
    also have "\<dots> = (x OR push_bit (7 * i) y, int i + 1 + int (length (append_uvarint (drop_bit 7 y))))"
      unfolding IH or.assoc
      using split_low7[of "7 * i" y] by (simp only: distrib_left mult_1_right) simp
    also have "\<dots> = (x OR push_bit (7 * i) y, int i + int (length (append_uvarint y)))"
      using True by (subst (2) append_uvarint.simps) simp
    finally show ?thesis .
  qed
qed

lemma uvarint_append [codec_roundtrip]:
  "uvarint (append_uvarint x @ rest) = (x, int (length (append_uvarint x)))"
  using uvarint_loop_append[of x 0 rest 0] unsigned_less[of x, where ?'a = nat]
  by (simp add: uvarint_def)

lemma uvarint_loop_bounds:
  "uvarint_loop bs i x s = (v, n) \<Longrightarrow> 0 < n \<Longrightarrow> int i < n \<and> n \<le> int i + int (length bs)"
  by (induction bs i x s rule: uvarint_loop.induct) (auto split: if_splits)

lemma uvarint_bounds:
  "uvarint bs = (v, n) \<Longrightarrow> 0 < n \<Longrightarrow> n \<le> int (length bs)"
  using uvarint_loop_bounds[of bs 0 0 0 v n] by (simp add: uvarint_def)

lemma varint_append [codec_roundtrip]:
  "varint (append_varint x @ rest) = (x, int (length (append_varint x)))"
proof -
  define ux where "ux = (if sint x < 0 then NOT (push_bit 1 x) else push_bit 1 x)"
  have neg: "sint x < 0 \<longleftrightarrow> bit x 63"
    using bit_last_iff[of x] by simp
  have "odd ux \<longleftrightarrow> bit x 63"
    unfolding ux_def neg by (simp add: push_bit_eq_mult even_not_iff)
  then have low: "ux AND 1 \<noteq> 0 \<longleftrightarrow> bit x 63"
    by (simp add: and_one_eq odd_iff_mod_2_eq_one)
  have "(if bit x 63 then NOT (drop_bit 1 ux) else drop_bit 1 ux) = x"
  proof (rule bit_word_eqI)
    fix n assume "n < LENGTH(64)"
    then consider "n = 63" | "n < 63" by fastforce
    moreover have "bit (push_bit 1 x) (Suc n) \<longleftrightarrow> n < 63 \<and> bit x n"
      unfolding bit_push_bit_iff by auto
    ultimately show "bit (if bit x 63 then NOT (drop_bit 1 ux) else drop_bit 1 ux) n = bit x n"
      unfolding ux_def neg by cases (auto simp: bit_not_iff bit_drop_bit_eq)
  qed
  moreover have "append_varint x = append_uvarint ux"
    unfolding append_varint_def ux_def Let_def by (rule refl)
  ultimately show ?thesis
    unfolding varint_def Let_def by (simp add: uvarint_append low del: word_not_dist)
qed

section \<open>Fixed-width integers\<close>

text \<open>
  \<open>be_bytes n x\<close> is what \<open>binary.BigEndian.AppendUint{16,32,64}\<close> appends for \<open>n = 2, 4, 8\<close>:
  \<open>byte(v>>(8*(n-1))), \<dots>, byte(v)\<close>. \<open>le_bytes\<close> is the little-endian counterpart and \<open>le_word\<close>
  reads it back (\<open>binary.LittleEndian.Uint{32,64}\<close>).
\<close>

fun be_bytes :: "nat \<Rightarrow> 'a::len word \<Rightarrow> bytes" where
  "be_bytes 0 x = []"
| "be_bytes (Suc n) x = ucast (drop_bit (8 * n) x) # be_bytes n x"

fun le_bytes :: "nat \<Rightarrow> 'a::len word \<Rightarrow> bytes" where
  "le_bytes 0 x = []"
| "le_bytes (Suc n) x = ucast x # le_bytes n (drop_bit 8 x)"

fun le_word :: "bytes \<Rightarrow> 'a::len word" where
  "le_word [] = 0"
| "le_word (b # bs) = ucast b OR push_bit 8 (le_word bs)"

lemma length_be_bytes [simp]: "length (be_bytes n x) = n"
  by (induction n) auto

lemma length_le_bytes [simp]: "length (le_bytes n x) = n"
  by (induction n arbitrary: x) auto

lemma le_word_le_bytes: "le_word (le_bytes n x) = take_bit (8 * n) x"
proof (induction n arbitrary: x)
  case (Suc n)
  show ?case
    unfolding le_bytes.simps le_word.simps Suc.IH
  proof (rule bit_word_eqI)
    fix k assume "k < LENGTH('a)"
    then show "bit (ucast (ucast x :: byte) OR push_bit 8 (take_bit (8 * n) (drop_bit 8 x))) k =
        bit (take_bit (8 * Suc n) x) k"
      by (cases "k < 8") (auto simp: bit_simps)
  qed
qed simp

lemma le_word_le_bytes_full [codec_roundtrip]:
  fixes x :: "'a::len word"
  shows "LENGTH('a) \<le> 8 * n \<Longrightarrow> le_word (le_bytes n x) = x"
  by (simp add: le_word_le_bytes take_bit_word_eq_self)

lemma unat_be_head:
  fixes x :: "'a::len word"
  shows "unat (take_bit (8 * Suc n) x) =
    unat (ucast (drop_bit (8 * n) x) :: byte) * 2 ^ (8 * n) + unat (take_bit (8 * n) x)"
proof -
  have "unat (ucast (drop_bit (8 * n) x) :: byte) = (unat x div 2 ^ (8 * n)) mod 2 ^ 8"
    by (simp only: unsigned_ucast_eq unat_drop_bit_eq) (simp add: drop_bit_eq_div take_bit_eq_mod)
  moreover have "unat (take_bit k x) = unat x mod 2 ^ k" for k
    using take_bit_eq_mod[of k "unat x"] by (simp only: unsigned_take_bit_eq)
  moreover have "unat x mod 2 ^ (8 * n + 8) =
      (unat x div 2 ^ (8 * n)) mod 2 ^ 8 * 2 ^ (8 * n) + unat x mod 2 ^ (8 * n)"
    unfolding power_add mod_mult2_eq by (simp only: mult.commute)
  ultimately show ?thesis by (simp add: add.commute)
qed

lemma be_bytes_less_iff_aux:
  fixes x y :: "'a::len word"
  shows "be_bytes n x < be_bytes n y \<longleftrightarrow> take_bit (8 * n) x < take_bit (8 * n) y"
proof (induction n)
  case (Suc n)
  let ?hx = "ucast (drop_bit (8 * n) x) :: byte" and ?hy = "ucast (drop_bit (8 * n) y) :: byte"
  have lt: "unat (take_bit (8 * n) z) < 2 ^ (8 * n)" for z :: "'a word"
    by (simp add: unsigned_take_bit_eq)
  have key: "a * m + r < b * m + s \<longleftrightarrow> a < b \<or> a = b \<and> r < s"
    if "r < m" "s < m" for a b m r s :: nat
  proof -
    have "a * m + r < b * m + s" if "a < b"
    proof -
      have "a * m + r < Suc a * m" using \<open>r < m\<close> by simp
      also have "\<dots> \<le> b * m" using that by (intro mult_le_mono1) simp
      finally show ?thesis by simp
    qed
    moreover have "\<not> a * m + r < b * m + s" if "b < a"
    proof -
      have "b * m + s < Suc b * m" using \<open>s < m\<close> by simp
      also have "\<dots> \<le> a * m" using that by (intro mult_le_mono1) simp
      finally show ?thesis by simp
    qed
    ultimately show ?thesis by (cases a b rule: linorder_cases) auto
  qed
  have "take_bit (8 * Suc n) x < take_bit (8 * Suc n) y \<longleftrightarrow>
      unat ?hx < unat ?hy \<or> unat ?hx = unat ?hy \<and> unat (take_bit (8 * n) x) < unat (take_bit (8 * n) y)"
    unfolding word_less_nat_alt unat_be_head by (rule key[OF lt lt])
  then show ?case
    by (simp add: Suc.IH word_less_nat_alt word_unat_eq_iff)
qed simp

lemma be_bytes_less_iff [order_keys]:
  fixes x y :: "'a::len word"
  shows "LENGTH('a) \<le> 8 * n \<Longrightarrow> be_bytes n x < be_bytes n y \<longleftrightarrow> x < y"
  by (simp add: be_bytes_less_iff_aux take_bit_word_eq_self)

lemma be_bytes_inject [order_keys]:
  fixes x y :: "'a::len word"
  assumes "LENGTH('a) \<le> 8 * n"
  shows "be_bytes n x = be_bytes n y \<longleftrightarrow> x = y"
  using be_bytes_less_iff[OF assms, of x y] be_bytes_less_iff[OF assms, of y x]
  by (metis less_irrefl linorder_neqE)

section \<open>Hexadecimal text\<close>

text \<open>
  \<open>hex.EncodeToString\<close> writes two lower-case digits per byte. \<open>hex.DecodeString\<close> accepts both
  cases and fails on any other character or on an odd number of digits.
\<close>

definition hex_digit :: "byte \<Rightarrow> byte" where
  "hex_digit v = (if v < 10 then 0x30 + v else 0x61 + (v - 10))"

definition from_hex_char :: "byte \<Rightarrow> byte option" where
  "from_hex_char c =
     (if 0x30 \<le> c \<and> c \<le> 0x39 then Some (c - 0x30)
      else if 0x61 \<le> c \<and> c \<le> 0x66 then Some (c - 0x61 + 10)
      else if 0x41 \<le> c \<and> c \<le> 0x46 then Some (c - 0x41 + 10)
      else None)"

fun hex_encode :: "bytes \<Rightarrow> bytes" where
  "hex_encode [] = []"
| "hex_encode (b # bs) = hex_digit (drop_bit 4 b) # hex_digit (b AND 0x0f) # hex_encode bs"

fun hex_decode :: "bytes \<Rightarrow> bytes option" where
  "hex_decode [] = Some []"
| "hex_decode [c] = None"
| "hex_decode (c # d # cs) =
     (case (from_hex_char c, from_hex_char d, hex_decode cs) of
        (Some a, Some b, Some bs) \<Rightarrow> Some ((push_bit 4 a OR b) # bs)
      | _ \<Rightarrow> None)"

lemma length_hex_encode [simp]: "length (hex_encode bs) = 2 * length bs"
  by (induction bs) auto

lemma from_hex_digit:
  assumes "v < 16"
  shows "from_hex_char (hex_digit v) = Some v"
proof -
  have v: "unat v < 16" using assms by (simp add: word_less_nat_alt)
  have dig: "unat (0x30 + v) = 0x30 + unat v" "unat (0x57 + v) = 0x57 + unat v"
    using v by (simp_all add: unat_word_ariths)
  have "hex_digit v = (if v < 10 then 0x30 + v else 0x57 + v)" by (simp add: hex_digit_def)
  then show ?thesis
    using v dig by (auto simp: from_hex_char_def word_le_nat_alt word_less_nat_alt)
qed

lemma nibbles:
  fixes b :: byte
  shows "drop_bit 4 b < 16" "b AND 0x0f < 16" "push_bit 4 (drop_bit 4 b) OR (b AND 0x0f) = b"
proof -
  have m: "(0x0f :: byte) = mask 4" by (simp add: mask_eq_exp_minus_1)
  have "unat (drop_bit 4 b) = unat b div 2 ^ 4"
    using drop_bit_eq_div[of 4 "unat b"] by (simp only: unat_drop_bit_eq)
  moreover have "unat b < 2 ^ 8" using unsigned_less[of b, where ?'a = nat] by simp
  ultimately show "drop_bit 4 b < 16" by (simp add: word_less_nat_alt)
  have "b AND 0x0f \<le> 0x0f" by (rule word_and_le1)
  then show "b AND 0x0f < 16" by (simp add: word_le_nat_alt word_less_nat_alt)
  show "push_bit 4 (drop_bit 4 b) OR (b AND 0x0f) = b"
    unfolding m by (rule bit_word_eqI) (auto simp: bit_or_iff bit_and_iff bit_mask_iff bit_push_bit_iff bit_drop_bit_eq)
qed

lemma hex_decode_encode [codec_roundtrip, simp]: "hex_decode (hex_encode bs) = Some bs"
  by (induction bs) (simp_all add: from_hex_digit nibbles)

end
