(* ===== verification/Sha256.thy ===== *)
theory Sha256
  imports Go_Binary
begin

text \<open>
  \<open>crypto/sha256.Sum256\<close> (FIPS 180-4), the digest that names every RepoDB object. The rest of
  the development is parametric in the digest and uses only that it has 32 bytes; absence of
  collisions is never assumed of all byte strings (no 32-byte digest has it), only of the objects
  at hand. This theory supplies the digest the program really uses.
\<close>

type_synonym word32 = "32 word"

definition rotr :: "nat \<Rightarrow> word32 \<Rightarrow> word32" where
  "rotr n x = drop_bit n x OR push_bit (32 - n) x"

definition Ch :: "word32 \<Rightarrow> word32 \<Rightarrow> word32 \<Rightarrow> word32" where
  "Ch x y z = (x AND y) XOR (NOT x AND z)"

definition Maj :: "word32 \<Rightarrow> word32 \<Rightarrow> word32 \<Rightarrow> word32" where
  "Maj x y z = (x AND y) XOR (x AND z) XOR (y AND z)"

definition BSig0 :: "word32 \<Rightarrow> word32" where
  "BSig0 x = rotr 2 x XOR rotr 13 x XOR rotr 22 x"

definition BSig1 :: "word32 \<Rightarrow> word32" where
  "BSig1 x = rotr 6 x XOR rotr 11 x XOR rotr 25 x"

definition SSig0 :: "word32 \<Rightarrow> word32" where
  "SSig0 x = rotr 7 x XOR rotr 18 x XOR drop_bit 3 x"

definition SSig1 :: "word32 \<Rightarrow> word32" where
  "SSig1 x = rotr 17 x XOR rotr 19 x XOR drop_bit 10 x"

definition K256 :: "word32 list" where
  "K256 = [
    1116352408, 1899447441, 3049323471, 3921009573, 961987163, 1508970993, 2453635748, 2870763221,
    3624381080, 310598401, 607225278, 1426881987, 1925078388, 2162078206, 2614888103, 3248222580,
    3835390401, 4022224774, 264347078, 604807628, 770255983, 1249150122, 1555081692, 1996064986,
    2554220882, 2821834349, 2952996808, 3210313671, 3336571891, 3584528711, 113926993, 338241895,
    666307205, 773529912, 1294757372, 1396182291, 1695183700, 1986661051, 2177026350, 2456956037,
    2730485921, 2820302411, 3259730800, 3345764771, 3516065817, 3600352804, 4094571909, 275423344,
    430227734, 506948616, 659060556, 883997877, 958139571, 1322822218, 1537002063, 1747873779,
    1955562222, 2024104815, 2227730452, 2361852424, 2428436474, 2756734187, 3204031479, 3329325298]"

record hstate =
  h_a :: word32 h_b :: word32 h_c :: word32 h_d :: word32
  h_e :: word32 h_f :: word32 h_g :: word32 h_h :: word32

definition H0 :: hstate where
  "H0 = \<lparr>h_a = 1779033703, h_b = 3144134277, h_c = 1013904242, h_d = 2773480762,
         h_e = 1359893119, h_f = 2600822924, h_g = 528734635, h_h = 1541459225\<rparr>"

text \<open>The message schedule, newest word first: \<open>W\<^sub>t\<close> from \<open>W\<^sub>t\<^sub>-\<^sub>2\<close>, \<open>W\<^sub>t\<^sub>-\<^sub>7\<close>, \<open>W\<^sub>t\<^sub>-\<^sub>1\<^sub>5\<close>, \<open>W\<^sub>t\<^sub>-\<^sub>1\<^sub>6\<close>.\<close>

fun schedule :: "nat \<Rightarrow> word32 list \<Rightarrow> word32 list" where
  "schedule 0 ws = ws"
| "schedule (Suc n) ws =
     schedule n ((SSig1 (ws ! 1) + ws ! 6 + SSig0 (ws ! 14) + ws ! 15) # ws)"

definition sha_round :: "hstate \<Rightarrow> word32 \<times> word32 \<Rightarrow> hstate" where
  "sha_round s kw =
     (let t1 = h_h s + BSig1 (h_e s) + Ch (h_e s) (h_f s) (h_g s) + fst kw + snd kw;
          t2 = BSig0 (h_a s) + Maj (h_a s) (h_b s) (h_c s)
      in \<lparr>h_a = t1 + t2, h_b = h_a s, h_c = h_b s, h_d = h_c s,
          h_e = h_d s + t1, h_f = h_e s, h_g = h_f s, h_h = h_g s\<rparr>)"

fun be_word32s :: "bytes \<Rightarrow> word32 list" where
  "be_word32s (a # b # c # d # bs) = le_word [d, c, b, a] # be_word32s bs"
| "be_word32s _ = []"

definition sha_block :: "hstate \<Rightarrow> bytes \<Rightarrow> hstate" where
  "sha_block s blk =
     (let w = rev (schedule 48 (rev (be_word32s blk)));
          r = foldl sha_round s (zip K256 w)
      in \<lparr>h_a = h_a s + h_a r, h_b = h_b s + h_b r, h_c = h_c s + h_c r, h_d = h_d s + h_d r,
          h_e = h_e s + h_e r, h_f = h_f s + h_f r, h_g = h_g s + h_g r, h_h = h_h s + h_h r\<rparr>)"

definition sha_pad :: "bytes \<Rightarrow> bytes" where
  "sha_pad m =
     m @ [0x80] @ replicate ((55 + 64 - length m mod 64) mod 64) 0
       @ be_bytes 8 (of_nat (8 * length m) :: uint64)"

function sha_blocks :: "hstate \<Rightarrow> bytes \<Rightarrow> hstate" where
  "sha_blocks s bs = (if bs = [] then s else sha_blocks (sha_block s (take 64 bs)) (drop 64 bs))"
  by pat_completeness auto
termination
  by (relation "measure (\<lambda>(s, bs). length bs)") auto

definition sha256 :: "bytes \<Rightarrow> bytes" where
  "sha256 m =
     (let s = sha_blocks H0 (sha_pad m)
      in be_bytes 4 (h_a s) @ be_bytes 4 (h_b s) @ be_bytes 4 (h_c s) @ be_bytes 4 (h_d s)
       @ be_bytes 4 (h_e s) @ be_bytes 4 (h_f s) @ be_bytes 4 (h_g s) @ be_bytes 4 (h_h s))"

lemma length_sha256: "length (sha256 m) = 32"
  by (simp add: sha256_def Let_def)

end
