(* ===== verification/Content_Store.thy ===== *)
theory Content_Store
  imports Sha256
begin

text \<open>
  \<open>common/storage\<close>: object names, the \<open>Store\<close> interface and the in-memory store.

  The Go interface \<open>Store\<close> is the locale \<open>content_store\<close>: the two methods the Prolly trees
  call and the laws they rely on. A store state is passed explicitly. Methods that also fail for
  reasons outside the program (Git, the file system) are other implementations of the
  interface; the laws below are those of a store whose writes succeed.
\<close>

section \<open>Object names\<close>

type_synonym hash = bytes

text \<open>\<open>storage.Sum\<close>: the hexadecimal digest. \<open>H\<close> stands for \<open>sha256.Sum256\<close>.\<close>

definition storage_Sum :: "(bytes \<Rightarrow> bytes) \<Rightarrow> bytes \<Rightarrow> hash" where
  "storage_Sum H data = hex_encode (H data)"

definition hash_char :: "byte \<Rightarrow> bool" where
  "hash_char c \<longleftrightarrow> \<not> ((c < 0x30 \<or> c > 0x39) \<and> (c < 0x61 \<or> c > 0x66) \<and> (c < 0x41 \<or> c > 0x46))"

definition hash_Valid :: "hash \<Rightarrow> bool" where
  "hash_Valid h \<longleftrightarrow> length h = 64 \<and> list_all hash_char h"

lemma hash_char_hex_digit: "v < 16 \<Longrightarrow> hash_char (hex_digit v)"
  using from_hex_digit[of v] by (auto simp: hash_char_def from_hex_char_def split: if_splits)

lemma list_all_hash_char_hex_encode: "list_all hash_char (hex_encode bs)"
  by (induction bs) (simp_all add: hash_char_hex_digit nibbles)

lemma hex_encode_inject [simp]: "hex_encode a = hex_encode b \<longleftrightarrow> a = b"
  by (metis hex_decode_encode option.inject)

text \<open>A 32-byte digest, the only law of \<open>sha256.Sum256\<close> that holds of every input.\<close>

locale digest32 =
  fixes H :: "bytes \<Rightarrow> bytes"
  assumes length_H: "length (H d) = 32"
begin

lemma hash_Valid_Sum: "hash_Valid (storage_Sum H d)"
  by (simp add: hash_Valid_def storage_Sum_def length_H list_all_hash_char_hex_encode)

lemma hex_decode_Sum: "hex_decode (storage_Sum H d) = Some (H d)"
  by (simp add: storage_Sum_def)

lemma hex_encode_H: "hex_encode (H d) = storage_Sum H d"
  by (simp add: storage_Sum_def)

end

interpretation sha: digest32 sha256
  by unfold_locales (rule length_sha256)

section \<open>The Store interface\<close>

locale content_store = digest32 H for H :: "bytes \<Rightarrow> bytes" +
  fixes get :: "'s \<Rightarrow> hash \<Rightarrow> error + bytes"
    and put :: "'s \<Rightarrow> bytes \<Rightarrow> error + hash \<times> 's"
    and inv :: "'s \<Rightarrow> bool"
  assumes put_ok: "inv s \<Longrightarrow> \<exists>s'. put s d = Inr (storage_Sum H d, s') \<and> inv s'"
    and put_get: "inv s \<Longrightarrow> put s d = Inr (h, s') \<Longrightarrow>
      get s' h' = (if h' = storage_Sum H d \<and> isl (get s h') then Inr d else get s h')"
    and get_Sum: "inv s \<Longrightarrow> get s h = Inr d \<Longrightarrow> h = storage_Sum H d"
begin

lemma put_Inr: "inv s \<Longrightarrow> put s d = Inr (h, s') \<Longrightarrow> h = storage_Sum H d \<and> inv s'"
  using put_ok[of s d] by auto

text \<open>Whatever could be read can still be read after a write.\<close>

lemma put_keeps: "inv s \<Longrightarrow> put s d = Inr (h, s') \<Longrightarrow> get s h' = Inr x \<Longrightarrow> get s' h' = Inr x"
  by (simp add: put_get)

text \<open>A written object is read back, unless the store already held a colliding object.\<close>

lemma put_readable:
  assumes "inv s" "put s d = Inr (h, s')" "\<And>x. get s h = Inr x \<Longrightarrow> x = d"
  shows "get s' h = Inr d"
  using assms put_Inr[OF assms(1,2)] by (cases "get s h") (auto simp: put_get)

end

section \<open>The in-memory store\<close>

text \<open>\<open>storage.Memory\<close>: a map from names to bytes. \<open>Put\<close> copies data only under a new name.\<close>

type_synonym memory = "hash \<Rightarrow> bytes option"

definition NewMemory :: memory where
  "NewMemory = (\<lambda>_. None)"

definition memory_Get :: "memory \<Rightarrow> hash \<Rightarrow> error + bytes" where
  "memory_Get m h = (case m h of None \<Rightarrow> Inl StoreNotFound | Some data \<Rightarrow> Inr data)"

definition memory_Put :: "(bytes \<Rightarrow> bytes) \<Rightarrow> memory \<Rightarrow> bytes \<Rightarrow> error + hash \<times> memory" where
  "memory_Put H m data =
     (let hash = storage_Sum H data
      in Inr (hash, case m hash of None \<Rightarrow> m(hash \<mapsto> data) | Some _ \<Rightarrow> m))"

definition memory_inv :: "(bytes \<Rightarrow> bytes) \<Rightarrow> memory \<Rightarrow> bool" where
  "memory_inv H m \<longleftrightarrow> (\<forall>h d. m h = Some d \<longrightarrow> h = storage_Sum H d)"

lemma memory_inv_New: "memory_inv H NewMemory"
  by (simp add: memory_inv_def NewMemory_def)

sublocale digest32 \<subseteq> mem: content_store H memory_Get "memory_Put H" "memory_inv H"
  by unfold_locales
    (auto simp: memory_Get_def memory_Put_def memory_inv_def Let_def split: option.splits)

end
