(* ===== verification/Node_Codec.thy ===== *)
theory Node_Codec
  imports Content_Store
begin

text \<open>
  \<open>common/prolly/codec.go\<close>: the binary node format and the in-place \<open>nodeReader\<close>.
  A reader keeps the whole node and a position, as in the source; a method that moves it returns
  the moved reader. The round trip is \<open>decodeNode_encodeNode\<close>.
\<close>

section \<open>Nodes\<close>

record entry =
  ekey :: bytes
  evalue :: bytes

record link =
  lmax :: bytes
  lcount :: uint64
  lhash :: hash

record node =
  nlevel :: byte
  nentries :: "entry list"
  nchildren :: "link list"

definition nodeMagic :: byte where "nodeMagic = 0x50"

definition nodeCodecVersion :: byte where "nodeCodecVersion = 1"

definition hashSize :: nat where "hashSize = 32"

section \<open>Encoding\<close>

definition append_bytes :: "bytes \<Rightarrow> bytes" where
  "append_bytes b = append_uvarint (of_nat (length b)) @ b"

definition append_entry :: "entry \<Rightarrow> bytes" where
  "append_entry e = append_bytes (ekey e) @ append_bytes (evalue e)"

fun append_entries :: "entry list \<Rightarrow> bytes" where
  "append_entries [] = []"
| "append_entries (e # es) = append_entry e @ append_entries es"

fun append_links :: "link list \<Rightarrow> error + bytes" where
  "append_links [] = Inr []"
| "append_links (c # cs) =
     (case hex_decode (lhash c) of
        None \<Rightarrow> Inl InvalidChildHash
      | Some raw \<Rightarrow>
          if length raw \<noteq> hashSize then Inl InvalidChildHash
          else case append_links cs of
            Inl e \<Rightarrow> Inl e
          | Inr b \<Rightarrow> Inr (append_bytes (lmax c) @ append_uvarint (lcount c) @ raw @ b))"

definition encodeNode :: "node \<Rightarrow> error + bytes" where
  "encodeNode n =
     (let b = [nodeMagic, nodeCodecVersion, nlevel n]
      in if nlevel n = 0 then
           Inr (b @ append_uvarint (of_nat (length (nentries n))) @ append_entries (nentries n))
         else case append_links (nchildren n) of
           Inl e \<Rightarrow> Inl e
         | Inr cs \<Rightarrow> Inr (b @ append_uvarint (of_nat (length (nchildren n))) @ cs))"

section \<open>The node reader\<close>

record reader =
  rhash :: hash
  rdata :: bytes
  rpos :: nat
  rlevel :: byte
  rremaining :: nat

definition reader_uvarint :: "reader \<Rightarrow> error + uint64 \<times> reader" where
  "reader_uvarint r =
     (let (v, n) = uvarint (drop (rpos r) (rdata r))
      in if n \<le> 0 then Inl TruncatedNode else Inr (v, r\<lparr>rpos := rpos r + nat n\<rparr>))"

definition newNodeReader :: "hash \<Rightarrow> bytes \<Rightarrow> error + reader" where
  "newNodeReader h data =
     (if length data < 4 \<or> data ! 0 \<noteq> nodeMagic then Inl NotProllyNode
      else if data ! 1 \<noteq> nodeCodecVersion then Inl UnsupportedNodeCodec
      else case reader_uvarint \<lparr>rhash = h, rdata = data, rpos = 3, rlevel = data ! 2, rremaining = 0\<rparr> of
        Inl e \<Rightarrow> Inl e
      | Inr (count, r) \<Rightarrow>
          if unat count > (length data - rpos r) div 2 then Inl TruncatedNode
          else Inr (r\<lparr>rremaining := unat count\<rparr>))"

definition reader_field :: "reader \<Rightarrow> error + bytes \<times> reader" where
  "reader_field r =
     (case reader_uvarint r of
        Inl e \<Rightarrow> Inl e
      | Inr (len, r1) \<Rightarrow>
          if unat len > length (rdata r1) - rpos r1 then Inl TruncatedNode
          else let end = rpos r1 + unat len
               in Inr (take (unat len) (drop (rpos r1) (rdata r1)), r1\<lparr>rpos := end\<rparr>))"

definition nextEntry :: "reader \<Rightarrow> error + entry \<times> reader" where
  "nextEntry r =
     (case reader_field r of
        Inl e \<Rightarrow> Inl e
      | Inr (key, r1) \<Rightarrow>
          (case reader_field r1 of
             Inl e \<Rightarrow> Inl e
           | Inr (val, r2) \<Rightarrow>
               Inr (\<lparr>ekey = key, evalue = val\<rparr>, r2\<lparr>rremaining := rremaining r2 - 1\<rparr>)))"

definition nextLinkRaw :: "reader \<Rightarrow> error + (bytes \<times> uint64 \<times> bytes) \<times> reader" where
  "nextLinkRaw r =
     (case reader_field r of
        Inl e \<Rightarrow> Inl e
      | Inr (maxKey, r1) \<Rightarrow>
          (case reader_uvarint r1 of
             Inl e \<Rightarrow> Inl e
           | Inr (count, r2) \<Rightarrow>
               if length (rdata r2) - rpos r2 < hashSize then Inl TruncatedNode
               else Inr ((maxKey, count, take hashSize (drop (rpos r2) (rdata r2))),
                 r2\<lparr>rpos := rpos r2 + hashSize, rremaining := rremaining r2 - 1\<rparr>)))"

definition nextLink :: "reader \<Rightarrow> error + link \<times> reader" where
  "nextLink r =
     (case nextLinkRaw r of
        Inl e \<Rightarrow> Inl e
      | Inr ((maxKey, count, raw), r1) \<Rightarrow>
          Inr (\<lparr>lmax = maxKey, lcount = count, lhash = hex_encode raw\<rparr>, r1))"

definition reader_finish :: "reader \<Rightarrow> error + unit" where
  "reader_finish r =
     (if rremaining r \<noteq> 0 \<or> rpos r \<noteq> length (rdata r) then Inl TrailingNodeBytes else Inr ())"

lemma reader_uvarint_frame:
  "reader_uvarint r = Inr (v, r') \<Longrightarrow>
    rdata r' = rdata r \<and> rlevel r' = rlevel r \<and> rremaining r' = rremaining r \<and> rhash r' = rhash r"
  by (auto simp: reader_uvarint_def Let_def split: prod.splits if_splits)

lemma reader_field_frame:
  "reader_field r = Inr (v, r') \<Longrightarrow>
    rdata r' = rdata r \<and> rlevel r' = rlevel r \<and> rremaining r' = rremaining r \<and> rhash r' = rhash r"
  by (auto simp: reader_field_def Let_def split: prod.splits if_splits sum.splits
      dest!: reader_uvarint_frame)

lemma nextEntry_frame:
  "nextEntry r = Inr (e, r') \<Longrightarrow>
    rdata r' = rdata r \<and> rlevel r' = rlevel r \<and> rremaining r' = rremaining r - 1 \<and> rhash r' = rhash r"
  by (auto simp: nextEntry_def split: sum.splits dest!: reader_field_frame)

lemma nextLinkRaw_frame:
  "nextLinkRaw r = Inr (e, r') \<Longrightarrow>
    rdata r' = rdata r \<and> rlevel r' = rlevel r \<and> rremaining r' = rremaining r - 1 \<and> rhash r' = rhash r"
  by (auto simp: nextLinkRaw_def split: sum.splits if_splits dest!: reader_field_frame reader_uvarint_frame)

lemma nextLink_frame:
  "nextLink r = Inr (e, r') \<Longrightarrow>
    rdata r' = rdata r \<and> rlevel r' = rlevel r \<and> rremaining r' = rremaining r - 1 \<and> rhash r' = rhash r"
  by (auto simp: nextLink_def split: sum.splits dest!: nextLinkRaw_frame)

text \<open>The two loops of \<open>decode\<close>: they run while items remain, and every item takes one.\<close>

function decode_entries :: "reader \<Rightarrow> entry list \<Rightarrow> error + entry list \<times> reader" where
  "decode_entries r acc =
     (if rremaining r > 0 then
        case nextEntry r of
          Inl e \<Rightarrow> Inl e
        | Inr (entry, r') \<Rightarrow> decode_entries r' (acc @ [entry])
      else Inr (acc, r))"
  by pat_completeness auto
termination
  by (relation "measure (\<lambda>(r, acc). rremaining r)") (auto dest!: nextEntry_frame)

function decode_links :: "reader \<Rightarrow> link list \<Rightarrow> error + link list \<times> reader" where
  "decode_links r acc =
     (if rremaining r > 0 then
        case nextLink r of
          Inl e \<Rightarrow> Inl e
        | Inr (child, r') \<Rightarrow> decode_links r' (acc @ [child])
      else Inr (acc, r))"
  by pat_completeness auto
termination
  by (relation "measure (\<lambda>(r, acc). rremaining r)") (auto dest!: nextLink_frame)

declare decode_entries.simps [simp del] decode_links.simps [simp del]

definition reader_decode :: "reader \<Rightarrow> error + node" where
  "reader_decode r =
     (if rlevel r = 0 then
        case decode_entries r [] of
          Inl e \<Rightarrow> Inl e
        | Inr (es, r') \<Rightarrow>
            (case reader_finish r' of
               Inl e \<Rightarrow> Inl e
             | Inr _ \<Rightarrow> Inr \<lparr>nlevel = rlevel r, nentries = es, nchildren = []\<rparr>)
      else
        case decode_links r [] of
          Inl e \<Rightarrow> Inl e
        | Inr (cs, r') \<Rightarrow>
            (case reader_finish r' of
               Inl e \<Rightarrow> Inl e
             | Inr _ \<Rightarrow> Inr \<lparr>nlevel = rlevel r, nentries = [], nchildren = cs\<rparr>))"

definition decodeNode :: "hash \<Rightarrow> bytes \<Rightarrow> error + node" where
  "decodeNode h data =
     (case newNodeReader h data of Inl e \<Rightarrow> Inl e | Inr r \<Rightarrow> reader_decode r)"

section \<open>Reading what was written\<close>

text \<open>What a reader has left, and a reader moved on by \<open>n\<close> bytes and \<open>k\<close> items.\<close>

definition rrest :: "reader \<Rightarrow> bytes" where
  "rrest r = drop (rpos r) (rdata r)"

definition radvance :: "nat \<Rightarrow> nat \<Rightarrow> reader \<Rightarrow> reader" where
  "radvance n k r = r\<lparr>rpos := rpos r + n, rremaining := rremaining r - k\<rparr>"

lemma radvance_simps [simp]:
  "rdata (radvance n k r) = rdata r" "rlevel (radvance n k r) = rlevel r"
  "rhash (radvance n k r) = rhash r" "rpos (radvance n k r) = rpos r + n"
  "rremaining (radvance n k r) = rremaining r - k" "radvance 0 0 r = r"
  "radvance m j (radvance n k r) = radvance (n + m) (k + j) r"
  by (simp_all add: radvance_def)

lemma rrest_radvance: "rrest (radvance n k r) = drop n (rrest r)"
  by (simp add: rrest_def add.commute)

lemma rrest_radvance_append:
  "rrest r = a @ b \<Longrightarrow> rrest (radvance (length a) k r) = b"
  by (simp add: rrest_radvance)

lemma reader_uvarint_append:
  "rrest r = append_uvarint v @ tail \<Longrightarrow>
    reader_uvarint r = Inr (v, radvance (length (append_uvarint v)) 0 r)"
  by (simp add: reader_uvarint_def rrest_def uvarint_append radvance_def)

lemma reader_field_append:
  assumes "rrest r = append_bytes b @ tail" "length b < 2 ^ 64"
  shows "reader_field r = Inr (b, radvance (length (append_bytes b)) 0 r)"
proof -
  let ?v = "of_nat (length b) :: uint64"
  have v: "unat ?v = length b" using assms(2) by (simp add: unat_of_nat)
  let ?r1 = "radvance (length (append_uvarint ?v)) 0 r"
  have u: "reader_uvarint r = Inr (?v, ?r1)"
    using assms(1) by (intro reader_uvarint_append[of _ _ "b @ tail"]) (simp add: append_bytes_def)
  have rest: "drop (rpos ?r1) (rdata ?r1) = b @ tail"
    using assms(1) rrest_radvance_append[of r "append_uvarint ?v" "b @ tail" 0]
    by (simp add: append_bytes_def rrest_def)
  then have "length b \<le> length (rdata ?r1) - rpos ?r1"
    by (metis length_append length_drop le_add1)
  then show ?thesis
    using rest by (simp add: reader_field_def u v Let_def) (simp add: radvance_def append_bytes_def v)
qed

definition entry_ok :: "entry \<Rightarrow> bool" where
  "entry_ok e \<longleftrightarrow> length (ekey e) < 2 ^ 64 \<and> length (evalue e) < 2 ^ 64"

definition link_ok :: "link \<Rightarrow> bool" where
  "link_ok c \<longleftrightarrow> length (lmax c) < 2 ^ 64 \<and> (\<exists>raw. length raw = hashSize \<and> lhash c = hex_encode raw)"

definition node_ok :: "node \<Rightarrow> bool" where
  "node_ok n \<longleftrightarrow>
     (if nlevel n = 0 then nchildren n = [] \<and> length (nentries n) < 2 ^ 64 \<and> list_all entry_ok (nentries n)
      else nentries n = [] \<and> length (nchildren n) < 2 ^ 64 \<and> list_all link_ok (nchildren n))"

lemma nextEntry_append:
  assumes "rrest r = append_entry e @ tail" "entry_ok e"
  shows "nextEntry r = Inr (e, radvance (length (append_entry e)) 1 r)"
proof -
  let ?k = "append_bytes (ekey e)" and ?v = "append_bytes (evalue e)"
  have "reader_field r = Inr (ekey e, radvance (length ?k) 0 r)"
    using assms by (intro reader_field_append[of _ _ "?v @ tail"]) (simp_all add: append_entry_def entry_ok_def)
  moreover have "rrest (radvance (length ?k) 0 r) = ?v @ tail"
    using assms(1) by (intro rrest_radvance_append) (simp add: append_entry_def)
  then have "reader_field (radvance (length ?k) 0 r) =
      Inr (evalue e, radvance (length ?v) 0 (radvance (length ?k) 0 r))"
    using assms(2) by (intro reader_field_append) (simp_all add: entry_ok_def)
  ultimately show ?thesis
    by (simp add: nextEntry_def append_entry_def radvance_def add.assoc)
qed

lemma nextLinkRaw_append:
  assumes "rrest r = append_bytes k @ append_uvarint c @ raw @ tail"
    "length k < 2 ^ 64" "length raw = hashSize"
  shows "nextLinkRaw r =
    Inr ((k, c, raw), radvance (length (append_bytes k @ append_uvarint c @ raw)) 1 r)"
proof -
  let ?r1 = "radvance (length (append_bytes k)) 0 r"
  have 1: "reader_field r = Inr (k, ?r1)"
    using assms(1,2) by (rule reader_field_append)
  have r1: "rrest ?r1 = append_uvarint c @ raw @ tail"
    using assms(1) by (intro rrest_radvance_append) simp
  let ?r2 = "radvance (length (append_uvarint c)) 0 ?r1"
  have 2: "reader_uvarint ?r1 = Inr (c, ?r2)"
    using r1 by (rule reader_uvarint_append)
  have r2: "drop (rpos ?r2) (rdata ?r2) = raw @ tail"
    using rrest_radvance_append[OF r1, of 0] by (simp only: rrest_def)
  then have "length raw \<le> length (rdata ?r2) - rpos ?r2"
    by (metis length_append length_drop le_add1)
  then show ?thesis
    unfolding nextLinkRaw_def 1 sum.case prod.case 2
    using r2 assms(3) by (simp add: radvance_def add.assoc)
qed

lemma decode_entries_append:
  assumes "rremaining r = length es" "rrest r = append_entries es @ tail" "list_all entry_ok es"
  shows "decode_entries r acc = Inr (acc @ es, radvance (length (append_entries es)) (length es) r)"
  using assms
proof (induction es arbitrary: r acc)
  case Nil
  then show ?case by (simp add: decode_entries.simps)
next
  case (Cons e es)
  let ?r = "radvance (length (append_entry e)) 1 r"
  have n: "nextEntry r = Inr (e, ?r)"
    using Cons.prems by (intro nextEntry_append[of _ _ "append_entries es @ tail"]) simp_all
  have "rrest ?r = append_entries es @ tail"
    using Cons.prems(2) by (intro rrest_radvance_append) simp
  then have "decode_entries ?r (acc @ [e]) =
      Inr ((acc @ [e]) @ es, radvance (length (append_entries es)) (length es) ?r)"
    using Cons.prems by (intro Cons.IH) simp_all
  then show ?case
    using Cons.prems(1) by (subst decode_entries.simps) (simp add: n)
qed

lemma append_links_Cons_ok:
  assumes "list_all link_ok (c # cs)" "append_links (c # cs) = Inr b"
  obtains raw b' where "length raw = hashSize" "lhash c = hex_encode raw" "append_links cs = Inr b'"
    "b = append_bytes (lmax c) @ append_uvarint (lcount c) @ raw @ b'"
  using assms by (auto simp: link_ok_def split: sum.splits)

lemma append_links_ok: "list_all link_ok cs \<Longrightarrow> \<exists>b. append_links cs = Inr b"
  by (induction cs) (auto simp: link_ok_def)

lemma decode_links_append:
  assumes "rremaining r = length cs" "append_links cs = Inr b" "rrest r = b @ tail" "list_all link_ok cs"
  shows "decode_links r acc = Inr (acc @ cs, radvance (length b) (length cs) r)"
  using assms
proof (induction cs arbitrary: r acc b)
  case Nil
  then show ?case by (simp add: decode_links.simps)
next
  case (Cons c cs)
  obtain raw b' where raw: "length raw = hashSize" "lhash c = hex_encode raw"
    and b': "append_links cs = Inr b'" and
    b: "b = append_bytes (lmax c) @ append_uvarint (lcount c) @ raw @ b'"
    using append_links_Cons_ok[OF Cons.prems(4,2)] .
  let ?i = "append_bytes (lmax c) @ append_uvarint (lcount c) @ raw"
  let ?r = "radvance (length ?i) 1 r"
  have "nextLinkRaw r = Inr ((lmax c, lcount c, raw), ?r)"
    using Cons.prems raw b by (intro nextLinkRaw_append[of _ _ _ _ "b' @ tail"]) (simp_all add: link_ok_def)
  then have n: "nextLink r = Inr (c, ?r)" using raw by (simp add: nextLink_def)
  have "rrest ?r = b' @ tail"
    using Cons.prems(3) b by (intro rrest_radvance_append) simp
  then have "decode_links ?r (acc @ [c]) = Inr ((acc @ [c]) @ cs, radvance (length b') (length cs) ?r)"
    using Cons.prems b' by (intro Cons.IH) simp_all
  then show ?case
    using Cons.prems(1) n b by (subst decode_links.simps) (simp add: add.assoc)
qed

text \<open>Every item takes at least two bytes, so the reader's count check passes.\<close>

lemma length_append_bytes: "1 \<le> length (append_bytes b)"
  using length_append_uvarint_pos[of "of_nat (length b)"] unfolding append_bytes_def length_append by linarith

lemma append_entries_length: "2 * length es \<le> length (append_entries es)"
proof (induction es)
  case (Cons e es)
  then show ?case
    using length_append_bytes[of "ekey e"] length_append_bytes[of "evalue e"]
    by (simp add: append_entry_def)
qed simp

lemma append_links_length: "append_links cs = Inr b \<Longrightarrow> 2 * length cs \<le> length b"
proof (induction cs arbitrary: b)
  case (Cons c cs)
  then obtain b' where "append_links cs = Inr b'" "33 + length b' \<le> length b"
    using length_append_bytes[of "lmax c"] by (auto simp: hashSize_def split: option.splits sum.splits if_splits)
  with Cons.IH show ?case by fastforce
qed simp

lemma newNodeReader_encoded:
  assumes "2 * unat count \<le> length b"
  shows "newNodeReader h ([nodeMagic, nodeCodecVersion, l] @ append_uvarint count @ b) =
    Inr \<lparr>rhash = h, rdata = [nodeMagic, nodeCodecVersion, l] @ append_uvarint count @ b,
         rpos = 3 + length (append_uvarint count), rlevel = l, rremaining = unat count\<rparr>"
proof -
  let ?d = "[nodeMagic, nodeCodecVersion, l] @ append_uvarint count @ b"
  let ?r = "\<lparr>rhash = h, rdata = ?d, rpos = 3, rlevel = l, rremaining = 0\<rparr>"
  have "reader_uvarint ?r = Inr (count, radvance (length (append_uvarint count)) 0 ?r)"
    by (rule reader_uvarint_append[of _ _ b]) (simp add: rrest_def numeral_3_eq_3)
  then show ?thesis
    using assms length_append_uvarint_pos[of count]
    by (simp add: newNodeReader_def not_less radvance_def)
qed

theorem decodeNode_encodeNode [codec_roundtrip]:
  assumes "node_ok n"
  shows "\<exists>data. encodeNode n = Inr data \<and> decodeNode h data = Inr n"
proof (cases "nlevel n = 0")
  case True
  let ?c = "of_nat (length (nentries n)) :: uint64" and ?b = "append_entries (nentries n)"
  have n: "nchildren n = []" "length (nentries n) < 2 ^ 64" "list_all entry_ok (nentries n)"
    using assms True by (simp_all add: node_ok_def)
  have c: "unat ?c = length (nentries n)" using n(2) by (simp add: unat_of_nat)
  let ?d = "[nodeMagic, nodeCodecVersion, nlevel n] @ append_uvarint ?c @ ?b"
  let ?r = "\<lparr>rhash = h, rdata = ?d, rpos = 3 + length (append_uvarint ?c), rlevel = nlevel n,
    rremaining = unat ?c\<rparr>"
  have new: "newNodeReader h ?d = Inr ?r"
    by (rule newNodeReader_encoded) (simp add: c append_entries_length)
  have "decode_entries ?r [] = Inr ([] @ nentries n, radvance (length ?b) (length (nentries n)) ?r)"
    using n(3) by (intro decode_entries_append[of _ _ "[]"]) (simp_all add: c rrest_def numeral_3_eq_3)
  then have "reader_decode ?r = Inr n"
    using True n(1) by (simp add: reader_decode_def reader_finish_def c)
  then have "decodeNode h ?d = Inr n" by (simp only: decodeNode_def new sum.case)
  moreover have "encodeNode n = Inr ?d" using True by (simp add: encodeNode_def)
  ultimately show ?thesis by blast
next
  case False
  have n: "nentries n = []" "length (nchildren n) < 2 ^ 64" "list_all link_ok (nchildren n)"
    using assms False by (simp_all add: node_ok_def)
  obtain b where b: "append_links (nchildren n) = Inr b" using append_links_ok[OF n(3)] by blast
  let ?c = "of_nat (length (nchildren n)) :: uint64"
  have c: "unat ?c = length (nchildren n)" using n(2) by (simp add: unat_of_nat)
  let ?d = "[nodeMagic, nodeCodecVersion, nlevel n] @ append_uvarint ?c @ b"
  let ?r = "\<lparr>rhash = h, rdata = ?d, rpos = 3 + length (append_uvarint ?c), rlevel = nlevel n,
    rremaining = unat ?c\<rparr>"
  have new: "newNodeReader h ?d = Inr ?r"
    by (rule newNodeReader_encoded) (simp add: c append_links_length[OF b])
  have "decode_links ?r [] = Inr ([] @ nchildren n, radvance (length b) (length (nchildren n)) ?r)"
    using n(3) b by (intro decode_links_append[of _ _ _ "[]"]) (simp_all add: c rrest_def numeral_3_eq_3)
  then have "reader_decode ?r = Inr n"
    using False n(1) by (simp add: reader_decode_def reader_finish_def c)
  then have "decodeNode h ?d = Inr n" by (simp only: decodeNode_def new sum.case)
  moreover have "encodeNode n = Inr ?d" using False b by (simp add: encodeNode_def)
  ultimately show ?thesis by blast
qed

end
