(* ===== verification/Chunking.thy ===== *)
theory Chunking
  imports Node_Codec
begin

text \<open>
  The chunking rule of \<open>common/prolly/tree.go\<close>: options, the boundary hash of a key, \<open>shouldCut\<close>
  and \<open>chunk\<close>. The lemmas show that chunks partition the input, bound their sizes, make the
  number of items at least halve per level when \<open>MinChunkEntries \<ge> 2\<close>, and that a cut makes
  what follows independent of what precedes: the content-local boundaries \<open>Apply\<close> relies on.
\<close>

section \<open>Options and boundary hashes\<close>

record options =
  MinChunkEntries :: int
  MaxChunkEntries :: int
  BoundaryBits :: byte

definition DefaultOptions :: options where
  "DefaultOptions = \<lparr>MinChunkEntries = 64, MaxChunkEntries = 256, BoundaryBits = 6\<rparr>"

definition options_validate :: "options \<Rightarrow> error + unit" where
  "options_validate o1 =
     (if MinChunkEntries o1 < 1 \<or> MaxChunkEntries o1 < 2 \<or> MaxChunkEntries o1 < MinChunkEntries o1
      then Inl InvalidChunkSizes
      else if BoundaryBits o1 < 1 \<or> BoundaryBits o1 > 63 then Inl InvalidBoundaryBits
      else Inr ())"

text \<open>\<open>fnv.New64a\<close> of the Go library: xor the byte, multiply by the prime.\<close>

definition fnv64a :: "bytes \<Rightarrow> uint64" where
  "fnv64a key = foldl (\<lambda>h b. (h XOR ucast b) * 1099511628211) 14695981039346656037 key"

definition keyBoundaryHash :: "bytes \<Rightarrow> uint64" where
  "keyBoundaryHash key =
     (let x = fnv64a key;
          x = x XOR drop_bit 30 x;
          x = x * 0xbf58476d1ce4e5b9;
          x = x XOR drop_bit 27 x;
          x = x * 0x94d049bb133111eb;
          x = x XOR drop_bit 31 x
      in x)"

definition entryBoundaryHash :: "entry \<Rightarrow> uint64" where
  "entryBoundaryHash e = keyBoundaryHash (ekey e)"

definition linkBoundaryHash :: "link \<Rightarrow> uint64" where
  "linkBoundaryHash l = keyBoundaryHash (lmax l)"

definition shouldCut :: "nat \<Rightarrow> uint64 \<Rightarrow> options \<Rightarrow> bool" where
  "shouldCut sz hash o1 =
     (let m = push_bit (unat (BoundaryBits o1)) 1 - 1
      in int sz \<ge> MaxChunkEntries o1 \<or> (int sz \<ge> MinChunkEntries o1 \<and> hash AND m = 0))"

section \<open>Chunking a list\<close>

text \<open>
  The loop of \<open>chunk\<close>; \<open>cur\<close> is the open slice \<open>[start, i)\<close>. A slice still open at the end is
  the last group.
\<close>

fun chunk_loop :: "options \<Rightarrow> ('a \<Rightarrow> uint64) \<Rightarrow> 'a list \<Rightarrow> 'a list \<Rightarrow> 'a list list" where
  "chunk_loop o1 bh cur [] = (if cur = [] then [] else [cur])"
| "chunk_loop o1 bh cur (x # xs) =
     (if shouldCut (length cur + 1) (bh x) o1 then (cur @ [x]) # chunk_loop o1 bh [] xs
      else chunk_loop o1 bh (cur @ [x]) xs)"

definition chunk :: "options \<Rightarrow> ('a \<Rightarrow> uint64) \<Rightarrow> 'a list \<Rightarrow> 'a list list" where
  "chunk o1 bh xs = chunk_loop o1 bh [] xs"

definition chunkEntries :: "entry list \<Rightarrow> options \<Rightarrow> entry list list" where
  "chunkEntries es o1 = chunk o1 entryBoundaryHash es"

definition chunkLinks :: "link list \<Rightarrow> options \<Rightarrow> link list list" where
  "chunkLinks ls o1 = chunk o1 linkBoundaryHash ls"

section \<open>Incremental chunking\<close>

text \<open>
  The state machine behind \<open>leafChunker\<close> and \<open>SortedBuilder\<close>: the groups closed so far while
  reading \<open>xs\<close> with \<open>cur\<close> open, and the slice left open.
\<close>

fun chunk_run :: "options \<Rightarrow> ('a \<Rightarrow> uint64) \<Rightarrow> 'a list \<Rightarrow> 'a list \<Rightarrow> 'a list list \<times> 'a list" where
  "chunk_run o1 bh cur [] = ([], cur)"
| "chunk_run o1 bh cur (x # xs) =
     (if shouldCut (length cur + 1) (bh x) o1
      then let (gs, cur') = chunk_run o1 bh [] xs in ((cur @ [x]) # gs, cur')
      else chunk_run o1 bh (cur @ [x]) xs)"

abbreviation closed_groups :: "options \<Rightarrow> ('a \<Rightarrow> uint64) \<Rightarrow> 'a list \<Rightarrow> 'a list \<Rightarrow> 'a list list" where
  "closed_groups o1 bh cur xs \<equiv> fst (chunk_run o1 bh cur xs)"

abbreviation open_group :: "options \<Rightarrow> ('a \<Rightarrow> uint64) \<Rightarrow> 'a list \<Rightarrow> 'a list \<Rightarrow> 'a list" where
  "open_group o1 bh cur xs \<equiv> snd (chunk_run o1 bh cur xs)"

definition flush_group :: "'a list \<Rightarrow> 'a list list" where
  "flush_group cur = (if cur = [] then [] else [cur])"

lemma chunk_loop_run:
  "chunk_loop o1 bh cur xs = closed_groups o1 bh cur xs @ flush_group (open_group o1 bh cur xs)"
  by (induction o1 bh cur xs rule: chunk_loop.induct) (auto simp: flush_group_def split: prod.splits)

lemma chunk_run_append:
  "chunk_run o1 bh cur (xs @ ys) =
    (closed_groups o1 bh cur xs @ closed_groups o1 bh (open_group o1 bh cur xs) ys,
     open_group o1 bh (open_group o1 bh cur xs) ys)"
  by (induction o1 bh cur xs rule: chunk_run.induct) (auto split: prod.splits)

text \<open>A cut makes the rest independent of what came before.\<close>

lemma chunk_loop_append:
  "chunk_loop o1 bh cur (xs @ ys) =
    closed_groups o1 bh cur xs @ chunk_loop o1 bh (open_group o1 bh cur xs) ys"
  by (simp add: chunk_loop_run chunk_run_append)

lemma chunk_append_cut:
  "open_group o1 bh [] xs = [] \<Longrightarrow> chunk o1 bh (xs @ ys) = chunk o1 bh xs @ chunk o1 bh ys"
  by (simp add: chunk_def chunk_loop_append) (simp add: chunk_loop_run flush_group_def)

lemma concat_chunk_loop: "concat (chunk_loop o1 bh cur xs) = cur @ xs"
  by (induction o1 bh cur xs rule: chunk_loop.induct) auto

lemma concat_chunk [simp]: "concat (chunk o1 bh xs) = xs"
  by (simp add: chunk_def concat_chunk_loop)

lemma concat_chunk_run: "concat (closed_groups o1 bh cur xs) @ open_group o1 bh cur xs = cur @ xs"
  by (induction o1 bh cur xs rule: chunk_run.induct) (auto split: prod.splits)

lemma chunk_loop_nonempty: "g \<in> set (chunk_loop o1 bh cur xs) \<Longrightarrow> g \<noteq> []"
  by (induction o1 bh cur xs rule: chunk_loop.induct) (auto split: if_splits)

lemma chunk_nonempty [dest]: "g \<in> set (chunk o1 bh xs) \<Longrightarrow> g \<noteq> []"
  by (auto simp: chunk_def dest: chunk_loop_nonempty)

lemma chunk_Nil [simp]: "chunk o1 bh [] = []"
  by (simp add: chunk_def)

lemma chunk_eq_Nil [simp]: "chunk o1 bh xs = [] \<longleftrightarrow> xs = []"
  by (metis chunk_Nil concat.simps(1) concat_chunk)

text \<open>Chunking depends on the boundary hashes only, so it commutes with maps that keep them.\<close>

lemma chunk_run_map:
  assumes "\<And>x. bh' (f x) = bh x"
  shows "chunk_run o1 bh' (map f cur) (map f xs) =
    (map (map f) (closed_groups o1 bh cur xs), map f (open_group o1 bh cur xs))"
proof (induction xs arbitrary: cur)
  case (Cons x xs)
  show ?case
    using Cons.IH[of "[]"] Cons.IH[of "cur @ [x]"] by (simp add: assms split: prod.splits)
qed simp

lemma chunk_map:
  assumes "\<And>x. bh' (f x) = bh x"
  shows "chunk o1 bh' (map f xs) = map (map f) (chunk o1 bh xs)"
  using chunk_run_map[where cur = "[]" and bh' = bh' and f = f and bh = bh and xs = xs and ?o1.0 = o1] assms
  by (simp add: chunk_def chunk_loop_run flush_group_def)

text \<open>The first groups of a chunking, when more follow, are a run that ends with a cut.\<close>

lemma chunk_loop_first:
  assumes "chunk_loop o1 bh cur xs = g # gs" "gs \<noteq> []"
  shows "\<exists>ys zs. xs = ys @ zs \<and> g = cur @ ys \<and> chunk_run o1 bh cur ys = ([g], []) \<and> chunk o1 bh zs = gs"
  using assms(1)
proof (induction xs arbitrary: cur)
  case Nil
  then show ?case using assms(2) by (simp split: if_splits)
next
  case (Cons x xs)
  show ?case
  proof (cases "shouldCut (length cur + 1) (bh x) o1")
    case True
    then have "chunk_run o1 bh cur [x] = ([g], []) \<and> g = cur @ [x] \<and> chunk o1 bh xs = gs"
      using Cons.prems by (simp add: chunk_def)
    then show ?thesis by (intro exI[of _ "[x]"] exI[of _ xs]) simp
  next
    case False
    then obtain ys zs where "xs = ys @ zs" "g = (cur @ [x]) @ ys" "chunk_run o1 bh (cur @ [x]) ys = ([g], [])" "chunk o1 bh zs = gs"
      using Cons.IH[of "cur @ [x]"] Cons.prems by auto
    then show ?thesis using False by (intro exI[of _ "x # ys"] exI[of _ zs]) simp
  qed
qed

lemma chunk_split:
  assumes "chunk o1 bh xs = P @ R" "R \<noteq> []"
  shows "chunk_run o1 bh [] (concat P) = (P, []) \<and> chunk o1 bh (concat R) = R"
  using assms(1)
proof (induction P arbitrary: xs)
  case Nil
  then show ?case by (metis append_Nil chunk_run.simps(1) concat.simps(1) concat_chunk)
next
  case (Cons g P)
  obtain zs where z: "chunk_run o1 bh [] g = ([g], [])" "chunk o1 bh zs = P @ R"
    using chunk_loop_first[of o1 bh "[]" xs g "P @ R"] Cons.prems assms(2) by (auto simp: chunk_def)
  then show ?case using Cons.IH[OF z(2)] by (simp add: chunk_run_append)
qed

lemma chunk_suffix: "chunk o1 bh xs = P @ R \<Longrightarrow> chunk o1 bh (concat R) = R"
  using chunk_split[of o1 bh xs P R] by (cases "R = []") auto

section \<open>Sizes\<close>

lemma options_validate_ok:
  "options_validate o1 = Inr u \<longleftrightarrow>
    1 \<le> MinChunkEntries o1 \<and> 2 \<le> MaxChunkEntries o1 \<and> MinChunkEntries o1 \<le> MaxChunkEntries o1
    \<and> 1 \<le> BoundaryBits o1 \<and> BoundaryBits o1 \<le> 63"
proof -
  have "(BoundaryBits o1 < 1 \<or> BoundaryBits o1 > 63) \<longleftrightarrow> \<not> (1 \<le> BoundaryBits o1 \<and> BoundaryBits o1 \<le> 63)"
    by (simp only: not_le[symmetric] de_Morgan_conj)
  then show ?thesis by (simp add: options_validate_def)
qed

lemma shouldCut_min:
  assumes "shouldCut n h o1" "MinChunkEntries o1 \<le> MaxChunkEntries o1"
  shows "MinChunkEntries o1 \<le> int n"
  using assms by (auto simp: shouldCut_def Let_def)

lemma shouldCut_max: "MaxChunkEntries o1 \<le> int n \<Longrightarrow> shouldCut n h o1"
  by (simp add: shouldCut_def)

lemma closed_groups_min:
  assumes "MinChunkEntries o1 \<le> MaxChunkEntries o1" "g \<in> set (closed_groups o1 bh cur xs)"
  shows "MinChunkEntries o1 \<le> int (length g)"
  using assms(2)
proof (induction xs arbitrary: cur)
  case (Cons x xs)
  show ?case
  proof (cases "shouldCut (length cur + 1) (bh x) o1")
    case True
    then consider "g = cur @ [x]" | "g \<in> set (closed_groups o1 bh [] xs)"
      using Cons.prems by (auto split: prod.splits)
    then show ?thesis
      using Cons.IH[of "[]"] shouldCut_min[OF True assms(1)] by cases auto
  next
    case False
    then show ?thesis using Cons by simp
  qed
qed simp

lemma chunk_loop_max:
  assumes "1 \<le> MaxChunkEntries o1" "int (length cur) < MaxChunkEntries o1" "g \<in> set (chunk_loop o1 bh cur xs)"
  shows "int (length g) \<le> MaxChunkEntries o1"
  using assms(2,3)
proof (induction xs arbitrary: cur)
  case (Cons x xs)
  show ?case
  proof (cases "shouldCut (length cur + 1) (bh x) o1")
    case True
    then consider "g = cur @ [x]" | "g \<in> set (chunk_loop o1 bh [] xs)"
      using Cons.prems by auto
    then show ?thesis
      using Cons.IH[of "[]"] Cons.prems(1) assms(1) by cases auto
  next
    case False
    then have "int (length (cur @ [x])) < MaxChunkEntries o1"
      using shouldCut_max[of o1 "length cur + 1" "bh x"] by force
    with False Cons.prems(2) Cons.IH[of "cur @ [x]"] show ?thesis by simp
  qed
qed (auto split: if_splits)

lemma chunk_max:
  "options_validate o1 = Inr u \<Longrightarrow> g \<in> set (chunk o1 bh xs) \<Longrightarrow> int (length g) \<le> MaxChunkEntries o1"
  unfolding chunk_def by (rule chunk_loop_max) (auto simp: options_validate_ok)

text \<open>All chunks but the last have at least \<open>MinChunkEntries\<close> items.\<close>

lemma chunk_butlast_min:
  assumes "options_validate o1 = Inr u" "g \<in> set (butlast (chunk o1 bh xs))"
  shows "MinChunkEntries o1 \<le> int (length g)"
proof -
  have "g \<in> set (closed_groups o1 bh [] xs)"
    using assms(2) by (auto simp: chunk_def chunk_loop_run flush_group_def dest: in_set_butlastD split: if_splits)
  then show ?thesis using assms(1) by (intro closed_groups_min) (auto simp: options_validate_ok)
qed

lemma sum_length_ge:
  "\<forall>g \<in> set gs. m \<le> length g \<Longrightarrow> m * length gs \<le> length (concat gs)"
  by (induction gs) auto

text \<open>With \<open>MinChunkEntries \<ge> 2\<close> there are at most half as many chunks as items, rounded up.\<close>

lemma length_chunk_le:
  assumes "options_validate o1 = Inr u" "2 \<le> MinChunkEntries o1"
  shows "length (chunk o1 bh xs) \<le> (length xs + 1) div 2"
proof (cases "chunk o1 bh xs = []")
  case False
  then obtain gs g where gs: "chunk o1 bh xs = gs @ [g]" by (metis rev_exhaust)
  have "\<forall>h \<in> set gs. 2 \<le> length h"
    using chunk_butlast_min[OF assms(1), of _ bh xs] assms(2) gs by fastforce
  then have "2 * length gs \<le> length (concat gs)" by (rule sum_length_ge)
  moreover have "length xs = length (concat gs) + length g"
    using concat_chunk[of o1 bh xs] gs by (metis concat.simps(1) concat.simps(2) concat_append length_append append_Nil2)
  moreover have "g \<noteq> []" using gs chunk_nonempty[of g o1 bh xs] by simp
  ultimately show ?thesis using gs by (cases g) auto
qed simp

lemma length_chunk_less:
  assumes "options_validate o1 = Inr u" "2 \<le> MinChunkEntries o1" "2 \<le> length xs"
  shows "length (chunk o1 bh xs) < length xs"
  using length_chunk_le[OF assms(1,2), of bh xs] assms(3) by linarith

end
