(* ===== verification/Node_Search.thy ===== *)
theory Node_Search
  imports Node_Codec
begin

text \<open>
  \<open>common/prolly/offsets.go\<close>: the process-wide cache of item offsets and the binary search of a
  node through them. The cache is passed as state. Eviction drops an arbitrary entry of a full
  shard (the first key a Go map iteration yields): the choice is the argument \<open>pick\<close>.
\<close>

section \<open>The offset cache\<close>

type_synonym offset_shard = "(hash \<times> 32 word list) list"
type_synonym offset_cache = "nat \<Rightarrow> offset_shard"

definition offsetCacheShards :: nat where "offsetCacheShards = 16"

definition offsetCacheEntriesPerShard :: nat where "offsetCacheEntriesPerShard = 4096"

definition offsetShard :: "hash \<Rightarrow> nat" where
  "offsetShard hash =
     unat (foldl (\<lambda>h c. h * 31 + ucast c) (0 :: 32 word) (take 8 hash) mod of_nat offsetCacheShards)"

function item_offsets_loop :: "reader \<Rightarrow> 32 word list \<Rightarrow> error + 32 word list" where
  "item_offsets_loop r acc =
     (if rremaining r > 0 then
        let acc' = acc @ [of_nat (rpos r)]
        in if rlevel r = 0 then
             (case nextEntry r of Inl e \<Rightarrow> Inl e | Inr (_, r') \<Rightarrow> item_offsets_loop r' acc')
           else
             (case nextLinkRaw r of Inl e \<Rightarrow> Inl e | Inr (_, r') \<Rightarrow> item_offsets_loop r' acc')
      else case reader_finish r of Inl e \<Rightarrow> Inl e | Inr _ \<Rightarrow> Inr acc)"
  by pat_completeness auto
termination
  by (relation "measure (\<lambda>(r, acc). rremaining r)") (auto dest!: nextEntry_frame nextLinkRaw_frame)

declare item_offsets_loop.simps [simp del]

definition shard_insert :: "(offset_shard \<Rightarrow> hash) \<Rightarrow> hash \<Rightarrow> 32 word list \<Rightarrow> offset_shard \<Rightarrow> offset_shard" where
  "shard_insert pick h offsets shard =
     (let shard' = (if length shard \<ge> offsetCacheEntriesPerShard
                    then filter (\<lambda>(k, _). k \<noteq> pick shard) shard else shard)
      in (h, offsets) # filter (\<lambda>(k, _). k \<noteq> h) shard')"

definition itemOffsets ::
  "(offset_shard \<Rightarrow> hash) \<Rightarrow> offset_cache \<Rightarrow> reader \<Rightarrow> (error + 32 word list) \<times> offset_cache" where
  "itemOffsets pick c r =
     (let i = offsetShard (rhash r); shard = c i
      in case map_of shard (rhash r) of
           Some offsets \<Rightarrow> (Inr offsets, c)
         | None \<Rightarrow>
             (case item_offsets_loop r [] of
                Inl e \<Rightarrow> (Inl e, c)
              | Inr offsets \<Rightarrow> (Inr offsets, c(i := shard_insert pick (rhash r) offsets shard))))"

section \<open>Searching a node\<close>

definition reader_at :: "reader \<Rightarrow> 32 word \<Rightarrow> reader" where
  "reader_at r offset = r\<lparr>rpos := unat offset, rremaining := 1\<rparr>"

text \<open>
  \<open>sort.Search\<close> with the closure of \<open>search\<close>: it reads an item's key field, and a key that
  cannot be read is remembered in \<open>searchErr\<close> and counted as a hit.
\<close>

function probe_loop ::
  "(nat \<Rightarrow> error + bytes) \<Rightarrow> bytes \<Rightarrow> nat \<Rightarrow> nat \<Rightarrow> error option \<Rightarrow> nat \<times> error option" where
  "probe_loop item key i j searchErr =
     (if i < j then
        let h = (i + j) div 2
        in case item h of
             Inl e \<Rightarrow> probe_loop item key i h (Some e)
           | Inr k \<Rightarrow>
               if k \<ge> key then probe_loop item key i h searchErr
               else probe_loop item key (h + 1) j searchErr
      else (i, searchErr))"
  by pat_completeness auto
termination
  by (relation "measure (\<lambda>(item, key, i, j, e). j - i)") auto

declare probe_loop.simps [simp del]

definition item_key :: "reader \<Rightarrow> 32 word list \<Rightarrow> nat \<Rightarrow> error + bytes" where
  "item_key r offsets i = (case reader_field (reader_at r (offsets ! i)) of Inl e \<Rightarrow> Inl e | Inr (k, _) \<Rightarrow> Inr k)"

definition reader_search ::
  "(offset_shard \<Rightarrow> hash) \<Rightarrow> offset_cache \<Rightarrow> reader \<Rightarrow> bytes \<Rightarrow> (error + nat \<times> reader) \<times> offset_cache" where
  "reader_search pick c r key =
     (case itemOffsets pick c r of
        (Inl e, c') \<Rightarrow> (Inl e, c')
      | (Inr offsets, c') \<Rightarrow>
          (case probe_loop (item_key r offsets) key 0 (length offsets) None of
             (_, Some e) \<Rightarrow> (Inl e, c')
           | (i, None) \<Rightarrow>
               if i = length offsets then (Inr (i, r), c')
               else (Inr (i, reader_at r (offsets ! i)), c')))"

lemma probe_loop_search:
  assumes "\<And>i. i < j \<Longrightarrow> item i = Inr (ks i)"
  shows "probe_loop item key i j err = (search_loop (\<lambda>i. ks i \<ge> key) i j, err)"
  using assms
proof (induction "j - i" arbitrary: i j rule: less_induct)
  case less
  show ?case
  proof (cases "i < j")
    case False
    then show ?thesis by (simp add: probe_loop.simps search_loop.simps)
  next
    case True
    define h where "h = (i + j) div 2"
    have h: "i \<le> h" "h < j" using True by (auto simp: h_def)
    have "probe_loop item key i h err = (search_loop (\<lambda>i. ks i \<ge> key) i h, err)"
      "probe_loop item key (h + 1) j err = (search_loop (\<lambda>i. ks i \<ge> key) (h + 1) j, err)"
      using h less.prems by (auto intro!: less.hyps)
    moreover have "probe_loop item key i j err =
      (if ks h \<ge> key then probe_loop item key i h err else probe_loop item key (h + 1) j err)"
      using True less.prems[OF h(2)] by (subst probe_loop.simps) (simp add: h_def Let_def)
    moreover have "search_loop (\<lambda>i. ks i \<ge> key) i j =
      (if ks h \<ge> key then search_loop (\<lambda>i. ks i \<ge> key) i h else search_loop (\<lambda>i. ks i \<ge> key) (h + 1) j)"
      using True by (subst search_loop.simps) (simp add: h_def Let_def)
    ultimately show ?thesis by simp
  qed
qed

section \<open>Searching an encoded node\<close>

text \<open>
  \<open>items_at r items\<close>: the reader stands at the first of the remaining items, whose encodings
  are \<open>items\<close> and which end the node. It covers leaf entries and interior links alike.
\<close>

fun item_starts :: "nat \<Rightarrow> bytes list \<Rightarrow> nat list" where
  "item_starts p [] = []"
| "item_starts p (x # xs) = p # item_starts (p + length x) xs"

lemma length_item_starts [simp]: "length (item_starts p xs) = length xs"
  by (induction xs arbitrary: p) auto

lemma nth_item_starts: "i < length xs \<Longrightarrow> item_starts p xs ! i = p + length (concat (take i xs))"
proof (induction xs arbitrary: p i)
  case (Cons x xs)
  then show ?case by (cases i) auto
qed simp

lemma drop_item_starts:
  assumes "drop p data = concat xs" "i < length xs"
  shows "drop (item_starts p xs ! i) data = xs ! i @ concat (drop (Suc i) xs)"
proof -
  have "drop (item_starts p xs ! i) data = drop (length (concat (take i xs))) (concat xs)"
    using assms by (metis nth_item_starts add.commute drop_drop)
  also have "concat xs = concat (take i xs) @ concat (drop i xs)"
    by (metis append_take_drop_id concat_append)
  also have "drop (length (concat (take i xs))) \<dots> = concat (drop i xs)" by simp
  also have "drop i xs = xs ! i # drop (Suc i) xs" using assms(2) by (simp add: Cons_nth_drop_Suc)
  finally show ?thesis by simp
qed

definition cache_ok :: "(hash \<Rightarrow> error + bytes) \<Rightarrow> offset_cache \<Rightarrow> bool" where
  "cache_ok get c \<longleftrightarrow>
     (\<forall>i h offsets data r. map_of (c i) h = Some offsets \<longrightarrow> get h = Inr data \<longrightarrow>
        newNodeReader h data = Inr r \<longrightarrow> item_offsets_loop r [] = Inr offsets)"

lemma cache_ok_empty: "cache_ok get (\<lambda>_. [])"
  by (simp add: cache_ok_def)

lemma newNodeReader_hash: "newNodeReader h data = Inr r \<Longrightarrow> rhash r = h"
  by (auto simp: newNodeReader_def split: if_splits sum.splits dest!: reader_uvarint_frame)

lemma map_of_filter_key: "map_of (filter (\<lambda>(k, _). P k) xs) h = (if P h then map_of xs h else None)"
  by (induction xs) auto

lemma shard_insert_Some:
  assumes "map_of (shard_insert pick h offs shard) h' = Some offs'"
  shows "h' = h \<and> offs' = offs \<or> map_of shard h' = Some offs'"
  using assms by (auto simp: shard_insert_def Let_def map_of_filter_key split: if_splits)

text \<open>With a correct cache the offsets are the ones a parse of the node computes.\<close>

lemma itemOffsets_correct:
  assumes "cache_ok get c" "get h = Inr data" "newNodeReader h data = Inr r"
    "item_offsets_loop r [] = Inr offs"
  shows "\<exists>c'. itemOffsets pick c r = (Inr offs, c') \<and> cache_ok get c'"
proof (cases "map_of (c (offsetShard h)) h")
  case (Some offs')
  then have "offs' = offs" using assms unfolding cache_ok_def by fastforce
  then show ?thesis
    using Some assms newNodeReader_hash[OF assms(3)] by (simp add: itemOffsets_def)
next
  case None
  let ?c = "c(offsetShard h := shard_insert pick h offs (c (offsetShard h)))"
  have "itemOffsets pick c r = (Inr offs, ?c)"
    using None assms(4) newNodeReader_hash[OF assms(3)] by (simp add: itemOffsets_def Let_def)
  moreover have "cache_ok get ?c"
    using assms by (auto simp: cache_ok_def dest!: shard_insert_Some split: if_splits)
  ultimately show ?thesis by blast
qed

lemma append_entries_concat: "append_entries es = concat (map append_entry es)"
  by (induction es) auto

definition enc_link :: "link \<Rightarrow> bytes" where
  "enc_link c = append_bytes (lmax c) @ append_uvarint (lcount c) @ the (hex_decode (lhash c))"

lemma append_links_concat: "list_all link_ok cs \<Longrightarrow> append_links cs = Inr (concat (map enc_link cs))"
  by (induction cs) (auto simp: link_ok_def enc_link_def)

lemma item_offsets_loop_leaf:
  assumes "rlevel r = 0" "rremaining r = length es" "rrest r = append_entries es"
    "list_all entry_ok es" "rpos r \<le> length (rdata r)"
  shows "item_offsets_loop r acc =
    Inr (acc @ map of_nat (item_starts (rpos r) (map append_entry es)))"
  using assms
proof (induction es arbitrary: r acc)
  case Nil
  then have "rpos r = length (rdata r)" by (simp add: rrest_def)
  with Nil show ?case by (simp add: item_offsets_loop.simps reader_finish_def)
next
  case (Cons e es)
  let ?r = "radvance (length (append_entry e)) 1 r"
  have n: "nextEntry r = Inr (e, ?r)"
    using Cons.prems by (intro nextEntry_append[of _ _ "append_entries es"]) simp_all
  have "length (append_entry e) \<le> length (rdata r) - rpos r"
    using Cons.prems(3) by (metis append_entries.simps(2) length_append le_add1 length_drop rrest_def)
  then have "item_offsets_loop ?r (acc @ [of_nat (rpos r)]) =
      Inr ((acc @ [of_nat (rpos r)]) @ map of_nat (item_starts (rpos ?r) (map append_entry es)))"
    using Cons.prems by (intro Cons.IH) (simp_all add: rrest_radvance)
  then show ?case
    using Cons.prems(1,2) n by (subst item_offsets_loop.simps) simp
qed

lemma item_offsets_loop_links:
  assumes "rlevel r \<noteq> 0" "rremaining r = length cs" "rrest r = concat (map enc_link cs)"
    "list_all link_ok cs" "rpos r \<le> length (rdata r)"
  shows "item_offsets_loop r acc =
    Inr (acc @ map of_nat (item_starts (rpos r) (map enc_link cs)))"
  using assms
proof (induction cs arbitrary: r acc)
  case Nil
  then have "rpos r = length (rdata r)" by (simp add: rrest_def)
  with Nil show ?case by (simp add: item_offsets_loop.simps reader_finish_def)
next
  case (Cons c cs)
  let ?r = "radvance (length (enc_link c)) 1 r"
  obtain raw where raw: "length raw = hashSize" "lhash c = hex_encode raw" "length (lmax c) < 2 ^ 64"
    using Cons.prems(4) by (auto simp: link_ok_def)
  have n: "nextLinkRaw r = Inr ((lmax c, lcount c, raw), ?r)"
    using Cons.prems(3) raw nextLinkRaw_append[of r "lmax c" "lcount c" raw "concat (map enc_link cs)"]
    by (simp add: enc_link_def[of c])
  have "length (enc_link c) \<le> length (rdata r) - rpos r"
    using Cons.prems(3) by (metis concat.simps(2) length_append le_add1 length_drop list.simps(9) rrest_def)
  then have "item_offsets_loop ?r (acc @ [of_nat (rpos r)]) =
      Inr ((acc @ [of_nat (rpos r)]) @ map of_nat (item_starts (rpos ?r) (map enc_link cs)))"
    using Cons.prems by (intro Cons.IH) (simp_all add: rrest_radvance)
  then show ?case
    using Cons.prems(1,2) n by (subst item_offsets_loop.simps) simp
qed

lemma sorted_key_mono:
  fixes ks :: "bytes list"
  assumes "sorted ks"
  shows "sorted_wrt (\<lambda>x y. x \<ge> key \<longrightarrow> y \<ge> key) ks"
  using assms by (induction ks) (auto intro: order_trans)

lemma search_sorted_keys:
  fixes ks :: "bytes list"
  assumes "sorted ks"
  shows "sort_search (length ks) (\<lambda>i. ks ! i \<ge> key) = length (takeWhile (\<lambda>k. k < key) ks)"
  using sort_search_takeWhile[OF sorted_key_mono[OF assms], of key] by (simp add: not_le)

text \<open>
  The search of a node whose items start with sorted keys: the index of the first key not below
  the wanted one, and a reader that stands at that item.
\<close>

lemma reader_search_correct:
  fixes ks :: "bytes list" and key :: bytes
  assumes c: "cache_ok get c" and get: "get h = Inr data" and new: "newNodeReader h data = Inr r"
    and offs: "item_offsets_loop r [] = Inr (map of_nat (item_starts (rpos r) items))"
    and small: "length data < 2 ^ 32" and rdata: "rdata r = data" and items: "drop (rpos r) data = concat items"
    and ks: "length ks = length items" "sorted ks"
    and keys: "\<And>i. i < length items \<Longrightarrow> \<exists>b. items ! i = append_bytes (ks ! i) @ b \<and> length (ks ! i) < 2 ^ 64"
  defines "i \<equiv> length (takeWhile (\<lambda>k. k < key) ks)"
  shows "\<exists>c'. cache_ok get c' \<and> reader_search pick c r key =
    (Inr (i, if i = length items then r else r\<lparr>rpos := item_starts (rpos r) items ! i, rremaining := 1\<rparr>), c')"
proof -
  let ?offs = "map of_nat (item_starts (rpos r) items) :: 32 word list"
  have at: "unat (?offs ! j) = item_starts (rpos r) items ! j" if "j < length items" for j
  proof -
    have "items ! j \<noteq> []" using keys[OF that] length_append_bytes[of "ks ! j"] by auto
    then have "item_starts (rpos r) items ! j < length data"
      using drop_item_starts[OF items that] by (metis append_is_Nil_conv drop_all not_le)
    then show ?thesis using small that by (simp add: unat_of_nat)
  qed
  have item: "item_key r ?offs j = Inr (ks ! j)" if j: "j < length items" for j
  proof -
    obtain b where b: "items ! j = append_bytes (ks ! j) @ b" "length (ks ! j) < 2 ^ 64"
      using keys[OF j] by blast
    have "rrest (reader_at r (?offs ! j)) = append_bytes (ks ! j) @ b @ concat (drop (Suc j) items)"
      using drop_item_starts[OF items j] b at[OF j] by (simp add: rrest_def reader_at_def rdata)
    then show ?thesis using reader_field_append b(2) by (simp add: item_key_def)
  qed
  obtain c' where c': "itemOffsets pick c r = (Inr ?offs, c')" "cache_ok get c'"
    using itemOffsets_correct[OF c get new offs] by blast
  have probe: "probe_loop (item_key r ?offs) key 0 (length ?offs) None = (i, None)"
  proof -
    have "probe_loop (item_key r ?offs) key 0 (length ?offs) None =
        (search_loop (\<lambda>j. ks ! j \<ge> key) 0 (length ?offs), None)"
      by (rule probe_loop_search) (simp add: item)
    then show ?thesis
      using search_sorted_keys[OF ks(2), of key] by (simp add: sort_search_def i_def ks(1))
  qed
  have "i \<le> length items" using length_takeWhile_le[of "\<lambda>k. k < key" ks] ks(1) by (simp add: i_def)
  then show ?thesis
    using c' at[of i] probe by (auto simp: reader_search_def reader_at_def)
qed

end
