(* ===== verification/Prolly_Tree.thy ===== *)
theory Prolly_Tree
  imports Chunking Node_Search
begin

text \<open>
  The abstract Prolly tree: the specification the stored trees are measured against.
  A \<open>ptree\<close> is the tree of nodes without hashes; links are derived from it, so a \<open>ptree\<close> has the
  maximal keys and counts every link of a well-formed stored tree must carry. \<open>canon\<close> is the
  canonical tree of a sorted entry list, \<open>pstored\<close> says that a store holds a tree.
\<close>

section \<open>Trees, their entries and their encodings\<close>

datatype ptree = PLeaf "entry list" | PNode byte "ptree list"

fun pentries :: "ptree \<Rightarrow> entry list" where
  "pentries (PLeaf es) = es"
| "pentries (PNode l ts) = concat (map pentries ts)"

fun plevel :: "ptree \<Rightarrow> byte" where
  "plevel (PLeaf es) = 0"
| "plevel (PNode l ts) = l"

definition pmax :: "ptree \<Rightarrow> bytes" where
  "pmax t = ekey (last (pentries t))"

definition pcount :: "ptree \<Rightarrow> uint64" where
  "pcount t = of_nat (length (pentries t))"

fun pnode :: "(bytes \<Rightarrow> bytes) \<Rightarrow> ptree \<Rightarrow> node" where
  "pnode H (PLeaf es) = \<lparr>nlevel = 0, nentries = es, nchildren = []\<rparr>"
| "pnode H (PNode l ts) = \<lparr>nlevel = l, nentries = [],
     nchildren = map (\<lambda>t. \<lparr>lmax = pmax t, lcount = pcount t,
       lhash = storage_Sum H (projr (encodeNode (pnode H t)))\<rparr>) ts\<rparr>"

definition pdata :: "(bytes \<Rightarrow> bytes) \<Rightarrow> ptree \<Rightarrow> bytes" where
  "pdata H t = projr (encodeNode (pnode H t))"

definition proot :: "(bytes \<Rightarrow> bytes) \<Rightarrow> ptree \<Rightarrow> hash" where
  "proot H t = storage_Sum H (pdata H t)"

definition plink :: "(bytes \<Rightarrow> bytes) \<Rightarrow> ptree \<Rightarrow> link" where
  "plink H t = \<lparr>lmax = pmax t, lcount = pcount t, lhash = proot H t\<rparr>"

lemma pnode_PNode: "pnode H (PNode l ts) = \<lparr>nlevel = l, nentries = [], nchildren = map (plink H) ts\<rparr>"
  by (simp add: plink_def proot_def pdata_def)

lemma plink_simps [simp]: "lmax (plink H t) = pmax t" "lcount (plink H t) = pcount t" "lhash (plink H t) = proot H t"
  by (simp_all add: plink_def)

lemma pnode_level [simp]: "nlevel (pnode H t) = plevel t"
  by (cases t) simp_all

fun psubtrees :: "ptree \<Rightarrow> ptree set" where
  "psubtrees (PLeaf es) = {PLeaf es}"
| "psubtrees (PNode l ts) = insert (PNode l ts) (\<Union>t \<in> set ts. psubtrees t)"

lemma psubtrees_self [simp]: "t \<in> psubtrees t"
  by (cases t) simp_all

definition pobjects :: "(bytes \<Rightarrow> bytes) \<Rightarrow> ptree \<Rightarrow> bytes set" where
  "pobjects H t = pdata H ` psubtrees t"

lemma pobjects_PLeaf: "pobjects H (PLeaf es) = {pdata H (PLeaf es)}"
  by (simp add: pobjects_def)

lemma pobjects_PNode: "pobjects H (PNode l ts) = insert (pdata H (PNode l ts)) (\<Union>t \<in> set ts. pobjects H t)"
  by (auto simp: pobjects_def)

definition pstored :: "(hash \<Rightarrow> error + bytes) \<Rightarrow> (bytes \<Rightarrow> bytes) \<Rightarrow> ptree \<Rightarrow> bool" where
  "pstored get H t \<longleftrightarrow> (\<forall>d \<in> pobjects H t. get (storage_Sum H d) = Inr d)"

lemma pstored_root: "pstored get H t \<Longrightarrow> get (proot H t) = Inr (pdata H t)"
  by (auto simp: pstored_def pobjects_def proot_def)

lemma pstored_child: "pstored get H (PNode l ts) \<Longrightarrow> t \<in> set ts \<Longrightarrow> pstored get H t"
  by (auto simp: pstored_def pobjects_PNode)

section \<open>Well-formed trees\<close>

text \<open>
  Below the root no node is empty, and levels grow by one from the leaves without wrapping.
  A valid tree is the empty leaf or a well-formed tree, with strictly increasing keys.
\<close>

fun pwf :: "ptree \<Rightarrow> bool" where
  "pwf (PLeaf es) \<longleftrightarrow> es \<noteq> [] \<and> list_all entry_ok es"
| "pwf (PNode l ts) \<longleftrightarrow> ts \<noteq> [] \<and> l \<noteq> 0 \<and> (\<forall>t \<in> set ts. pwf t \<and> plevel t + 1 = l)"

definition keys_sorted :: "entry list \<Rightarrow> bool" where
  "keys_sorted es \<longleftrightarrow> sorted_wrt (<) (map ekey es)"

definition pvalid :: "ptree \<Rightarrow> bool" where
  "pvalid t \<longleftrightarrow> (t = PLeaf [] \<or> pwf t) \<and> keys_sorted (pentries t) \<and> length (pentries t) < 2 ^ 64"

lemma pwf_nonempty: "pwf t \<Longrightarrow> pentries t \<noteq> []"
  by (induction t rule: pwf.induct) (fastforce simp: neq_Nil_conv)+

lemma length_concat_ge: "(\<And>x. x \<in> set xs \<Longrightarrow> f x \<noteq> []) \<Longrightarrow> length xs \<le> length (concat (map f xs))"
proof (induction xs)
  case (Cons x xs)
  then have "f x \<noteq> []" "length xs \<le> length (concat (map f xs))" by auto
  then show ?case by (cases "f x") auto
qed simp

lemma pentries_child_le:
  assumes "t \<in> set ts"
  shows "length (pentries t) \<le> length (pentries (PNode l ts))"
proof -
  obtain a b where "ts = a @ t # b" using assms by (auto dest: split_list)
  then show ?thesis by simp
qed

lemma keys_sorted_child: "keys_sorted (pentries (PNode l ts)) \<Longrightarrow> t \<in> set ts \<Longrightarrow> keys_sorted (pentries t)"
  by (auto simp: keys_sorted_def sorted_wrt_append dest!: split_list)

lemma pvalid_child:
  assumes "pvalid (PNode l ts)" "t \<in> set ts"
  shows "pvalid t" "pwf t" "plevel t + 1 = l"
  using assms keys_sorted_child[of l ts t] pentries_child_le[OF assms(2), of l]
  by (auto simp: pvalid_def)

lemma entry_key_bound: "pwf t \<Longrightarrow> e \<in> set (pentries t) \<Longrightarrow> entry_ok e"
  by (induction t rule: pwf.induct) (auto simp: list_all_iff)

context digest32
begin

text \<open>Every node of a valid tree can be encoded, and is decoded to itself.\<close>

lemma link_ok_plink: "pwf t \<Longrightarrow> link_ok (plink H t)"
  using entry_key_bound[of t "last (pentries t)"] pwf_nonempty[of t]
  by (auto simp: link_ok_def pmax_def entry_ok_def proot_def storage_Sum_def hashSize_def length_H)

lemma node_ok_pnode: "pvalid t \<Longrightarrow> node_ok (pnode H t)"
proof (cases t)
  case (PLeaf es)
  assume "pvalid t"
  then show ?thesis using PLeaf by (auto simp: pvalid_def node_ok_def)
next
  case (PNode l ts)
  assume t: "pvalid t"
  have "length ts \<le> length (pentries t)"
    unfolding PNode pentries.simps
    by (rule length_concat_ge) (use t PNode in \<open>auto simp: pvalid_def dest: pwf_nonempty\<close>)
  moreover have "list_all link_ok (map (plink H) ts)"
    using t PNode by (auto simp: list_all_iff pvalid_def intro!: link_ok_plink)
  ultimately show ?thesis
    using t PNode by (auto simp: pvalid_def node_ok_def pnode_PNode simp del: pnode.simps(2))
qed

lemma encodeNode_pnode: "pvalid t \<Longrightarrow> encodeNode (pnode H t) = Inr (pdata H t)"
  using decodeNode_encodeNode[OF node_ok_pnode] by (fastforce simp: pdata_def)

lemma decodeNode_pdata: "pvalid t \<Longrightarrow> decodeNode h (pdata H t) = Inr (pnode H t)"
  using decodeNode_encodeNode[OF node_ok_pnode, of t h] encodeNode_pnode[of t] by auto

end

section \<open>Canonical trees\<close>

text \<open>
  Levels are stacked until one tree is left. The guard \<open>length gs < length ts\<close> makes the
  function total; with \<open>MinChunkEntries \<ge> 2\<close> it always holds above one tree.
\<close>

function ptree_levels :: "options \<Rightarrow> byte \<Rightarrow> ptree list \<Rightarrow> ptree" where
  "ptree_levels o1 lvl ts =
     (let gs = chunk o1 (\<lambda>t. keyBoundaryHash (pmax t)) ts
      in if length ts > 1 \<and> length gs < length ts then ptree_levels o1 (lvl + 1) (map (PNode lvl) gs)
         else hd ts)"
  by pat_completeness auto
termination
  by (relation "measure (\<lambda>(o1, lvl, ts). length ts)") auto

declare ptree_levels.simps [simp del]

definition canon :: "options \<Rightarrow> entry list \<Rightarrow> ptree" where
  "canon o1 es = (if es = [] then PLeaf [] else ptree_levels o1 1 (map PLeaf (chunkEntries es o1)))"

definition chunking_ok :: "options \<Rightarrow> bool" where
  "chunking_ok o1 \<longleftrightarrow> options_validate o1 = Inr () \<and> 2 \<le> MinChunkEntries o1"

lemma ptree_levels_single: "length ts \<le> 1 \<Longrightarrow> ptree_levels o1 lvl ts = hd ts"
  by (subst ptree_levels.simps) (simp add: Let_def)

lemma ptree_levels_step:
  assumes "chunking_ok o1" "1 < length ts"
  shows "ptree_levels o1 lvl ts =
    ptree_levels o1 (lvl + 1) (map (PNode lvl) (chunk o1 (\<lambda>t. keyBoundaryHash (pmax t)) ts))"
  using assms length_chunk_less[of o1 "()" ts "\<lambda>t. keyBoundaryHash (pmax t)"]
  by (subst ptree_levels.simps) (simp add: Let_def chunking_ok_def)

end
