(* ===== verification/Prolly_Build.thy ===== *)
theory Prolly_Build
  imports Prolly_Tree
begin

text \<open>
  Writing trees: \<open>writeNode\<close>, \<open>readNode\<close>, \<open>Build\<close> and the level loop it shares with
  \<open>buildFromLeafLinks\<close>. A store is passed as its \<open>put\<close> operation and a state. The level loop
  may run forever (for options with \<open>MinChunkEntries = 1\<close>), so it is an option-valued partial
  function: \<^const>\<open>None\<close> is a call that does not return.

  \<open>store_extends\<close> is the abstract effect of a sequence of writes; it is what the lemmas prove of
  every writer of trees, whatever the order of its writes.
\<close>

section \<open>Reading and writing nodes\<close>

definition writeNode :: "('s \<Rightarrow> bytes \<Rightarrow> error + hash \<times> 's) \<Rightarrow> 's \<Rightarrow> node \<Rightarrow> error + hash \<times> 's" where
  "writeNode put s n = (case encodeNode n of Inl e \<Rightarrow> Inl e | Inr data \<Rightarrow> put s data)"

definition readNode :: "(hash \<Rightarrow> error + bytes) \<Rightarrow> hash \<Rightarrow> error + node" where
  "readNode get h = (case get h of Inl e \<Rightarrow> Inl e | Inr data \<Rightarrow> decodeNode h data)"

definition sumCounts :: "link list \<Rightarrow> uint64" where
  "sumCounts ls = foldl (\<lambda>total l. total + lcount l) 0 ls"

record tree =
  troot :: hash
  toptions :: options

definition prolly_Open :: "hash \<Rightarrow> error + tree" where
  "prolly_Open root = (if \<not> hash_Valid root then Inl InvalidRootHash
     else Inr \<lparr>troot = root, toptions = DefaultOptions\<rparr>)"

section \<open>Build\<close>

definition leaf_link :: "entry list \<Rightarrow> hash \<Rightarrow> link" where
  "leaf_link grp h = \<lparr>lmax = ekey (last grp), lcount = of_nat (length grp), lhash = h\<rparr>"

definition group_link :: "link list \<Rightarrow> hash \<Rightarrow> link" where
  "group_link grp h = \<lparr>lmax = lmax (last grp), lcount = sumCounts grp, lhash = h\<rparr>"

fun write_leaves ::
  "('s \<Rightarrow> bytes \<Rightarrow> error + hash \<times> 's) \<Rightarrow> entry list list \<Rightarrow> 's \<Rightarrow> error + link list \<times> 's" where
  "write_leaves put [] s = Inr ([], s)"
| "write_leaves put (grp # grps) s =
     (case writeNode put s \<lparr>nlevel = 0, nentries = grp, nchildren = []\<rparr> of
        Inl e \<Rightarrow> Inl e
      | Inr (h, s1) \<Rightarrow>
          (case write_leaves put grps s1 of
             Inl e \<Rightarrow> Inl e
           | Inr (ls, s2) \<Rightarrow> Inr (leaf_link grp h # ls, s2)))"

fun write_groups ::
  "('s \<Rightarrow> bytes \<Rightarrow> error + hash \<times> 's) \<Rightarrow> byte \<Rightarrow> link list list \<Rightarrow> 's \<Rightarrow> error + link list \<times> 's" where
  "write_groups put lvl [] s = Inr ([], s)"
| "write_groups put lvl (grp # grps) s =
     (case writeNode put s \<lparr>nlevel = lvl, nentries = [], nchildren = grp\<rparr> of
        Inl e \<Rightarrow> Inl e
      | Inr (h, s1) \<Rightarrow>
          (case write_groups put lvl grps s1 of
             Inl e \<Rightarrow> Inl e
           | Inr (ls, s2) \<Rightarrow> Inr (group_link grp h # ls, s2)))"

text \<open>
  The loop \<open>for len(links) > 1\<close>. After it, \<open>links[0]\<close> panics on an empty slice. The level is a
  \<open>uint8\<close>.
\<close>

partial_function (option) build_levels ::
  "('s \<Rightarrow> bytes \<Rightarrow> error + hash \<times> 's) \<Rightarrow> options \<Rightarrow> byte \<Rightarrow> link list \<Rightarrow> 's \<Rightarrow> (error + hash \<times> 's) option" where
  "build_levels put o1 lvl links s =
     (if length links > 1 then
        case write_groups put lvl (chunkLinks links o1) s of
          Inl e \<Rightarrow> Some (Inl e)
        | Inr ns \<Rightarrow> build_levels put o1 (lvl + 1) (fst ns) (snd ns)
      else if links = [] then Some (Inl IndexOutOfRange)
      else Some (Inr (lhash (hd links), s)))"

declare build_levels.simps [code]

definition with_options :: "options \<Rightarrow> error + hash \<times> 's \<Rightarrow> error + tree \<times> 's" where
  "with_options o1 r = (case r of Inl e \<Rightarrow> Inl e | Inr (h, s) \<Rightarrow> Inr (\<lparr>troot = h, toptions = o1\<rparr>, s))"

definition buildFromLeafLinks ::
  "('s \<Rightarrow> bytes \<Rightarrow> error + hash \<times> 's) \<Rightarrow> 's \<Rightarrow> link list \<Rightarrow> options \<Rightarrow> (error + tree \<times> 's) option" where
  "buildFromLeafLinks put s leaves o1 =
     (if length leaves = 1 then Some (Inr (\<lparr>troot = lhash (hd leaves), toptions = o1\<rparr>, s))
      else map_option (with_options o1) (build_levels put o1 1 leaves s))"

fun has_duplicate_key :: "entry list \<Rightarrow> bool" where
  "has_duplicate_key (a # b # es) \<longleftrightarrow> ekey a = ekey b \<or> has_duplicate_key (b # es)"
| "has_duplicate_key _ \<longleftrightarrow> False"

text \<open>
  \<open>sort.Slice\<close> orders by key and leaves the order of equal keys open; a list with equal keys is
  rejected right after, so every choice of the sort gives the same result.
\<close>

definition Build ::
  "('s \<Rightarrow> bytes \<Rightarrow> error + hash \<times> 's) \<Rightarrow> 's \<Rightarrow> entry list \<Rightarrow> options \<Rightarrow> (error + tree \<times> 's) option" where
  "Build put s entries o1 =
     (case options_validate o1 of
        Inl e \<Rightarrow> Some (Inl e)
      | Inr _ \<Rightarrow>
          let items = sort_key ekey entries
          in if has_duplicate_key items then Some (Inl DuplicateKey)
             else if items = [] then
               Some (with_options o1 (writeNode put s \<lparr>nlevel = 0, nentries = [], nchildren = []\<rparr>))
             else case write_leaves put (chunkEntries items o1) s of
               Inl e \<Rightarrow> Some (Inl e)
             | Inr (links, s1) \<Rightarrow>
                 if length links = 1 then Some (Inr (\<lparr>troot = lhash (hd links), toptions = o1\<rparr>, s1))
                 else map_option (with_options o1) (build_levels put o1 1 links s1))"

section \<open>The effect of writes\<close>

text \<open>
  From \<open>s\<close> to \<open>s'\<close> the objects \<open>D\<close> were written: every old object is still there, everything
  new comes from \<open>D\<close>, and each name of \<open>D\<close> can be read.
\<close>

definition store_extends ::
  "('s \<Rightarrow> hash \<Rightarrow> error + bytes) \<Rightarrow> (bytes \<Rightarrow> bytes) \<Rightarrow> ('s \<Rightarrow> bool) \<Rightarrow> 's \<Rightarrow> 's \<Rightarrow> bytes set \<Rightarrow> bool" where
  "store_extends get H I s s' D \<longleftrightarrow>
     I s' \<and> (\<forall>h x. get s h = Inr x \<longrightarrow> get s' h = Inr x)
     \<and> (\<forall>h x. get s' h = Inr x \<longrightarrow> get s h = Inr x \<or> x \<in> D)
     \<and> (\<forall>d \<in> D. \<exists>x. get s' (storage_Sum H d) = Inr x)"

text \<open>No object of \<open>D\<close> shares its name with another one or with a different stored object.\<close>

definition no_collision ::
  "('s \<Rightarrow> hash \<Rightarrow> error + bytes) \<Rightarrow> (bytes \<Rightarrow> bytes) \<Rightarrow> 's \<Rightarrow> bytes set \<Rightarrow> bool" where
  "no_collision get H s D \<longleftrightarrow> inj_on (storage_Sum H) D
     \<and> (\<forall>d \<in> D. \<forall>x. get s (storage_Sum H d) = Inr x \<longrightarrow> x = d)"

lemma store_extends_refl: "I s \<Longrightarrow> store_extends get H I s s {}"
  by (simp add: store_extends_def)

lemma store_extends_trans:
  "store_extends get H I s s1 D1 \<Longrightarrow> store_extends get H I s1 s2 D2 \<Longrightarrow>
    store_extends get H I s s2 (D1 \<union> D2)"
  unfolding store_extends_def by (intro conjI allI impI ballI; elim conjE UnE; blast)

lemma store_extends_inv: "store_extends get H I s s' D \<Longrightarrow> I s'"
  by (simp add: store_extends_def)

lemma store_extends_keeps: "store_extends get H I s s' D \<Longrightarrow> get s h = Inr x \<Longrightarrow> get s' h = Inr x"
  by (simp add: store_extends_def)

lemma pstored_keeps: "store_extends get H I s s' D \<Longrightarrow> pstored (get s) H t \<Longrightarrow> pstored (get s') H t"
  by (auto simp: pstored_def store_extends_def)

context content_store
begin

lemma put_extends:
  assumes "inv s" "put s d = Inr (h, s')"
  shows "store_extends get H inv s s' {d}"
proof -
  have h: "h = storage_Sum H d" "inv s'" using put_Inr[OF assms] by auto
  have "\<exists>x. get s' (storage_Sum H d) = Inr x"
    using put_get[OF assms, of "storage_Sum H d"] by (cases "get s (storage_Sum H d)") auto
  then show ?thesis
    using h put_get[OF assms] by (auto simp: store_extends_def split: if_splits)
qed

lemma extends_stored:
  assumes "store_extends get H inv s s' D" "no_collision get H s D" "d \<in> D"
  shows "get s' (storage_Sum H d) = Inr d"
proof -
  obtain x where x: "get s' (storage_Sum H d) = Inr x"
    using assms(1,3) by (auto simp: store_extends_def)
  then have name: "storage_Sum H x = storage_Sum H d"
    using get_Sum store_extends_inv[OF assms(1)] by metis
  have "get s (storage_Sum H d) = Inr x \<or> x \<in> D"
    using x assms(1) by (auto simp: store_extends_def)
  then have "x = d"
    using name assms(2,3) unfolding no_collision_def inj_on_def by blast
  then show ?thesis using x by simp
qed

lemma extends_pstored:
  "store_extends get H inv s s' (pobjects H t) \<Longrightarrow> no_collision get H s (pobjects H t) \<Longrightarrow> pstored (get s') H t"
  by (simp add: pstored_def extends_stored)

lemma writeNode_pnode:
  assumes "inv s" "pvalid t"
  shows "\<exists>s'. writeNode put s (pnode H t) = Inr (proot H t, s') \<and> store_extends get H inv s s' {pdata H t}"
proof -
  obtain s' where s': "put s (pdata H t) = Inr (storage_Sum H (pdata H t), s')" "inv s'"
    using put_ok[OF assms(1)] by blast
  then show ?thesis
    using put_extends[OF assms(1) s'(1)] by (simp add: writeNode_def encodeNode_pnode assms(2) proot_def)
qed


text \<open>Writing the nodes of one level gives the links of the trees they complete.\<close>

lemma write_leaves_plink:
  assumes "inv s" "\<forall>g \<in> set gs. g \<noteq> [] \<and> pvalid (PLeaf g)"
  shows "\<exists>s'. write_leaves put gs s = Inr (map (plink H \<circ> PLeaf) gs, s')
    \<and> store_extends get H inv s s' (\<Union>g \<in> set gs. pobjects H (PLeaf g))"
  using assms
proof (induction gs arbitrary: s)
  case Nil
  then show ?case by (simp add: store_extends_refl)
next
  case (Cons g gs)
  obtain s1 where s1: "writeNode put s (pnode H (PLeaf g)) = Inr (proot H (PLeaf g), s1)"
      "store_extends get H inv s s1 {pdata H (PLeaf g)}"
    using writeNode_pnode[of s "PLeaf g"] Cons.prems by auto
  obtain s2 where s2: "write_leaves put gs s1 = Inr (map (plink H \<circ> PLeaf) gs, s2)"
      "store_extends get H inv s1 s2 (\<Union>g \<in> set gs. pobjects H (PLeaf g))"
    using Cons.IH[of s1] Cons.prems store_extends_inv[OF s1(2)] by auto
  show ?case
    using s1(1) s2(1) store_extends_trans[OF s1(2) s2(2)]
    by (simp add: leaf_link_def plink_def pmax_def pcount_def pobjects_PLeaf)
qed

lemma sumCounts_plink: "sumCounts (map (plink H) ts) = pcount (PNode l ts)"
proof -
  have "foldl (\<lambda>total l. total + lcount l) c (map (plink H) ts) = c + of_nat (length (concat (map pentries ts)))" for c
    by (induction ts arbitrary: c) (simp_all add: pcount_def)
  then show ?thesis by (simp add: sumCounts_def pcount_def)
qed

lemma pmax_PNode: "ts \<noteq> [] \<Longrightarrow> pwf (last ts) \<Longrightarrow> pmax (PNode l ts) = pmax (last ts)"
  using pwf_nonempty[of "last ts"]
  by (cases ts rule: rev_cases) (simp_all add: pmax_def)

lemma write_groups_plink:
  assumes "inv s" "\<forall>ts \<in> set tss. pvalid (PNode lvl ts) \<and> pwf (PNode lvl ts)"
  shows "\<exists>s'. write_groups put lvl (map (map (plink H)) tss) s = Inr (map (plink H \<circ> PNode lvl) tss, s')
    \<and> store_extends get H inv s s' (\<Union>ts \<in> set tss. {pdata H (PNode lvl ts)})"
  using assms
proof (induction tss arbitrary: s)
  case Nil
  then show ?case by (simp add: store_extends_refl)
next
  case (Cons ts tss)
  let ?t = "PNode lvl ts"
  obtain s1 where s1: "writeNode put s (pnode H ?t) = Inr (proot H ?t, s1)"
      "store_extends get H inv s s1 {pdata H ?t}"
    using writeNode_pnode[of s ?t] Cons.prems by auto
  obtain s2 where s2: "write_groups put lvl (map (map (plink H)) tss) s1 = Inr (map (plink H \<circ> PNode lvl) tss, s2)"
      "store_extends get H inv s1 s2 (\<Union>ts \<in> set tss. {pdata H (PNode lvl ts)})"
    using Cons.IH[of s1] Cons.prems store_extends_inv[OF s1(2)] by auto
  have "ts \<noteq> []" "pwf (last ts)" using Cons.prems(2) by auto
  then have "group_link (map (plink H) ts) (proot H ?t) = plink H ?t"
    by (simp add: group_link_def sumCounts_plink[where l = lvl] plink_def pmax_PNode last_map)
  then show ?case
    using s1(1)[unfolded pnode_PNode] s2(1) store_extends_trans[OF s1(2) s2(2)] by simp
qed

end

section \<open>The levels above the leaves\<close>

text \<open>A row of trees of one level, ready to be grouped under nodes of level \<open>lvl\<close>.\<close>

definition level_row :: "byte \<Rightarrow> ptree list \<Rightarrow> bool" where
  "level_row lvl ts \<longleftrightarrow> ts \<noteq> [] \<and> lvl \<noteq> 0 \<and> (\<forall>t \<in> set ts. pwf t \<and> plevel t + 1 = lvl)
     \<and> keys_sorted (concat (map pentries ts)) \<and> length (concat (map pentries ts)) < 2 ^ 64
     \<and> length ts \<le> 2 ^ (255 - unat lvl)"

abbreviation tree_chunks :: "options \<Rightarrow> ptree list \<Rightarrow> ptree list list" where
  "tree_chunks o1 ts \<equiv> chunk o1 (\<lambda>t. keyBoundaryHash (pmax t)) ts"

lemma concat_map_concat: "concat (map (\<lambda>ts. concat (map f ts)) tss) = concat (map f (concat tss))"
  by (induction tss) simp_all

lemma chunkLinks_plink: "chunkLinks (map (plink H) ts) o1 = map (map (plink H)) (tree_chunks o1 ts)"
  unfolding chunkLinks_def by (rule chunk_map) (simp add: linkBoundaryHash_def)

lemma level_row_group:
  assumes "level_row lvl ts" "g \<in> set (tree_chunks o1 ts)"
  shows "pwf (PNode lvl g)" "pvalid (PNode lvl g)"
proof -
  have sub: "set g \<subseteq> set ts" using assms(2) concat_chunk[of o1 _ ts] by (metis UN_upper set_concat)
  then show wf: "pwf (PNode lvl g)"
    using assms(1) chunk_nonempty[OF assms(2)] by (auto simp: level_row_def)
  obtain a b where "tree_chunks o1 ts = a @ g # b" using assms(2) by (meson split_list)
  then have "ts = concat a @ g @ concat b"
    by (metis concat.simps(2) concat_append concat_chunk)
  then show "pvalid (PNode lvl g)"
    using assms(1) wf by (auto simp: pvalid_def level_row_def keys_sorted_def sorted_wrt_append)
qed

lemma halve_pow:
  fixes n :: nat
  assumes "n \<le> 2 ^ (255 - unat lvl)" "1 < n"
  shows "unat (lvl + 1 :: byte) = unat lvl + 1" "(n + 1) div 2 \<le> 2 ^ (255 - unat (lvl + 1))"
proof -
  have l: "unat lvl < 255"
  proof (rule ccontr)
    assume "\<not> unat lvl < 255"
    then have "n \<le> 1" using assms(1) by simp
    with assms(2) show False by simp
  qed
  then show eq: "unat (lvl + 1) = unat lvl + 1" by (simp add: unat_word_ariths)
  obtain k where k: "255 - unat lvl = Suc k" using l by (metis Suc_diff_Suc)
  then have "255 - unat (lvl + 1) = k" using eq by simp
  then show "(n + 1) div 2 \<le> 2 ^ (255 - unat (lvl + 1))" using assms(1) k by simp
qed

lemma level_row_next:
  assumes "level_row lvl ts" "chunking_ok o1" "1 < length ts"
  shows "level_row (lvl + 1) (map (PNode lvl) (tree_chunks o1 ts))"
proof -
  let ?gs = "tree_chunks o1 ts"
  have len: "length ?gs \<le> (length ts + 1) div 2"
    using assms(2) length_chunk_le[of o1] by (auto simp: chunking_ok_def)
  have up: "unat (lvl + 1) = unat lvl + 1" "(length ts + 1) div 2 \<le> 2 ^ (255 - unat (lvl + 1))"
    using halve_pow[of "length ts" lvl] assms(1,3) by (auto simp: level_row_def)
  have entries: "concat (map pentries (map (PNode lvl) ?gs)) = concat (map pentries ts)"
    by (simp add: comp_def concat_map_concat)
  have "lvl + 1 \<noteq> 0" using up(1) by (metis Suc_eq_plus1 nat.simps(3) unat_0)
  then show ?thesis
    using assms(1,3) level_row_group[OF assms(1), of _ o1] len up entries
    by (auto simp: level_row_def simp del: pentries.simps)
qed

lemma ptree_levels_correct:
  assumes "level_row lvl ts" "chunking_ok o1"
  shows "pwf (ptree_levels o1 lvl ts) \<and> pentries (ptree_levels o1 lvl ts) = concat (map pentries ts)"
  using assms
proof (induction "length ts" arbitrary: lvl ts rule: less_induct)
  case less
  show ?case
  proof (cases "1 < length ts")
    case False
    then obtain t where "ts = [t]" using less.prems(1) by (cases ts) (auto simp: level_row_def)
    then show ?thesis using less.prems(1) by (simp add: ptree_levels_single level_row_def)
  next
    case True
    let ?ts = "map (PNode lvl) (tree_chunks o1 ts)"
    have "length ?ts < length ts"
      using True less.prems(2) length_chunk_less[of o1 "()" ts] by (simp add: chunking_ok_def)
    then have "pwf (ptree_levels o1 (lvl + 1) ?ts) \<and>
        pentries (ptree_levels o1 (lvl + 1) ?ts) = concat (map pentries ?ts)"
      using less.hyps level_row_next[OF less.prems True] less.prems(2) by blast
    then show ?thesis
      using True less.prems(2) by (simp add: ptree_levels_step comp_def concat_map_concat)
  qed
qed

definition row_objects :: "(bytes \<Rightarrow> bytes) \<Rightarrow> ptree list \<Rightarrow> bytes set" where
  "row_objects H ts = (\<Union>t \<in> set ts. pobjects H t)"

lemma row_objects_next:
  "row_objects H (map (PNode lvl) (tree_chunks o1 ts)) =
    (\<Union>g \<in> set (tree_chunks o1 ts). {pdata H (PNode lvl g)}) \<union> row_objects H ts"
proof -
  have "(\<Union>g \<in> set (tree_chunks o1 ts). \<Union>t \<in> set g. pobjects H t) = (\<Union>t \<in> set (concat (tree_chunks o1 ts)). pobjects H t)"
    by (simp only: set_concat UN_UN_flatten)
  then show ?thesis by (auto simp: row_objects_def pobjects_PNode)
qed

context content_store
begin

text \<open>
  The level loop ends, returns the root of the canonical tree over the given row, and writes
  exactly the nodes above the row.
\<close>

lemma build_levels_ptree:
  assumes "inv s" "level_row lvl ts" "chunking_ok o1"
  shows "\<exists>s' D. build_levels put o1 lvl (map (plink H) ts) s = Some (Inr (proot H (ptree_levels o1 lvl ts), s'))
    \<and> store_extends get H inv s s' D \<and> D \<union> row_objects H ts = pobjects H (ptree_levels o1 lvl ts)"
  using assms
proof (induction "length ts" arbitrary: lvl ts s rule: less_induct)
  case less
  show ?case
  proof (cases "1 < length ts")
    case False
    then obtain t where t: "ts = [t]" using less.prems(2) by (cases ts) (auto simp: level_row_def)
    then have "build_levels put o1 lvl (map (plink H) ts) s = Some (Inr (proot H t, s))"
      by (simp add: build_levels.simps)
    then show ?thesis
      using t less.prems(1) store_extends_refl[of inv s get H] by (auto simp: ptree_levels_single row_objects_def)
  next
    case True
    let ?gs = "tree_chunks o1 ts"
    let ?ts = "map (PNode lvl) ?gs"
    have len: "length ?ts < length ts"
      using True less.prems(3) length_chunk_less[of o1 "()" ts] by (simp add: chunking_ok_def)
    obtain s1 where s1: "write_groups put lvl (map (map (plink H)) ?gs) s = Inr (map (plink H \<circ> PNode lvl) ?gs, s1)"
        "store_extends get H inv s s1 (\<Union>g \<in> set ?gs. {pdata H (PNode lvl g)})"
      using write_groups_plink[OF less.prems(1), of ?gs lvl] level_row_group[OF less.prems(2)] by blast
    obtain s2 D where s2:
        "build_levels put o1 (lvl + 1) (map (plink H) ?ts) s1 = Some (Inr (proot H (ptree_levels o1 (lvl + 1) ?ts), s2))"
        "store_extends get H inv s1 s2 D" "D \<union> row_objects H ?ts = pobjects H (ptree_levels o1 (lvl + 1) ?ts)"
      using less.hyps[OF len store_extends_inv[OF s1(2)] level_row_next[OF less.prems(2,3) True] less.prems(3)] by blast
    have "build_levels put o1 lvl (map (plink H) ts) s = Some (Inr (proot H (ptree_levels o1 lvl ts), s2))"
      using True s1(1) s2(1) ptree_levels_step[OF less.prems(3) True, of lvl]
      by (subst build_levels.simps) (simp add: chunkLinks_plink)
    moreover have "(\<Union>g \<in> set ?gs. {pdata H (PNode lvl g)}) \<union> D \<union> row_objects H ts = pobjects H (ptree_levels o1 lvl ts)"
      using s2(3) unfolding row_objects_next ptree_levels_step[OF less.prems(3) True, of lvl] by blast
    ultimately show ?thesis
      using store_extends_trans[OF s1(2) s2(2)] by blast
  qed
qed

end

section \<open>Build returns the canonical tree\<close>

definition entries_ok :: "entry list \<Rightarrow> bool" where
  "entries_ok es \<longleftrightarrow> keys_sorted es \<and> list_all entry_ok es \<and> length es < 2 ^ 64"

abbreviation leaf_row :: "options \<Rightarrow> entry list \<Rightarrow> ptree list" where
  "leaf_row o1 es \<equiv> map PLeaf (chunkEntries es o1)"

lemma concat_leaf_row [simp]: "concat (map pentries (leaf_row o1 es)) = es"
  by (simp add: comp_def chunkEntries_def)

lemma leaf_pvalid:
  assumes "entries_ok es" "g \<in> set (chunkEntries es o1)"
  shows "g \<noteq> []" "pwf (PLeaf g)" "pvalid (PLeaf g)"
proof -
  obtain a b where "chunkEntries es o1 = a @ g # b" using assms(2) by (meson split_list)
  then have es: "es = concat a @ g @ concat b"
    by (metis chunkEntries_def concat.simps(2) concat_append concat_chunk)
  show "g \<noteq> []" using assms(2) by (auto simp: chunkEntries_def)
  then show "pwf (PLeaf g)" "pvalid (PLeaf g)"
    using assms(1) es by (auto simp: entries_ok_def pvalid_def keys_sorted_def sorted_wrt_append)
qed

lemma length_chunk_bound: "length (chunk o1 bh xs) \<le> length xs"
  using length_concat_ge[of "chunk o1 bh xs" id] by (auto simp: concat_chunk)

lemma leaf_row_level:
  assumes "entries_ok es" "es \<noteq> []"
  shows "level_row 1 (leaf_row o1 es)"
proof -
  have "length (chunkEntries es o1) < 2 ^ 64"
    using assms(1) length_chunk_bound[of o1 entryBoundaryHash es]
    by (simp add: entries_ok_def chunkEntries_def)
  then have "length (leaf_row o1 es) \<le> 2 ^ (255 - unat (1 :: byte))"
    by (simp add: less_imp_le[OF order_less_le_trans[of _ "2 ^ 64"]])
  then show ?thesis
    using assms leaf_pvalid[OF assms(1), of _ o1]
    unfolding level_row_def concat_leaf_row entries_ok_def by (auto simp: chunkEntries_def)
qed

lemma canon_correct:
  assumes "entries_ok es" "chunking_ok o1"
  shows "pentries (canon o1 es) = es" "pvalid (canon o1 es)"
proof -
  have "es \<noteq> [] \<Longrightarrow> pwf (canon o1 es) \<and> pentries (canon o1 es) = es"
    using ptree_levels_correct[OF leaf_row_level[OF assms(1)] assms(2), of o1]
    unfolding canon_def concat_leaf_row by simp
  then show "pentries (canon o1 es) = es" "pvalid (canon o1 es)"
    using assms(1) by (auto simp: canon_def pvalid_def entries_ok_def keys_sorted_def)
qed

lemma has_duplicate_key_sorted:
  "sorted (map ekey es) \<Longrightarrow> has_duplicate_key es \<longleftrightarrow> \<not> keys_sorted es"
proof (induction es rule: has_duplicate_key.induct)
  case (1 a b es)
  have "keys_sorted (a # b # es) \<longleftrightarrow> ekey a < ekey b \<and> keys_sorted (b # es)"
    by (auto simp: keys_sorted_def dest: less_trans)
  then show ?case using 1 by (auto simp: le_less)
qed (simp_all add: keys_sorted_def)

lemma sort_key_entries_ok:
  assumes "distinct (map ekey es)" "list_all entry_ok es" "length es < 2 ^ 64"
  shows "entries_ok (sort_key ekey es)"
proof -
  have "distinct (map ekey (sort_key ekey es))"
    using assms(1) by (simp add: distinct_map)
  then show ?thesis
    using assms(2,3) by (auto simp: entries_ok_def keys_sorted_def strict_sorted_iff list_all_iff)
qed

context content_store
begin

lemma leaves_and_levels:
  assumes "inv s" "entries_ok es" "es \<noteq> []" "chunking_ok o1"
  shows "\<exists>s1 s'. write_leaves put (chunkEntries es o1) s = Inr (map (plink H) (leaf_row o1 es), s1)
    \<and> store_extends get H inv s s1 (row_objects H (leaf_row o1 es))
    \<and> build_levels put o1 1 (map (plink H) (leaf_row o1 es)) s1 = Some (Inr (proot H (canon o1 es), s'))
    \<and> store_extends get H inv s s' (pobjects H (canon o1 es))"
proof -
  obtain s1 where s1: "write_leaves put (chunkEntries es o1) s = Inr (map (plink H) (leaf_row o1 es), s1)"
      "store_extends get H inv s s1 (row_objects H (leaf_row o1 es))"
    using write_leaves_plink[OF assms(1), of "chunkEntries es o1"] leaf_pvalid[OF assms(2)]
    by (auto simp: row_objects_def)
  obtain s2 D where s2: "build_levels put o1 1 (map (plink H) (leaf_row o1 es)) s1 = Some (Inr (proot H (canon o1 es), s2))"
      "store_extends get H inv s1 s2 D" "D \<union> row_objects H (leaf_row o1 es) = pobjects H (canon o1 es)"
    using build_levels_ptree[OF store_extends_inv[OF s1(2)] leaf_row_level[OF assms(2,3), of o1] assms(4)] assms(3)
    unfolding canon_def by auto
  then have "store_extends get H inv s s2 (pobjects H (canon o1 es))"
    using store_extends_trans[OF s1(2) s2(2)] by (simp add: Un_commute)
  then show ?thesis using s1 s2(1) by blast
qed

lemma Build_canon:
  assumes "inv s" "distinct (map ekey es)" "list_all entry_ok es" "length es < 2 ^ 64" "chunking_ok o1"
  shows "\<exists>s'. Build put s es o1 = Some (Inr (\<lparr>troot = proot H (canon o1 (sort_key ekey es)), toptions = o1\<rparr>, s'))
    \<and> store_extends get H inv s s' (pobjects H (canon o1 (sort_key ekey es)))"
proof (cases "es = []")
  case True
  have "pvalid (PLeaf [])" by (simp add: pvalid_def keys_sorted_def)
  then obtain s' where "writeNode put s (pnode H (PLeaf [])) = Inr (proot H (PLeaf []), s')"
      "store_extends get H inv s s' {pdata H (PLeaf [])}"
    using writeNode_pnode[OF assms(1)] by blast
  then show ?thesis
    using True assms(5) by (auto simp: Build_def chunking_ok_def canon_def with_options_def pobjects_PLeaf)
next
  case False
  let ?es = "sort_key ekey es"
  have ok: "entries_ok ?es" using sort_key_entries_ok assms(2,3,4) by blast
  then have dup: "\<not> has_duplicate_key ?es"
    using has_duplicate_key_sorted[of ?es] by (simp add: entries_ok_def)
  have ne: "?es \<noteq> []" using False by (metis set_empty set_sort)
  obtain s1 s' where s': "write_leaves put (chunkEntries ?es o1) s = Inr (map (plink H) (leaf_row o1 ?es), s1)"
      "build_levels put o1 1 (map (plink H) (leaf_row o1 ?es)) s1 = Some (Inr (proot H (canon o1 ?es), s'))"
      "store_extends get H inv s s' (pobjects H (canon o1 ?es))"
    using leaves_and_levels[OF assms(1) ok ne assms(5)] by (elim exE conjE) (rule that)
  have "Build put s es o1 = Some (Inr (\<lparr>troot = proot H (canon o1 ?es), toptions = o1\<rparr>, s'))"
  proof (cases "length (leaf_row o1 ?es) = 1")
    case True
    then obtain g where g: "chunkEntries ?es o1 = [g]" by (auto simp: length_Suc_conv)
    then have "lhash (plink H (PLeaf g)) = proot H (canon o1 ?es) \<and> s1 = s'"
      using s'(2) by (simp add: build_levels.simps)
    then show ?thesis
      using s'(1) g dup ne assms(5) by (simp add: Build_def chunking_ok_def Let_def)
  next
    case False
    then show ?thesis
      using s'(1,2) dup ne assms(5) by (simp add: Build_def chunking_ok_def Let_def with_options_def)
  qed
  then show ?thesis using s'(3) by blast
qed

end

text \<open>The rejected inputs.\<close>

lemma Build_rejects:
  "options_validate o1 = Inl e \<Longrightarrow> Build put s es o1 = Some (Inl e)"
  "options_validate o1 = Inr u \<Longrightarrow> \<not> distinct (map ekey es) \<Longrightarrow> Build put s es o1 = Some (Inl DuplicateKey)"
proof -
  show "options_validate o1 = Inl e \<Longrightarrow> Build put s es o1 = Some (Inl e)" by (simp add: Build_def)
  assume o: "options_validate o1 = Inr u" and d: "\<not> distinct (map ekey es)"
  have "distinct (map ekey (sort_key ekey es)) = distinct (map ekey es)"
    by (metis distinct_map distinct_sort set_sort)
  then have "has_duplicate_key (sort_key ekey es)"
    using d has_duplicate_key_sorted[of "sort_key ekey es"]
    by (auto simp: keys_sorted_def strict_sorted_iff)
  then show "Build put s es o1 = Some (Inl DuplicateKey)" using o by (simp add: Build_def)
qed

end
