(* ===== verification/Prolly_Diverge.thy ===== *)
theory Prolly_Diverge
  imports Prolly_Build
begin

text \<open>
  The level loop for options that \<open>Options.validate\<close> accepts but that do not make the levels
  shrink: with \<open>MinChunkEntries = 1\<close>, links whose keys all end a chunk are grouped one by one, and
  the next level has as many links as this one.
\<close>

definition cuts_alone :: "options \<Rightarrow> bytes \<Rightarrow> bool" where
  "cuts_alone o1 key \<longleftrightarrow> shouldCut 1 (keyBoundaryHash key) o1"

definition stuck_row :: "options \<Rightarrow> link list \<Rightarrow> bool" where
  "stuck_row o1 ls \<longleftrightarrow> 1 < length ls \<and> (\<forall>l \<in> set ls. cuts_alone o1 (lmax l) \<and> link_ok l)"

lemma chunk_singletons:
  "(\<And>x. x \<in> set xs \<Longrightarrow> shouldCut 1 (bh x) o1) \<Longrightarrow> chunk o1 bh xs = map (\<lambda>x. [x]) xs"
  unfolding chunk_def by (induction xs) auto

lemma encodeNode_link_ok: "list_all link_ok ls \<Longrightarrow> isl (append_links ls) \<Longrightarrow> False"
  by (induction ls) (auto simp: link_ok_def split: option.splits sum.splits)

context content_store
begin

lemma writeNode_links:
  assumes "inv s" "list_all link_ok ls"
  shows "\<exists>d s'. writeNode put s \<lparr>nlevel = lvl, nentries = [], nchildren = ls\<rparr> = Inr (storage_Sum H d, s') \<and> inv s'"
proof -
  obtain d where "encodeNode \<lparr>nlevel = lvl, nentries = [], nchildren = ls\<rparr> = Inr d"
    using encodeNode_link_ok[OF assms(2)]
    by (cases "append_links ls"; cases "lvl = 0") (simp_all add: encodeNode_def Let_def)
  then show ?thesis using put_ok[OF assms(1), of d] by (auto simp: writeNode_def)
qed

lemma write_groups_stuck:
  assumes "inv s" "\<forall>l \<in> set ls. cuts_alone o1 (lmax l) \<and> link_ok l"
  shows "\<exists>ls' s'. write_groups put lvl (map (\<lambda>l. [l]) ls) s = Inr (ls', s') \<and> inv s' \<and> length ls' = length ls
    \<and> (\<forall>l \<in> set ls'. cuts_alone o1 (lmax l) \<and> link_ok l)"
  using assms
proof (induction ls arbitrary: s)
  case (Cons l ls)
  obtain d s1 where s1: "writeNode put s \<lparr>nlevel = lvl, nentries = [], nchildren = [l]\<rparr> = Inr (storage_Sum H d, s1)" "inv s1"
    using writeNode_links[of s "[l]" lvl] Cons.prems by auto
  obtain ls' s2 where s2: "write_groups put lvl (map (\<lambda>l. [l]) ls) s1 = Inr (ls', s2)" "inv s2" "length ls' = length ls"
      "\<forall>l \<in> set ls'. cuts_alone o1 (lmax l) \<and> link_ok l"
    using Cons.IH[OF s1(2)] Cons.prems by auto
  have "link_ok (group_link [l] (storage_Sum H d))"
    using Cons.prems(2) by (auto simp: link_ok_def group_link_def hex_decode_Sum hashSize_def length_H storage_Sum_def)
  then show ?case using s1 s2 Cons.prems(2) by (auto simp: group_link_def)
qed simp

lemma stuck_row_next:
  assumes "inv s" "stuck_row o1 ls"
  shows "\<exists>ls' s'. write_groups put lvl (chunkLinks ls o1) s = Inr (ls', s') \<and> inv s' \<and> stuck_row o1 ls'"
proof -
  have "chunkLinks ls o1 = map (\<lambda>l. [l]) ls"
    unfolding chunkLinks_def
    by (rule chunk_singletons) (use assms(2) in \<open>auto simp: stuck_row_def cuts_alone_def linkBoundaryHash_def\<close>)
  then show ?thesis
    using write_groups_stuck[OF assms(1), of ls o1 lvl] assms(2) by (auto simp: stuck_row_def)
qed

lemma build_levels_stuck:
  assumes "inv s" "stuck_row o1 ls"
  shows "build_levels put o1 lvl ls s = None"
proof (rule ccontr)
  assume "build_levels put o1 lvl ls s \<noteq> None"
  then obtain r where r: "build_levels put o1 lvl ls s = Some r" by blast
  have "\<not> (put' = put \<and> inv s \<and> stuck_row o1 ls)" if "build_levels put' o1 lvl ls s = Some r" for put' lvl ls s r o1
    using that
  proof (induction rule: build_levels.raw_induct[rotated, consumes 1])
    case (1 f put' o1 lvl ls s r)
    show ?case
    proof
      assume a: "put' = put \<and> inv s \<and> stuck_row o1 ls"
      then obtain ls' s' where n: "write_groups put lvl (chunkLinks ls o1) s = Inr (ls', s')" "inv s'" "stuck_row o1 ls'"
        using stuck_row_next by blast
      have "1 < length ls" using a by (simp add: stuck_row_def)
      then have "f put o1 (lvl + 1) ls' s' = Some r" using 1(2) n(1) a by simp
      then show False using 1(1) n(2,3) by blast
    qed
  qed
  then show False using r assms by blast
qed

end

text \<open>\<open>Build\<close> itself: options accepted by \<open>validate\<close> and two keys that cut alone.\<close>

definition tiny_options :: options where
  "tiny_options = \<lparr>MinChunkEntries = 1, MaxChunkEntries = 2, BoundaryBits = 1\<rparr>"

lemma tiny_options_valid: "options_validate tiny_options = Inr ()"
  by (simp add: options_validate_def tiny_options_def)

lemma tiny_cuts: "cuts_alone tiny_options [0]" "cuts_alone tiny_options [2]"
  by code_simp+

context content_store
begin

lemma Build_stuck:
  assumes "inv s"
  shows "Build put s [\<lparr>ekey = [0], evalue = []\<rparr>, \<lparr>ekey = [2], evalue = []\<rparr>] tiny_options = None"
proof -
  let ?es = "[\<lparr>ekey = [0], evalue = []\<rparr>, \<lparr>ekey = [2], evalue = []\<rparr>]"
  have gs: "chunkEntries ?es tiny_options = [[?es ! 0], [?es ! 1]]"
    using tiny_cuts by (simp add: chunkEntries_def chunk_def entryBoundaryHash_def cuts_alone_def)
  have leaves: "\<forall>g \<in> set (chunkEntries ?es tiny_options). g \<noteq> [] \<and> pvalid (PLeaf g)"
    and wf: "\<forall>g \<in> set (chunkEntries ?es tiny_options). pwf (PLeaf g)"
    unfolding gs by (simp_all add: pvalid_def keys_sorted_def entry_ok_def)
  obtain s1 where s1: "write_leaves put (chunkEntries ?es tiny_options) s = Inr (map (plink H \<circ> PLeaf) (chunkEntries ?es tiny_options), s1)" "inv s1"
    using write_leaves_plink[OF assms leaves] by (elim exE conjE) (rule that, assumption, erule store_extends_inv)
  have "stuck_row tiny_options (map (plink H \<circ> PLeaf) (chunkEntries ?es tiny_options))"
    using wf tiny_cuts link_ok_plink unfolding gs by (simp add: stuck_row_def pmax_def)
  then have "build_levels put tiny_options 1 (map (plink H \<circ> PLeaf) (chunkEntries ?es tiny_options)) s1 = None"
    using build_levels_stuck s1(2) by blast
  moreover have "sort_key ekey ?es = ?es" by (simp add: sort_key_def)
  ultimately show ?thesis
    using s1(1) by (simp add: Build_def tiny_options_valid gs)
qed

end

end
