(* ===== verification/Prolly_Get.thy ===== *)
theory Prolly_Get
  imports Prolly_Build
begin

text \<open>
  Point reads: \<open>openNode\<close>, \<open>Tree.Get\<close> through the offset cache, and \<open>Tree.Count\<close>. On a stored
  tree \<open>Get\<close> returns what the entry list holds under the key, whatever the cache holds.
\<close>

section \<open>The operations\<close>

definition openNode :: "(hash \<Rightarrow> error + bytes) \<Rightarrow> hash \<Rightarrow> error + reader" where
  "openNode get h = (case get h of Inl e \<Rightarrow> Inl e | Inr data \<Rightarrow> newNodeReader h data)"

text \<open>
  \<open>Get\<close> threads the process-wide offset cache. In a store that is not a tree the walk down may
  never meet a leaf.
\<close>

partial_function (option) tree_Get ::
  "(offset_shard \<Rightarrow> hash) \<Rightarrow> (hash \<Rightarrow> error + bytes) \<Rightarrow> bytes \<Rightarrow> hash \<Rightarrow> offset_cache
    \<Rightarrow> ((error + bytes) \<times> offset_cache) option" where
  "tree_Get pick get key h c =
     (case openNode get h of
        Inl e \<Rightarrow> Some (Inl e, c)
      | Inr r \<Rightarrow>
          (case reader_search pick c r key of
             (Inl e, c') \<Rightarrow> Some (Inl e, c')
           | (Inr (i, item), c') \<Rightarrow>
               if i = rremaining r then Some (Inl KeyNotFound, c')
               else if rlevel r = 0 then
                 (case nextEntry item of
                    Inl e \<Rightarrow> Some (Inl e, c')
                  | Inr (entry, _) \<Rightarrow>
                      if ekey entry \<noteq> key then Some (Inl KeyNotFound, c')
                      else Some (Inr (evalue entry), c'))
               else
                 (case nextLinkRaw item of
                    Inl e \<Rightarrow> Some (Inl e, c')
                  | Inr ((_, _, raw), _) \<Rightarrow> tree_Get pick get key (hex_encode raw) c')))"

declare tree_Get.simps [code]

function count_links :: "reader \<Rightarrow> uint64 \<Rightarrow> error + uint64 \<times> reader" where
  "count_links r tot =
     (if rremaining r > 0 then
        case nextLinkRaw r of
          Inl e \<Rightarrow> Inl e
        | Inr ((_, count, _), r') \<Rightarrow> count_links r' (tot + count)
      else Inr (tot, r))"
  by pat_completeness auto
termination
  by (relation "measure (\<lambda>(r, tot). rremaining r)") (auto dest!: nextLinkRaw_frame)

declare count_links.simps [simp del]

definition tree_Count :: "(hash \<Rightarrow> error + bytes) \<Rightarrow> hash \<Rightarrow> error + uint64" where
  "tree_Count get root =
     (case openNode get root of
        Inl e \<Rightarrow> Inl e
      | Inr r \<Rightarrow>
          if rlevel r = 0 then Inr (of_nat (rremaining r))
          else case count_links r 0 of
            Inl e \<Rightarrow> Inl e
          | Inr (tot, r') \<Rightarrow> (case reader_finish r' of Inl e \<Rightarrow> Inl e | Inr _ \<Rightarrow> Inr tot))"

section \<open>Readers of stored nodes\<close>

text \<open>The items of a node as their encodings, and the reader a stored node opens with.\<close>

fun pitems :: "(bytes \<Rightarrow> bytes) \<Rightarrow> ptree \<Rightarrow> bytes list" where
  "pitems H (PLeaf es) = map append_entry es"
| "pitems H (PNode l ts) = map (enc_link \<circ> plink H) ts"

fun pkeys :: "ptree \<Rightarrow> bytes list" where
  "pkeys (PLeaf es) = map ekey es"
| "pkeys (PNode l ts) = map pmax ts"

definition preader :: "(bytes \<Rightarrow> bytes) \<Rightarrow> ptree \<Rightarrow> reader" where
  "preader H t = \<lparr>rhash = proot H t, rdata = pdata H t,
     rpos = 3 + length (append_uvarint (of_nat (length (pitems H t)))), rlevel = plevel t,
     rremaining = length (pitems H t)\<rparr>"

lemma preader_simps [simp]:
  "rlevel (preader H t) = plevel t" "rremaining (preader H t) = length (pitems H t)"
  "rdata (preader H t) = pdata H t" "rhash (preader H t) = proot H t"
  by (simp_all add: preader_def)

lemma length_pkeys [simp]: "length (pkeys t) = length (pitems H t)"
  by (cases t) simp_all

context digest32
begin

lemma length_pitems: "pvalid t \<Longrightarrow> length (pitems H t) < 2 ^ 64"
  using node_ok_pnode[of t] by (cases t) (auto simp: node_ok_def pvalid_def split: if_splits)

lemma links_ok_children: "pvalid (PNode l ts) \<Longrightarrow> list_all link_ok (map (plink H) ts)"
  using pvalid_child(2)[of l ts] link_ok_plink by (auto simp: list_all_iff)

lemma pdata_items:
  assumes "pvalid t"
  shows "pdata H t = [nodeMagic, nodeCodecVersion, plevel t] @ append_uvarint (of_nat (length (pitems H t))) @ concat (pitems H t)"
proof (cases t)
  case (PLeaf es)
  then show ?thesis by (simp add: pdata_def encodeNode_def append_entries_concat)
next
  case (PNode l ts)
  then have "l \<noteq> 0" using assms by (auto simp: pvalid_def)
  then show ?thesis
    using append_links_concat[OF links_ok_children[of l ts]] assms
    unfolding PNode pdata_def pnode_PNode encodeNode_def by (simp add: Let_def comp_def)
qed

lemma length_items:
  assumes "pvalid t"
  shows "2 * length (pitems H t) \<le> length (concat (pitems H t))"
proof (cases t)
  case (PLeaf es)
  then show ?thesis using append_entries_length[of es] by (simp add: append_entries_concat)
next
  case (PNode l ts)
  then show ?thesis
    using append_links_length[OF append_links_concat[OF links_ok_children[of l ts]]] assms by (simp add: comp_def)
qed

lemma openNode_pstored:
  assumes "pvalid t" "pstored get H t"
  shows "openNode get (proot H t) = Inr (preader H t)" "newNodeReader (proot H t) (pdata H t) = Inr (preader H t)"
proof -
  let ?c = "of_nat (length (pitems H t)) :: uint64"
  have c: "unat ?c = length (pitems H t)" using length_pitems[OF assms(1)] by (simp add: unat_of_nat)
  have "newNodeReader (proot H t) ([nodeMagic, nodeCodecVersion, plevel t] @ append_uvarint ?c @ concat (pitems H t)) = Inr (preader H t)"
    using newNodeReader_encoded[of ?c "concat (pitems H t)" "proot H t" "plevel t"] length_items[OF assms(1)] c
    unfolding preader_def pdata_items[OF assms(1)] by simp
  then show new: "newNodeReader (proot H t) (pdata H t) = Inr (preader H t)"
    unfolding pdata_items[OF assms(1)] .
  show "openNode get (proot H t) = Inr (preader H t)"
    using new pstored_root[OF assms(2)] by (simp add: openNode_def)
qed

lemma rrest_preader: "pvalid t \<Longrightarrow> rrest (preader H t) = concat (pitems H t)"
  unfolding rrest_def preader_def by (simp add: pdata_items numeral_3_eq_3)

lemma preader_pos: "pvalid t \<Longrightarrow> rpos (preader H t) \<le> length (pdata H t)"
  unfolding preader_def by (simp add: pdata_items numeral_3_eq_3)

lemma offsets_pstored:
  assumes "pvalid t"
  shows "item_offsets_loop (preader H t) [] = Inr (map of_nat (item_starts (rpos (preader H t)) (pitems H t)))"
proof (cases t)
  case (PLeaf es)
  then show ?thesis
    using item_offsets_loop_leaf[of "preader H t" es "[]"] rrest_preader[OF assms] preader_pos[OF assms] assms
    by (auto simp: append_entries_concat pvalid_def)
next
  case (PNode l ts)
  then have "l \<noteq> 0" using assms by (auto simp: pvalid_def)
  then show ?thesis
    using PNode item_offsets_loop_links[of "preader H t" "map (plink H) ts" "[]"] rrest_preader[OF assms]
      preader_pos[OF assms] links_ok_children[of l ts] assms
    by (simp add: comp_def)
qed

end

section \<open>Keys of a tree\<close>

definition elookup :: "bytes \<Rightarrow> entry list \<Rightarrow> bytes option" where
  "elookup key es = map_option evalue (find (\<lambda>e. ekey e = key) es)"

lemma find_append: "find P (xs @ ys) = (case find P xs of None \<Rightarrow> find P ys | Some x \<Rightarrow> Some x)"
  by (induction xs) auto

lemma elookup_append_left: "(\<And>e. e \<in> set xs \<Longrightarrow> ekey e \<noteq> key) \<Longrightarrow> elookup key (xs @ ys) = elookup key ys"
  by (simp add: elookup_def find_append find_None_iff[THEN iffD2])

lemma elookup_append_right: "(\<And>e. e \<in> set ys \<Longrightarrow> ekey e \<noteq> key) \<Longrightarrow> elookup key (xs @ ys) = elookup key xs"
  by (auto simp: elookup_def find_append find_None_iff[THEN iffD2] split: option.splits)

lemma elookup_None: "(\<And>e. e \<in> set xs \<Longrightarrow> ekey e \<noteq> key) \<Longrightarrow> elookup key xs = None"
  by (simp add: elookup_def find_None_iff[THEN iffD2])

lemma pmax_ge: "keys_sorted (pentries t) \<Longrightarrow> e \<in> set (pentries t) \<Longrightarrow> ekey e \<le> pmax t"
  by (cases "pentries t" rule: rev_cases) (auto simp: pmax_def keys_sorted_def sorted_wrt_append less_imp_le)

lemma pmax_in: "pwf t \<Longrightarrow> \<exists>e \<in> set (pentries t). pmax t = ekey e"
  using pwf_nonempty[of t] by (auto simp: pmax_def)

lemma children_maxima:
  assumes "keys_sorted (concat (map pentries ts))" "\<forall>t \<in> set ts. pwf t"
  shows "sorted_wrt (<) (map pmax ts)"
  using assms
proof (induction ts)
  case (Cons t ts)
  have "pmax t < pmax u" if "u \<in> set ts" for u
    using Cons.prems that pmax_in[of t] pmax_in[of u] by (fastforce simp: keys_sorted_def sorted_wrt_append)
  then show ?case using Cons by (auto simp: keys_sorted_def sorted_wrt_append)
qed simp

lemma pkeys_sorted: "pvalid t \<Longrightarrow> sorted_wrt (<) (pkeys t)"
  using children_maxima by (cases t) (auto simp: pvalid_def keys_sorted_def)

text \<open>The child a key leads to.\<close>

lemma child_split:
  assumes "pvalid (PNode l ts)" "i = length (takeWhile (\<lambda>k. k < key) (map pmax ts))"
  shows "e \<in> set (concat (map pentries (take i ts))) \<Longrightarrow> ekey e < key"
    and "i < length ts \<Longrightarrow> key \<le> pmax (ts ! i)"
    and "i < length ts \<Longrightarrow> e \<in> set (concat (map pentries (drop (Suc i) ts))) \<Longrightarrow> key < ekey e"
proof -
  have i: "take i (map pmax ts) = takeWhile (\<lambda>k. k < key) (map pmax ts)"
    unfolding assms(2) by (rule takeWhile_eq_take[symmetric])
  have ks: "keys_sorted (concat (map pentries ts))" using assms(1) by (simp add: pvalid_def)
  show "ekey e < key" if e: "e \<in> set (concat (map pentries (take i ts)))"
  proof -
    obtain t where t: "t \<in> set (take i ts)" "e \<in> set (pentries t)" using e by auto
    have "pmax t \<in> set (takeWhile (\<lambda>k. k < key) (map pmax ts))" using i t(1) by (metis image_eqI list.set_map take_map)
    then have "pmax t < key" by (auto dest: set_takeWhileD)
    moreover have "keys_sorted (pentries t)" using keys_sorted_child[of l ts t] ks t(1) by (auto dest: in_set_takeD)
    ultimately show ?thesis using pmax_ge[OF _ t(2)] by force
  qed
  show max: "key \<le> pmax (ts ! i)" if "i < length ts"
    using that nth_length_takeWhile[of "\<lambda>k. k < key" "map pmax ts"] assms(2) by (simp add: not_less)
  show "key < ekey e" if "i < length ts" "e \<in> set (concat (map pentries (drop (Suc i) ts)))"
  proof -
    have "ts = take i ts @ ts ! i # drop (Suc i) ts" using that(1) by (simp add: id_take_nth_drop)
    then have "keys_sorted (concat (map pentries (take i ts)) @ pentries (ts ! i) @ concat (map pentries (drop (Suc i) ts)))"
      using ks by (metis concat.simps(2) concat_append list.simps(9) map_append)
    moreover have "\<exists>x \<in> set (pentries (ts ! i)). pmax (ts ! i) = ekey x"
      using that(1) assms(1) by (intro pmax_in) (auto simp: pvalid_def)
    ultimately have "pmax (ts ! i) < ekey e" using that(2) by (auto simp: keys_sorted_def sorted_wrt_append)
    then show ?thesis using max[OF that(1)] by simp
  qed
qed

lemma elookup_child:
  assumes "pvalid (PNode l ts)" "i = length (takeWhile (\<lambda>k. k < key) (map pmax ts))" "i < length ts"
  shows "elookup key (pentries (PNode l ts)) = elookup key (pentries (ts ! i))"
proof -
  have "ts = take i ts @ ts ! i # drop (Suc i) ts" using assms(3) by (simp add: id_take_nth_drop)
  then have "pentries (PNode l ts) = concat (map pentries (take i ts)) @ pentries (ts ! i) @ concat (map pentries (drop (Suc i) ts))"
    by (metis concat.simps(2) concat_append list.simps(9) map_append pentries.simps(2))
  moreover have "elookup key (concat (map pentries (take i ts)) @ ys) = elookup key ys" for ys
    by (rule elookup_append_left) (use child_split(1)[OF assms(1,2)] in blast)
  moreover have "elookup key (pentries (ts ! i) @ concat (map pentries (drop (Suc i) ts))) = elookup key (pentries (ts ! i))"
    by (rule elookup_append_right) (use child_split(3)[OF assms(1,2,3)] in blast)
  ultimately show ?thesis by simp
qed

lemma elookup_leaf:
  assumes "keys_sorted es" "i = length (takeWhile (\<lambda>k. k < key) (map ekey es))"
  shows "elookup key es = (if i < length es \<and> ekey (es ! i) = key then Some (evalue (es ! i)) else None)"
  using assms
proof (induction es arbitrary: i)
  case (Cons e es)
  have sorted: "\<forall>x \<in> set es. ekey e < ekey x" "keys_sorted es" using Cons.prems(1) by (auto simp: keys_sorted_def)
  show ?case
  proof (cases "ekey e < key")
    case True
    then have "elookup key (e # es) = elookup key es" by (auto simp: elookup_def)
    then show ?thesis using True Cons.IH[OF sorted(2) refl] Cons.prems(2) by simp
  next
    case False
    then have "i = 0" using Cons.prems(2) by simp
    moreover have "elookup key es = None" if "ekey e \<noteq> key"
      using sorted(1) that False by (intro elookup_None) force
    ultimately show ?thesis by (auto simp: elookup_def)
  qed
qed (simp add: elookup_def)

section \<open>Get and Count on stored trees\<close>

text \<open>Offsets are 32-bit: every node must be smaller than 4 GiB.\<close>

definition small_nodes :: "(bytes \<Rightarrow> bytes) \<Rightarrow> ptree \<Rightarrow> bool" where
  "small_nodes H t \<longleftrightarrow> (\<forall>d \<in> pobjects H t. length d < 2 ^ 32)"


context digest32
begin

lemma search_pstored:
  assumes "pvalid t" "pstored get H t" "length (pdata H t) < 2 ^ 32" "cache_ok get c"
    and i_def: "i = length (takeWhile (\<lambda>k. k < key) (pkeys t))"
  shows "\<exists>c'. cache_ok get c' \<and> reader_search pick c (preader H t) key =
    (Inr (i, if i = length (pitems H t) then preader H t
             else (preader H t)\<lparr>rpos := item_starts (rpos (preader H t)) (pitems H t) ! i, rremaining := 1\<rparr>), c')"
proof -
  have keys: "\<exists>b. pitems H t ! j = append_bytes (pkeys t ! j) @ b \<and> length (pkeys t ! j) < 2 ^ 64"
    if "j < length (pitems H t)" for j
  proof (cases t)
    case (PLeaf es)
    then have "entry_ok (es ! j)" using assms(1) that by (auto simp: pvalid_def list_all_length)
    then show ?thesis using PLeaf that by (simp add: append_entry_def entry_ok_def)
  next
    case (PNode l ts)
    then have "link_ok (plink H (ts ! j))"
      using assms(1) that links_ok_children[of l ts] by (simp add: list_all_length)
    then show ?thesis using PNode that by (simp add: enc_link_def link_ok_def)
  qed
  have "drop (rpos (preader H t)) (pdata H t) = concat (pitems H t)"
    using rrest_preader[OF assms(1)] by (simp add: rrest_def)
  moreover have "sorted (pkeys t)" using pkeys_sorted[OF assms(1)] by (simp add: strict_sorted_iff)
  ultimately show ?thesis
    unfolding i_def
    using reader_search_correct[OF assms(4) pstored_root[OF assms(2)] openNode_pstored(2)[OF assms(1,2)]
        offsets_pstored[OF assms(1)] assms(3) _ _ _ _ keys, where key = key and pick = pick] by simp
qed

lemma item_reader:
  assumes "pvalid t" "j < length (pitems H t)"
  shows "rrest ((preader H t)\<lparr>rpos := item_starts (rpos (preader H t)) (pitems H t) ! j, rremaining := 1\<rparr>) =
    pitems H t ! j @ concat (drop (Suc j) (pitems H t))"
  using drop_item_starts[OF _ assms(2)] rrest_preader[OF assms(1)] by (simp add: rrest_def)

lemma enc_plink: "enc_link (plink H t) = append_bytes (pmax t) @ append_uvarint (pcount t) @ H (pdata H t)"
  by (simp add: enc_link_def proot_def storage_Sum_def)

lemma tree_Get_pstored:
  assumes "pvalid t" "pstored get H t" "small_nodes H t" "cache_ok get c"
  shows "\<exists>c'. cache_ok get c' \<and> tree_Get pick get key (proot H t) c =
    Some (case elookup key (pentries t) of None \<Rightarrow> Inl KeyNotFound | Some v \<Rightarrow> Inr v, c')"
  using assms
proof (induction t arbitrary: c)
  case (PLeaf es)
  let ?t = "PLeaf es"
  let ?i = "length (takeWhile (\<lambda>k. k < key) (pkeys ?t))"
  have ks: "keys_sorted es" "list_all entry_ok es" using PLeaf.prems(1) by (auto simp: pvalid_def)
  have "length (pdata H ?t) < 2 ^ 32" using PLeaf.prems(3) by (simp add: small_nodes_def pobjects_PLeaf)
  from search_pstored[OF PLeaf.prems(1,2) this PLeaf.prems(4) refl, where key = key and pick = pick]
  obtain c' where c': "cache_ok get c'" "reader_search pick c (preader H ?t) key =
    (Inr (?i, if ?i = length (pitems H ?t) then preader H ?t
             else (preader H ?t)\<lparr>rpos := item_starts (rpos (preader H ?t)) (pitems H ?t) ! ?i, rremaining := 1\<rparr>), c')"
    by (elim exE conjE) (rule that)
  have look: "elookup key es = (if ?i < length es \<and> ekey (es ! ?i) = key then Some (evalue (es ! ?i)) else None)"
    using elookup_leaf[OF ks(1) refl] by simp
  have "tree_Get pick get key (proot H ?t) c = Some (case elookup key es of None \<Rightarrow> Inl KeyNotFound | Some v \<Rightarrow> Inr v, c')"
  proof (cases "?i < length es")
    case True
    let ?r = "(preader H ?t)\<lparr>rpos := item_starts (rpos (preader H ?t)) (pitems H ?t) ! ?i, rremaining := 1\<rparr>"
    have "rrest ?r = append_entry (es ! ?i) @ concat (drop (Suc ?i) (pitems H ?t))"
      using item_reader[OF PLeaf.prems(1), of ?i] True by simp
    then have "nextEntry ?r = Inr (es ! ?i, radvance (length (append_entry (es ! ?i))) 1 ?r)"
      using nextEntry_append ks(2) True by (simp add: list_all_length)
    then show ?thesis
      using True c'(2) look openNode_pstored(1)[OF PLeaf.prems(1,2)]
      by (subst tree_Get.simps) auto
  next
    case False
    then have "?i = length es" using length_takeWhile_le[of "\<lambda>k. k < key" "map ekey es"] by simp
    then show ?thesis
      using c'(2) look openNode_pstored(1)[OF PLeaf.prems(1,2)] by (subst tree_Get.simps) simp
  qed
  then show ?case using c'(1) by auto
next
  case (PNode l ts)
  let ?t = "PNode l ts"
  let ?i = "length (takeWhile (\<lambda>k. k < key) (pkeys ?t))"
  have l: "l \<noteq> 0" using PNode.prems(1) by (auto simp: pvalid_def)
  have "length (pdata H ?t) < 2 ^ 32" using PNode.prems(3) by (simp add: small_nodes_def pobjects_PNode)
  from search_pstored[OF PNode.prems(1,2) this PNode.prems(4) refl, where key = key and pick = pick]
  obtain c' where c': "cache_ok get c'" "reader_search pick c (preader H ?t) key =
    (Inr (?i, if ?i = length (pitems H ?t) then preader H ?t
             else (preader H ?t)\<lparr>rpos := item_starts (rpos (preader H ?t)) (pitems H ?t) ! ?i, rremaining := 1\<rparr>), c')"
    by (elim exE conjE) (rule that)
  show ?case
  proof (cases "?i < length ts")
    case True
    let ?r = "(preader H ?t)\<lparr>rpos := item_starts (rpos (preader H ?t)) (pitems H ?t) ! ?i, rremaining := 1\<rparr>"
    let ?u = "ts ! ?i"
    have u: "pvalid ?u" "pwf ?u" "?u \<in> set ts" "pstored get H ?u"
      using True pvalid_child[OF PNode.prems(1)] pstored_child[OF PNode.prems(2)] by auto
    have small: "small_nodes H ?u" using PNode.prems(3) u(3) by (auto simp: small_nodes_def pobjects_PNode)
    have "rrest ?r = append_bytes (pmax ?u) @ append_uvarint (pcount ?u) @ H (pdata H ?u) @ concat (drop (Suc ?i) (pitems H ?t))"
      using item_reader[OF PNode.prems(1), of ?i] True by (simp add: enc_plink)
    moreover have "length (pmax ?u) < 2 ^ 64" using link_ok_plink[OF u(2)] by (simp add: link_ok_def)
    ultimately have next1: "nextLinkRaw ?r = Inr ((pmax ?u, pcount ?u, H (pdata H ?u)),
        radvance (length (append_bytes (pmax ?u) @ append_uvarint (pcount ?u) @ H (pdata H ?u))) 1 ?r)"
      by (intro nextLinkRaw_append) (simp_all add: length_H hashSize_def)
    have "tree_Get pick get key (proot H ?t) c = tree_Get pick get key (proot H ?u) c'"
      using True c'(2) l openNode_pstored(1)[OF PNode.prems(1,2)] next1
      by (subst tree_Get.simps) (simp add: proot_def storage_Sum_def)
    then show ?thesis
      using PNode.IH[OF u(3,1,4) small c'(1)] elookup_child[OF PNode.prems(1), of ?i key] True by simp
  next
    case False
    then have i: "?i = length ts" using length_takeWhile_le[of "\<lambda>k. k < key" "map pmax ts"] by simp
    then have "elookup key (pentries ?t) = None"
      using child_split(1)[OF PNode.prems(1), of ?i key] by (intro elookup_None) force
    then show ?thesis
      using i c' openNode_pstored(1)[OF PNode.prems(1,2)] by (subst tree_Get.simps) simp
  qed
qed


lemma count_links_plinks:
  assumes "rremaining r = length ts" "rrest r = concat (map (enc_link \<circ> plink H) ts)" "\<forall>t \<in> set ts. pwf t"
    and "rpos r \<le> length (rdata r)"
  shows "\<exists>r'. count_links r c = Inr (c + pcount (PNode l ts), r') \<and> reader_finish r' = Inr ()"
  using assms
proof (induction ts arbitrary: r c)
  case Nil
  then have "rpos r = length (rdata r)" by (simp add: rrest_def)
  then show ?case using Nil by (simp add: count_links.simps reader_finish_def pcount_def)
next
  case (Cons t ts)
  let ?e = "append_bytes (pmax t) @ append_uvarint (pcount t) @ H (pdata H t)"
  let ?r = "radvance (length ?e) 1 r"
  have "length (pmax t) < 2 ^ 64" using link_ok_plink[of t] Cons.prems(3) by (simp add: link_ok_def)
  then have n: "nextLinkRaw r = Inr ((pmax t, pcount t, H (pdata H t)), ?r)"
    using Cons.prems(2) by (intro nextLinkRaw_append) (simp_all add: enc_plink length_H hashSize_def)
  have len: "length ?e \<le> length (rdata r) - rpos r"
    using arg_cong[OF Cons.prems(2), of length] by (simp add: rrest_def enc_plink)
  have "\<exists>r'. count_links ?r (c + pcount t) = Inr ((c + pcount t) + pcount (PNode l ts), r') \<and> reader_finish r' = Inr ()"
    using Cons.prems len by (intro Cons.IH) (simp_all add: rrest_radvance enc_plink)
  then show ?case
    using Cons.prems(1) n by (subst count_links.simps) (simp add: pcount_def add.assoc)
qed

lemma tree_Count_pstored:
  assumes "pvalid t" "pstored get H t"
  shows "tree_Count get (proot H t) = Inr (of_nat (length (pentries t)))"
proof (cases t)
  case (PLeaf es)
  then show ?thesis using openNode_pstored(1)[OF assms] by (simp add: tree_Count_def)
next
  case (PNode l ts)
  have "l \<noteq> 0" "\<forall>u \<in> set ts. pwf u" using PNode assms(1) by (auto simp: pvalid_def)
  then show ?thesis
    using count_links_plinks[of "preader H t" ts 0 l] PNode rrest_preader[OF assms(1)] preader_pos[OF assms(1)]
      openNode_pstored(1)[OF assms]
    by (auto simp: tree_Count_def pcount_def)
qed

end

end
