(* ===== verification/Prolly_Iter.thy ===== *)
theory Prolly_Iter
  imports Prolly_Get
begin

text \<open>
  The lazy forward iterator of \<open>common/prolly/tree.go\<close>. The top of the Go slice \<open>stack\<close> is the
  head of the list here; the prefetch hint has no effect on results and is left out. A walk over
  a store that is not a tree may never reach a leaf, so the walks are option-valued.
\<close>

section \<open>The operations\<close>

record iterator =
  istack :: "(node \<times> nat) list"
  ileaf :: reader
  idone :: bool

definition emptyReader :: reader where
  "emptyReader = \<lparr>rhash = [], rdata = [], rpos = 0, rlevel = 0, rremaining = 0\<rparr>"

definition iterator_Close :: "iterator \<Rightarrow> iterator" where
  "iterator_Close it = \<lparr>istack = [], ileaf = emptyReader, idone = True\<rparr>"

partial_function (option) descend ::
  "(hash \<Rightarrow> error + bytes) \<Rightarrow> hash \<Rightarrow> iterator \<Rightarrow> (error + iterator) option" where
  "descend get h it =
     (case openNode get h of
        Inl e \<Rightarrow> Some (Inl e)
      | Inr r \<Rightarrow>
          if rlevel r = 0 then Some (Inr (it\<lparr>ileaf := r\<rparr>))
          else case reader_decode r of
            Inl e \<Rightarrow> Some (Inl e)
          | Inr n \<Rightarrow>
              if nchildren n = [] then Some (Inl InvalidInternalNode)
              else descend get (lhash (hd (nchildren n))) (it\<lparr>istack := (n, 1) # istack it\<rparr>))"

declare descend.simps [code]

fun advance_stack ::
  "(hash \<Rightarrow> error + bytes) \<Rightarrow> (node \<times> nat) list \<Rightarrow> iterator \<Rightarrow> (error + iterator) option" where
  "advance_stack get [] it = Some (Inr (it\<lparr>istack := [], idone := True\<rparr>))"
| "advance_stack get ((n, k) # stack) it =
     (if k < length (nchildren n)
      then descend get (lhash (nchildren n ! k)) (it\<lparr>istack := (n, k + 1) # stack\<rparr>)
      else advance_stack get stack it)"

definition advance :: "(hash \<Rightarrow> error + bytes) \<Rightarrow> iterator \<Rightarrow> (error + iterator) option" where
  "advance get it = advance_stack get (istack it) (it\<lparr>ileaf := emptyReader\<rparr>)"

text \<open>The scan of the leaf in \<open>seekTo\<close>: a reader at the first key not below, or the end.\<close>

function seek_leaf :: "bytes \<Rightarrow> reader \<Rightarrow> error + (reader + reader)" where
  "seek_leaf startKey r =
     (if rremaining r > 0 then
        case nextEntry r of
          Inl e \<Rightarrow> Inl e
        | Inr (entry, r') \<Rightarrow>
            if ekey entry \<ge> startKey then Inr (Inl r) else seek_leaf startKey r'
      else Inr (Inr r))"
  by pat_completeness auto
termination
  by (relation "measure (\<lambda>(k, r). rremaining r)") (auto dest!: nextEntry_frame)

declare seek_leaf.simps [simp del]

definition search_links :: "link list \<Rightarrow> bytes \<Rightarrow> nat" where
  "search_links cs key = sort_search (length cs) (\<lambda>i. lmax (cs ! i) \<ge> key)"

partial_function (option) seekTo ::
  "(hash \<Rightarrow> error + bytes) \<Rightarrow> bytes \<Rightarrow> hash \<Rightarrow> iterator \<Rightarrow> (error + iterator) option" where
  "seekTo get startKey h it =
     (case openNode get h of
        Inl e \<Rightarrow> Some (Inl e)
      | Inr r \<Rightarrow>
          if rlevel r = 0 then
            (case seek_leaf startKey r of
               Inl e \<Rightarrow> Some (Inl e)
             | Inr (Inl before) \<Rightarrow> Some (Inr (it\<lparr>ileaf := before\<rparr>))
             | Inr (Inr r') \<Rightarrow>
                 (case reader_finish r' of Inl e \<Rightarrow> Some (Inl e) | Inr _ \<Rightarrow> advance get it))
          else case reader_decode r of
            Inl e \<Rightarrow> Some (Inl e)
          | Inr n \<Rightarrow>
              if nchildren n = [] then Some (Inl InvalidInternalNode)
              else let i = search_links (nchildren n) startKey
                   in if i = length (nchildren n) then Some (Inr (it\<lparr>idone := True\<rparr>))
                      else seekTo get startKey (lhash (nchildren n ! i)) (it\<lparr>istack := (n, i + 1) # istack it\<rparr>))"

declare seekTo.simps [code]

definition newIterator :: iterator where
  "newIterator = \<lparr>istack = [], ileaf = emptyReader, idone = False\<rparr>"

definition tree_Iterator :: "(hash \<Rightarrow> error + bytes) \<Rightarrow> hash \<Rightarrow> (error + iterator) option" where
  "tree_Iterator get root = descend get root newIterator"

definition tree_IteratorFrom :: "(hash \<Rightarrow> error + bytes) \<Rightarrow> hash \<Rightarrow> bytes \<Rightarrow> (error + iterator) option" where
  "tree_IteratorFrom get root startKey = seekTo get startKey root newIterator"

text \<open>\<open>Next\<close>: an entry, the end (\<^const>\<open>None\<close>), or an error that closes the iterator.\<close>

partial_function (option) next_loop ::
  "(hash \<Rightarrow> error + bytes) \<Rightarrow> iterator \<Rightarrow> ((error + entry option) \<times> iterator) option" where
  "next_loop get it =
     (if rremaining (ileaf it) > 0 then
        case nextEntry (ileaf it) of
          Inl e \<Rightarrow> Some (Inl e, iterator_Close it)
        | Inr (entry, r') \<Rightarrow> Some (Inr (Some entry), it\<lparr>ileaf := r'\<rparr>)
      else case (if rdata (ileaf it) \<noteq> [] then reader_finish (ileaf it) else Inr ()) of
        Inl e \<Rightarrow> Some (Inl e, iterator_Close it)
      | Inr _ \<Rightarrow>
          Option.bind (advance get it) (\<lambda>res. case res of
            Inl e \<Rightarrow> Some (Inl e, iterator_Close it)
          | Inr it' \<Rightarrow> if idone it' then Some (Inr None, it') else next_loop get it'))"

declare next_loop.simps [code]

definition iterator_Next ::
  "(hash \<Rightarrow> error + bytes) \<Rightarrow> iterator \<Rightarrow> ((error + entry option) \<times> iterator) option" where
  "iterator_Next get it = (if idone it then Some (Inr None, it) else next_loop get it)"

text \<open>A caller that asks for up to \<open>n\<close> entries.\<close>

fun iterator_take ::
  "(hash \<Rightarrow> error + bytes) \<Rightarrow> nat \<Rightarrow> iterator \<Rightarrow> (error + entry list \<times> iterator) option" where
  "iterator_take get 0 it = Some (Inr ([], it))"
| "iterator_take get (Suc n) it =
     (case iterator_Next get it of
        None \<Rightarrow> None
      | Some (Inl e, _) \<Rightarrow> Some (Inl e)
      | Some (Inr None, it') \<Rightarrow> Some (Inr ([], it'))
      | Some (Inr (Some entry), it') \<Rightarrow>
          (case iterator_take get n it' of
             None \<Rightarrow> None
           | Some (Inl e) \<Rightarrow> Some (Inl e)
           | Some (Inr (es, it'')) \<Rightarrow> Some (Inr (entry # es, it''))))"

section \<open>What an iterator still has to return\<close>

definition leaf_repr :: "reader \<Rightarrow> entry list \<Rightarrow> bool" where
  "leaf_repr r es \<longleftrightarrow> rremaining r = length es \<and> rrest r = append_entries es \<and> list_all entry_ok es
     \<and> rpos r \<le> length (rdata r)"

definition frame_repr :: "(hash \<Rightarrow> error + bytes) \<Rightarrow> (bytes \<Rightarrow> bytes) \<Rightarrow> node \<times> nat \<Rightarrow> ptree list \<Rightarrow> bool" where
  "frame_repr get H f us \<longleftrightarrow> (\<exists>l ts. fst f = pnode H (PNode l ts) \<and> pvalid (PNode l ts)
     \<and> pstored get H (PNode l ts) \<and> us = drop (snd f) ts)"

fun frames_repr :: "(hash \<Rightarrow> error + bytes) \<Rightarrow> (bytes \<Rightarrow> bytes) \<Rightarrow> (node \<times> nat) list \<Rightarrow> entry list \<Rightarrow> bool" where
  "frames_repr get H [] es \<longleftrightarrow> es = []"
| "frames_repr get H (f # fs) es \<longleftrightarrow>
     (\<exists>us b. frame_repr get H f us \<and> frames_repr get H fs b \<and> es = concat (map pentries us) @ b)"

definition iter_repr :: "(hash \<Rightarrow> error + bytes) \<Rightarrow> (bytes \<Rightarrow> bytes) \<Rightarrow> iterator \<Rightarrow> entry list \<Rightarrow> bool" where
  "iter_repr get H it es \<longleftrightarrow>
     (if idone it then es = []
      else \<exists>a b. leaf_repr (ileaf it) a \<and> frames_repr get H (istack it) b \<and> es = a @ b)"

lemma leaf_repr_empty: "leaf_repr emptyReader []"
  by (simp add: leaf_repr_def emptyReader_def rrest_def)

lemma leaf_repr_finish: "leaf_repr r [] \<Longrightarrow> reader_finish r = Inr ()"
  by (simp add: leaf_repr_def reader_finish_def rrest_def)

lemma leaf_repr_Cons:
  assumes "leaf_repr r (e # es)"
  shows "\<exists>r'. nextEntry r = Inr (e, r') \<and> leaf_repr r' es"
proof -
  let ?r = "radvance (length (append_entry e)) 1 r"
  have "nextEntry r = Inr (e, ?r)"
    using assms by (intro nextEntry_append[of _ _ "append_entries es"]) (auto simp: leaf_repr_def)
  moreover have "length (append_entry e) \<le> length (rdata r) - rpos r"
  proof -
    have "length (rrest r) = length (append_entry e @ append_entries es)" using assms by (simp add: leaf_repr_def)
    then show ?thesis by (simp add: rrest_def)
  qed
  then have "leaf_repr ?r es"
    using assms by (auto simp: leaf_repr_def rrest_radvance)
  ultimately show ?thesis by blast
qed

context digest32
begin

lemma reader_decode_preader:
  assumes "pvalid t" "pstored get H t"
  shows "reader_decode (preader H t) = Inr (pnode H t)"
  using decodeNode_pdata[OF assms(1), of "proot H t"] openNode_pstored(2)[OF assms] by (simp add: decodeNode_def)

lemma leaf_repr_preader: "pvalid (PLeaf es) \<Longrightarrow> leaf_repr (preader H (PLeaf es)) es"
  using rrest_preader[of "PLeaf es"] preader_pos[of "PLeaf es"]
  by (auto simp: leaf_repr_def append_entries_concat pvalid_def)

text \<open>\<open>descend\<close> adds all entries of the tree in front of what the stack holds.\<close>

lemma descend_pstored:
  assumes "pvalid t" "pstored get H t" "frames_repr get H (istack it) b" "\<not> idone it"
  shows "\<exists>it'. descend get (proot H t) it = Some (Inr it') \<and> \<not> idone it' \<and> iter_repr get H it' (pentries t @ b)
    \<and> (pwf t \<longrightarrow> rremaining (ileaf it') > 0)"
  using assms
proof (induction t arbitrary: it b)
  case (PLeaf es)
  then have "descend get (proot H (PLeaf es)) it = Some (Inr (it\<lparr>ileaf := preader H (PLeaf es)\<rparr>))"
    by (subst descend.simps) (simp add: openNode_pstored(1))
  then show ?case
    using PLeaf leaf_repr_preader[of es] by (auto simp: iter_repr_def)
next
  case (PNode l ts)
  obtain u us where ts: "ts = u # us" "l \<noteq> 0" using PNode.prems(1) by (cases ts) (auto simp: pvalid_def)
  let ?it = "it\<lparr>istack := (pnode H (PNode l ts), 1) # istack it\<rparr>"
  have u: "pvalid u" "pwf u" "pstored get H u" "u \<in> set ts"
    using pvalid_child[OF PNode.prems(1)] pstored_child[OF PNode.prems(2)] ts by auto
  have "frame_repr get H (pnode H (PNode l ts), 1) us"
    unfolding frame_repr_def using PNode.prems(1,2) ts by (intro exI[of _ l] exI[of _ ts]) simp
  then have "frames_repr get H (istack ?it) (concat (map pentries us) @ b)"
    using PNode.prems(3) by auto
  moreover have "descend get (proot H (PNode l ts)) it = descend get (proot H u) ?it"
    using PNode.prems(1,2) ts openNode_pstored(1) reader_decode_preader
    by (subst descend.simps) (simp add: pnode_PNode del: pnode.simps)
  ultimately show ?case
    using PNode.IH[OF u(4,1,3), of ?it "concat (map pentries us) @ b"] PNode.prems(4) u(2) ts by auto
qed


lemma advance_stack_pstored:
  assumes "frames_repr get H stack b" "\<not> idone it"
  shows "\<exists>it'. advance_stack get stack it = Some (Inr it') \<and> iter_repr get H it' b
    \<and> (idone it' \<longleftrightarrow> b = []) \<and> (b \<noteq> [] \<longrightarrow> rremaining (ileaf it') > 0)"
  using assms(1)
proof (induction stack arbitrary: b)
  case Nil
  then show ?case by (simp add: iter_repr_def)
next
  case (Cons f stack)
  obtain n k where f: "f = (n, k)" by (cases f)
  obtain us b' where b': "frame_repr get H f us" "frames_repr get H stack b'" "b = concat (map pentries us) @ b'"
    using Cons.prems by auto
  obtain l ts where n: "n = pnode H (PNode l ts)" "pvalid (PNode l ts)" "pstored get H (PNode l ts)" "us = drop k ts"
    using b'(1) f by (auto simp: frame_repr_def)
  have len: "length (nchildren n) = length ts" using n(1) by simp
  show ?case
  proof (cases "k < length ts")
    case True
    then have us: "us = ts ! k # drop (Suc k) ts" using n(4) by (simp add: Cons_nth_drop_Suc)
    have u: "pvalid (ts ! k)" "pwf (ts ! k)" "pstored get H (ts ! k)"
      using True pvalid_child[OF n(2)] pstored_child[OF n(3)] by auto
    have link: "lhash (nchildren n ! k) = proot H (ts ! k)" using n(1) True by (simp add: pnode_PNode del: pnode.simps)
    let ?it = "it\<lparr>istack := (n, k + 1) # stack\<rparr>"
    have "frame_repr get H (n, k + 1) (drop (Suc k) ts)"
      unfolding frame_repr_def using n by (intro exI[of _ l] exI[of _ ts]) simp
    then have "frames_repr get H (istack ?it) (concat (map pentries (drop (Suc k) ts)) @ b')" using b'(2) by auto
    then obtain it' where "descend get (proot H (ts ! k)) ?it = Some (Inr it')" "\<not> idone it'"
        "iter_repr get H it' (pentries (ts ! k) @ concat (map pentries (drop (Suc k) ts)) @ b')" "rremaining (ileaf it') > 0"
      using descend_pstored[OF u(1,3), of ?it] assms(2) u(2) by auto
    then show ?thesis
      using f True len link us b'(3) pwf_nonempty[OF u(2)] by auto
  next
    case False
    then have "us = []" using n(4) by simp
    then show ?thesis using f False len Cons.IH[OF b'(2)] b'(3) by auto
  qed
qed

lemma advance_pstored:
  assumes "frames_repr get H (istack it) b" "\<not> idone it"
  shows "\<exists>it'. advance get it = Some (Inr it') \<and> iter_repr get H it' b
    \<and> (idone it' \<longleftrightarrow> b = []) \<and> (b \<noteq> [] \<longrightarrow> rremaining (ileaf it') > 0)"
  using advance_stack_pstored[OF assms(1), of "it\<lparr>ileaf := emptyReader\<rparr>"] assms(2) by (simp add: advance_def)

lemma next_in_leaf:
  assumes "iter_repr get H it es" "\<not> idone it" "rremaining (ileaf it) > 0"
  shows "\<exists>e es' it'. es = e # es' \<and> next_loop get it = Some (Inr (Some e), it') \<and> iter_repr get H it' es'"
proof -
  obtain a b where ab: "leaf_repr (ileaf it) a" "frames_repr get H (istack it) b" "es = a @ b"
    using assms(1,2) by (auto simp: iter_repr_def)
  then obtain e a' where a: "a = e # a'" using assms(3) by (cases a) (auto simp: leaf_repr_def)
  then obtain r' where "nextEntry (ileaf it) = Inr (e, r')" "leaf_repr r' a'" using leaf_repr_Cons ab(1) by blast
  then show ?thesis
    using ab a assms(2,3) by (subst next_loop.simps) (auto simp: iter_repr_def)
qed

text \<open>\<open>Next\<close> returns the next entry and leaves the others, or reports the end.\<close>

lemma iterator_Next_pstored:
  assumes "iter_repr get H it es"
  shows "\<exists>it'. iter_repr get H it' (tl es) \<and>
    iterator_Next get it = Some (Inr (case es of [] \<Rightarrow> None | e # _ \<Rightarrow> Some e), it')"
proof (cases "idone it")
  case True
  then show ?thesis using assms by (auto simp: iterator_Next_def iter_repr_def)
next
  case False
  show ?thesis
  proof (cases "rremaining (ileaf it) > 0")
    case True
    then show ?thesis using next_in_leaf[OF assms False] False by (auto simp: iterator_Next_def)
  next
    case empty: False
    obtain b where b: "leaf_repr (ileaf it) []" "frames_repr get H (istack it) b" "es = b"
      using assms False empty by (auto simp: iter_repr_def leaf_repr_def)
    obtain it' where it': "advance get it = Some (Inr it')" "iter_repr get H it' b" "idone it' \<longleftrightarrow> b = []"
        "b \<noteq> [] \<longrightarrow> rremaining (ileaf it') > 0"
      using advance_pstored[OF b(2) False] by blast
    have "next_loop get it = (if idone it' then Some (Inr None, it') else next_loop get it')"
      using empty leaf_repr_finish[OF b(1)] it'(1) by (subst next_loop.simps) auto
    then show ?thesis
      using next_in_leaf[OF it'(2)] it'(2,3,4) b(3) False by (cases b) (auto simp: iterator_Next_def)
  qed
qed

lemma iterator_take_pstored:
  assumes "iter_repr get H it es"
  shows "\<exists>it'. iterator_take get n it = Some (Inr (take n es, it')) \<and> iter_repr get H it' (drop n es)"
  using assms
proof (induction n arbitrary: it es)
  case (Suc n)
  obtain it' where it': "iter_repr get H it' (tl es)"
      "iterator_Next get it = Some (Inr (case es of [] \<Rightarrow> None | e # _ \<Rightarrow> Some e), it')"
    using iterator_Next_pstored[OF Suc.prems] by blast
  show ?case
  proof (cases es)
    case Nil
    then show ?thesis using it' by simp
  next
    case (Cons e es')
    then show ?thesis using it' Suc.IH[of it' es'] by auto
  qed
qed simp

lemma tree_Iterator_pstored:
  assumes "pvalid t" "pstored get H t"
  shows "\<exists>it. tree_Iterator get (proot H t) = Some (Inr it) \<and> iter_repr get H it (pentries t)"
  using descend_pstored[OF assms, of newIterator "[]"] by (auto simp: tree_Iterator_def newIterator_def)

section \<open>Seeking\<close>

lemma seek_leaf_repr:
  assumes "leaf_repr r es"
  shows "\<exists>r'. leaf_repr r' (dropWhile (\<lambda>e. ekey e < key) es) \<and>
    seek_leaf key r = Inr (if dropWhile (\<lambda>e. ekey e < key) es = [] then Inr r' else Inl r')"
  using assms
proof (induction es arbitrary: r)
  case Nil
  then show ?case by (subst seek_leaf.simps) (auto simp: leaf_repr_def)
next
  case (Cons e es)
  obtain r' where r': "nextEntry r = Inr (e, r')" "leaf_repr r' es" using leaf_repr_Cons[OF Cons.prems] by blast
  have rem: "rremaining r > 0" using Cons.prems by (simp add: leaf_repr_def)
  show ?case
  proof (cases "ekey e < key")
    case True
    then have "seek_leaf key r = seek_leaf key r'" using rem r'(1) by (subst seek_leaf.simps) auto
    then show ?thesis using True Cons.IH[OF r'(2)] by simp
  next
    case False
    then have "seek_leaf key r = Inr (Inl r)" using rem r'(1) by (subst seek_leaf.simps) auto
    then show ?thesis using False Cons.prems by auto
  qed
qed

lemma seek_leaf_found:
  assumes "leaf_repr r es" "dropWhile (\<lambda>e. ekey e < key) es \<noteq> []"
  shows "\<exists>r'. leaf_repr r' (dropWhile (\<lambda>e. ekey e < key) es) \<and> seek_leaf key r = Inr (Inl r')"
  using seek_leaf_repr[OF assms(1), of key] by (simp only: assms(2) if_False)

lemma seek_leaf_end:
  assumes "leaf_repr r es" "dropWhile (\<lambda>e. ekey e < key) es = []"
  shows "\<exists>r'. leaf_repr r' [] \<and> seek_leaf key r = Inr (Inr r')"
  using seek_leaf_repr[OF assms(1), of key] by (simp only: assms(2) if_True refl)

lemma search_links_plink:
  assumes "pvalid (PNode l ts)"
  shows "search_links (map (plink H) ts) key = length (takeWhile (\<lambda>k. k < key) (map pmax ts))"
proof -
  have "sorted (map pmax ts)" using pkeys_sorted[OF assms] by (simp add: strict_sorted_iff)
  then have "sort_search (length (map pmax ts)) (\<lambda>i. map pmax ts ! i \<ge> key) = length (takeWhile (\<lambda>k. k < key) (map pmax ts))"
    by (rule search_sorted_keys)
  moreover have "sort_search (length ts) (\<lambda>i. lmax (map (plink H) ts ! i) \<ge> key) = sort_search (length ts) (\<lambda>i. map pmax ts ! i \<ge> key)"
    unfolding sort_search_def by (rule search_loop_cong) simp
  ultimately show ?thesis by (simp add: search_links_def)
qed

lemma dropWhile_split:
  assumes "\<And>e. e \<in> set xs \<Longrightarrow> P e" "dropWhile P ys \<noteq> []"
  shows "dropWhile P (xs @ ys @ zs) = dropWhile P ys @ zs"
proof -
  have "dropWhile P (xs @ ys @ zs) = dropWhile P (ys @ zs)" using assms(1) by (induction xs) auto
  also have "\<dots> = dropWhile P ys @ zs" using assms(2) by (induction ys) auto
  finally show ?thesis .
qed

lemma below_max_nonempty:
  assumes "pwf t" "key \<le> pmax t"
  shows "dropWhile (\<lambda>e. ekey e < key) (pentries t) \<noteq> []"
  using pmax_in[OF assms(1)] assms(2) by (auto simp: dropWhile_eq_Nil_conv not_less)

lemma seekTo_below_max:
  assumes "pvalid t" "pstored get H t" "pwf t" "key \<le> pmax t" "frames_repr get H (istack it) b" "\<not> idone it"
  shows "\<exists>it'. seekTo get key (proot H t) it = Some (Inr it') \<and>
    iter_repr get H it' (dropWhile (\<lambda>e. ekey e < key) (pentries t) @ b)"
  using assms
proof (induction t arbitrary: it b)
  case (PLeaf es)
  obtain r' where "leaf_repr r' (dropWhile (\<lambda>e. ekey e < key) es)" "seek_leaf key (preader H (PLeaf es)) = Inr (Inl r')"
    using seek_leaf_found[OF leaf_repr_preader[OF PLeaf.prems(1)]] below_max_nonempty[OF PLeaf.prems(3,4)]
    unfolding pentries.simps by blast
  then show ?case
    using PLeaf.prems(5,6) openNode_pstored(1)[OF PLeaf.prems(1,2)] by (subst seekTo.simps) (auto simp: iter_repr_def)
next
  case (PNode l ts)
  let ?t = "PNode l ts"
  define i where "i = length (takeWhile (\<lambda>k. k < key) (map pmax ts))"
  have ts: "ts \<noteq> []" "l \<noteq> 0" "\<forall>u \<in> set ts. pwf u" using PNode.prems(3) by auto
  have "\<not> (\<forall>k \<in> set (map pmax ts). k < key)"
  proof -
    have "pmax ?t = pmax (last ts)"
      using ts pwf_nonempty[of "last ts"] by (cases ts rule: rev_cases) (simp_all add: pmax_def)
    then show ?thesis using ts(1) PNode.prems(4) by (auto simp: not_less intro!: bexI[of _ "last ts"])
  qed
  then have i: "i < length ts" unfolding i_def
    by (metis length_map length_takeWhile_le le_neq_implies_less takeWhile_eq_all_conv takeWhile_eq_take take_all)
  let ?u = "ts ! i" and ?rest = "concat (map pentries (drop (Suc i) ts))"
  let ?it = "it\<lparr>istack := (pnode H ?t, i + 1) # istack it\<rparr>"
  have u: "?u \<in> set ts" "pvalid ?u" "pwf ?u" "pstored get H ?u"
    using i pvalid_child[OF PNode.prems(1)] pstored_child[OF PNode.prems(2)] by auto
  have key: "key \<le> pmax ?u" using child_split(2)[OF PNode.prems(1) i_def i] .
  have "frame_repr get H (pnode H ?t, i + 1) (drop (Suc i) ts)"
    unfolding frame_repr_def using PNode.prems(1,2) by (intro exI[of _ l] exI[of _ ts]) simp
  then have fr: "frames_repr get H (istack ?it) (?rest @ b)" using PNode.prems(5) by auto
  have "seekTo get key (proot H ?t) it = seekTo get key (proot H ?u) ?it"
    using openNode_pstored(1)[OF PNode.prems(1,2)] reader_decode_preader[OF PNode.prems(1,2)] ts(1,2) i
      search_links_plink[OF PNode.prems(1), of key]
    by (subst seekTo.simps) (simp add: pnode_PNode i_def[symmetric] del: pnode.simps)
  moreover have "ts = take i ts @ ?u # drop (Suc i) ts" using i by (simp add: id_take_nth_drop)
  then have "pentries ?t = concat (map pentries (take i ts)) @ pentries ?u @ ?rest"
    by (metis concat.simps(2) concat_append list.simps(9) map_append pentries.simps(2))
  then have "dropWhile (\<lambda>e. ekey e < key) (pentries ?t) = dropWhile (\<lambda>e. ekey e < key) (pentries ?u) @ ?rest"
    using child_split(1)[OF PNode.prems(1) i_def] below_max_nonempty[OF u(3) key]
    by (simp only:) (rule dropWhile_split, blast+)
  ultimately show ?case using PNode.IH[OF u(1,2,4,3) key fr] PNode.prems(6) by simp
qed

lemma tree_IteratorFrom_pstored:
  assumes "pvalid t" "pstored get H t"
  shows "\<exists>it. tree_IteratorFrom get (proot H t) key = Some (Inr it) \<and>
    iter_repr get H it (dropWhile (\<lambda>e. ekey e < key) (pentries t))"
proof (cases "pwf t \<and> key \<le> pmax t")
  case True
  then show ?thesis
    using seekTo_below_max[OF assms, of key newIterator "[]"] by (auto simp: tree_IteratorFrom_def newIterator_def)
next
  case False
  have none: "dropWhile (\<lambda>e. ekey e < key) (pentries t) = []"
    using False assms(1) pmax_ge[of t] by (fastforce simp: pvalid_def dropWhile_eq_Nil_conv)
  show ?thesis
  proof (cases t)
    case (PLeaf es)
    obtain r' where "leaf_repr r' []" "seek_leaf key (preader H t) = Inr (Inr r')"
      using seek_leaf_end[OF leaf_repr_preader, of es key] assms(1) none unfolding PLeaf pentries.simps by blast
    then show ?thesis
      using openNode_pstored(1)[OF assms] leaf_repr_finish[of r'] PLeaf none
      unfolding tree_IteratorFrom_def
      by (subst seekTo.simps) (simp add: advance_def newIterator_def iter_repr_def)
  next
    case (PNode l ts)
    have ts: "ts \<noteq> []" "l \<noteq> 0" "\<forall>u \<in> set ts. pwf u" using assms(1) PNode by (auto simp: pvalid_def)
    have "\<forall>k \<in> set (map pmax ts). k < key"
      using none ts(3) pmax_in unfolding PNode by (fastforce simp: dropWhile_eq_Nil_conv)
    then have "takeWhile (\<lambda>k. k < key) (map pmax ts) = map pmax ts" by (simp only: takeWhile_eq_all_conv)
    then have "search_links (map (plink H) ts) key = length ts"
      using search_links_plink[of l ts key] assms(1) unfolding PNode by (simp only: length_map)
    then show ?thesis
      using openNode_pstored(1)[OF assms] reader_decode_preader[OF assms] ts none
      unfolding tree_IteratorFrom_def PNode
      by (subst seekTo.simps) (simp add: pnode_PNode newIterator_def iter_repr_def del: pnode.simps)
  qed
qed

end

end
