(* ===== verification/Prolly_Apply.thy ===== *)
theory Prolly_Apply
  imports Prolly_Build
begin

text \<open>
  \<open>Apply\<close> of \<open>common/prolly/tree.go\<close>: sorted edits on a stored tree, re-chunking from the first
  affected leaf until the boundaries realign. \<open>tget\<close> reads the store of the old tree and may be
  the store that is written; \<open>put\<close> writes the new nodes.
\<close>

section \<open>The operations\<close>

record edit =
  edkey :: bytes
  edvalue :: bytes
  eddelete :: bool

text \<open>\<open>leafChunker\<close>: the open entries and the links written so far.\<close>

record chunker =
  centries :: "entry list"
  clinks :: "link list"

definition chunker_flush ::
  "('s \<Rightarrow> bytes \<Rightarrow> error + hash \<times> 's) \<Rightarrow> chunker \<Rightarrow> 's \<Rightarrow> error + chunker \<times> 's" where
  "chunker_flush put c s =
     (if centries c = [] then Inr (c, s)
      else let grp = centries c
           in case writeNode put s \<lparr>nlevel = 0, nentries = grp, nchildren = []\<rparr> of
             Inl e \<Rightarrow> Inl e
           | Inr (h, s') \<Rightarrow> Inr (\<lparr>centries = [], clinks = clinks c @ [leaf_link grp h]\<rparr>, s'))"

definition chunker_add ::
  "('s \<Rightarrow> bytes \<Rightarrow> error + hash \<times> 's) \<Rightarrow> options \<Rightarrow> entry \<Rightarrow> chunker \<Rightarrow> 's \<Rightarrow> error + chunker \<times> 's" where
  "chunker_add put o1 item c s =
     (let c = c\<lparr>centries := centries c @ [item]\<rparr>
      in if shouldCut (length (centries c)) (entryBoundaryHash item) o1 then chunker_flush put c s
         else Inr (c, s))"

text \<open>
  \<open>leafLinks\<close>. The loop over the children calls \<open>leafLinks\<close> on each; \<open>leaf_links_all\<close> is that
  loop over a list of hashes. A store that is not a tree may make it run forever.
\<close>

definition node_leaf_links :: "hash \<Rightarrow> node \<Rightarrow> link list" where
  "node_leaf_links h n =
     (if nlevel n = 0
      then [\<lparr>lmax = (if nentries n = [] then [] else ekey (last (nentries n))),
             lcount = of_nat (length (nentries n)), lhash = h\<rparr>]
      else nchildren n)"

partial_function (option) leaf_links_all ::
  "(hash \<Rightarrow> error + bytes) \<Rightarrow> hash list \<Rightarrow> (error + link list) option" where
  "leaf_links_all get hs =
     (if hs = [] then Some (Inr [])
      else case readNode get (hd hs) of
        Inl e \<Rightarrow> Some (Inl e)
      | Inr n \<Rightarrow>
          Option.bind
            (if nlevel n = 0 \<or> nlevel n = 1 then Some (Inr (node_leaf_links (hd hs) n))
             else leaf_links_all get (map lhash (nchildren n)))
            (\<lambda>r. case r of
                Inl e \<Rightarrow> Some (Inl e)
              | Inr items \<Rightarrow>
                  Option.bind (leaf_links_all get (tl hs))
                    (\<lambda>rs. Some (case rs of Inl e \<Rightarrow> Inl e | Inr leaves \<Rightarrow> Inr (items @ leaves)))))"

declare leaf_links_all.simps [code]

definition leafLinks :: "(hash \<Rightarrow> error + bytes) \<Rightarrow> hash \<Rightarrow> (error + link list) option" where
  "leafLinks get root = leaf_links_all get [root]"

definition edit_entry :: "edit \<Rightarrow> entry" where
  "edit_entry ed = \<lparr>ekey = edkey ed, evalue = edvalue ed\<rparr>"

text \<open>One edit is taken: a deletion adds nothing.\<close>

definition take_edit ::
  "('s \<Rightarrow> bytes \<Rightarrow> error + hash \<times> 's) \<Rightarrow> options \<Rightarrow> edit \<Rightarrow> chunker \<Rightarrow> 's \<Rightarrow> error + chunker \<times> 's" where
  "take_edit put o1 ed c s = (if eddelete ed then Inr (c, s) else chunker_add put o1 (edit_entry ed) c s)"

text \<open>The inner loop: the edits whose keys come before the entry.\<close>

fun edits_before ::
  "('s \<Rightarrow> bytes \<Rightarrow> error + hash \<times> 's) \<Rightarrow> options \<Rightarrow> bytes \<Rightarrow> edit list \<Rightarrow> chunker \<Rightarrow> 's
    \<Rightarrow> error + edit list \<times> chunker \<times> 's" where
  "edits_before put o1 key [] c s = Inr ([], c, s)"
| "edits_before put o1 key (ed # eds) c s =
     (if edkey ed < key then
        case take_edit put o1 ed c s of
          Inl e \<Rightarrow> Inl e
        | Inr (c', s') \<Rightarrow> edits_before put o1 key eds c' s'
      else Inr (ed # eds, c, s))"

fun apply_entries ::
  "('s \<Rightarrow> bytes \<Rightarrow> error + hash \<times> 's) \<Rightarrow> options \<Rightarrow> entry list \<Rightarrow> edit list \<Rightarrow> chunker \<Rightarrow> 's
    \<Rightarrow> error + edit list \<times> chunker \<times> 's" where
  "apply_entries put o1 [] eds c s = Inr (eds, c, s)"
| "apply_entries put o1 (entry # es) eds c s =
     (case edits_before put o1 (ekey entry) eds c s of
        Inl e \<Rightarrow> Inl e
      | Inr (eds1, c1, s1) \<Rightarrow>
          (case (if eds1 \<noteq> [] \<and> edkey (hd eds1) = ekey entry
                 then (take_edit put o1 (hd eds1) c1 s1, tl eds1)
                 else (chunker_add put o1 entry c1 s1, eds1)) of
             (Inl e, _) \<Rightarrow> Inl e
           | (Inr (c2, s2), eds2) \<Rightarrow> apply_entries put o1 es eds2 c2 s2))"

text \<open>
  The loop over the leaves. \<open>Inr (Inl links)\<close> is the early exit, in which the untouched leaves
  follow the links written so far; \<open>Inr (Inr _)\<close> is the end of the loop.
\<close>

fun apply_leaves ::
  "('s \<Rightarrow> hash \<Rightarrow> error + bytes) \<Rightarrow> ('s \<Rightarrow> bytes \<Rightarrow> error + hash \<times> 's) \<Rightarrow> options \<Rightarrow> link list \<Rightarrow> edit list
    \<Rightarrow> chunker \<Rightarrow> 's \<Rightarrow> error + (link list + edit list \<times> chunker) \<times> 's" where
  "apply_leaves tget put o1 [] eds c s = Inr (Inr (eds, c), s)"
| "apply_leaves tget put o1 (leaf # leaves) eds c s =
     (case readNode (tget s) (lhash leaf) of
        Inl e \<Rightarrow> Inl e
      | Inr n \<Rightarrow>
          if nlevel n \<noteq> 0 then Inl InvalidLeafLink
          else case apply_entries put o1 (nentries n) eds c s of
            Inl e \<Rightarrow> Inl e
          | Inr (eds1, c1, s1) \<Rightarrow>
              if eds1 = [] \<and> centries c1 = [] then Inr (Inl (clinks c1 @ leaves), s1)
              else apply_leaves tget put o1 leaves eds1 c1 s1)"

fun apply_rest ::
  "('s \<Rightarrow> bytes \<Rightarrow> error + hash \<times> 's) \<Rightarrow> options \<Rightarrow> edit list \<Rightarrow> chunker \<Rightarrow> 's \<Rightarrow> error + chunker \<times> 's" where
  "apply_rest put o1 [] c s = Inr (c, s)"
| "apply_rest put o1 (ed # eds) c s =
     (case take_edit put o1 ed c s of Inl e \<Rightarrow> Inl e | Inr (c', s') \<Rightarrow> apply_rest put o1 eds c' s')"

text \<open>The end of \<open>Apply\<close>: the edits after the last entry, the last chunk, the empty tree.\<close>

definition apply_finish ::
  "('s \<Rightarrow> bytes \<Rightarrow> error + hash \<times> 's) \<Rightarrow> options \<Rightarrow> edit list \<Rightarrow> chunker \<Rightarrow> 's \<Rightarrow> error + link list \<times> 's" where
  "apply_finish put o1 eds c s =
     (case apply_rest put o1 eds c s of
        Inl e \<Rightarrow> Inl e
      | Inr (c1, s1) \<Rightarrow>
          (case chunker_flush put c1 s1 of
             Inl e \<Rightarrow> Inl e
           | Inr (c2, s2) \<Rightarrow>
               if clinks c2 = [] then
                 (case writeNode put s2 \<lparr>nlevel = 0, nentries = [], nchildren = []\<rparr> of
                    Inl e \<Rightarrow> Inl e
                  | Inr (h, s3) \<Rightarrow> Inr ([\<lparr>lmax = [], lcount = 0, lhash = h\<rparr>], s3))
               else Inr (clinks c2, s2)))"

fun edits_check :: "edit list \<Rightarrow> error option" where
  "edits_check [] = None"
| "edits_check [ed] = (if edkey ed = [] then Some EditKeyRequired else None)"
| "edits_check (ed # ed' # eds) =
     (if edkey ed = [] then Some EditKeyRequired
      else if edkey ed' = [] then Some EditKeyRequired
      else if edkey ed \<ge> edkey ed' then Some EditsNotOrdered
      else edits_check (ed' # eds))"

definition apply_start :: "link list \<Rightarrow> bytes \<Rightarrow> nat" where
  "apply_start leaves key =
     (let start = sort_search (length leaves) (\<lambda>i. lmax (leaves ! i) \<ge> key)
      in if start = length leaves then length leaves - 1 else start)"

text \<open>The leaf links of the new tree, from the leaf the first edit falls into.\<close>

definition apply_links ::
  "('s \<Rightarrow> hash \<Rightarrow> error + bytes) \<Rightarrow> ('s \<Rightarrow> bytes \<Rightarrow> error + hash \<times> 's) \<Rightarrow> options \<Rightarrow> link list \<Rightarrow> edit list
    \<Rightarrow> chunker \<Rightarrow> 's \<Rightarrow> error + link list \<times> 's" where
  "apply_links tget put o1 leaves eds c s =
     (case apply_leaves tget put o1 leaves eds c s of
        Inl e \<Rightarrow> Inl e
      | Inr (Inl links, s1) \<Rightarrow> Inr (links, s1)
      | Inr (Inr (eds1, c1), s1) \<Rightarrow> apply_finish put o1 eds1 c1 s1)"

definition Apply ::
  "('s \<Rightarrow> hash \<Rightarrow> error + bytes) \<Rightarrow> ('s \<Rightarrow> bytes \<Rightarrow> error + hash \<times> 's) \<Rightarrow> 's \<Rightarrow> tree \<Rightarrow> edit list
    \<Rightarrow> (error + tree \<times> 's) option" where
  "Apply tget put s t eds =
     (if eds = [] then Some (Inr (t, s))
      else case edits_check eds of
        Some e \<Rightarrow> Some (Inl e)
      | None \<Rightarrow>
          Option.bind (leafLinks (tget s) (troot t)) (\<lambda>r. case r of
            Inl e \<Rightarrow> Some (Inl e)
          | Inr leaves \<Rightarrow>
              if leaves = [] then Some (Inl IndexOutOfRange)
              else let o1 = toptions t;
                       start = apply_start leaves (edkey (hd eds));
                       c = \<lparr>centries = [], clinks = take start leaves\<rparr>
                   in case apply_links tget put o1 (drop start leaves) eds c s of
                        Inl e \<Rightarrow> Some (Inl e)
                      | Inr (links, s1) \<Rightarrow> buildFromLeafLinks put s1 links o1))"

section \<open>What an edit means\<close>

definition puts :: "edit list \<Rightarrow> entry list" where
  "puts eds = map edit_entry (filter (\<lambda>ed. \<not> eddelete ed) eds)"

text \<open>The abstract result: entries with an edited key are dropped, the insertions are added.\<close>

definition edited :: "edit list \<Rightarrow> entry list \<Rightarrow> entry list" where
  "edited eds es = sort_key ekey (filter (\<lambda>e. ekey e \<notin> edkey ` set eds) es @ puts eds)"

definition edits_sorted :: "edit list \<Rightarrow> bool" where
  "edits_sorted eds \<longleftrightarrow> sorted_wrt (<) (map edkey eds)"

text \<open>The entries the loop over \<open>es\<close> adds, and the edits it leaves.\<close>

fun consume :: "edit list \<Rightarrow> entry list \<Rightarrow> entry list \<times> edit list" where
  "consume eds [] = ([], eds)"
| "consume eds (e # es) =
     (let before = puts (takeWhile (\<lambda>ed. edkey ed < ekey e) eds);
          rest = dropWhile (\<lambda>ed. edkey ed < ekey e) eds;
          hit = (rest \<noteq> [] \<and> edkey (hd rest) = ekey e);
          (out, left) = consume (if hit then tl rest else rest) es
      in (before @ (if hit then puts [hd rest] else [e]) @ out, left))"

definition merge_edits :: "edit list \<Rightarrow> entry list \<Rightarrow> entry list" where
  "merge_edits eds es = fst (consume eds es) @ puts (snd (consume eds es))"

lemma puts_append [simp]: "puts (a @ b) = puts a @ puts b"
  by (simp add: puts_def)

lemma puts_Nil [simp]: "puts [] = []"
  by (simp add: puts_def)

lemma puts_keys: "x \<in> set (puts eds) \<Longrightarrow> ekey x \<in> edkey ` set eds"
  by (auto simp: puts_def edit_entry_def)

lemma keys_sorted_puts: "edits_sorted eds \<Longrightarrow> keys_sorted (puts eds)"
  by (induction eds) (auto simp: edits_sorted_def keys_sorted_def puts_def edit_entry_def)

lemma keys_sorted_append:
  "keys_sorted (xs @ ys) \<longleftrightarrow> keys_sorted xs \<and> keys_sorted ys \<and> (\<forall>x \<in> set xs. \<forall>y \<in> set ys. ekey x < ekey y)"
  by (auto simp: keys_sorted_def sorted_wrt_append)

lemma keys_sorted_Cons: "keys_sorted (x # ys) \<longleftrightarrow> (\<forall>y \<in> set ys. ekey x < ekey y) \<and> keys_sorted ys"
  by (auto simp: keys_sorted_def)

lemma edits_sorted_append:
  "edits_sorted (xs @ ys) \<longleftrightarrow> edits_sorted xs \<and> edits_sorted ys \<and> (\<forall>x \<in> set xs. \<forall>y \<in> set ys. edkey x < edkey y)"
  by (auto simp: edits_sorted_def sorted_wrt_append)

lemma edits_sorted_Cons: "edits_sorted (x # ys) \<longleftrightarrow> (\<forall>y \<in> set ys. edkey x < edkey y) \<and> edits_sorted ys"
  by (auto simp: edits_sorted_def)

lemma consume_append:
  "consume eds (xs @ ys) =
    (fst (consume eds xs) @ fst (consume (snd (consume eds xs)) ys), snd (consume (snd (consume eds xs)) ys))"
  by (induction eds xs rule: consume.induct) (auto simp: Let_def split: prod.splits)

lemma merge_edits_append: "merge_edits eds (xs @ ys) = fst (consume eds xs) @ merge_edits (snd (consume eds xs)) ys"
  by (simp add: merge_edits_def consume_append)

lemma merge_edits_Cons_cases:
  assumes "edits_sorted eds"
  obtains before d rest where "eds = before @ d # rest" "\<forall>x \<in> set before. edkey x < ekey e" "edkey d = ekey e"
      "merge_edits eds (e # es) = puts before @ puts [d] @ merge_edits rest es"
    | before rest where "eds = before @ rest" "\<forall>x \<in> set before. edkey x < ekey e" "\<forall>x \<in> set rest. ekey e < edkey x"
      "merge_edits eds (e # es) = puts before @ [e] @ merge_edits rest es"
proof -
  let ?P = "\<lambda>ed. edkey ed < ekey e"
  let ?b = "takeWhile ?P eds" and ?r = "dropWhile ?P eds"
  have b: "eds = ?b @ ?r" "\<forall>x \<in> set ?b. edkey x < ekey e" by (auto dest: set_takeWhileD)
  show thesis
  proof (cases "?r \<noteq> [] \<and> edkey (hd ?r) = ekey e")
    case True
    then obtain d rest where r: "?r = d # rest" "edkey d = ekey e" by (cases ?r) auto
    show thesis
      by (rule that(1)[of ?b d rest]) (use b r in \<open>auto simp: merge_edits_def split: prod.splits\<close>)
  next
    case False
    have "\<forall>x \<in> set ?r. ekey e < edkey x"
    proof (cases ?r)
      case (Cons d rest)
      then have "\<not> edkey d < ekey e" by (metis hd_dropWhile list.distinct(1) list.sel(1))
      then have "ekey e < edkey d" using False Cons by auto
      moreover have "edits_sorted (d # rest)" using assms b(1) Cons by (metis edits_sorted_append)
      ultimately show ?thesis using Cons by (auto simp: edits_sorted_Cons dest: less_trans)
    next
      case Nil
      then show ?thesis unfolding Nil by simp
    qed
    then show thesis
      by (intro that(2)[of ?b ?r]) (use b False in \<open>auto simp: merge_edits_def split: prod.splits\<close>)
  qed
qed

lemma keys_sorted_join:
  assumes "keys_sorted a" "keys_sorted b" "keys_sorted c"
    and "\<And>x. x \<in> set a \<Longrightarrow> ekey x < m" "\<And>x. x \<in> set b \<Longrightarrow> ekey x = m" "\<And>x. x \<in> set c \<Longrightarrow> m < ekey x"
  shows "keys_sorted (a @ b @ c)"
  unfolding keys_sorted_append set_append ball_Un
  using assms(1-3) by (auto simp: assms(4-6) intro: less_trans[OF assms(4) assms(6)])

lemma merge_edits_spec:
  assumes "edits_sorted eds" "keys_sorted es"
  shows "keys_sorted (merge_edits eds es) \<and>
    set (merge_edits eds es) = {e \<in> set es. ekey e \<notin> edkey ` set eds} \<union> set (puts eds)"
  using assms
proof (induction es arbitrary: eds)
  case Nil
  then show ?case by (simp add: merge_edits_def keys_sorted_puts)
next
  case (Cons e es)
  have es: "keys_sorted es" "\<forall>y \<in> set es. ekey e < ekey y" using Cons.prems(2) by (auto simp: keys_sorted_Cons)
  from Cons.prems(1) show ?case
  proof (cases rule: merge_edits_Cons_cases[of eds e es])
    case (1 before d rest)
    have s: "edits_sorted before" "edits_sorted rest" "\<forall>x \<in> set rest. ekey e < edkey x"
      using Cons.prems(1) 1 by (auto simp: edits_sorted_append edits_sorted_Cons)
    have IH: "keys_sorted (merge_edits rest es)"
        "set (merge_edits rest es) = {e \<in> set es. ekey e \<notin> edkey ` set rest} \<union> set (puts rest)"
      using Cons.IH[OF s(2) es(1)] by auto
    have above: "\<forall>x \<in> set (merge_edits rest es). ekey e < ekey x"
      using IH(2) es(2) s(3) puts_keys[of _ rest] by fastforce
    have below: "\<forall>x \<in> set (puts before). ekey x < ekey e"
      using 1(2) puts_keys[of _ before] by fastforce
    have d: "\<forall>x \<in> set (puts [d]). ekey x = ekey e" using 1(3) by (auto simp: puts_def edit_entry_def)
    have "keys_sorted (puts [d])" by (simp add: puts_def keys_sorted_def)
    then have "keys_sorted (puts before @ puts [d] @ merge_edits rest es)"
      using IH(1) above below d keys_sorted_puts[OF s(1)] by (intro keys_sorted_join[where m = "ekey e"]) blast+
    moreover have "\<forall>x \<in> set es. ekey x \<notin> edkey ` set before \<and> ekey x \<noteq> edkey d"
      using 1(2,3) es(2) by (metis imageE less_asym less_irrefl)
    then have keep: "{x \<in> set (e # es). ekey x \<notin> edkey ` set eds} = {x \<in> set es. ekey x \<notin> edkey ` set rest}"
      unfolding 1(1) using 1(3) by auto
    have "set (merge_edits eds (e # es)) = {x \<in> set (e # es). ekey x \<notin> edkey ` set eds} \<union> set (puts eds)"
      unfolding 1(4) keep set_append IH(2) unfolding 1(1) by (auto simp: puts_def)
    ultimately show ?thesis using 1(4) by simp
  next
    case (2 before rest)
    have s: "edits_sorted before" "edits_sorted rest"
      using Cons.prems(1) 2 by (auto simp: edits_sorted_append)
    have IH: "keys_sorted (merge_edits rest es)"
        "set (merge_edits rest es) = {e \<in> set es. ekey e \<notin> edkey ` set rest} \<union> set (puts rest)"
      using Cons.IH[OF s(2) es(1)] by auto
    have above: "\<forall>x \<in> set (merge_edits rest es). ekey e < ekey x"
      using IH(2) es(2) 2(3) puts_keys[of _ rest] by fastforce
    have below: "\<forall>x \<in> set (puts before). ekey x < ekey e"
      using 2(2) puts_keys[of _ before] by fastforce
    have "keys_sorted (puts before @ [e] @ merge_edits rest es)"
      using IH(1) above below keys_sorted_puts[OF s(1)]
      by (intro keys_sorted_join[where m = "ekey e"]) (auto simp: keys_sorted_def)
    moreover have "\<forall>x \<in> set es. ekey x \<notin> edkey ` set before" "ekey e \<notin> edkey ` set eds"
      using 2(1,2,3) es(2) by (fastforce dest: less_asym)+
    then have keep: "{x \<in> set (e # es). ekey x \<notin> edkey ` set eds} = insert e {x \<in> set es. ekey x \<notin> edkey ` set rest}"
      unfolding 2(1) by auto
    have "set (merge_edits eds (e # es)) = {x \<in> set (e # es). ekey x \<notin> edkey ` set eds} \<union> set (puts eds)"
      unfolding 2(4) keep set_append IH(2) unfolding 2(1) by (auto simp: puts_def)
    ultimately show ?thesis using 2(4) by simp
  qed
qed

text \<open>Sorted entry lists with the same elements are equal.\<close>

lemma keys_sorted_unique:
  assumes "keys_sorted xs" "keys_sorted ys" "set xs = set ys"
  shows "xs = ys"
proof -
  have "sorted (map ekey xs)" "sorted (map ekey ys)" "distinct (map ekey xs)" "distinct (map ekey ys)"
    using assms by (auto simp: keys_sorted_def strict_sorted_iff)
  moreover from this have "inj_on ekey (set xs \<union> set ys)" using assms(3) by (simp add: distinct_map)
  ultimately show ?thesis
    using assms(3) map_sorted_distinct_set_unique[of ekey xs ys] by auto
qed

lemma edited_eq_merge:
  assumes "edits_sorted eds" "keys_sorted es"
  shows "edited eds es = merge_edits eds es"
proof (rule keys_sorted_unique)
  let ?xs = "filter (\<lambda>e. ekey e \<notin> edkey ` set eds) es @ puts eds"
  have "distinct (map ekey (filter (\<lambda>e. ekey e \<notin> edkey ` set eds) es))" "distinct (map ekey (puts eds))"
    using assms(2) keys_sorted_puts[OF assms(1)]
    by (auto simp: keys_sorted_def strict_sorted_iff distinct_map_filter)
  then have "distinct (map ekey ?xs)"
    using puts_keys[of _ eds] by fastforce
  then have "distinct (map ekey (sort_key ekey ?xs))" by (simp only: distinct_map distinct_sort set_sort simp_thms)
  then show "keys_sorted (edited eds es)"
    by (simp only: keys_sorted_def edited_def strict_sorted_iff sorted_sort_key simp_thms)
  show "keys_sorted (merge_edits eds es)" using merge_edits_spec[OF assms] by blast
  show "set (edited eds es) = set (merge_edits eds es)"
    using merge_edits_spec[OF assms] by (auto simp: edited_def)
qed

text \<open>Entries before every edit pass through; the edits left are those after the last entry.\<close>

lemma consume_before: "(\<And>x ed. x \<in> set xs \<Longrightarrow> ed \<in> set eds \<Longrightarrow> ekey x < edkey ed) \<Longrightarrow> consume eds xs = (xs, eds)"
proof (induction xs)
  case (Cons x xs)
  have "\<not> edkey ed < ekey x \<and> edkey ed \<noteq> ekey x" if "ed \<in> set eds" for ed
    using Cons.prems[of x ed] that by auto
  then have "takeWhile (\<lambda>ed. edkey ed < ekey x) eds = []" "dropWhile (\<lambda>ed. edkey ed < ekey x) eds = eds"
      "\<not> (eds \<noteq> [] \<and> edkey (hd eds) = ekey x)"
    by (cases eds; auto)+
  then show ?case using Cons by (auto simp: Let_def)
qed simp

lemma consume_Nil: "consume [] xs = (xs, [])"
  by (rule consume_before) simp

lemma merge_edits_Nil: "merge_edits [] xs = xs"
  by (simp add: merge_edits_def consume_Nil)

lemma consume_left_Cons:
  assumes "edits_sorted eds"
  shows "snd (consume eds (e # es)) = snd (consume (filter (\<lambda>ed. ekey e < edkey ed) eds) es)"
proof -
  let ?P = "\<lambda>ed. edkey ed < ekey e"
  let ?r = "dropWhile ?P eds"
  have r: "?r = filter (\<lambda>ed. ekey e \<le> edkey ed) eds"
    using assms
  proof (induction eds)
    case (Cons d ds)
    then have "ekey e \<le> edkey d \<Longrightarrow> filter (\<lambda>ed. ekey e \<le> edkey ed) ds = ds"
      by (auto simp: edits_sorted_Cons filter_id_conv intro: less_imp_le order_le_less_trans)
    then show ?case using Cons by (auto simp: edits_sorted_Cons)
  qed simp
  have s: "edits_sorted ?r"
    using assms by (metis edits_sorted_append takeWhile_dropWhile_id)
  have "(if ?r \<noteq> [] \<and> edkey (hd ?r) = ekey e then tl ?r else ?r) = filter (\<lambda>ed. ekey e < edkey ed) ?r"
  proof (cases ?r)
    case (Cons d ds)
    have "\<forall>x \<in> set ds. edkey d < edkey x" using s Cons by (simp add: edits_sorted_Cons)
    moreover have "d \<in> set (filter (\<lambda>ed. ekey e \<le> edkey ed) eds)" using Cons r by simp
    then have d: "ekey e \<le> edkey d" by simp
    ultimately have "\<forall>x \<in> set ds. ekey e < edkey x" using order_le_less_trans by blast
    then have "filter (\<lambda>ed. ekey e < edkey ed) ds = ds" by (simp add: filter_id_conv)
    then show ?thesis unfolding Cons using d by (auto simp: le_less)
  qed (simp only: filter.simps list.simps simp_thms if_False)
  also have "\<dots> = filter (\<lambda>ed. ekey e < edkey ed) eds"
    unfolding r by (auto intro: filter_cong less_imp_le)
  finally show ?thesis by (simp add: Let_def split_def)
qed

lemma consume_left:
  assumes "edits_sorted eds" "keys_sorted es" "es \<noteq> []"
  shows "snd (consume eds es) = filter (\<lambda>ed. ekey (last es) < edkey ed) eds"
  using assms
proof (induction es arbitrary: eds)
  case (Cons e es)
  show ?case
  proof (cases "es = []")
    case True
    then show ?thesis using consume_left_Cons[OF Cons.prems(1), of e "[]"] by simp
  next
    case False
    have "edits_sorted (filter (\<lambda>ed. ekey e < edkey ed) eds)"
      using Cons.prems(1) by (induction eds) (auto simp: edits_sorted_Cons)
    then have "snd (consume eds (e # es)) = filter (\<lambda>ed. ekey (last es) < edkey ed) (filter (\<lambda>ed. ekey e < edkey ed) eds)"
      using Cons.IH[of "filter (\<lambda>ed. ekey e < edkey ed) eds"] Cons.prems(2) False
        consume_left_Cons[OF Cons.prems(1), of e es] by (simp add: keys_sorted_Cons)
    moreover have "ekey e < ekey (last es)" using Cons.prems(2) False by (simp add: keys_sorted_Cons)
    then have "filter (\<lambda>ed. ekey (last es) < edkey ed) (filter (\<lambda>ed. ekey e < edkey ed) eds) =
        filter (\<lambda>ed. ekey (last es) < edkey ed) eds"
      by (auto intro!: filter_cong intro: less_trans)
    ultimately show ?thesis using False by simp
  qed
qed simp

end
