(* ===== verification/Apply_Correct.thy ===== *)
theory Apply_Correct
  imports Prolly_Apply
begin

text \<open>
  \<open>Apply\<close> gives the tree \<open>Build\<close> would give on the edited entries (history independence), or
  panics in the one case the lemmas below characterise.
\<close>

section \<open>The chunker is the chunking state machine\<close>

fun chunker_adds ::
  "('s \<Rightarrow> bytes \<Rightarrow> error + hash \<times> 's) \<Rightarrow> options \<Rightarrow> entry list \<Rightarrow> chunker \<Rightarrow> 's \<Rightarrow> error + chunker \<times> 's" where
  "chunker_adds put o1 [] c s = Inr (c, s)"
| "chunker_adds put o1 (x # xs) c s =
     (case chunker_add put o1 x c s of Inl e \<Rightarrow> Inl e | Inr (c', s') \<Rightarrow> chunker_adds put o1 xs c' s')"

definition with_edits :: "edit list \<Rightarrow> error + chunker \<times> 's \<Rightarrow> error + edit list \<times> chunker \<times> 's" where
  "with_edits eds r = (case r of Inl e \<Rightarrow> Inl e | Inr (c, s) \<Rightarrow> Inr (eds, c, s))"

lemma with_edits_simps [simp]: "with_edits eds (Inl e) = Inl e" "with_edits eds (Inr (c, s)) = Inr (eds, c, s)"
  by (simp_all add: with_edits_def)

lemma chunker_adds_append:
  "chunker_adds put o1 (xs @ ys) c s =
    (case chunker_adds put o1 xs c s of Inl e \<Rightarrow> Inl e | Inr (c', s') \<Rightarrow> chunker_adds put o1 ys c' s')"
  by (induction xs arbitrary: c s) (auto split: sum.splits)

lemma take_edit_adds: "take_edit put o1 ed c s = chunker_adds put o1 (puts [ed]) c s"
  by (auto simp: take_edit_def puts_def split: sum.splits)

lemma puts_Cons: "puts (ed # eds) = puts [ed] @ puts eds"
  by (simp add: puts_def)

lemma edits_before_adds:
  "edits_before put o1 key eds c s =
    with_edits (dropWhile (\<lambda>ed. edkey ed < key) eds)
      (chunker_adds put o1 (puts (takeWhile (\<lambda>ed. edkey ed < key) eds)) c s)"
proof (induction eds arbitrary: c s)
  case (Cons ed eds)
  show ?case
  proof (cases "edkey ed < key")
    case True
    then have "puts (takeWhile (\<lambda>ed. edkey ed < key) (ed # eds)) = puts [ed] @ puts (takeWhile (\<lambda>ed. edkey ed < key) eds)"
      by (simp add: puts_Cons[of ed "takeWhile _ _"])
    then show ?thesis
      using True Cons.IH by (simp add: take_edit_adds chunker_adds_append with_edits_def split: sum.splits prod.splits)
  qed simp
qed simp

lemma apply_rest_adds: "apply_rest put o1 eds c s = chunker_adds put o1 (puts eds) c s"
proof (induction eds arbitrary: c s)
  case (Cons ed eds)
  then show ?case
    by (simp add: take_edit_adds puts_Cons[of ed eds] chunker_adds_append split: sum.splits)
qed simp

lemma apply_entries_adds:
  "apply_entries put o1 es eds c s = with_edits (snd (consume eds es)) (chunker_adds put o1 (fst (consume eds es)) c s)"
proof (induction es arbitrary: eds c s)
  case (Cons e es)
  define b where "b = puts (takeWhile (\<lambda>ed. edkey ed < ekey e) eds)"
  define r where "r = dropWhile (\<lambda>ed. edkey ed < ekey e) eds"
  define hit where "hit = (r \<noteq> [] \<and> edkey (hd r) = ekey e)"
  define m where "m = (if hit then puts [hd r] else [e])"
  define r' where "r' = (if hit then tl r else r)"
  have con: "consume eds (e # es) = (b @ m @ fst (consume r' es), snd (consume r' es))"
    by (simp add: b_def m_def r'_def hit_def r_def Let_def split: prod.splits)
  have step: "apply_entries put o1 (e # es) eds c s =
      (case with_edits r (chunker_adds put o1 b c s) of
         Inl e \<Rightarrow> Inl e
       | Inr (eds1, c1, s1) \<Rightarrow>
           (case (if eds1 \<noteq> [] \<and> edkey (hd eds1) = ekey e
                  then (take_edit put o1 (hd eds1) c1 s1, tl eds1)
                  else (chunker_add put o1 e c1 s1, eds1)) of
              (Inl e, _) \<Rightarrow> Inl e
            | (Inr (c2, s2), eds2) \<Rightarrow> apply_entries put o1 es eds2 c2 s2))"
    by (simp only: apply_entries.simps edits_before_adds b_def r_def)
  have one: "chunker_adds put o1 [e] c s = chunker_add put o1 e c s" for c s
    by (auto split: sum.splits)
  show ?case
  proof (cases "chunker_adds put o1 b c s")
    case (Inl x)
    then show ?thesis unfolding step con by (simp add: chunker_adds_append)
  next
    case (Inr cs)
    obtain c1 s1 where cs: "cs = (c1, s1)" by (cases cs)
    have mid: "apply_entries put o1 (e # es) eds c s =
        (case chunker_adds put o1 m c1 s1 of Inl e \<Rightarrow> Inl e | Inr (c2, s2) \<Rightarrow> apply_entries put o1 es r' c2 s2)"
      unfolding step using Inr cs
      by (cases hit) (simp_all add: m_def r'_def hit_def[symmetric] take_edit_adds one del: chunker_adds.simps split: sum.split)
    show ?thesis
      unfolding mid con using Inr cs
      by (cases "chunker_adds put o1 m c1 s1") (auto simp: chunker_adds_append Cons.IH)
  qed
qed simp

section \<open>The effect of adding entries\<close>

text \<open>The reads of the old tree survive the writes.\<close>

definition reads_kept :: "('s \<Rightarrow> hash \<Rightarrow> error + bytes) \<Rightarrow> 's \<Rightarrow> 's \<Rightarrow> bool" where
  "reads_kept tget s s' \<longleftrightarrow> (\<forall>h x. tget s h = Inr x \<longrightarrow> tget s' h = Inr x)"

lemma reads_kept_refl: "reads_kept tget s s"
  by (simp add: reads_kept_def)

lemma reads_kept_trans: "reads_kept tget s s1 \<Longrightarrow> reads_kept tget s1 s2 \<Longrightarrow> reads_kept tget s s2"
  by (simp add: reads_kept_def)

lemma reads_kept_pstored: "reads_kept tget s s' \<Longrightarrow> pstored (tget s) H t \<Longrightarrow> pstored (tget s') H t"
  by (simp add: reads_kept_def pstored_def)

text \<open>The store a tree is read from while its successor is written to another store, or the same.\<close>

locale tree_source = content_store H get put inv
  for H :: "bytes \<Rightarrow> bytes" and get :: "'s \<Rightarrow> hash \<Rightarrow> error + bytes"
    and put :: "'s \<Rightarrow> bytes \<Rightarrow> error + hash \<times> 's" and inv :: "'s \<Rightarrow> bool" +
  fixes tget :: "'s \<Rightarrow> hash \<Rightarrow> error + bytes"
  assumes put_reads: "inv s \<Longrightarrow> put s d = Inr (h, s') \<Longrightarrow> reads_kept tget s s'"
begin

abbreviation wrote :: "'s \<Rightarrow> 's \<Rightarrow> bytes set \<Rightarrow> bool" where
  "wrote s s' D \<equiv> store_extends get H inv s s' D \<and> reads_kept tget s s'"

lemma wrote_trans: "wrote s s1 D1 \<Longrightarrow> wrote s1 s2 D2 \<Longrightarrow> wrote s s2 (D1 \<union> D2)"
  by (meson store_extends_trans reads_kept_trans)

lemma write_leaf:
  assumes "inv s" "g \<noteq> []" "entries_ok g"
  shows "\<exists>s'. writeNode put s \<lparr>nlevel = 0, nentries = g, nchildren = []\<rparr> = Inr (proot H (PLeaf g), s')
    \<and> wrote s s' (pobjects H (PLeaf g))"
proof -
  have v: "pvalid (PLeaf g)" using assms(2,3) by (simp add: pvalid_def entries_ok_def)
  obtain s' where s': "writeNode put s (pnode H (PLeaf g)) = Inr (proot H (PLeaf g), s')"
      "store_extends get H inv s s' {pdata H (PLeaf g)}"
    using writeNode_pnode[OF assms(1) v] by blast
  have "put s (pdata H (PLeaf g)) = Inr (proot H (PLeaf g), s')"
    using s'(1) by (simp add: writeNode_def encodeNode_pnode[OF v] del: pnode.simps)
  then show ?thesis using s' put_reads[OF assms(1)] by (auto simp: pobjects_PLeaf)
qed

lemma flush_leaf:
  assumes "inv s" "centries c \<noteq> []" "entries_ok (centries c)"
  shows "\<exists>s'. chunker_flush put c s = Inr (\<lparr>centries = [], clinks = clinks c @ [plink H (PLeaf (centries c))]\<rparr>, s')
    \<and> wrote s s' (pobjects H (PLeaf (centries c)))"
  using write_leaf[OF assms] assms(2)
  by (auto simp: chunker_flush_def leaf_link_def plink_def pmax_def pcount_def Let_def)

lemma entries_ok_append: "entries_ok (xs @ ys) \<Longrightarrow> entries_ok xs \<and> entries_ok ys"
  by (auto simp: entries_ok_def keys_sorted_append)

lemma chunker_adds_run:
  assumes "inv s" "entries_ok (centries c @ xs)"
  shows "\<exists>s'. chunker_adds put o1 xs c s =
      Inr (\<lparr>centries = open_group o1 entryBoundaryHash (centries c) xs,
            clinks = clinks c @ map (plink H \<circ> PLeaf) (closed_groups o1 entryBoundaryHash (centries c) xs)\<rparr>, s')
    \<and> wrote s s' (\<Union>g \<in> set (closed_groups o1 entryBoundaryHash (centries c) xs). pobjects H (PLeaf g))"
  using assms
proof (induction xs arbitrary: c s)
  case Nil
  then show ?case by (simp add: store_extends_refl reads_kept_refl)
next
  case (Cons x xs)
  let ?c = "c\<lparr>centries := centries c @ [x]\<rparr>"
  have ok: "entries_ok ((centries c @ [x]) @ xs)" using Cons.prems(2) by simp
  show ?case
  proof (cases "shouldCut (length (centries c) + 1) (entryBoundaryHash x) o1")
    case True
    obtain s1 where s1: "chunker_flush put ?c s = Inr (\<lparr>centries = [], clinks = clinks c @ [plink H (PLeaf (centries c @ [x]))]\<rparr>, s1)"
        "wrote s s1 (pobjects H (PLeaf (centries c @ [x])))"
      using flush_leaf[of s ?c] Cons.prems(1) entries_ok_append[OF ok] by auto
    obtain s2 where s2: "chunker_adds put o1 xs \<lparr>centries = [], clinks = clinks c @ [plink H (PLeaf (centries c @ [x]))]\<rparr> s1 =
          Inr (\<lparr>centries = open_group o1 entryBoundaryHash [] xs,
            clinks = (clinks c @ [plink H (PLeaf (centries c @ [x]))]) @ map (plink H \<circ> PLeaf) (closed_groups o1 entryBoundaryHash [] xs)\<rparr>, s2)"
        "wrote s1 s2 (\<Union>g \<in> set (closed_groups o1 entryBoundaryHash [] xs). pobjects H (PLeaf g))"
      using Cons.IH[of s1 "\<lparr>centries = [], clinks = clinks c @ [plink H (PLeaf (centries c @ [x]))]\<rparr>"]
        store_extends_inv[of get H inv s s1] s1(2) entries_ok_append[OF ok] by auto
    have "chunker_add put o1 x c s = Inr (\<lparr>centries = [], clinks = clinks c @ [plink H (PLeaf (centries c @ [x]))]\<rparr>, s1)"
      using True s1(1) by (simp add: chunker_add_def)
    then show ?thesis
      using True s2(1) wrote_trans[OF s1(2) s2(2)] by (simp add: split_def Let_def comp_def)
  next
    case False
    then have "chunker_add put o1 x c s = Inr (?c, s)" by (simp add: chunker_add_def)
    then show ?thesis using Cons.IH[of s ?c] Cons.prems(1) ok False by simp
  qed
qed

end

text \<open>The two uses: the tree lies in the store that is written, or in a store that is not.\<close>

sublocale content_store \<subseteq> same: tree_source H get put inv get
  by unfold_locales (auto simp: reads_kept_def intro: put_keeps)

sublocale content_store \<subseteq> other: tree_source H get put inv "\<lambda>_. g" for g
  by unfold_locales (simp add: reads_kept_def)

section \<open>The leaves of a stored tree\<close>

fun leaf_groups :: "ptree \<Rightarrow> entry list list" where
  "leaf_groups (PLeaf es) = [es]"
| "leaf_groups (PNode l ts) = concat (map leaf_groups ts)"

abbreviation leaf_plinks :: "(bytes \<Rightarrow> bytes) \<Rightarrow> entry list list \<Rightarrow> link list" where
  "leaf_plinks H gs \<equiv> map (plink H \<circ> PLeaf) gs"

lemma leaf_groups_levels:
  assumes "level_row lvl ts" "chunking_ok o1"
  shows "leaf_groups (ptree_levels o1 lvl ts) = concat (map leaf_groups ts)"
  using assms
proof (induction "length ts" arbitrary: lvl ts rule: less_induct)
  case less
  show ?case
  proof (cases "1 < length ts")
    case False
    then obtain t where "ts = [t]" using less.prems(1) by (cases ts) (auto simp: level_row_def)
    then show ?thesis by (simp add: ptree_levels_single)
  next
    case True
    let ?ts = "map (PNode lvl) (tree_chunks o1 ts)"
    have "length ?ts < length ts"
      using True less.prems(2) length_chunk_less[of o1 "()" ts] by (simp add: chunking_ok_def)
    then have "leaf_groups (ptree_levels o1 (lvl + 1) ?ts) = concat (map leaf_groups ?ts)"
      using less.hyps level_row_next[OF less.prems True] less.prems(2) by blast
    then show ?thesis
      using True less.prems(2) by (simp add: ptree_levels_step comp_def concat_map_concat)
  qed
qed

lemma leaf_groups_canon:
  assumes "entries_ok es" "es \<noteq> []" "chunking_ok o1"
  shows "leaf_groups (canon o1 es) = chunkEntries es o1"
proof -
  have "concat (map leaf_groups (leaf_row o1 es)) = chunkEntries es o1" by (simp add: comp_def)
  then show ?thesis
    using leaf_groups_levels[OF leaf_row_level[OF assms(1,2)] assms(3), of o1] assms(2) by (simp add: canon_def)
qed

lemma level1_leaves:
  assumes "\<forall>t \<in> set ts. pwf t \<and> plevel t = 0"
  shows "ts = map PLeaf (concat (map leaf_groups ts))"
  using assms
proof (induction ts)
  case (Cons t ts)
  then obtain es where "t = PLeaf es" by (cases t) auto
  then show ?case using Cons by simp
qed simp

context digest32
begin

lemma readNode_pstored:
  assumes "pvalid t" "pstored get H t"
  shows "readNode get (proot H t) = Inr (pnode H t)"
  using pstored_root[OF assms(2)] decodeNode_pdata[OF assms(1)] by (simp add: readNode_def)

lemma leaf_links_pstored:
  assumes "\<forall>t \<in> set ts. pwf t \<and> pvalid t \<and> pstored get H t"
  shows "leaf_links_all get (map (proot H) ts) = Some (Inr (leaf_plinks H (concat (map leaf_groups ts))))"
  using assms
proof (induction "size_list size ts" arbitrary: ts rule: less_induct)
  case less
  show ?case
  proof (cases ts)
    case Nil
    then show ?thesis by (simp add: leaf_links_all.simps)
  next
    case (Cons t us)
    have us: "leaf_links_all get (map (proot H) us) = Some (Inr (leaf_plinks H (concat (map leaf_groups us))))"
      using less Cons by simp
    have t: "readNode get (proot H t) = Inr (pnode H t)" "pwf t" "pvalid t" "pstored get H t"
      using readNode_pstored less.prems Cons by auto
    have here: "(if nlevel (pnode H t) = 0 \<or> nlevel (pnode H t) = 1 then Some (Inr (node_leaf_links (proot H t) (pnode H t)))
         else leaf_links_all get (map lhash (nchildren (pnode H t)))) = Some (Inr (leaf_plinks H (leaf_groups t)))"
    proof (cases t)
      case (PLeaf es)
      then show ?thesis using t(2) by (simp add: node_leaf_links_def plink_def pmax_def pcount_def)
    next
      case (PNode l cs)
      have cs: "\<forall>c \<in> set cs. pwf c \<and> pvalid c \<and> pstored get H c \<and> plevel c + 1 = l" "l \<noteq> 0"
        using t(2-4) PNode pvalid_child pstored_child by auto
      show ?thesis
      proof (cases "l = 1")
        case True
        then have "\<forall>c \<in> set cs. pwf c \<and> plevel c = 0" using cs(1) by simp
        then have "map (plink H) cs = leaf_plinks H (concat (map leaf_groups cs))"
          using arg_cong[OF level1_leaves, of cs "map (plink H)"] by (simp only: map_map)
        then show ?thesis
          unfolding PNode pnode_PNode using True by (simp add: node_leaf_links_def)
      next
        case False
        have "size_list size cs < size_list size ts" using Cons PNode by simp
        then have "leaf_links_all get (map (proot H) cs) = Some (Inr (leaf_plinks H (concat (map leaf_groups cs))))"
          using less.hyps cs(1) by blast
        then show ?thesis
          unfolding PNode pnode_PNode using False cs(2) by (simp add: comp_def)
      qed
    qed
    show ?thesis
      unfolding Cons using here us t(1)
      by (subst leaf_links_all.simps) (auto simp del: pnode_level split: if_splits)
  qed
qed

end

section \<open>The leaf links of the new tree\<close>

context tree_source
begin

lemma apply_finish_chunks:
  assumes "inv s" "entries_ok (centries c @ puts eds)" "clinks c \<noteq> [] \<or> centries c @ puts eds \<noteq> []"
    and gs_def: "gs = chunk_loop o1 entryBoundaryHash (centries c) (puts eds)"
  shows "\<exists>s'. apply_finish put o1 eds c s = Inr (clinks c @ leaf_plinks H gs, s') \<and> wrote s s' (\<Union>g \<in> set gs. pobjects H (PLeaf g))"
proof -
  let ?cl = "closed_groups o1 entryBoundaryHash (centries c) (puts eds)"
  let ?op = "open_group o1 entryBoundaryHash (centries c) (puts eds)"
  let ?c1 = "\<lparr>centries = ?op, clinks = clinks c @ leaf_plinks H ?cl\<rparr>"
  obtain s1 where s1: "apply_rest put o1 eds c s = Inr (?c1, s1)" "wrote s s1 (\<Union>g \<in> set ?cl. pobjects H (PLeaf g))"
    using chunker_adds_run[OF assms(1,2)] unfolding apply_rest_adds by blast
  have all: "concat ?cl @ ?op = centries c @ puts eds" by (rule concat_chunk_run)
  have gs: "gs = ?cl @ flush_group ?op" by (simp add: gs_def chunk_loop_run)
  show ?thesis
  proof (cases "?op = []")
    case True
    then have "clinks c @ leaf_plinks H ?cl \<noteq> []" using assms(3) all by auto
    then show ?thesis
      using s1 True gs by (auto simp: apply_finish_def chunker_flush_def flush_group_def)
  next
    case False
    have "entries_ok ?op" using assms(2) entries_ok_append[of "concat ?cl" ?op] all by simp
    then obtain s2 where "chunker_flush put ?c1 s1 = Inr (\<lparr>centries = [], clinks = clinks ?c1 @ [plink H (PLeaf ?op)]\<rparr>, s2)"
        "wrote s1 s2 (pobjects H (PLeaf ?op))"
      using flush_leaf[of s1 ?c1] False s1(2) store_extends_inv by fastforce
    then show ?thesis
      using s1 False gs wrote_trans[OF s1(2), of s2 "pobjects H (PLeaf ?op)"]
      by (auto simp: apply_finish_def flush_group_def Un_commute)
  qed
qed


text \<open>
  One leaf of the loop: its entries and the edits that fall among them go through the chunker.
\<close>

lemma apply_leaf_step:
  assumes "inv s" "pvalid (PLeaf g)" "pstored (tget s) H (PLeaf g)"
    and "entries_ok (centries c @ fst (consume eds g) @ zs)"
  defines "cl \<equiv> \<lambda>o1. closed_groups o1 entryBoundaryHash (centries c) (fst (consume eds g))"
    and "op \<equiv> \<lambda>o1. open_group o1 entryBoundaryHash (centries c) (fst (consume eds g))"
  shows "\<exists>s1. wrote s s1 (\<Union>g \<in> set (cl o1). pobjects H (PLeaf g)) \<and>
    apply_leaves tget put o1 (plink H (PLeaf g) # leaves) eds c s =
      (let c1 = \<lparr>centries = op o1, clinks = clinks c @ leaf_plinks H (cl o1)\<rparr>; eds1 = snd (consume eds g)
       in if eds1 = [] \<and> op o1 = [] then Inr (Inl (clinks c1 @ leaves), s1)
          else apply_leaves tget put o1 leaves eds1 c1 s1)"
proof -
  have "entries_ok (centries c @ fst (consume eds g))"
    using assms(4) entries_ok_append[of "centries c @ fst (consume eds g)" zs] by simp
  then obtain s1 where s1: "chunker_adds put o1 (fst (consume eds g)) c s =
        Inr (\<lparr>centries = op o1, clinks = clinks c @ leaf_plinks H (cl o1)\<rparr>, s1)"
      "wrote s s1 (\<Union>g \<in> set (cl o1). pobjects H (PLeaf g))"
    unfolding cl_def op_def using chunker_adds_run[OF assms(1)] by blast
  have "readNode (tget s) (lhash (plink H (PLeaf g))) = Inr (pnode H (PLeaf g))"
    using readNode_pstored[OF assms(2,3)] by simp
  then show ?thesis
    using s1 by (intro exI[of _ s1]) (simp add: apply_entries_adds Let_def)
qed

lemma apply_links_chunks:
  assumes "inv s" "\<forall>g \<in> set R. pvalid (PLeaf g) \<and> pstored (tget s) H (PLeaf g)"
    and "\<forall>R1 R2. R = R1 @ R2 \<longrightarrow> chunk o1 entryBoundaryHash (concat R2) = R2"
    and "entries_ok (centries c @ merge_edits eds (concat R))"
    and "clinks c \<noteq> [] \<or> centries c @ merge_edits eds (concat R) \<noteq> []"
  shows "\<exists>s' D. apply_links tget put o1 (leaf_plinks H R) eds c s =
      Inr (clinks c @ leaf_plinks H (chunk_loop o1 entryBoundaryHash (centries c) (merge_edits eds (concat R))), s')
    \<and> wrote s s' (\<Union>g \<in> D. pobjects H (PLeaf g))
    \<and> D \<subseteq> set (chunk_loop o1 entryBoundaryHash (centries c) (merge_edits eds (concat R)))
    \<and> set (chunk_loop o1 entryBoundaryHash (centries c) (merge_edits eds (concat R))) \<subseteq> D \<union> set R"
  using assms
proof (induction R arbitrary: c eds s)
  case Nil
  have "merge_edits eds (concat []) = puts eds" by (simp add: merge_edits_def)
  then show ?case
    using apply_finish_chunks[OF Nil.prems(1), of c eds _ o1, OF _ _ refl] Nil.prems(4,5)
    by (auto simp: apply_links_def)
next
  case (Cons g R)
  let ?out = "fst (consume eds g)" and ?eds = "snd (consume eds g)" and ?bh = entryBoundaryHash
  let ?cl = "closed_groups o1 ?bh (centries c) ?out" and ?op = "open_group o1 ?bh (centries c) ?out"
  let ?c = "\<lparr>centries = ?op, clinks = clinks c @ leaf_plinks H ?cl\<rparr>"
  let ?m = "merge_edits ?eds (concat R)"
  have m: "merge_edits eds (concat (g # R)) = ?out @ ?m" by (simp add: merge_edits_append)
  have chunks: "chunk_loop o1 ?bh (centries c) (merge_edits eds (concat (g # R))) = ?cl @ chunk_loop o1 ?bh ?op ?m"
    unfolding m by (rule chunk_loop_append)
  have all: "concat ?cl @ ?op = centries c @ ?out" by (rule concat_chunk_run)
  obtain s1 where s1: "wrote s s1 (\<Union>g \<in> set ?cl. pobjects H (PLeaf g))"
      "apply_leaves tget put o1 (plink H (PLeaf g) # leaf_plinks H R) eds c s =
        (if ?eds = [] \<and> ?op = [] then Inr (Inl (clinks ?c @ leaf_plinks H R), s1)
         else apply_leaves tget put o1 (leaf_plinks H R) ?eds ?c s1)"
    using apply_leaf_step[OF Cons.prems(1), of g c eds ?m o1 "leaf_plinks H R"] Cons.prems(2,4) m
    by (auto simp: Let_def)
  have links: "leaf_plinks H (g # R) = plink H (PLeaf g) # leaf_plinks H R" by simp
  show ?case
  proof (cases "?eds = [] \<and> ?op = []")
    case True
    have "?m = concat R" using True by (simp add: merge_edits_Nil)
    then have "chunk_loop o1 ?bh ?op ?m = R"
      using Cons.prems(3) True by (metis append_Cons append_Nil chunk_def)
    moreover have "apply_links tget put o1 (leaf_plinks H (g # R)) eds c s = Inr (clinks c @ leaf_plinks H (?cl @ R), s1)"
      unfolding apply_links_def links s1(2) using True by simp
    ultimately show ?thesis
      using s1(1) unfolding chunks by (intro exI[of _ s1] exI[of _ "set ?cl"]) (auto simp: comp_def)
  next
    case False
    have eq: "apply_links tget put o1 (leaf_plinks H (g # R)) eds c s = apply_links tget put o1 (leaf_plinks H R) ?eds ?c s1"
      unfolding apply_links_def links s1(2) using False by (simp only: if_False)
    have "entries_ok (?op @ ?m)"
      using Cons.prems(4) m all entries_ok_append[of "concat ?cl" "?op @ ?m"] by (metis append_assoc)
    moreover have "clinks ?c \<noteq> [] \<or> ?op @ ?m \<noteq> []"
      using Cons.prems(5) m all by auto
    moreover have "\<forall>R1 R2. R = R1 @ R2 \<longrightarrow> chunk o1 ?bh (concat R2) = R2"
      using Cons.prems(3) by (metis append_Cons)
    moreover have "\<forall>h \<in> set R. pvalid (PLeaf h) \<and> pstored (tget s1) H (PLeaf h)"
      using Cons.prems(2) s1(1) by (auto intro: reads_kept_pstored[of tget s s1 H])
    ultimately obtain s2 D where IH: "apply_links tget put o1 (leaf_plinks H R) ?eds ?c s1 =
          Inr (clinks ?c @ leaf_plinks H (chunk_loop o1 ?bh ?op ?m), s2)"
        "wrote s1 s2 (\<Union>g \<in> D. pobjects H (PLeaf g))"
        "D \<subseteq> set (chunk_loop o1 ?bh ?op ?m)" "set (chunk_loop o1 ?bh ?op ?m) \<subseteq> D \<union> set R"
      using Cons.IH[of s1 ?c ?eds] store_extends_inv s1(1) by fastforce
    have "wrote s s2 (\<Union>g \<in> set ?cl \<union> D. pobjects H (PLeaf g))"
      using wrote_trans[OF s1(1) IH(2)] by (simp add: UN_Un)
    then show ?thesis
      unfolding eq chunks using IH(1,3,4) by (intro exI[of _ s2] exI[of _ "set ?cl \<union> D"]) auto
  qed
qed

end

section \<open>Where the edits start\<close>

lemma edits_check_sorted: "edits_check eds = None \<longleftrightarrow> edits_sorted eds \<and> (\<forall>ed \<in> set eds. edkey ed \<noteq> [])"
proof (induction eds rule: edits_check.induct)
  case (3 ed ed' eds)
  have "edits_sorted (ed # ed' # eds) \<longleftrightarrow> edkey ed < edkey ed' \<and> edits_sorted (ed' # eds)"
    by (auto simp: edits_sorted_def dest: less_trans)
  then show ?case using 3 by (auto simp: not_le)
qed (auto simp: edits_sorted_def)

lemma group_maxima_sorted:
  assumes "keys_sorted (concat gs)" "\<forall>g \<in> set gs. g \<noteq> []"
  shows "sorted_wrt (\<lambda>a b. pmax (PLeaf a) < pmax (PLeaf b)) gs"
  using assms by (induction gs) (auto simp: keys_sorted_append pmax_def)

lemma apply_start_split:
  assumes "keys_sorted (concat gs)" "\<forall>g \<in> set gs. g \<noteq> []" "gs \<noteq> []"
  shows "apply_start (leaf_plinks H gs) key < length gs"
    and "x \<in> set (concat (take (apply_start (leaf_plinks H gs) key) gs)) \<Longrightarrow> ekey x < key"
proof -
  let ?L = "leaf_plinks H gs"
  let ?n = "sort_search (length ?L) (\<lambda>i. lmax (?L ! i) \<ge> key)"
  have "sorted_wrt (\<lambda>a b. key \<le> lmax a \<longrightarrow> key \<le> lmax b) ?L"
    using group_maxima_sorted[OF assms(1,2)]
    by (auto simp: sorted_wrt_map comp_def elim!: sorted_wrt_mono_rel[rotated])
  then have n: "?n = length (takeWhile (\<lambda>l. \<not> key \<le> lmax l) ?L)"
    by (rule sort_search_takeWhile)
  then have len: "?n \<le> length gs" by (metis length_map length_takeWhile_le)
  have start: "apply_start ?L key = (if ?n = length gs then length gs - 1 else ?n)"
    by (simp add: apply_start_def Let_def)
  have "0 < length gs" using assms(3) by simp
  then show "apply_start ?L key < length gs" unfolding start using len by (auto simp del: length_greater_0_conv)
  assume "x \<in> set (concat (take (apply_start ?L key) gs))"
  moreover have "set (take (apply_start ?L key) gs) \<subseteq> set (take ?n gs)"
    using start len by (intro set_take_subset_set_take) auto
  ultimately obtain g where g: "g \<in> set (take ?n gs)" "x \<in> set g" by auto
  have "take ?n ?L = takeWhile (\<lambda>l. \<not> key \<le> lmax l) ?L"
    unfolding n by (rule takeWhile_eq_take[symmetric])
  moreover have "plink H (PLeaf g) \<in> set (take ?n ?L)"
    unfolding take_map using g(1) by auto
  ultimately have "plink H (PLeaf g) \<in> set (takeWhile (\<lambda>l. \<not> key \<le> lmax l) ?L)" by simp
  then have "pmax (PLeaf g) < key" by (auto dest: set_takeWhileD)
  moreover have "keys_sorted g"
  proof -
    obtain a b where "gs = a @ g # b" using g(1) by (meson in_set_takeD split_list)
    then show ?thesis using assms(1) by (auto simp: keys_sorted_append)
  qed
  then have "ekey x \<le> ekey (last g)"
    using g(2) by (cases g rule: rev_cases) (auto simp: keys_sorted_append less_imp_le)
  ultimately show "ekey x < key" by (simp add: pmax_def)
qed

context content_store
begin

lemma buildFromLeafLinks_canon:
  assumes "inv s" "entries_ok es" "es \<noteq> []" "chunking_ok o1"
  shows "\<exists>s' D. buildFromLeafLinks put s (leaf_plinks H (chunkEntries es o1)) o1 =
      Some (Inr (\<lparr>troot = proot H (canon o1 es), toptions = o1\<rparr>, s'))
    \<and> store_extends get H inv s s' D \<and> D \<union> row_objects H (leaf_row o1 es) = pobjects H (canon o1 es)"
proof -
  obtain s' D where s': "build_levels put o1 1 (leaf_plinks H (chunkEntries es o1)) s = Some (Inr (proot H (canon o1 es), s'))"
      "store_extends get H inv s s' D" "D \<union> row_objects H (leaf_row o1 es) = pobjects H (canon o1 es)"
    using build_levels_ptree[OF assms(1) leaf_row_level[OF assms(2,3), of o1] assms(4)] assms(3)
    unfolding canon_def by auto
  have "buildFromLeafLinks put s (leaf_plinks H (chunkEntries es o1)) o1 =
      Some (Inr (\<lparr>troot = proot H (canon o1 es), toptions = o1\<rparr>, s'))"
  proof (cases "length (chunkEntries es o1) = 1")
    case True
    then obtain g where g: "chunkEntries es o1 = [g]" by (auto simp: length_Suc_conv)
    then have "proot H (PLeaf g) = proot H (canon o1 es) \<and> s = s'"
      using s'(1) by (simp add: build_levels.simps)
    then show ?thesis by (simp add: g buildFromLeafLinks_def)
  next
    case False
    then show ?thesis using s'(1) by (simp add: buildFromLeafLinks_def with_options_def)
  qed
  then show ?thesis using s'(2,3) by blast
qed

end

section \<open>Apply\<close>

lemma row_objects_levels:
  assumes "level_row lvl ts" "chunking_ok o1"
  shows "row_objects H ts \<subseteq> pobjects H (ptree_levels o1 lvl ts)"
  using assms
proof (induction "length ts" arbitrary: lvl ts rule: less_induct)
  case less
  show ?case
  proof (cases "1 < length ts")
    case False
    then obtain t where "ts = [t]" using less.prems(1) by (cases ts) (auto simp: level_row_def)
    then show ?thesis by (simp add: ptree_levels_single row_objects_def)
  next
    case True
    let ?ts = "map (PNode lvl) (tree_chunks o1 ts)"
    have "length ?ts < length ts"
      using True less.prems(2) length_chunk_less[of o1 "()" ts] by (simp add: chunking_ok_def)
    then have "row_objects H ?ts \<subseteq> pobjects H (ptree_levels o1 (lvl + 1) ?ts)"
      using less.hyps level_row_next[OF less.prems True] less.prems(2) by blast
    then show ?thesis
      using True less.prems(2) unfolding row_objects_next by (simp add: ptree_levels_step)
  qed
qed

lemma leaf_objects_canon:
  assumes "entries_ok es" "es \<noteq> []" "chunking_ok o1" "g \<in> set (chunkEntries es o1)"
  shows "pobjects H (PLeaf g) \<subseteq> pobjects H (canon o1 es)"
  using row_objects_levels[OF leaf_row_level[OF assms(1,2), of o1] assms(3), of H] assms(2,4)
  by (auto simp: canon_def row_objects_def)

context tree_source
begin

text \<open>The leaf \<open>Apply\<close> starts in splits the chunks of the tree.\<close>

lemma apply_links_canon:
  assumes "inv s" "chunking_ok o1" "entries_ok es" "es \<noteq> []" "pstored (tget s) H (canon o1 es)"
    and "eds \<noteq> []" "edits_sorted eds" "entries_ok (edited eds es)" "edited eds es \<noteq> []"
  defines "leaves \<equiv> leaf_plinks H (chunkEntries es o1)"
  defines "start \<equiv> apply_start leaves (edkey (hd eds))"
  shows "\<exists>s' D. apply_links tget put o1 (drop start leaves) eds \<lparr>centries = [], clinks = take start leaves\<rparr> s =
      Inr (leaf_plinks H (chunkEntries (edited eds es) o1), s')
    \<and> wrote s s' D \<and> D \<subseteq> row_objects H (leaf_row o1 (edited eds es))
    \<and> row_objects H (leaf_row o1 (edited eds es)) \<subseteq> D \<union> pobjects H (canon o1 es)"
proof -
  let ?bh = entryBoundaryHash
  let ?gs = "chunkEntries es o1"
  define P where "P = take start ?gs"
  define R where "R = drop start ?gs"
  have gs: "?gs = P @ R" by (simp add: P_def R_def)
  have cat: "concat ?gs = es" by (simp add: chunkEntries_def)
  have ks: "keys_sorted (concat ?gs)" using assms(3) by (simp add: cat entries_ok_def)
  have ne: "\<forall>g \<in> set ?gs. g \<noteq> []" "?gs \<noteq> []" using assms(4) by (auto simp: chunkEntries_def)
  have start: "start < length ?gs" "\<And>x. x \<in> set (concat P) \<Longrightarrow> ekey x < edkey (hd eds)"
    using apply_start_split[OF ks ne, where H = H and key = "edkey (hd eds)"]
    unfolding start_def leaves_def P_def by blast+
  have R: "R \<noteq> []" using start(1) by (simp add: R_def)
  have run: "chunk_run o1 ?bh [] (concat P) = (P, [])"
    using chunk_split[of o1 ?bh es P R] gs R by (simp add: chunkEntries_def)
  have "consume eds (concat P) = (concat P, eds)"
  proof (rule consume_before)
    fix x ed assume "x \<in> set (concat P)" "ed \<in> set eds"
    moreover have "edkey (hd eds) \<le> edkey ed" if "ed \<in> set eds" for ed
      using assms(6,7) that by (cases eds) (auto simp: edits_sorted_Cons less_imp_le)
    ultimately show "ekey x < edkey ed" using start(2) by (metis order_less_le_trans)
  qed
  then have ed: "edited eds es = concat P @ merge_edits eds (concat R)"
    using edited_eq_merge[OF assms(7)] assms(3) merge_edits_append[of eds "concat P" "concat R"] cat gs
    by (simp add: entries_ok_def)
  have new: "chunkEntries (edited eds es) o1 = P @ chunk_loop o1 ?bh [] (merge_edits eds (concat R))"
    unfolding ed chunkEntries_def using chunk_loop_append[of o1 ?bh "[]" "concat P"] run by (simp add: chunk_def)
  have stored: "pstored (tget s) H (PLeaf g) \<and> pobjects H (PLeaf g) \<subseteq> pobjects H (canon o1 es)" if "g \<in> set ?gs" for g
    using that assms(5) leaf_objects_canon[OF assms(3,4,2)] by (auto simp: pstored_def)
  have "\<exists>s' D. apply_links tget put o1 (leaf_plinks H R) eds \<lparr>centries = [], clinks = leaf_plinks H P\<rparr> s =
      Inr (leaf_plinks H P @ leaf_plinks H (chunk_loop o1 ?bh [] (merge_edits eds (concat R))), s')
    \<and> wrote s s' (\<Union>g \<in> D. pobjects H (PLeaf g)) \<and> D \<subseteq> set (chunk_loop o1 ?bh [] (merge_edits eds (concat R)))
    \<and> set (chunk_loop o1 ?bh [] (merge_edits eds (concat R))) \<subseteq> D \<union> set R"
  proof -
    have "\<forall>R1 R2. R = R1 @ R2 \<longrightarrow> chunk o1 ?bh (concat R2) = R2"
      using gs chunk_suffix[of o1 ?bh es] by (metis append_assoc chunkEntries_def)
    moreover have "\<forall>g \<in> set R. pvalid (PLeaf g) \<and> pstored (tget s) H (PLeaf g)"
      using leaf_pvalid[OF assms(3), of _ o1] stored gs by auto
    moreover have "entries_ok (merge_edits eds (concat R))"
      using assms(8) entries_ok_append ed by metis
    moreover have "leaf_plinks H P \<noteq> [] \<or> merge_edits eds (concat R) \<noteq> []"
      using assms(9) ed by auto
    ultimately show ?thesis
      using apply_links_chunks[OF assms(1), of R o1 "\<lparr>centries = [], clinks = leaf_plinks H P\<rparr>" eds] by auto
  qed
  then obtain s' D where s': "apply_links tget put o1 (leaf_plinks H R) eds \<lparr>centries = [], clinks = leaf_plinks H P\<rparr> s =
      Inr (leaf_plinks H (chunkEntries (edited eds es) o1), s')"
    "wrote s s' (\<Union>g \<in> D. pobjects H (PLeaf g))" "D \<subseteq> set (chunk_loop o1 ?bh [] (merge_edits eds (concat R)))"
    "set (chunk_loop o1 ?bh [] (merge_edits eds (concat R))) \<subseteq> D \<union> set R"
    unfolding new map_append by blast
  have old: "\<forall>g \<in> set P \<union> set R. pobjects H (PLeaf g) \<subseteq> pobjects H (canon o1 es)"
    using stored gs by auto
  have sets: "row_objects H (leaf_row o1 (edited eds es)) \<subseteq> (\<Union>g \<in> D. pobjects H (PLeaf g)) \<union> pobjects H (canon o1 es)"
      "(\<Union>g \<in> D. pobjects H (PLeaf g)) \<subseteq> row_objects H (leaf_row o1 (edited eds es))"
    using s'(3,4) old unfolding row_objects_def new by (auto; blast)+
  have "drop start leaves = leaf_plinks H R" "take start leaves = leaf_plinks H P"
    by (simp_all add: leaves_def R_def P_def drop_map take_map)
  then show ?thesis using s'(1,2) sets by (intro exI[of _ s'] exI[of _ "\<Union>g \<in> D. pobjects H (PLeaf g)"]) simp
qed


abbreviation canon_tree :: "options \<Rightarrow> entry list \<Rightarrow> tree" where
  "canon_tree o1 es \<equiv> \<lparr>troot = proot H (canon o1 es), toptions = o1\<rparr>"

lemma pvalid_empty: "pvalid (PLeaf [])"
  by (simp add: pvalid_def keys_sorted_def)

lemma leafLinks_canon:
  assumes "entries_ok es" "chunking_ok o1" "pstored (tget s) H (canon o1 es)"
  shows "leafLinks (tget s) (proot H (canon o1 es)) =
    Some (Inr (if es = [] then [\<lparr>lmax = [], lcount = 0, lhash = proot H (PLeaf [])\<rparr>]
               else leaf_plinks H (chunkEntries es o1)))"
proof (cases "es = []")
  case True
  then have "readNode (tget s) (proot H (PLeaf [])) = Inr (pnode H (PLeaf []))"
    using readNode_pstored[OF pvalid_empty] assms(3) by (simp add: canon_def)
  then show ?thesis
    using True by (simp add: leafLinks_def canon_def leaf_links_all.simps node_leaf_links_def)
next
  case False
  have "pwf (canon o1 es)"
    using ptree_levels_correct[OF leaf_row_level[OF assms(1) False] assms(2), of o1] False by (simp add: canon_def)
  then show ?thesis
    using leaf_links_pstored[of "[canon o1 es]" "tget s"] canon_correct(2)[OF assms(1,2)] assms(3) False
      leaf_groups_canon[OF assms(1) False assms(2)]
    by (simp add: leafLinks_def)
qed

lemma Apply_unfold:
  assumes "entries_ok es" "chunking_ok o1" "pstored (tget s) H (canon o1 es)" "eds \<noteq> []" "edits_check eds = None"
    and leaves: "leaves = (if es = [] then [\<lparr>lmax = [], lcount = 0, lhash = proot H (PLeaf [])\<rparr>]
      else leaf_plinks H (chunkEntries es o1))"
  shows "Apply tget put s (canon_tree o1 es) eds =
    (let start = apply_start leaves (edkey (hd eds))
     in case apply_links tget put o1 (drop start leaves) eds \<lparr>centries = [], clinks = take start leaves\<rparr> s of
          Inl e \<Rightarrow> Some (Inl e) | Inr (links, s1) \<Rightarrow> buildFromLeafLinks put s1 links o1)"
proof -
  have "leaves \<noteq> []" unfolding leaves by (simp add: chunkEntries_def)
  then show ?thesis
    using assms(4,5) leafLinks_canon[OF assms(1-3)] by (simp add: Apply_def leaves Let_def)
qed

lemma Apply_nonempty:
  assumes "inv s" "chunking_ok o1" "entries_ok es" "pstored (tget s) H (canon o1 es)"
    and "eds \<noteq> []" "edits_check eds = None" "entries_ok (edited eds es)" "edited eds es \<noteq> []" "es \<noteq> []"
  shows "\<exists>s' D. Apply tget put s (canon_tree o1 es) eds = Some (Inr (canon_tree o1 (edited eds es), s'))
    \<and> store_extends get H inv s s' D \<and> D \<subseteq> pobjects H (canon o1 (edited eds es))
    \<and> pobjects H (canon o1 (edited eds es)) \<subseteq> D \<union> pobjects H (canon o1 es)"
proof -
  let ?leaves = "leaf_plinks H (chunkEntries es o1)"
  let ?start = "apply_start ?leaves (edkey (hd eds))"
  let ?new = "edited eds es"
  have "edits_sorted eds" using assms(6) by (simp add: edits_check_sorted)
  from apply_links_canon[OF assms(1,2,3,9,4,5) this assms(7,8)]
  obtain s1 D1 where s1: "apply_links tget put o1 (drop ?start ?leaves) eds \<lparr>centries = [], clinks = take ?start ?leaves\<rparr> s =
        Inr (leaf_plinks H (chunkEntries ?new o1), s1)"
      "store_extends get H inv s s1 D1" "D1 \<subseteq> row_objects H (leaf_row o1 ?new)"
      "row_objects H (leaf_row o1 ?new) \<subseteq> D1 \<union> pobjects H (canon o1 es)"
    by (elim exE conjE) (rule that)
  have "inv s1" by (rule store_extends_inv[OF s1(2)])
  from buildFromLeafLinks_canon[OF this assms(7,8,2)]
  obtain s2 D2 where s2: "buildFromLeafLinks put s1 (leaf_plinks H (chunkEntries ?new o1)) o1 = Some (Inr (canon_tree o1 ?new, s2))"
      "store_extends get H inv s1 s2 D2" "D2 \<union> row_objects H (leaf_row o1 ?new) = pobjects H (canon o1 ?new)"
    by (elim exE conjE) (rule that)
  have "Apply tget put s (canon_tree o1 es) eds = Some (Inr (canon_tree o1 ?new, s2))"
    using Apply_unfold[OF assms(3,2,4,5,6) refl] assms(9) s1(1) s2(1) by (simp add: Let_def)
  moreover have "store_extends get H inv s s2 (D1 \<union> D2)"
    using s1(2) s2(2) by (meson store_extends_trans)
  moreover have "D1 \<union> D2 \<subseteq> pobjects H (canon o1 ?new)" "pobjects H (canon o1 ?new) \<subseteq> (D1 \<union> D2) \<union> pobjects H (canon o1 es)"
    using s1(3,4) unfolding s2(3)[symmetric] by blast+
  ultimately show ?thesis by meson
qed

text \<open>Nothing is left of the edited list: the loop writes nothing.\<close>

lemma apply_leaves_none:
  assumes "inv s" "\<forall>g \<in> set R. g \<noteq> [] \<and> pvalid (PLeaf g) \<and> pstored (tget s) H (PLeaf g)" "R \<noteq> []"
    and "merge_edits eds (concat R) = []" "c = \<lparr>centries = [], clinks = []\<rparr>"
  shows "apply_leaves tget put o1 (leaf_plinks H R) eds c s =
    (if snd (consume eds (concat R)) = [] then Inr (Inl [], s) else Inr (Inr (snd (consume eds (concat R)), c), s))"
  using assms(2-4)
proof (induction R arbitrary: eds)
  case (Cons g R)
  have none: "fst (consume eds g) = []" "merge_edits (snd (consume eds g)) (concat R) = []"
    using Cons.prems(3) by (simp_all add: merge_edits_append)
  have left: "snd (consume eds (concat (g # R))) = snd (consume (snd (consume eds g)) (concat R))"
    by (simp add: consume_append)
  have "readNode (tget s) (lhash (plink H (PLeaf g))) = Inr (pnode H (PLeaf g))"
    using readNode_pstored Cons.prems(1) by simp
  then have step: "apply_leaves tget put o1 (leaf_plinks H (g # R)) eds c s =
      (if snd (consume eds g) = [] then Inr (Inl (leaf_plinks H R), s)
       else apply_leaves tget put o1 (leaf_plinks H R) (snd (consume eds g)) c s)"
    using none(1) assms(5) by (simp add: apply_entries_adds)
  show ?case
  proof (cases "snd (consume eds g) = []")
    case True
    then have "R = []" using none(2) Cons.prems(1) by (cases R) (auto simp: merge_edits_Nil)
    then show ?thesis using True step left by simp
  next
    case False
    then show ?thesis
      unfolding step left using Cons.IH[of "snd (consume eds g)"] Cons.prems(1) none(2) by (cases "R = []") (auto simp: comp_def)
  qed
qed simp

lemma apply_links_none:
  assumes "inv s" "chunking_ok o1" "entries_ok es" "es \<noteq> []" "pstored (tget s) H (canon o1 es)"
    and "eds \<noteq> []" "edits_sorted eds" "edited eds es = []"
  defines "leaves \<equiv> leaf_plinks H (chunkEntries es o1)"
  defines "start \<equiv> apply_start leaves (edkey (hd eds))"
  shows "start = 0"
    and "apply_leaves tget put o1 leaves eds \<lparr>centries = [], clinks = []\<rparr> s =
      (if \<forall>ed \<in> set eds. edkey ed \<le> ekey (last es) then Inr (Inl [], s)
       else Inr (Inr (filter (\<lambda>ed. ekey (last es) < edkey ed) eds, \<lparr>centries = [], clinks = []\<rparr>), s))"
proof -
  let ?gs = "chunkEntries es o1"
  have cat: "concat ?gs = es" by (simp add: chunkEntries_def)
  have ks: "keys_sorted es" using assms(3) by (simp add: entries_ok_def)
  have ne: "\<forall>g \<in> set ?gs. g \<noteq> []" "?gs \<noteq> []" using assms(4) by (auto simp: chunkEntries_def)
  have merge: "merge_edits eds es = []" using edited_eq_merge[OF assms(7) ks] assms(8) by simp
  have "edkey (hd eds) \<le> ekey (hd es)"
  proof (rule ccontr)
    assume h: "\<not> edkey (hd eds) \<le> ekey (hd es)"
    have "ekey (hd es) \<notin> edkey ` set eds"
      using h assms(6,7) by (cases eds) (auto simp: edits_sorted_Cons dest: less_trans)
    then have "hd es \<in> set (merge_edits eds es)"
      using merge_edits_spec[OF assms(7) ks] assms(4) by auto
    then show False using merge by simp
  qed
  moreover have "ekey (hd es) < edkey (hd eds)" if "start \<noteq> 0"
  proof -
    have "hd es \<in> set (concat (take start ?gs))"
      using that ne cat by (cases ?gs; cases start; cases "hd ?gs") auto
    then show ?thesis
      using apply_start_split(2)[of ?gs "hd es" H "edkey (hd eds)"] ks ne cat by (simp add: start_def leaves_def)
  qed
  ultimately show "start = 0" by force
  have "pstored (tget s) H (PLeaf g)" if "g \<in> set ?gs" for g
    using leaf_objects_canon[OF assms(3,4,2) that, of H] assms(5) unfolding pstored_def by blast
  then have "\<forall>g \<in> set ?gs. g \<noteq> [] \<and> pvalid (PLeaf g) \<and> pstored (tget s) H (PLeaf g)"
    using ne(1) leaf_pvalid[OF assms(3), of _ o1] by blast
  then have "apply_leaves tget put o1 leaves eds \<lparr>centries = [], clinks = []\<rparr> s =
      (if snd (consume eds es) = [] then Inr (Inl [], s) else Inr (Inr (snd (consume eds es), \<lparr>centries = [], clinks = []\<rparr>), s))"
    using apply_leaves_none[OF assms(1) _ ne(2) _ refl, of eds o1] merge cat by (simp add: leaves_def)
  then show "apply_leaves tget put o1 leaves eds \<lparr>centries = [], clinks = []\<rparr> s =
      (if \<forall>ed \<in> set eds. edkey ed \<le> ekey (last es) then Inr (Inl [], s)
       else Inr (Inr (filter (\<lambda>ed. ekey (last es) < edkey ed) eds, \<lparr>centries = [], clinks = []\<rparr>), s))"
    unfolding consume_left[OF assms(7) ks assms(4)] by (auto simp: filter_empty_conv not_less)
qed


text \<open>The empty result.\<close>

lemma apply_finish_empty:
  assumes "inv s" "puts eds = []"
  shows "\<exists>s'. apply_finish put o1 eds \<lparr>centries = [], clinks = []\<rparr> s = Inr ([\<lparr>lmax = [], lcount = 0, lhash = proot H (PLeaf [])\<rparr>], s')
    \<and> store_extends get H inv s s' (pobjects H (PLeaf []))"
  using writeNode_pnode[OF assms(1) pvalid_empty] assms(2)
  by (auto simp: apply_finish_def apply_rest_adds chunker_flush_def pobjects_PLeaf)

lemma edited_empty_puts: "edited eds es = [] \<Longrightarrow> puts eds = [] \<and> puts (filter p eds) = []"
proof -
  assume "edited eds es = []"
  then have "puts eds = []" unfolding edited_def by (metis append_is_Nil_conv set_empty set_sort)
  then show "puts eds = [] \<and> puts (filter p eds) = []" by (auto simp: puts_def filter_empty_conv)
qed

lemma canon_Nil [simp]: "canon o1 [] = PLeaf []"
  by (simp add: canon_def)

lemma Apply_panics:
  assumes "inv s" "chunking_ok o1" "entries_ok es" "pstored (tget s) H (canon o1 es)"
    and "eds \<noteq> []" "edits_check eds = None" "edited eds es = []" "es \<noteq> []" "\<forall>ed \<in> set eds. edkey ed \<le> ekey (last es)"
  shows "Apply tget put s (canon_tree o1 es) eds = Some (Inl IndexOutOfRange)"
proof -
  have "edits_sorted eds" using assms(6) by (simp add: edits_check_sorted)
  note none = apply_links_none[OF assms(1,2,3,8,4,5) this assms(7)]
  show ?thesis
    unfolding Apply_unfold[OF assms(3,2,4,5,6) refl]
    using none assms(8,9) by (simp add: apply_links_def buildFromLeafLinks_def build_levels.simps with_options_def)
qed

lemma Apply_to_empty:
  assumes "inv s" "chunking_ok o1" "entries_ok es" "pstored (tget s) H (canon o1 es)"
    and "eds \<noteq> []" "edits_check eds = None" "edited eds es = []" "es \<noteq> []" "ed \<in> set eds" "ekey (last es) < edkey ed"
  shows "\<exists>s'. Apply tget put s (canon_tree o1 es) eds = Some (Inr (canon_tree o1 [], s'))
    \<and> store_extends get H inv s s' (pobjects H (canon o1 []))"
proof -
  let ?rest = "filter (\<lambda>ed. ekey (last es) < edkey ed) eds"
  have sorted: "edits_sorted eds" using assms(6) by (simp add: edits_check_sorted)
  note none = apply_links_none[OF assms(1,2,3,8,4,5) sorted assms(7)]
  have "\<not> (\<forall>ed \<in> set eds. edkey ed \<le> ekey (last es))" using assms(9,10) by (auto simp: not_le)
  moreover obtain s' where "apply_finish put o1 ?rest \<lparr>centries = [], clinks = []\<rparr> s = Inr ([\<lparr>lmax = [], lcount = 0, lhash = proot H (PLeaf [])\<rparr>], s')"
      "store_extends get H inv s s' (pobjects H (PLeaf []))"
    using apply_finish_empty[OF assms(1), of ?rest o1] edited_empty_puts[OF assms(7)] by blast
  ultimately show ?thesis
    unfolding Apply_unfold[OF assms(3,2,4,5,6) refl]
    using none assms(8) by (auto simp: apply_links_def buildFromLeafLinks_def)
qed

lemma Apply_from_empty:
  assumes "inv s" "chunking_ok o1" "pstored (tget s) H (canon o1 [])"
    and "eds \<noteq> []" "edits_check eds = None" "entries_ok (edited eds [])"
  shows "\<exists>s'. Apply tget put s (canon_tree o1 []) eds = Some (Inr (canon_tree o1 (edited eds []), s'))
    \<and> store_extends get H inv s s' (pobjects H (canon o1 (edited eds [])))"
proof -
  let ?c = "\<lparr>centries = [], clinks = []\<rparr>"
  let ?l = "\<lparr>lmax = [], lcount = 0, lhash = proot H (PLeaf [])\<rparr>"
  have "edits_sorted eds" using assms(5) by (simp add: edits_check_sorted)
  then have ed: "edited eds [] = puts eds"
    using edited_eq_merge[of eds "[]"] by (simp add: merge_edits_def keys_sorted_def)
  have ok: "entries_ok []" by (simp add: entries_ok_def keys_sorted_def)
  have "apply_start [?l] (edkey (hd eds)) = 0"
    by (simp add: apply_start_def sort_search_def search_loop.simps)
  moreover have "readNode (tget s) (proot H (PLeaf [])) = Inr (pnode H (PLeaf []))"
    using readNode_pstored[OF pvalid_empty] assms(3) by simp
  ultimately have unfold: "Apply tget put s (canon_tree o1 []) eds =
      (case apply_finish put o1 eds ?c s of Inl e \<Rightarrow> Some (Inl e) | Inr (links, s1) \<Rightarrow> buildFromLeafLinks put s1 links o1)"
    unfolding Apply_unfold[OF ok assms(2,3,4,5) refl] using assms(4) by (simp add: apply_links_def)
  show ?thesis
  proof (cases "puts eds = []")
    case True
    then show ?thesis
      unfolding unfold ed using apply_finish_empty[OF assms(1) True, of o1] by (auto simp: buildFromLeafLinks_def)
  next
    case False
    from apply_finish_chunks[OF assms(1), of ?c eds _ o1, OF _ _ refl] False assms(6) ed
    obtain s1 where s1: "apply_finish put o1 eds ?c s = Inr (leaf_plinks H (chunkEntries (puts eds) o1), s1)"
        "store_extends get H inv s s1 (row_objects H (leaf_row o1 (puts eds)))"
      by (auto simp: chunkEntries_def chunk_def row_objects_def)
    have "inv s1" by (rule store_extends_inv[OF s1(2)])
    from buildFromLeafLinks_canon[OF this _ False assms(2)] assms(6) ed
    obtain s2 D where s2: "buildFromLeafLinks put s1 (leaf_plinks H (chunkEntries (puts eds) o1)) o1 = Some (Inr (canon_tree o1 (puts eds), s2))"
        "store_extends get H inv s1 s2 D" "D \<union> row_objects H (leaf_row o1 (puts eds)) = pobjects H (canon o1 (puts eds))"
      by auto
    have "store_extends get H inv s s2 (pobjects H (canon o1 (puts eds)))"
      using store_extends_trans[OF s1(2) s2(2)] s2(3) by (simp add: Un_commute)
    then show ?thesis unfolding unfold ed using s1(1) s2(1) by simp
  qed
qed

end

end
