(* ===== verification/Prolly_Reverse.thy ===== *)
theory Prolly_Reverse
  imports Prolly_Iter Apply_Correct
begin

text \<open>
  \<open>common/prolly/reverse.go\<close>: the descending iterator. A frame's index counts down to \<open>-1\<close>.
  \<open>descendRight\<close> and \<open>retreat\<close> call each other; \<open>rev_walk\<close> is both, with the hash of a node to
  descend to or \<^const>\<open>None\<close> to retreat.
\<close>

section \<open>The operations\<close>

record rev_iterator =
  rvstack :: "(node \<times> int) list"
  rvleaf :: "entry list"
  rvindex :: int
  rvdone :: bool

definition rev_Close :: "rev_iterator \<Rightarrow> rev_iterator" where
  "rev_Close it = \<lparr>rvstack = [], rvleaf = [], rvindex = -1, rvdone = True\<rparr>"

text \<open>The loop of \<open>retreat\<close> over the stack: the child to go to and the stack that is left.\<close>

fun pop_left :: "(node \<times> int) list \<Rightarrow> (hash \<times> (node \<times> int) list) option" where
  "pop_left [] = None"
| "pop_left ((n, k) # stack) =
     (if k \<ge> 0 then Some (lhash (nchildren n ! nat k), (n, k - 1) # stack) else pop_left stack)"

partial_function (option) rev_walk ::
  "(hash \<Rightarrow> error + bytes) \<Rightarrow> hash option \<Rightarrow> rev_iterator \<Rightarrow> (error + rev_iterator) option" where
  "rev_walk get target it =
     (case target of
        None \<Rightarrow>
          (case pop_left (rvstack it) of
             None \<Rightarrow> Some (Inr (it\<lparr>rvstack := [], rvleaf := [], rvindex := -1, rvdone := True\<rparr>))
           | Some hs \<Rightarrow> rev_walk get (Some (fst hs)) (it\<lparr>rvstack := snd hs, rvleaf := [], rvindex := -1\<rparr>))
      | Some h \<Rightarrow>
          (case readNode get h of
             Inl e \<Rightarrow> Some (Inl e)
           | Inr n \<Rightarrow>
               if nlevel n = 0 then
                 let it' = it\<lparr>rvleaf := nentries n, rvindex := int (length (nentries n)) - 1\<rparr>
                 in if rvindex it' < 0 then rev_walk get None it' else Some (Inr it')
               else if nchildren n = [] then Some (Inl InvalidInternalNode)
               else let la = length (nchildren n) - 1
                    in rev_walk get (Some (lhash (nchildren n ! la)))
                         (it\<lparr>rvstack := (n, int la - 1) # rvstack it\<rparr>)))"

declare rev_walk.simps [code]

definition descendRight :: "(hash \<Rightarrow> error + bytes) \<Rightarrow> hash \<Rightarrow> rev_iterator \<Rightarrow> (error + rev_iterator) option" where
  "descendRight get h it = rev_walk get (Some h) it"

definition retreat :: "(hash \<Rightarrow> error + bytes) \<Rightarrow> rev_iterator \<Rightarrow> (error + rev_iterator) option" where
  "retreat get it = rev_walk get None it"

definition search_below :: "entry list \<Rightarrow> bytes option \<Rightarrow> nat" where
  "search_below es bound = (case bound of None \<Rightarrow> length es
     | Some k \<Rightarrow> sort_search (length es) (\<lambda>i. ekey (es ! i) \<ge> k))"

definition child_below :: "link list \<Rightarrow> bytes option \<Rightarrow> nat" where
  "child_below cs bound = (case bound of None \<Rightarrow> length cs - 1
     | Some k \<Rightarrow> (let found = search_links cs k in if found < length cs then found else length cs - 1))"

partial_function (option) seekBelow ::
  "(hash \<Rightarrow> error + bytes) \<Rightarrow> bytes option \<Rightarrow> hash \<Rightarrow> rev_iterator \<Rightarrow> (error + rev_iterator) option" where
  "seekBelow get bound h it =
     (case readNode get h of
        Inl e \<Rightarrow> Some (Inl e)
      | Inr n \<Rightarrow>
          if nlevel n = 0 then
            let it' = it\<lparr>rvleaf := nentries n, rvindex := int (search_below (nentries n) bound) - 1\<rparr>
            in if rvindex it' < 0 then retreat get it' else Some (Inr it')
          else if nchildren n = [] then Some (Inl InvalidInternalNode)
          else let i = child_below (nchildren n) bound
               in seekBelow get bound (lhash (nchildren n ! i)) (it\<lparr>rvstack := (n, int i - 1) # rvstack it\<rparr>))"

declare seekBelow.simps [code]

definition tree_ReverseIterator ::
  "(hash \<Rightarrow> error + bytes) \<Rightarrow> hash \<Rightarrow> bytes option \<Rightarrow> (error + rev_iterator) option" where
  "tree_ReverseIterator get root bound =
     seekBelow get bound root \<lparr>rvstack = [], rvleaf = [], rvindex = -1, rvdone = False\<rparr>"

partial_function (option) rev_Next ::
  "(hash \<Rightarrow> error + bytes) \<Rightarrow> rev_iterator \<Rightarrow> ((error + entry option) \<times> rev_iterator) option" where
  "rev_Next get it =
     (if rvindex it \<ge> 0 then
        Some (Inr (Some (rvleaf it ! nat (rvindex it))), it\<lparr>rvindex := rvindex it - 1\<rparr>)
      else if rvdone it then Some (Inr None, it)
      else Option.bind (retreat get it) (\<lambda>res. case res of
        Inl e \<Rightarrow> Some (Inl e, rev_Close it)
      | Inr it' \<Rightarrow> rev_Next get it'))"

declare rev_Next.simps [code]

fun rev_take ::
  "(hash \<Rightarrow> error + bytes) \<Rightarrow> nat \<Rightarrow> rev_iterator \<Rightarrow> (error + entry list \<times> rev_iterator) option" where
  "rev_take get 0 it = Some (Inr ([], it))"
| "rev_take get (Suc n) it =
     (case rev_Next get it of
        None \<Rightarrow> None
      | Some (Inl e, _) \<Rightarrow> Some (Inl e)
      | Some (Inr None, it') \<Rightarrow> Some (Inr ([], it'))
      | Some (Inr (Some entry), it') \<Rightarrow>
          (case rev_take get n it' of
             None \<Rightarrow> None
           | Some (Inl e) \<Rightarrow> Some (Inl e)
           | Some (Inr (es, it'')) \<Rightarrow> Some (Inr (entry # es, it''))))"

section \<open>What the iterator still has to return\<close>

definition rframe_repr :: "(hash \<Rightarrow> error + bytes) \<Rightarrow> (bytes \<Rightarrow> bytes) \<Rightarrow> node \<times> int \<Rightarrow> ptree list \<Rightarrow> bool" where
  "rframe_repr get H f us \<longleftrightarrow> (\<exists>l ts. fst f = pnode H (PNode l ts) \<and> pvalid (PNode l ts)
     \<and> pstored get H (PNode l ts) \<and> snd f < int (length ts) \<and> us = take (nat (snd f + 1)) ts)"

fun rframes_repr :: "(hash \<Rightarrow> error + bytes) \<Rightarrow> (bytes \<Rightarrow> bytes) \<Rightarrow> (node \<times> int) list \<Rightarrow> entry list \<Rightarrow> bool" where
  "rframes_repr get H [] es \<longleftrightarrow> es = []"
| "rframes_repr get H (f # fs) es \<longleftrightarrow>
     (\<exists>us b. rframe_repr get H f us \<and> rframes_repr get H fs b \<and> es = rev (concat (map pentries us)) @ b)"

definition rev_repr :: "(hash \<Rightarrow> error + bytes) \<Rightarrow> (bytes \<Rightarrow> bytes) \<Rightarrow> rev_iterator \<Rightarrow> entry list \<Rightarrow> bool" where
  "rev_repr get H it es \<longleftrightarrow> rvindex it < int (length (rvleaf it)) \<and>
     (\<exists>b. rframes_repr get H (rvstack it) b \<and> (rvdone it \<longrightarrow> b = [])
        \<and> es = rev (take (nat (rvindex it + 1)) (rvleaf it)) @ b)"

text \<open>The entries below an exclusive upper bound.\<close>

definition below :: "bytes option \<Rightarrow> entry \<Rightarrow> bool" where
  "below bound e = (case bound of None \<Rightarrow> True | Some k \<Rightarrow> ekey e < k)"

context digest32
begin

lemma descendRight_pstored:
  assumes "pvalid t" "pwf t" "pstored get H t" "rframes_repr get H (rvstack it) b" "\<not> rvdone it"
  shows "\<exists>it'. rev_walk get (Some (proot H t)) it = Some (Inr it') \<and> \<not> rvdone it' \<and> rvindex it' \<ge> 0
    \<and> rev_repr get H it' (rev (pentries t) @ b)"
  using assms
proof (induction t arbitrary: it b)
  case (PLeaf es)
  then show ?case
    using readNode_pstored[OF PLeaf.prems(1,3)]
    by (subst rev_walk.simps) (auto simp: rev_repr_def Let_def)
next
  case (PNode l ts)
  let ?t = "PNode l ts" and ?la = "length ts - 1"
  have ts: "ts \<noteq> []" "l \<noteq> 0" using PNode.prems(2) by auto
  let ?it = "it\<lparr>rvstack := (pnode H ?t, int ?la - 1) # rvstack it\<rparr>"
  have u: "last ts \<in> set ts" "pvalid (last ts)" "pwf (last ts)" "pstored get H (last ts)"
    using ts pvalid_child[OF PNode.prems(1)] pstored_child[OF PNode.prems(3)] by auto
  have "rframe_repr get H (pnode H ?t, int ?la - 1) (butlast ts)"
    unfolding rframe_repr_def using PNode.prems(1,3) ts
    by (intro exI[of _ l] exI[of _ ts]) (simp add: butlast_conv_take)
  then have "rframes_repr get H (rvstack ?it) (rev (concat (map pentries (butlast ts))) @ b)"
    using PNode.prems(4) by auto
  moreover have "rev_walk get (Some (proot H ?t)) it = rev_walk get (Some (proot H (last ts))) ?it"
    using readNode_pstored[OF PNode.prems(1,3)] ts
    by (subst rev_walk.simps) (simp add: pnode_PNode Let_def last_conv_nth del: pnode.simps)
  moreover have "rev (pentries ?t) = rev (pentries (last ts)) @ rev (concat (map pentries (butlast ts)))"
  proof -
    obtain us u where "ts = us @ [u]" using ts(1) by (cases ts rule: rev_cases) auto
    then show ?thesis by simp
  qed
  ultimately show ?case
    using PNode.IH[OF u, of ?it "rev (concat (map pentries (butlast ts))) @ b"] PNode.prems(5) by simp
qed

lemma pop_left_pstored:
  assumes "rframes_repr get H stack b"
  shows "case pop_left stack of
      None \<Rightarrow> b = []
    | Some (h, stack') \<Rightarrow> \<exists>t b'. h = proot H t \<and> pvalid t \<and> pwf t \<and> pstored get H t
        \<and> rframes_repr get H stack' b' \<and> b = rev (pentries t) @ b'"
  using assms
proof (induction stack arbitrary: b)
  case (Cons f stack)
  obtain n k where f: "f = (n, k)" by (cases f)
  obtain us b' where b': "rframe_repr get H f us" "rframes_repr get H stack b'" "b = rev (concat (map pentries us)) @ b'"
    using Cons.prems by auto
  obtain l ts where n: "n = pnode H (PNode l ts)" "pvalid (PNode l ts)" "pstored get H (PNode l ts)"
      "k < int (length ts)" "us = take (nat (k + 1)) ts"
    using b'(1) f by (auto simp: rframe_repr_def)
  show ?case
  proof (cases "k \<ge> 0")
    case True
    let ?u = "ts ! nat k"
    have k: "nat (k + 1) = Suc (nat k)" "nat k < length ts" using True n(4) by auto
    then have us: "us = take (nat k) ts @ [?u]" using n(5) by (simp add: take_Suc_conv_app_nth)
    have u: "pvalid ?u" "pwf ?u" "pstored get H ?u"
      using k(2) pvalid_child[OF n(2)] pstored_child[OF n(3)] by auto
    have "rframe_repr get H (n, k - 1) (take (nat k) ts)"
      unfolding rframe_repr_def using n by (intro exI[of _ l] exI[of _ ts]) simp
    then have "rframes_repr get H ((n, k - 1) # stack) (rev (concat (map pentries (take (nat k) ts))) @ b')"
      using b'(2) by auto
    moreover have "lhash (nchildren n ! nat k) = proot H ?u" using n(1) k(2) by (simp add: pnode_PNode del: pnode.simps)
    ultimately show ?thesis using f True u us b'(3) by auto
  next
    case False
    then have "b = b'" using n(5) b'(3) by simp
    moreover have "pop_left (f # stack) = pop_left stack" using f False by simp
    ultimately show ?thesis using Cons.IH[OF b'(2)] by (simp only:)
  qed
qed simp

lemma retreat_pstored:
  assumes "rframes_repr get H (rvstack it) b" "\<not> rvdone it"
  shows "\<exists>it'. retreat get it = Some (Inr it') \<and> rev_repr get H it' b \<and> (b \<noteq> [] \<longrightarrow> rvindex it' \<ge> 0)
    \<and> (b = [] \<longrightarrow> rvdone it')"
proof (cases "pop_left (rvstack it)")
  case None
  then show ?thesis
    using pop_left_pstored[OF assms(1)] unfolding retreat_def
    by (subst rev_walk.simps) (simp add: rev_repr_def)
next
  case (Some hs)
  obtain h stack where hs: "hs = (h, stack)" by (cases hs)
  obtain t b' where t: "h = proot H t" "pvalid t" "pwf t" "pstored get H t" "rframes_repr get H stack b'" "b = rev (pentries t) @ b'"
    using pop_left_pstored[OF assms(1)] Some hs by auto
  let ?it = "it\<lparr>rvstack := stack, rvleaf := [], rvindex := -1\<rparr>"
  have "retreat get it = rev_walk get (Some h) ?it"
    using Some hs unfolding retreat_def by (subst rev_walk.simps) simp
  then show ?thesis
    using descendRight_pstored[OF t(2-4), of ?it b'] t assms(2) pwf_nonempty[OF t(3)] by auto
qed

lemma rev_Next_pstored:
  assumes "rev_repr get H it es"
  shows "\<exists>it'. rev_repr get H it' (tl es) \<and>
    rev_Next get it = Some (Inr (case es of [] \<Rightarrow> None | e # _ \<Rightarrow> Some e), it')"
proof -
  have here: "\<exists>it'. rev_repr get H it' (tl es) \<and>
      rev_Next get it = Some (Inr (case es of [] \<Rightarrow> None | e # _ \<Rightarrow> Some e), it')"
    if r: "rev_repr get H it es" and i: "rvindex it \<ge> 0" for it es
  proof -
    let ?i = "nat (rvindex it)"
    have k: "nat (rvindex it + 1) = Suc ?i" "?i < length (rvleaf it)" using r i by (auto simp: rev_repr_def)
    obtain b where b: "rframes_repr get H (rvstack it) b" "rvdone it \<longrightarrow> b = []"
        "es = rvleaf it ! ?i # rev (take ?i (rvleaf it)) @ b"
      using r k by (auto simp: rev_repr_def take_Suc_conv_app_nth)
    have "rev_repr get H (it\<lparr>rvindex := rvindex it - 1\<rparr>) (tl es)"
      using b r i by (auto simp: rev_repr_def)
    then show ?thesis using i b(3) by (subst rev_Next.simps) auto
  qed
  show ?thesis
  proof (cases "rvindex it \<ge> 0")
    case True
    then show ?thesis using here assms by blast
  next
    case False
    then obtain b where b: "rframes_repr get H (rvstack it) b" "rvdone it \<longrightarrow> b = []" "es = b"
      using assms by (auto simp: rev_repr_def)
    show ?thesis
    proof (cases "rvdone it")
      case True
      then show ?thesis using False b assms by (subst rev_Next.simps) auto
    next
      case nd: False
      obtain it' where it': "retreat get it = Some (Inr it')" "rev_repr get H it' b"
          "b \<noteq> [] \<longrightarrow> rvindex it' \<ge> 0" "b = [] \<longrightarrow> rvdone it'"
        using retreat_pstored[OF b(1) nd] by blast
      have step: "rev_Next get it = rev_Next get it'"
        using False nd it'(1) by (subst rev_Next.simps) simp
      show ?thesis
      proof (cases "b = []")
        case True
        then have "rvindex it' < 0" using it'(2) by (auto simp: rev_repr_def)
        then have "rev_Next get it' = Some (Inr None, it')" using it'(4) True by (subst rev_Next.simps) simp
        then show ?thesis using step b(3) True it'(2) by auto
      next
        case False
        then show ?thesis using step b(3) here[OF it'(2)] it'(3) by auto
      qed
    qed
  qed
qed

lemma rev_take_pstored:
  assumes "rev_repr get H it es"
  shows "\<exists>it'. rev_take get n it = Some (Inr (take n es, it')) \<and> rev_repr get H it' (drop n es)"
  using assms
proof (induction n arbitrary: it es)
  case (Suc n)
  obtain it' where it': "rev_repr get H it' (tl es)"
      "rev_Next get it = Some (Inr (case es of [] \<Rightarrow> None | e # _ \<Rightarrow> Some e), it')"
    using rev_Next_pstored[OF Suc.prems] by blast
  then show ?case using Suc.IH[of it' "tl es"] by (cases es) auto
qed simp



lemma search_below_take:
  assumes "keys_sorted es"
  shows "take (search_below es bound) es = filter (below bound) es" "search_below es bound \<le> length es"
proof -
  have "take (search_below es bound) es = filter (below bound) es \<and> search_below es bound \<le> length es"
  proof (cases bound)
    case (Some k)
    have "sorted (map ekey es)" using assms by (simp add: keys_sorted_def strict_sorted_iff)
    then have "sort_search (length (map ekey es)) (\<lambda>i. map ekey es ! i \<ge> k) = length (takeWhile (\<lambda>x. x < k) (map ekey es))"
      by (rule search_sorted_keys)
    moreover have "sort_search (length es) (\<lambda>i. ekey (es ! i) \<ge> k) = sort_search (length es) (\<lambda>i. map ekey es ! i \<ge> k)"
      unfolding sort_search_def by (rule search_loop_cong) simp
    ultimately have n: "search_below es bound = length (takeWhile (\<lambda>e. ekey e < k) es)"
      using Some by (simp add: search_below_def takeWhile_map comp_def)
    then have "take (search_below es bound) es = takeWhile (\<lambda>e. ekey e < k) es"
      by (simp add: takeWhile_eq_take[symmetric])
    also have "\<dots> = filter (\<lambda>e. ekey e < k) es"
      using assms
    proof (induction es)
      case (Cons e es)
      have "filter (\<lambda>e. ekey e < k) es = []" if "\<not> ekey e < k"
        using Cons.prems that by (auto simp: keys_sorted_Cons filter_empty_conv dest: less_trans)
      then show ?case using Cons by (auto simp: keys_sorted_Cons)
    qed simp
    also have "\<dots> = filter (below bound) es" using Some by (intro filter_cong) (simp_all add: below_def)
    finally show ?thesis using n by (simp add: length_takeWhile_le)
  qed (simp add: search_below_def below_def)
  then show "take (search_below es bound) es = filter (below bound) es" "search_below es bound \<le> length es" by auto
qed

text \<open>The child \<open>seekBelow\<close> descends to: what is before it lies below the bound, what is after not.\<close>

lemma child_below_split:
  assumes "pvalid (PNode l ts)" "i = child_below (map (plink H) ts) bound"
  shows "i < length ts"
    and "filter (below bound) (pentries (PNode l ts)) = concat (map pentries (take i ts)) @ filter (below bound) (pentries (ts ! i))"
proof -
  have ne: "ts \<noteq> []" using assms(1) by (auto simp: pvalid_def)
  show i: "i < length ts" using assms(2) ne by (auto simp: child_below_def Let_def split: option.splits)
  have split: "pentries (PNode l ts) = concat (map pentries (take i ts)) @ pentries (ts ! i) @ concat (map pentries (drop (Suc i) ts))"
  proof -
    have "ts = take i ts @ ts ! i # drop (Suc i) ts" using i by (simp add: id_take_nth_drop)
    then show ?thesis by (metis concat.simps(2) concat_append list.simps(9) map_append pentries.simps(2))
  qed
  have "(\<forall>e \<in> set (concat (map pentries (take i ts))). below bound e)
      \<and> (\<forall>e \<in> set (concat (map pentries (drop (Suc i) ts))). \<not> below bound e)"
  proof (cases bound)
    case None
    then have "i = length ts - 1" using assms(2) by (simp add: child_below_def)
    then show ?thesis using None by (simp add: below_def)
  next
    case (Some k)
    define j where "j = length (takeWhile (\<lambda>x. x < k) (map pmax ts))"
    have j: "search_links (map (plink H) ts) k = j" using search_links_plink[OF assms(1)] by (simp add: j_def)
    note cs = child_split[OF assms(1) j_def]
    show ?thesis
    proof (cases "j < length ts")
      case True
      then have "i = j" using assms(2) Some j by (simp add: child_below_def)
      then show ?thesis using cs(1,3) True Some by (auto simp: below_def dest: less_asym)
    next
      case False
      then have ij: "i = length ts - 1" "j = length ts"
        using assms(2) Some j length_takeWhile_le[of "\<lambda>x. x < k" "map pmax ts"] by (auto simp: child_below_def j_def)
      have "ekey e < k" if "e \<in> set (concat (map pentries (take i ts)))" for e
        using cs(1)[of e] that ij by (auto dest: in_set_takeD)
      then show ?thesis using ij Some by (simp add: below_def)
    qed
  qed
  then show "filter (below bound) (pentries (PNode l ts)) = concat (map pentries (take i ts)) @ filter (below bound) (pentries (ts ! i))"
    unfolding split filter_append by (simp add: filter_empty_conv filter_id_conv[THEN iffD2])
qed

lemma seekBelow_pstored:
  assumes "pvalid t" "pstored get H t" "rframes_repr get H (rvstack it) b" "\<not> rvdone it"
  shows "\<exists>it'. seekBelow get bound (proot H t) it = Some (Inr it') \<and>
    rev_repr get H it' (rev (filter (below bound) (pentries t)) @ b)"
  using assms
proof (induction t arbitrary: it b)
  case (PLeaf es)
  let ?n = "search_below es bound"
  let ?it = "it\<lparr>rvleaf := es, rvindex := int ?n - 1\<rparr>"
  have ks: "keys_sorted es" using PLeaf.prems(1) by (simp add: pvalid_def)
  note n = search_below_take[OF ks, of bound]
  have step: "seekBelow get bound (proot H (PLeaf es)) it = (if rvindex ?it < 0 then retreat get ?it else Some (Inr ?it))"
    using readNode_pstored[OF PLeaf.prems(1,2)] by (subst seekBelow.simps) (simp add: Let_def)
  show ?case
  proof (cases "?n = 0")
    case True
    then have "filter (below bound) es = []" using n(1) by simp
    then show ?thesis using step True retreat_pstored[of get ?it b] PLeaf.prems(3,4) by auto
  next
    case False
    then show ?thesis using step n PLeaf.prems(3,4) by (auto simp: rev_repr_def)
  qed
next
  case (PNode l ts)
  let ?t = "PNode l ts"
  define i where "i = child_below (map (plink H) ts) bound"
  note ch = child_below_split[OF PNode.prems(1) i_def]
  have ts: "ts \<noteq> []" "l \<noteq> 0" using PNode.prems(1) by (auto simp: pvalid_def)
  let ?it = "it\<lparr>rvstack := (pnode H ?t, int i - 1) # rvstack it\<rparr>"
  have u: "ts ! i \<in> set ts" "pvalid (ts ! i)" "pstored get H (ts ! i)"
    using ch(1) pvalid_child[OF PNode.prems(1)] pstored_child[OF PNode.prems(2)] by auto
  have "rframe_repr get H (pnode H ?t, int i - 1) (take i ts)"
    unfolding rframe_repr_def using PNode.prems(1,2) ch(1) by (intro exI[of _ l] exI[of _ ts]) simp
  then have fr: "rframes_repr get H (rvstack ?it) (rev (concat (map pentries (take i ts))) @ b)"
    using PNode.prems(3) by auto
  have "seekBelow get bound (proot H ?t) it = seekBelow get bound (proot H (ts ! i)) ?it"
    using readNode_pstored[OF PNode.prems(1,2)] ts ch(1)
    by (subst seekBelow.simps) (simp add: pnode_PNode Let_def i_def[symmetric] del: pnode.simps)
  then show ?case
    using PNode.IH[OF u fr] PNode.prems(4) unfolding ch(2) by simp
qed

lemma tree_ReverseIterator_pstored:
  assumes "pvalid t" "pstored get H t"
  shows "\<exists>it. tree_ReverseIterator get (proot H t) bound = Some (Inr it) \<and>
    rev_repr get H it (rev (filter (below bound) (pentries t)))"
  using seekBelow_pstored[OF assms, of "\<lparr>rvstack = [], rvleaf = [], rvindex = -1, rvdone = False\<rparr>" "[]" bound]
  by (simp add: tree_ReverseIterator_def)

end

end
