(* ===== verification/Prolly_Validate.thy ===== *)
theory Prolly_Validate
  imports Prolly_Reverse
begin

text \<open>
  The walker of \<open>common/prolly/tree.go\<close>: \<open>Entries\<close>, \<open>Reachable\<close> and \<open>Validate\<close>.

  The \<open>NodeCache\<close> interface is a pair of functions on a cache state; no cache is the pair that
  never answers. \<open>visit\<close> is a function on an accumulator. \<open>seen\<close> is an association list with one
  entry per hash, and is off for \<open>Entries\<close>. \<open>walk\<close> and its loop over the children are the two
  modes of \<open>walk_go\<close>.
\<close>

section \<open>The operations\<close>

record validated_node =
  vcount :: uint64
  vchildren :: "hash list"

record ('c, 'v) walker =
  wtrack :: bool
  wseen :: "(hash \<times> uint64) list"
  wcache :: 'c
  wacc :: 'v

definition seen_put :: "hash \<Rightarrow> uint64 \<Rightarrow> (hash \<times> uint64) list \<Rightarrow> (hash \<times> uint64) list" where
  "seen_put h c seen = (h, c) # filter (\<lambda>(k, _). k \<noteq> h) seen"

text \<open>\<open>fromCache\<close>: the count of a vouched subtree; \<open>nodes[0]\<close> panics on an empty answer.\<close>

definition fromCache ::
  "('c \<Rightarrow> hash \<Rightarrow> (hash \<times> uint64) list option) \<Rightarrow> hash \<Rightarrow> ('c, 'v) walker \<Rightarrow> error + uint64 option \<times> ('c, 'v) walker" where
  "fromCache subtree h w =
     (case subtree (wcache w) h of
        None \<Rightarrow> Inr (None, w)
      | Some [] \<Rightarrow> Inl IndexOutOfRange
      | Some (n # nodes) \<Rightarrow>
          Inr (Some (snd n), w\<lparr>wseen := foldl (\<lambda>seen (k, c). seen_put k c seen) (wseen w) (n # nodes)\<rparr>))"

fun resolve_cached ::
  "('c \<Rightarrow> hash \<Rightarrow> (hash \<times> uint64) list option) \<Rightarrow> link list \<Rightarrow> ('c, 'v) walker \<Rightarrow> error + ('c, 'v) walker" where
  "resolve_cached subtree [] w = Inr w"
| "resolve_cached subtree (child # children) w =
     (if map_of (wseen w) (lhash child) \<noteq> None then resolve_cached subtree children w
      else case fromCache subtree (lhash child) w of
        Inl e \<Rightarrow> Inl e
      | Inr (_, w') \<Rightarrow> resolve_cached subtree children w')"

fun entries_ordered :: "entry list \<Rightarrow> bool" where
  "entries_ordered (a # b # es) \<longleftrightarrow> ekey a < ekey b \<and> entries_ordered (b # es)"
| "entries_ordered _ \<longleftrightarrow> True"

text \<open>The end of \<open>walk\<close>: visit the node, record it as seen, remember it in the cache.\<close>

definition walk_finish ::
  "('c \<Rightarrow> hash \<Rightarrow> validated_node \<Rightarrow> 'c) \<Rightarrow> (node \<Rightarrow> 'v \<Rightarrow> error + 'v) \<Rightarrow> hash \<Rightarrow> node \<Rightarrow> uint64 \<Rightarrow> ('c, 'v) walker
    \<Rightarrow> error + uint64 \<times> ('c, 'v) walker" where
  "walk_finish remember visit h n count w =
     (case visit n (wacc w) of
        Inl e \<Rightarrow> Inl e
      | Inr acc \<Rightarrow>
          Inr (count, w\<lparr>wacc := acc,
            wseen := (if wtrack w then seen_put h count (wseen w) else wseen w),
            wcache := remember (wcache w) h
              \<lparr>vcount = count, vchildren = (if nlevel n \<noteq> 0 then map lhash (nchildren n) else [])\<rparr>\<rparr>))"

datatype walk_target = WNode hash | WChildren "bytes option" "link list" uint64

partial_function (option) walk_go ::
  "(hash \<Rightarrow> error + bytes) \<Rightarrow> ('c \<Rightarrow> hash \<Rightarrow> (hash \<times> uint64) list option) \<Rightarrow> ('c \<Rightarrow> hash \<Rightarrow> validated_node \<Rightarrow> 'c)
    \<Rightarrow> (node \<Rightarrow> 'v \<Rightarrow> error + 'v) \<Rightarrow> walk_target \<Rightarrow> ('c, 'v) walker \<Rightarrow> (error + uint64 \<times> ('c, 'v) walker) option" where
  "walk_go get subtree remember visit target w =
     (case target of
        WNode h \<Rightarrow>
          (case (if wtrack w then map_of (wseen w) h else None) of
             Some count \<Rightarrow> Some (Inr (count, w))
           | None \<Rightarrow>
               (case readNode get h of
                  Inl e \<Rightarrow> Some (Inl e)
                | Inr n \<Rightarrow>
                    if nlevel n = 0 then
                      if nchildren n \<noteq> [] then Some (Inl LeafHasChildren)
                      else if \<not> entries_ordered (nentries n) then Some (Inl NodeEntriesNotOrdered)
                      else Some (walk_finish remember visit h n (of_nat (length (nentries n))) w)
                    else if nentries n \<noteq> [] \<or> nchildren n = [] then Some (Inl InvalidInternalNode)
                    else (case resolve_cached subtree (nchildren n) w of
                       Inl e \<Rightarrow> Some (Inl e)
                     | Inr w1 \<Rightarrow>
                         Option.bind (walk_go get subtree remember visit (WChildren None (nchildren n) 0) w1)
                           (\<lambda>r. case r of
                               Inl e \<Rightarrow> Some (Inl e)
                             | Inr cw \<Rightarrow> Some (walk_finish remember visit h n (fst cw) (snd cw))))))
      | WChildren prev children count \<Rightarrow>
          (case children of
             [] \<Rightarrow> Some (Inr (count, w))
           | child # rest \<Rightarrow>
               if \<not> hash_Valid (lhash child) \<or> (case prev of None \<Rightarrow> False | Some k \<Rightarrow> k \<ge> lmax child)
               then Some (Inl InvalidChildLink)
               else Option.bind (walk_go get subtree remember visit (WNode (lhash child)) w)
                 (\<lambda>r. case r of
                     Inl e \<Rightarrow> Some (Inl e)
                   | Inr cw \<Rightarrow>
                       if fst cw \<noteq> lcount child then Some (Inl ChildCountMismatch)
                       else walk_go get subtree remember visit (WChildren (Some (lmax child)) rest (count + fst cw)) (snd cw))))"

declare walk_go.simps [code]

definition walk ::
  "(hash \<Rightarrow> error + bytes) \<Rightarrow> ('c \<Rightarrow> hash \<Rightarrow> (hash \<times> uint64) list option) \<Rightarrow> ('c \<Rightarrow> hash \<Rightarrow> validated_node \<Rightarrow> 'c)
    \<Rightarrow> (node \<Rightarrow> 'v \<Rightarrow> error + 'v) \<Rightarrow> hash \<Rightarrow> ('c, 'v) walker \<Rightarrow> (error + uint64 \<times> ('c, 'v) walker) option" where
  "walk get subtree remember visit h w = walk_go get subtree remember visit (WNode h) w"

text \<open>\<open>Validate\<close>: the sorted hashes and the final cache and accumulator.\<close>

definition Validate ::
  "(hash \<Rightarrow> error + bytes) \<Rightarrow> ('c \<Rightarrow> hash \<Rightarrow> (hash \<times> uint64) list option) \<Rightarrow> ('c \<Rightarrow> hash \<Rightarrow> validated_node \<Rightarrow> 'c)
    \<Rightarrow> (entry list \<Rightarrow> 'v \<Rightarrow> error + 'v) \<Rightarrow> 'c \<Rightarrow> 'v \<Rightarrow> hash \<Rightarrow> (error + hash list \<times> 'c \<times> 'v) option" where
  "Validate get subtree remember leaf cache acc root =
     (let w = \<lparr>wtrack = True, wseen = [], wcache = cache, wacc = acc\<rparr>;
          visit = (\<lambda>n a. if nlevel n = 0 then leaf (nentries n) a else Inr a);
          result = (\<lambda>w'. Inr (sort (map fst (wseen w')), wcache w', wacc w'))
      in case fromCache subtree root w of
           Inl e \<Rightarrow> Some (Inl e)
         | Inr (Some _, w') \<Rightarrow> Some (result w')
         | Inr (None, w') \<Rightarrow>
             map_option (\<lambda>r. case r of Inl e \<Rightarrow> Inl e | Inr (_, w'') \<Rightarrow> result w'')
               (walk get subtree remember visit root w'))"

definition no_subtree :: "'c \<Rightarrow> hash \<Rightarrow> (hash \<times> uint64) list option" where
  "no_subtree c h = None"

definition no_remember :: "'c \<Rightarrow> hash \<Rightarrow> validated_node \<Rightarrow> 'c" where
  "no_remember c h n = c"

definition Reachable :: "(hash \<Rightarrow> error + bytes) \<Rightarrow> hash \<Rightarrow> (error + hash list) option" where
  "Reachable get root =
     map_option (\<lambda>r. case r of Inl e \<Rightarrow> Inl e | Inr (hashes, _) \<Rightarrow> Inr hashes)
       (Validate get no_subtree no_remember (\<lambda>_ u. Inr u) () () root)"

definition collect_visit :: "node \<Rightarrow> entry list \<Rightarrow> error + entry list" where
  "collect_visit n acc = Inr (if nlevel n = 0 then acc @ nentries n else acc)"

definition tree_Entries :: "(hash \<Rightarrow> error + bytes) \<Rightarrow> hash \<Rightarrow> (error + entry list) option" where
  "tree_Entries get root =
     map_option (\<lambda>r. case r of Inl e \<Rightarrow> Inl e | Inr (_, w) \<Rightarrow> Inr (wacc w))
       (walk get no_subtree no_remember collect_visit root
         \<lparr>wtrack = False, wseen = [], wcache = (), wacc = []\<rparr>)"

section \<open>Stored trees pass\<close>

lemma entries_ordered_sorted: "entries_ordered es \<longleftrightarrow> keys_sorted es"
proof (induction es rule: entries_ordered.induct)
  case (1 a b es)
  have "keys_sorted (a # b # es) \<longleftrightarrow> ekey a < ekey b \<and> keys_sorted (b # es)"
    by (auto simp: keys_sorted_def dest: less_trans)
  then show ?case using 1 by simp
qed (simp_all add: keys_sorted_def)

lemma resolve_no_cache: "resolve_cached no_subtree cs w = Inr w"
  by (induction cs) (simp_all add: fromCache_def no_subtree_def)

lemma psubtrees_trans: "u \<in> psubtrees t \<Longrightarrow> v \<in> psubtrees u \<Longrightarrow> v \<in> psubtrees t"
  by (induction t) auto

lemma psubtrees_pvalid: "u \<in> psubtrees t \<Longrightarrow> pvalid t \<Longrightarrow> pvalid u"
proof (induction t)
  case (PNode l ts)
  then show ?case using pvalid_child(1)[of l ts] by auto
qed simp

lemma psubtrees_pstored: "u \<in> psubtrees t \<Longrightarrow> pstored get H t \<Longrightarrow> pstored get H u"
  by (auto simp: pstored_def pobjects_def dest: psubtrees_trans)

context digest32
begin

text \<open>In a store that holds a tree, its nodes have different names.\<close>

lemma stored_proot_inj:
  assumes "pvalid u" "pvalid v" "pstored get H u" "pstored get H v" "proot H u = proot H v"
  shows "u = v"
  using assms
proof (induction u arbitrary: v)
  case (PLeaf es)
  have "pnode H (PLeaf es) = pnode H v"
    using readNode_pstored[OF PLeaf(1,3)] readNode_pstored[OF PLeaf(2,4)] PLeaf(5) by simp
  then show ?case using PLeaf(2) by (cases v) (auto simp: pvalid_def)
next
  case (PNode l ts)
  have node: "pnode H (PNode l ts) = pnode H v"
    using readNode_pstored[OF PNode(2,4)] readNode_pstored[OF PNode(3,5)] PNode(6) by simp
  have l: "l \<noteq> 0" using PNode(2) by (auto simp: pvalid_def)
  obtain l' us where v: "v = PNode l' us" using node l by (cases v) auto
  have eq: "l' = l" "map (plink H) ts = map (plink H) us"
    using node unfolding v pnode_PNode by auto
  have len: "length ts = length us" using eq(2) by (metis length_map)
  have "ts = us"
  proof (rule nth_equalityI[OF len])
    fix i assume i: "i < length ts"
    then have "proot H (ts ! i) = proot H (us ! i)"
      using eq(2) len by (metis nth_map plink_simps(3))
    moreover have "ts ! i \<in> set ts" "us ! i \<in> set us" using i len by auto
    ultimately show "ts ! i = us ! i"
      using PNode.IH pvalid_child(1)[OF PNode.prems(1)] pvalid_child(1)[OF PNode.prems(2)[unfolded v]]
        pstored_child[OF PNode.prems(3)] pstored_child[OF PNode.prems(4)[unfolded v]] by simp
  qed
  then show ?case using v eq(1) by simp
qed

text \<open>The nodes seen so far: nodes of the tree with their counts, and with each node its subtree.\<close>

definition seen_inv :: "ptree \<Rightarrow> (hash \<times> uint64) list \<Rightarrow> bool" where
  "seen_inv t seen \<longleftrightarrow> distinct (map fst seen)
     \<and> (\<forall>(h, c) \<in> set seen. \<exists>u \<in> psubtrees t. h = proot H u \<and> c = pcount u)
     \<and> (\<forall>u \<in> psubtrees t. proot H u \<in> fst ` set seen \<longrightarrow> proot H ` psubtrees u \<subseteq> fst ` set seen)"

lemma seen_put_inv:
  assumes "seen_inv t seen" "u \<in> psubtrees t" "proot H ` psubtrees u - {proot H u} \<subseteq> fst ` set seen" "pvalid t" "pstored get H t"
  shows "seen_inv t (seen_put (proot H u) (pcount u) seen)"
    "fst ` set (seen_put (proot H u) (pcount u) seen) = insert (proot H u) (fst ` set seen)"
proof -
  let ?s = "seen_put (proot H u) (pcount u) seen"
  show keys: "fst ` set ?s = insert (proot H u) (fst ` set seen)" by (force simp: seen_put_def)
  have "distinct (map fst (filter (\<lambda>(k, _). k \<noteq> proot H u) seen))"
    using assms(1) by (simp add: seen_inv_def distinct_map_filter)
  then have "distinct (map fst ?s)" by (auto simp: seen_put_def)
  moreover have "\<forall>(h, c) \<in> set ?s. \<exists>v \<in> psubtrees t. h = proot H v \<and> c = pcount v"
    using assms(1,2) by (auto simp: seen_put_def seen_inv_def)
  moreover have "proot H ` psubtrees v \<subseteq> fst ` set ?s" if v: "v \<in> psubtrees t" "proot H v \<in> fst ` set ?s" for v
  proof (cases "proot H v = proot H u")
    case True
    then have "v = u"
      using stored_proot_inj[of v u get] v(1) assms(2,4,5) psubtrees_pvalid psubtrees_pstored by blast
    then show ?thesis using assms(3) unfolding keys by auto
  next
    case False
    then have "proot H v \<in> fst ` set seen" using v(2) unfolding keys by auto
    then show ?thesis using assms(1) v(1) unfolding keys seen_inv_def by blast
  qed
  ultimately show "seen_inv t ?s" unfolding seen_inv_def by blast
qed


text \<open>One step of the loop over the children, when the child's walk succeeds with its count.\<close>

lemma walk_child_step:
  assumes "pwf t" "case prev of None \<Rightarrow> True | Some k \<Rightarrow> k < pmax t"
    and "walk_go get sub rem visit (WNode (proot H t)) w = Some (Inr (pcount t, w'))"
  shows "walk_go get sub rem visit (WChildren prev (plink H t # rest) c) w =
    walk_go get sub rem visit (WChildren (Some (pmax t)) rest (c + pcount t)) w'"
proof -
  have "hash_Valid (lhash (plink H t))" by (simp add: proot_def hash_Valid_Sum)
  then show ?thesis
    using assms by (subst walk_go.simps) (auto split: option.splits)
qed

lemma walk_children_end: "walk_go get sub rem visit (WChildren prev [] c) w = Some (Inr (c, w))"
  by (subst walk_go.simps) simp

lemma map_of_seen:
  assumes "seen_inv t seen" "u \<in> psubtrees t" "pvalid t" "pstored get H t"
  shows "map_of seen (proot H u) = (if proot H u \<in> fst ` set seen then Some (pcount u) else None)"
proof (cases "proot H u \<in> fst ` set seen")
  case True
  then obtain c where c: "(proot H u, c) \<in> set seen" by auto
  then obtain v where v: "v \<in> psubtrees t" "proot H u = proot H v" "c = pcount v"
    using assms(1) by (auto simp: seen_inv_def)
  then have "u = v"
    using stored_proot_inj[of u v get] assms psubtrees_pvalid psubtrees_pstored by blast
  moreover have "map_of seen (proot H u) = Some c" using c assms(1) by (simp add: seen_inv_def)
  ultimately show ?thesis using True v(3) by simp
next
  case False
  then show ?thesis by (simp add: map_of_eq_None_iff)
qed

lemma pcount_PNode_Cons: "pcount (PNode l (t # ts)) = pcount t + pcount (PNode l ts)"
  by (simp add: pcount_def)

lemma walk_seen_leaf:
  assumes "pvalid (PLeaf es)" "pstored get H (PLeaf es)" "wtrack w \<longrightarrow> map_of (wseen w) (proot H (PLeaf es)) = None"
  shows "walk_go get sub rem visit (WNode (proot H (PLeaf es))) w =
    Some (walk_finish rem visit (proot H (PLeaf es)) (pnode H (PLeaf es)) (pcount (PLeaf es)) w)"
  using assms readNode_pstored[OF assms(1,2)]
  by (subst walk_go.simps) (simp add: entries_ordered_sorted pvalid_def pcount_def)

lemma walk_seen:
  fixes w :: "('c, 'v) walker"
  assumes "pvalid T" "pstored get H T" "\<And>n a. visit n a = Inr a"
    and "u \<in> psubtrees T" "seen_inv T (wseen w)" "wtrack w"
  shows "\<exists>w'. walk_go get no_subtree no_remember visit (WNode (proot H u)) w = Some (Inr (pcount u, w'))
    \<and> wtrack w' \<and> seen_inv T (wseen w') \<and> fst ` set (wseen w') = fst ` set (wseen w) \<union> proot H ` psubtrees u"
proof -
  have fin: "walk_finish no_remember visit h n c w = Inr (c, w\<lparr>wseen := seen_put h c (wseen w)\<rparr>)" if "wtrack w"
    for h n c and w :: "('c, 'v) walker"
    using that by (cases w) (simp add: walk_finish_def no_remember_def assms(3))
  show ?thesis
    using assms(4-6)
proof (induction u arbitrary: w)
  case (PLeaf es)
  have v: "pvalid (PLeaf es)" "pstored get H (PLeaf es)"
    using PLeaf.prems(1) assms(1,2) psubtrees_pvalid psubtrees_pstored by blast+
  note seen = map_of_seen[OF PLeaf.prems(2,1) assms(1,2)]
  show ?case
  proof (cases "proot H (PLeaf es) \<in> fst ` set (wseen w)")
    case True
    then show ?thesis
      using seen PLeaf.prems by (intro exI[of _ w]) (subst walk_go.simps, auto)
  next
    case False
    then have step: "walk_go get no_subtree no_remember visit (WNode (proot H (PLeaf es))) w =
        Some (walk_finish no_remember visit (proot H (PLeaf es)) (pnode H (PLeaf es)) (pcount (PLeaf es)) w)"
      by (intro walk_seen_leaf[OF v]) (simp add: seen)
    have "proot H ` psubtrees (PLeaf es) - {proot H (PLeaf es)} \<subseteq> fst ` set (wseen w)" by simp
    note put = seen_put_inv[OF PLeaf.prems(2,1) this assms(1,2)]
    show ?thesis
      unfolding step fin[OF PLeaf.prems(3)] using put PLeaf.prems(3) by simp
  qed
next
  case (PNode l ts)
  let ?u = "PNode l ts"
  have v: "pvalid ?u" "pstored get H ?u"
    using PNode.prems(1) assms(1,2) psubtrees_pvalid psubtrees_pstored by blast+
  have wf: "l \<noteq> 0" "ts \<noteq> []" "\<forall>t \<in> set ts. pwf t" using v(1) by (auto simp: pvalid_def)
  note seen = map_of_seen[OF PNode.prems(2,1) assms(1,2)]
  show ?case
  proof (cases "proot H ?u \<in> fst ` set (wseen w)")
    case True
    then have "proot H ` psubtrees ?u \<subseteq> fst ` set (wseen w)" using PNode.prems(1,2) unfolding seen_inv_def by blast
    then show ?thesis
      using seen True PNode.prems by (intro exI[of _ w]) (subst walk_go.simps, auto)
  next
    case False
    have loop: "\<exists>w'. walk_go get no_subtree no_remember visit (WChildren prev (map (plink H) us) c) w = Some (Inr (c + pcount (PNode l us), w'))
        \<and> wtrack w' \<and> seen_inv T (wseen w') \<and> fst ` set (wseen w') = fst ` set (wseen w) \<union> (\<Union>t \<in> set us. proot H ` psubtrees t)"
      if "set us \<subseteq> set ts" "sorted_wrt (<) (map pmax us)" "case prev of None \<Rightarrow> True | Some k \<Rightarrow> \<forall>t \<in> set us. k < pmax t"
        "seen_inv T (wseen w)" "wtrack w" for us prev c and w :: "('c, 'v) walker"
      using that
    proof (induction us arbitrary: prev c w)
      case Nil
      then show ?case by (simp add: walk_children_end pcount_def)
    next
      case (Cons t us)
      have t: "t \<in> set ts" using Cons.prems(1) by simp
      then have "t \<in> psubtrees ?u" by (auto intro!: bexI[of _ t])
      then have tT: "t \<in> psubtrees T" using PNode.prems(1) psubtrees_trans by blast
      obtain w1 where w1: "walk_go get no_subtree no_remember visit (WNode (proot H t)) w = Some (Inr (pcount t, w1))"
          "wtrack w1" "seen_inv T (wseen w1)" "fst ` set (wseen w1) = fst ` set (wseen w) \<union> proot H ` psubtrees t"
        using PNode.IH[OF t tT Cons.prems(4,5)] by blast
      obtain w2 where "walk_go get no_subtree no_remember visit (WChildren (Some (pmax t)) (map (plink H) us) (c + pcount t)) w1 =
            Some (Inr ((c + pcount t) + pcount (PNode l us), w2))"
          "wtrack w2" "seen_inv T (wseen w2)" "fst ` set (wseen w2) = fst ` set (wseen w1) \<union> (\<Union>t \<in> set us. proot H ` psubtrees t)"
        using Cons.IH[of "Some (pmax t)" w1 "c + pcount t"] Cons.prems w1(2,3) by auto
      moreover have "walk_go get no_subtree no_remember visit (WChildren prev (plink H t # map (plink H) us) c) w =
          walk_go get no_subtree no_remember visit (WChildren (Some (pmax t)) (map (plink H) us) (c + pcount t)) w1"
        by (rule walk_child_step) (use wf(3) t Cons.prems(3) w1(1) in \<open>auto split: option.splits\<close>)
      ultimately show ?case using w1(4) by (simp add: pcount_PNode_Cons add.assoc Un_assoc)
    qed
    have "sorted_wrt (<) (map pmax ts)" using pkeys_sorted[OF v(1)] by simp
    then obtain w1 where w1: "walk_go get no_subtree no_remember visit (WChildren None (map (plink H) ts) 0) w = Some (Inr (pcount ?u, w1))"
        "wtrack w1" "seen_inv T (wseen w1)" "fst ` set (wseen w1) = fst ` set (wseen w) \<union> (\<Union>t \<in> set ts. proot H ` psubtrees t)"
      using loop[of ts None w 0] PNode.prems(2,3) by auto
    have step: "walk_go get no_subtree no_remember visit (WNode (proot H ?u)) w =
        Some (walk_finish no_remember visit (proot H ?u) (pnode H ?u) (pcount ?u) w1)"
      using readNode_pstored[OF v] seen False wf w1(1)
      by (subst walk_go.simps) (simp add: pnode_PNode resolve_no_cache del: pnode.simps)
    have "proot H ` psubtrees ?u - {proot H ?u} \<subseteq> fst ` set (wseen w1)" using w1(4) by auto
    note put = seen_put_inv[OF w1(3) PNode.prems(1) this assms(1,2)]
    show ?thesis
      unfolding step fin[OF w1(2)] using put w1(2,4) by auto
  qed
qed
qed

text \<open>\<open>Reachable\<close> lists the names of exactly the nodes of the tree, in order and once.\<close>

lemma Reachable_pstored:
  assumes "pvalid t" "pstored get H t"
  shows "Reachable get (proot H t) = Some (Inr (sorted_list_of_set (proot H ` psubtrees t)))"
proof -
  let ?w = "\<lparr>wtrack = True, wseen = [], wcache = (), wacc = ()\<rparr>"
  have inv0: "seen_inv t (wseen ?w)" by (simp add: seen_inv_def)
  obtain w' where w': "walk_go get no_subtree no_remember (\<lambda>n a. if nlevel n = 0 then Inr a else Inr a) (WNode (proot H t)) ?w = Some (Inr (pcount t, w'))"
      "seen_inv t (wseen w')" "fst ` set (wseen w') = proot H ` psubtrees t"
    using walk_seen[OF assms, of "\<lambda>n a. if nlevel n = 0 then Inr a else Inr a" t ?w] inv0 by auto
  have "sort (map fst (wseen w')) = sorted_list_of_set (proot H ` psubtrees t)"
  proof -
    have "distinct (map fst (wseen w'))" using w'(2) by (simp add: seen_inv_def)
    then have "sort (map fst (wseen w')) = sorted_list_of_set (set (map fst (wseen w')))"
      by (simp add: sorted_list_of_set_sort_remdups distinct_remdups_id del: set_map)
    then show ?thesis using w'(3) by simp
  qed
  then show ?thesis
    using w'(1) by (simp add: Reachable_def Validate_def walk_def fromCache_def no_subtree_def Let_def)
qed


lemma collect_finish:
  fixes w :: "('c, entry list) walker"
  assumes "\<not> wtrack w"
  shows "walk_finish no_remember collect_visit h n c w = Inr (c, w\<lparr>wacc := (if nlevel n = 0 then wacc w @ nentries n else wacc w)\<rparr>)"
  using assms by (cases w) (simp add: walk_finish_def collect_visit_def no_remember_def)

lemma walk_entries:
  fixes w :: "('c, entry list) walker"
  assumes "pvalid u" "pstored get H u" "\<not> wtrack w"
  shows "walk_go get no_subtree no_remember collect_visit (WNode (proot H u)) w =
    Some (Inr (pcount u, w\<lparr>wacc := wacc w @ pentries u\<rparr>))"
  using assms
proof (induction u arbitrary: w)
  case (PLeaf es)
  have "walk_go get no_subtree no_remember collect_visit (WNode (proot H (PLeaf es))) w =
      Some (walk_finish no_remember collect_visit (proot H (PLeaf es)) (pnode H (PLeaf es)) (pcount (PLeaf es)) w)"
    by (intro walk_seen_leaf[OF PLeaf.prems(1,2)]) (simp add: PLeaf.prems(3))
  then show ?case using collect_finish[OF PLeaf.prems(3)] by simp
next
  case (PNode l ts)
  let ?u = "PNode l ts"
  have wf: "l \<noteq> 0" "ts \<noteq> []" "\<forall>t \<in> set ts. pwf t" using PNode.prems(1) by (auto simp: pvalid_def)
  have loop: "walk_go get no_subtree no_remember collect_visit (WChildren prev (map (plink H) us) c) w =
      Some (Inr (c + pcount (PNode l us), w\<lparr>wacc := wacc w @ concat (map pentries us)\<rparr>))"
    if "set us \<subseteq> set ts" "sorted_wrt (<) (map pmax us)" "case prev of None \<Rightarrow> True | Some k \<Rightarrow> \<forall>t \<in> set us. k < pmax t" "\<not> wtrack w"
    for us prev c and w :: "('c, entry list) walker"
    using that
  proof (induction us arbitrary: prev c w)
    case Nil
    then show ?case by (simp add: walk_children_end pcount_def)
  next
    case (Cons t us)
    let ?w = "w\<lparr>wacc := wacc w @ pentries t\<rparr>"
    have t: "t \<in> set ts" using Cons.prems(1) by simp
    have "walk_go get no_subtree no_remember collect_visit (WNode (proot H t)) w = Some (Inr (pcount t, ?w))"
      using PNode.IH[OF t] pvalid_child(1)[OF PNode.prems(1) t] pstored_child[OF PNode.prems(2) t] Cons.prems(4) by blast
    then have "walk_go get no_subtree no_remember collect_visit (WChildren prev (plink H t # map (plink H) us) c) w =
        walk_go get no_subtree no_remember collect_visit (WChildren (Some (pmax t)) (map (plink H) us) (c + pcount t)) ?w"
      using wf(3) t Cons.prems(3) by (intro walk_child_step) (auto split: option.splits)
    then show ?case
      using Cons.IH[of "Some (pmax t)" ?w "c + pcount t"] Cons.prems by (simp add: pcount_PNode_Cons add.assoc)
  qed
  have "sorted_wrt (<) (map pmax ts)" using pkeys_sorted[OF PNode.prems(1)] by simp
  then have kids: "walk_go get no_subtree no_remember collect_visit (WChildren None (map (plink H) ts) 0) w =
      Some (Inr (pcount ?u, w\<lparr>wacc := wacc w @ pentries ?u\<rparr>))"
    using loop[of ts None w 0] PNode.prems(3) by simp
  have "walk_go get no_subtree no_remember collect_visit (WNode (proot H ?u)) w =
      Some (walk_finish no_remember collect_visit (proot H ?u) (pnode H ?u) (pcount ?u) (w\<lparr>wacc := wacc w @ pentries ?u\<rparr>))"
    using readNode_pstored[OF PNode.prems(1,2)] wf kids PNode.prems(3)
    by (subst walk_go.simps) (simp add: pnode_PNode resolve_no_cache del: pnode.simps)
  then show ?case
    using collect_finish[of "w\<lparr>wacc := wacc w @ pentries ?u\<rparr>"] PNode.prems(3) wf(1) by simp
qed

lemma tree_Entries_pstored:
  assumes "pvalid t" "pstored get H t"
  shows "tree_Entries get (proot H t) = Some (Inr (pentries t))"
  using walk_entries[OF assms, of "\<lparr>wtrack = False, wseen = [], wcache = (), wacc = []\<rparr>"]
  by (simp add: tree_Entries_def walk_def)

end

section \<open>A digest for examples\<close>

text \<open>The padded data: 32 bytes that can be computed fast.\<close>

definition pad32 :: "bytes \<Rightarrow> bytes" where
  "pad32 d = take 32 (d @ replicate 32 0)"

interpretation pad: digest32 pad32
  by unfold_locales (simp add: pad32_def)

end
