(* ===== verification/Tree_Nodes.thy ===== *)
theory Tree_Nodes
  imports Prolly_Validate
begin

text \<open>
  The nodes below a root, as an inductive set over a store, whatever the store holds. A successful
  \<open>Reachable\<close> lists exactly these nodes; a store that only grows keeps them.
\<close>

inductive node_of :: "(hash \<Rightarrow> error + bytes) \<Rightarrow> hash \<Rightarrow> hash \<Rightarrow> bool" for get rt where
  root [intro]: "node_of get rt rt"
| child [intro]: "node_of get rt h \<Longrightarrow> readNode get h = Inr n \<Longrightarrow> c \<in> set (nchildren n) \<Longrightarrow> node_of get rt (lhash c)"

abbreviation nodes_of :: "(hash \<Rightarrow> error + bytes) \<Rightarrow> hash \<Rightarrow> hash set" where
  "nodes_of get rt \<equiv> {h. node_of get rt h}"

text \<open>A set of nodes that can be read, with their children.\<close>

definition closed_nodes :: "(hash \<Rightarrow> error + bytes) \<Rightarrow> hash set \<Rightarrow> bool" where
  "closed_nodes get S \<longleftrightarrow> (\<forall>h \<in> S. \<exists>n. readNode get h = Inr n \<and> lhash ` set (nchildren n) \<subseteq> S)"

lemma node_of_closed:
  assumes "node_of get rt h" "closed_nodes get S" "rt \<in> S"
  shows "h \<in> S"
  using assms
proof (induction rule: node_of.induct)
  case (child h n c)
  then have "h \<in> S" by simp
  then show ?case using child.hyps(2,3) child.prems(1) unfolding closed_nodes_def by fastforce
qed

section \<open>Growing stores\<close>

lemma readNode_grows:
  assumes "readNode get h = Inr n" "\<And>h d. get h = Inr d \<Longrightarrow> get' h = Inr d"
  shows "readNode get' h = Inr n"
proof (cases "get h")
  case (Inr d)
  then show ?thesis using assms(1) assms(2)[OF Inr] by (simp add: readNode_def)
qed (use assms(1) in \<open>simp add: readNode_def\<close>)

lemma nodes_of_grows:
  assumes "closed_nodes get (nodes_of get rt)" "\<And>h d. get h = Inr d \<Longrightarrow> get' h = Inr d"
  shows "nodes_of get' rt = nodes_of get rt" "closed_nodes get' (nodes_of get rt)"
proof -
  show closed: "closed_nodes get' (nodes_of get rt)"
    unfolding closed_nodes_def
  proof
    fix h assume "h \<in> nodes_of get rt"
    then obtain n where "readNode get h = Inr n" "lhash ` set (nchildren n) \<subseteq> nodes_of get rt"
      using assms(1) unfolding closed_nodes_def by blast
    then show "\<exists>n. readNode get' h = Inr n \<and> lhash ` set (nchildren n) \<subseteq> nodes_of get rt"
      using readNode_grows[of get h n get'] assms(2) by auto
  qed
  have "node_of get' rt h" if "node_of get rt h" for h
    using that
  proof (induction rule: node_of.induct)
    case (child h n c)
    then show ?case using readNode_grows[of get h n get'] assms(2) by blast
  qed blast
  moreover have "h \<in> nodes_of get rt" if "node_of get' rt h" for h using node_of_closed[OF that closed] by blast
  ultimately show "nodes_of get' rt = nodes_of get rt" by blast
qed

section \<open>The walk\<close>

definition seen_nodes :: "(hash \<Rightarrow> error + bytes) \<Rightarrow> hash \<Rightarrow> ('c, 'v) walker \<Rightarrow> bool" where
  "seen_nodes get rt w \<longleftrightarrow> wtrack w \<and> closed_nodes get (fst ` set (wseen w)) \<and> fst ` set (wseen w) \<subseteq> nodes_of get rt"

fun target_hashes :: "walk_target \<Rightarrow> hash set" where
  "target_hashes (WNode h) = {h}"
| "target_hashes (WChildren prev children count) = lhash ` set children"

definition walked :: "(hash \<Rightarrow> error + bytes) \<Rightarrow> hash \<Rightarrow> walk_target \<Rightarrow> ('c, 'v) walker \<Rightarrow> ('c, 'v) walker \<Rightarrow> bool" where
  "walked get rt target w w' \<longleftrightarrow>
     seen_nodes get rt w' \<and> fst ` set (wseen w) \<union> target_hashes target \<subseteq> fst ` set (wseen w')"

lemma seen_put_keys: "fst ` set (seen_put h c seen) = insert h (fst ` set seen)"
  by (auto simp: seen_put_def image_iff)

lemma walk_finish_walked:
  assumes "walk_finish remember visit h n c v = Inr (c', w')" "seen_nodes get rt v" "fst ` set (wseen w) \<subseteq> fst ` set (wseen v)"
    and "readNode get h = Inr n" "lhash ` set (nchildren n) \<subseteq> fst ` set (wseen v)" "node_of get rt h"
  shows "walked get rt (WNode h) w w'"
proof -
  obtain acc where "w' = v\<lparr>wacc := acc, wseen := seen_put h c (wseen v), wcache := wcache w'\<rparr>"
    using assms(1,2) by (auto simp: walk_finish_def seen_nodes_def split: sum.splits)
  then have w': "wtrack w' = wtrack v" "fst ` set (wseen w') = insert h (fst ` set (wseen v))"
    using seen_put_keys[of h c "wseen v"] by (metis walker.select_convs(1,2) walker.surjective walker.update_convs(2,3,4))+
  have "closed_nodes get (insert h (fst ` set (wseen v)))"
    unfolding closed_nodes_def
  proof
    fix x assume x: "x \<in> insert h (fst ` set (wseen v))"
    show "\<exists>n. readNode get x = Inr n \<and> lhash ` set (nchildren n) \<subseteq> insert h (fst ` set (wseen v))"
    proof (cases "x = h")
      case True
      then show ?thesis using assms(4,5) by (intro exI[of _ n]) auto
    next
      case False
      then have "x \<in> fst ` set (wseen v)" using x by blast
      moreover have "closed_nodes get (fst ` set (wseen v))" using assms(2) by (simp add: seen_nodes_def)
      ultimately obtain n where "readNode get x = Inr n" "lhash ` set (nchildren n) \<subseteq> fst ` set (wseen v)"
        unfolding closed_nodes_def by (elim bspec[elim_format]) auto
      then show ?thesis by (intro exI[of _ n]) auto
    qed
  qed
  then show ?thesis using assms(2,3,6) w' by (auto simp: walked_def seen_nodes_def)
qed

lemma walk_go_walked:
  assumes "walk_go get no_subtree remember visit target w = Some (Inr (c, w'))" "seen_nodes get rt w" "target_hashes target \<subseteq> nodes_of get rt"
  shows "walked get rt target w w'"
proof -
  have "sub = no_subtree \<longrightarrow> seen_nodes get rt w \<longrightarrow> target_hashes target \<subseteq> nodes_of get rt \<longrightarrow> (\<forall>c w'. r = Inr (c, w') \<longrightarrow> walked get rt target w w')"
    if "walk_go get sub remember visit target w = Some r" for get sub and remember :: "'c \<Rightarrow> hash \<Rightarrow> validated_node \<Rightarrow> 'c"
      and visit :: "node \<Rightarrow> 'v \<Rightarrow> error + 'v" and target w r
    using that
  proof (induction rule: walk_go.raw_induct[rotated, consumes 1])
    case (1 f get sub remember visit target w r)
    show ?case
    proof (intro impI allI)
      fix c w'
      assume sub [simp]: "sub = no_subtree" and w: "seen_nodes get rt w" and target: "target_hashes target \<subseteq> nodes_of get rt" and r: "r = Inr (c, w')"
      have IH: "walked get rt t v w''"
        if "f get no_subtree remember visit t v = Some (Inr (c, w''))" "seen_nodes get rt v" "target_hashes t \<subseteq> nodes_of get rt" for t v c w''
        using 1(1)[OF that(1)] that(2,3) by simp
      show "walked get rt target w w'"
      proof (cases target)
        case (WNode h)
        have h: "node_of get rt h" using target WNode by simp
        show ?thesis
        proof (cases "map_of (wseen w) h")
          case (Some x)
          then have "w' = w" using 1(2) r WNode w by (simp add: seen_nodes_def)
          moreover have "h \<in> fst ` set (wseen w)" using map_of_SomeD[OF Some] by force
          ultimately show ?thesis using w WNode by (simp add: walked_def)
        next
          case None
          then obtain n where n: "readNode get h = Inr n" using 1(2) r WNode by (auto split: sum.splits if_splits)
          show ?thesis
          proof (cases "nlevel n = 0")
            case True
            then have "walk_finish remember visit h n (of_nat (length (nentries n))) w = Inr (c, w')" "nchildren n = []"
              using 1(2) r WNode None n by (auto split: if_splits)
            then show ?thesis using walk_finish_walked[OF _ w _ n _ h] WNode by auto
          next
            case False
            let ?kids = "f get no_subtree remember visit (WChildren None (nchildren n) 0) w"
            obtain k v where v: "?kids = Some (Inr (k, v))" "walk_finish remember visit h n k v = Inr (c, w')"
              using 1(2) r WNode None n False
              by (cases ?kids) (auto simp: resolve_no_cache split: if_splits sum.splits)
            have "walked get rt (WChildren None (nchildren n) 0) w v" by (rule IH[OF v(1) w]) (use h n in auto)
            then show ?thesis using walk_finish_walked[OF v(2) _ _ n _ h, of w] WNode by (simp add: walked_def)
          qed
        qed
      next
        case (WChildren prev children count)
        show ?thesis
        proof (cases children)
          case Nil
          then show ?thesis using 1(2) r WChildren w by (simp add: walked_def)
        next
          case (Cons child rest)
          let ?node = "f get no_subtree remember visit (WNode (lhash child)) w"
          obtain k v where v: "?node = Some (Inr (k, v))"
              "f get no_subtree remember visit (WChildren (Some (lmax child)) rest (count + k)) v = Some (Inr (c, w'))"
            using 1(2) r WChildren Cons by (cases ?node) (auto split: if_splits sum.splits)
          have "walked get rt (WNode (lhash child)) w v" by (rule IH[OF v(1) w]) (use target WChildren Cons in auto)
          moreover from this have "walked get rt (WChildren (Some (lmax child)) rest (count + k)) v w'"
            by (intro IH[OF v(2)]) (use target WChildren Cons in \<open>auto simp: walked_def\<close>)
          ultimately show ?thesis using WChildren Cons by (auto simp: walked_def)
        qed
      qed
    qed
  qed
  then show ?thesis using assms by blast
qed

text \<open>\<open>Reachable\<close> lists the nodes below its root, and all of them can be read.\<close>

lemma Reachable_nodes:
  assumes "Reachable get rt = Some (Inr hs)"
  shows "set hs = nodes_of get rt" "closed_nodes get (nodes_of get rt)"
proof -
  let ?w = "\<lparr>wtrack = True, wseen = [], wcache = (), wacc = ()\<rparr>"
  obtain c w' where w': "walk_go get no_subtree no_remember (\<lambda>n a. if nlevel n = 0 then Inr a else Inr a) (WNode rt) ?w = Some (Inr (c, w'))"
      "hs = sort (map fst (wseen w'))"
    using assms
    by (cases "walk_go get no_subtree no_remember (\<lambda>n a. if nlevel n = 0 then Inr a else Inr a) (WNode rt) ?w")
      (auto simp: Reachable_def Validate_def fromCache_def no_subtree_def[of "()"] walk_def Let_def split: sum.splits)
  have "walked get rt (WNode rt) ?w w'"
    by (rule walk_go_walked[OF w'(1)]) (auto simp: seen_nodes_def closed_nodes_def)
  then have s: "seen_nodes get rt w'" "rt \<in> set hs" using w'(2) by (auto simp: walked_def)
  then have "closed_nodes get (set hs)" "set hs \<subseteq> nodes_of get rt" using w'(2) by (auto simp: seen_nodes_def)
  moreover from this have "nodes_of get rt \<subseteq> set hs" using node_of_closed s(2) by blast
  ultimately show eq: "set hs = nodes_of get rt" by blast
  show "closed_nodes get (nodes_of get rt)" using \<open>closed_nodes get (set hs)\<close> unfolding eq .
qed

lemma readNode_read: "readNode get h = Inr n \<Longrightarrow> \<not> isl (get h)"
  by (auto simp: readNode_def split: sum.splits)

lemma closed_nodes_read: "closed_nodes get S \<Longrightarrow> h \<in> S \<Longrightarrow> \<not> isl (get h)"
  unfolding closed_nodes_def using readNode_read by blast

text \<open>A walk that succeeds does the same in a store that has grown.\<close>

lemma walk_go_grows:
  assumes "walk_go get sub remember visit target w = Some (Inr r)" "\<And>h d. get h = Inr d \<Longrightarrow> get' h = Inr d"
  shows "walk_go get' sub remember visit target w = Some (Inr r)"
proof -
  have "(\<forall>h d. get h = Inr d \<longrightarrow> get' h = Inr d) \<longrightarrow> (\<forall>v. r = Inr v \<longrightarrow> walk_go get' sub remember visit target w = Some r)"
    if "walk_go get sub remember visit target w = Some r" for get sub and remember :: "'c \<Rightarrow> hash \<Rightarrow> validated_node \<Rightarrow> 'c"
      and visit :: "node \<Rightarrow> 'v \<Rightarrow> error + 'v" and target w r
    using that
  proof (induction rule: walk_go.raw_induct[rotated, consumes 1])
    case (1 f get sub remember visit target w r)
    show ?case
    proof (intro impI allI)
      fix v assume grow: "\<forall>h d. get h = Inr d \<longrightarrow> get' h = Inr d" and r: "r = Inr v"
      have IH: "walk_go get' sub remember visit t u = Some (Inr x)" if "f get sub remember visit t u = Some (Inr x)" for t u x
        using 1(1)[OF that] grow by simp
      show "walk_go get' sub remember visit target w = Some r"
      proof (cases target)
        case (WNode h)
        show ?thesis
        proof (cases "if wtrack w then map_of (wseen w) h else None")
          case (Some x)
          then show ?thesis using 1(2) WNode by (subst walk_go.simps) simp
        next
          case None
          then obtain n where n: "readNode get h = Inr n" using 1(2) r WNode by (auto split: sum.splits if_splits)
          have n': "readNode get' h = Inr n" by (rule readNode_grows[OF n]) (use grow in blast)
          show ?thesis
          proof (cases "nlevel n = 0")
            case True
            then show ?thesis using 1(2) WNode None n n' by (subst walk_go.simps) simp
          next
            case False
            then obtain w1 where w1: "resolve_cached sub (nchildren n) w = Inr w1" "\<not> (nentries n \<noteq> [] \<or> nchildren n = [])"
              using 1(2) r WNode None n by (auto split: sum.splits if_splits)
            let ?kids = "f get sub remember visit (WChildren None (nchildren n) 0) w1"
            obtain k where k: "?kids = Some (Inr k)" "walk_finish remember visit h n (fst k) (snd k) = r"
              using 1(2) r WNode None n False w1 by (cases ?kids) (auto split: sum.splits)
            show ?thesis using IH[OF k(1)] k(2) WNode None n' False w1 by (subst walk_go.simps) simp
          qed
        qed
      next
        case (WChildren prev children count)
        show ?thesis
        proof (cases children)
          case Nil
          then show ?thesis using 1(2) WChildren by (subst walk_go.simps) simp
        next
          case (Cons child rest)
          let ?node = "f get sub remember visit (WNode (lhash child)) w"
          obtain k where k: "?node = Some (Inr k)"
              "\<not> (\<not> hash_Valid (lhash child) \<or> (case prev of None \<Rightarrow> False | Some k \<Rightarrow> k \<ge> lmax child))" "fst k = lcount child"
              "f get sub remember visit (WChildren (Some (lmax child)) rest (count + fst k)) (snd k) = Some r"
            using 1(2) r WChildren Cons by (cases ?node) (auto split: if_splits sum.splits)
          show ?thesis
            using IH[OF k(1)] IH[of "WChildren (Some (lmax child)) rest (count + fst k)" "snd k" v] k r WChildren Cons
            by (subst walk_go.simps) simp
        qed
      qed
    qed
  qed
  then show ?thesis using assms by blast
qed

lemma tree_Entries_grows:
  assumes "tree_Entries get rt = Some (Inr es)" "\<And>h d. get h = Inr d \<Longrightarrow> get' h = Inr d"
  shows "tree_Entries get' rt = Some (Inr es)"
proof -
  let ?w = "\<lparr>wtrack = False, wseen = [], wcache = (), wacc = []\<rparr>"
  obtain r where r: "walk_go get no_subtree no_remember collect_visit (WNode rt) ?w = Some (Inr r)" "es = wacc (snd r)"
    using assms(1)
    by (cases "walk_go get no_subtree no_remember collect_visit (WNode rt) ?w") (auto simp: tree_Entries_def walk_def split: sum.splits)
  show ?thesis using walk_go_grows[OF r(1) assms(2)] r(2) by (cases r) (simp add: tree_Entries_def walk_def)
qed

end
