(* ===== verification/Prolly_Forged.thy ===== *)
theory Prolly_Forged
  imports Tree_Nodes
begin

text \<open>
  Trees that pass validation although their links mislead. \<open>walk\<close> compares the maximal keys of
  neighbouring links with each other, never with the keys below them: under the children of any stored
  tree a root with any ascending maximal keys passes, while \<open>Get\<close> follows the keys of the links.
\<close>

definition forged_links :: "(bytes \<Rightarrow> bytes) \<Rightarrow> ptree list \<Rightarrow> bytes list \<Rightarrow> link list" where
  "forged_links H ts ms = map (\<lambda>(t, m). (plink H t)\<lparr>lmax := m\<rparr>) (zip ts ms)"

definition forged_node :: "(bytes \<Rightarrow> bytes) \<Rightarrow> byte \<Rightarrow> ptree list \<Rightarrow> bytes list \<Rightarrow> node" where
  "forged_node H l ts ms = \<lparr>nlevel = l, nentries = [], nchildren = forged_links H ts ms\<rparr>"

definition forged_data :: "(bytes \<Rightarrow> bytes) \<Rightarrow> byte \<Rightarrow> ptree list \<Rightarrow> bytes list \<Rightarrow> bytes" where
  "forged_data H l ts ms = projr (encodeNode (forged_node H l ts ms))"

lemma forged_links_simps [simp]:
  "forged_links H [] ms = []" "forged_links H (t # ts) (m # ms) = (plink H t)\<lparr>lmax := m\<rparr> # forged_links H ts ms"
  "length ms = length ts \<Longrightarrow> length (forged_links H ts ms) = length ts"
  "length ms = length ts \<Longrightarrow> map lmax (forged_links H ts ms) = ms"
  by (simp_all add: forged_links_def comp_def case_prod_unfold)

context digest32
begin

text \<open>One step of the loop over the children, whatever maximal key the link claims.\<close>

lemma walk_forged_step:
  assumes "case prev of None \<Rightarrow> True | Some k \<Rightarrow> k < m"
    and "walk_go get sub rem visit (WNode (proot H t)) w = Some (Inr (pcount t, w'))"
  shows "walk_go get sub rem visit (WChildren prev ((plink H t)\<lparr>lmax := m\<rparr> # rest) c) w =
    walk_go get sub rem visit (WChildren (Some m) rest (c + pcount t)) w'"
proof -
  have "hash_Valid (proot H t)" by (simp add: proot_def hash_Valid_Sum)
  then show ?thesis
    using assms by (subst walk_go.simps) (auto split: option.splits)
qed

lemma forged_links_ok:
  assumes "pvalid (PNode l ts)" "length ms = length ts" "\<forall>m \<in> set ms. length m < 2 ^ 64"
  shows "list_all link_ok (forged_links H ts ms)"
proof -
  have "link_ok (plink H t)" if "t \<in> set ts" for t using links_ok_children[OF assms(1)] that by (auto simp: list_all_iff)
  then show ?thesis using assms(3) by (auto simp: list_all_iff forged_links_def link_ok_def dest: set_zip_leftD set_zip_rightD)
qed

lemma forged_node_read:
  assumes "pvalid (PNode l ts)" "length ms = length ts" "\<forall>m \<in> set ms. length m < 2 ^ 64"
    and "get (storage_Sum H (forged_data H l ts ms)) = Inr (forged_data H l ts ms)"
  shows "readNode get (storage_Sum H (forged_data H l ts ms)) = Inr (forged_node H l ts ms)"
    and "forged_data H l ts ms = [nodeMagic, nodeCodecVersion, l] @ append_uvarint (of_nat (length ts)) @ concat (map enc_link (forged_links H ts ms))"
proof -
  note ok = forged_links_ok[OF assms(1-3)]
  have l: "l \<noteq> 0" using assms(1) by (auto simp: pvalid_def)
  have "length ts < 2 ^ 64" using length_pitems[OF assms(1)] by simp
  then have "node_ok (forged_node H l ts ms)" using ok l assms(2) by (simp add: node_ok_def forged_node_def)
  then obtain d where d: "encodeNode (forged_node H l ts ms) = Inr d" "\<And>h. decodeNode h d = Inr (forged_node H l ts ms)"
    using decodeNode_encodeNode by (metis Inr_inject)
  then show "readNode get (storage_Sum H (forged_data H l ts ms)) = Inr (forged_node H l ts ms)"
    using assms(4) by (simp add: readNode_def forged_data_def)
  show "forged_data H l ts ms = [nodeMagic, nodeCodecVersion, l] @ append_uvarint (of_nat (length ts)) @ concat (map enc_link (forged_links H ts ms))"
    using append_links_concat[OF ok] l assms(2) by (simp add: forged_data_def forged_node_def encodeNode_def Let_def)
qed

lemma walk_forged_children:
  fixes w :: "('c, 'v) walker"
  assumes T: "pvalid T" "pstored get H T" and visit: "\<And>n a. visit n a = Inr a"
    and "set ts \<subseteq> psubtrees T" "length ms = length ts" "sorted_wrt (<) ms" "case prev of None \<Rightarrow> True | Some k \<Rightarrow> \<forall>m \<in> set ms. k < m"
    and "seen_inv T (wseen w)" "wtrack w"
  shows "\<exists>w'. walk_go get no_subtree no_remember visit (WChildren prev (forged_links H ts ms) c) w = Some (Inr (c + pcount (PNode l ts), w'))
    \<and> wtrack w' \<and> seen_inv T (wseen w') \<and> fst ` set (wseen w') = fst ` set (wseen w) \<union> (\<Union>t \<in> set ts. proot H ` psubtrees t)"
  using assms(4-9)
proof (induction ts arbitrary: ms prev c w)
  case Nil
  then show ?case by (simp add: walk_children_end pcount_def)
next
  case (Cons t ts)
  obtain m ms' where ms: "ms = m # ms'" using Cons.prems(2) by (cases ms) auto
  obtain w1 where w1: "walk_go get no_subtree no_remember visit (WNode (proot H t)) w = Some (Inr (pcount t, w1))"
      "wtrack w1" "seen_inv T (wseen w1)" "fst ` set (wseen w1) = fst ` set (wseen w) \<union> proot H ` psubtrees t"
    using walk_seen[OF T, of visit t w] visit Cons.prems(1,5,6) by auto
  obtain w2 where "walk_go get no_subtree no_remember visit (WChildren (Some m) (forged_links H ts ms') (c + pcount t)) w1 =
        Some (Inr ((c + pcount t) + pcount (PNode l ts), w2))"
      "wtrack w2" "seen_inv T (wseen w2)" "fst ` set (wseen w2) = fst ` set (wseen w1) \<union> (\<Union>t \<in> set ts. proot H ` psubtrees t)"
    using Cons.IH[of ms' "Some m" w1 "c + pcount t"] Cons.prems ms w1(2,3) by auto
  moreover have "walk_go get no_subtree no_remember visit (WChildren prev (forged_links H (t # ts) ms) c) w =
      walk_go get no_subtree no_remember visit (WChildren (Some m) (forged_links H ts ms') (c + pcount t)) w1"
    unfolding ms forged_links_simps by (rule walk_forged_step[OF _ w1(1)]) (use Cons.prems(4) ms in \<open>auto split: option.splits\<close>)
  ultimately show ?case using w1(4) by (simp add: pcount_PNode_Cons add.assoc Un_assoc)
qed

lemma walk_forged_entries:
  fixes w :: "('c, entry list) walker"
  assumes "\<forall>t \<in> set ts. pvalid t \<and> pstored get H t" "length ms = length ts" "sorted_wrt (<) ms" "case prev of None \<Rightarrow> True | Some k \<Rightarrow> \<forall>m \<in> set ms. k < m"
    and "\<not> wtrack w"
  shows "walk_go get no_subtree no_remember collect_visit (WChildren prev (forged_links H ts ms) c) w =
    Some (Inr (c + pcount (PNode l ts), w\<lparr>wacc := wacc w @ concat (map pentries ts)\<rparr>))"
  using assms
proof (induction ts arbitrary: ms prev c w)
  case Nil
  then show ?case by (simp add: walk_children_end pcount_def)
next
  case (Cons t ts)
  obtain m ms' where ms: "ms = m # ms'" using Cons.prems(2) by (cases ms) auto
  let ?w = "w\<lparr>wacc := wacc w @ pentries t\<rparr>"
  have "walk_go get no_subtree no_remember collect_visit (WNode (proot H t)) w = Some (Inr (pcount t, ?w))"
    using walk_entries Cons.prems(1,5) by auto
  then have "walk_go get no_subtree no_remember collect_visit (WChildren prev (forged_links H (t # ts) ms) c) w =
      walk_go get no_subtree no_remember collect_visit (WChildren (Some m) (forged_links H ts ms') (c + pcount t)) ?w"
    unfolding ms forged_links_simps by (intro walk_forged_step) (use Cons.prems(4) ms in \<open>auto split: option.splits\<close>)
  then show ?case
    using Cons.IH[of ms' "Some m" ?w "c + pcount t"] Cons.prems ms by (simp add: pcount_PNode_Cons add.assoc)
qed

text \<open>The walk accepts the forged root, as a node without a cache.\<close>

lemma Reachable_forged:
  assumes T: "pvalid (PNode l ts)" "pstored get H (PNode l ts)" and ms: "length ms = length ts" "sorted_wrt (<) ms" "\<forall>m \<in> set ms. length m < 2 ^ 64"
    and d: "get (storage_Sum H (forged_data H l ts ms)) = Inr (forged_data H l ts ms)"
  shows "Reachable get (storage_Sum H (forged_data H l ts ms)) =
      Some (Inr (sorted_list_of_set (insert (storage_Sum H (forged_data H l ts ms)) (\<Union>t \<in> set ts. proot H ` psubtrees t))))"
    and "tree_Entries get (storage_Sum H (forged_data H l ts ms)) = Some (Inr (pentries (PNode l ts)))"
proof -
  let ?h = "storage_Sum H (forged_data H l ts ms)" and ?n = "forged_node H l ts ms"
  let ?w = "\<lparr>wtrack = True, wseen = [], wcache = (), wacc = ()\<rparr>" and ?e = "\<lparr>wtrack = False, wseen = [], wcache = (), wacc = []\<rparr>"
  let ?visit = "\<lambda>(n :: node) (a :: unit). if nlevel n = 0 then Inr a else Inr a"
  note read = forged_node_read(1)[of l ts ms get, OF T(1) ms(1,3) d]
  have node: "nlevel ?n \<noteq> 0" "nentries ?n = []" "nchildren ?n = forged_links H ts ms" "nchildren ?n \<noteq> []"
    using T(1) ms(1) by (auto simp: forged_node_def pvalid_def forged_links_def)
  have sub: "set ts \<subseteq> psubtrees (PNode l ts)" by (auto intro!: bexI)
  have inv0: "seen_inv (PNode l ts) (wseen ?w)" by (simp add: seen_inv_def)
  obtain w1 where w1: "walk_go get no_subtree no_remember ?visit (WChildren None (forged_links H ts ms) 0) ?w = Some (Inr (pcount (PNode l ts), w1))"
      "wtrack w1" "seen_inv (PNode l ts) (wseen w1)" "fst ` set (wseen w1) = (\<Union>t \<in> set ts. proot H ` psubtrees t)"
    using walk_forged_children[OF T, of ?visit ts ms None ?w 0 l] sub ms inv0 by auto
  have step: "walk_go get no_subtree no_remember v (WNode ?h) w =
      Option.bind (walk_go get no_subtree no_remember v (WChildren None (forged_links H ts ms) 0) w)
        (\<lambda>r. case r of Inl e \<Rightarrow> Some (Inl e) | Inr cw \<Rightarrow> Some (walk_finish no_remember v ?h ?n (fst cw) (snd cw)))"
    if "wseen w = []" for v and w :: "('c, 'v) walker"
    using read node that by (subst walk_go.simps) (simp add: resolve_no_cache)
  let ?s = "seen_put ?h (pcount (PNode l ts)) (wseen w1)"
  have "walk_finish no_remember ?visit ?h ?n (pcount (PNode l ts)) w1 = Inr (pcount (PNode l ts), w1\<lparr>wseen := ?s\<rparr>)"
    using w1(2) by (cases w1) (simp add: walk_finish_def no_remember_def)
  then have reach: "Reachable get ?h = Some (Inr (sort (map fst ?s)))"
    using w1(1) step[of ?w ?visit] by (simp add: Reachable_def Validate_def walk_def fromCache_def no_subtree_def Let_def)
  have "distinct (map fst ?s)"
    using w1(3) by (auto simp: seen_inv_def seen_put_def distinct_map_filter)
  then have "sort (map fst ?s) = sorted_list_of_set (set (map fst ?s))"
    by (simp add: sorted_list_of_set_sort_remdups distinct_remdups_id del: set_map)
  moreover have "set (map fst ?s) = insert ?h (\<Union>t \<in> set ts. proot H ` psubtrees t)"
    using w1(4) seen_put_keys[of ?h "pcount (PNode l ts)" "wseen w1"] by simp
  ultimately show "Reachable get ?h = Some (Inr (sorted_list_of_set (insert ?h (\<Union>t \<in> set ts. proot H ` psubtrees t))))"
    unfolding reach by simp
  have "\<forall>t \<in> set ts. pvalid t \<and> pstored get H t" using pvalid_child(1)[OF T(1)] pstored_child[OF T(2)] by blast
  then have "walk_go get no_subtree no_remember collect_visit (WChildren None (forged_links H ts ms) 0) ?e =
      Some (Inr (pcount (PNode l ts), ?e\<lparr>wacc := pentries (PNode l ts)\<rparr>))"
    using walk_forged_entries[of ts get ms None ?e 0 l] ms by simp
  then show "tree_Entries get ?h = Some (Inr (pentries (PNode l ts)))"
    using step[of ?e collect_visit] node(1) by (simp add: tree_Entries_def walk_def collect_finish)
qed

text \<open>\<open>Get\<close> does not look below the forged root for a key beyond the claimed ones.\<close>

lemma tree_Get_forged:
  assumes T: "pvalid (PNode l ts)" and ms: "length ms = length ts" "sorted_wrt (<) ms" "\<forall>m \<in> set ms. length m < 2 ^ 64"
    and d: "get (storage_Sum H (forged_data H l ts ms)) = Inr (forged_data H l ts ms)" "length (forged_data H l ts ms) < 2 ^ 32"
    and "cache_ok get c" "\<forall>m \<in> set ms. m < key"
  shows "\<exists>c'. tree_Get pick get key (storage_Sum H (forged_data H l ts ms)) c = Some (Inl KeyNotFound, c')"
proof -
  let ?h = "storage_Sum H (forged_data H l ts ms)" and ?d = "forged_data H l ts ms"
  let ?items = "map enc_link (forged_links H ts ms)"
  let ?r = "\<lparr>rhash = ?h, rdata = ?d, rpos = 3 + length (append_uvarint (of_nat (length ts) :: uint64)), rlevel = l, rremaining = length ts\<rparr>"
  note ok = forged_links_ok[OF T ms(1,3)]
  note data = forged_node_read(2)[of l ts ms get, OF T ms(1,3) d(1)]
  have l: "l \<noteq> 0" using T by (auto simp: pvalid_def)
  have c: "unat (of_nat (length ts) :: uint64) = length ts" using length_pitems[OF T] by (simp add: unat_of_nat)
  have "2 * length ts \<le> length (concat ?items)"
    using append_links_length[OF append_links_concat[OF ok]] ms(1) by simp
  then have new: "newNodeReader ?h ?d = Inr ?r"
    using newNodeReader_encoded[of "of_nat (length ts)" "concat ?items" ?h l] c unfolding data by simp
  have rest: "rrest ?r = concat ?items" unfolding rrest_def by (simp add: data numeral_3_eq_3)
  have "rpos ?r \<le> length (rdata ?r)" by (simp add: data numeral_3_eq_3)
  then have offs: "item_offsets_loop ?r [] = Inr (map of_nat (item_starts (rpos ?r) ?items))"
    using item_offsets_loop_links[of ?r "forged_links H ts ms" "[]"] rest ok l ms(1) by simp
  have keys: "\<exists>b. ?items ! j = append_bytes (ms ! j) @ b \<and> length (ms ! j) < 2 ^ 64" if "j < length ?items" for j
    using that ms(1,3) by (simp add: forged_links_def enc_link_def)
  have items: "drop (rpos ?r) ?d = concat ?items" using rest by (simp add: rrest_def)
  have "length (takeWhile (\<lambda>k. k < key) ms) = length ?items" using assms(7,8) ms(1) by (simp add: takeWhile_eq_all_conv[THEN iffD2])
  then obtain c' where "reader_search pick c ?r key = (Inr (length ts, ?r), c')"
    using reader_search_correct[OF assms(7) d(1) new offs d(2) _ items _ _ keys, where key = key and pick = pick] ms(1,2) by (auto simp: strict_sorted_iff)
  then show ?thesis using new d(1) by (intro exI[of _ c']) (subst tree_Get.simps, simp add: openNode_def)
qed

end

end
