(* ===== verification/Sorted_Builder.thy ===== *)
theory Sorted_Builder
  imports Apply_Correct
begin

text \<open>
  \<open>SortedBuilder\<close> of \<open>common/prolly/tree.go\<close>: one open chunk per level, flushed as boundaries are
  met. The lemmas show that it builds the canonical tree, as \<open>Build\<close> does. \<open>addLink\<close> and
  \<open>flushLinks\<close> call each other; the loop is the partial function \<open>sb_addLink\<close>.
\<close>

section \<open>The operations\<close>

record sorted_builder =
  sbleaves :: "entry list"
  sblevels :: "link list list"
  sblastKey :: bytes
  sbhaveKey :: bool
  sbfinished :: bool

definition NewSortedBuilder :: "options \<Rightarrow> error + sorted_builder" where
  "NewSortedBuilder o1 =
     (case options_validate o1 of
        Inl e \<Rightarrow> Inl e
      | Inr _ \<Rightarrow> Inr \<lparr>sbleaves = [], sblevels = [], sblastKey = [], sbhaveKey = False, sbfinished = False\<rparr>)"

definition grow_levels :: "nat \<Rightarrow> link list list \<Rightarrow> link list list" where
  "grow_levels level levels = levels @ replicate (level + 1 - length levels) []"

partial_function (option) sb_addLink ::
  "('s \<Rightarrow> bytes \<Rightarrow> error + hash \<times> 's) \<Rightarrow> options \<Rightarrow> nat \<Rightarrow> link \<Rightarrow> link list list \<Rightarrow> 's
    \<Rightarrow> (error + link list list \<times> 's) option" where
  "sb_addLink put o1 level item levels s =
     (let levels1 = grow_levels level levels;
          links = levels1 ! level @ [item]
      in if shouldCut (length links) (linkBoundaryHash item) o1 then
           case writeNode put s \<lparr>nlevel = of_nat (level + 1), nentries = [], nchildren = links\<rparr> of
             Inl e \<Rightarrow> Some (Inl e)
           | Inr hs \<Rightarrow> sb_addLink put o1 (level + 1) (group_link links (fst hs)) (levels1[level := []]) (snd hs)
         else Some (Inr (levels1[level := links], s)))"

declare sb_addLink.simps [code]

definition sb_flushLinks ::
  "('s \<Rightarrow> bytes \<Rightarrow> error + hash \<times> 's) \<Rightarrow> options \<Rightarrow> nat \<Rightarrow> link list list \<Rightarrow> 's
    \<Rightarrow> (error + link list list \<times> 's) option" where
  "sb_flushLinks put o1 level levels s =
     (let grp = levels ! level
      in case writeNode put s \<lparr>nlevel = of_nat (level + 1), nentries = [], nchildren = grp\<rparr> of
           Inl e \<Rightarrow> Some (Inl e)
         | Inr (h, s') \<Rightarrow> sb_addLink put o1 (level + 1) (group_link grp h) (levels[level := []]) s')"

text \<open>\<open>addLink\<close> in the shape of the source: append, then flush at a boundary.\<close>

lemma sb_addLink_flush:
  "sb_addLink put o1 level item levels s =
     (let levels1 = grow_levels level levels;
          links = levels1 ! level @ [item];
          levels2 = levels1[level := links]
      in if shouldCut (length links) (linkBoundaryHash item) o1 then sb_flushLinks put o1 level levels2 s
         else Some (Inr (levels2, s)))"
proof -
  have "level < length (grow_levels level levels)" by (simp add: grow_levels_def)
  then show ?thesis
    by (subst sb_addLink.simps) (auto simp: sb_flushLinks_def Let_def split: sum.split)
qed

definition sb_flushLeaf ::
  "('s \<Rightarrow> bytes \<Rightarrow> error + hash \<times> 's) \<Rightarrow> options \<Rightarrow> sorted_builder \<Rightarrow> 's \<Rightarrow> (error + sorted_builder \<times> 's) option" where
  "sb_flushLeaf put o1 b s =
     (let grp = sbleaves b
      in case writeNode put s \<lparr>nlevel = 0, nentries = grp, nchildren = []\<rparr> of
           Inl e \<Rightarrow> Some (Inl e)
         | Inr (h, s1) \<Rightarrow>
             map_option (\<lambda>r. case r of Inl e \<Rightarrow> Inl e
                 | Inr (levels, s2) \<Rightarrow> Inr (b\<lparr>sbleaves := [], sblevels := levels\<rparr>, s2))
               (sb_addLink put o1 0 (leaf_link grp h) (sblevels b) s1))"

definition sb_Add ::
  "('s \<Rightarrow> bytes \<Rightarrow> error + hash \<times> 's) \<Rightarrow> options \<Rightarrow> entry \<Rightarrow> sorted_builder \<Rightarrow> 's
    \<Rightarrow> (error + sorted_builder \<times> 's) option" where
  "sb_Add put o1 item b s =
     (if sbfinished b then Some (Inl BuilderFinished)
      else if sbhaveKey b \<and> sblastKey b \<ge> ekey item then Some (Inl EntriesNotOrdered)
      else let b1 = b\<lparr>sbleaves := sbleaves b @ [item], sblastKey := ekey item, sbhaveKey := True\<rparr>
           in if shouldCut (length (sbleaves b1)) (entryBoundaryHash item) o1 then sb_flushLeaf put o1 b1 s
              else Some (Inr (b1, s)))"

definition sb_hasLinksAbove :: "nat \<Rightarrow> link list list \<Rightarrow> bool" where
  "sb_hasLinksAbove level levels \<longleftrightarrow> list_ex (\<lambda>links. links \<noteq> []) (drop (level + 1) levels)"

text \<open>The loop of \<open>Finish\<close> has no exit but the root: on builders with no link it runs forever.\<close>

partial_function (option) sb_finish_loop ::
  "('s \<Rightarrow> bytes \<Rightarrow> error + hash \<times> 's) \<Rightarrow> options \<Rightarrow> nat \<Rightarrow> link list list \<Rightarrow> 's \<Rightarrow> (error + hash \<times> 's) option" where
  "sb_finish_loop put o1 level levels s =
     (if level \<ge> length levels \<or> levels ! level = [] then sb_finish_loop put o1 (level + 1) levels s
      else if length (levels ! level) = 1 \<and> \<not> sb_hasLinksAbove level levels
      then Some (Inr (lhash (hd (levels ! level)), s))
      else Option.bind (sb_flushLinks put o1 level levels s) (\<lambda>r. case r of
        Inl e \<Rightarrow> Some (Inl e)
      | Inr ls \<Rightarrow> sb_finish_loop put o1 (level + 1) (fst ls) (snd ls)))"

declare sb_finish_loop.simps [code]

definition sb_Finish ::
  "('s \<Rightarrow> bytes \<Rightarrow> error + hash \<times> 's) \<Rightarrow> options \<Rightarrow> sorted_builder \<Rightarrow> 's \<Rightarrow> (error + tree \<times> 's) option" where
  "sb_Finish put o1 b s =
     (if sbfinished b then Some (Inl BuilderFinished)
      else if sbleaves b = [] \<and> \<not> sbhaveKey b then
        Some (with_options o1 (writeNode put s \<lparr>nlevel = 0, nentries = [], nchildren = []\<rparr>))
      else Option.bind (if sbleaves b \<noteq> [] then sb_flushLeaf put o1 b s else Some (Inr (b, s))) (\<lambda>r. case r of
        Inl e \<Rightarrow> Some (Inl e)
      | Inr (b1, s1) \<Rightarrow> map_option (with_options o1) (sb_finish_loop put o1 0 (sblevels b1) s1)))"

fun sb_adds ::
  "('s \<Rightarrow> bytes \<Rightarrow> error + hash \<times> 's) \<Rightarrow> options \<Rightarrow> entry list \<Rightarrow> sorted_builder \<Rightarrow> 's
    \<Rightarrow> (error + sorted_builder \<times> 's) option" where
  "sb_adds put o1 [] b s = Some (Inr (b, s))"
| "sb_adds put o1 (e # es) b s =
     Option.bind (sb_Add put o1 e b s) (\<lambda>r. case r of
       Inl err \<Rightarrow> Some (Inl err)
     | Inr (b1, s1) \<Rightarrow> sb_adds put o1 es b1 s1)"

section \<open>The open chunks of every level\<close>

abbreviation closed_trees :: "options \<Rightarrow> ptree list \<Rightarrow> ptree list list" where
  "closed_trees o1 ts \<equiv> closed_groups o1 (\<lambda>t. keyBoundaryHash (pmax t)) [] ts"

abbreviation open_trees :: "options \<Rightarrow> ptree list \<Rightarrow> ptree list" where
  "open_trees o1 ts \<equiv> open_group o1 (\<lambda>t. keyBoundaryHash (pmax t)) [] ts"

text \<open>The buffers of the levels after the trees \<open>ts\<close> went through level \<open>lvl\<close>, and the nodes written.\<close>

function bstack :: "options \<Rightarrow> byte \<Rightarrow> ptree list \<Rightarrow> ptree list list" where
  "bstack o1 lvl ts =
     (if ts = [] \<or> length (closed_trees o1 ts) \<ge> length ts then []
      else open_trees o1 ts # bstack o1 (lvl + 1) (map (PNode lvl) (closed_trees o1 ts)))"
  by pat_completeness auto
termination
  by (relation "measure (\<lambda>(o1, lvl, ts). length ts)") auto

declare bstack.simps [simp del]

function written_above :: "(bytes \<Rightarrow> bytes) \<Rightarrow> options \<Rightarrow> byte \<Rightarrow> ptree list \<Rightarrow> bytes set" where
  "written_above H o1 lvl ts =
     (if ts = [] \<or> length (closed_trees o1 ts) \<ge> length ts then {}
      else (\<Union>g \<in> set (closed_trees o1 ts). {pdata H (PNode lvl g)})
        \<union> written_above H o1 (lvl + 1) (map (PNode lvl) (closed_trees o1 ts)))"
  by pat_completeness auto
termination
  by (relation "measure (\<lambda>(H, o1, lvl, ts). length ts)") auto

declare written_above.simps [simp del]

lemma closed_trees_less:
  assumes "chunking_ok o1" "ts \<noteq> []"
  shows "length (closed_trees o1 ts) < length ts"
proof -
  have "\<forall>g \<in> set (closed_trees o1 ts). 2 \<le> length g"
    using closed_groups_min[of o1] assms(1) by (fastforce simp: chunking_ok_def options_validate_ok)
  then have "2 * length (closed_trees o1 ts) \<le> length (concat (closed_trees o1 ts))" by (rule sum_length_ge)
  moreover have "length (concat (closed_trees o1 ts)) + length (open_trees o1 ts) = length ts"
    using arg_cong[OF concat_chunk_run[of o1 _ "[]" ts], of length] by simp
  moreover have "0 < length ts" using assms(2) by simp
  ultimately show ?thesis by linarith
qed

lemma bstack_Nil [simp]: "bstack o1 lvl [] = []"
  by (simp add: bstack.simps)

lemma written_above_Nil [simp]: "written_above H o1 lvl [] = {}"
  by (simp add: written_above.simps)

lemma bstack_step:
  "chunking_ok o1 \<Longrightarrow> ts \<noteq> [] \<Longrightarrow>
    bstack o1 lvl ts = open_trees o1 ts # bstack o1 (lvl + 1) (map (PNode lvl) (closed_trees o1 ts))"
  using closed_trees_less[of o1 ts] by (subst bstack.simps) (simp add: not_le)

lemma written_above_step:
  "chunking_ok o1 \<Longrightarrow>
    written_above H o1 lvl ts = (\<Union>g \<in> set (closed_trees o1 ts). {pdata H (PNode lvl g)})
      \<union> written_above H o1 (lvl + 1) (map (PNode lvl) (closed_trees o1 ts))"
  using closed_trees_less[of o1 ts] by (cases "ts = []") (simp, subst written_above.simps, simp add: not_le)

lemma tree_chunks_closed: "tree_chunks o1 ts = closed_trees o1 ts @ flush_group (open_trees o1 ts)"
  by (simp add: chunk_def chunk_loop_run)

lemma bstack_nonempty:
  assumes "chunking_ok o1" "ts \<noteq> []"
  shows "list_ex (\<lambda>b. b \<noteq> []) (bstack o1 lvl ts)"
  using assms(2)
proof (induction "length ts" arbitrary: lvl ts rule: less_induct)
  case less
  show ?case
  proof (cases "open_trees o1 ts = []")
    case True
    then have "closed_trees o1 ts \<noteq> []"
      using less.prems concat_chunk_run[of o1 "\<lambda>t. keyBoundaryHash (pmax t)" "[]" ts] by auto
    then show ?thesis
      using less.hyps[of "map (PNode lvl) (closed_trees o1 ts)"] closed_trees_less[OF assms(1) less.prems]
        bstack_step[OF assms(1) less.prems] by simp
  qed (simp add: bstack_step[OF assms(1) less.prems])
qed

lemma level_row_prefix: "level_row lvl (ts @ us) \<Longrightarrow> ts \<noteq> [] \<Longrightarrow> level_row lvl ts"
  by (auto simp: level_row_def keys_sorted_append)

lemma level_row_closed:
  assumes "level_row lvl ts" "chunking_ok o1" "closed_trees o1 ts \<noteq> []"
  shows "level_row (lvl + 1) (map (PNode lvl) (closed_trees o1 ts))"
proof -
  have "1 < length ts"
    using closed_trees_less[OF assms(2), of ts] assms(1,3) by (cases "closed_trees o1 ts") (auto simp: level_row_def)
  then show ?thesis
    using level_row_next[OF assms(1,2)] assms(3) level_row_prefix
    unfolding tree_chunks_closed map_append by blast
qed

lemma closed_trees_snoc:
  "closed_trees o1 (ts @ [t]) =
     (if shouldCut (length (open_trees o1 ts) + 1) (keyBoundaryHash (pmax t)) o1
      then closed_trees o1 ts @ [open_trees o1 ts @ [t]] else closed_trees o1 ts)"
  "open_trees o1 (ts @ [t]) =
     (if shouldCut (length (open_trees o1 ts) + 1) (keyBoundaryHash (pmax t)) o1 then [] else open_trees o1 ts @ [t])"
  by (simp_all add: chunk_run_append)

lemma level_row_open:
  assumes "level_row lvl ts" "open_trees o1 ts \<noteq> []"
  shows "pwf (PNode lvl (open_trees o1 ts))" "pvalid (PNode lvl (open_trees o1 ts))"
  using level_row_group[OF assms(1), of "open_trees o1 ts" o1] assms(2)
  by (simp_all add: tree_chunks_closed flush_group_def)

lemma grow_levels_nth:
  assumes "length pre = level" "levels = pre @ rest"
  shows "grow_levels level levels = pre @ (if rest = [] then [[]] else rest)"
  using assms by (cases rest) (auto simp: grow_levels_def)

abbreviation link_stack :: "(bytes \<Rightarrow> bytes) \<Rightarrow> options \<Rightarrow> byte \<Rightarrow> ptree list \<Rightarrow> link list list" where
  "link_stack H o1 lvl ts \<equiv> map (map (plink H)) (bstack o1 lvl ts)"

context content_store
begin

lemma write_group:
  assumes "inv s" "pvalid (PNode lvl ts)" "pwf (PNode lvl ts)"
  shows "\<exists>s'. writeNode put s \<lparr>nlevel = lvl, nentries = [], nchildren = map (plink H) ts\<rparr> = Inr (proot H (PNode lvl ts), s')
    \<and> store_extends get H inv s s' {pdata H (PNode lvl ts)}
    \<and> group_link (map (plink H) ts) (proot H (PNode lvl ts)) = plink H (PNode lvl ts)"
proof -
  obtain s' where "writeNode put s (pnode H (PNode lvl ts)) = Inr (proot H (PNode lvl ts), s')"
      "store_extends get H inv s s' {pdata H (PNode lvl ts)}"
    using writeNode_pnode[OF assms(1,2)] by blast
  moreover have "ts \<noteq> []" "pwf (last ts)" using assms(3) by auto
  then have "group_link (map (plink H) ts) (proot H (PNode lvl ts)) = plink H (PNode lvl ts)"
    by (simp add: group_link_def sumCounts_plink[where l = lvl] plink_def pmax_PNode last_map)
  ultimately show ?thesis by (simp add: pnode_PNode del: pnode.simps)
qed

text \<open>Adding a link to level \<open>k\<close> adds its tree to the stream of that level.\<close>

lemma sb_addLink_bstack:
  assumes "inv s" "chunking_ok o1" "level_row lvl (ts @ [t])" "length pre = k" "lvl = of_nat (k + 1)"
  shows "\<exists>s' D. sb_addLink put o1 k (plink H t) (pre @ link_stack H o1 lvl ts) s =
      Some (Inr (pre @ link_stack H o1 lvl (ts @ [t]), s'))
    \<and> store_extends get H inv s s' D \<and> D \<union> written_above H o1 lvl ts = written_above H o1 lvl (ts @ [t])"
  using assms
proof (induction "length ts" arbitrary: s lvl ts t pre k rule: less_induct)
  case less
  let ?op = "open_trees o1 ts" and ?cl = "closed_trees o1 ts"
  let ?up = "map (PNode lvl) ?cl"
  define tl1 where "tl1 = link_stack H o1 (lvl + 1) ?up"
  have st: "pre @ link_stack H o1 lvl ts = pre @ (if ts = [] then [] else map (plink H) ?op # tl1)"
    using bstack_step[OF less.prems(2), of ts lvl] by (simp add: tl1_def)
  have tl1: "ts = [] \<Longrightarrow> tl1 = []" "ts = [] \<Longrightarrow> ?op = []" by (simp_all add: tl1_def)
  have grown: "grow_levels k (pre @ link_stack H o1 lvl ts) = pre @ map (plink H) ?op # tl1"
    unfolding st grow_levels_nth[OF less.prems(4) refl] using tl1 by (cases "ts = []") auto
  have nth: "(pre @ map (plink H) ?op # tl1) ! k = map (plink H) ?op"
      "(pre @ map (plink H) ?op # tl1)[k := x] = pre @ x # tl1" for x
    using less.prems(4) by (simp_all add: nth_append list_update_append)
  show ?case
  proof (cases "shouldCut (length ?op + 1) (keyBoundaryHash (pmax t)) o1")
    case False
    have "sb_addLink put o1 k (plink H t) (pre @ link_stack H o1 lvl ts) s = Some (Inr (pre @ map (plink H) (?op @ [t]) # tl1, s))"
      using False by (subst sb_addLink.simps) (simp add: grown nth Let_def linkBoundaryHash_def)
    moreover have "link_stack H o1 lvl (ts @ [t]) = map (plink H) (?op @ [t]) # tl1"
      using bstack_step[OF less.prems(2), of "ts @ [t]" lvl] False closed_trees_snoc[of o1 ts t] by (simp add: tl1_def)
    moreover have "written_above H o1 lvl (ts @ [t]) = written_above H o1 lvl ts"
      unfolding written_above_step[OF less.prems(2), of H lvl "ts @ [t]"] written_above_step[OF less.prems(2), of H lvl ts]
      using False closed_trees_snoc(1)[of o1 ts t] by simp
    ultimately show ?thesis
      using store_extends_refl[of inv s get H] less.prems(1) by (intro exI[of _ s] exI[of _ "{}"]) simp
  next
    case True
    let ?g = "?op @ [t]"
    have cl: "closed_trees o1 (ts @ [t]) = ?cl @ [?g]" "open_trees o1 (ts @ [t]) = []"
      using closed_trees_snoc[of o1 ts t] True by auto
    have g: "pwf (PNode lvl ?g)" "pvalid (PNode lvl ?g)"
      using level_row_group[OF less.prems(3), of ?g o1] cl by (simp_all add: tree_chunks_closed)
    obtain s1 where s1: "writeNode put s \<lparr>nlevel = lvl, nentries = [], nchildren = map (plink H) ?g\<rparr> = Inr (proot H (PNode lvl ?g), s1)"
        "store_extends get H inv s s1 {pdata H (PNode lvl ?g)}"
        "group_link (map (plink H) ?g) (proot H (PNode lvl ?g)) = plink H (PNode lvl ?g)"
      using write_group[OF less.prems(1) g(2,1)] by blast
    have row: "level_row (lvl + 1) (?up @ [PNode lvl ?g])"
      using level_row_closed[OF less.prems(3,2)] cl by simp
    have lv: "1 + of_nat k = lvl" using less.prems(5) by simp
    have up: "sb_addLink put o1 k (plink H t) (pre @ link_stack H o1 lvl ts) s =
        sb_addLink put o1 (k + 1) (plink H (PNode lvl ?g)) ((pre @ [[]]) @ tl1) s1"
      using True s1(1,3) lv
      by (subst sb_addLink.simps) (simp add: grown nth Let_def linkBoundaryHash_def)
    have small: "length ?up < length ts"
    proof (cases "ts = []")
      case True
      have "MinChunkEntries o1 \<le> int (length ?g)"
        by (rule closed_groups_min[where bh = "\<lambda>t. keyBoundaryHash (pmax t)" and cur = "[]" and xs = "ts @ [t]"])
          (use cl less.prems(2) in \<open>simp_all add: chunking_ok_def options_validate_ok\<close>)
      then show ?thesis using True less.prems(2) by (simp add: chunking_ok_def)
    next
      case False
      then show ?thesis using closed_trees_less[OF less.prems(2)] by simp
    qed
    have "inv s1" by (rule store_extends_inv[OF s1(2)])
    from less.hyps[OF small this less.prems(2) row, of "pre @ [[]]" "k + 1"]
    obtain s2 D where s2: "sb_addLink put o1 (k + 1) (plink H (PNode lvl ?g)) ((pre @ [[]]) @ tl1) s1 =
          Some (Inr ((pre @ [[]]) @ link_stack H o1 (lvl + 1) (?up @ [PNode lvl ?g]), s2))"
        "store_extends get H inv s1 s2 D"
        "D \<union> written_above H o1 (lvl + 1) ?up = written_above H o1 (lvl + 1) (?up @ [PNode lvl ?g])"
      using less.prems(4,5) by (auto simp: tl1_def add.commute)
    have "link_stack H o1 lvl (ts @ [t]) = [] # link_stack H o1 (lvl + 1) (?up @ [PNode lvl ?g])"
      using bstack_step[OF less.prems(2), of "ts @ [t]" lvl] cl by simp
    moreover have "{pdata H (PNode lvl ?g)} \<union> D \<union> written_above H o1 lvl ts = written_above H o1 lvl (ts @ [t])"
      unfolding written_above_step[OF less.prems(2), of H lvl "ts @ [t]"] written_above_step[OF less.prems(2), of H lvl ts]
      using s2(3) cl(1) by auto
    moreover have "store_extends get H inv s s2 ({pdata H (PNode lvl ?g)} \<union> D)"
      by (rule store_extends_trans[OF s1(2) s2(2)])
    ultimately show ?thesis
      using up s2(1) by (intro exI[of _ s2] exI[of _ "{pdata H (PNode lvl ?g)} \<union> D"]) simp
  qed
qed


lemma sb_flushLinks_bstack:
  assumes "inv s" "chunking_ok o1" "level_row lvl ts" "length pre = k" "lvl = of_nat (k + 1)"
    and "open_trees o1 ts \<noteq> []" "1 < length ts"
  shows "\<exists>s' D. sb_flushLinks put o1 k (pre @ link_stack H o1 lvl ts) s =
      Some (Inr ((pre @ [[]]) @ link_stack H o1 (lvl + 1) (map (PNode lvl) (tree_chunks o1 ts)), s'))
    \<and> store_extends get H inv s s' D
    \<and> D \<union> written_above H o1 lvl ts =
        (\<Union>g \<in> set (tree_chunks o1 ts). {pdata H (PNode lvl g)})
        \<union> written_above H o1 (lvl + 1) (map (PNode lvl) (tree_chunks o1 ts))"
proof -
  let ?op = "open_trees o1 ts" and ?cl = "closed_trees o1 ts"
  let ?up = "map (PNode lvl) ?cl"
  have ne: "ts \<noteq> []" using assms(7) by auto
  have chunks: "tree_chunks o1 ts = ?cl @ [?op]" using assms(6) by (simp add: tree_chunks_closed flush_group_def)
  have st: "pre @ link_stack H o1 lvl ts = pre @ map (plink H) ?op # link_stack H o1 (lvl + 1) ?up"
    using bstack_step[OF assms(2) ne] by simp
  have nth: "(pre @ map (plink H) ?op # r) ! k = map (plink H) ?op"
      "(pre @ map (plink H) ?op # r)[k := x] = pre @ x # r" for x r
    using assms(4) by (simp_all add: nth_append list_update_append)
  obtain s1 where s1: "writeNode put s \<lparr>nlevel = lvl, nentries = [], nchildren = map (plink H) ?op\<rparr> = Inr (proot H (PNode lvl ?op), s1)"
      "store_extends get H inv s s1 {pdata H (PNode lvl ?op)}"
      "group_link (map (plink H) ?op) (proot H (PNode lvl ?op)) = plink H (PNode lvl ?op)"
    using write_group[OF assms(1) level_row_open(2,1)[OF assms(3,6)]] by blast
  have row: "level_row (lvl + 1) (?up @ [PNode lvl ?op])"
    using level_row_next[OF assms(3,2,7)] chunks by simp
  have lv: "1 + of_nat k = lvl" using assms(5) by simp
  have "inv s1" by (rule store_extends_inv[OF s1(2)])
  from sb_addLink_bstack[OF this assms(2) row, of "pre @ [[]]" "k + 1"]
  obtain s2 D where s2: "sb_addLink put o1 (k + 1) (plink H (PNode lvl ?op)) ((pre @ [[]]) @ link_stack H o1 (lvl + 1) ?up) s1 =
        Some (Inr ((pre @ [[]]) @ link_stack H o1 (lvl + 1) (?up @ [PNode lvl ?op]), s2))"
      "store_extends get H inv s1 s2 D"
      "D \<union> written_above H o1 (lvl + 1) ?up = written_above H o1 (lvl + 1) (?up @ [PNode lvl ?op])"
    using assms(4,5) by (auto simp: add.commute)
  have "sb_flushLinks put o1 k (pre @ link_stack H o1 lvl ts) s =
      Some (Inr ((pre @ [[]]) @ link_stack H o1 (lvl + 1) (map (PNode lvl) (tree_chunks o1 ts)), s2))"
    using s1(1,3) s2(1) lv by (simp add: sb_flushLinks_def st nth chunks Let_def)
  moreover have "({pdata H (PNode lvl ?op)} \<union> D) \<union> written_above H o1 lvl ts =
        (\<Union>g \<in> set (tree_chunks o1 ts). {pdata H (PNode lvl g)})
        \<union> written_above H o1 (lvl + 1) (map (PNode lvl) (tree_chunks o1 ts))"
    using s2(3) unfolding written_above_step[OF assms(2), of H lvl ts] chunks by auto
  ultimately show ?thesis
    using store_extends_trans[OF s1(2) s2(2)] by blast
qed

lemma sb_finish_loop_bstack:
  assumes "inv s" "chunking_ok o1" "level_row lvl ts" "length pre = k" "lvl = of_nat (k + 1)"
  shows "\<exists>s' D. sb_finish_loop put o1 k (pre @ link_stack H o1 lvl ts) s = Some (Inr (proot H (ptree_levels o1 lvl ts), s'))
    \<and> store_extends get H inv s s' D
    \<and> D \<union> written_above H o1 lvl ts \<union> row_objects H ts = pobjects H (ptree_levels o1 lvl ts)"
  using assms
proof (induction "length ts" arbitrary: s lvl ts pre k rule: less_induct)
  case less
  let ?op = "open_trees o1 ts" and ?cl = "closed_trees o1 ts"
  let ?rest = "link_stack H o1 (lvl + 1) (map (PNode lvl) ?cl)"
  let ?next = "map (PNode lvl) (tree_chunks o1 ts)"
  have ne: "ts \<noteq> []" using less.prems(3) by (simp add: level_row_def)
  have st: "pre @ link_stack H o1 lvl ts = pre @ map (plink H) ?op # ?rest"
    using bstack_step[OF less.prems(2) ne] by simp
  have all: "concat ?cl @ ?op = ts" using concat_chunk_run[of o1 _ "[]" ts] by simp
  have nth: "(pre @ map (plink H) ?op # ?rest) ! k = map (plink H) ?op" "k < length (pre @ map (plink H) ?op # ?rest)"
      "drop (k + 1) (pre @ map (plink H) ?op # ?rest) = ?rest"
    using less.prems(4) by (simp_all add: nth_append)
  show ?case
  proof (cases "1 < length ts")
    case False
    then obtain t where t: "ts = [t]" using ne by (cases ts) auto
    have cl: "?cl = []"
      using closed_trees_less[OF less.prems(2) ne] t by simp
    then have "?op = [t]" using all t by simp
    then have "sb_finish_loop put o1 k (pre @ link_stack H o1 lvl ts) s = Some (Inr (proot H t, s))"
      unfolding st using nth cl by (subst sb_finish_loop.simps) (simp add: sb_hasLinksAbove_def)
    moreover have "written_above H o1 lvl ts = {}"
      using written_above_step[OF less.prems(2), of H lvl ts] cl by simp
    ultimately show ?thesis
      using t store_extends_refl[of inv s get H] less.prems(1)
      by (intro exI[of _ s] exI[of _ "{}"]) (simp add: ptree_levels_single row_objects_def)
  next
    case True
    have len: "length ?next < length ts"
      using True less.prems(2) length_chunk_less[of o1 "()" ts] by (simp add: chunking_ok_def)
    have row: "level_row (lvl + 1) ?next" by (rule level_row_next[OF less.prems(3,2) True])
    have "\<exists>s1 D1. sb_finish_loop put o1 k (pre @ link_stack H o1 lvl ts) s =
          sb_finish_loop put o1 (k + 1) ((pre @ [[]]) @ link_stack H o1 (lvl + 1) ?next) s1
        \<and> store_extends get H inv s s1 D1
        \<and> D1 \<union> written_above H o1 lvl ts = (\<Union>g \<in> set (tree_chunks o1 ts). {pdata H (PNode lvl g)})
          \<union> written_above H o1 (lvl + 1) ?next"
    proof (cases "?op = []")
      case True
      then have "tree_chunks o1 ts = ?cl" by (simp add: tree_chunks_closed flush_group_def)
      then show ?thesis
        unfolding st using nth True store_extends_refl[of inv s get H] less.prems(1)
          written_above_step[OF less.prems(2), of H lvl ts]
        by (intro exI[of _ s] exI[of _ "{}"]) (subst sb_finish_loop.simps, simp)
    next
      case False
      have "length ?op = 1 \<longrightarrow> ?cl \<noteq> []" using all True by auto
      then have "length ?op = 1 \<longrightarrow> list_ex (\<lambda>links. links \<noteq> []) ?rest"
        using bstack_nonempty[OF less.prems(2), of "map (PNode lvl) ?cl" "lvl + 1"] by (auto simp: list_ex_iff)
      moreover obtain s1 D where s1: "sb_flushLinks put o1 k (pre @ link_stack H o1 lvl ts) s =
          Some (Inr ((pre @ [[]]) @ link_stack H o1 (lvl + 1) ?next, s1))"
        "store_extends get H inv s s1 D"
        "D \<union> written_above H o1 lvl ts = (\<Union>g \<in> set (tree_chunks o1 ts). {pdata H (PNode lvl g)})
          \<union> written_above H o1 (lvl + 1) ?next"
        using sb_flushLinks_bstack[OF less.prems False True] by blast
      ultimately have "sb_finish_loop put o1 k (pre @ link_stack H o1 lvl ts) s =
          sb_finish_loop put o1 (k + 1) ((pre @ [[]]) @ link_stack H o1 (lvl + 1) ?next) s1"
        unfolding st using nth False
        by (subst sb_finish_loop.simps) (auto simp: sb_hasLinksAbove_def)
      then show ?thesis using s1(2,3) by blast
    qed
    then obtain s1 D1 where s1: "sb_finish_loop put o1 k (pre @ link_stack H o1 lvl ts) s =
          sb_finish_loop put o1 (k + 1) ((pre @ [[]]) @ link_stack H o1 (lvl + 1) ?next) s1"
        "store_extends get H inv s s1 D1"
        "D1 \<union> written_above H o1 lvl ts = (\<Union>g \<in> set (tree_chunks o1 ts). {pdata H (PNode lvl g)})
          \<union> written_above H o1 (lvl + 1) ?next"
      by (elim exE conjE) (rule that)
    have "inv s1" by (rule store_extends_inv[OF s1(2)])
    from less.hyps[OF len this less.prems(2) row, of "pre @ [[]]" "k + 1"]
    obtain s2 D2 where s2: "sb_finish_loop put o1 (k + 1) ((pre @ [[]]) @ link_stack H o1 (lvl + 1) ?next) s1 =
          Some (Inr (proot H (ptree_levels o1 (lvl + 1) ?next), s2))"
        "store_extends get H inv s1 s2 D2"
        "D2 \<union> written_above H o1 (lvl + 1) ?next \<union> row_objects H ?next = pobjects H (ptree_levels o1 (lvl + 1) ?next)"
      using less.prems(4,5) by (auto simp: add.commute)
    have "D1 \<union> D2 \<union> written_above H o1 lvl ts \<union> row_objects H ts = pobjects H (ptree_levels o1 lvl ts)"
      using s1(3) s2(3) unfolding row_objects_next ptree_levels_step[OF less.prems(2) True, of lvl] by blast
    then show ?thesis
      using s1(1) s2(1) store_extends_trans[OF s1(2) s2(2)] ptree_levels_step[OF less.prems(2) True, of lvl] by auto
  qed
qed

end

section \<open>The builder\<close>

abbreviation closed_leaves :: "options \<Rightarrow> entry list \<Rightarrow> ptree list" where
  "closed_leaves o1 es \<equiv> map PLeaf (closed_groups o1 entryBoundaryHash [] es)"

abbreviation open_leaf :: "options \<Rightarrow> entry list \<Rightarrow> entry list" where
  "open_leaf o1 es \<equiv> open_group o1 entryBoundaryHash [] es"

definition sb_inv :: "(bytes \<Rightarrow> bytes) \<Rightarrow> options \<Rightarrow> entry list \<Rightarrow> sorted_builder \<Rightarrow> bool" where
  "sb_inv H o1 es b \<longleftrightarrow> sbleaves b = open_leaf o1 es \<and> sblevels b = link_stack H o1 1 (closed_leaves o1 es)
     \<and> (sbhaveKey b \<longleftrightarrow> es \<noteq> []) \<and> (es \<noteq> [] \<longrightarrow> sblastKey b = ekey (last es)) \<and> \<not> sbfinished b"

definition built :: "(bytes \<Rightarrow> bytes) \<Rightarrow> options \<Rightarrow> ptree list \<Rightarrow> bytes set" where
  "built H o1 ts = row_objects H ts \<union> written_above H o1 1 ts"

lemma leaf_row_closed: "leaf_row o1 es = closed_leaves o1 es @ map PLeaf (flush_group (open_leaf o1 es))"
  by (simp add: chunkEntries_def chunk_def chunk_loop_run)

lemma sb_inv_new: "NewSortedBuilder o1 = Inr b \<Longrightarrow> sb_inv H o1 [] b"
  by (auto simp: NewSortedBuilder_def sb_inv_def split: sum.splits)

context content_store
begin

lemma sb_flushLeaf_built:
  assumes "inv s" "chunking_ok o1" "level_row 1 (ts @ [PLeaf g])" "entries_ok g" "g \<noteq> []"
    and "sbleaves b = g" "sblevels b = link_stack H o1 1 ts"
  shows "\<exists>s' D. sb_flushLeaf put o1 b s = Some (Inr (b\<lparr>sbleaves := [], sblevels := link_stack H o1 1 (ts @ [PLeaf g])\<rparr>, s'))
    \<and> store_extends get H inv s s' D \<and> D \<union> built H o1 ts = built H o1 (ts @ [PLeaf g])"
proof -
  from same.write_leaf[OF assms(1,5,4)]
  obtain s1 where s1: "writeNode put s \<lparr>nlevel = 0, nentries = g, nchildren = []\<rparr> = Inr (proot H (PLeaf g), s1)"
      "store_extends get H inv s s1 (pobjects H (PLeaf g))"
    by (elim exE conjE) (rule that)
  have "inv s1" by (rule store_extends_inv[OF s1(2)])
  from sb_addLink_bstack[OF this assms(2,3), of "[]" 0]
  obtain s2 D where s2: "sb_addLink put o1 0 (plink H (PLeaf g)) (link_stack H o1 1 ts) s1 =
        Some (Inr (link_stack H o1 1 (ts @ [PLeaf g]), s2))"
      "store_extends get H inv s1 s2 D" "D \<union> written_above H o1 1 ts = written_above H o1 1 (ts @ [PLeaf g])"
    by auto
  have "sb_flushLeaf put o1 b s = Some (Inr (b\<lparr>sbleaves := [], sblevels := link_stack H o1 1 (ts @ [PLeaf g])\<rparr>, s2))"
    using s1(1) s2(1) assms(6,7)
    by (simp add: sb_flushLeaf_def leaf_link_def plink_def pmax_def pcount_def)
  moreover have "(pobjects H (PLeaf g) \<union> D) \<union> built H o1 ts = built H o1 (ts @ [PLeaf g])"
    using s2(3) by (auto simp: built_def row_objects_def)
  ultimately show ?thesis using store_extends_trans[OF s1(2) s2(2)] by blast
qed

lemma sb_Add_built:
  assumes "inv s" "chunking_ok o1" "entries_ok (es @ [e])" "sb_inv H o1 es b"
  shows "\<exists>b' s' D. sb_Add put o1 e b s = Some (Inr (b', s')) \<and> sb_inv H o1 (es @ [e]) b'
    \<and> store_extends get H inv s s' D \<and> D \<union> built H o1 (closed_leaves o1 es) = built H o1 (closed_leaves o1 (es @ [e]))"
proof -
  let ?g = "open_leaf o1 es @ [e]"
  let ?b = "b\<lparr>sbleaves := ?g, sblastKey := ekey e, sbhaveKey := True\<rparr>"
  have ordered: "\<not> (sbhaveKey b \<and> sblastKey b \<ge> ekey e)"
    using assms(3,4) by (cases es rule: rev_cases) (auto simp: sb_inv_def entries_ok_def keys_sorted_append not_le keys_sorted_Cons)
  have run: "closed_groups o1 entryBoundaryHash [] (es @ [e]) = closed_groups o1 entryBoundaryHash [] es @
        (if shouldCut (length ?g) (entryBoundaryHash e) o1 then [?g] else [])"
      "open_leaf o1 (es @ [e]) = (if shouldCut (length ?g) (entryBoundaryHash e) o1 then [] else ?g)"
    by (simp_all add: chunk_run_append)
  show ?thesis
  proof (cases "shouldCut (length ?g) (entryBoundaryHash e) o1")
    case False
    then have "sb_Add put o1 e b s = Some (Inr (?b, s))"
      using ordered assms(4) by (auto simp: sb_Add_def sb_inv_def Let_def)
    moreover have "sb_inv H o1 (es @ [e]) ?b" using run False assms(4) by (simp add: sb_inv_def)
    ultimately show ?thesis
      using run False assms(1) store_extends_refl[of inv s get H]
      by (intro exI[of _ ?b] exI[of _ s] exI[of _ "{}"]) simp
  next
    case True
    have cl: "closed_leaves o1 (es @ [e]) = closed_leaves o1 es @ [PLeaf ?g]" using run(1) True by simp
    have "level_row 1 (closed_leaves o1 es @ [PLeaf ?g])"
      using leaf_row_level[OF assms(3), of o1] level_row_prefix[of 1 "closed_leaves o1 (es @ [e])"] cl
      unfolding leaf_row_closed by auto
    moreover have "entries_ok ?g"
      using assms(3) same.entries_ok_append concat_chunk_run[of o1 entryBoundaryHash "[]" es] by (metis append_Nil append_assoc)
    ultimately obtain s' D where s': "sb_flushLeaf put o1 ?b s = Some (Inr (?b\<lparr>sbleaves := [], sblevels := link_stack H o1 1 (closed_leaves o1 es @ [PLeaf ?g])\<rparr>, s'))"
        "store_extends get H inv s s' D" "D \<union> built H o1 (closed_leaves o1 es) = built H o1 (closed_leaves o1 es @ [PLeaf ?g])"
      using sb_flushLeaf_built[OF assms(1,2), of "closed_leaves o1 es" ?g ?b] assms(4) by (auto simp: sb_inv_def)
    let ?b' = "?b\<lparr>sbleaves := [], sblevels := link_stack H o1 1 (closed_leaves o1 es @ [PLeaf ?g])\<rparr>"
    have "sb_Add put o1 e b s = Some (Inr (?b', s'))"
      using ordered assms(4) True s'(1) by (auto simp: sb_Add_def sb_inv_def Let_def)
    moreover have "sb_inv H o1 (es @ [e]) ?b'" using run True cl assms(4) by (simp add: sb_inv_def)
    ultimately show ?thesis using s'(2,3) cl by auto
  qed
qed

lemma sb_adds_built:
  assumes "inv s" "chunking_ok o1" "entries_ok (es @ xs)" "sb_inv H o1 es b"
  shows "\<exists>b' s' D. sb_adds put o1 xs b s = Some (Inr (b', s')) \<and> sb_inv H o1 (es @ xs) b'
    \<and> store_extends get H inv s s' D \<and> D \<union> built H o1 (closed_leaves o1 es) = built H o1 (closed_leaves o1 (es @ xs))"
  using assms
proof (induction xs arbitrary: es b s)
  case Nil
  then show ?case using store_extends_refl[of inv s get H] by (intro exI[of _ b] exI[of _ s] exI[of _ "{}"]) simp
next
  case (Cons x xs)
  have "entries_ok (es @ [x])" using Cons.prems(3) same.entries_ok_append[of "es @ [x]" xs] by simp
  from sb_Add_built[OF Cons.prems(1,2) this Cons.prems(4)]
  obtain b1 s1 D1 where s1: "sb_Add put o1 x b s = Some (Inr (b1, s1))" "sb_inv H o1 (es @ [x]) b1"
      "store_extends get H inv s s1 D1" "D1 \<union> built H o1 (closed_leaves o1 es) = built H o1 (closed_leaves o1 (es @ [x]))"
    by (elim exE conjE) (rule that)
  have "inv s1" by (rule store_extends_inv[OF s1(3)])
  from Cons.IH[OF this Cons.prems(2) _ s1(2)] Cons.prems(3)
  obtain b2 s2 D2 where s2: "sb_adds put o1 xs b1 s1 = Some (Inr (b2, s2))" "sb_inv H o1 ((es @ [x]) @ xs) b2"
      "store_extends get H inv s1 s2 D2" "D2 \<union> built H o1 (closed_leaves o1 (es @ [x])) = built H o1 (closed_leaves o1 ((es @ [x]) @ xs))"
    by auto
  have "(D1 \<union> D2) \<union> built H o1 (closed_leaves o1 es) = built H o1 (closed_leaves o1 (es @ x # xs))"
    using s1(4) s2(4) by auto
  then show ?case
    using s1(1) s2(1,2) store_extends_trans[OF s1(3) s2(3)] by auto
qed

lemma sb_Finish_built:
  assumes "inv s" "chunking_ok o1" "entries_ok es" "sb_inv H o1 es b"
  shows "\<exists>s' D. sb_Finish put o1 b s = Some (Inr (\<lparr>troot = proot H (canon o1 es), toptions = o1\<rparr>, s'))
    \<and> store_extends get H inv s s' D \<and> D \<union> built H o1 (closed_leaves o1 es) = pobjects H (canon o1 es)"
proof (cases "es = []")
  case True
  have empty: "pvalid (PLeaf [])" by (simp add: pvalid_def keys_sorted_def)
  show ?thesis
    using writeNode_pnode[OF assms(1) empty] assms(4) True
    by (auto simp: sb_inv_def sb_Finish_def with_options_def canon_def pobjects_PLeaf built_def row_objects_def)
next
  case False
  let ?g = "open_leaf o1 es"
  have row: "level_row 1 (leaf_row o1 es)" by (rule leaf_row_level[OF assms(3) False])
  have "\<exists>b1 s1 D1. (if sbleaves b \<noteq> [] then sb_flushLeaf put o1 b s else Some (Inr (b, s))) = Some (Inr (b1, s1))
      \<and> sblevels b1 = link_stack H o1 1 (leaf_row o1 es) \<and> store_extends get H inv s s1 D1
      \<and> D1 \<union> built H o1 (closed_leaves o1 es) = built H o1 (leaf_row o1 es)"
  proof (cases "?g = []")
    case True
    then have "leaf_row o1 es = closed_leaves o1 es" using leaf_row_closed[of es o1] by (simp add: flush_group_def)
    then show ?thesis
      using True assms(1,4) store_extends_refl[of inv s get H]
      by (intro exI[of _ b] exI[of _ s] exI[of _ "{}"]) (simp add: sb_inv_def)
  next
    case g: False
    then have lr: "leaf_row o1 es = closed_leaves o1 es @ [PLeaf ?g]" using leaf_row_closed[of es o1] by (simp add: flush_group_def)
    have "entries_ok ?g"
      using assms(3) same.entries_ok_append concat_chunk_run[of o1 entryBoundaryHash "[]" es] by (metis append_Nil)
    from sb_flushLeaf_built[OF assms(1,2) row[unfolded lr] this g, of b] assms(4) g
    show ?thesis unfolding lr by (auto simp: sb_inv_def)
  qed
  then obtain b1 s1 D1 where s1: "(if sbleaves b \<noteq> [] then sb_flushLeaf put o1 b s else Some (Inr (b, s))) = Some (Inr (b1, s1))"
      "sblevels b1 = link_stack H o1 1 (leaf_row o1 es)" "store_extends get H inv s s1 D1"
      "D1 \<union> built H o1 (closed_leaves o1 es) = built H o1 (leaf_row o1 es)"
    by (elim exE conjE) (rule that)
  have "inv s1" by (rule store_extends_inv[OF s1(3)])
  from sb_finish_loop_bstack[OF this assms(2) row, of "[]" 0]
  obtain s2 D2 where s2: "sb_finish_loop put o1 0 (link_stack H o1 1 (leaf_row o1 es)) s1 = Some (Inr (proot H (canon o1 es), s2))"
      "store_extends get H inv s1 s2 D2"
      "D2 \<union> written_above H o1 1 (leaf_row o1 es) \<union> row_objects H (leaf_row o1 es) = pobjects H (canon o1 es)"
    using False by (auto simp: canon_def)
  have "(D1 \<union> D2) \<union> built H o1 (closed_leaves o1 es) = pobjects H (canon o1 es)"
    using s1(4) s2(3) unfolding built_def by blast
  moreover have "sb_Finish put o1 b s = Some (Inr (\<lparr>troot = proot H (canon o1 es), toptions = o1\<rparr>, s2))"
    using s1(1,2) s2(1) assms(4) False by (simp add: sb_Finish_def sb_inv_def with_options_def)
  ultimately show ?thesis using store_extends_trans[OF s1(3) s2(2)] by blast
qed

text \<open>All entries added, then \<open>Finish\<close>: the canonical tree.\<close>

lemma sorted_builder_canon:
  assumes "inv s" "chunking_ok o1" "entries_ok es" "NewSortedBuilder o1 = Inr b"
  shows "\<exists>b1 s1 s'. sb_adds put o1 es b s = Some (Inr (b1, s1))
    \<and> sb_Finish put o1 b1 s1 = Some (Inr (\<lparr>troot = proot H (canon o1 es), toptions = o1\<rparr>, s'))
    \<and> store_extends get H inv s s' (pobjects H (canon o1 es))"
proof -
  from sb_adds_built[OF assms(1,2) _ sb_inv_new[OF assms(4)], of es] assms(3)
  obtain b1 s1 D1 where s1: "sb_adds put o1 es b s = Some (Inr (b1, s1))" "sb_inv H o1 es b1"
      "store_extends get H inv s s1 D1" "D1 \<union> built H o1 [] = built H o1 (closed_leaves o1 es)"
    by auto
  have "inv s1" by (rule store_extends_inv[OF s1(3)])
  from sb_Finish_built[OF this assms(2,3) s1(2)]
  obtain s2 D2 where s2: "sb_Finish put o1 b1 s1 = Some (Inr (\<lparr>troot = proot H (canon o1 es), toptions = o1\<rparr>, s2))"
      "store_extends get H inv s1 s2 D2" "D2 \<union> built H o1 (closed_leaves o1 es) = pobjects H (canon o1 es)"
    by (elim exE conjE) (rule that)
  have "built H o1 [] = {}" by (simp add: built_def row_objects_def)
  then have "D1 \<union> D2 = pobjects H (canon o1 es)" using s1(4) s2(3) by auto
  then show ?thesis using s1(1) s2(1) store_extends_trans[OF s1(3) s2(2)] by auto
qed

end

text \<open>The refused calls.\<close>

lemma sb_Add_refused:
  "sbfinished b \<Longrightarrow> sb_Add put o1 e b s = Some (Inl BuilderFinished)"
  "\<not> sbfinished b \<Longrightarrow> sbhaveKey b \<Longrightarrow> ekey e \<le> sblastKey b \<Longrightarrow> sb_Add put o1 e b s = Some (Inl EntriesNotOrdered)"
  by (simp_all add: sb_Add_def)

end
