(* ===== verification/Sql_Values.thy ===== *)
theory Sql_Values
  imports Complex_Main Go_Binary
begin

text \<open>
  The SQL values and column types the row and key codecs branch on.

  \<open>qtype\<close> has the \<open>querypb.Type\<close> constants the code names and \<open>T_OTHER\<close> for the rest. \<open>val\<close> has
  the Go types a type switch of the codecs can meet. Floats are their IEEE-754 bits; \<open>float64(v)\<close>
  and \<open>float32(v)\<close> are written out on the bits. A \<open>time.Time\<close> is the number of nanoseconds since
  the Unix epoch. What go-mysql-server and apd compute is not defined here: JSON printing and
  parsing and decimal rounding are the functions of the record \<open>sqllib\<close>, and a JSON document is
  an opaque handle.
\<close>

section \<open>Column types\<close>

datatype qtype =
    T_INT8 | T_INT16 | T_INT24 | T_INT32 | T_INT64
  | T_UINT8 | T_UINT16 | T_UINT24 | T_UINT32 | T_UINT64
  | T_FLOAT32 | T_FLOAT64 | T_DECIMAL | T_DATE | T_DATETIME | T_TIMESTAMP | T_TIME | T_ENUM
  | T_BLOB | T_VARBINARY | T_BINARY | T_VARCHAR | T_CHAR | T_TEXT | T_JSON | T_OTHER

definition is_signed :: "qtype \<Rightarrow> bool" where
  "is_signed t \<longleftrightarrow> t \<in> {T_INT8, T_INT16, T_INT24, T_INT32, T_INT64}"

definition is_unsigned :: "qtype \<Rightarrow> bool" where
  "is_unsigned t \<longleftrightarrow> t \<in> {T_UINT8, T_UINT16, T_UINT24, T_UINT32, T_UINT64}"

definition is_datetime :: "qtype \<Rightarrow> bool" where
  "is_datetime t \<longleftrightarrow> t \<in> {T_DATE, T_DATETIME, T_TIMESTAMP}"

definition is_binary :: "qtype \<Rightarrow> bool" where
  "is_binary t \<longleftrightarrow> t \<in> {T_BLOB, T_VARBINARY, T_BINARY}"

definition is_text :: "qtype \<Rightarrow> bool" where
  "is_text t \<longleftrightarrow> t \<in> {T_VARCHAR, T_CHAR, T_TEXT}"

lemmas qtype_classes = is_signed_def is_unsigned_def is_datetime_def is_binary_def is_text_def

text \<open>
  A collation: the default one, binary, or another with its \<open>Sorter\<close> (a weight per rune), which
  may be nil. \<open>cchar\<close> is \<open>types.IsChar\<close>; \<open>ccoll\<close> is the collation of a \<open>sql.StringType\<close> and
  \<open>cscale\<close> the scale of a \<open>sql.DecimalType\<close>.
\<close>

datatype collation = CollDefault | CollBinary | CollOther "(nat \<Rightarrow> 32 word) option"

record coltype =
  ctype :: qtype
  cchar :: bool
  ccoll :: "collation option"
  cscale :: "int option"

section \<open>Values\<close>

record decimal =
  dfinite :: bool
  dnegative :: bool
  dcoeff :: nat
  dexponent :: int

type_synonym json = nat

datatype val =
    VInt8 "8 word" | VInt16 "16 word" | VInt32 "32 word" | VInt64 "64 word" | VInt "64 word"
  | VUint8 "8 word" | VUint16 "16 word" | VUint32 "32 word" | VUint64 "64 word" | VUint "64 word"
  | VFloat32 "32 word" | VFloat64 "64 word" | VDecimal decimal | VTime int | VTimespan "64 word"
  | VString bytes | VBytes bytes | VJSON json | VOther

type_synonym row = "val option list"

record sqllib =
  json_string :: "json \<Rightarrow> error + bytes"
  json_convert :: "bytes \<Rightarrow> error + json"
  decimal_round :: "decimal \<Rightarrow> int \<Rightarrow> error + decimal"

fun signedValue :: "val \<Rightarrow> 64 word option" where
  "signedValue (VInt8 v) = Some (scast v)"
| "signedValue (VInt16 v) = Some (scast v)"
| "signedValue (VInt32 v) = Some (scast v)"
| "signedValue (VInt64 v) = Some v"
| "signedValue (VInt v) = Some v"
| "signedValue _ = None"

fun unsignedValue :: "val \<Rightarrow> 64 word option" where
  "unsignedValue (VUint8 v) = Some (ucast v)"
| "unsignedValue (VUint16 v) = Some (ucast v)"
| "unsignedValue (VUint32 v) = Some (ucast v)"
| "unsignedValue (VUint64 v) = Some v"
| "unsignedValue (VUint v) = Some v"
| "unsignedValue _ = None"

definition time_UnixMicro :: "int \<Rightarrow> 64 word" where
  "time_UnixMicro ns = of_int (ns div 1000)"

record column =
  col_name :: bytes
  col_type :: coltype
  col_nullable :: bool

record pkschema =
  schema_columns :: "column list"
  pk_ordinals :: "int list"

section \<open>IEEE-754 bits\<close>

definition f64_sign :: "64 word \<Rightarrow> bool" where "f64_sign b \<longleftrightarrow> bit b 63"

definition f64_exp :: "64 word \<Rightarrow> int" where "f64_exp b = uint b div 2 ^ 52 mod 2 ^ 11"

definition f64_frac :: "64 word \<Rightarrow> int" where "f64_frac b = uint b mod 2 ^ 52"

definition f64_isNaN :: "64 word \<Rightarrow> bool" where
  "f64_isNaN b \<longleftrightarrow> f64_exp b = 2047 \<and> f64_frac b \<noteq> 0"

definition f64_make :: "bool \<Rightarrow> int \<Rightarrow> int \<Rightarrow> 64 word" where
  "f64_make s e m = of_int ((if s then 2 ^ 63 else 0) + e * 2 ^ 52 + m)"

text \<open>\<open>float64(v)\<close> of a float32: exact; a subnormal is normalised.\<close>

function log2_floor :: "int \<Rightarrow> nat" where
  "log2_floor n = (if n < 2 then 0 else Suc (log2_floor (n div 2)))"
  by pat_completeness auto
termination by (relation "measure nat") auto

declare log2_floor.simps [simp del]

definition f32_to_f64 :: "32 word \<Rightarrow> 64 word" where
  "f32_to_f64 b =
     (let s = bit b 31; e = uint b div 2 ^ 23 mod 2 ^ 8; m = uint b mod 2 ^ 23
      in if e = 255 then f64_make s 2047 (if m = 0 then 0 else (m mod 2 ^ 22 + 2 ^ 22) * 2 ^ 29)
         else if e \<noteq> 0 then f64_make s (e + 896) (m * 2 ^ 29)
         else if m = 0 then f64_make s 0 0
         else let k = log2_floor m in f64_make s (int k + 874) ((m - 2 ^ k) * 2 ^ (52 - k)))"

text \<open>\<open>float32(v)\<close> of a float64: round to nearest, ties to even; overflow gives an infinity.\<close>

definition round_even :: "int \<Rightarrow> nat \<Rightarrow> int" where
  "round_even m k =
     (let q = m div 2 ^ k; r = m mod 2 ^ k; half = 2 ^ k div 2
      in if r > half \<or> (r = half \<and> k > 0 \<and> odd q) then q + 1 else q)"

definition f64_to_f32 :: "64 word \<Rightarrow> 32 word" where
  "f64_to_f32 b =
     (let s = (if f64_sign b then 2 ^ 31 else 0); e = f64_exp b; m = f64_frac b
      in if e = 2047
         then of_int (s + 255 * 2 ^ 23 + (if m = 0 then 0 else 2 ^ 22 + m div 2 ^ 29 mod 2 ^ 22))
         else if e > 896 then
           (let r = (e - 897) * 2 ^ 23 + round_even (m + 2 ^ 52) 29
            in of_int (s + min r (255 * 2 ^ 23)))
         else of_int (s + round_even (if e = 0 then m else m + 2 ^ 52) (nat (926 - max e 1))))"

text \<open>
  The value of a double, scaled by \<open>2 ^ 1074\<close>: an integer. An infinity is given the value of the
  next power of two, past every finite value.
\<close>

definition f64_magnitude :: "64 word \<Rightarrow> int" where
  "f64_magnitude b =
     (if f64_exp b = 0 then f64_frac b else (f64_frac b + 2 ^ 52) * 2 ^ nat (f64_exp b - 1))"

definition f64_value :: "64 word \<Rightarrow> int" where
  "f64_value b = (if f64_sign b then - f64_magnitude b else f64_magnitude b)"

end
