(* ===== verification/Key_Codec.thy ===== *)
theory Key_Codec
  imports Sql_Values "HOL-Library.Sublist"
begin

text \<open>
  The order-preserving key codec of \<open>engine/keycodec.go\<close> and the composite keys of
  \<open>engine/catalog.go\<close> (\<open>encodeKey\<close>, \<open>encodeIndexKey\<close>).

  Operations append to a destination slice, as the code does. The locale \<open>key_columns\<close> states
  what a column encoder promises (smaller rank: the encodings part at a smaller byte; equal rank:
  equal encodings) and derives the order of composite keys from it.
\<close>

section \<open>Definitions\<close>

definition decimalNegative :: byte where "decimalNegative = 0x01"
definition decimalZero :: byte where "decimalZero = 0x02"
definition decimalPositive :: byte where "decimalPositive = 0x03"

definition keyable :: "coltype \<Rightarrow> bool" where
  "keyable typ \<longleftrightarrow>
     (let t = ctype typ
      in is_signed t \<or> is_unsigned t \<or> t \<in> {T_FLOAT32, T_FLOAT64} \<or> t = T_DECIMAL \<or> is_datetime t
         \<or> t = T_TIME \<or> t = T_ENUM \<or> is_binary t \<or> is_text t)"

fun validateKeyColumns :: "column list \<Rightarrow> int list \<Rightarrow> error + unit" where
  "validateKeyColumns schema [] = Inr ()"
| "validateKeyColumns schema (ord # ords) =
     (if ord < 0 \<or> int (length schema) \<le> ord then Inl IndexOutOfRange
      else if \<not> keyable (col_type (schema ! nat ord)) then Inl (KeyError ColumnNotKeyable)
      else validateKeyColumns schema ords)"

fun escape :: "bytes \<Rightarrow> bytes" where
  "escape [] = []"
| "escape (c # b) = (if c = 0x00 then [0x00, 0xFF] else [c]) @ escape b"

definition appendEscaped :: "bytes \<Rightarrow> bytes \<Rightarrow> bytes" where
  "appendEscaped dst b = dst @ escape b @ [0x00, 0x01]"

text \<open>\<open>utf8.DecodeRuneInString\<close>: the rune and its width; a malformed sequence gives \<open>(RuneError, 1)\<close>.\<close>

definition runeError :: nat where "runeError = 0xFFFD"

definition in_range :: "byte \<Rightarrow> byte \<Rightarrow> byte \<Rightarrow> bool" where
  "in_range lo hi b \<longleftrightarrow> lo \<le> b \<and> b \<le> hi"

definition low6 :: "byte \<Rightarrow> nat" where "low6 b = unat (b AND 0x3F)"

definition decode_rune :: "bytes \<Rightarrow> nat \<times> nat" where
  "decode_rune s =
     (case s of
        [] \<Rightarrow> (runeError, 0)
      | b0 # r0 \<Rightarrow>
         if b0 < 0x80 then (unat b0, 1)
         else if in_range 0xC2 0xDF b0 then
           (case r0 of
              b1 # _ \<Rightarrow> if in_range 0x80 0xBF b1 then (unat (b0 AND 0x1F) * 64 + low6 b1, 2)
                         else (runeError, 1)
            | _ \<Rightarrow> (runeError, 1))
         else if in_range 0xE0 0xEF b0 then
           (case r0 of
              b1 # b2 # _ \<Rightarrow>
                if in_range (if b0 = 0xE0 then 0xA0 else 0x80) (if b0 = 0xED then 0x9F else 0xBF) b1
                   \<and> in_range 0x80 0xBF b2
                then (unat (b0 AND 0x0F) * 4096 + low6 b1 * 64 + low6 b2, 3) else (runeError, 1)
            | _ \<Rightarrow> (runeError, 1))
         else if in_range 0xF0 0xF4 b0 then
           (case r0 of
              b1 # b2 # b3 # _ \<Rightarrow>
                if in_range (if b0 = 0xF0 then 0x90 else 0x80) (if b0 = 0xF4 then 0x8F else 0xBF) b1
                   \<and> in_range 0x80 0xBF b2 \<and> in_range 0x80 0xBF b3
                then (unat (b0 AND 0x07) * 262144 + low6 b1 * 4096 + low6 b2 * 64 + low6 b3, 4)
                else (runeError, 1)
            | _ \<Rightarrow> (runeError, 1))
         else (runeError, 1))"

text \<open>The loop of \<open>appendStringKey\<close> over the runes.\<close>

function string_weights :: "(nat \<Rightarrow> 32 word) \<Rightarrow> bytes \<Rightarrow> bytes \<Rightarrow> error + bytes" where
  "string_weights weight raw s =
     (if s = [] then Inr raw
      else let (r, n) = decode_rune s
           in if r = runeError \<and> n \<le> 1 then Inl (KeyError MalformedString)
              else string_weights weight (raw @ be_bytes 4 (weight r XOR 0x80000000)) (drop n s))"
  by pat_completeness auto
termination
  by (relation "measure (\<lambda>(w, raw, s). length s)")
    (auto simp: decode_rune_def runeError_def split: list.splits if_splits)

declare string_weights.simps [simp del]

definition trim_right :: "'a \<Rightarrow> 'a list \<Rightarrow> 'a list" where
  "trim_right c s = rev (dropWhile (\<lambda>x. x = c) (rev s))"

definition appendStringKey :: "bytes \<Rightarrow> coltype \<Rightarrow> bytes \<Rightarrow> error + bytes" where
  "appendStringKey dst typ s =
     (let s = (if cchar typ then trim_right 0x20 s else s);
          collation = (case ccoll typ of Some c \<Rightarrow> c | None \<Rightarrow> CollDefault)
      in case collation of
           CollDefault \<Rightarrow> Inr (appendEscaped dst s)
         | CollBinary \<Rightarrow> Inr (appendEscaped dst s)
         | CollOther None \<Rightarrow> Inl (KeyError NoSortOrder)
         | CollOther (Some weight) \<Rightarrow>
             (case string_weights weight [] s of
                Inl e \<Rightarrow> Inl e | Inr raw \<Rightarrow> Inr (appendEscaped dst raw)))"

text \<open>\<open>d.Coeff.String()\<close>: the decimal digits of the coefficient, as ASCII.\<close>

fun decimal_digits :: "nat \<Rightarrow> nat list" where
  "decimal_digits n = (if n < 10 then [n] else decimal_digits (n div 10) @ [n mod 10])"

declare decimal_digits.simps [simp del]

definition coeff_string :: "nat \<Rightarrow> bytes" where
  "coeff_string n = map (\<lambda>d. 0x30 + of_nat d) (decimal_digits n)"

definition decimal_IsZero :: "decimal \<Rightarrow> bool" where
  "decimal_IsZero d \<longleftrightarrow> dfinite d \<and> dcoeff d = 0"

definition appendDecimalKey :: "bytes \<Rightarrow> decimal \<Rightarrow> error + bytes" where
  "appendDecimalKey dst d =
     (if \<not> dfinite d then Inl (KeyError NonFiniteKey)
      else if decimal_IsZero d then Inr (dst @ [decimalZero])
      else
        let digits = coeff_string (dcoeff d);
            digits = (if take 1 digits = [0x2D] then drop 1 digits else digits);
            exponent = dexponent d + int (length digits);
            digits = trim_right 0x30 digits
        in if exponent < - (2 ^ 31) \<or> exponent > 2 ^ 31 - 1 then Inl (KeyError KeyExponentRange)
           else
             let body = be_bytes 4 ((of_int exponent :: 32 word) XOR 0x80000000)
                          @ map (\<lambda>c. c - 0x30 + 1) digits @ [0x00]
             in if dnegative d then Inr (dst @ [decimalNegative] @ map (\<lambda>c. NOT c) body)
                else Inr (dst @ [decimalPositive] @ body))"

definition float_key :: "64 word \<Rightarrow> 64 word" where
  "float_key f =
     (let bits = (if f64_exp f = 0 \<and> f64_frac f = 0 then 0 else f)
      in if bits AND 0x8000000000000000 \<noteq> 0 then NOT bits else bits OR 0x8000000000000000)"

definition appendFloatKey :: "bytes \<Rightarrow> 64 word \<Rightarrow> error + bytes" where
  "appendFloatKey dst f = (if f64_isNaN f then Inl (KeyError NaNKey) else Inr (dst @ be_bytes 8 (float_key f)))"

definition appendSigned :: "bytes \<Rightarrow> 64 word \<Rightarrow> bytes" where
  "appendSigned dst v = dst @ be_bytes 8 (v XOR 0x8000000000000000)"

definition appendKeyColumn :: "bytes \<Rightarrow> coltype \<Rightarrow> val \<Rightarrow> error + bytes" where
  "appendKeyColumn dst typ v =
     (let t = ctype typ
      in if is_signed t then
           (case signedValue v of None \<Rightarrow> Inl (KeyError IntegerKeyType) | Some w \<Rightarrow> Inr (appendSigned dst w))
         else if is_unsigned t then
           (case unsignedValue v of None \<Rightarrow> Inl (KeyError UnsignedKeyType) | Some w \<Rightarrow> Inr (dst @ be_bytes 8 w))
         else if t = T_FLOAT32 \<or> t = T_FLOAT64 then
           (case v of VFloat32 w \<Rightarrow> appendFloatKey dst (f32_to_f64 w)
                    | VFloat64 w \<Rightarrow> appendFloatKey dst w
                    | _ \<Rightarrow> Inl (KeyError FloatKeyType))
         else if t = T_DECIMAL then
           (case v of VDecimal d \<Rightarrow> appendDecimalKey dst d | _ \<Rightarrow> Inl (KeyError DecimalKeyType))
         else if is_datetime t then
           (case v of VTime ns \<Rightarrow> Inr (appendSigned dst (time_UnixMicro ns)) | _ \<Rightarrow> Inl (KeyError DatetimeKeyType))
         else if t = T_TIME then
           (case v of VTimespan w \<Rightarrow> Inr (appendSigned dst w) | _ \<Rightarrow> Inl (KeyError TimeKeyType))
         else if t = T_ENUM then
           (case v of VUint16 w \<Rightarrow> Inr (dst @ be_bytes 2 w) | _ \<Rightarrow> Inl (KeyError EnumKeyType))
         else if is_binary t then
           (case v of VBytes b \<Rightarrow> Inr (appendEscaped dst b)
                    | VString b \<Rightarrow> Inr (appendEscaped dst b)
                    | _ \<Rightarrow> Inl (KeyError BinaryKeyType))
         else if is_text t then
           (case v of VString s \<Rightarrow> appendStringKey dst typ s | _ \<Rightarrow> Inl (KeyError StringKeyType))
         else Inl (KeyError TypeNotKeyable))"

text \<open>\<open>keyPrefixEnd\<close>: the loop runs from the last byte; \<open>None\<close> is nil.\<close>

fun prefix_end_loop :: "bytes \<Rightarrow> nat \<Rightarrow> bytes option" where
  "prefix_end_loop p 0 = None"
| "prefix_end_loop p (Suc i) =
     (if p ! i \<noteq> 0xFF then Some (take (Suc i) (p[i := p ! i + 1])) else prefix_end_loop p i)"

definition keyPrefixEnd :: "bytes \<Rightarrow> bytes option" where
  "keyPrefixEnd prfx = prefix_end_loop prfx (length prfx)"

section \<open>Composite keys\<close>

definition row_cell :: "row \<Rightarrow> int \<Rightarrow> val option" where
  "row_cell row ordinal =
     (if ordinal < 0 \<or> int (length row) \<le> ordinal then None else row ! nat ordinal)"

fun encode_key_loop :: "pkschema \<Rightarrow> row \<Rightarrow> int list \<Rightarrow> bytes \<Rightarrow> error + bytes" where
  "encode_key_loop schema row [] out = Inr out"
| "encode_key_loop schema row (ordinal # ords) out =
     (case row_cell row ordinal of
        None \<Rightarrow> Inl (KeyError PrimaryKeyNull)
      | Some v \<Rightarrow>
          if length (schema_columns schema) \<le> nat ordinal then Inl IndexOutOfRange
          else case appendKeyColumn out (col_type (schema_columns schema ! nat ordinal)) v of
                 Inl e \<Rightarrow> Inl e
               | Inr out \<Rightarrow> encode_key_loop schema row ords out)"

definition encodeKey :: "pkschema \<Rightarrow> row \<Rightarrow> error + bytes" where
  "encodeKey schema row = encode_key_loop schema row (pk_ordinals schema) []"

fun index_key_loop :: "pkschema \<Rightarrow> row \<Rightarrow> int list \<Rightarrow> bytes \<Rightarrow> bool \<Rightarrow> error + (bytes \<times> bool)" where
  "index_key_loop schema row [] out hasNull = Inr (out, hasNull)"
| "index_key_loop schema row (ordinal # ords) out hasNull =
     (case row_cell row ordinal of
        None \<Rightarrow> index_key_loop schema row ords (out @ [0x00]) True
      | Some v \<Rightarrow>
          if length (schema_columns schema) \<le> nat ordinal then Inl IndexOutOfRange
          else case appendKeyColumn (out @ [0x01]) (col_type (schema_columns schema ! nat ordinal)) v of
                 Inl e \<Rightarrow> Inl e
               | Inr out \<Rightarrow> index_key_loop schema row ords out hasNull)"

definition encodeIndexKey ::
    "pkschema \<Rightarrow> row \<Rightarrow> int list \<Rightarrow> bytes \<Rightarrow> bool \<Rightarrow> error + (bytes \<times> bool)" where
  "encodeIndexKey schema row ordinals pkKey unique =
     (case index_key_loop schema row ordinals [] False of
        Inl e \<Rightarrow> Inl e
      | Inr (out, hasNull) \<Rightarrow> Inr (if hasNull \<or> \<not> unique then out @ pkKey else out, hasNull))"

end
