(* ===== verification/Pending_Rows.thy ===== *)
theory Pending_Rows
  imports Repo_Prelude "HOL-Library.Multiset" "HOL-Library.Product_Lexorder"
begin

text \<open>
  The pending-row sets of \<open>common/repository/pending.go\<close>: sorted runs of edits, newest first, merged
  size-tiered. The specification is a map from keys to edits (\<open>pending_map\<close>) and the sorted list of
  its edits (\<open>pending_list\<close>); \<open>with\<close> overlays, \<open>Get\<close> looks up, and the two iterators list an interval.
  An iterator's \<open>best\<close> index is represented by the edit it points at.
\<close>

section \<open>Definitions\<close>

record row_edit =
  re_key :: bytes
  re_value :: bytes
  re_delete :: bool
  re_generation :: uint64

type_synonym run = "row_edit list"

record PendingRows =
  pruns :: "run list"

definition pending_Empty :: "PendingRows \<Rightarrow> bool" where
  "pending_Empty p \<longleftrightarrow> length (pruns p) = 0"

definition pending_Len :: "PendingRows \<Rightarrow> nat" where
  "pending_Len p = fold (\<lambda>run n. n + length run) (pruns p) 0"

fun mergeRuns :: "run \<Rightarrow> run \<Rightarrow> run" where
  "mergeRuns (n # newer) (o' # older) =
     (if re_key n < re_key o' then n # mergeRuns newer (o' # older)
      else if re_key n > re_key o' then o' # mergeRuns (n # newer) older
      else n # mergeRuns newer older)"
| "mergeRuns newer [] = newer"
| "mergeRuns [] older = older"

text \<open>The positions of the edits, ordered by key and then position.\<close>

definition edit_order :: "row_edit list \<Rightarrow> nat list" where
  "edit_order edits = sort_key (\<lambda>i. (re_key (edits ! i), i)) [0..<length edits]"

fun unique_run :: "row_edit list \<Rightarrow> uint64 \<Rightarrow> nat list \<Rightarrow> run" where
  "unique_run edits generation [] = []"
| "unique_run edits generation [pos] = [(edits ! pos)\<lparr>re_generation := generation\<rparr>]"
| "unique_run edits generation (pos # next # order) =
     (if re_key (edits ! pos) = re_key (edits ! next) then unique_run edits generation (next # order)
      else (edits ! pos)\<lparr>re_generation := generation\<rparr> # unique_run edits generation (next # order))"

function merge_tiers :: "run list \<Rightarrow> run list" where
  "merge_tiers runs =
     (case runs of
        newer # older # rest \<Rightarrow>
          if 2 * length newer \<ge> length older then merge_tiers (mergeRuns newer older # rest) else runs
      | _ \<Rightarrow> runs)"
  by pat_completeness auto
termination
  by (relation "measure length") auto

declare merge_tiers.simps [simp del]

definition pending_with :: "PendingRows \<Rightarrow> row_edit list \<Rightarrow> uint64 \<Rightarrow> PendingRows" where
  "pending_with p edits generation =
     (if edits = [] then p
      else \<lparr>pruns = merge_tiers (unique_run edits generation (edit_order edits) # pruns p)\<rparr>)"

definition pending_With :: "PendingRows \<Rightarrow> row_edit list \<Rightarrow> PendingRows" where
  "pending_With p edits = pending_with p edits 0"

definition run_search :: "run \<Rightarrow> bytes \<Rightarrow> nat" where
  "run_search run key = sort_search (length run) (\<lambda>i. re_key (run ! i) \<ge> key)"

fun pending_get_loop :: "run list \<Rightarrow> bytes \<Rightarrow> row_edit option" where
  "pending_get_loop [] key = None"
| "pending_get_loop (run # runs) key =
     (let i = run_search run key
      in if i < length run \<and> re_key (run ! i) = key then Some (run ! i) else pending_get_loop runs key)"

definition pending_Get :: "PendingRows \<Rightarrow> bytes \<Rightarrow> row_edit option" where
  "pending_Get p key = pending_get_loop (pruns p) key"

record PendingIter =
  pi_runs :: "run list"
  pi_pos :: "int list"
  pi_end :: "bytes option"
  pi_start :: "bytes option"
  pi_reverse :: bool

definition pending_Iter :: "PendingRows \<Rightarrow> bytes \<Rightarrow> bytes option \<Rightarrow> PendingIter" where
  "pending_Iter p start end' =
     \<lparr>pi_runs = pruns p, pi_pos = map (\<lambda>run. int (run_search run start)) (pruns p),
      pi_end = end', pi_start = None, pi_reverse = False\<rparr>"

definition pending_IterReverse :: "PendingRows \<Rightarrow> bytes option \<Rightarrow> bytes option \<Rightarrow> PendingIter" where
  "pending_IterReverse p start end' =
     \<lparr>pi_runs = pruns p,
      pi_pos = map (\<lambda>run. case end' of None \<Rightarrow> int (length run) - 1
                                     | Some e \<Rightarrow> int (run_search run e) - 1) (pruns p),
      pi_end = None, pi_start = start, pi_reverse = True\<rparr>"

fun next_best :: "(run \<times> int) list \<Rightarrow> row_edit option \<Rightarrow> row_edit option" where
  "next_best [] best = best"
| "next_best ((run, pos) # rs) best =
     (if pos \<ge> int (length run) then next_best rs best
      else let e = run ! nat pos
           in next_best rs (case best of None \<Rightarrow> Some e
                            | Some b \<Rightarrow> if re_key e < re_key b then Some e else Some b))"

fun prev_best :: "(run \<times> int) list \<Rightarrow> row_edit option \<Rightarrow> row_edit option" where
  "prev_best [] best = best"
| "prev_best ((run, pos) # rs) best =
     (if pos < 0 then prev_best rs best
      else let e = run ! nat pos
           in prev_best rs (case best of None \<Rightarrow> Some e
                            | Some b \<Rightarrow> if re_key e > re_key b then Some e else Some b))"

definition pending_prev :: "PendingIter \<Rightarrow> row_edit option \<times> PendingIter" where
  "pending_prev it =
     (case prev_best (zip (pi_runs it) (pi_pos it)) None of
        None \<Rightarrow> (None, it)
      | Some edit \<Rightarrow>
          if (case pi_start it of None \<Rightarrow> False | Some s \<Rightarrow> re_key edit < s)
          then (None, it\<lparr>pi_pos := map (\<lambda>_. - 1) (pi_runs it)\<rparr>)
          else (Some edit,
                it\<lparr>pi_pos := map (\<lambda>(run, pos). if pos \<ge> 0 \<and> re_key (run ! nat pos) = re_key edit
                                               then pos - 1 else pos) (zip (pi_runs it) (pi_pos it))\<rparr>))"

definition pending_Next :: "PendingIter \<Rightarrow> row_edit option \<times> PendingIter" where
  "pending_Next it =
     (if pi_reverse it then pending_prev it
      else case next_best (zip (pi_runs it) (pi_pos it)) None of
        None \<Rightarrow> (None, it)
      | Some edit \<Rightarrow>
          if (case pi_end it of None \<Rightarrow> False | Some e \<Rightarrow> re_key edit \<ge> e)
          then (None, it\<lparr>pi_pos := map (\<lambda>run. int (length run)) (pi_runs it)\<rparr>)
          else (Some edit,
                it\<lparr>pi_pos := map (\<lambda>(run, pos). if pos < int (length run) \<and> re_key (run ! nat pos) = re_key edit
                                               then pos + 1 else pos) (zip (pi_runs it) (pi_pos it))\<rparr>))"

text \<open>What \<open>n\<close> calls of \<open>Next\<close> return, up to the first that reports the end.\<close>

fun pending_take :: "nat \<Rightarrow> PendingIter \<Rightarrow> row_edit list" where
  "pending_take 0 it = []"
| "pending_take (Suc n) it =
     (case pending_Next it of (None, _) \<Rightarrow> [] | (Some e, it') \<Rightarrow> e # pending_take n it')"

section \<open>Specification\<close>

definition run_map :: "run \<Rightarrow> bytes \<rightharpoonup> row_edit" where
  "run_map run = map_of (map (\<lambda>e. (re_key e, e)) run)"

definition run_ok :: "run \<Rightarrow> bool" where
  "run_ok run \<longleftrightarrow> sorted_wrt (<) (map re_key run)"

definition pending_list :: "run list \<Rightarrow> run" where
  "pending_list runs = foldr mergeRuns runs []"

definition pending_map :: "PendingRows \<Rightarrow> bytes \<rightharpoonup> row_edit" where
  "pending_map p = run_map (pending_list (pruns p))"

definition pending_ok :: "PendingRows \<Rightarrow> bool" where
  "pending_ok p \<longleftrightarrow> list_all run_ok (pruns p)"

text \<open>The size tiers: every run but the newest is more than twice as long as the one before it.\<close>

fun tiered :: "run list \<Rightarrow> bool" where
  "tiered (a # b # rs) \<longleftrightarrow> 2 * length a < length b \<and> tiered (b # rs)"
| "tiered _ \<longleftrightarrow> True"

lemma run_map_simps [simp]: "run_map [] = Map.empty" "run_map (e # run) = (run_map run)(re_key e \<mapsto> e)"
  by (simp_all add: run_map_def)

lemma run_map_append: "run_map (xs @ ys) = run_map ys ++ run_map xs"
  by (simp add: run_map_def)

lemma run_map_key: "run_map run k = Some e \<Longrightarrow> re_key e = k \<and> e \<in> set run"
  by (induction run) (auto split: if_splits)

lemma run_map_dom: "dom (run_map run) = re_key ` set run"
  by (simp add: run_map_def dom_map_of_conv_image_fst image_image)

lemma run_ok_simps: "run_ok []" "run_ok (e # run) \<longleftrightarrow> (\<forall>x \<in> set run. re_key e < re_key x) \<and> run_ok run"
  by (auto simp: run_ok_def)

lemma run_ok_unique:
  assumes "run_ok xs" "run_ok ys" "run_map xs = run_map ys"
  shows "xs = ys"
proof -
  have "set xs = ran (run_map xs)" if "run_ok xs" for xs
  proof -
    have "distinct (map re_key xs)" using that by (simp add: run_ok_def sorted_wrt_less_map_distinct)
    then have "ran (run_map xs) = snd ` set (map (\<lambda>e. (re_key e, e)) xs)"
      unfolding run_map_def by (intro ran_distinct) (simp add: comp_def)
    then show ?thesis by force
  qed
  then have "set xs = set ys" using assms by simp
  then have "map re_key xs = map re_key ys"
    using assms(1,2) by (intro strict_sorted_equal) (auto simp: run_ok_def)
  moreover have "inj_on re_key (set xs \<union> set ys)"
    using sorted_wrt_less_map_distinct[of re_key xs] assms(1) \<open>set xs = set ys\<close>
    by (simp add: run_ok_def distinct_map)
  ultimately show ?thesis by (rule map_inj_on)
qed

lemma mergeRuns_set: "set (mergeRuns a b) \<subseteq> set a \<union> set b"
  by (induction a b rule: mergeRuns.induct) auto

lemma mergeRuns_keys: "re_key ` set (mergeRuns a b) = re_key ` set a \<union> re_key ` set b"
  by (induction a b rule: mergeRuns.induct) auto

lemma mergeRuns_ok: "run_ok a \<Longrightarrow> run_ok b \<Longrightarrow> run_ok (mergeRuns a b)"
proof (induction a b rule: mergeRuns.induct)
  case (1 n newer o' older)
  have mem: "x \<in> set u \<or> x \<in> set v" if "x \<in> set (mergeRuns u v)" for x u v using mergeRuns_set that by blast
  show ?case using 1 by (auto simp: run_ok_simps not_less dest!: mem) force+
qed auto

lemma mergeRuns_map: "run_ok a \<Longrightarrow> run_ok b \<Longrightarrow> run_map (mergeRuns a b) = run_map b ++ run_map a"
proof (induction a b rule: mergeRuns.induct)
  case (1 n newer o' older)
  have none: "run_map r k = None" if "\<forall>x \<in> set r. k < re_key x" for r k
    using run_map_dom[of r] that by (metis domIff imageE less_irrefl)
  have "run_map newer (re_key o') = None" if "re_key o' < re_key n"
    using 1(4) that by (intro none) (auto simp: run_ok_simps)
  then show ?case
    using 1 by (auto simp: run_ok_simps fun_eq_iff map_add_def)
qed auto

lemma pending_list_ok: "list_all run_ok runs \<Longrightarrow> run_ok (pending_list runs)"
  by (induction runs) (auto simp: pending_list_def run_ok_simps mergeRuns_ok)

lemma pending_list_map:
  "list_all run_ok runs \<Longrightarrow> run_map (pending_list runs) = foldr (\<lambda>run m. m ++ run_map run) runs Map.empty"
  by (induction runs) (auto simp: pending_list_def mergeRuns_map pending_list_ok[unfolded pending_list_def])

section \<open>Lookup\<close>

lemma run_search_takeWhile:
  assumes "run_ok run"
  shows "run_search run key = length (takeWhile (\<lambda>e. re_key e < key) run)"
proof -
  have "sorted_wrt (\<lambda>x y. re_key x \<ge> key \<longrightarrow> re_key y \<ge> key) run"
    using assms unfolding run_ok_def sorted_wrt_map by (rule sorted_wrt_mono_rel[rotated]) auto
  from sort_search_takeWhile[OF this] show ?thesis
    unfolding run_search_def by (simp add: linorder_not_le)
qed

lemma run_get:
  assumes "run_ok run"
  shows "(let i = run_search run key in if i < length run \<and> re_key (run ! i) = key then Some (run ! i) else None)
    = run_map run key"
  using assms
proof (induction run)
  case (Cons e run)
  have none: "run_map run key = None" if "key \<le> re_key e"
    using Cons.prems that run_map_dom[of run] by (force simp: run_ok_simps)
  show ?case
  proof (cases "re_key e < key")
    case True
    then show ?thesis
      using Cons by (auto simp: run_search_takeWhile run_ok_simps Let_def)
  next
    case False
    then show ?thesis
      using Cons.prems none by (auto simp: run_search_takeWhile Let_def)
  qed
qed (simp add: run_search_takeWhile)

lemma pending_get_loop_map:
  "list_all run_ok runs \<Longrightarrow> pending_get_loop runs key = run_map (pending_list runs) key"
proof (induction runs)
  case (Cons run runs)
  then have "run_map (pending_list (run # runs)) = run_map (pending_list runs) ++ run_map run"
    by (simp add: pending_list_def mergeRuns_map pending_list_ok[unfolded pending_list_def])
  then show ?case
    using Cons run_get[of run key] by (auto simp: Let_def map_add_def split: if_splits option.splits)
qed (simp add: pending_list_def)

lemma pending_Get_map: "pending_ok p \<Longrightarrow> pending_Get p key = pending_map p key"
  by (simp add: pending_Get_def pending_map_def pending_ok_def pending_get_loop_map)

section \<open>Overlaying edits\<close>

definition stamp :: "uint64 \<Rightarrow> row_edit \<Rightarrow> row_edit" where
  "stamp g e = e\<lparr>re_generation := g\<rparr>"

lemma stamp_key [simp]: "re_key (stamp g e) = re_key e"
  by (simp add: stamp_def)

definition overlay :: "uint64 \<Rightarrow> row_edit list \<Rightarrow> (bytes \<rightharpoonup> row_edit) \<Rightarrow> (bytes \<rightharpoonup> row_edit)" where
  "overlay g edits m = fold (\<lambda>e m. m(re_key e \<mapsto> stamp g e)) edits m"

lemma overlay_apply:
  "overlay g edits m k =
     (case filter (\<lambda>e. re_key e = k) edits of [] \<Rightarrow> m k | es \<Rightarrow> Some (stamp g (last es)))"
  by (induction edits arbitrary: m) (auto simp: overlay_def split: list.split)

lemma overlay_add: "overlay g edits m = m ++ overlay g edits Map.empty"
  by (rule ext) (auto simp: overlay_apply map_add_def split: list.split)

lemma edit_order_stable: "map ((!) edits) (edit_order edits) = sort_key re_key edits"
proof -
  let ?o = "edit_order edits" and ?n = "[0..<length edits]"
  have mset: "mset ?o = mset ?n" by (simp add: edit_order_def)
  have srt: "sorted (map (\<lambda>i. (re_key (edits ! i), i)) ?o)" by (simp add: edit_order_def)
  have dist: "distinct ?o" using mset by (metis distinct_upt mset_eq_imp_distinct_iff)
  have same: "filter (\<lambda>i. k = re_key (edits ! i)) ?o = filter (\<lambda>i. k = re_key (edits ! i)) ?n" for k
  proof (rule sorted_distinct_set_unique)
    have "sorted_wrt (\<lambda>i j. (re_key (edits ! i), i) \<le> (re_key (edits ! j), j))
        (filter (\<lambda>i. k = re_key (edits ! i)) ?o)"
      using srt by (intro sorted_wrt_filter) (simp add: sorted_map)
    then show "sorted (filter (\<lambda>i. k = re_key (edits ! i)) ?o)"
      by (rule sorted_wrt_mono_rel[rotated]) auto
    show "set (filter (\<lambda>i. k = re_key (edits ! i)) ?o) = set (filter (\<lambda>i. k = re_key (edits ! i)) ?n)"
      using mset by (metis mset_filter set_mset_mset)
  qed (use dist in \<open>simp_all add: sorted_wrt_filter\<close>)
  have "sort_key re_key edits = map ((!) edits) ?o"
  proof (rule properties_for_sort_key)
    have "mset (map ((!) edits) ?o) = image_mset ((!) edits) (mset ?n)" by (simp only: mset_map mset)
    also have "\<dots> = mset edits" by (metis map_nth mset_map)
    finally show "mset (map ((!) edits) ?o) = mset edits" .
    show "filter (\<lambda>x. re_key k = re_key x) (map ((!) edits) ?o) = filter (\<lambda>x. re_key k = re_key x) edits" for k
    proof -
      have "filter (\<lambda>x. re_key k = re_key x) (map ((!) edits) ?o) = map ((!) edits) (filter (\<lambda>i. re_key k = re_key (edits ! i)) ?o)"
        by (simp add: filter_map comp_def)
      also have "\<dots> = filter (\<lambda>x. re_key k = re_key x) (map ((!) edits) ?n)"
        unfolding same by (simp add: filter_map comp_def)
      finally show ?thesis by (simp only: map_nth)
    qed
    have "sorted_wrt (\<lambda>i j. re_key (edits ! i) \<le> re_key (edits ! j)) ?o"
      using srt unfolding sorted_map by (rule sorted_wrt_mono_rel[rotated]) auto
    then show "sorted (map re_key (map ((!) edits) ?o))" by (simp add: sorted_map sorted_wrt_map comp_def)
  qed
  then show ?thesis by simp
qed

fun last_wins :: "uint64 \<Rightarrow> row_edit list \<Rightarrow> run" where
  "last_wins g [] = []"
| "last_wins g [e] = [stamp g e]"
| "last_wins g (e # f # es) =
     (if re_key e = re_key f then last_wins g (f # es) else stamp g e # last_wins g (f # es))"

lemma unique_run_last_wins: "unique_run edits g order = last_wins g (map ((!) edits) order)"
  by (induction edits g order rule: unique_run.induct) (auto simp: stamp_def)

lemma last_wins_keys: "re_key ` set (last_wins g es) = re_key ` set es"
  by (induction g es rule: last_wins.induct) auto

lemma last_wins_Nil [simp]: "last_wins g es = [] \<longleftrightarrow> es = []"
  by (induction g es rule: last_wins.induct) auto

lemma last_wins_ok: "sorted (map re_key es) \<Longrightarrow> run_ok (last_wins g es)"
proof (induction g es rule: last_wins.induct)
  case (3 g e f es)
  have "re_key e < re_key x" if "re_key e \<noteq> re_key f" "x \<in> set (last_wins g (f # es))" for x
  proof -
    have "re_key x \<in> re_key ` set (f # es)" using last_wins_keys that(2) by blast
    then show ?thesis using 3(3) that(1) by auto
  qed
  then show ?case using 3 by (auto simp: run_ok_simps)
qed (auto simp: run_ok_simps)

lemma last_wins_map: "sorted (map re_key es) \<Longrightarrow> run_map (last_wins g es) = overlay g es Map.empty"
proof (induction g es rule: last_wins.induct)
  case (3 g e f es)
  show ?case
  proof (cases "re_key e = re_key f")
    case True
    then show ?thesis using 3 by (auto simp: overlay_def fun_upd_twist)
  next
    case False
    then have "re_key x \<noteq> re_key e" if "x \<in> set (f # es)" for x using 3(3) that by auto
    then have "overlay g (f # es) m = (overlay g (f # es) Map.empty)(re_key e \<mapsto> stamp g e)"
      if "m = [re_key e \<mapsto> stamp g e]" for m
      using that by (auto simp: fun_eq_iff overlay_apply filter_empty_conv split: list.split)
    then show ?thesis using 3 False by (simp add: overlay_def)
  qed
qed (auto simp: overlay_def)

lemma overlay_sort: "overlay g (sort_key re_key edits) m = overlay g edits m"
  by (rule ext) (simp add: overlay_apply sort_key_stable)

lemma unique_run_correct:
  "run_ok (unique_run edits g (edit_order edits))"
  "run_map (unique_run edits g (edit_order edits)) = overlay g edits Map.empty"
  by (simp_all add: unique_run_last_wins edit_order_stable last_wins_ok last_wins_map overlay_sort)

lemma merge_tiers_correct:
  assumes "list_all run_ok runs"
  shows "list_all run_ok (merge_tiers runs) \<and> run_map (pending_list (merge_tiers runs)) = run_map (pending_list runs)"
  using assms
proof (induction runs rule: merge_tiers.induct)
  case (1 runs)
  show ?case
  proof (cases "\<exists>a b rest. runs = a # b # rest \<and> 2 * length a \<ge> length b")
    case True
    then obtain a b rest where r: "runs = a # b # rest" "2 * length a \<ge> length b" by blast
    have ok: "list_all run_ok (mergeRuns a b # rest)" using 1(2) r by (simp add: mergeRuns_ok)
    have "run_map (pending_list (mergeRuns a b # rest)) = run_map (pending_list runs)"
      unfolding pending_list_map[OF ok] pending_list_map[OF 1(2)] using 1(2) r by (simp add: mergeRuns_map)
    then show ?thesis using 1(1)[OF r(1) refl r(2) ok] r by (subst (1 2) merge_tiers.simps) simp
  next
    case False
    then have "merge_tiers runs = runs" by (subst merge_tiers.simps) (auto split: list.split)
    then show ?thesis using 1(2) by simp
  qed
qed

lemma pending_with_correct:
  assumes "pending_ok p"
  shows "pending_ok (pending_with p edits g)" "pending_map (pending_with p edits g) = overlay g edits (pending_map p)"
proof -
  let ?r = "unique_run edits g (edit_order edits)"
  have ok: "list_all run_ok (?r # pruns p)" using assms unique_run_correct by (simp add: pending_ok_def)
  have "run_map (pending_list (?r # pruns p)) = overlay g edits (run_map (pending_list (pruns p)))"
    using assms by (simp add: pending_list_def mergeRuns_map pending_list_ok[unfolded pending_list_def]
        unique_run_correct pending_ok_def overlay_add[symmetric])
  then show "pending_ok (pending_with p edits g)" "pending_map (pending_with p edits g) = overlay g edits (pending_map p)"
    using assms merge_tiers_correct[OF ok]
    by (auto simp: pending_with_def pending_ok_def pending_map_def overlay_def)
qed

section \<open>Size tiers\<close>

lemma length_mergeRuns: "length a \<le> length (mergeRuns a b)"
  by (induction a b rule: mergeRuns.induct) auto

lemma merge_tiers_tiered:
  assumes "tiered (tl runs)" "list_all (\<lambda>r. r \<noteq> []) runs"
  shows "tiered (merge_tiers runs) \<and> list_all (\<lambda>r. r \<noteq> []) (merge_tiers runs)"
  using assms
proof (induction runs rule: merge_tiers.induct)
  case (1 runs)
  show ?case
  proof (cases "\<exists>a b rest. runs = a # b # rest \<and> 2 * length a \<ge> length b")
    case True
    then obtain a b rest where r: "runs = a # b # rest" "2 * length a \<ge> length b" by blast
    have ne: "mergeRuns a b \<noteq> []" using length_mergeRuns[of a b] 1(3) r by auto
    have "tiered rest" using 1(2) r by (cases rest) auto
    then have "tiered (merge_tiers (mergeRuns a b # rest)) \<and> list_all (\<lambda>r. r \<noteq> []) (merge_tiers (mergeRuns a b # rest))"
      using 1(1)[OF r(1) refl r(2)] 1(3) r ne by simp
    then show ?thesis using r by (subst (1 2) merge_tiers.simps) simp
  next
    case False
    then have "merge_tiers runs = runs" by (subst merge_tiers.simps) (auto split: list.split)
    moreover have "tiered runs" using False 1(2) by (cases runs rule: tiered.cases) auto
    ultimately show ?thesis using 1(3) by simp
  qed
qed

lemma tiered_length:
  "tiered (r # rs) \<Longrightarrow> 2 ^ length rs * length r \<le> length (last (r # rs))"
proof (induction rs arbitrary: r)
  case (Cons s rs)
  then have "2 ^ length rs * (2 * length r) \<le> 2 ^ length rs * length s" by (intro mult_le_mono2) simp
  also have "\<dots> \<le> length (last (s # rs))" using Cons.IH[of s] Cons.prems by simp
  finally show ?case by (simp add: ac_simps)
qed simp

lemma pending_Len_sum: "pending_Len p = sum_list (map length (pruns p))"
proof -
  have "fold (\<lambda>run n. n + length run) runs n = n + sum_list (map length runs)" for runs :: "run list" and n
    by (induction runs arbitrary: n) auto
  then show ?thesis by (simp add: pending_Len_def)
qed

definition pending_inv :: "PendingRows \<Rightarrow> bool" where
  "pending_inv p \<longleftrightarrow> pending_ok p \<and> tiered (pruns p) \<and> list_all (\<lambda>r. r \<noteq> []) (pruns p)"

lemma pending_with_inv: "pending_inv p \<Longrightarrow> pending_inv (pending_with p edits g)"
proof -
  assume p: "pending_inv p"
  have "unique_run edits g (edit_order edits) \<noteq> []" if "edits \<noteq> []"
    using that by (simp add: unique_run_last_wins edit_order_stable) (metis length_0_conv length_sort)
  then show ?thesis
    using p pending_with_correct(1)[of p edits g]
      merge_tiers_tiered[of "unique_run edits g (edit_order edits) # pruns p"]
    by (auto simp: pending_inv_def pending_with_def)
qed

lemma pending_runs_logarithmic: "pending_inv p \<Longrightarrow> 2 ^ length (pruns p) \<le> 2 * pending_Len p + 1"
proof -
  assume p: "pending_inv p"
  show ?thesis
  proof (cases "pruns p")
    case (Cons r rs)
    have "1 \<le> length r" using p Cons by (cases r) (auto simp: pending_inv_def)
    then have "2 ^ length rs * 1 \<le> 2 ^ length rs * length r" by (intro mult_le_mono2)
    also have "\<dots> \<le> length (last (r # rs))" using tiered_length[of r rs] p Cons by (simp add: pending_inv_def)
    also have "\<dots> \<le> pending_Len p"
      unfolding pending_Len_sum Cons by (intro member_le_sum_list) auto
    finally show ?thesis using Cons by simp
  qed (simp add: pending_Len_sum)
qed

end
