(* ===== verification/Snapshot_Store.thy ===== *)
theory Snapshot_Store
  imports Content_Store Key_Codec Pending_Rows "HOL-Library.AList"
begin

text \<open>
  Snapshots and snapshot writers (\<open>common/repository/repository.go\<close>).

  A Go map is an association list with distinct keys; the order of the list is the iteration order,
  which Go leaves open, so a fact about every such list is a fact about every iteration order. A set
  (\<open>map[...]struct{}\<close>) is the list of its keys. A map whose nil-ness the code tests is an option.

  A snapshot reads its objects from Git by object id, checks each against its name and keeps it in its
  cache. Git's \<open>ReadObjects\<close> is the parameter \<open>readGit\<close>: the bytes of the listed ids, or an error.
  The cache is a field of the snapshot here; in the code snapshots of one commit share it. Locks and
  metrics are left out, and \<open>Prefetch\<close>, which only fills the cache.
\<close>

type_synonym ('k, 'v) gomap = "('k \<times> 'v) list"
type_synonym gitReader = "bytes list \<Rightarrow> error + (bytes, bytes) gomap"

section \<open>Definitions\<close>

definition ascii :: "string \<Rightarrow> bytes" where
  "ascii s = map of_char s"

record Table =
  SchemaRoot :: hash
  DataRoot :: hash
  Indexes :: "(bytes, hash) gomap"

definition table_Equal :: "Table \<Rightarrow> Table \<Rightarrow> bool" where
  "table_Equal t other \<longleftrightarrow>
     SchemaRoot t = SchemaRoot other \<and> DataRoot t = DataRoot other \<and> length (Indexes t) = length (Indexes other) \<and>
     list_all (\<lambda>(name, h). (case map_of (Indexes other) name of None \<Rightarrow> [] | Some h' \<Rightarrow> h') = h) (Indexes t)"

record Manifest =
  mf_FormatVersion :: int
  mf_DefaultDatabase :: bytes
  mf_Tables :: "(bytes, Table) gomap option"
  mf_Objects :: "hash list"

definition FormatVersion :: int where "FormatVersion = 6"

definition mf_tables :: "Manifest \<Rightarrow> (bytes, Table) gomap" where
  "mf_tables m = (case mf_Tables m of None \<Rightarrow> [] | Some ts \<Rightarrow> ts)"

record Snapshot =
  sn_repo :: nat
  sn_Commit :: bytes
  sn_generation :: uint64
  sn_Manifest :: Manifest
  sn_objectSet :: "hash list"
  sn_objectOIDs :: "(hash, bytes) gomap"
  sn_cache :: "(hash, bytes) gomap"
  sn_pendingEdits :: "(bytes, PendingRows) gomap option"

text \<open>\<open>m[key]\<close> of a map with values of kind string or []byte.\<close>

definition index_or_empty :: "('k, bytes) gomap \<Rightarrow> 'k \<Rightarrow> bytes" where
  "index_or_empty m k = (case map_of m k of None \<Rightarrow> [] | Some v \<Rightarrow> v)"

subsection \<open>Reading objects\<close>

definition readObjects :: "(bytes \<Rightarrow> bytes) \<Rightarrow> gitReader \<Rightarrow> Snapshot \<Rightarrow> hash list \<Rightarrow> (error + unit) \<times> Snapshot" where
  "readObjects H readGit s hashes =
     (let want = filter (\<lambda>h. map_of (sn_cache s) h = None \<and> h \<in> set (sn_objectSet s)
                             \<and> index_or_empty (sn_objectOIDs s) h \<noteq> []) hashes
      in if want = [] then (Inr (), s)
         else case readGit (map (index_or_empty (sn_objectOIDs s)) want) of
           Inl e \<Rightarrow> (Inl e, s)
         | Inr objects \<Rightarrow>
             let read = map (\<lambda>h. (h, index_or_empty objects (index_or_empty (sn_objectOIDs s) h))) want;
                 verified = filter (\<lambda>(h, d). storage_Sum H d = h) read
             in (if list_all (\<lambda>(h, d). storage_Sum H d = h) read then Inr () else Inl ObjectFailedIntegrity,
                 s\<lparr>sn_cache := fold (\<lambda>(h, d). AList.update h d) verified (sn_cache s)\<rparr>))"

definition snapshot_Get :: "(bytes \<Rightarrow> bytes) \<Rightarrow> gitReader \<Rightarrow> Snapshot \<Rightarrow> hash \<Rightarrow> (error + bytes) \<times> Snapshot" where
  "snapshot_Get H readGit s h =
     (if \<not> hash_Valid h then (Inl InvalidObjectHash, s)
      else if h \<notin> set (sn_objectSet s) then (Inl StoreNotFound, s)
      else case map_of (sn_cache s) h of
        Some data \<Rightarrow> (Inr data, s)
      | None \<Rightarrow>
          if index_or_empty (sn_objectOIDs s) h = [] then (Inl ObjectHasNoGitObject, s)
          else case readObjects H readGit s [h] of
            (Inl e, s') \<Rightarrow> (Inl e, s')
          | (Inr _, s') \<Rightarrow> (Inr (index_or_empty (sn_cache s') h), s'))"

definition snapshot_read :: "(bytes \<Rightarrow> bytes) \<Rightarrow> gitReader \<Rightarrow> Snapshot \<Rightarrow> hash \<Rightarrow> error + bytes" where
  "snapshot_read H readGit s h = fst (snapshot_Get H readGit s h)"

definition snapshot_Put :: "Snapshot \<Rightarrow> bytes \<Rightarrow> error + hash \<times> Snapshot" where
  "snapshot_Put s data = Inl StoreReadOnly"

record ObjectRef =
  ref_Hash :: hash
  ref_OID :: bytes

definition ObjectRefs :: "Snapshot \<Rightarrow> hash list \<Rightarrow> ObjectRef list" where
  "ObjectRefs s hashes = map (\<lambda>h. \<lparr>ref_Hash = h, ref_OID = index_or_empty (sn_objectOIDs s) h\<rparr>) hashes"

definition Provides :: "Snapshot \<Rightarrow> ObjectRef list \<Rightarrow> bool" where
  "Provides s refs \<longleftrightarrow>
     list_all (\<lambda>ref. ref_Hash ref \<in> set (sn_objectSet s) \<and>
       (map_of (sn_cache s) (ref_Hash ref) \<noteq> None
        \<or> \<not> (ref_OID ref = [] \<or> index_or_empty (sn_objectOIDs s) (ref_Hash ref) \<noteq> ref_OID ref))) refs"

subsection \<open>Manifests\<close>

text \<open>\<open>strings.TrimSpace(s) == ""\<close>: every rune is \<open>unicode.IsSpace\<close>.\<close>

definition is_space :: "nat \<Rightarrow> bool" where
  "is_space r \<longleftrightarrow> r \<in> {0x09, 0x0A, 0x0B, 0x0C, 0x0D, 0x20, 0x85, 0xA0, 0x1680, 0x2028, 0x2029, 0x202F, 0x205F, 0x3000}
     \<or> (0x2000 \<le> r \<and> r \<le> 0x200A)"

function blank :: "bytes \<Rightarrow> bool" where
  "blank s = (if s = [] then True else let (r, n) = decode_rune s in if is_space r then blank (drop n s) else False)"
  by pat_completeness auto
termination
  by (relation "measure length") (auto simp: decode_rune_def runeError_def is_space_def split: list.splits if_splits)

declare blank.simps [simp del]

definition root_listed :: "hash list \<Rightarrow> hash \<Rightarrow> bool" where
  "root_listed objects h \<longleftrightarrow> h = [] \<or> h \<in> set objects"

fun check_tables :: "hash list \<Rightarrow> (bytes, Table) gomap \<Rightarrow> error + unit" where
  "check_tables objects [] = Inr ()"
| "check_tables objects ((name, table) # ts) =
     (if blank name then Inl (RepoError EmptyTableName)
      else if \<not> (root_listed objects (SchemaRoot table) \<and> root_listed objects (DataRoot table)) then Inl (RepoError RootNotInInventory)
      else check_tables objects ts)"

definition validateManifestInventory :: "Manifest \<Rightarrow> hash list \<Rightarrow> error + unit" where
  "validateManifestInventory m objects =
     (if mf_DefaultDatabase m = [] then Inl (RepoError EmptyDefaultDatabase)
      else case mf_Tables m of
        None \<Rightarrow> Inl (RepoError TablesAbsent)
      | Some ts \<Rightarrow> check_tables objects ts)"

definition sortedHashSet :: "hash list \<Rightarrow> hash list" where
  "sortedHashSet objects = sort (remdups objects)"

subsection \<open>Writers\<close>

record Writer =
  w_repo :: nat
  w_base :: "Snapshot option"
  w_expected :: bytes
  w_objects :: "(hash, bytes) gomap"
  w_objectOIDs :: "(hash, bytes) gomap"
  w_retained :: "hash list option"
  w_parents :: "bytes list"
  w_committed :: bool
  w_workingLockHeld :: bool

definition BeginSnapshot :: "nat \<Rightarrow> Snapshot option \<Rightarrow> error + Writer" where
  "BeginSnapshot repo base =
     (case base of
        None \<Rightarrow> Inl (RepoError ForeignSnapshot)
      | Some b \<Rightarrow>
          if sn_repo b \<noteq> repo then Inl (RepoError ForeignSnapshot)
          else Inr \<lparr>w_repo = repo, w_base = Some b, w_expected = sn_Commit b, w_objects = [], w_objectOIDs = [],
                    w_retained = None, w_parents = [], w_committed = False, w_workingLockHeld = False\<rparr>)"

definition BeginMergeSnapshots :: "nat \<Rightarrow> Snapshot option \<Rightarrow> Snapshot option \<Rightarrow> error + Writer" where
  "BeginMergeSnapshots repo local remote =
     (case (local, remote) of
        (Some l, Some r) \<Rightarrow>
          if sn_repo l \<noteq> repo \<or> sn_repo r \<noteq> repo then Inl (RepoError ForeignSnapshot)
          else Inr \<lparr>w_repo = repo, w_base = Some l, w_expected = sn_Commit l, w_objects = [], w_objectOIDs = [],
                    w_retained = None, w_parents = [sn_Commit l, sn_Commit r], w_committed = False, w_workingLockHeld = False\<rparr>
      | _ \<Rightarrow> Inl (RepoError BaseSnapshotRequired))"

definition in_base :: "Writer \<Rightarrow> hash \<Rightarrow> bool" where
  "in_base w h \<longleftrightarrow> (case w_base w of None \<Rightarrow> False | Some b \<Rightarrow> h \<in> set (sn_objectSet b))"

definition writer_Put :: "(bytes \<Rightarrow> bytes) \<Rightarrow> Writer \<Rightarrow> bytes \<Rightarrow> error + hash \<times> Writer" where
  "writer_Put H w data =
     (let h = storage_Sum H data
      in if w_committed w then Inl WriterCommitted
         else if in_base w h then Inr (h, w)
         else case map_of (w_objects w) h of
           None \<Rightarrow> Inr (h, w\<lparr>w_objects := AList.update h data (w_objects w)\<rparr>)
         | Some _ \<Rightarrow> Inr (h, w))"

definition writer_Get :: "(bytes \<Rightarrow> bytes) \<Rightarrow> gitReader \<Rightarrow> Writer \<Rightarrow> hash \<Rightarrow> error + bytes" where
  "writer_Get H readGit w h =
     (if \<not> hash_Valid h then Inl InvalidObjectHash
      else case map_of (w_objects w) h of
        Some data \<Rightarrow> Inr data
      | None \<Rightarrow> (case w_base w of None \<Rightarrow> Inl StoreNotFound | Some b \<Rightarrow> snapshot_read H readGit b h))"

fun import_loop :: "(hash \<Rightarrow> error + bytes) \<Rightarrow> (hash, bytes) gomap \<Rightarrow> hash list \<Rightarrow> Writer \<Rightarrow> (error + unit) \<times> Writer" where
  "import_loop get oids [] w = (Inr (), w)"
| "import_loop get oids (h # hs) w =
     (if \<not> hash_Valid h then (Inl (RepoError InvalidImportedHash), w)
      else if in_base w h then import_loop get oids hs w
      else if map_of (w_objects w) h \<noteq> None then import_loop get oids hs w
      else case get h of
        Inl e \<Rightarrow> (Inl e, w)
      | Inr data \<Rightarrow>
          import_loop get oids hs (w\<lparr>w_objects := AList.update h data (w_objects w),
                                     w_objectOIDs := AList.update h (index_or_empty oids h) (w_objectOIDs w)\<rparr>))"

definition ImportObjects :: "(bytes \<Rightarrow> bytes) \<Rightarrow> gitReader \<Rightarrow> Writer \<Rightarrow> Snapshot option \<Rightarrow> hash list \<Rightarrow> (error + unit) \<times> Writer" where
  "ImportObjects H readGit w source hashes =
     (case source of
        None \<Rightarrow> (Inl (RepoError ForeignSnapshot), w)
      | Some s \<Rightarrow>
          if sn_repo s \<noteq> w_repo w then (Inl (RepoError ForeignSnapshot), w)
          else if w_committed w then (Inl WriterCommitted, w)
          else import_loop (snapshot_read H readGit s) (sn_objectOIDs s) hashes w)"

fun retain_loop :: "hash list \<Rightarrow> hash list \<Rightarrow> (error + unit) \<times> hash list" where
  "retain_loop [] retained = (Inr (), retained)"
| "retain_loop (h # hs) retained =
     (if \<not> hash_Valid h then (Inl (RepoError InvalidRetainedHash), retained)
      else retain_loop hs (List.insert h retained))"

definition RetainOnly :: "Writer \<Rightarrow> hash list \<Rightarrow> (error + unit) \<times> Writer" where
  "RetainOnly w hashes =
     (if w_committed w then (Inl WriterCommitted, w)
      else case retain_loop hashes [] of (res, retained) \<Rightarrow> (res, w\<lparr>w_retained := Some retained\<rparr>))"

text \<open>The inventory of the next snapshot: the retained objects, or everything the base and the writer hold.\<close>

definition available_objects :: "Writer \<Rightarrow> hash list" where
  "available_objects w =
     (case w_retained w of
        Some retained \<Rightarrow> retained
      | None \<Rightarrow> remdups ((case w_base w of None \<Rightarrow> [] | Some b \<Rightarrow> mf_Objects (sn_Manifest b)) @ map fst (w_objects w)))"

fun check_available :: "(bytes \<Rightarrow> bytes) \<Rightarrow> (hash \<Rightarrow> bool) \<Rightarrow> (hash, bytes) gomap \<Rightarrow> hash list \<Rightarrow> error + unit" where
  "check_available H inBase new [] = Inr ()"
| "check_available H inBase new (h # hs) =
     (if \<not> inBase h \<and> map_of new h = None then Inl (RepoError RetainedUnavailable)
      else if (case map_of new h of None \<Rightarrow> False | Some data \<Rightarrow> storage_Sum H data \<noteq> h) then Inl ObjectFailedIntegrity
      else check_available H inBase new hs)"

definition fill_manifest :: "Manifest \<Rightarrow> hash list \<Rightarrow> Manifest" where
  "fill_manifest m available =
     m\<lparr>mf_FormatVersion := FormatVersion,
       mf_DefaultDatabase := (if mf_DefaultDatabase m = [] then ascii ''repodb'' else mf_DefaultDatabase m),
       mf_Tables := (case mf_Tables m of None \<Rightarrow> Some [] | Some ts \<Rightarrow> Some ts),
       mf_Objects := sortedHashSet available\<rparr>"

text \<open>\<open>takeWorkingWriter\<close> panics on a writer without a base, unless it retains nothing.\<close>

definition takeWorkingWriter ::
  "(bytes \<Rightarrow> bytes) \<Rightarrow> Writer \<Rightarrow> Manifest \<Rightarrow> (error + Manifest \<times> hash list \<times> (hash, bytes) gomap) \<times> Writer" where
  "takeWorkingWriter H w m =
     (if w_committed w then (Inl WriterCommitted, w)
      else let w' = w\<lparr>w_committed := True, w_objects := []\<rparr>; available = available_objects w
           in if w_base w = None \<and> w_retained w \<noteq> Some [] then (Inl (TableError NilDereference), w')
              else case check_available H (in_base w) (w_objects w) available of
                Inl e \<Rightarrow> (Inl e, w')
              | Inr _ \<Rightarrow>
                  let m' = fill_manifest m available
                  in (case validateManifestInventory m' available of
                        Inl e \<Rightarrow> (Inl e, w')
                      | Inr _ \<Rightarrow> (Inr (m', available, filter (\<lambda>(h, _). h \<in> set available) (w_objects w)), w')))"

section \<open>Reads through the cache\<close>

definition cache_named :: "(bytes \<Rightarrow> bytes) \<Rightarrow> Snapshot \<Rightarrow> bool" where
  "cache_named H s \<longleftrightarrow> (\<forall>h d. map_of (sn_cache s) h = Some d \<longrightarrow> storage_Sum H d = h)"

lemma snapshot_Get_miss:
  assumes "hash_Valid h" "h \<in> set (sn_objectSet s)" "map_of (sn_cache s) h = None"
  shows "snapshot_Get H readGit s h =
    (let oid = index_or_empty (sn_objectOIDs s) h
     in if oid = [] then (Inl ObjectHasNoGitObject, s)
        else case readGit [oid] of
          Inl e \<Rightarrow> (Inl e, s)
        | Inr objects \<Rightarrow>
            if storage_Sum H (index_or_empty objects oid) = h
            then (Inr (index_or_empty objects oid), s\<lparr>sn_cache := AList.update h (index_or_empty objects oid) (sn_cache s)\<rparr>)
            else (Inl ObjectFailedIntegrity, s))"
  using assms
  by (auto simp: snapshot_Get_def readObjects_def Let_def index_or_empty_def update_conv' split: sum.split)

text \<open>A read fills the cache and changes nothing else; every later read has the same result.\<close>

lemma snapshot_Get_transparent:
  "snapshot_read H readGit (snd (snapshot_Get H readGit s h)) h' = snapshot_read H readGit s h'"
proof -
  consider "snd (snapshot_Get H readGit s h) = s"
    | d where "hash_Valid h" "h \<in> set (sn_objectSet s)" "map_of (sn_cache s) h = None" "snapshot_Get H readGit s h =
        (Inr d, s\<lparr>sn_cache := AList.update h d (sn_cache s)\<rparr>)"
  proof (cases "hash_Valid h \<and> h \<in> set (sn_objectSet s) \<and> map_of (sn_cache s) h = None")
    case True
    then show ?thesis
      using that snapshot_Get_miss[of h s H readGit] by (auto simp: Let_def split: if_splits sum.splits)
  next
    case False
    then show ?thesis using that(1) by (auto simp: snapshot_Get_def)
  qed
  then show ?thesis
  proof cases
    case (2 d)
    show ?thesis
    proof (cases "h' = h")
      case True
      then show ?thesis using 2 by (simp add: snapshot_read_def snapshot_Get_def[of _ _ "s\<lparr>sn_cache := _\<rparr>"] update_conv')
    next
      case False
      then show ?thesis
        using 2(4) by (simp add: snapshot_read_def snapshot_Get_def readObjects_def index_or_empty_def update_conv' Let_def
            split: option.split sum.split)
    qed
  qed simp
qed

lemma snapshot_Get_named: "cache_named H s \<Longrightarrow> cache_named H (snd (snapshot_Get H readGit s h))"
  using snapshot_Get_miss[of h s H readGit]
  by (cases "hash_Valid h \<and> h \<in> set (sn_objectSet s) \<and> map_of (sn_cache s) h = None")
    (auto simp: cache_named_def Let_def update_conv' snapshot_Get_def[of H readGit s h] split: if_splits sum.splits option.splits)

text \<open>Bytes are only returned under the name they hash to.\<close>

lemma snapshot_read_Sum:
  assumes "cache_named H s" "snapshot_read H readGit s h = Inr d"
  shows "storage_Sum H d = h \<and> h \<in> set (sn_objectSet s)"
proof (cases "map_of (sn_cache s) h")
  case None
  then have "hash_Valid h" "h \<in> set (sn_objectSet s)"
    using assms(2) by (auto simp: snapshot_read_def snapshot_Get_def split: if_splits)
  then show ?thesis
    using assms(2) None snapshot_Get_miss[of h s H readGit]
    by (auto simp: snapshot_read_def Let_def split: if_splits sum.splits)
next
  case (Some x)
  then show ?thesis using assms by (auto simp: snapshot_read_def snapshot_Get_def cache_named_def split: if_splits)
qed

section \<open>A writer is a content store\<close>

text \<open>
  The invariant of a writer in use: not committed, its objects under their names, and every object its
  base lists readable. A writer over a damaged base would not keep the laws of a store: \<open>Put\<close> drops
  the data of an object the base lists.
\<close>

definition snapshot_sound :: "(bytes \<Rightarrow> bytes) \<Rightarrow> gitReader \<Rightarrow> Snapshot \<Rightarrow> bool" where
  "snapshot_sound H readGit s \<longleftrightarrow> cache_named H s \<and> (\<forall>h \<in> set (sn_objectSet s). \<not> isl (snapshot_read H readGit s h))"

definition objects_named :: "(bytes \<Rightarrow> bytes) \<Rightarrow> (hash, bytes) gomap \<Rightarrow> bool" where
  "objects_named H m \<longleftrightarrow> (\<forall>h d. map_of m h = Some d \<longrightarrow> h = storage_Sum H d)"

definition writer_inv :: "(bytes \<Rightarrow> bytes) \<Rightarrow> gitReader \<Rightarrow> Writer \<Rightarrow> bool" where
  "writer_inv H readGit w \<longleftrightarrow> \<not> w_committed w \<and> objects_named H (w_objects w)
     \<and> (\<forall>b. w_base w = Some b \<longrightarrow> snapshot_sound H readGit b)"

lemma writer_inv_BeginSnapshot:
  assumes "snapshot_sound H readGit b" "BeginSnapshot repo (Some b) = Inr w"
  shows "writer_inv H readGit w"
  using assms by (auto simp: BeginSnapshot_def writer_inv_def objects_named_def split: if_splits)

lemma writer_inv_BeginMergeSnapshots:
  assumes "snapshot_sound H readGit l" "BeginMergeSnapshots repo (Some l) (Some r) = Inr w"
  shows "writer_inv H readGit w"
  using assms by (auto simp: BeginMergeSnapshots_def writer_inv_def objects_named_def split: if_splits)

lemma writer_Get_objects: "hash_Valid h \<Longrightarrow> map_of (w_objects w) h = Some d \<Longrightarrow> writer_Get H readGit w h = Inr d"
  by (simp add: writer_Get_def)

lemma writer_Get_base:
  "writer_inv H readGit w \<Longrightarrow> in_base w h \<Longrightarrow> hash_Valid h \<Longrightarrow> \<not> isl (writer_Get H readGit w h)"
  by (auto simp: writer_inv_def in_base_def writer_Get_def snapshot_sound_def split: option.splits)

lemma writer_Get_Sum:
  assumes "writer_inv H readGit w" "writer_Get H readGit w h = Inr d"
  shows "h = storage_Sum H d"
  using assms snapshot_read_Sum[of H _ readGit h d]
  by (auto simp: writer_Get_def writer_inv_def objects_named_def snapshot_sound_def split: if_splits option.splits)

lemma writer_Get_update:
  assumes "hash_Valid h"
  shows "writer_Get H readGit (w\<lparr>w_objects := AList.update h d (w_objects w), w_objectOIDs := m\<rparr>) h' =
    (if h' = h then Inr d else writer_Get H readGit w h')"
  using assms by (simp add: writer_Get_def update_conv' split: option.split)

sublocale digest32 \<subseteq> wr: content_store H "writer_Get H readGit" "writer_Put H" "writer_inv H readGit" for readGit
proof
  fix w d h w' h'
  assume inv: "writer_inv H readGit w"
  show "\<exists>w'. writer_Put H w d = Inr (storage_Sum H d, w') \<and> writer_inv H readGit w'"
    using inv by (auto simp: writer_Put_def Let_def writer_inv_def objects_named_def update_conv' split: option.split)
  show "h = storage_Sum H d" if "writer_Get H readGit w h = Inr d"
    using writer_Get_Sum[OF inv that] .
  show "writer_Get H readGit w' h' =
      (if h' = storage_Sum H d \<and> isl (writer_Get H readGit w h') then Inr d else writer_Get H readGit w h')"
    if put: "writer_Put H w d = Inr (h, w')"
  proof (cases "in_base w (storage_Sum H d) \<or> map_of (w_objects w) (storage_Sum H d) \<noteq> None")
    case True
    have "\<not> isl (writer_Get H readGit w (storage_Sum H d))"
      using True writer_Get_base[OF inv] writer_Get_objects hash_Valid_Sum by fastforce
    moreover have "w' = w" using True put by (auto simp: writer_Put_def Let_def split: if_splits option.splits)
    ultimately show ?thesis by auto
  next
    case False
    then have w': "w' = w\<lparr>w_objects := AList.update (storage_Sum H d) d (w_objects w)\<rparr>"
      using put by (auto simp: writer_Put_def Let_def split: if_splits)
    have "isl (writer_Get H readGit w (storage_Sum H d))"
      using False snapshot_read_Sum inv
      by (auto simp: writer_Get_def in_base_def writer_inv_def snapshot_sound_def snapshot_read_def snapshot_Get_def split: option.split)
    then show ?thesis using w' False hash_Valid_Sum by (auto simp: writer_Get_def update_conv' split: option.split)
  qed
qed


text \<open>An import adds objects under their names; it succeeds when the source can serve every listed object.\<close>

lemma import_loop_spec:
  assumes "writer_inv H readGit w" "\<And>h d. get h = Inr d \<Longrightarrow> h = storage_Sum H d" "import_loop get oids hs w = (res, w')"
  shows "writer_inv H readGit w' \<and> w_base w' = w_base w \<and> w_repo w' = w_repo w
    \<and> (\<forall>h d. writer_Get H readGit w h = Inr d \<longrightarrow> writer_Get H readGit w' h = Inr d)
    \<and> (res = Inr () \<longrightarrow> (\<forall>h \<in> set hs. \<not> isl (writer_Get H readGit w' h)))
    \<and> ((\<forall>h \<in> set hs. hash_Valid h \<and> \<not> isl (get h)) \<longrightarrow> res = Inr ())"
  using assms(1,3)
proof (induction hs arbitrary: w)
  case (Cons h hs)
  show ?case
  proof (cases "hash_Valid h \<and> \<not> in_base w h \<and> map_of (w_objects w) h = None")
    case True
    show ?thesis
    proof (cases "get h")
      case (Inr d)
      let ?w = "w\<lparr>w_objects := AList.update h d (w_objects w), w_objectOIDs := AList.update h (index_or_empty oids h) (w_objectOIDs w)\<rparr>"
      have step: "import_loop get oids hs ?w = (res, w')" using Cons.prems(2) True Inr by simp
      have "writer_inv H readGit ?w"
        using Cons.prems(1) assms(2)[OF Inr] by (auto simp: writer_inv_def objects_named_def update_conv')
      note IH = Cons.IH[OF this step]
      have here: "writer_Get H readGit ?w x = (if x = h then Inr d else writer_Get H readGit w x)" for x
        by (rule writer_Get_update) (use True in simp)
      have "isl (writer_Get H readGit w h)"
        using True snapshot_read_Sum Cons.prems(1)
        by (auto simp: writer_Get_def in_base_def writer_inv_def snapshot_sound_def snapshot_read_def snapshot_Get_def split: option.split)
      then have keep: "writer_Get H readGit w' x = Inr y" if "writer_Get H readGit w x = Inr y" for x y
        using IH here[of x] that by (cases "x = h") auto
      have got: "writer_Get H readGit w' h = Inr d" using IH here[of h] by simp
      show ?thesis
        using IH by (intro conjI) (simp_all add: keep got)
    qed (use Cons.prems True in auto)
  next
    case False
    show ?thesis
    proof (cases "hash_Valid h")
      case True
      then have "\<not> isl (writer_Get H readGit w h)"
        using False writer_Get_base[OF Cons.prems(1)] writer_Get_objects[of h w _ H readGit]
        by (cases "map_of (w_objects w) h") auto
      moreover have "import_loop get oids hs w = (res, w')" using Cons.prems(2) True False by (auto split: if_splits)
      note IH = Cons.IH[OF Cons.prems(1) this]
      ultimately have "\<not> isl (writer_Get H readGit w' h)"
        using IH by (cases "writer_Get H readGit w h") auto
      then show ?thesis using IH by (intro conjI) simp_all
    qed (use Cons.prems in auto)
  qed
qed auto

lemma ImportObjects_spec:
  assumes "writer_inv H readGit w" "cache_named H s" "ImportObjects H readGit w (Some s) hs = (res, w')"
  shows "writer_inv H readGit w' \<and> w_base w' = w_base w \<and> w_repo w' = w_repo w
    \<and> (\<forall>h d. writer_Get H readGit w h = Inr d \<longrightarrow> writer_Get H readGit w' h = Inr d)
    \<and> (res = Inr () \<longrightarrow> (\<forall>h \<in> set hs. \<not> isl (writer_Get H readGit w' h)))
    \<and> (sn_repo s = w_repo w \<and> (\<forall>h \<in> set hs. hash_Valid h \<and> \<not> isl (snapshot_read H readGit s h)) \<longrightarrow> res = Inr ())"
proof -
  have named: "h = storage_Sum H d" if "snapshot_read H readGit s h = Inr d" for h d
    using snapshot_read_Sum[OF assms(2) that] by simp
  have live: "\<not> w_committed w" using assms(1) by (simp add: writer_inv_def)
  show ?thesis
  proof (cases "sn_repo s = w_repo w")
    case True
    then have "import_loop (snapshot_read H readGit s) (sn_objectOIDs s) hs w = (res, w')"
      using assms(3) live by (simp add: ImportObjects_def)
    from import_loop_spec[OF assms(1) named this] show ?thesis using True by blast
  qed (use assms live in \<open>auto simp: ImportObjects_def\<close>)
qed

section \<open>The inventory of a commit\<close>

lemma check_available_iff:
  "check_available H inBase new hs = Inr () \<longleftrightarrow>
     (\<forall>h \<in> set hs. case map_of new h of None \<Rightarrow> inBase h | Some d \<Rightarrow> storage_Sum H d = h)"
  by (induction hs) (auto split: option.split)

lemma check_tables_iff:
  "check_tables objects ts = Inr () \<longleftrightarrow>
     (\<forall>(name, t) \<in> set ts. \<not> blank name \<and> root_listed objects (SchemaRoot t) \<and> root_listed objects (DataRoot t))"
  by (induction objects ts rule: check_tables.induct) auto

lemma sortedHashSet_set [simp]: "set (sortedHashSet hs) = set hs"
  by (simp add: sortedHashSet_def)

lemma sortedHashSet_sorted: "sorted_wrt (<) (sortedHashSet hs)"
  by (simp add: sortedHashSet_def strict_sorted_iff)

lemma map_of_filter_fst: "map_of (filter (\<lambda>(k, _). P k) m) k = (if P k then map_of m k else None)"
  by (induction m) auto

text \<open>
  What a writer hands to a journal commit: a manifest whose inventory is sorted, and for each of its
  objects either the base's or bytes that hash to its name.
\<close>

lemma takeWorkingWriter_inventory:
  assumes "takeWorkingWriter H w m = (Inr (m', available, kept), w')"
  shows "\<not> w_committed w \<and> w_committed w' \<and> set available = set (available_objects w)
    \<and> mf_Objects m' = sortedHashSet available \<and> mf_tables m' = mf_tables m \<and> mf_FormatVersion m' = FormatVersion
    \<and> validateManifestInventory m' available = Inr ()
    \<and> (\<forall>h \<in> set available. in_base w h \<or> map_of kept h \<noteq> None)
    \<and> objects_named H kept"
proof -
  have m': "m' = fill_manifest m available" and av: "available = available_objects w"
    and check: "check_available H (in_base w) (w_objects w) available = Inr ()"
    and kept: "kept = filter (\<lambda>(h, _). h \<in> set available) (w_objects w)"
    and rest: "\<not> w_committed w" "w_committed w'" "validateManifestInventory m' available = Inr ()"
    using assms by (auto simp: takeWorkingWriter_def Let_def split: if_splits sum.splits)
  have lookup: "map_of kept h = (if h \<in> set available then map_of (w_objects w) h else None)" for h
    by (simp add: kept map_of_filter_fst)
  show ?thesis
    using check rest
    by (auto simp: check_available_iff lookup objects_named_def m' fill_manifest_def mf_tables_def av split: option.splits if_splits)
qed

end
