(* ===== verification/Row_Codec.thy ===== *)
theory Row_Codec
  imports Sql_Values
begin

text \<open>
  The row codec of \<open>engine/rowcodec.go\<close>: encoder, decoder, projections and the decoder that skips
  the columns a projection leaves out. A decoder is the record \<open>rowDecoder\<close> with its lazily made
  string copy of the data. A panic (an index out of range) is the error \<open>IndexOutOfRange\<close>.
\<close>

section \<open>Encoder\<close>

definition decimalSmall :: byte where "decimalSmall = 0"
definition decimalBig :: byte where "decimalBig = 1"

definition appendBytesCell :: "bytes \<Rightarrow> bytes \<Rightarrow> bytes" where
  "appendBytesCell dst b = dst @ append_uvarint (of_nat (length b)) @ b"

text \<open>\<open>big.Int.Bytes\<close> and \<open>SetBytes\<close>: the big-endian magnitude without leading zeros.\<close>

fun magnitude :: "nat \<Rightarrow> bytes" where
  "magnitude n = (if n = 0 then [] else magnitude (n div 256) @ [of_nat (n mod 256)])"

declare magnitude.simps [simp del]

definition setBytes :: "bytes \<Rightarrow> nat" where
  "setBytes bs = foldl (\<lambda>n b. n * 256 + unat b) 0 bs"

definition appendDecimalCell :: "sqllib \<Rightarrow> bytes \<Rightarrow> decimal \<Rightarrow> int \<Rightarrow> error + bytes" where
  "appendDecimalCell lib dst d scale =
     (if \<not> dfinite d then Inl (RowError DecimalNotFinite)
      else case (if dexponent d \<noteq> - scale then decimal_round lib d scale else Inr d) of
             Inl e \<Rightarrow> Inl e
           | Inr d \<Rightarrow>
               let negative = dnegative d \<and> dcoeff d \<noteq> 0
               in if dcoeff d < 2 ^ 63
                  then let v = of_nat (dcoeff d)
                       in Inr (dst @ [decimalSmall] @ append_varint (if negative then - v else v))
                  else Inr (appendBytesCell (dst @ [decimalBig, if negative then 1 else 0])
                              (magnitude (dcoeff d))))"

definition appendCell :: "sqllib \<Rightarrow> bytes \<Rightarrow> coltype \<Rightarrow> val \<Rightarrow> error + bytes" where
  "appendCell lib dst typ v =
     (let t = ctype typ
      in if is_signed t then
           (case signedValue v of None \<Rightarrow> Inl (RowError IntegerType) | Some w \<Rightarrow> Inr (dst @ append_varint w))
         else if is_unsigned t then
           (case unsignedValue v of None \<Rightarrow> Inl (RowError UnsignedType) | Some w \<Rightarrow> Inr (dst @ append_uvarint w))
         else if t = T_ENUM then
           (case v of VUint16 w \<Rightarrow> Inr (dst @ append_uvarint (ucast w)) | _ \<Rightarrow> Inl (RowError EnumType))
         else if t = T_FLOAT32 then
           (case v of VFloat32 w \<Rightarrow> Inr (dst @ le_bytes 4 w)
                    | VFloat64 w \<Rightarrow> Inr (dst @ le_bytes 4 (f64_to_f32 w))
                    | _ \<Rightarrow> Inl (RowError FloatType))
         else if t = T_FLOAT64 then
           (case v of VFloat64 w \<Rightarrow> Inr (dst @ le_bytes 8 w)
                    | VFloat32 w \<Rightarrow> Inr (dst @ le_bytes 8 (f32_to_f64 w))
                    | _ \<Rightarrow> Inl (RowError DoubleType))
         else if is_datetime t then
           (case v of VTime ns \<Rightarrow> Inr (dst @ le_bytes 8 (time_UnixMicro ns)) | _ \<Rightarrow> Inl (RowError DatetimeType))
         else if t = T_TIME then
           (case v of VTimespan w \<Rightarrow> Inr (dst @ append_varint w) | _ \<Rightarrow> Inl (RowError TimeType))
         else if t = T_DECIMAL then
           (case v of
              VDecimal d \<Rightarrow>
                (case cscale typ of None \<Rightarrow> Inl (RowError DecimalColumnType)
                 | Some scale \<Rightarrow> appendDecimalCell lib dst d scale)
            | _ \<Rightarrow> Inl (RowError DecimalValueType))
         else if t = T_JSON then
           (case v of
              VJSON jw \<Rightarrow> (case json_string lib jw of Inl e \<Rightarrow> Inl e | Inr s \<Rightarrow> Inr (appendBytesCell dst s))
            | _ \<Rightarrow> Inl (RowError JSONType))
         else if is_binary t then
           (case v of VBytes b \<Rightarrow> Inr (appendBytesCell dst b)
                    | VString b \<Rightarrow> Inr (appendBytesCell dst b)
                    | _ \<Rightarrow> Inl (RowError BinaryType))
         else
           (case v of VString s \<Rightarrow> Inr (appendBytesCell dst s) | _ \<Rightarrow> Inl (RowError TextType)))"

fun encode_row_loop ::
    "sqllib \<Rightarrow> column list \<Rightarrow> nat \<Rightarrow> nat \<Rightarrow> row \<Rightarrow> bytes \<Rightarrow> error + bytes" where
  "encode_row_loop lib schema nulls i [] out = Inr out"
| "encode_row_loop lib schema nulls i (value # row) out =
     (case value of
        None \<Rightarrow>
          let k = nulls + i div 8
          in encode_row_loop lib schema nulls (Suc i) row (out[k := out ! k OR push_bit (i mod 8) 1])
      | Some v \<Rightarrow>
          (case appendCell lib out (col_type (schema ! i)) v of
             Inl e \<Rightarrow> Inl e
           | Inr out \<Rightarrow> encode_row_loop lib schema nulls (Suc i) row out))"

definition encodeRow :: "sqllib \<Rightarrow> column list \<Rightarrow> row \<Rightarrow> error + bytes" where
  "encodeRow lib schema row =
     (if length row \<noteq> length schema then Inl (RowError RowValueCount)
      else let bitmap = (length row + 7) div 8;
               out = append_uvarint (of_nat (length row));
               nulls = length out
           in encode_row_loop lib schema nulls 0 row (out @ replicate bitmap 0))"

section \<open>Decoder\<close>

record rowDecoder =
  rd_data :: bytes
  rd_pos :: nat
  rd_text :: bytes

definition rd_varint :: "rowDecoder \<Rightarrow> error + (64 word \<times> rowDecoder)" where
  "rd_varint d =
     (let (v, n) = varint (drop (rd_pos d) (rd_data d))
      in if n \<le> 0 then Inl (RowError TruncatedRow) else Inr (v, d\<lparr>rd_pos := rd_pos d + nat n\<rparr>))"

definition rd_uvarint :: "rowDecoder \<Rightarrow> error + (64 word \<times> rowDecoder)" where
  "rd_uvarint d =
     (let (v, n) = uvarint (drop (rd_pos d) (rd_data d))
      in if n \<le> 0 then Inl (RowError TruncatedRow) else Inr (v, d\<lparr>rd_pos := rd_pos d + nat n\<rparr>))"

definition rd_fixed :: "nat \<Rightarrow> rowDecoder \<Rightarrow> error + (bytes \<times> rowDecoder)" where
  "rd_fixed n d =
     (if length (rd_data d) - rd_pos d < n then Inl (RowError TruncatedRow)
      else Inr (take n (drop (rd_pos d) (rd_data d)), d\<lparr>rd_pos := rd_pos d + n\<rparr>))"

definition rd_span :: "rowDecoder \<Rightarrow> error + ((nat \<times> nat) \<times> rowDecoder)" where
  "rd_span d =
     (case rd_uvarint d of
        Inl e \<Rightarrow> Inl e
      | Inr (len, d) \<Rightarrow>
          if unat len > length (rd_data d) - rd_pos d then Inl (RowError TruncatedRow)
          else let start = rd_pos d; d = d\<lparr>rd_pos := start + unat len\<rparr> in Inr ((start, rd_pos d), d))"

definition slice :: "bytes \<Rightarrow> nat \<Rightarrow> nat \<Rightarrow> bytes" where
  "slice bs a b = take (b - a) (drop a bs)"

definition rd_string :: "rowDecoder \<Rightarrow> error + (bytes \<times> rowDecoder)" where
  "rd_string d =
     (case rd_span d of
        Inl e \<Rightarrow> Inl e
      | Inr ((a, b), d) \<Rightarrow>
          let d = (if rd_text d = [] then d\<lparr>rd_text := rd_data d\<rparr> else d)
          in Inr (slice (rd_text d) a b, d))"

definition rd_decimal :: "int \<Rightarrow> rowDecoder \<Rightarrow> error + (decimal \<times> rowDecoder)" where
  "rd_decimal scale d =
     (case rd_fixed 1 d of
        Inl e \<Rightarrow> Inl e
      | Inr (tag, d) \<Rightarrow>
          if tag ! 0 = decimalSmall then
            (case rd_varint d of
               Inl e \<Rightarrow> Inl e
             | Inr (v, d) \<Rightarrow>
                 Inr (\<lparr>dfinite = True, dnegative = sint v < 0,
                       dcoeff = (if sint v < 0 then unat (- v) else unat v), dexponent = - scale\<rparr>, d))
          else if tag ! 0 = decimalBig then
            (case rd_fixed 1 d of
               Inl e \<Rightarrow> Inl e
             | Inr (sign, d) \<Rightarrow>
                 (case rd_span d of
                    Inl e \<Rightarrow> Inl e
                  | Inr ((a, b), d) \<Rightarrow>
                      Inr (\<lparr>dfinite = True, dnegative = sign ! 0 \<noteq> 0,
                            dcoeff = setBytes (slice (rd_data d) a b), dexponent = - scale\<rparr>, d)))
          else Inl (RowError UnknownDecimalForm))"

definition signed_cell :: "qtype \<Rightarrow> 64 word \<Rightarrow> val" where
  "signed_cell t v =
     (if t = T_INT8 then VInt8 (ucast v)
      else if t = T_INT16 then VInt16 (ucast v)
      else if t = T_INT24 \<or> t = T_INT32 then VInt32 (ucast v)
      else VInt64 v)"

definition unsigned_cell :: "qtype \<Rightarrow> 64 word \<Rightarrow> val" where
  "unsigned_cell t v =
     (if t = T_UINT8 then VUint8 (ucast v)
      else if t = T_UINT16 then VUint16 (ucast v)
      else if t = T_UINT24 \<or> t = T_UINT32 then VUint32 (ucast v)
      else VUint64 v)"

definition rd_map :: "('a \<Rightarrow> 'b) \<Rightarrow> error + ('a \<times> rowDecoder) \<Rightarrow> error + ('b \<times> rowDecoder)" where
  "rd_map f = map_sum id (map_prod f id)"

definition rd_cell :: "sqllib \<Rightarrow> coltype \<Rightarrow> rowDecoder \<Rightarrow> error + (val \<times> rowDecoder)" where
  "rd_cell lib typ d =
     (let t = ctype typ
      in if is_signed t then rd_map (signed_cell t) (rd_varint d)
         else if is_unsigned t then rd_map (unsigned_cell t) (rd_uvarint d)
         else if t = T_ENUM then
           (case rd_uvarint d of
              Inl e \<Rightarrow> Inl e
            | Inr (v, d) \<Rightarrow> if v > 65535 then Inl (RowError EnumIndexRange) else Inr (VUint16 (ucast v), d))
         else if t = T_FLOAT32 then rd_map (\<lambda>b. VFloat32 (le_word b)) (rd_fixed 4 d)
         else if t = T_FLOAT64 then rd_map (\<lambda>b. VFloat64 (le_word b)) (rd_fixed 8 d)
         else if is_datetime t then
           rd_map (\<lambda>b. VTime (sint (le_word b :: 64 word) * 1000)) (rd_fixed 8 d)
         else if t = T_TIME then rd_map VTimespan (rd_varint d)
         else if t = T_DECIMAL then
           (case cscale typ of
              None \<Rightarrow> Inl (RowError DecimalColumnType)
            | Some scale \<Rightarrow> rd_map VDecimal (rd_decimal scale d))
         else if t = T_JSON then
           (case rd_string d of
              Inl e \<Rightarrow> Inl e
            | Inr (s, d) \<Rightarrow> (case json_convert lib s of Inl e \<Rightarrow> Inl e | Inr j \<Rightarrow> Inr (VJSON j, d)))
         else if is_binary t then
           (case rd_span d of Inl e \<Rightarrow> Inl e | Inr ((a, b), d) \<Rightarrow> Inr (VBytes (slice (rd_data d) a b), d))
         else rd_map VString (rd_string d))"

definition rd_done :: "error + ('a \<times> rowDecoder) \<Rightarrow> error + rowDecoder" where
  "rd_done = map_sum id snd"

definition rd_skip :: "coltype \<Rightarrow> rowDecoder \<Rightarrow> error + rowDecoder" where
  "rd_skip typ d =
     (let t = ctype typ
      in if is_signed t \<or> t = T_TIME then rd_done (rd_varint d)
         else if is_unsigned t \<or> t = T_ENUM then rd_done (rd_uvarint d)
         else if t = T_FLOAT32 then rd_done (rd_fixed 4 d)
         else if t = T_FLOAT64 \<or> is_datetime t then rd_done (rd_fixed 8 d)
         else if t = T_DECIMAL then
           (case rd_fixed 1 d of
              Inl e \<Rightarrow> Inl e
            | Inr (tag, d) \<Rightarrow>
                if tag ! 0 = decimalSmall then rd_done (rd_varint d)
                else if tag ! 0 = decimalBig then
                  (case rd_fixed 1 d of Inl e \<Rightarrow> Inl e | Inr (_, d) \<Rightarrow> rd_done (rd_span d))
                else Inl (RowError UnknownDecimalForm))
         else rd_done (rd_span d))"

text \<open>The header both decoders read: the column count and the NULL bitmap.\<close>

definition row_header :: "column list \<Rightarrow> bytes \<Rightarrow> error + (bytes \<times> rowDecoder)" where
  "row_header schema data =
     (let (width, n) = uvarint data
      in if n \<le> 0 then Inl (RowError TruncatedRow)
         else if width \<noteq> of_nat (length schema) then Inl (RowError RowWidthMismatch)
         else let pos = nat n + (length schema + 7) div 8
              in if pos > length data then Inl (RowError TruncatedRow)
                 else Inr (slice data (nat n) pos, \<lparr>rd_data = data, rd_pos = pos, rd_text = []\<rparr>))"

definition is_null :: "bytes \<Rightarrow> nat \<Rightarrow> bool" where
  "is_null nulls i \<longleftrightarrow> nulls ! (i div 8) AND push_bit (i mod 8) 1 \<noteq> 0"

fun decode_row_loop ::
    "sqllib \<Rightarrow> bytes \<Rightarrow> nat \<Rightarrow> column list \<Rightarrow> rowDecoder \<Rightarrow> error + (row \<times> rowDecoder)" where
  "decode_row_loop lib nulls i [] d = Inr ([], d)"
| "decode_row_loop lib nulls i (col # cols) d =
     (if is_null nulls i then rd_map (Cons None) (decode_row_loop lib nulls (Suc i) cols d)
      else case rd_cell lib (col_type col) d of
             Inl e \<Rightarrow> Inl e
           | Inr (v, d) \<Rightarrow> rd_map (Cons (Some v)) (decode_row_loop lib nulls (Suc i) cols d))"

definition decodeRow :: "sqllib \<Rightarrow> column list \<Rightarrow> bytes \<Rightarrow> error + row" where
  "decodeRow lib schema data =
     (case row_header schema data of
        Inl e \<Rightarrow> Inl e
      | Inr (nulls, d) \<Rightarrow>
          (case decode_row_loop lib nulls 0 schema d of
             Inl e \<Rightarrow> Inl e
           | Inr (row, d) \<Rightarrow> if rd_pos d \<noteq> length data then Inl (RowError TrailingRowBytes) else Inr row))"

section \<open>Projections\<close>

record rowProjection =
  p_ordinals :: "nat list"
  p_slot :: "int list"
  p_last :: int
  p_repeats :: bool

fun projection_loop :: "nat \<Rightarrow> nat list \<Rightarrow> rowProjection \<Rightarrow> error + rowProjection" where
  "projection_loop i [] p = Inr p"
| "projection_loop i (ordinal # ords) p =
     (if length (p_slot p) \<le> ordinal then Inl IndexOutOfRange
      else if p_slot p ! ordinal \<ge> 0 then projection_loop (Suc i) ords (p\<lparr>p_repeats := True\<rparr>)
      else projection_loop (Suc i) ords
             (p\<lparr>p_slot := (p_slot p)[ordinal := int i], p_last := max (p_last p) (int ordinal)\<rparr>))"

definition newRowProjection :: "nat \<Rightarrow> nat list \<Rightarrow> error + rowProjection option" where
  "newRowProjection width ordinals =
     (if length ordinals = width \<and> list_all (\<lambda>(i, ordinal). ordinal = i) (zip [0..<width] ordinals)
      then Inr None
      else map_sum id Some
             (projection_loop 0 ordinals
                \<lparr>p_ordinals = ordinals, p_slot = replicate width (- 1), p_last = - 1, p_repeats = False\<rparr>))"

definition project :: "rowProjection option \<Rightarrow> row \<Rightarrow> error + row" where
  "project p row =
     (case p of
        None \<Rightarrow> Inr row
      | Some p \<Rightarrow>
          if list_all (\<lambda>ordinal. ordinal < length row) (p_ordinals p)
          then Inr (map (\<lambda>ordinal. row ! ordinal) (p_ordinals p)) else Inl IndexOutOfRange)"

fun projected_loop ::
    "sqllib \<Rightarrow> bytes \<Rightarrow> rowProjection \<Rightarrow> nat \<Rightarrow> column list \<Rightarrow> rowDecoder \<Rightarrow> row \<Rightarrow> error + row" where
  "projected_loop lib nulls p i [] d out = (if int i > p_last p then Inr out else Inl IndexOutOfRange)"
| "projected_loop lib nulls p i (col # cols) d out =
     (if int i > p_last p then Inr out
      else if is_null nulls i then projected_loop lib nulls p (Suc i) cols d out
      else if p_slot p ! i \<ge> 0 then
        (case rd_cell lib (col_type col) d of
           Inl e \<Rightarrow> Inl e
         | Inr (v, d) \<Rightarrow>
             projected_loop lib nulls p (Suc i) cols d (out[nat (p_slot p ! i) := Some v]))
      else
        (case rd_skip (col_type col) d of
           Inl e \<Rightarrow> Inl e
         | Inr d \<Rightarrow> projected_loop lib nulls p (Suc i) cols d out))"

fun repeat_loop :: "int list \<Rightarrow> nat \<Rightarrow> nat list \<Rightarrow> row \<Rightarrow> row" where
  "repeat_loop slot i [] out = out"
| "repeat_loop slot i (ordinal # ords) out =
     repeat_loop slot (Suc i) ords (out[i := out ! nat (slot ! ordinal)])"

definition decodeRowProjected ::
    "sqllib \<Rightarrow> column list \<Rightarrow> bytes \<Rightarrow> rowProjection option \<Rightarrow> error + row" where
  "decodeRowProjected lib schema data pr =
     (case pr of
        None \<Rightarrow> decodeRow lib schema data
      | Some p \<Rightarrow>
          let out = replicate (length (p_ordinals p)) None
          in if p_last p < 0 then Inr out
             else case row_header schema data of
                    Inl e \<Rightarrow> Inl e
                  | Inr (nulls, d) \<Rightarrow>
                      (case projected_loop lib nulls p 0 schema d out of
                         Inl e \<Rightarrow> Inl e
                       | Inr out \<Rightarrow>
                           Inr (if p_repeats p then repeat_loop (p_slot p) 0 (p_ordinals p) out else out)))"

end
