(* ===== verification/Table_State.thy ===== *)
theory Table_State
  imports Snapshot_Store Row_Codec Prolly_Apply Prolly_Get Prolly_Validate
begin

text \<open>
  A transaction's view of one table (\<open>engine/catalog.go\<close>: \<open>tableState\<close>, \<open>indexOverlay\<close>, \<open>editor\<close>).

  Maps are association lists as in \<open>Snapshot_Store\<close>. The store of a table is its \<open>Get\<close>. An operation that
  may leave a changed state behind when it fails returns the error beside the state; the outer option
  is \<^const>\<open>None\<close> only when a read of a tree does not end.

  The offset cache of the process speeds tree reads up without changing their result
  (\<open>tree_Get_pstored\<close>), so every read starts with an empty one here. A copy of a row is the row.
\<close>

type_synonym 'a res = "(error + 'a) option"
type_synonym ('a, 's) step = "((error + 'a) \<times> 's) option"

section \<open>State\<close>

record indexDisk =
  idx_Name :: bytes
  idx_Columns :: "int list"
  idx_Unique :: bool

record rowEdit =
  ed_row :: row
  ed_delete :: bool

record indexOverlay =
  ov_base :: PendingRows
  ov_local :: "row_edit list"

record tableState =
  ts_schema :: pkschema
  ts_indexes :: "indexDisk list"
  ts_idxEdits :: "(bytes, indexOverlay) gomap option"
  ts_rows :: "(bytes, row) gomap option"
  ts_manifest :: Table
  ts_store :: "hash \<Rightarrow> error + bytes"
  ts_pending :: PendingRows
  ts_edits :: "(bytes, rowEdit) gomap"
  ts_dirty :: bool

definition noRows :: PendingRows where
  "noRows = \<lparr>pruns = []\<rparr>"

definition index_edit :: "edit \<Rightarrow> row_edit" where
  "index_edit e = \<lparr>re_key = edkey e, re_value = edvalue e, re_delete = eddelete e, re_generation = 0\<rparr>"

section \<open>Index overlays\<close>

definition ov_add :: "indexOverlay \<Rightarrow> edit \<Rightarrow> indexOverlay" where
  "ov_add ov e = ov\<lparr>ov_local := ov_local ov @ [index_edit e]\<rparr>"

definition ov_get :: "indexOverlay \<Rightarrow> bytes \<Rightarrow> row_edit option" where
  "ov_get ov key =
     (case find (\<lambda>e. re_key e = key) (rev (ov_local ov)) of
        Some e \<Rightarrow> Some e
      | None \<Rightarrow> pending_Get (ov_base ov) key)"

definition ov_view :: "indexOverlay \<Rightarrow> PendingRows" where
  "ov_view ov = pending_With (ov_base ov) (ov_local ov)"

text \<open>A loop over \<open>Iter(nil, nil)\<close> ends after at most \<open>Len\<close> edits.\<close>

definition pending_all :: "PendingRows \<Rightarrow> row_edit list" where
  "pending_all p = pending_take (pending_Len p) (pending_Iter p [] None)"

definition ov_sorted :: "indexOverlay \<Rightarrow> edit list" where
  "ov_sorted ov =
     map (\<lambda>e. \<lparr>edkey = re_key e, edvalue = re_value e, eddelete = re_delete e\<rparr>) (pending_all (ov_view ov))"

fun claims_of :: "bytes \<Rightarrow> (bytes, bool) gomap \<Rightarrow> (bytes \<times> bytes) list" where
  "claims_of name [] = []"
| "claims_of name ((key, put) # ps) = (if put then (name, key) # claims_of name ps else claims_of name ps)"

definition last_puts :: "row_edit list \<Rightarrow> (bytes, bool) gomap" where
  "last_puts edits = fold (\<lambda>e m. AList.update (re_key e) (\<not> re_delete e) m) edits []"

definition uniqueClaims :: "tableState \<Rightarrow> (bytes \<times> bytes) list" where
  "uniqueClaims s =
     concat (map (\<lambda>idx.
       case Option.bind (ts_idxEdits s) (\<lambda>m. map_of m (idx_Name idx)) of
         None \<Rightarrow> []
       | Some ov \<Rightarrow> if \<not> idx_Unique idx then [] else claims_of (idx_Name idx) (last_puts (ov_local ov)))
       (ts_indexes s))"

section \<open>Rows\<close>

definition tree_lookup :: "(hash \<Rightarrow> error + bytes) \<Rightarrow> hash \<Rightarrow> bytes \<Rightarrow> bytes res" where
  "tree_lookup get h key =
     (case prolly_Open h of
        Inl e \<Rightarrow> Some (Inl e)
      | Inr _ \<Rightarrow> map_option fst (tree_Get (\<lambda>_. []) get key h (\<lambda>_. [])))"

definition decodePending :: "sqllib \<Rightarrow> tableState \<Rightarrow> row_edit \<Rightarrow> error + rowEdit" where
  "decodePending lib s p =
     (if re_delete p then Inr \<lparr>ed_row = [], ed_delete = True\<rparr>
      else map_sum id (\<lambda>row. \<lparr>ed_row = row, ed_delete = False\<rparr>)
             (decodeRow lib (schema_columns (ts_schema s)) (re_value p)))"

definition ts_edit :: "sqllib \<Rightarrow> tableState \<Rightarrow> bytes \<Rightarrow> error + rowEdit option" where
  "ts_edit lib s key =
     (case map_of (ts_edits s) key of
        Some e \<Rightarrow> Inr (Some e)
      | None \<Rightarrow>
          if pending_Empty (ts_pending s) then Inr None
          else case pending_Get (ts_pending s) key of
                 None \<Rightarrow> Inr None
               | Some p \<Rightarrow> map_sum id Some (decodePending lib s p))"

definition hasEdits :: "tableState \<Rightarrow> bool" where
  "hasEdits s \<longleftrightarrow> length (ts_edits s) \<noteq> 0 \<or> \<not> pending_Empty (ts_pending s)"

text \<open>\<open>forEachEdit\<close>: the callback updates a state and may fail, which ends the loop.\<close>

fun each_pending :: "sqllib \<Rightarrow> tableState \<Rightarrow> (bytes \<Rightarrow> rowEdit \<Rightarrow> 'a \<Rightarrow> (error + unit) \<times> 'a) \<Rightarrow> row_edit list \<Rightarrow> 'a
    \<Rightarrow> (error + unit) \<times> 'a" where
  "each_pending lib s fn [] acc = (Inr (), acc)"
| "each_pending lib s fn (p # ps) acc =
     (if map_of (ts_edits s) (re_key p) \<noteq> None then each_pending lib s fn ps acc
      else case decodePending lib s p of
             Inl e \<Rightarrow> (Inl e, acc)
           | Inr edit \<Rightarrow>
               (case fn (re_key p) edit acc of
                  (Inl e, acc) \<Rightarrow> (Inl e, acc)
                | (Inr _, acc) \<Rightarrow> each_pending lib s fn ps acc))"

fun each_local :: "(bytes \<Rightarrow> rowEdit \<Rightarrow> 'a \<Rightarrow> (error + unit) \<times> 'a) \<Rightarrow> (bytes, rowEdit) gomap \<Rightarrow> 'a
    \<Rightarrow> (error + unit) \<times> 'a" where
  "each_local fn [] acc = (Inr (), acc)"
| "each_local fn ((key, edit) # edits) acc =
     (case fn key edit acc of
        (Inl e, acc) \<Rightarrow> (Inl e, acc)
      | (Inr _, acc) \<Rightarrow> each_local fn edits acc)"

definition forEachEdit :: "sqllib \<Rightarrow> tableState \<Rightarrow> (bytes \<Rightarrow> rowEdit \<Rightarrow> 'a \<Rightarrow> (error + unit) \<times> 'a) \<Rightarrow> 'a
    \<Rightarrow> (error + unit) \<times> 'a" where
  "forEachEdit lib s fn acc =
     (case (if \<not> pending_Empty (ts_pending s) then each_pending lib s fn (pending_all (ts_pending s)) acc
            else (Inr (), acc)) of
        (Inl e, acc) \<Rightarrow> (Inl e, acc)
      | (Inr _, acc) \<Rightarrow> each_local fn (ts_edits s) acc)"

fun overlay_delete :: "row_edit list \<Rightarrow> (bytes, rowEdit) gomap \<Rightarrow> (bytes, rowEdit) gomap" where
  "overlay_delete [] deletes = deletes"
| "overlay_delete (p # ps) deletes =
     overlay_delete ps (if re_delete p then AList.update (re_key p) \<lparr>ed_row = [], ed_delete = True\<rparr> deletes else deletes)"

definition overlayDeletes :: "tableState \<Rightarrow> (bytes, rowEdit) gomap" where
  "overlayDeletes s =
     fold (\<lambda>(key, edit) deletes. if ed_delete edit then AList.update key edit deletes else AList.delete key deletes)
       (ts_edits s)
       (if \<not> pending_Empty (ts_pending s) then overlay_delete (pending_all (ts_pending s)) [] else [])"

text \<open>\<open>ensureRows\<close>: an error leaves the rows read so far behind.\<close>

fun load_rows :: "sqllib \<Rightarrow> pkschema \<Rightarrow> entry list \<Rightarrow> (bytes, row) gomap \<Rightarrow> (error + unit) \<times> (bytes, row) gomap" where
  "load_rows lib schema [] rows = (Inr (), rows)"
| "load_rows lib schema (entry # entries) rows =
     (case decodeRow lib (schema_columns schema) (evalue entry) of
        Inl e \<Rightarrow> (Inl e, rows)
      | Inr row \<Rightarrow>
          (case encodeKey schema row of
             Inl e \<Rightarrow> (Inl (RowError RowKeyMismatch), rows)
           | Inr key \<Rightarrow>
               if key \<noteq> ekey entry then (Inl (RowError RowKeyMismatch), rows)
               else load_rows lib schema entries (AList.update (ekey entry) row rows)))"

definition apply_edit :: "bytes \<Rightarrow> rowEdit \<Rightarrow> (bytes, row) gomap \<Rightarrow> (error + unit) \<times> (bytes, row) gomap" where
  "apply_edit key edit rows =
     (Inr (), if ed_delete edit then AList.delete key rows else AList.update key (ed_row edit) rows)"

definition put_edit :: "bytes \<Rightarrow> rowEdit \<Rightarrow> (bytes, row) gomap \<Rightarrow> (error + unit) \<times> (bytes, row) gomap" where
  "put_edit key edit rows = (Inr (), if \<not> ed_delete edit then AList.update key (ed_row edit) rows else rows)"

definition ensureRows :: "sqllib \<Rightarrow> tableState \<Rightarrow> (unit, tableState) step" where
  "ensureRows lib s =
     (if ts_rows s \<noteq> None then Some (Inr (), s)
      else if \<not> hash_Valid (DataRoot (ts_manifest s)) then
        Some (apsnd (\<lambda>rows. s\<lparr>ts_rows := Some rows\<rparr>) (forEachEdit lib s put_edit []))
      else Option.bind (tree_Entries (ts_store s) (DataRoot (ts_manifest s))) (\<lambda>res. Some (case res of
        Inl e \<Rightarrow> (Inl e, s)
      | Inr entries \<Rightarrow>
          (case load_rows lib (ts_schema s) entries [] of
             (Inl e, rows) \<Rightarrow> (Inl e, s\<lparr>ts_rows := Some rows\<rparr>)
           | (Inr _, rows) \<Rightarrow> apsnd (\<lambda>rows. s\<lparr>ts_rows := Some rows\<rparr>) (forEachEdit lib s apply_edit rows)))))"

definition lookupRow :: "sqllib \<Rightarrow> tableState \<Rightarrow> bytes \<Rightarrow> row option res" where
  "lookupRow lib s key =
     (case ts_rows s of
        Some rows \<Rightarrow> Some (Inr (map_of rows key))
      | None \<Rightarrow>
          (case ts_edit lib s key of
             Inl e \<Rightarrow> Some (Inl e)
           | Inr (Some edit) \<Rightarrow> Some (Inr (if ed_delete edit then None else Some (ed_row edit)))
           | Inr None \<Rightarrow>
               if \<not> hash_Valid (DataRoot (ts_manifest s)) then Some (Inr None)
               else Option.bind (tree_lookup (ts_store s) (DataRoot (ts_manifest s)) key) (\<lambda>res. Some (case res of
                 Inl e \<Rightarrow> if e = KeyNotFound then Inr None else Inl e
               | Inr value \<Rightarrow> map_sum id Some (decodeRow lib (schema_columns (ts_schema s)) value)))))"

definition setEdit :: "bytes \<Rightarrow> rowEdit \<Rightarrow> tableState \<Rightarrow> tableState" where
  "setEdit key edit s =
     s\<lparr>ts_edits := AList.update key edit (ts_edits s),
       ts_rows := map_option (\<lambda>rows. if ed_delete edit then AList.delete key rows else AList.update key (ed_row edit) rows)
                    (ts_rows s)\<rparr>"

section \<open>Index edits\<close>

type_synonym index_edits = "(bytes, edit list) gomap"

definition edits_for :: "index_edits \<Rightarrow> bytes \<Rightarrow> edit list" where
  "edits_for m name = (case map_of m name of None \<Rightarrow> [] | Some es \<Rightarrow> es)"

definition append_edits :: "bytes \<Rightarrow> edit list \<Rightarrow> index_edits \<Rightarrow> index_edits" where
  "append_edits name es m = AList.update name (edits_for m name @ es) m"

definition put_entry :: "bytes \<Rightarrow> bytes \<Rightarrow> edit" where
  "put_entry key pk = \<lparr>edkey = key, edvalue = pk, eddelete = False\<rparr>"

definition del_entry :: "bytes \<Rightarrow> edit" where
  "del_entry key = \<lparr>edkey = key, edvalue = [], eddelete = True\<rparr>"

fun derive_row :: "pkschema \<Rightarrow> row option \<Rightarrow> rowEdit \<Rightarrow> bytes \<Rightarrow> indexDisk list \<Rightarrow> index_edits \<times> index_edits
    \<Rightarrow> error + index_edits \<times> index_edits" where
  "derive_row schema baseRow edit pk [] m = Inr m"
| "derive_row schema baseRow edit pk (idx # idxs) (removed, added) =
     (case (case baseRow of
              None \<Rightarrow> Inr None
            | Some row \<Rightarrow> map_sum id (Some \<circ> fst) (encodeIndexKey schema row (idx_Columns idx) pk (idx_Unique idx))) of
        Inl e \<Rightarrow> Inl e
      | Inr oldKey \<Rightarrow>
          (case (if ed_delete edit then Inr None
                 else map_sum id (Some \<circ> fst) (encodeIndexKey schema (ed_row edit) (idx_Columns idx) pk (idx_Unique idx))) of
             Inl e \<Rightarrow> Inl e
           | Inr newKey \<Rightarrow>
               if oldKey \<noteq> None \<and> newKey \<noteq> None \<and> oldKey = newKey then derive_row schema baseRow edit pk idxs (removed, added)
               else derive_row schema baseRow edit pk idxs
                      (case oldKey of None \<Rightarrow> removed | Some k \<Rightarrow> append_edits (idx_Name idx) [del_entry k] removed,
                       case newKey of None \<Rightarrow> added | Some k \<Rightarrow> append_edits (idx_Name idx) [put_entry k pk] added)))"

fun derive_loop :: "sqllib \<Rightarrow> (hash \<Rightarrow> error + bytes) \<Rightarrow> pkschema \<Rightarrow> indexDisk list \<Rightarrow> hash option
    \<Rightarrow> (bytes \<times> rowEdit) list \<Rightarrow> index_edits \<times> index_edits \<Rightarrow> (index_edits \<times> index_edits) res" where
  "derive_loop lib get schema indexes base [] m = Some (Inr m)"
| "derive_loop lib get schema indexes base ((pk, edit) # rows) m =
     Option.bind
       (case base of
          None \<Rightarrow> Some (Inr None)
        | Some h \<Rightarrow> Option.bind (tree_lookup get h pk) (\<lambda>res. Some (case res of
            Inl e \<Rightarrow> if e = KeyNotFound then Inr None else Inl e
          | Inr value \<Rightarrow> map_sum id Some (decodeRow lib (schema_columns schema) value))))
       (\<lambda>res. case res of
          Inl e \<Rightarrow> Some (Inl e)
        | Inr baseRow \<Rightarrow>
            (case derive_row schema baseRow edit pk indexes m of
               Inl e \<Rightarrow> Some (Inl e)
             | Inr m \<Rightarrow> derive_loop lib get schema indexes base rows m))"

definition deriveIndexEdits :: "sqllib \<Rightarrow> (hash \<Rightarrow> error + bytes) \<Rightarrow> pkschema \<Rightarrow> indexDisk list \<Rightarrow> hash option
    \<Rightarrow> (bytes \<times> rowEdit) list \<Rightarrow> index_edits res" where
  "deriveIndexEdits lib get schema indexes base rows =
     map_option (map_sum id (\<lambda>(removed, added). fold (\<lambda>(name, es) m. append_edits name es m) added removed))
       (derive_loop lib get schema indexes base rows ([], []))"

definition collect_edit :: "bytes \<Rightarrow> rowEdit \<Rightarrow> (bytes \<times> rowEdit) list \<Rightarrow> (error + unit) \<times> (bytes \<times> rowEdit) list" where
  "collect_edit key edit items = (Inr (), items @ [(key, edit)])"

definition overlayIndexEdits :: "sqllib \<Rightarrow> tableState \<Rightarrow> indexDisk list \<Rightarrow> index_edits \<Rightarrow> index_edits res" where
  "overlayIndexEdits lib s indexes built =
     (let base = (if hash_Valid (DataRoot (ts_manifest s)) then Some (DataRoot (ts_manifest s)) else None)
      in case forEachEdit lib s collect_edit [] of
           (Inl e, _) \<Rightarrow> Some (Inl e)
         | (Inr _, items) \<Rightarrow>
             map_option (map_sum id (\<lambda>derived. fold (\<lambda>(name, es) m. append_edits name es m) derived built))
               (deriveIndexEdits lib (ts_store s) (ts_schema s) indexes base (sort_key fst items)))"

fun index_row :: "pkschema \<Rightarrow> bytes \<Rightarrow> row \<Rightarrow> indexDisk list \<Rightarrow> index_edits \<Rightarrow> error + index_edits" where
  "index_row schema pk row [] built = Inr built"
| "index_row schema pk row (idx # idxs) built =
     (case encodeIndexKey schema row (idx_Columns idx) pk (idx_Unique idx) of
        Inl e \<Rightarrow> Inl e
      | Inr (idxKey, _) \<Rightarrow> index_row schema pk row idxs (append_edits (idx_Name idx) [put_entry idxKey pk] built))"

fun index_rows :: "pkschema \<Rightarrow> (bytes, row) gomap \<Rightarrow> indexDisk list \<Rightarrow> index_edits \<Rightarrow> error + index_edits" where
  "index_rows schema [] idxs built = Inr built"
| "index_rows schema ((pk, row) # rows) idxs built =
     (case index_row schema pk row idxs built of
        Inl e \<Rightarrow> Inl e
      | Inr built \<Rightarrow> index_rows schema rows idxs built)"

definition index_persisted :: "tableState \<Rightarrow> indexDisk \<Rightarrow> bool" where
  "index_persisted s idx \<longleftrightarrow>
     (case map_of (Indexes (ts_manifest s)) (idx_Name idx) of None \<Rightarrow> False | Some h \<Rightarrow> hash_Valid h)"

definition built_overlay :: "edit list \<Rightarrow> indexOverlay" where
  "built_overlay es = \<lparr>ov_base = ov_view (fold (\<lambda>e ov. ov_add ov e) es \<lparr>ov_base = noRows, ov_local = []\<rparr>), ov_local = []\<rparr>"

definition ensureIndexEdits :: "sqllib \<Rightarrow> tableState \<Rightarrow> (unit, tableState) step" where
  "ensureIndexEdits lib s =
     (if ts_idxEdits s \<noteq> None \<or> length (ts_indexes s) = 0 then Some (Inr (), s)
      else
        let persisted = filter (index_persisted s) (ts_indexes s);
            unpersisted = filter (\<lambda>idx. \<not> index_persisted s idx) (ts_indexes s)
        in Option.bind (if persisted \<noteq> [] \<and> hasEdits s then overlayIndexEdits lib s persisted [] else Some (Inr []))
             (\<lambda>res. case res of
                Inl e \<Rightarrow> Some (Inl e, s)
              | Inr built \<Rightarrow>
                  Option.bind (if unpersisted \<noteq> [] then ensureRows lib s else Some (Inr (), s)) (\<lambda>(res, s).
                    case res of
                      Inl e \<Rightarrow> Some (Inl e, s)
                    | Inr _ \<Rightarrow>
                        (case (if unpersisted \<noteq> []
                               then index_rows (ts_schema s) (case ts_rows s of None \<Rightarrow> [] | Some rows \<Rightarrow> rows) unpersisted built
                               else Inr built) of
                           Inl e \<Rightarrow> Some (Inl e, s)
                         | Inr built \<Rightarrow>
                             Some (Inr (), s\<lparr>ts_idxEdits := Some (fold (\<lambda>idx m. AList.update (idx_Name idx)
                                 (built_overlay (edits_for built (idx_Name idx))) m) (ts_indexes s) [])\<rparr>)))))"

definition lookupIndexKey :: "tableState \<Rightarrow> bytes \<Rightarrow> bytes \<Rightarrow> bool res" where
  "lookupIndexKey s idxName key =
     (case Option.bind (Option.bind (ts_idxEdits s) (\<lambda>m. map_of m idxName)) (\<lambda>ov. ov_get ov key) of
        Some edit \<Rightarrow> Some (Inr (\<not> re_delete edit))
      | None \<Rightarrow>
          (case map_of (Indexes (ts_manifest s)) idxName of
             None \<Rightarrow> Some (Inr False)
           | Some h \<Rightarrow>
               if \<not> hash_Valid h then Some (Inr False)
               else Option.bind (tree_lookup (ts_store s) h key) (\<lambda>res. Some (case res of
                 Inl e \<Rightarrow> if e = KeyNotFound then Inr False else Inl e
               | Inr _ \<Rightarrow> Inr True))))"

definition addIndexEdit :: "bytes \<Rightarrow> edit \<Rightarrow> tableState \<Rightarrow> error + tableState" where
  "addIndexEdit idxName e s =
     (case ts_idxEdits s of
        None \<Rightarrow> Inl (TableError IndexEditsNotBuilt)
      | Some m \<Rightarrow>
          let ov = (case map_of m idxName of None \<Rightarrow> \<lparr>ov_base = noRows, ov_local = []\<rparr> | Some ov \<Rightarrow> ov)
          in Inr (s\<lparr>ts_idxEdits := Some (AList.update idxName (ov_add ov e) m)\<rparr>))"

end
