(* ===== verification/Pending_Iter.thy ===== *)
theory Pending_Iter
  imports Pending_Rows
begin

text \<open>
  The two iterators over pending rows list the newest edit of each key of an interval, ascending
  and descending.
\<close>

section \<open>Runs as maps\<close>

lemma pending_list_elems: "x \<in> set (pending_list runs) \<Longrightarrow> \<exists>r \<in> set runs. x \<in> set r"
proof (induction runs)
  case (Cons r runs)
  then show ?case using mergeRuns_set[of r "pending_list runs"] by (fastforce simp: pending_list_def)
qed (simp add: pending_list_def)

lemma run_map_filter:
  "run_map (filter (\<lambda>e. P (re_key e)) r) k = (if P k then run_map r k else None)"
  by (induction r) auto

lemma run_ok_filter: "run_ok r \<Longrightarrow> run_ok (filter P r)"
  by (induction r) (auto simp: run_ok_simps)

fun newest :: "run list \<Rightarrow> bytes \<Rightarrow> row_edit option" where
  "newest [] k = None"
| "newest (r # rs) k = (case run_map r k of Some e \<Rightarrow> Some e | None \<Rightarrow> newest rs k)"

lemma pending_list_newest: "list_all run_ok runs \<Longrightarrow> run_map (pending_list runs) k = newest runs k"
  by (induction runs)
    (auto simp: pending_list_def mergeRuns_map pending_list_ok[unfolded pending_list_def] map_add_def split: option.split)

lemma pending_list_filter:
  assumes "list_all run_ok runs"
  shows "pending_list (map (filter (\<lambda>e. P (re_key e))) runs) = filter (\<lambda>e. P (re_key e)) (pending_list runs)"
proof (rule run_ok_unique)
  have ok: "list_all run_ok (map (filter (\<lambda>e. P (re_key e))) runs)"
    using assms by (simp add: list_all_iff run_ok_filter)
  then show "run_ok (pending_list (map (filter (\<lambda>e. P (re_key e))) runs))" by (rule pending_list_ok)
  show "run_ok (filter (\<lambda>e. P (re_key e)) (pending_list runs))"
    by (rule run_ok_filter[OF pending_list_ok[OF assms]])
  have "newest (map (filter (\<lambda>e. P (re_key e))) rs) k = (if P k then newest rs k else None)" for rs k
    by (induction rs) (auto simp: run_map_filter split: option.split)
  then show "run_map (pending_list (map (filter (\<lambda>e. P (re_key e))) runs)) =
      run_map (filter (\<lambda>e. P (re_key e)) (pending_list runs))"
    by (simp add: fun_eq_iff run_map_filter pending_list_newest ok assms)
qed

section \<open>Ascending\<close>

definition suffixes :: "(run \<times> int) list \<Rightarrow> run list" where
  "suffixes rs = map (\<lambda>(run, pos). drop (nat pos) run) rs"

definition pos_ok :: "(run \<times> int) list \<Rightarrow> bool" where
  "pos_ok rs \<longleftrightarrow> (\<forall>(run, pos) \<in> set rs. run_ok run \<and> 0 \<le> pos)"

lemma run_ok_drop: "run_ok r \<Longrightarrow> run_ok (drop n r)" "run_ok r \<Longrightarrow> run_ok (take n r)"
  by (simp_all add: run_ok_def drop_map[symmetric] take_map[symmetric] sorted_wrt_drop sorted_wrt_take)

lemma suffixes_ok: "pos_ok rs \<Longrightarrow> list_all run_ok (suffixes rs)"
  by (auto simp: pos_ok_def suffixes_def list_all_iff run_ok_drop)

lemma suffix_cases:
  assumes "run_ok run" "0 \<le> pos"
  shows "pos \<ge> int (length run) \<and> drop (nat pos) run = [] \<or>
    (pos < int (length run) \<and> drop (nat pos) run = run ! nat pos # drop (nat (pos + 1)) run
      \<and> (\<forall>x \<in> set (drop (nat (pos + 1)) run). re_key (run ! nat pos) < re_key x))"
proof (cases "pos < int (length run)")
  case True
  then have "drop (nat pos) run = run ! nat pos # drop (nat (pos + 1)) run"
    using assms(2) by (simp add: Cons_nth_drop_Suc[symmetric] nat_add_distrib)
  then show ?thesis using True run_ok_drop(1)[OF assms(1), of "nat pos"] by (simp add: run_ok_simps)
qed simp

lemma suffixes_Cons: "suffixes ((run, pos) # rs) = drop (nat pos) run # suffixes rs"
  by (simp add: suffixes_def)

lemma next_best_None:
  "pos_ok rs \<Longrightarrow> next_best rs best = None \<longleftrightarrow> best = None \<and> (\<forall>s \<in> set (suffixes rs). s = [])"
proof (induction rs best rule: next_best.induct)
  case (2 run pos rs best)
  then have "pos_ok rs" "0 \<le> pos" by (auto simp: pos_ok_def)
  with 2 show ?case by (cases best) (auto simp: suffixes_Cons Let_def)
qed (simp add: suffixes_def)

lemma next_best_Some:
  assumes "pos_ok rs" "next_best rs best = Some e"
  shows "(\<forall>s \<in> set (suffixes rs). \<forall>x \<in> set s. re_key e \<le> re_key x) \<and> (\<forall>b. best = Some b \<longrightarrow> re_key e \<le> re_key b) \<and>
    (best = Some e \<or> ((\<forall>b. best = Some b \<longrightarrow> re_key e < re_key b) \<and> newest (suffixes rs) (re_key e) = Some e))"
  using assms
proof (induction rs best rule: next_best.induct)
  case (2 run pos rs best)
  have ok: "pos_ok rs" "run_ok run" "0 \<le> pos" using 2(3) by (auto simp: pos_ok_def)
  show ?case
  proof (cases "pos < int (length run)")
    case False
    then show ?thesis using 2(1) 2(4) ok by (simp add: suffixes_Cons)
  next
    case True
    let ?e = "run ! nat pos" and ?s = "drop (nat pos) run"
    have suf: "?s = ?e # drop (nat (pos + 1)) run" "\<forall>x \<in> set ?s. re_key ?e \<le> re_key x"
      using suffix_cases[OF ok(2,3)] True by auto
    have none: "run_map ?s k = None" if "k < re_key ?e" for k
      using run_map_dom[of ?s] suf(2) that by force
    have hit: "run_map ?s (re_key ?e) = Some ?e" using suf(1) by simp
    let ?b = "case best of None \<Rightarrow> Some ?e | Some b \<Rightarrow> if re_key ?e < re_key b then Some ?e else Some b"
    have res: "next_best rs ?b = Some e" using 2(4) True by (simp add: Let_def)
    note IH = 2(2)[OF _ refl ok(1) res]
    have IH1: "\<forall>s \<in> set (suffixes rs). \<forall>x \<in> set s. re_key e \<le> re_key x" using IH True by simp
    have IH2: "\<forall>b. ?b = Some b \<longrightarrow> re_key e \<le> re_key b" using IH True by simp
    have IH3: "?b = Some e \<or> ((\<forall>b. ?b = Some b \<longrightarrow> re_key e < re_key b) \<and> newest (suffixes rs) (re_key e) = Some e)"
      using IH True by simp
    have le: "re_key e \<le> re_key ?e" "\<forall>b. best = Some b \<longrightarrow> re_key e \<le> re_key b"
      using IH2 by (auto split: option.splits if_splits)
    then have all: "\<forall>s \<in> set (suffixes ((run, pos) # rs)). \<forall>x \<in> set s. re_key e \<le> re_key x"
      using IH1 suf(2) by (auto simp: suffixes_Cons intro: order_trans)
    have "best = Some e \<or> ((\<forall>b. best = Some b \<longrightarrow> re_key e < re_key b) \<and>
        newest (suffixes ((run, pos) # rs)) (re_key e) = Some e)"
      using IH3 none[of "re_key e"] hit le by (auto simp: suffixes_Cons split: option.splits if_splits) (meson leI less_le_trans)
    then show ?thesis using all le(2) by blast
  qed
qed (auto simp: suffixes_def)

definition advance_runs :: "row_edit \<Rightarrow> (run \<times> int) list \<Rightarrow> (run \<times> int) list" where
  "advance_runs e rs =
     map (\<lambda>(run, pos). (run, if pos < int (length run) \<and> re_key (run ! nat pos) = re_key e then pos + 1 else pos)) rs"

lemma advance_ok: "pos_ok rs \<Longrightarrow> pos_ok (advance_runs e rs)"
  by (force simp: pos_ok_def advance_runs_def)

lemma next_list:
  assumes "pos_ok rs" "next_best rs None = Some e"
  shows "pending_list (suffixes rs) = e # pending_list (suffixes (advance_runs e rs))"
proof (rule run_ok_unique)
  let ?rs = "advance_runs e rs"
  note ok = suffixes_ok[OF assms(1)] suffixes_ok[OF advance_ok[OF assms(1), of e]]
  have best: "\<forall>s \<in> set (suffixes rs). \<forall>x \<in> set s. re_key e \<le> re_key x" "newest (suffixes rs) (re_key e) = Some e"
    using next_best_Some[OF assms] by auto
  show "run_ok (pending_list (suffixes rs))" by (rule pending_list_ok[OF ok(1)])
  have step: "(\<forall>x \<in> set (drop (nat (if pos < int (length run) \<and> re_key (run ! nat pos) = re_key e then pos + 1 else pos)) run). re_key e < re_key x)
      \<and> (\<forall>k. k \<noteq> re_key e \<longrightarrow> run_map (drop (nat (if pos < int (length run) \<and> re_key (run ! nat pos) = re_key e then pos + 1 else pos)) run) k
           = run_map (drop (nat pos) run) k)"
    if "(run, pos) \<in> set rs" for run pos
  proof -
    have "run_ok run" "0 \<le> pos" "\<forall>x \<in> set (drop (nat pos) run). re_key e \<le> re_key x"
      using that assms(1) best(1) by (auto simp: pos_ok_def suffixes_def)
    then have sfx: "pos < int (length run) \<Longrightarrow> drop (nat pos) run = run ! nat pos # drop (nat (pos + 1)) run"
      "pos < int (length run) \<Longrightarrow> \<forall>x \<in> set (drop (nat (pos + 1)) run). re_key (run ! nat pos) < re_key x"
      "\<not> pos < int (length run) \<Longrightarrow> drop (nat pos) run = []"
      using suffix_cases[of run pos] by auto
    show ?thesis
    proof (cases "pos < int (length run) \<and> re_key (run ! nat pos) = re_key e")
      case True
      then show ?thesis using sfx by auto
    next
      case False
      have "re_key e < re_key x" if x: "x \<in> set (drop (nat pos) run)" for x
      proof -
        have lt: "pos < int (length run)" using x sfx(3) by (cases "pos < int (length run)") auto
        have "re_key e \<le> re_key (run ! nat pos)"
          using \<open>\<forall>x \<in> set (drop (nat pos) run). re_key e \<le> re_key x\<close> sfx(1)[OF lt] by simp
        then have "re_key e < re_key (run ! nat pos)" using False lt by auto
        then show ?thesis using x sfx(1,2)[OF lt] by auto
      qed
      then show ?thesis using False by auto
    qed
  qed
  have "re_key e < re_key x" if x: "x \<in> set (pending_list (suffixes ?rs))" for x
  proof -
    from pending_list_elems[OF x] obtain s where "s \<in> set (suffixes ?rs)" "x \<in> set s" by blast
    then show ?thesis using step by (auto simp: suffixes_def advance_runs_def)
  qed
  then show "run_ok (e # pending_list (suffixes ?rs))" using pending_list_ok[OF ok(2)] by (simp add: run_ok_simps)
  have "newest (suffixes (advance_runs e ps)) k = newest (suffixes ps) k" if "set ps \<subseteq> set rs" "k \<noteq> re_key e" for ps k
    using that step by (induction ps) (auto simp: suffixes_def advance_runs_def split: option.split)
  then show "run_map (pending_list (suffixes rs)) = run_map (e # pending_list (suffixes ?rs))"
    using best(2) by (auto simp: fun_eq_iff pending_list_newest ok)
qed

definition before_end :: "bytes option \<Rightarrow> bytes \<Rightarrow> bool" where
  "before_end e k \<longleftrightarrow> (case e of None \<Rightarrow> True | Some b \<Rightarrow> k < b)"

lemma pending_take_forward:
  assumes "pos_ok (zip (pi_runs it) (pi_pos it))" "length (pi_pos it) = length (pi_runs it)" "\<not> pi_reverse it"
  shows "pending_take n it =
    take n (filter (\<lambda>e. before_end (pi_end it) (re_key e)) (pending_list (suffixes (zip (pi_runs it) (pi_pos it)))))"
  using assms
proof (induction n arbitrary: it)
  case (Suc n)
  let ?rs = "zip (pi_runs it) (pi_pos it)"
  show ?case
  proof (cases "next_best ?rs None")
    case None
    then have "\<forall>s \<in> set (suffixes ?rs). s = []" using next_best_None[OF Suc.prems(1)] by blast
    then have "pending_list (suffixes ?rs) = []" using pending_list_elems by (metis empty_iff list.set(1) list.set_intros(1) neq_Nil_conv)
    then show ?thesis using None Suc.prems(3) by (simp add: pending_Next_def)
  next
    case (Some e)
    note list = next_list[OF Suc.prems(1) Some]
    have ok: "run_ok (e # pending_list (suffixes (advance_runs e ?rs)))"
      using pending_list_ok[OF suffixes_ok[OF Suc.prems(1)]] list by simp
    show ?thesis
    proof (cases "before_end (pi_end it) (re_key e)")
      case False
      then have "filter (\<lambda>e. before_end (pi_end it) (re_key e)) (pending_list (suffixes ?rs)) = []"
        using ok list by (auto simp: before_end_def run_ok_simps filter_empty_conv split: option.splits)
      then show ?thesis
        using Some False Suc.prems(3) by (auto simp: pending_Next_def before_end_def split: option.splits)
    next
      case True
      let ?it = "it\<lparr>pi_pos := map (\<lambda>(run, pos). if pos < int (length run) \<and> re_key (run ! nat pos) = re_key e
                                               then pos + 1 else pos) ?rs\<rparr>"
      have zip: "zip (pi_runs ?it) (pi_pos ?it) = advance_runs e ?rs"
        using Suc.prems(2) by (auto simp: advance_runs_def intro!: nth_equalityI)
      have "pending_Next it = (Some e, ?it)"
        using Some True Suc.prems(3) by (auto simp: pending_Next_def before_end_def split: option.splits)
      then show ?thesis
        using Suc.IH[of ?it] Suc.prems zip list True advance_ok[OF Suc.prems(1), of e] by simp
    qed
  qed
qed simp

lemma suffixes_start:
  "list_all run_ok runs \<Longrightarrow>
    suffixes (zip runs (map (\<lambda>run. int (run_search run start)) runs)) = map (filter (\<lambda>e. start \<le> re_key e)) runs"
proof (induction runs)
  case (Cons r runs)
  have "dropWhile (\<lambda>e. re_key e < start) r = filter (\<lambda>e. start \<le> re_key e) r" if "run_ok r" for r
    using that by (induction r) (auto simp: run_ok_simps not_less intro!: filter_True[symmetric])
  then show ?case
    using Cons by (auto simp: suffixes_Cons run_search_takeWhile dropWhile_eq_drop[symmetric])
qed (simp add: suffixes_def)

theorem pending_Iter_list:
  assumes "pending_ok p"
  shows "pending_take n (pending_Iter p start end') =
    take n (filter (\<lambda>e. start \<le> re_key e \<and> before_end end' (re_key e)) (pending_list (pruns p)))"
proof -
  let ?it = "pending_Iter p start end'"
  have ok: "list_all run_ok (pruns p)" using assms by (simp add: pending_ok_def)
  have "pos_ok (zip (pi_runs ?it) (pi_pos ?it))"
    using ok by (auto simp: pos_ok_def pending_Iter_def list_all_iff set_zip)
  then show ?thesis
    using pending_take_forward[of ?it n] suffixes_start[OF ok, of start] pending_list_filter[OF ok, of "\<lambda>k. start \<le> k"]
    by (simp add: pending_Iter_def filter_filter conj_commute)
qed

section \<open>Descending\<close>

definition prefixes_at :: "(run \<times> int) list \<Rightarrow> run list" where
  "prefixes_at rs = map (\<lambda>(run, pos). take (nat (pos + 1)) run) rs"

definition rpos_ok :: "(run \<times> int) list \<Rightarrow> bool" where
  "rpos_ok rs \<longleftrightarrow> (\<forall>(run, pos) \<in> set rs. run_ok run \<and> - 1 \<le> pos \<and> pos < int (length run))"

lemma prefixes_at_ok: "rpos_ok rs \<Longrightarrow> list_all run_ok (prefixes_at rs)"
  by (auto simp: rpos_ok_def prefixes_at_def list_all_iff run_ok_drop)

lemma prefixes_at_Cons: "prefixes_at ((run, pos) # rs) = take (nat (pos + 1)) run # prefixes_at rs"
  by (simp add: prefixes_at_def)

lemma run_ok_snoc: "run_ok (xs @ [e]) \<longleftrightarrow> run_ok xs \<and> (\<forall>x \<in> set xs. re_key x < re_key e)"
  by (auto simp: run_ok_def sorted_wrt_append)

lemma prefix_snoc:
  assumes "run_ok run" "0 \<le> pos" "pos < int (length run)"
  shows "take (nat (pos + 1)) run = take (nat pos) run @ [run ! nat pos]"
    "\<forall>x \<in> set (take (nat pos) run). re_key x < re_key (run ! nat pos)"
proof -
  show snoc: "take (nat (pos + 1)) run = take (nat pos) run @ [run ! nat pos]"
    using assms(2,3) by (simp add: take_Suc_conv_app_nth nat_add_distrib)
  show "\<forall>x \<in> set (take (nat pos) run). re_key x < re_key (run ! nat pos)"
    using run_ok_drop(2)[OF assms(1), of "nat (pos + 1)"] unfolding snoc by (simp add: run_ok_snoc)
qed

lemma prev_best_None:
  "rpos_ok rs \<Longrightarrow> prev_best rs best = None \<longleftrightarrow> best = None \<and> (\<forall>s \<in> set (prefixes_at rs). s = [])"
proof (induction rs best rule: prev_best.induct)
  case (2 run pos rs best)
  then have "rpos_ok rs" "- 1 \<le> pos" "pos < int (length run)" by (auto simp: rpos_ok_def)
  with 2 show ?case by (cases best) (auto simp: prefixes_at_Cons Let_def)
qed (simp add: prefixes_at_def)

lemma prev_best_Some:
  assumes "rpos_ok rs" "prev_best rs best = Some e"
  shows "(\<forall>s \<in> set (prefixes_at rs). \<forall>x \<in> set s. re_key x \<le> re_key e) \<and> (\<forall>b. best = Some b \<longrightarrow> re_key b \<le> re_key e) \<and>
    (best = Some e \<or> ((\<forall>b. best = Some b \<longrightarrow> re_key b < re_key e) \<and> newest (prefixes_at rs) (re_key e) = Some e))"
  using assms
proof (induction rs best rule: prev_best.induct)
  case (2 run pos rs best)
  have ok: "rpos_ok rs" "run_ok run" "- 1 \<le> pos" "pos < int (length run)" using 2(3) by (auto simp: rpos_ok_def)
  show ?case
  proof (cases "0 \<le> pos")
    case False
    then show ?thesis using 2(1) 2(4) ok by (simp add: prefixes_at_Cons)
  next
    case True
    let ?e = "run ! nat pos" and ?s = "take (nat (pos + 1)) run"
    have pre: "?s = take (nat pos) run @ [?e]" "\<forall>x \<in> set ?s. re_key x \<le> re_key ?e"
      "\<forall>x \<in> set (take (nat pos) run). re_key x < re_key ?e"
      using prefix_snoc[OF ok(2) True ok(4)] by auto
    have none: "run_map ?s k = None" if "re_key ?e < k" for k
      using run_map_dom[of ?s] pre(2) that by force
    have "run_map (take (nat pos) run) (re_key ?e) = None"
      using run_map_dom[of "take (nat pos) run"] pre(3) by force
    then have hit: "run_map ?s (re_key ?e) = Some ?e" unfolding pre(1) run_map_append by (simp add: map_add_def)
    let ?b = "case best of None \<Rightarrow> Some ?e | Some b \<Rightarrow> if re_key ?e > re_key b then Some ?e else Some b"
    have res: "prev_best rs ?b = Some e" using 2(4) True by (simp add: Let_def)
    note IH = 2(2)[OF _ refl ok(1) res]
    have IH1: "\<forall>s \<in> set (prefixes_at rs). \<forall>x \<in> set s. re_key x \<le> re_key e" using IH True by simp
    have IH2: "\<forall>b. ?b = Some b \<longrightarrow> re_key b \<le> re_key e" using IH True by simp
    have IH3: "?b = Some e \<or> ((\<forall>b. ?b = Some b \<longrightarrow> re_key b < re_key e) \<and> newest (prefixes_at rs) (re_key e) = Some e)"
      using IH True by simp
    have le: "re_key ?e \<le> re_key e" "\<forall>b. best = Some b \<longrightarrow> re_key b \<le> re_key e"
      using IH2 by (auto split: option.splits if_splits)
    then have all: "\<forall>s \<in> set (prefixes_at ((run, pos) # rs)). \<forall>x \<in> set s. re_key x \<le> re_key e"
      using IH1 pre(2) by (auto simp: prefixes_at_Cons intro: order_trans)
    have "best = Some e \<or> ((\<forall>b. best = Some b \<longrightarrow> re_key b < re_key e) \<and>
        newest (prefixes_at ((run, pos) # rs)) (re_key e) = Some e)"
      using IH3 none[of "re_key e"] hit le
      by (auto simp: prefixes_at_Cons split: option.splits if_splits) (meson leI le_less_trans)
    then show ?thesis using all le(2) by blast
  qed
qed (auto simp: prefixes_at_def)

definition retreat_runs :: "row_edit \<Rightarrow> (run \<times> int) list \<Rightarrow> (run \<times> int) list" where
  "retreat_runs e rs =
     map (\<lambda>(run, pos). (run, if pos \<ge> 0 \<and> re_key (run ! nat pos) = re_key e then pos - 1 else pos)) rs"

lemma retreat_ok: "rpos_ok rs \<Longrightarrow> rpos_ok (retreat_runs e rs)"
  by (force simp: rpos_ok_def retreat_runs_def)

lemma prev_list:
  assumes "rpos_ok rs" "prev_best rs None = Some e"
  shows "pending_list (prefixes_at rs) = pending_list (prefixes_at (retreat_runs e rs)) @ [e]"
proof (rule run_ok_unique)
  let ?rs = "retreat_runs e rs"
  note ok = prefixes_at_ok[OF assms(1)] prefixes_at_ok[OF retreat_ok[OF assms(1), of e]]
  have best: "\<forall>s \<in> set (prefixes_at rs). \<forall>x \<in> set s. re_key x \<le> re_key e" "newest (prefixes_at rs) (re_key e) = Some e"
    using prev_best_Some[OF assms] by auto
  show "run_ok (pending_list (prefixes_at rs))" by (rule pending_list_ok[OF ok(1)])
  have step: "(\<forall>x \<in> set (take (nat (pos' + 1)) run). re_key x < re_key e)
      \<and> (\<forall>k. k \<noteq> re_key e \<longrightarrow> run_map (take (nat (pos' + 1)) run) k = run_map (take (nat (pos + 1)) run) k)"
    if rp: "(run, pos) \<in> set rs" and pos': "pos' = (if pos \<ge> 0 \<and> re_key (run ! nat pos) = re_key e then pos - 1 else pos)"
    for run pos pos'
  proof -
    have r: "run_ok run" "- 1 \<le> pos" "pos < int (length run)" "\<forall>x \<in> set (take (nat (pos + 1)) run). re_key x \<le> re_key e"
      using rp assms(1) best(1) by (auto simp: rpos_ok_def prefixes_at_def)
    show ?thesis
    proof (cases "0 \<le> pos")
      case True
      note pre = prefix_snoc[OF r(1) True r(3)]
      show ?thesis
      proof (cases "re_key (run ! nat pos) = re_key e")
        case eq: True
        then show ?thesis using pre pos' True by (auto simp: run_map_append map_add_def split: option.split)
      next
        case False
        then have "re_key (run ! nat pos) < re_key e" using r(4) pre(1) by auto
        then show ?thesis using pre pos' False by auto
      qed
    qed (use pos' r in auto)
  qed
  have above: "re_key x < re_key e" if x: "x \<in> set (pending_list (prefixes_at ?rs))" for x
  proof -
    from pending_list_elems[OF x] obtain s where "s \<in> set (prefixes_at ?rs)" "x \<in> set s" by blast
    then show ?thesis using step by (auto simp: prefixes_at_def retreat_runs_def)
  qed
  then show "run_ok (pending_list (prefixes_at ?rs) @ [e])" using pending_list_ok[OF ok(2)] by (simp add: run_ok_snoc)
  have same: "newest (prefixes_at (retreat_runs e ps)) k = newest (prefixes_at ps) k" if "set ps \<subseteq> set rs" "k \<noteq> re_key e" for ps k
    using that(1)
  proof (induction ps)
    case (Cons rp ps)
    obtain run pos where rp: "rp = (run, pos)" by fastforce
    then show ?case using Cons step[of run pos, OF _ refl] that(2)
      by (simp add: prefixes_at_def retreat_runs_def split: option.split)
  qed (simp add: prefixes_at_def retreat_runs_def)
  have "run_map (pending_list (prefixes_at ?rs)) (re_key e) = None"
    using run_map_dom[of "pending_list (prefixes_at ?rs)"] above by force
  then show "run_map (pending_list (prefixes_at rs)) = run_map (pending_list (prefixes_at ?rs) @ [e])"
    using best(2) same by (auto simp: fun_eq_iff run_map_append map_add_def pending_list_newest ok split: option.split)
qed

definition from_start :: "bytes option \<Rightarrow> bytes \<Rightarrow> bool" where
  "from_start s k \<longleftrightarrow> (case s of None \<Rightarrow> True | Some b \<Rightarrow> b \<le> k)"

lemma pending_take_reverse:
  assumes "rpos_ok (zip (pi_runs it) (pi_pos it))" "length (pi_pos it) = length (pi_runs it)" "pi_reverse it"
  shows "pending_take n it =
    take n (rev (filter (\<lambda>e. from_start (pi_start it) (re_key e)) (pending_list (prefixes_at (zip (pi_runs it) (pi_pos it))))))"
  using assms
proof (induction n arbitrary: it)
  case (Suc n)
  let ?rs = "zip (pi_runs it) (pi_pos it)"
  show ?case
  proof (cases "prev_best ?rs None")
    case None
    then have "\<forall>s \<in> set (prefixes_at ?rs). s = []" using prev_best_None[OF Suc.prems(1)] by blast
    then have "pending_list (prefixes_at ?rs) = []" using pending_list_elems by (metis empty_iff list.set(1) list.set_intros(1) neq_Nil_conv)
    then show ?thesis using None Suc.prems(3) by (simp add: pending_Next_def pending_prev_def)
  next
    case (Some e)
    note list = prev_list[OF Suc.prems(1) Some]
    have ok: "run_ok (pending_list (prefixes_at (retreat_runs e ?rs)) @ [e])"
      using pending_list_ok[OF prefixes_at_ok[OF Suc.prems(1)]] list by simp
    show ?thesis
    proof (cases "from_start (pi_start it) (re_key e)")
      case False
      then have "filter (\<lambda>e. from_start (pi_start it) (re_key e)) (pending_list (prefixes_at ?rs)) = []"
        using ok list by (fastforce simp: from_start_def run_ok_snoc filter_empty_conv split: option.splits)
      then show ?thesis
        using Some False Suc.prems(3) by (auto simp: pending_Next_def pending_prev_def from_start_def split: option.splits)
    next
      case True
      let ?it = "it\<lparr>pi_pos := map (\<lambda>(run, pos). if pos \<ge> 0 \<and> re_key (run ! nat pos) = re_key e
                                               then pos - 1 else pos) ?rs\<rparr>"
      have zip: "zip (pi_runs ?it) (pi_pos ?it) = retreat_runs e ?rs"
        using Suc.prems(2) by (auto simp: retreat_runs_def intro!: nth_equalityI)
      have "pending_Next it = (Some e, ?it)"
        using Some True Suc.prems(3) by (auto simp: pending_Next_def pending_prev_def from_start_def split: option.splits)
      then show ?thesis
        using Suc.IH[of ?it] Suc.prems zip list True retreat_ok[OF Suc.prems(1), of e] by simp
    qed
  qed
qed simp

lemma prefixes_end:
  "list_all run_ok runs \<Longrightarrow>
    prefixes_at (zip runs (map (\<lambda>run. case end' of None \<Rightarrow> int (length run) - 1 | Some e \<Rightarrow> int (run_search run e) - 1) runs))
      = map (filter (\<lambda>x. before_end end' (re_key x))) runs"
proof (induction runs)
  case (Cons r runs)
  have "takeWhile (\<lambda>x. re_key x < e) r = filter (\<lambda>x. re_key x < e) r" if "run_ok r" for r e
    using that by (induction r) (auto simp: run_ok_simps intro!: filter_False[symmetric] dest: less_trans)
  then have "take (run_search r e) r = filter (\<lambda>x. re_key x < e) r" if "run_ok r" for e
    using that by (metis run_search_takeWhile takeWhile_eq_take)
  then show ?case
    using Cons by (auto simp: prefixes_at_Cons before_end_def split: option.split)
qed (simp add: prefixes_at_def)

theorem pending_IterReverse_list:
  assumes "pending_ok p"
  shows "pending_take n (pending_IterReverse p start end') =
    take n (rev (filter (\<lambda>e. from_start start (re_key e) \<and> before_end end' (re_key e)) (pending_list (pruns p))))"
proof -
  let ?it = "pending_IterReverse p start end'"
  have ok: "list_all run_ok (pruns p)" using assms by (simp add: pending_ok_def)
  have "int (run_search run e) - 1 < int (length run)" if "run_ok run" for run e
    using length_takeWhile_le[of "\<lambda>x. re_key x < e" run] by (simp add: run_search_takeWhile[OF that])
  then have "rpos_ok (zip (pi_runs ?it) (pi_pos ?it))"
    using ok by (auto simp: rpos_ok_def pending_IterReverse_def list_all_iff set_zip split: option.split)
  then show ?thesis
    using pending_take_reverse[of ?it n] prefixes_end[OF ok, of end'] pending_list_filter[OF ok, of "before_end end'"]
    by (simp add: pending_IterReverse_def filter_filter conj_commute)
qed

end
