(* ===== verification/Table_View.thy ===== *)
theory Table_View
  imports Table_State Pending_Iter
begin

text \<open>
  What a table state stands for: the map from encoded primary keys to rows that the base tree, the
  journal's pending edits and the transaction's own edits make up. Reads return it, \<open>setEdit\<close> updates
  it and \<open>ensureRows\<close> materialises it.
\<close>

section \<open>Stored trees\<close>

definition tree_content :: "(hash \<Rightarrow> error + bytes) \<Rightarrow> hash \<Rightarrow> entry list \<Rightarrow> bool" where
  "tree_content get h es \<longleftrightarrow>
     (if hash_Valid h
      then \<exists>H t. digest32 H \<and> pvalid t \<and> pstored get H t \<and> small_nodes H t \<and> h = proot H t \<and> es = pentries t
      else es = [])"

lemma tree_content_sorted: "tree_content get h es \<Longrightarrow> keys_sorted es"
  by (auto simp: tree_content_def pvalid_def keys_sorted_def split: if_splits)

lemma tree_content_lookup:
  assumes "tree_content get h es" "hash_Valid h"
  shows "tree_lookup get h k = Some (case elookup k es of None \<Rightarrow> Inl KeyNotFound | Some v \<Rightarrow> Inr v)"
proof -
  obtain H t where t: "digest32 H" "pvalid t" "pstored get H t" "small_nodes H t" "h = proot H t" "es = pentries t"
    using assms by (auto simp: tree_content_def)
  show ?thesis
    using digest32.tree_Get_pstored[OF t(1-4) cache_ok_empty, of "\<lambda>_. []" k] t(5,6) assms(2)
    by (auto simp: tree_lookup_def prolly_Open_def)
qed

lemma tree_content_entries:
  assumes "tree_content get h es" "hash_Valid h"
  shows "tree_Entries get h = Some (Inr es)"
  using assms digest32.tree_Entries_pstored by (auto simp: tree_content_def)

lemma elookup_map_of: "elookup k es = map_of (map (\<lambda>e. (ekey e, evalue e)) es) k"
  by (induction es) (auto simp: elookup_def)

section \<open>The pending edits as a list\<close>

lemma mergeRuns_length: "length (mergeRuns a b) \<le> length a + length b"
  by (induction a b rule: mergeRuns.induct) auto

lemma pending_list_length: "length (pending_list runs) \<le> sum_list (map length runs)"
proof (induction runs)
  case (Cons r runs)
  then show ?case using mergeRuns_length[of r "pending_list runs"] by (simp add: pending_list_def)
qed (simp add: pending_list_def)

lemma pending_all_list:
  assumes "pending_ok p"
  shows "pending_all p = pending_list (pruns p)"
  using pending_Iter_list[OF assms, of "pending_Len p" "[]" None] pending_list_length[of "pruns p"]
  by (simp add: pending_all_def pending_Len_sum before_end_def)

lemma pending_Empty_list: "pending_Empty p \<Longrightarrow> pending_list (pruns p) = []"
  by (simp add: pending_Empty_def pending_list_def)

section \<open>Abstraction\<close>

definition base_row :: "sqllib \<Rightarrow> pkschema \<Rightarrow> entry list \<Rightarrow> bytes \<rightharpoonup> row" where
  "base_row lib schema es k =
     Option.bind (elookup k es) (\<lambda>v. case decodeRow lib (schema_columns schema) v of Inl _ \<Rightarrow> None | Inr row \<Rightarrow> Some row)"

definition pending_edit :: "sqllib \<Rightarrow> tableState \<Rightarrow> row_edit \<Rightarrow> rowEdit" where
  "pending_edit lib s p = (case decodePending lib s p of Inl _ \<Rightarrow> \<lparr>ed_row = [], ed_delete = True\<rparr> | Inr e \<Rightarrow> e)"

definition overlay_edit :: "sqllib \<Rightarrow> tableState \<Rightarrow> bytes \<rightharpoonup> rowEdit" where
  "overlay_edit lib s = (map_option (pending_edit lib s) \<circ> pending_map (ts_pending s)) ++ map_of (ts_edits s)"

definition edit_result :: "rowEdit \<Rightarrow> row option" where
  "edit_result e = (if ed_delete e then None else Some (ed_row e))"

definition table_view :: "sqllib \<Rightarrow> tableState \<Rightarrow> entry list \<Rightarrow> bytes \<rightharpoonup> row" where
  "table_view lib s es k =
     (case overlay_edit lib s k of Some e \<Rightarrow> edit_result e | None \<Rightarrow> base_row lib (ts_schema s) es k)"

definition entry_row_ok :: "sqllib \<Rightarrow> pkschema \<Rightarrow> entry \<Rightarrow> bool" where
  "entry_row_ok lib schema e \<longleftrightarrow>
     (\<exists>row. decodeRow lib (schema_columns schema) (evalue e) = Inr row \<and> encodeKey schema row = Inr (ekey e))"

definition ts_base_ok :: "sqllib \<Rightarrow> tableState \<Rightarrow> entry list \<Rightarrow> bool" where
  "ts_base_ok lib s es \<longleftrightarrow>
     tree_content (ts_store s) (DataRoot (ts_manifest s)) es \<and> list_all (entry_row_ok lib (ts_schema s)) es \<and>
     pending_ok (ts_pending s) \<and>
     list_all (\<lambda>p. decodePending lib s p = Inr (pending_edit lib s p)) (pending_list (pruns (ts_pending s))) \<and>
     distinct (map fst (ts_edits s))"

definition ts_ok :: "sqllib \<Rightarrow> tableState \<Rightarrow> entry list \<Rightarrow> bool" where
  "ts_ok lib s es \<longleftrightarrow> ts_base_ok lib s es \<and>
     (case ts_rows s of None \<Rightarrow> True | Some rows \<Rightarrow> distinct (map fst rows) \<and> map_of rows = table_view lib s es)"

lemma pending_map_elem: "pending_map p k = Some e \<Longrightarrow> e \<in> set (pending_list (pruns p)) \<and> re_key e = k"
  using run_map_key by (auto simp: pending_map_def)

lemma ts_edit_overlay:
  assumes "ts_base_ok lib s es"
  shows "ts_edit lib s k = Inr (overlay_edit lib s k)"
proof -
  have ok: "pending_ok (ts_pending s)" using assms by (simp add: ts_base_ok_def)
  have dec: "decodePending lib s p = Inr (pending_edit lib s p)" if "pending_map (ts_pending s) k = Some p" for p
    using assms pending_map_elem[OF that] by (auto simp: ts_base_ok_def list_all_iff)
  have "pending_map (ts_pending s) k = None" if "pending_Empty (ts_pending s)"
    using that by (simp add: pending_map_def pending_Empty_list)
  then show ?thesis
    using dec by (auto simp: ts_edit_def overlay_edit_def map_add_def pending_Get_map[OF ok] split: option.split)
qed

lemma base_row_lookup:
  assumes "ts_base_ok lib s es" "elookup k es = Some v"
  shows "\<exists>row. decodeRow lib (schema_columns (ts_schema s)) v = Inr row \<and> base_row lib (ts_schema s) es k = Some row
    \<and> encodeKey (ts_schema s) row = Inr k"
proof -
  obtain e where e: "e \<in> set es" "ekey e = k" "evalue e = v"
    using assms(2) by (auto simp: elookup_def find_Some_iff in_set_conv_nth)
  then have "entry_row_ok lib (ts_schema s) e" using assms(1) by (auto simp: ts_base_ok_def list_all_iff)
  then show ?thesis using e assms(2) by (auto simp: entry_row_ok_def base_row_def)
qed

theorem lookupRow_view:
  assumes "ts_ok lib s es"
  shows "lookupRow lib s k = Some (Inr (table_view lib s es k))"
proof (cases "ts_rows s")
  case (Some rows)
  then show ?thesis using assms by (simp add: lookupRow_def ts_ok_def)
next
  case None
  have b: "ts_base_ok lib s es" using assms by (simp add: ts_ok_def)
  then have tc: "tree_content (ts_store s) (DataRoot (ts_manifest s)) es" by (simp add: ts_base_ok_def)
  have base: "base_row lib (ts_schema s) es k = None" if "elookup k es = None" using that by (simp add: base_row_def)
  show ?thesis
  proof (cases "overlay_edit lib s k")
    case (Some e)
    then show ?thesis using None ts_edit_overlay[OF b, of k] by (simp add: lookupRow_def table_view_def edit_result_def)
  next
    case no: None
    show ?thesis
    proof (cases "hash_Valid (DataRoot (ts_manifest s))")
      case False
      then have "es = []" using tc by (simp add: tree_content_def)
      then show ?thesis using None no False ts_edit_overlay[OF b, of k] base
        by (simp add: lookupRow_def table_view_def elookup_def)
    next
      case True
      show ?thesis
      proof (cases "elookup k es")
        case None
        then show ?thesis
          using \<open>ts_rows s = None\<close> no True ts_edit_overlay[OF b, of k] base tree_content_lookup[OF tc True, of k]
          by (simp add: lookupRow_def table_view_def)
      next
        case (Some v)
        then show ?thesis
          using None no True ts_edit_overlay[OF b, of k] base_row_lookup[OF b Some] tree_content_lookup[OF tc True, of k]
          by (auto simp: lookupRow_def table_view_def)
      qed
    qed
  qed
qed

section \<open>Writing\<close>

lemma setEdit_frame:
  "ts_schema (setEdit k e s) = ts_schema s" "ts_indexes (setEdit k e s) = ts_indexes s"
  "ts_idxEdits (setEdit k e s) = ts_idxEdits s" "ts_manifest (setEdit k e s) = ts_manifest s"
  "ts_store (setEdit k e s) = ts_store s" "ts_pending (setEdit k e s) = ts_pending s" "ts_dirty (setEdit k e s) = ts_dirty s"
  by (simp_all add: setEdit_def)

lemma decodePending_setEdit:
  "decodePending lib (setEdit k e s) = decodePending lib s" "pending_edit lib (setEdit k e s) = pending_edit lib s"
  by (simp_all add: decodePending_def pending_edit_def setEdit_frame fun_eq_iff)

lemma table_view_setEdit:
  "table_view lib (setEdit k e s) es = (table_view lib s es)(k := edit_result e)"
proof -
  have "overlay_edit lib (setEdit k e s) = (overlay_edit lib s)(k \<mapsto> e)"
    by (simp add: overlay_edit_def decodePending_setEdit setEdit_frame) (simp add: setEdit_def update_conv')
  then show ?thesis by (auto simp: table_view_def setEdit_frame fun_eq_iff split: option.split)
qed

lemma setEdit_ok:
  assumes "ts_ok lib s es"
  shows "ts_ok lib (setEdit k e s) es"
proof -
  have "ts_base_ok lib (setEdit k e s) es"
    using assms distinct_update[of "ts_edits s" k e]
    by (simp add: ts_ok_def ts_base_ok_def setEdit_frame decodePending_setEdit) (simp add: setEdit_def)
  then show ?thesis
    using assms unfolding ts_ok_def table_view_setEdit
    by (auto simp: setEdit_def edit_result_def update_conv' delete_conv' distinct_update distinct_delete split: option.splits)
qed

section \<open>The list of winning edits\<close>

definition edit_list :: "sqllib \<Rightarrow> tableState \<Rightarrow> (bytes \<times> rowEdit) list" where
  "edit_list lib s =
     map (\<lambda>p. (re_key p, pending_edit lib s p))
       (filter (\<lambda>p. map_of (ts_edits s) (re_key p) = None) (pending_list (pruns (ts_pending s)))) @ ts_edits s"

lemma each_local_fold:
  assumes "\<And>k e acc. fn k e acc = (Inr (), step k e acc)"
  shows "each_local fn edits acc = (Inr (), fold (\<lambda>(k, e). step k e) edits acc)"
  by (induction edits arbitrary: acc) (auto simp: assms)

lemma each_pending_fold:
  assumes "\<And>k e acc. fn k e acc = (Inr (), step k e acc)" "list_all (\<lambda>p. decodePending lib s p = Inr (pending_edit lib s p)) ps"
  shows "each_pending lib s fn ps acc =
    (Inr (), fold (\<lambda>(k, e). step k e)
      (map (\<lambda>p. (re_key p, pending_edit lib s p)) (filter (\<lambda>p. map_of (ts_edits s) (re_key p) = None) ps)) acc)"
  using assms(2) by (induction ps arbitrary: acc) (auto simp: assms(1))

lemma forEachEdit_fold:
  assumes "\<And>k e acc. fn k e acc = (Inr (), step k e acc)" "ts_base_ok lib s es"
  shows "forEachEdit lib s fn acc = (Inr (), fold (\<lambda>(k, e). step k e) (edit_list lib s) acc)"
  using assms(2) each_pending_fold[OF assms(1)] each_local_fold[OF assms(1)]
  by (auto simp: forEachEdit_def edit_list_def ts_base_ok_def pending_all_list pending_Empty_list)

lemma edit_list_distinct:
  assumes "ts_base_ok lib s es"
  shows "distinct (map fst (edit_list lib s))"
proof -
  have "run_ok (pending_list (pruns (ts_pending s)))"
    using assms pending_list_ok by (simp add: ts_base_ok_def pending_ok_def)
  then have "distinct (map re_key (pending_list (pruns (ts_pending s))))"
    by (simp add: run_ok_def strict_sorted_iff)
  then have "distinct (map re_key (filter P (pending_list (pruns (ts_pending s)))))" for P
    by (rule distinct_map_filter)
  then show ?thesis
    using assms by (auto simp: edit_list_def ts_base_ok_def comp_def map_of_eq_None_iff)
qed

lemma edit_list_overlay: "map_of (edit_list lib s) = overlay_edit lib s"
proof
  fix k
  have "map_of (map (\<lambda>p. (re_key p, f p)) (filter (\<lambda>p. map_of m (re_key p) = None) ps)) k =
      (if map_of m k = None then map_option f (run_map ps k) else None)" for f :: "row_edit \<Rightarrow> rowEdit" and m :: "(bytes, rowEdit) gomap" and ps
    by (induction ps) (auto simp: run_map_def)
  then show "map_of (edit_list lib s) k = overlay_edit lib s k"
    by (simp add: edit_list_def overlay_edit_def map_add_def pending_map_def split: option.split)
qed

lemma fold_apply_edit:
  assumes "distinct (map fst edits)"
  shows "map_of (fold (\<lambda>(k, e). snd \<circ> apply_edit k e) edits rows) k =
    (case map_of edits k of Some e \<Rightarrow> edit_result e | None \<Rightarrow> map_of rows k)"
  using assms
proof (induction edits arbitrary: rows)
  case (Cons x edits)
  obtain k' e where x: "x = (k', e)" by fastforce
  have "map_of edits k' = None" using Cons.prems x by (simp add: map_of_eq_None_iff)
  then show ?case
    using Cons x by (auto simp: apply_edit_def edit_result_def update_conv' delete_conv' split: option.split)
qed simp

lemma fold_put_edit:
  assumes "distinct (map fst edits)" "\<forall>k \<in> fst ` set edits. map_of rows k = None"
  shows "map_of (fold (\<lambda>(k, e). snd \<circ> put_edit k e) edits rows) k =
    (case map_of edits k of Some e \<Rightarrow> edit_result e | None \<Rightarrow> map_of rows k)"
  using assms
proof (induction edits arbitrary: rows)
  case (Cons x edits)
  obtain k' e where x: "x = (k', e)" by fastforce
  have none: "map_of edits k' = None" "map_of rows k' = None" using Cons.prems x by (simp_all add: map_of_eq_None_iff)
  have rows: "map_of (snd (put_edit k' e rows)) = (map_of rows)(k' := edit_result e)"
    using none by (auto simp: put_edit_def edit_result_def update_conv')
  have "\<forall>k \<in> fst ` set edits. map_of (snd (put_edit k' e rows)) k = None"
    using Cons.prems x unfolding rows by force
  then show ?case
    using Cons.IH[of "snd (put_edit k' e rows)"] Cons.prems(1) x none unfolding rows by (auto split: option.split)
qed simp

lemma fold_edit_distinct:
  "distinct (map fst rows) \<Longrightarrow> distinct (map fst (fold (\<lambda>(k, e). snd \<circ> apply_edit k e) edits rows))"
  "distinct (map fst rows) \<Longrightarrow> distinct (map fst (fold (\<lambda>(k, e). snd \<circ> put_edit k e) edits rows))"
  by (induction edits arbitrary: rows) (auto simp: apply_edit_def put_edit_def distinct_update distinct_delete)

lemma load_rows_ok:
  assumes "list_all (entry_row_ok lib schema) es" "distinct (map ekey es)" "distinct (map fst rows)"
  shows "\<exists>rows'. load_rows lib schema es rows = (Inr (), rows') \<and> distinct (map fst rows') \<and>
    map_of rows' = map_of rows ++ base_row lib schema es"
  using assms
proof (induction es arbitrary: rows)
  case Nil
  then show ?case by (auto simp: base_row_def elookup_def fun_eq_iff map_add_def)
next
  case (Cons e es)
  obtain row where row: "decodeRow lib (schema_columns schema) (evalue e) = Inr row" "encodeKey schema row = Inr (ekey e)"
    using Cons.prems(1) by (auto simp: entry_row_ok_def)
  obtain rows' where r: "load_rows lib schema es (AList.update (ekey e) row rows) = (Inr (), rows')" "distinct (map fst rows')"
      "map_of rows' = map_of (AList.update (ekey e) row rows) ++ base_row lib schema es"
    using Cons.IH[of "AList.update (ekey e) row rows"] Cons.prems by (auto simp: distinct_update)
  have "base_row lib schema (e # es) = (base_row lib schema es)(ekey e \<mapsto> row)"
    using row by (auto simp: base_row_def elookup_def fun_eq_iff)
  moreover have "elookup (ekey e) es = None" using Cons.prems(2) by (intro elookup_None) (metis distinct.simps(2) image_eqI list.set_map list.simps(9))
  then have "base_row lib schema es (ekey e) = None" by (simp add: base_row_def)
  ultimately have "map_of rows' = map_of rows ++ base_row lib schema (e # es)"
    using r(3) by (auto simp: update_conv' fun_eq_iff map_add_def split: option.split)
  then show ?case using r row by simp
qed

theorem ensureRows_view:
  assumes "ts_ok lib s es"
  shows "\<exists>rows. ensureRows lib s = Some (Inr (), s\<lparr>ts_rows := Some rows\<rparr>) \<and> distinct (map fst rows) \<and>
    map_of rows = table_view lib s es"
proof (cases "ts_rows s")
  case (Some rows)
  then have "s\<lparr>ts_rows := Some rows\<rparr> = s" by simp
  then show ?thesis using assms Some by (intro exI[of _ rows]) (simp add: ensureRows_def ts_ok_def)
next
  case None
  have b: "ts_base_ok lib s es" using assms by (simp add: ts_ok_def)
  then have tc: "tree_content (ts_store s) (DataRoot (ts_manifest s)) es" by (simp add: ts_base_ok_def)
  note dist = edit_list_distinct[OF b]
  have app: "forEachEdit lib s apply_edit acc = (Inr (), fold (\<lambda>(k, e). snd \<circ> apply_edit k e) (edit_list lib s) acc)"
    and put: "forEachEdit lib s put_edit acc = (Inr (), fold (\<lambda>(k, e). snd \<circ> put_edit k e) (edit_list lib s) acc)" for acc
    using forEachEdit_fold[OF _ b, of apply_edit "\<lambda>k e. snd \<circ> apply_edit k e" acc]
      forEachEdit_fold[OF _ b, of put_edit "\<lambda>k e. snd \<circ> put_edit k e" acc]
    by (simp_all add: apply_edit_def put_edit_def)
  show ?thesis
  proof (cases "hash_Valid (DataRoot (ts_manifest s))")
    case False
    then have "es = []" using tc by (simp add: tree_content_def)
    let ?rows = "fold (\<lambda>(k, e). snd \<circ> put_edit k e) (edit_list lib s) []"
    have "map_of ?rows = table_view lib s es"
      using fold_put_edit[OF dist, of "[]"] \<open>es = []\<close>
      by (auto simp: fun_eq_iff table_view_def edit_list_overlay base_row_def elookup_def split: option.split)
    then show ?thesis
      using None False fold_edit_distinct(2)[of "[]" "edit_list lib s"] put by (intro exI[of _ ?rows]) (simp add: ensureRows_def)
  next
    case True
    have "distinct (map ekey es)" using tree_content_sorted[OF tc] by (simp add: keys_sorted_def strict_sorted_iff)
    then obtain rows where rows: "load_rows lib (ts_schema s) es [] = (Inr (), rows)" "distinct (map fst rows)"
        "map_of rows = base_row lib (ts_schema s) es"
      using load_rows_ok[of lib "ts_schema s" es "[]"] b by (auto simp: ts_base_ok_def)
    let ?rows = "fold (\<lambda>(k, e). snd \<circ> apply_edit k e) (edit_list lib s) rows"
    have "map_of ?rows = table_view lib s es"
      using fold_apply_edit[OF dist, of rows] rows(3)
      by (auto simp: fun_eq_iff table_view_def edit_list_overlay split: option.split)
    then show ?thesis
      using None True tree_content_entries[OF tc True] rows(1) fold_edit_distinct(1)[OF rows(2)] app
      by (intro exI[of _ ?rows]) (simp add: ensureRows_def)
  qed
qed

end
