(* ===== verification/Table_Index.thy ===== *)
theory Table_Index
  imports Table_View
begin

text \<open>
  What a table state knows of its secondary indexes: the map from index keys to primary keys that the
  index tree and the overlay of index edits make up. \<open>lookupIndexKey\<close> reads it, \<open>addIndexEdit\<close> updates
  it, and \<open>ensureIndexEdits\<close> derives the overlay from the row edits so that it agrees with the rows.
\<close>

section \<open>The effect of index edits\<close>

definition index_put :: "edit \<Rightarrow> (bytes \<rightharpoonup> bytes) \<Rightarrow> (bytes \<rightharpoonup> bytes)" where
  "index_put e I = I(edkey e := if eddelete e then None else Some (edvalue e))"

definition index_effect :: "edit list \<Rightarrow> (bytes \<rightharpoonup> bytes) \<Rightarrow> (bytes \<rightharpoonup> bytes)" where
  "index_effect es I = fold index_put es I"

definition edit_over :: "(bytes \<rightharpoonup> row_edit) \<Rightarrow> (bytes \<rightharpoonup> bytes) \<Rightarrow> (bytes \<rightharpoonup> bytes)" where
  "edit_over m I k = (case m k of Some e \<Rightarrow> (if re_delete e then None else Some (re_value e)) | None \<Rightarrow> I k)"

definition ov_effect :: "indexOverlay \<Rightarrow> (bytes \<rightharpoonup> bytes) \<Rightarrow> (bytes \<rightharpoonup> bytes)" where
  "ov_effect ov = edit_over (ov_get ov)"

lemma index_edit_simps [simp]:
  "re_key (index_edit e) = edkey e" "re_value (index_edit e) = edvalue e" "re_delete (index_edit e) = eddelete e"
  by (simp_all add: index_edit_def)

lemma ov_effect_add: "ov_effect (ov_add ov e) I = index_put e (ov_effect ov I)"
  by (auto simp: fun_eq_iff ov_effect_def edit_over_def ov_add_def ov_get_def index_put_def split: option.split)

lemma ov_effect_none: "ov_effect \<lparr>ov_base = noRows, ov_local = []\<rparr> I = I"
  by (simp add: fun_eq_iff ov_effect_def edit_over_def ov_get_def noRows_def pending_Get_def)

lemma fold_ov_add: "fold (\<lambda>e ov. ov_add ov e) es ov = ov\<lparr>ov_local := ov_local ov @ map index_edit es\<rparr>"
  by (induction es arbitrary: ov) (auto simp: ov_add_def)

lemma edit_over_put: "edit_over (m(edkey e \<mapsto> stamp g (index_edit e))) I = index_put e (edit_over m I)"
  by (auto simp: fun_eq_iff index_put_def edit_over_def stamp_def)

lemma overlay_effect: "edit_over (overlay g (map index_edit es) m) I = index_effect es (edit_over m I)"
  by (induction es arbitrary: m) (simp_all add: overlay_def index_effect_def edit_over_put)

lemma built_overlay_effect: "ov_effect (built_overlay es) I = index_effect es I"
proof -
  have ok: "pending_ok noRows" "pending_map noRows = Map.empty"
    by (simp_all add: noRows_def pending_ok_def pending_map_def pending_list_def)
  have "ov_get (built_overlay es) = overlay 0 (map index_edit es) Map.empty"
    using pending_with_correct[OF ok(1), of "map index_edit es" 0] ok(2)
    by (auto simp: fun_eq_iff ov_get_def built_overlay_def fold_ov_add ov_view_def pending_With_def pending_Get_map)
  moreover have "edit_over Map.empty I = I" by (simp add: fun_eq_iff edit_over_def)
  ultimately show ?thesis using overlay_effect[of 0 es Map.empty I] by (simp add: ov_effect_def)
qed

lemma index_effect_append: "index_effect (xs @ ys) I = index_effect ys (index_effect xs I)"
  by (simp add: index_effect_def)

lemma index_effect_dels: "index_effect (map del_entry ks) I k = (if k \<in> set ks then None else I k)"
  by (induction ks arbitrary: I) (auto simp: index_effect_def index_put_def del_entry_def)

lemma index_effect_puts:
  "index_effect (map (\<lambda>(k, pk). put_entry k pk) xs) I k = (case map_of (rev xs) k of Some pk \<Rightarrow> Some pk | None \<Rightarrow> I k)"
  by (induction xs arbitrary: I)
    (auto simp: index_effect_def index_put_def put_entry_def map_add_def split: option.splits)

section \<open>The contents of an index\<close>

definition index_content :: "tableState \<Rightarrow> bytes \<Rightarrow> entry list \<Rightarrow> bool" where
  "index_content s name ies \<longleftrightarrow>
     (case map_of (Indexes (ts_manifest s)) name of None \<Rightarrow> ies = [] | Some h \<Rightarrow> tree_content (ts_store s) h ies)"

definition index_view :: "tableState \<Rightarrow> bytes \<Rightarrow> entry list \<Rightarrow> bytes \<rightharpoonup> bytes" where
  "index_view s name ies =
     (case Option.bind (ts_idxEdits s) (\<lambda>m. map_of m name) of
        None \<Rightarrow> (\<lambda>k. elookup k ies)
      | Some ov \<Rightarrow> ov_effect ov (\<lambda>k. elookup k ies))"

theorem lookupIndexKey_view:
  assumes "index_content s name ies"
  shows "lookupIndexKey s name k = Some (Inr (index_view s name ies k \<noteq> None))"
proof -
  have tree: "(case map_of (Indexes (ts_manifest s)) name of
        None \<Rightarrow> Some (Inr False)
      | Some h \<Rightarrow> if \<not> hash_Valid h then Some (Inr False)
          else Option.bind (tree_lookup (ts_store s) h k) (\<lambda>res. Some (case res of
                 Inl e \<Rightarrow> if e = KeyNotFound then Inr False else Inl e | Inr _ \<Rightarrow> Inr True)))
      = Some (Inr (elookup k ies \<noteq> None))"
  proof (cases "map_of (Indexes (ts_manifest s)) name")
    case None
    then show ?thesis using assms by (simp add: index_content_def elookup_def)
  next
    case (Some h)
    then have tc: "tree_content (ts_store s) h ies" using assms by (simp add: index_content_def)
    show ?thesis
    proof (cases "hash_Valid h")
      case True
      then show ?thesis using Some tree_content_lookup[OF tc True, of k] by (cases "elookup k ies") auto
    next
      case False
      then show ?thesis using Some tc by (simp add: tree_content_def elookup_def)
    qed
  qed
  show ?thesis
    unfolding lookupIndexKey_def tree
    by (cases "ts_idxEdits s") (auto simp: index_view_def ov_effect_def edit_over_def split: option.split Option.bind_splits)
qed

lemma addIndexEdit_view:
  assumes "ts_idxEdits s \<noteq> None"
  shows "\<exists>m. addIndexEdit name e s = Inr (s\<lparr>ts_idxEdits := Some m\<rparr>) \<and>
    index_view (s\<lparr>ts_idxEdits := Some m\<rparr>) n ies = (if n = name then index_put e (index_view s n ies) else index_view s n ies)"
proof -
  obtain m where m: "ts_idxEdits s = Some m" using assms by auto
  let ?ov = "case map_of m name of None \<Rightarrow> \<lparr>ov_base = noRows, ov_local = []\<rparr> | Some ov \<Rightarrow> ov"
  have "ov_effect (ov_add ?ov e) (\<lambda>k. elookup k ies) = index_put e (index_view s name ies)"
    using m by (cases "map_of m name") (simp_all add: ov_effect_add ov_effect_none index_view_def)
  then show ?thesis
    using m by (intro exI[of _ "AList.update name (ov_add ?ov e) m"])
      (simp add: addIndexEdit_def Let_def, simp add: index_view_def update_conv')
qed

section \<open>Index keys of rows\<close>

definition index_key :: "pkschema \<Rightarrow> indexDisk \<Rightarrow> bytes \<Rightarrow> row \<Rightarrow> bytes option" where
  "index_key schema idx pk row =
     (case encodeIndexKey schema row (idx_Columns idx) pk (idx_Unique idx) of Inl _ \<Rightarrow> None | Inr (k, _) \<Rightarrow> Some k)"

definition indexable :: "pkschema \<Rightarrow> indexDisk \<Rightarrow> (bytes \<rightharpoonup> row) \<Rightarrow> bool" where
  "indexable schema idx M \<longleftrightarrow> (\<forall>pk row. M pk = Some row \<longrightarrow> index_key schema idx pk row \<noteq> None)"

definition index_matches :: "pkschema \<Rightarrow> indexDisk \<Rightarrow> (bytes \<rightharpoonup> row) \<Rightarrow> (bytes \<rightharpoonup> bytes) \<Rightarrow> bool" where
  "index_matches schema idx M I \<longleftrightarrow>
     (\<forall>k pk. I k = Some pk \<longleftrightarrow> (\<exists>row. M pk = Some row \<and> index_key schema idx pk row = Some k))"

definition keys_unique :: "pkschema \<Rightarrow> indexDisk \<Rightarrow> (bytes \<rightharpoonup> row) \<Rightarrow> bool" where
  "keys_unique schema idx M \<longleftrightarrow>
     (\<forall>pk pk' row row' k. M pk = Some row \<longrightarrow> M pk' = Some row' \<longrightarrow> index_key schema idx pk row = Some k \<longrightarrow>
        index_key schema idx pk' row' = Some k \<longrightarrow> pk = pk')"

lemma index_matches_unique: "index_matches schema idx M I \<Longrightarrow> keys_unique schema idx M"
  unfolding index_matches_def keys_unique_def by (metis option.inject)

text \<open>
  What the edits of rows do to an index: the old key of a changed row goes, its new key comes. This
  agrees with the edited rows when removals come before additions.
\<close>

definition old_key :: "pkschema \<Rightarrow> indexDisk \<Rightarrow> (bytes \<rightharpoonup> row) \<Rightarrow> bytes \<Rightarrow> bytes option" where
  "old_key schema idx B pk = Option.bind (B pk) (index_key schema idx pk)"

definition new_key :: "pkschema \<Rightarrow> indexDisk \<Rightarrow> bytes \<Rightarrow> rowEdit \<Rightarrow> bytes option" where
  "new_key schema idx pk e = Option.bind (edit_result e) (index_key schema idx pk)"

definition row_dels :: "pkschema \<Rightarrow> indexDisk \<Rightarrow> (bytes \<rightharpoonup> row) \<Rightarrow> bytes \<times> rowEdit \<Rightarrow> bytes list" where
  "row_dels schema idx B x =
     (case old_key schema idx B (fst x) of
        None \<Rightarrow> [] | Some k \<Rightarrow> if new_key schema idx (fst x) (snd x) = Some k then [] else [k])"

definition row_puts :: "pkschema \<Rightarrow> indexDisk \<Rightarrow> (bytes \<rightharpoonup> row) \<Rightarrow> bytes \<times> rowEdit \<Rightarrow> (bytes \<times> bytes) list" where
  "row_puts schema idx B x =
     (case new_key schema idx (fst x) (snd x) of
        None \<Rightarrow> [] | Some k \<Rightarrow> if old_key schema idx B (fst x) = Some k then [] else [(k, fst x)])"

definition edited_rows :: "(bytes \<rightharpoonup> row) \<Rightarrow> (bytes \<rightharpoonup> rowEdit) \<Rightarrow> bytes \<rightharpoonup> row" where
  "edited_rows B E k = (case E k of Some e \<Rightarrow> edit_result e | None \<Rightarrow> B k)"

lemma table_view_edited: "table_view lib s es = edited_rows (base_row lib (ts_schema s) es) (overlay_edit lib s)"
  by (simp add: fun_eq_iff table_view_def edited_rows_def)

lemma derived_edits_match:
  assumes dist: "distinct (map fst edits)" and E: "map_of edits = E"
    and base: "index_matches schema idx B I" and uniq: "keys_unique schema idx (edited_rows B E)"
  shows "index_matches schema idx (edited_rows B E)
    (index_effect (map del_entry (concat (map (row_dels schema idx B) edits)) @
       map (\<lambda>(k, pk). put_entry k pk) (concat (map (row_puts schema idx B) edits))) I)"
proof -
  let ?M = "edited_rows B E"
  let ?dels = "concat (map (row_dels schema idx B) edits)"
  let ?puts = "concat (map (row_puts schema idx B) edits)"
  have has: "(\<exists>row. ?M pk = Some row \<and> index_key schema idx pk row = Some k) \<longleftrightarrow>
      (case E pk of Some e \<Rightarrow> new_key schema idx pk e = Some k | None \<Rightarrow> old_key schema idx B pk = Some k)" for pk k
    by (auto simp: edited_rows_def new_key_def old_key_def split: option.split Option.bind_splits)
  have bhas: "I k = Some pk \<longleftrightarrow> old_key schema idx B pk = Some k" for k pk
    using base by (auto simp: index_matches_def old_key_def split: Option.bind_splits)
  have Eset: "E pk = Some e \<longleftrightarrow> (pk, e) \<in> set edits" for pk e using E dist by (metis map_of_eq_Some_iff)
  have puts: "(k, pk) \<in> set ?puts \<longleftrightarrow>
      (\<exists>e. E pk = Some e \<and> new_key schema idx pk e = Some k \<and> old_key schema idx B pk \<noteq> Some k)" for k pk
  proof -
    have "(k, pk) \<in> set (row_puts schema idx B x) \<longleftrightarrow>
        pk = fst x \<and> new_key schema idx pk (snd x) = Some k \<and> old_key schema idx B pk \<noteq> Some k" for x
      unfolding row_puts_def by (cases "new_key schema idx (fst x) (snd x)") auto
    then have "(k, pk) \<in> set ?puts \<longleftrightarrow> (\<exists>x \<in> set edits.
        pk = fst x \<and> new_key schema idx pk (snd x) = Some k \<and> old_key schema idx B pk \<noteq> Some k)" by simp
    then show ?thesis unfolding Eset by force
  qed
  have dels: "k \<in> set ?dels \<longleftrightarrow>
      (\<exists>pk e. E pk = Some e \<and> old_key schema idx B pk = Some k \<and> new_key schema idx pk e \<noteq> Some k)" for k
  proof -
    have "k \<in> set (row_dels schema idx B x) \<longleftrightarrow>
        old_key schema idx B (fst x) = Some k \<and> new_key schema idx (fst x) (snd x) \<noteq> Some k" for x
      unfolding row_dels_def by (cases "old_key schema idx B (fst x)") auto
    then have "k \<in> set ?dels \<longleftrightarrow> (\<exists>x \<in> set edits.
        old_key schema idx B (fst x) = Some k \<and> new_key schema idx (fst x) (snd x) \<noteq> Some k)" by simp
    then show ?thesis unfolding Eset by force
  qed
  have one: "pk = pk'" if "(k, pk) \<in> set ?puts" "(k, pk') \<in> set ?puts" for k pk pk'
  proof -
    have "\<exists>row. ?M q = Some row \<and> index_key schema idx q row = Some k" if "(k, q) \<in> set ?puts" for q
      using that unfolding puts has by auto
    then show ?thesis using uniq that unfolding keys_unique_def by blast
  qed
  have put_of: "map_of (rev ?puts) k = Some pk \<longleftrightarrow> (k, pk) \<in> set ?puts" for k pk
  proof
    assume "(k, pk) \<in> set ?puts"
    then obtain q where "map_of (rev ?puts) k = Some q" using weak_map_of_SomeI[of k pk "rev ?puts"] by auto
    then show "map_of (rev ?puts) k = Some pk"
      using one[of k q pk] map_of_SomeD[of "rev ?puts" k q] \<open>(k, pk) \<in> set ?puts\<close> by simp
  qed (use map_of_SomeD[of "rev ?puts" k pk] in simp)
  have "index_effect (map del_entry ?dels @ map (\<lambda>(k, pk). put_entry k pk) ?puts) I k =
      (case map_of (rev ?puts) k of Some pk \<Rightarrow> Some pk | None \<Rightarrow> if k \<in> set ?dels then None else I k)" for k
    unfolding index_effect_append index_effect_puts index_effect_dels by (rule refl)
  moreover have "(case map_of (rev ?puts) k of Some pk \<Rightarrow> Some pk | None \<Rightarrow> if k \<in> set ?dels then None else I k) = Some pk
      \<longleftrightarrow> (\<exists>row. ?M pk = Some row \<and> index_key schema idx pk row = Some k)" for k pk
  proof (cases "map_of (rev ?puts) k")
    case (Some pk')
    then have p: "(k, pk') \<in> set ?puts" using put_of by simp
    then have "\<exists>row. ?M pk' = Some row \<and> index_key schema idx pk' row = Some k" unfolding puts has by auto
    moreover have "pk' = pk" if "\<exists>row. ?M pk = Some row \<and> index_key schema idx pk row = Some k"
      using uniq that \<open>\<exists>row. ?M pk' = Some row \<and> index_key schema idx pk' row = Some k\<close> unfolding keys_unique_def by blast
    ultimately show ?thesis using Some by auto
  next
    case None
    then have np: "(k, q) \<notin> set ?puts" for q using put_of[of k q] by simp
    have new_old: "old_key schema idx B q = Some k" if "E q = Some e" "new_key schema idx q e = Some k" for q e
      using np[of q] that unfolding puts by auto
    show ?thesis
    proof (cases "k \<in> set ?dels")
      case True
      then obtain q e where q: "E q = Some e" "old_key schema idx B q = Some k" "new_key schema idx q e \<noteq> Some k"
        unfolding dels by blast
      have "\<not> (case E pk of Some e \<Rightarrow> new_key schema idx pk e = Some k | None \<Rightarrow> old_key schema idx B pk = Some k)"
      proof (cases "E pk")
        case None
        then show ?thesis using q bhas[of k pk] bhas[of k q] by auto
      next
        case (Some f)
        then show ?thesis using q new_old[OF Some] bhas[of k pk] bhas[of k q] by auto
      qed
      then show ?thesis using None True has by simp
    next
      case False
      then have keep: "new_key schema idx q e = Some k" if "E q = Some e" "old_key schema idx B q = Some k" for q e
        using that unfolding dels by blast
      show ?thesis
        unfolding has using None False keep new_old bhas by (cases "E pk") auto
    qed
  qed
  ultimately show ?thesis unfolding index_matches_def by simp
qed

section \<open>Deriving index edits\<close>

definition per_name :: "indexDisk list \<Rightarrow> (indexDisk \<Rightarrow> 'a list) \<Rightarrow> bytes \<Rightarrow> 'a list" where
  "per_name idxs f n = concat (map (\<lambda>idx. if idx_Name idx = n then f idx else []) idxs)"

lemma per_name_simps [simp]:
  "per_name [] f n = []" "per_name (idx # idxs) f n = (if idx_Name idx = n then f idx else []) @ per_name idxs f n"
  by (simp_all add: per_name_def)

lemma per_name_other: "n \<notin> idx_Name ` set idxs \<Longrightarrow> per_name idxs f n = []"
  by (induction idxs) auto

lemma per_name_idx: "distinct (map idx_Name idxs) \<Longrightarrow> idx \<in> set idxs \<Longrightarrow> per_name idxs f (idx_Name idx) = f idx"
  by (induction idxs) (auto simp: per_name_other)

lemma edits_for_simps [simp]:
  "edits_for [] n = []"
  "edits_for (append_edits name es m) n = (if n = name then edits_for m n @ es else edits_for m n)"
  by (simp_all add: edits_for_def append_edits_def update_conv')

lemma append_edits_distinct: "distinct (map fst m) \<Longrightarrow> distinct (map fst (append_edits n es m))"
  by (simp add: append_edits_def distinct_update)

lemma fold_edits_distinct: "distinct (map fst m) \<Longrightarrow> distinct (map fst (fold (\<lambda>(name, es) m. append_edits name es m) xs m))"
  by (induction xs arbitrary: m) (auto simp: append_edits_distinct)

lemma edits_for_Cons: "edits_for ((n, es) # m) k = (if k = n then es else edits_for m k)"
  by (simp add: edits_for_def)

lemma edits_for_fold:
  "distinct (map fst added) \<Longrightarrow>
    edits_for (fold (\<lambda>(name, es) m. append_edits name es m) added m) n = edits_for m n @ edits_for added n"
proof (induction added arbitrary: m)
  case (Cons x added)
  obtain name es where x: "x = (name, es)" by fastforce
  have "map_of added name = None" using Cons.prems x by (simp add: map_of_eq_None_iff)
  then have "edits_for added name = []" by (simp add: edits_for_def)
  then show ?case using Cons x by (auto simp: edits_for_Cons)
qed simp

lemma index_key_encode:
  "index_key schema idx pk row = Some k \<longleftrightarrow> map_sum id fst (encodeIndexKey schema row (idx_Columns idx) pk (idx_Unique idx)) = Inr k"
  by (auto simp: index_key_def split: sum.split)

lemma derive_row_spec:
  assumes "\<And>idx. idx \<in> set idxs \<Longrightarrow> B pk \<noteq> None \<Longrightarrow> old_key schema idx B pk \<noteq> None"
    and "\<And>idx. idx \<in> set idxs \<Longrightarrow> \<not> ed_delete e \<Longrightarrow> new_key schema idx pk e \<noteq> None" and "distinct (map fst removed)" "distinct (map fst added)"
  shows "\<exists>removed' added'. derive_row schema (B pk) e pk idxs (removed, added) = Inr (removed', added') \<and>
    distinct (map fst removed') \<and> distinct (map fst added') \<and>
    (\<forall>n. edits_for removed' n = edits_for removed n @ per_name idxs (\<lambda>idx. map del_entry (row_dels schema idx B (pk, e))) n) \<and>
    (\<forall>n. edits_for added' n = edits_for added n @ per_name idxs (\<lambda>idx. map (\<lambda>(k, pk). put_entry k pk) (row_puts schema idx B (pk, e))) n)"
  using assms
proof (induction idxs arbitrary: removed added)
  case (Cons idx idxs)
  have old: "(case B pk of None \<Rightarrow> Inr None
      | Some row \<Rightarrow> map_sum id (Some \<circ> fst) (encodeIndexKey schema row (idx_Columns idx) pk (idx_Unique idx))) =
      Inr (old_key schema idx B pk)"
    using Cons.prems(1)[of idx] by (auto simp: old_key_def index_key_def map_sum_def split: option.splits sum.splits)
  have new: "(if ed_delete e then Inr None
      else map_sum id (Some \<circ> fst) (encodeIndexKey schema (ed_row e) (idx_Columns idx) pk (idx_Unique idx))) =
      Inr (new_key schema idx pk e)"
    using Cons.prems(2)[of idx]
    by (cases "ed_delete e") (auto simp: new_key_def index_key_def edit_result_def map_sum_def split: sum.splits)
  let ?o = "old_key schema idx B pk" and ?n = "new_key schema idx pk e"
  define removed1 added1 where r1: "removed1 = (if ?o = ?n then removed else case ?o of None \<Rightarrow> removed | Some k \<Rightarrow> append_edits (idx_Name idx) [del_entry k] removed)"
    and a1: "added1 = (if ?o = ?n then added else case ?n of None \<Rightarrow> added | Some k \<Rightarrow> append_edits (idx_Name idx) [put_entry k pk] added)"
  have step: "derive_row schema (B pk) e pk (idx # idxs) (removed, added) = derive_row schema (B pk) e pk idxs (removed1, added1)"
    unfolding derive_row.simps old new r1 a1 by (auto split: option.split)
  have d1: "distinct (map fst removed1)" "distinct (map fst added1)"
    using Cons.prems(3,4) by (auto simp: r1 a1 append_edits_distinct split: option.split)
  have r: "edits_for removed1 n = edits_for removed n @ (if idx_Name idx = n then map del_entry (row_dels schema idx B (pk, e)) else [])" for n
    by (auto simp: r1 row_dels_def split: option.split)
  have a: "edits_for added1 n = edits_for added n @ (if idx_Name idx = n then map (\<lambda>(k, pk). put_entry k pk) (row_puts schema idx B (pk, e)) else [])" for n
    by (auto simp: a1 row_puts_def split: option.split)
  show ?case
    unfolding step using Cons.IH[OF _ _ d1] Cons.prems(1,2) r a by simp
qed simp

lemma base_lookup:
  assumes "ts_base_ok lib s es"
  shows "(case (if hash_Valid (DataRoot (ts_manifest s)) then Some (DataRoot (ts_manifest s)) else None) of
      None \<Rightarrow> Some (Inr None)
    | Some h \<Rightarrow> Option.bind (tree_lookup (ts_store s) h pk) (\<lambda>res. Some (case res of
        Inl e \<Rightarrow> if e = KeyNotFound then Inr None else Inl e
      | Inr value \<Rightarrow> map_sum id Some (decodeRow lib (schema_columns (ts_schema s)) value)))) =
    Some (Inr (base_row lib (ts_schema s) es pk))"
proof -
  have tc: "tree_content (ts_store s) (DataRoot (ts_manifest s)) es" using assms by (simp add: ts_base_ok_def)
  show ?thesis
  proof (cases "hash_Valid (DataRoot (ts_manifest s))")
    case False
    then show ?thesis using tc by (simp add: tree_content_def base_row_def elookup_def)
  next
    case True
    then show ?thesis
      using tree_content_lookup[OF tc True, of pk] base_row_lookup[OF assms, of pk]
      by (cases "elookup pk es") (auto simp: base_row_def)
  qed
qed

lemma derive_loop_spec:
  assumes "ts_base_ok lib s es" and base: "base = (if hash_Valid (DataRoot (ts_manifest s)) then Some (DataRoot (ts_manifest s)) else None)"
    and B: "B = base_row lib (ts_schema s) es"
    and "\<forall>idx \<in> set idxs. indexable (ts_schema s) idx B"
    and "\<forall>idx \<in> set idxs. \<forall>(pk, e) \<in> set rows. \<not> ed_delete e \<longrightarrow> new_key (ts_schema s) idx pk e \<noteq> None"
    and "distinct (map fst removed)" "distinct (map fst added)"
  shows "\<exists>removed' added'. derive_loop lib (ts_store s) (ts_schema s) idxs base rows (removed, added) = Some (Inr (removed', added')) \<and>
    distinct (map fst removed') \<and> distinct (map fst added') \<and>
    (\<forall>n. edits_for removed' n = edits_for removed n @
       concat (map (\<lambda>x. per_name idxs (\<lambda>idx. map del_entry (row_dels (ts_schema s) idx B x)) n) rows)) \<and>
    (\<forall>n. edits_for added' n = edits_for added n @
       concat (map (\<lambda>x. per_name idxs (\<lambda>idx. map (\<lambda>(k, pk). put_entry k pk) (row_puts (ts_schema s) idx B x)) n) rows))"
  using assms(5-7)
proof (induction rows arbitrary: removed added)
  case (Cons x rows)
  obtain pk e where x: "x = (pk, e)" by fastforce
  have "\<exists>removed' added'. derive_row (ts_schema s) (B pk) e pk idxs (removed, added) = Inr (removed', added') \<and>
    distinct (map fst removed') \<and> distinct (map fst added') \<and>
    (\<forall>n. edits_for removed' n = edits_for removed n @ per_name idxs (\<lambda>idx. map del_entry (row_dels (ts_schema s) idx B (pk, e))) n) \<and>
    (\<forall>n. edits_for added' n = edits_for added n @ per_name idxs (\<lambda>idx. map (\<lambda>(k, pk). put_entry k pk) (row_puts (ts_schema s) idx B (pk, e))) n)"
    using assms(4) Cons.prems x by (intro derive_row_spec) (auto simp: indexable_def old_key_def)
  then obtain r1 a1 where one: "derive_row (ts_schema s) (B pk) e pk idxs (removed, added) = Inr (r1, a1)"
      "distinct (map fst r1)" "distinct (map fst a1)"
      "\<forall>n. edits_for r1 n = edits_for removed n @ per_name idxs (\<lambda>idx. map del_entry (row_dels (ts_schema s) idx B x)) n"
      "\<forall>n. edits_for a1 n = edits_for added n @ per_name idxs (\<lambda>idx. map (\<lambda>(k, pk). put_entry k pk) (row_puts (ts_schema s) idx B x)) n"
    using x by blast
  have "derive_loop lib (ts_store s) (ts_schema s) idxs base (x # rows) (removed, added) =
      derive_loop lib (ts_store s) (ts_schema s) idxs base rows (r1, a1)"
    using base_lookup[OF assms(1), of pk] one(1) unfolding x derive_loop.simps base B by simp
  then show ?case using Cons.IH[OF _ one(2,3)] Cons.prems(1) one(4,5) by simp
qed simp

lemma index_row_spec:
  assumes "\<forall>idx \<in> set idxs. index_key schema idx pk row \<noteq> None"
  shows "\<exists>built'. index_row schema pk row idxs built = Inr built' \<and>
    (\<forall>n. edits_for built' n = edits_for built n @ per_name idxs (\<lambda>idx. [put_entry (the (index_key schema idx pk row)) pk]) n)"
  using assms
proof (induction idxs arbitrary: built)
  case (Cons idx idxs)
  obtain k b where k: "encodeIndexKey schema row (idx_Columns idx) pk (idx_Unique idx) = Inr (k, b)" "index_key schema idx pk row = Some k"
    using Cons.prems by (auto simp: index_key_def split: sum.splits)
  show ?case using Cons.IH[of "append_edits (idx_Name idx) [put_entry k pk] built"] Cons.prems k by auto
qed simp

lemma index_rows_spec:
  assumes "\<forall>idx \<in> set idxs. \<forall>(pk, row) \<in> set rows. index_key schema idx pk row \<noteq> None"
  shows "\<exists>built'. index_rows schema rows idxs built = Inr built' \<and>
    (\<forall>n. edits_for built' n = edits_for built n @
      concat (map (\<lambda>(pk, row). per_name idxs (\<lambda>idx. [put_entry (the (index_key schema idx pk row)) pk]) n) rows))"
  using assms
proof (induction rows arbitrary: built)
  case (Cons x rows)
  obtain pk row where x: "x = (pk, row)" by fastforce
  obtain b1 where "index_row schema pk row idxs built = Inr b1"
      "\<forall>n. edits_for b1 n = edits_for built n @ per_name idxs (\<lambda>idx. [put_entry (the (index_key schema idx pk row)) pk]) n"
    using index_row_spec[of idxs schema pk row built] Cons.prems x by auto
  then show ?case using Cons.IH[of b1] Cons.prems x by auto
qed simp

lemma map_of_fold_names:
  "map_of (fold (\<lambda>idx m. AList.update (idx_Name idx) (g (idx_Name idx)) m) idxs m) n =
    (if n \<in> idx_Name ` set idxs then Some (g n) else map_of m n)"
  by (induction idxs arbitrary: m) (auto simp: update_conv')

lemma map_of_sort_key:
  assumes "distinct (map fst xs)"
  shows "map_of (sort_key fst xs) = map_of xs" "distinct (map fst (sort_key fst xs))"
proof -
  have "mset (map fst (sort_key fst xs)) = mset (map fst xs)" by (simp only: mset_map mset_sort)
  then show d: "distinct (map fst (sort_key fst xs))" using assms mset_eq_imp_distinct_iff by blast
  show "map_of (sort_key fst xs) = map_of xs"
    using map_of_inject_set[OF d assms] by simp
qed

section \<open>The derived overlay agrees with the rows\<close>

text \<open>
  What an index needs: a persisted tree that agrees with the base rows, and rows whose index keys
  can be encoded and do not collide.
\<close>

definition index_base_ok :: "sqllib \<Rightarrow> tableState \<Rightarrow> entry list \<Rightarrow> (bytes \<Rightarrow> entry list) \<Rightarrow> indexDisk \<Rightarrow> bool" where
  "index_base_ok lib s es ies idx \<longleftrightarrow>
     index_content s (idx_Name idx) (ies (idx_Name idx)) \<and>
     (index_persisted s idx \<longrightarrow>
        index_matches (ts_schema s) idx (base_row lib (ts_schema s) es) (\<lambda>k. elookup k (ies (idx_Name idx))) \<and>
        indexable (ts_schema s) idx (base_row lib (ts_schema s) es)) \<and>
     indexable (ts_schema s) idx (table_view lib s es) \<and> keys_unique (ts_schema s) idx (table_view lib s es)"

definition indexes_match :: "sqllib \<Rightarrow> tableState \<Rightarrow> entry list \<Rightarrow> (bytes \<Rightarrow> entry list) \<Rightarrow> bool" where
  "indexes_match lib s es ies \<longleftrightarrow>
     (\<forall>idx \<in> set (ts_indexes s). index_matches (ts_schema s) idx (table_view lib s es)
        (index_view s (idx_Name idx) (ies (idx_Name idx))))"

lemma unpersisted_content: "\<not> index_persisted s idx \<Longrightarrow> index_content s (idx_Name idx) ies \<Longrightarrow> ies = []"
  by (auto simp: index_persisted_def index_content_def tree_content_def split: option.splits)

lemma deriveIndexEdits_spec:
  assumes "ts_base_ok lib s es" "distinct (map idx_Name idxs)" "\<forall>idx \<in> set idxs. index_persisted s idx \<and> index_base_ok lib s es ies idx"
    and "map_of rows = overlay_edit lib s" "distinct (map fst rows)"
    and base: "base = (if hash_Valid (DataRoot (ts_manifest s)) then Some (DataRoot (ts_manifest s)) else None)"
    and B: "B = base_row lib (ts_schema s) es"
  shows "\<exists>derived. deriveIndexEdits lib (ts_store s) (ts_schema s) idxs base rows = Some (Inr derived) \<and> distinct (map fst derived) \<and>
    (\<forall>idx \<in> set idxs. edits_for derived (idx_Name idx) = map del_entry (concat (map (row_dels (ts_schema s) idx B) rows)) @
        map (\<lambda>(k, pk). put_entry k pk) (concat (map (row_puts (ts_schema s) idx B) rows))) \<and>
    (\<forall>n. n \<notin> idx_Name ` set idxs \<longrightarrow> edits_for derived n = [])"
proof -
  have distinct_nil: "distinct (map fst ([] :: index_edits))" by simp
  let ?schema = "ts_schema s"
  let ?dels = "\<lambda>n. concat (map (\<lambda>x. per_name idxs (\<lambda>idx. map del_entry (row_dels ?schema idx B x)) n) rows)"
  let ?puts = "\<lambda>n. concat (map (\<lambda>x. per_name idxs (\<lambda>idx. map (\<lambda>(k, pk). put_entry k pk) (row_puts ?schema idx B x)) n) rows)"
  have new: "new_key ?schema idx pk e \<noteq> None" if "idx \<in> set idxs" "(pk, e) \<in> set rows" "\<not> ed_delete e" for idx pk e
  proof -
    have "overlay_edit lib s pk = Some e" using that(2) assms(4,5) by (metis map_of_eq_Some_iff)
    then have "table_view lib s es pk = Some (ed_row e)" using that(3) by (simp add: table_view_def edit_result_def)
    then show ?thesis using assms(3) that(1,3) by (auto simp: index_base_ok_def indexable_def new_key_def edit_result_def)
  qed
  then have nk: "\<forall>idx \<in> set idxs. \<forall>(pk, e) \<in> set rows. \<not> ed_delete e \<longrightarrow> new_key ?schema idx pk e \<noteq> None" by blast
  have ib: "\<forall>idx \<in> set idxs. indexable ?schema idx B" using assms(3) by (simp add: index_base_ok_def B)
  obtain removed added where d: "derive_loop lib (ts_store s) ?schema idxs base rows ([], []) = Some (Inr (removed, added))"
      "distinct (map fst removed)" "distinct (map fst added)" "\<forall>n. edits_for removed n = ?dels n" "\<forall>n. edits_for added n = ?puts n"
    using derive_loop_spec[OF assms(1) base B ib nk distinct_nil distinct_nil] unfolding edits_for_simps(1) append_Nil
    by (elim exE conjE) (rule that)
  let ?derived = "fold (\<lambda>(name, es) m. append_edits name es m) added removed"
  have run: "deriveIndexEdits lib (ts_store s) ?schema idxs base rows = Some (Inr ?derived)"
    using d(1) by (simp add: deriveIndexEdits_def)
  have de: "edits_for ?derived n = ?dels n @ ?puts n" for n using edits_for_fold[OF d(3)] d(4,5) by simp
  show ?thesis
  proof (intro exI conjI ballI allI impI)
    fix idx assume "idx \<in> set idxs"
    then show "edits_for ?derived (idx_Name idx) = map del_entry (concat (map (row_dels ?schema idx B) rows)) @
        map (\<lambda>(k, pk). put_entry k pk) (concat (map (row_puts ?schema idx B) rows))"
      by (simp add: de per_name_idx[OF assms(2)] map_concat comp_def)
  qed (use run fold_edits_distinct[OF d(2)] in \<open>simp_all add: de per_name_other\<close>)
qed

lemma overlayIndexEdits_spec:
  assumes "ts_base_ok lib s es" "distinct (map idx_Name idxs)" "\<forall>idx \<in> set idxs. index_persisted s idx \<and> index_base_ok lib s es ies idx"
  shows "\<exists>built. overlayIndexEdits lib s idxs [] = Some (Inr built) \<and>
    (\<forall>idx \<in> set idxs. index_matches (ts_schema s) idx (table_view lib s es)
       (index_effect (edits_for built (idx_Name idx)) (\<lambda>k. elookup k (ies (idx_Name idx))))) \<and>
    (\<forall>n. n \<notin> idx_Name ` set idxs \<longrightarrow> edits_for built n = [])"
proof -
  let ?schema = "ts_schema s" and ?B = "base_row lib (ts_schema s) es" and ?rows = "sort_key fst (edit_list lib s)"
  let ?base = "if hash_Valid (DataRoot (ts_manifest s)) then Some (DataRoot (ts_manifest s)) else None"
  have E: "map_of ?rows = overlay_edit lib s" "distinct (map fst ?rows)"
    using map_of_sort_key[OF edit_list_distinct[OF assms(1)]] edit_list_overlay by auto
  obtain derived where d: "deriveIndexEdits lib (ts_store s) ?schema idxs ?base ?rows = Some (Inr derived)" "distinct (map fst derived)"
      "\<forall>idx \<in> set idxs. edits_for derived (idx_Name idx) = map del_entry (concat (map (row_dels ?schema idx ?B) ?rows)) @
        map (\<lambda>(k, pk). put_entry k pk) (concat (map (row_puts ?schema idx ?B) ?rows))"
      "\<forall>n. n \<notin> idx_Name ` set idxs \<longrightarrow> edits_for derived n = []"
    using deriveIndexEdits_spec[OF assms E refl refl] by (elim exE conjE) (rule that)
  have "forEachEdit lib s collect_edit [] = (Inr (), fold (\<lambda>(k, e) items. items @ [(k, e)]) (edit_list lib s) [])"
    by (rule forEachEdit_fold[OF _ assms(1)]) (simp add: collect_edit_def)
  moreover have "fold (\<lambda>(k, e) items. items @ [(k, e)]) xs ys = ys @ xs" for xs ys :: "(bytes \<times> rowEdit) list"
    by (induction xs arbitrary: ys) auto
  ultimately obtain built where o: "overlayIndexEdits lib s idxs [] = Some (Inr built)" and b: "\<And>n. edits_for built n = edits_for derived n"
    using d(1) edits_for_fold[OF d(2), of "[]"] by (simp add: overlayIndexEdits_def Let_def)
  have "index_matches ?schema idx (table_view lib s es) (index_effect (edits_for built (idx_Name idx)) (\<lambda>k. elookup k (ies (idx_Name idx))))"
    if idx: "idx \<in> set idxs" for idx
  proof -
    have "keys_unique ?schema idx (edited_rows ?B (overlay_edit lib s))" "index_matches ?schema idx ?B (\<lambda>k. elookup k (ies (idx_Name idx)))"
      using assms(3) idx by (auto simp: index_base_ok_def table_view_edited)
    then show ?thesis using derived_edits_match[OF E(2,1)] d(3) idx by (simp add: b table_view_edited)
  qed
  then show ?thesis using o d(4) b by auto
qed

text \<open>An index that was never written gets one entry per row.\<close>

lemma unpersisted_match:
  assumes "distinct (map fst rows)" "indexable schema idx (map_of rows)" "keys_unique schema idx (map_of rows)"
  shows "index_matches schema idx (map_of rows)
    (index_effect (map (\<lambda>(pk, row). put_entry (the (index_key schema idx pk row)) pk) rows) Map.empty)"
proof -
  let ?edits = "map (\<lambda>(pk, row). (pk, \<lparr>ed_row = row, ed_delete = False\<rparr>)) rows"
  have dist: "distinct (map fst ?edits)" using assms(1) by (simp add: comp_def case_prod_beta)
  have "map_of ?edits pk = map_option (\<lambda>row. \<lparr>ed_row = row, ed_delete = False\<rparr>) (map_of rows pk)" for pk
    by (induction rows) auto
  then have M: "edited_rows Map.empty (map_of ?edits) = map_of rows"
    by (auto simp: fun_eq_iff edited_rows_def edit_result_def split: option.split)
  have key: "index_key schema idx pk row \<noteq> None" if "(pk, row) \<in> set rows" for pk row
    using assms(1,2) that by (auto simp: indexable_def)
  have dels: "concat (map (row_dels schema idx Map.empty) ?edits) = []" by (auto simp: row_dels_def old_key_def)
  have "row_puts schema idx Map.empty (pk, \<lparr>ed_row = row, ed_delete = False\<rparr>) = [(the (index_key schema idx pk row), pk)]"
    if "(pk, row) \<in> set rows" for pk row
    using key[OF that] by (auto simp: row_puts_def new_key_def old_key_def edit_result_def)
  then have "map (row_puts schema idx Map.empty) ?edits = map (\<lambda>x. [(the (index_key schema idx (fst x) (snd x)), fst x)]) rows"
    by (auto simp: case_prod_beta)
  then have puts: "concat (map (row_puts schema idx Map.empty) ?edits) = map (\<lambda>(pk, row). (the (index_key schema idx pk row), pk)) rows"
    by (simp only: concat_map_singleton) (simp add: case_prod_beta)
  have "index_matches schema idx Map.empty Map.empty" by (simp add: index_matches_def)
  have "map (\<lambda>(k, pk). put_entry k pk) (map (\<lambda>(pk, row). (the (index_key schema idx pk row), pk)) rows) =
      map (\<lambda>(pk, row). put_entry (the (index_key schema idx pk row)) pk) rows" by auto
  with derived_edits_match[OF dist refl \<open>index_matches schema idx Map.empty Map.empty\<close>] assms(3)
  show ?thesis unfolding M dels puts by (simp del: map_map)
qed

lemma pending_frame [simp]:
  "decodePending lib (s\<lparr>ts_idxEdits := x\<rparr>) = decodePending lib s" "decodePending lib (s\<lparr>ts_rows := y\<rparr>) = decodePending lib s"
  "decodePending lib (s\<lparr>ts_dirty := d\<rparr>) = decodePending lib s"
  "pending_edit lib (s\<lparr>ts_idxEdits := x\<rparr>) = pending_edit lib s" "pending_edit lib (s\<lparr>ts_rows := y\<rparr>) = pending_edit lib s"
  "pending_edit lib (s\<lparr>ts_dirty := d\<rparr>) = pending_edit lib s"
  by (simp_all add: fun_eq_iff decodePending_def pending_edit_def)

lemma overlay_edit_frame [simp]:
  "overlay_edit lib (s\<lparr>ts_idxEdits := x\<rparr>) = overlay_edit lib s" "overlay_edit lib (s\<lparr>ts_rows := y\<rparr>) = overlay_edit lib s"
  "overlay_edit lib (s\<lparr>ts_dirty := d\<rparr>) = overlay_edit lib s"
  by (simp_all add: overlay_edit_def)

lemma table_view_frame [simp]:
  "table_view lib (s\<lparr>ts_idxEdits := x\<rparr>) = table_view lib s" "table_view lib (s\<lparr>ts_rows := y\<rparr>) = table_view lib s"
  "table_view lib (s\<lparr>ts_dirty := d\<rparr>) = table_view lib s"
  by (simp_all add: fun_eq_iff table_view_def split: option.split)

lemma ts_ok_frame [simp]:
  "ts_ok lib (s\<lparr>ts_idxEdits := x\<rparr>) es = ts_ok lib s es" "ts_ok lib (s\<lparr>ts_dirty := d\<rparr>) es = ts_ok lib s es"
  "ts_base_ok lib (s\<lparr>ts_rows := y\<rparr>) es = ts_base_ok lib s es"
  by (simp_all add: ts_ok_def ts_base_ok_def split: option.split)

theorem ensureIndexEdits_match:
  assumes ok: "ts_ok lib s es" and none: "ts_idxEdits s = None" and names: "distinct (map idx_Name (ts_indexes s))"
    and base: "\<forall>idx \<in> set (ts_indexes s). index_base_ok lib s es ies idx" and some: "ts_indexes s \<noteq> []"
  shows "\<exists>m rows. ensureIndexEdits lib s = Some (Inr (), s\<lparr>ts_rows := rows, ts_idxEdits := Some m\<rparr>) \<and>
    ts_ok lib (s\<lparr>ts_rows := rows, ts_idxEdits := Some m\<rparr>) es \<and>
    indexes_match lib (s\<lparr>ts_rows := rows, ts_idxEdits := Some m\<rparr>) es ies"
proof -
  let ?P = "filter (index_persisted s) (ts_indexes s)" and ?U = "filter (\<lambda>idx. \<not> index_persisted s idx) (ts_indexes s)"
  let ?M = "table_view lib s es"
  have b: "ts_base_ok lib s es" using ok by (simp add: ts_ok_def)
  have dP: "distinct (map idx_Name ?P)" "distinct (map idx_Name ?U)" using names by (simp_all add: distinct_map_filter)
  have PU: "idx_Name idx \<notin> idx_Name ` set ?U" if "idx \<in> set ?P" for idx
    using that names by (auto simp: distinct_map dest: inj_onD)
  have UP: "idx_Name idx \<notin> idx_Name ` set ?P" if "idx \<in> set ?U" for idx
    using that names by (auto simp: distinct_map dest: inj_onD)
  obtain built where built: "(if ?P \<noteq> [] \<and> hasEdits s then overlayIndexEdits lib s ?P [] else Some (Inr [])) = Some (Inr built)"
      "\<forall>idx \<in> set ?P. index_matches (ts_schema s) idx ?M (index_effect (edits_for built (idx_Name idx)) (\<lambda>k. elookup k (ies (idx_Name idx))))"
      "\<forall>n. n \<notin> idx_Name ` set ?P \<longrightarrow> edits_for built n = []"
  proof (cases "?P \<noteq> [] \<and> hasEdits s")
    case True
    then show ?thesis using overlayIndexEdits_spec[OF b dP(1), of ies] base that by auto
  next
    case False
    have "overlay_edit lib s = Map.empty" if "\<not> hasEdits s"
      using that by (simp add: hasEdits_def overlay_edit_def pending_map_def pending_Empty_list)
    then have "?M = base_row lib (ts_schema s) es" if "\<not> hasEdits s" using that by (simp add: table_view_def fun_eq_iff)
    then show ?thesis using False base by (intro that[of "[]"]) (auto simp: index_base_ok_def index_effect_def filter_empty_conv)
  qed
  obtain rows where rows: "(if ?U \<noteq> [] then ensureRows lib s else Some (Inr (), s)) = Some (Inr (), s\<lparr>ts_rows := rows\<rparr>)"
      "ts_ok lib (s\<lparr>ts_rows := rows\<rparr>) es" "?U \<noteq> [] \<longrightarrow> (\<exists>r. rows = Some r \<and> distinct (map fst r) \<and> map_of r = ?M)"
  proof (cases "?U = []")
    case True
    then show ?thesis using ok by (intro that[of "ts_rows s"]) simp_all
  next
    case False
    then show ?thesis using ensureRows_view[OF ok] b by (auto simp: ts_ok_def intro: that)
  qed
  let ?rs = "case rows of None \<Rightarrow> [] | Some r \<Rightarrow> r"
  let ?pu = "\<lambda>n. concat (map (\<lambda>(pk, row). per_name ?U (\<lambda>idx. [put_entry (the (index_key (ts_schema s) idx pk row)) pk]) n) ?rs)"
  obtain built' where built': "(if ?U \<noteq> [] then index_rows (ts_schema s) ?rs ?U built else Inr built) = Inr built'"
      "\<forall>n. edits_for built' n = edits_for built n @ ?pu n"
  proof (cases "?U = []")
    case True
    then show ?thesis by (intro that[of built]) simp_all
  next
    case False
    then obtain r where r: "rows = Some r" "distinct (map fst r)" "map_of r = ?M" using rows(3) by blast
    have "\<forall>idx \<in> set ?U. \<forall>(pk, row) \<in> set r. index_key (ts_schema s) idx pk row \<noteq> None"
      using base r(2) unfolding index_base_ok_def indexable_def r(3)[symmetric] by auto
    from index_rows_spec[OF this, of built] show ?thesis using False r(1) that by auto
  qed
  define m where "m = fold (\<lambda>idx m. AList.update (idx_Name idx) (built_overlay (edits_for built' (idx_Name idx))) m) (ts_indexes s) []"
  let ?s' = "s\<lparr>ts_rows := rows, ts_idxEdits := Some m\<rparr>"
  have run: "ensureIndexEdits lib s = Some (Inr (), ?s')"
    using none some built(1) rows(1) built'(1) unfolding ensureIndexEdits_def Let_def m_def by (cases "?U = []") simp_all
  have view: "index_view ?s' (idx_Name idx) (ies (idx_Name idx)) = index_effect (edits_for built' (idx_Name idx)) (\<lambda>k. elookup k (ies (idx_Name idx)))"
    if "idx \<in> set (ts_indexes s)" for idx
    using that map_of_fold_names[of "\<lambda>n. built_overlay (edits_for built' n)" "ts_indexes s" "[]" "idx_Name idx"]
    by (simp add: index_view_def m_def built_overlay_effect)
  have "index_matches (ts_schema s) idx ?M (index_effect (edits_for built' (idx_Name idx)) (\<lambda>k. elookup k (ies (idx_Name idx))))"
    if idx: "idx \<in> set (ts_indexes s)" for idx
  proof (cases "index_persisted s idx")
    case True
    then have "?pu (idx_Name idx) = []" using PU[of idx] idx by (simp add: per_name_other case_prod_beta)
    then have "edits_for built' (idx_Name idx) = edits_for built (idx_Name idx)"
      unfolding built'(2)[rule_format] by (simp only: append_Nil2)
    then show ?thesis using built(2) idx True by simp
  next
    case False
    then have U: "idx \<in> set ?U" using idx by simp
    then obtain r where r: "rows = Some r" "distinct (map fst r)" "map_of r = ?M" using rows(3) by (metis empty_iff list.set(1))
    have "edits_for built' (idx_Name idx) = map (\<lambda>(pk, row). put_entry (the (index_key (ts_schema s) idx pk row)) pk) r"
    proof -
      have "?pu (idx_Name idx) = concat (map (\<lambda>x. [put_entry (the (index_key (ts_schema s) idx (fst x) (snd x))) (fst x)]) r)"
        unfolding per_name_idx[OF dP(2) U] using r(1) by (simp add: case_prod_unfold)
      then show ?thesis
        unfolding built'(2)[rule_format] concat_map_singleton using built(3) UP[OF U] by (simp add: case_prod_unfold)
    qed
    moreover have "ies (idx_Name idx) = []" using base idx False unpersisted_content by (auto simp: index_base_ok_def)
    ultimately show ?thesis
      using unpersisted_match[OF r(2), of "ts_schema s" idx] base idx r(3) by (simp add: index_base_ok_def elookup_def)
  qed
  then have "indexes_match lib ?s' es ies" using view by (simp add: indexes_match_def)
  then show ?thesis using run rows(2) by (intro exI[of _ m] exI[of _ rows]) simp
qed

end
