(* ===== verification/Key_Order.thy ===== *)
theory Key_Order
  imports Key_Codec
begin

text \<open>
  The order the key encodings preserve. \<open>sql_rank\<close> gives a value of a column type its place in the
  SQL order as a list of rationals: the number itself for a number or a time, the bytes or the
  collation weights for a string. The encodings of two values part at a smaller byte exactly when
  their ranks are in that order, so composite keys compare column by column.
\<close>

section \<open>Parting byte strings\<close>

fun diverges :: "bytes \<Rightarrow> bytes \<Rightarrow> bool" where
  "diverges (x # xs) (y # ys) \<longleftrightarrow> x < y \<or> (x = y \<and> diverges xs ys)"
| "diverges _ _ \<longleftrightarrow> False"

lemma diverges_append: "diverges xs ys \<Longrightarrow> diverges (xs @ u) (ys @ v)"
  by (induction xs ys rule: diverges.induct) auto

lemma diverges_prefix [simp]: "diverges (p @ xs) (p @ ys) \<longleftrightarrow> diverges xs ys"
  by (induction p) auto

lemma diverges_less: "diverges xs ys \<Longrightarrow> xs < ys"
  by (induction xs ys rule: diverges.induct) auto

lemma diverges_append_less: "diverges xs ys \<Longrightarrow> xs @ u < ys @ v"
  by (blast intro: diverges_less diverges_append)

lemma less_diverges: "xs < ys \<Longrightarrow> length xs = length ys \<Longrightarrow> diverges xs ys"
  by (induction xs ys rule: diverges.induct) auto

lemma diverges_be_bytes:
  fixes x y :: "'a::len word"
  shows "LENGTH('a) \<le> 8 * n \<Longrightarrow> x < y \<Longrightarrow> diverges (be_bytes n x) (be_bytes n y)"
  by (simp add: less_diverges be_bytes_less_iff)

lemma uint_NOT: "uint (NOT w) = 2 ^ LENGTH('a) - 1 - uint (w :: 'a::len word)"
  by (simp add: unsigned_not_eq take_bit_not_eq_mask_diff mask_eq_exp_minus_1 take_bit_int_eq_self)

lemma NOT_less: "NOT b < NOT a \<longleftrightarrow> a < (b :: 'a::len word)"
  by (simp add: word_less_def uint_NOT)

lemma diverges_map_NOT: "diverges xs ys \<Longrightarrow> diverges (map NOT ys) (map NOT xs)"
  by (induction xs ys rule: diverges.induct) (auto simp: NOT_less)

section \<open>Signed words\<close>

lemma uint_flip_sign:
  fixes x :: "'a::len word"
  shows "uint (x XOR 2 ^ (LENGTH('a) - 1)) = sint x + 2 ^ (LENGTH('a) - 1)"
proof -
  let ?n = "LENGTH('a) - 1"
  have n: "LENGTH('a) = Suc ?n" by simp
  have "x XOR 2 ^ ?n = x + 2 ^ ?n"
  proof -
    have "x XOR 2 ^ ?n = flip_bit ?n x" by (simp add: flip_bit_eq_xor)
    also have "\<dots> = (if bit x ?n then x - 2 ^ ?n else x + 2 ^ ?n)"
      by (simp add: flip_bit_eq_if unset_bit_eq set_bit_eq)
    also have "(- (2 ^ ?n) :: 'a word) = 2 ^ ?n"
    proof -
      have "(2 ^ ?n + 2 ^ ?n :: 'a word) = 2 ^ LENGTH('a)" using n by (metis mult_2 power_Suc)
      then show ?thesis by (simp add: minus_unique)
    qed
    then have "(if bit x ?n then x - 2 ^ ?n else x + 2 ^ ?n) = x + 2 ^ ?n"
      by (metis diff_conv_add_uminus)
    finally show ?thesis .
  qed
  also have "\<dots> = word_of_int (uint x + 2 ^ ?n)" by simp
  finally have "uint (x XOR 2 ^ ?n) = take_bit LENGTH('a) (uint x + 2 ^ ?n)"
    by (simp only: uint_word_of_int_eq)
  also have "\<dots> = signed_take_bit ?n (uint x) + 2 ^ ?n"
    unfolding signed_take_bit_eq_take_bit_shift using n by simp
  also have "signed_take_bit ?n (uint x) = sint x"
    by (simp add: sint_uint)
  finally show ?thesis .
qed

lemma flip64_less: "(x XOR 0x8000000000000000 :: 64 word) < y XOR 0x8000000000000000 \<longleftrightarrow> sint x < sint y"
  using uint_flip_sign[of x] uint_flip_sign[of y] by (simp add: word_less_def)

lemma flip32_less: "(x XOR 0x80000000 :: 32 word) < y XOR 0x80000000 \<longleftrightarrow> sint x < sint y"
  using uint_flip_sign[of x] uint_flip_sign[of y] by (simp add: word_less_def)

section \<open>Doubles\<close>

definition f64_low :: "64 word \<Rightarrow> int" where
  "f64_low b = f64_exp b * 2 ^ 52 + f64_frac b"

lemma f64_frac_bounds: "0 \<le> f64_frac b" "f64_frac b < 2 ^ 52"
  by (simp_all add: f64_frac_def)

lemma f64_exp_bounds: "0 \<le> f64_exp b" "f64_exp b < 2 ^ 11"
  by (simp_all add: f64_exp_def)

lemma f64_uint: "uint b = (if f64_sign b then 2 ^ 63 else 0) + f64_low b"
proof -
  have "f64_sign b \<longleftrightarrow> odd (uint b div 2 ^ 63)"
    by (simp only: f64_sign_def bit_uint_iff bit_iff_odd[of "uint b", symmetric]) simp
  moreover have "uint b < 2 ^ 64" using uint_lt2p[of b] by simp
  then have "0 \<le> uint b div 2 ^ 63" "uint b div 2 ^ 63 < 2"
    by (simp_all add: pos_imp_zdiv_nonneg_iff div_less_iff_less_mult)
  then have "uint b div 2 ^ 63 \<in> {0, 1}" by auto
  ultimately have "uint b div 2 ^ 63 * 2 ^ 63 = (if f64_sign b then 2 ^ 63 else 0)" by auto
  moreover have "uint b mod (2 ^ 52 * 2 ^ 11) = 2 ^ 52 * f64_exp b + f64_frac b"
    unfolding f64_exp_def f64_frac_def by (rule zmod_zmult2_eq) simp
  ultimately show ?thesis
    using div_mult_mod_eq[of "uint b" "2 ^ 63"] by (simp add: f64_low_def)
qed

lemma f64_low_bounds: "0 \<le> f64_low b" "f64_low b < 2 ^ 63"
  using f64_frac_bounds[of b] f64_exp_bounds[of b] by (simp_all add: f64_low_def)

lemma f64_low_zero: "f64_low b = 0 \<longleftrightarrow> f64_exp b = 0 \<and> f64_frac b = 0"
  using f64_frac_bounds[of b] f64_exp_bounds[of b] by (auto simp: f64_low_def)

lemma float_key_uint:
  "uint (float_key b) =
     (if f64_low b = 0 then 2 ^ 63
      else if f64_sign b then 2 ^ 63 - 1 - f64_low b else 2 ^ 63 + f64_low b)"
proof -
  have neg: "b AND 0x8000000000000000 \<noteq> 0 \<longleftrightarrow> f64_sign b"
    using and_exp_eq_0_iff_not_bit[of b 63] by (simp add: f64_sign_def)
  show ?thesis
  proof (cases "f64_low b = 0")
    case True
    then show ?thesis by (simp add: float_key_def f64_low_zero)
  next
    case False
    then have key: "float_key b = (if f64_sign b then NOT b else b OR 0x8000000000000000)"
      using neg by (auto simp: float_key_def f64_low_zero Let_def)
    show ?thesis
    proof (cases "f64_sign b")
      case True
      have "uint (NOT b) = 2 ^ 64 - 1 - uint b" by (simp add: uint_NOT)
      then show ?thesis using True False key f64_uint[of b] by simp
    next
      case neg: False
      have "b OR 2 ^ (LENGTH(64) - 1) = b XOR 2 ^ (LENGTH(64) - 1)"
        using neg by (intro bit_word_eqI) (auto simp: bit_or_iff bit_xor_iff bit_exp_iff f64_sign_def
            simp del: power_numeral)
      then have "b OR 0x8000000000000000 = b XOR 2 ^ (LENGTH(64) - 1)" by simp
      also have "uint \<dots> = sint b + 2 ^ 63" using uint_flip_sign[of b] by simp
      also have "sint b = uint b"
        using neg f64_uint[of b] f64_low_bounds[of b] by (simp add: sint_uint signed_take_bit_int_eq_self)
      finally show ?thesis using neg False key f64_uint[of b] by simp
    qed
  qed
qed

lemma f64_magnitude_mono:
  assumes "f64_low a < f64_low b"
  shows "f64_magnitude a < f64_magnitude b"
proof (cases "f64_exp a = f64_exp b")
  case True
  then show ?thesis using assms by (simp add: f64_low_def f64_magnitude_def)
next
  case False
  then have e: "f64_exp a < f64_exp b"
    using assms f64_frac_bounds[of a] f64_frac_bounds[of b] by (simp add: f64_low_def) 
  have "f64_magnitude a < 2 ^ 52 * 2 ^ nat (f64_exp a)"
  proof (cases "f64_exp a = 0")
    case False
    then have "nat (f64_exp a) = Suc (nat (f64_exp a - 1))" using f64_exp_bounds[of a] by simp
    then show ?thesis using False f64_frac_bounds[of a] by (simp add: f64_magnitude_def)
  qed (use f64_frac_bounds[of a] in \<open>simp add: f64_magnitude_def\<close>)
  also have "\<dots> \<le> 2 ^ 52 * 2 ^ nat (f64_exp b - 1)"
    using e by (intro mult_left_mono power_increasing) auto
  also have "\<dots> \<le> f64_magnitude b"
    using e f64_exp_bounds[of a] f64_frac_bounds[of b] by (simp add: f64_magnitude_def)
  finally show ?thesis .
qed

lemma f64_magnitude_low: "f64_magnitude a < f64_magnitude b \<longleftrightarrow> f64_low a < f64_low b"
proof -
  have "f64_magnitude a = f64_magnitude b" if "f64_low a = f64_low b"
  proof -
    have "f64_exp a = f64_low a div 2 ^ 52" "f64_frac a = f64_low a mod 2 ^ 52"
      "f64_exp b = f64_low b div 2 ^ 52" "f64_frac b = f64_low b mod 2 ^ 52"
      using f64_frac_bounds[of a] f64_frac_bounds[of b] by (simp_all add: f64_low_def)
    then show ?thesis using that by (simp add: f64_magnitude_def)
  qed
  then show ?thesis
    using f64_magnitude_mono[of a b] f64_magnitude_mono[of b a] by linarith
qed

lemma f64_magnitude_zero: "f64_magnitude a = 0 \<longleftrightarrow> f64_low a = 0" "0 \<le> f64_magnitude a"
proof -
  have "f64_frac a + 2 ^ 52 \<noteq> 0" using f64_frac_bounds[of a] by linarith
  then show "f64_magnitude a = 0 \<longleftrightarrow> f64_low a = 0" "0 \<le> f64_magnitude a"
    using f64_frac_bounds[of a] by (auto simp: f64_magnitude_def f64_low_zero)
qed

lemma float_key_less: "float_key a < float_key b \<longleftrightarrow> f64_value a < f64_value b"
  using f64_magnitude_low[of a b] f64_magnitude_low[of b a] f64_magnitude_zero[of a]
    f64_magnitude_zero[of b] f64_low_bounds[of a] f64_low_bounds[of b]
  unfolding word_less_def float_key_uint f64_value_def by (simp split: if_split) linarith

section \<open>Decimals\<close>

fun frac10 :: "nat list \<Rightarrow> rat" where
  "frac10 [] = 0"
| "frac10 (d # ds) = (of_nat d + frac10 ds) / 10"

definition digit :: "nat \<Rightarrow> byte" where "digit d = of_nat d + 1"

lemma frac10_append: "frac10 (xs @ ys) = frac10 xs + frac10 ys / 10 ^ length xs"
  by (induction xs) (auto simp: field_simps)

lemma frac10_nonneg: "0 \<le> frac10 ds"
  by (induction ds) auto

lemma frac10_less_one: "\<forall>d \<in> set ds. d < 10 \<Longrightarrow> frac10 ds < 1"
proof (induction ds)
  case (Cons d ds)
  then have "frac10 ds < 1" "of_nat d \<le> (9 :: rat)" by auto
  then show ?case by simp
qed simp

lemma frac10_first: "0 < d \<Longrightarrow> 1 / 10 \<le> frac10 (d # ds)"
proof -
  assume "0 < d"
  then have "1 \<le> (of_nat d :: rat)" by simp
  then show ?thesis using frac10_nonneg[of ds] by (simp add: field_simps)
qed

lemma frac10_zeros: "\<forall>d \<in> set ds. d = 0 \<Longrightarrow> frac10 ds = 0"
  by (induction ds) auto

lemma digit_less: "a < b \<Longrightarrow> b < 10 \<Longrightarrow> digit a < digit b"
proof -
  assume "a < b" "b < 10"
  then have "unat (digit a) = a + 1" "unat (digit b) = b + 1"
    by (simp_all add: digit_def unat_word_ariths unat_of_nat)
  with \<open>a < b\<close> show ?thesis by (simp add: word_less_nat_alt)
qed

lemma digit_pos: "d < 10 \<Longrightarrow> 0 < digit d"
  by (cases "d = 0") (use digit_less[of 0 d] in \<open>auto simp: digit_def intro: less_trans[of 0 1]\<close>)

lemma frac10_Cons_less:
  assumes "x < y" "\<forall>d \<in> set xs. d < 10"
  shows "frac10 (x # xs) < frac10 (y # ys)"
proof -
  have "of_nat x + 1 \<le> (of_nat y :: rat)" using assms(1) by (metis Suc_leI of_nat_Suc of_nat_le_iff add.commute)
  then show ?thesis using frac10_less_one[OF assms(2)] frac10_nonneg[of ys] by simp
qed

lemma digits_diverge:
  assumes "frac10 xs < frac10 ys" "\<forall>d \<in> set xs. d < 10" "\<forall>d \<in> set ys. d < 10"
  shows "diverges (map digit xs @ [0]) (map digit ys @ [0])"
  using assms
proof (induction xs arbitrary: ys)
  case Nil
  then show ?case by (cases ys) (auto simp: digit_pos frac10_nonneg)
next
  case (Cons x xs)
  show ?case
  proof (cases ys)
    case Nil
    then show ?thesis using Cons.prems(1) frac10_nonneg[of "x # xs"] by simp
  next
    case (Cons y ys')
    have "\<not> y < x" using Cons.prems Cons frac10_Cons_less[of y x ys' xs] by auto
    then show ?thesis
      using Cons.prems Cons.IH[of ys'] Cons digit_less[of x y] by (cases "x = y") auto
  qed
qed

lemma digits_equal:
  assumes "frac10 xs = frac10 ys" "\<forall>d \<in> set xs. d < 10" "\<forall>d \<in> set ys. d < 10"
    "xs = [] \<or> last xs \<noteq> 0" "ys = [] \<or> last ys \<noteq> 0"
  shows "xs = ys"
  using assms
proof (induction xs arbitrary: ys)
  case Nil
  have "ds = []" if "frac10 ds = 0" "ds = [] \<or> last ds \<noteq> 0" for ds
    using that
  proof (induction ds)
    case (Cons d ds)
    then have "d = 0" "frac10 ds = 0" using frac10_nonneg[of ds] by (auto simp: add_nonneg_eq_0_iff)
    then show ?case using Cons by (auto split: if_splits)
  qed simp
  then show ?case using Nil by (metis frac10.simps(1))
next
  case (Cons x xs)
  have nz: "0 < frac10 ds" if "ds \<noteq> []" "last ds \<noteq> 0" for ds
    using that
  proof (induction ds)
    case (Cons d ds)
    then show ?case using frac10_nonneg[of ds] by (cases "ds = []") (auto intro: add_nonneg_pos)
  qed simp
  show ?case
  proof (cases ys)
    case Nil
    then show ?thesis using Cons.prems nz[of "x # xs"] by simp
  next
    case (Cons y ys')
    have "x = y"
      using Cons.prems Cons frac10_Cons_less[of y x ys' xs] frac10_Cons_less[of x y xs ys']
      by (metis insert_iff less_irrefl linorder_neqE_nat list.set(2))
    moreover have "xs = ys'"
      using Cons.prems Cons \<open>x = y\<close> by (intro Cons.IH) (auto split: if_splits)
    ultimately show ?thesis using Cons by simp
  qed
qed

lemma decimal_digits_less: "d \<in> set (decimal_digits n) \<Longrightarrow> d < 10"
  by (induction n rule: decimal_digits.induct) (subst (asm) decimal_digits.simps, auto split: if_splits)

lemma decimal_digits_value:
  "frac10 (decimal_digits n) = of_nat n / 10 ^ length (decimal_digits n)"
proof (induction n rule: decimal_digits.induct)
  case (1 n)
  show ?case
  proof (cases "n < 10")
    case True
    then show ?thesis by (simp add: decimal_digits.simps)
  next
    case False
    have "of_nat n = of_nat (n div 10) * 10 + (of_nat (n mod 10) :: rat)"
      by (metis div_mult_mod_eq of_nat_add of_nat_mult of_nat_numeral)
    then show ?thesis
      using 1[OF False] False by (subst (1 2) decimal_digits.simps) (simp add: frac10_append field_simps)
  qed
qed

lemma decimal_digits_first: "n \<noteq> 0 \<Longrightarrow> \<exists>d ds. decimal_digits n = d # ds \<and> 0 < d"
proof (induction n rule: decimal_digits.induct)
  case (1 n)
  then show ?case by (cases "n < 10") (subst decimal_digits.simps, force)+
qed

lemma trim_right_spec: "\<exists>ys. s = trim_right c s @ ys \<and> (\<forall>y \<in> set ys. y = c)"
  "trim_right c s = [] \<or> last (trim_right c s) \<noteq> c"
proof -
  have "s = rev (takeWhile (\<lambda>x. x = c) (rev s) @ dropWhile (\<lambda>x. x = c) (rev s))" by simp
  then have "s = trim_right c s @ rev (takeWhile (\<lambda>x. x = c) (rev s))"
    unfolding trim_right_def by (metis rev_append)
  then show "\<exists>ys. s = trim_right c s @ ys \<and> (\<forall>y \<in> set ys. y = c)"
    by (rule exI[of _ "rev (takeWhile (\<lambda>x. x = c) (rev s))", OF conjI]) (auto dest: set_takeWhileD)
  show "trim_right c s = [] \<or> last (trim_right c s) \<noteq> c"
    using hd_dropWhile[of "\<lambda>x. x = c" "rev s"]
    by (cases "dropWhile (\<lambda>x. x = c) (rev s) = []") (simp_all add: trim_right_def last_rev)
qed

lemma trim_right_map:
  "\<forall>x \<in> set s. f x = f c \<longleftrightarrow> x = c \<Longrightarrow> trim_right (f c) (map f s) = map f (trim_right c s)"
proof -
  assume a: "\<forall>x \<in> set s. f x = f c \<longleftrightarrow> x = c"
  have "dropWhile (\<lambda>x. x = f c) (map f xs) = map f (dropWhile (\<lambda>x. x = c) xs)" if "set xs \<subseteq> set s" for xs
    using that a by (induction xs) auto
  from this[of "rev s"] show ?thesis by (simp add: trim_right_def rev_map)
qed

lemma set_trim_right: "set (trim_right c s) \<subseteq> set s"
  using trim_right_spec(1)[of s c] by (metis Un_upper1 set_append)

definition decimal_frac :: "decimal \<Rightarrow> nat list" where
  "decimal_frac d = trim_right 0 (decimal_digits (dcoeff d))"

definition decimal_exp :: "decimal \<Rightarrow> int" where
  "decimal_exp d = dexponent d + int (length (decimal_digits (dcoeff d)))"

definition decimal_fits :: "decimal \<Rightarrow> bool" where
  "decimal_fits d \<longleftrightarrow> decimal_exp d \<in> {- (2 ^ 31)..2 ^ 31 - 1}"

definition decimal_body :: "decimal \<Rightarrow> bytes" where
  "decimal_body d =
     be_bytes 4 ((of_int (decimal_exp d) :: 32 word) XOR 0x80000000) @ map digit (decimal_frac d) @ [0]"

definition decimal_abs :: "decimal \<Rightarrow> rat" where
  "decimal_abs d = of_nat (dcoeff d) * 10 powi dexponent d"

definition decimal_value :: "decimal \<Rightarrow> rat" where
  "decimal_value d = (if dnegative d then - decimal_abs d else decimal_abs d)"

lemma decimal_frac_bounds:
  assumes "dcoeff d \<noteq> 0"
  shows "1 / 10 \<le> frac10 (decimal_frac d)" "frac10 (decimal_frac d) < 1"
    "\<forall>c \<in> set (decimal_frac d). c < 10" "decimal_frac d = [] \<or> last (decimal_frac d) \<noteq> 0"
    "frac10 (decimal_frac d) = frac10 (decimal_digits (dcoeff d))"
proof -
  let ?ds = "decimal_digits (dcoeff d)"
  obtain ys where ys: "?ds = decimal_frac d @ ys" "\<forall>y \<in> set ys. y = 0"
    using trim_right_spec(1)[of ?ds 0] unfolding decimal_frac_def by blast
  have "frac10 (decimal_frac d @ ys) = frac10 (decimal_frac d)"
    using frac10_zeros[OF ys(2)] by (simp add: frac10_append)
  then show eq: "frac10 (decimal_frac d) = frac10 ?ds" using ys(1) by simp
  obtain c cs where "?ds = c # cs" "0 < c" using decimal_digits_first[OF assms] by blast
  then show "1 / 10 \<le> frac10 (decimal_frac d)" using frac10_first[of c cs] eq by simp
  show lt: "\<forall>c \<in> set (decimal_frac d). c < 10"
    by (auto simp: decimal_frac_def dest!: subsetD[OF set_trim_right] intro: decimal_digits_less)
  show "frac10 (decimal_frac d) < 1" by (rule frac10_less_one[OF lt])
  show "decimal_frac d = [] \<or> last (decimal_frac d) \<noteq> 0"
    unfolding decimal_frac_def by (rule trim_right_spec(2))
qed

lemma decimal_abs_frac:
  assumes "dcoeff d \<noteq> 0"
  shows "decimal_abs d = frac10 (decimal_frac d) * 10 powi decimal_exp d"
proof -
  have "10 powi decimal_exp d = (10 powi dexponent d * 10 ^ length (decimal_digits (dcoeff d)) :: rat)"
    by (simp add: decimal_exp_def power_int_add)
  then show ?thesis
    using decimal_frac_bounds(5)[OF assms] by (simp add: decimal_abs_def decimal_digits_value)
qed

lemma decimal_abs_exp_less:
  assumes "dcoeff a \<noteq> 0" "dcoeff b \<noteq> 0" "decimal_exp a < decimal_exp b"
  shows "decimal_abs a < decimal_abs b"
proof -
  have "decimal_abs a < 1 * 10 powi decimal_exp a"
    unfolding decimal_abs_frac[OF assms(1)] using decimal_frac_bounds(2)[OF assms(1)]
    by (intro mult_strict_right_mono) auto
  also have "10 powi decimal_exp a \<le> (10 powi (decimal_exp b - 1) :: rat)"
    using assms(3) by (intro power_int_increasing) auto
  also have "\<dots> = 1 / 10 * 10 powi decimal_exp b" by (simp add: power_int_diff)
  also have "\<dots> \<le> decimal_abs b"
    unfolding decimal_abs_frac[OF assms(2)] using decimal_frac_bounds(1)[OF assms(2)]
    by (intro mult_right_mono) auto
  finally show ?thesis by simp
qed

lemma decimal_body_order:
  assumes "dcoeff a \<noteq> 0" "dcoeff b \<noteq> 0"
    "decimal_fits a" "decimal_fits b"
  shows "decimal_abs a < decimal_abs b \<Longrightarrow> diverges (decimal_body a) (decimal_body b)"
    and "decimal_abs a = decimal_abs b \<Longrightarrow> decimal_body a = decimal_body b"
proof -
  have less: "frac10 (decimal_frac a) < frac10 (decimal_frac b) \<longleftrightarrow> decimal_abs a < decimal_abs b"
    and eq: "frac10 (decimal_frac a) = frac10 (decimal_frac b) \<longleftrightarrow> decimal_abs a = decimal_abs b"
    if "decimal_exp a = decimal_exp b"
    using that zero_less_power_int[of "10 :: rat" "decimal_exp b"]
    by (simp_all add: decimal_abs_frac assms mult_less_cancel_right_pos)
  have exp: "decimal_exp a \<le> decimal_exp b" if "decimal_abs a \<le> decimal_abs b"
    using decimal_abs_exp_less[OF assms(2,1)] that by force
  have sint: "sint (of_int e :: 32 word) = e" if "e \<in> {- (2 ^ 31)..2 ^ 31 - 1}" for e
    using that by (simp add: signed_of_int signed_take_bit_int_eq_self)
  note digits = decimal_frac_bounds(3,4)[OF assms(1)] decimal_frac_bounds(3,4)[OF assms(2)]
  show "diverges (decimal_body a) (decimal_body b)" if lt: "decimal_abs a < decimal_abs b"
  proof (cases "decimal_exp a = decimal_exp b")
    case True
    then have "diverges (map digit (decimal_frac a) @ [0]) (map digit (decimal_frac b) @ [0])"
      using less lt digits by (intro digits_diverge) blast+
    then show ?thesis using True by (simp add: decimal_body_def)
  next
    case False
    then have "decimal_exp a < decimal_exp b" using exp lt by force
    then show ?thesis
      unfolding decimal_body_def using sint assms(3,4)[unfolded decimal_fits_def]
      by (intro diverges_append diverges_be_bytes) (simp_all add: flip32_less)
  qed
  show "decimal_body a = decimal_body b" if e: "decimal_abs a = decimal_abs b"
  proof -
    have "decimal_exp a = decimal_exp b"
      using decimal_abs_exp_less[OF assms(1,2)] decimal_abs_exp_less[OF assms(2,1)] e by force
    moreover have "decimal_frac a = decimal_frac b"
      using calculation eq e digits by (intro digits_equal) blast+
    ultimately show ?thesis by (simp add: decimal_body_def)
  qed
qed

lemma ascii_digit:
  assumes "d < 10"
  shows "(0x30 + of_nat d - 0x30 + 1 :: byte) = digit d" "(0x30 + of_nat d :: byte) = 0x30 \<longleftrightarrow> d = 0"
    "(0x30 + of_nat d :: byte) \<noteq> 0x2D"
proof -
  have u: "unat (0x30 + of_nat d :: byte) = 0x30 + d"
    using assms by (simp add: unat_word_ariths unat_of_nat)
  show "(0x30 + of_nat d - 0x30 + 1 :: byte) = digit d" by (simp add: digit_def)
  show "(0x30 + of_nat d :: byte) = 0x30 \<longleftrightarrow> d = 0" using u by (auto simp flip: word_unat_eq_iff)
  show "(0x30 + of_nat d :: byte) \<noteq> 0x2D"
  proof
    assume "(0x30 + of_nat d :: byte) = 0x2D"
    then have "unat (0x30 + of_nat d :: byte) = 0x2D" by (simp only: unat_numeral) simp
    with u show False by simp
  qed
qed

lemma appendDecimalKey_eq:
  "appendDecimalKey dst d =
     (if \<not> dfinite d then Inl (KeyError NonFiniteKey)
      else if dcoeff d = 0 then Inr (dst @ [decimalZero])
      else if \<not> decimal_fits d then Inl (KeyError KeyExponentRange)
      else if dnegative d then Inr (dst @ decimalNegative # map NOT (decimal_body d))
      else Inr (dst @ decimalPositive # decimal_body d))"
proof -
  let ?ds = "decimal_digits (dcoeff d)"
  have lt: "\<forall>c \<in> set ?ds. c < 10" using decimal_digits_less by blast
  have "take 1 (coeff_string (dcoeff d)) \<noteq> [0x2D]"
    using lt ascii_digit(3) by (cases ?ds) (auto simp: coeff_string_def)
  moreover have "trim_right 0x30 (coeff_string (dcoeff d)) = map (\<lambda>d. 0x30 + of_nat d) (decimal_frac d)"
    unfolding coeff_string_def decimal_frac_def
    using trim_right_map[of ?ds "\<lambda>d. 0x30 + of_nat d :: byte" 0] lt ascii_digit(2) by auto
  moreover have "map (\<lambda>c. c - 0x30 + 1) (map (\<lambda>d. 0x30 + of_nat d) (decimal_frac d)) = map digit (decimal_frac d)"
    by (simp add: digit_def)
  moreover have "length (coeff_string (dcoeff d)) = length ?ds" by (simp add: coeff_string_def)
  ultimately show ?thesis
    by (simp add: appendDecimalKey_def Let_def decimal_IsZero_def decimal_body_def decimal_exp_def
        decimal_fits_def linorder_not_le)
qed

lemma appendDecimalKey_order:
  assumes "appendDecimalKey [] a = Inr k" "appendDecimalKey [] b = Inr l"
  shows "decimal_value a < decimal_value b \<Longrightarrow> diverges k l"
    and "decimal_value a = decimal_value b \<Longrightarrow> k = l"
proof -
  have pos: "0 < decimal_abs d" if "dcoeff d \<noteq> 0" for d
    using that by (simp add: decimal_abs_def)
  have zero: "decimal_abs d = 0" if "dcoeff d = 0" for d
    using that by (simp add: decimal_abs_def)
  have classes: "decimalNegative < decimalZero" "decimalZero < decimalPositive" "decimalNegative < decimalPositive"
    by (simp_all add: decimalNegative_def decimalZero_def decimalPositive_def)
  show "diverges k l" if "decimal_value a < decimal_value b"
    using assms that pos[of a] pos[of b] zero[of a] zero[of b] classes
    by (auto simp: appendDecimalKey_eq decimal_value_def split: if_splits
        intro: decimal_body_order diverges_map_NOT[OF decimal_body_order(1)])
  show "k = l" if "decimal_value a = decimal_value b"
    using assms that pos[of a] pos[of b] zero[of a] zero[of b]
    by (auto simp: appendDecimalKey_eq decimal_value_def split: if_splits
        intro: decimal_body_order(2) arg_cong[where f = "map NOT", OF decimal_body_order(2)])
qed

section \<open>Strings\<close>

lemma escape_order: "xs < ys \<Longrightarrow> diverges (escape xs @ [0, 1]) (escape ys @ [0, 1])"
proof (induction xs arbitrary: ys)
  case Nil
  then show ?case by (cases ys) (auto simp: word_neq_0_conv)
next
  case (Cons x xs)
  then show ?case by (cases ys) (auto simp: word_neq_0_conv)
qed

fun weight_bytes :: "32 word list \<Rightarrow> bytes" where
  "weight_bytes [] = []"
| "weight_bytes (w # ws) = be_bytes 4 (w XOR 0x80000000) @ weight_bytes ws"

lemma weight_bytes_append: "weight_bytes (xs @ ys) = weight_bytes xs @ weight_bytes ys"
  by (induction xs) auto

lemma append_less_same: "xs @ ys < xs @ zs \<longleftrightarrow> ys < (zs :: bytes)"
  by (induction xs) auto

lemma weight_bytes_order: "map sint xs < map sint ys \<Longrightarrow> weight_bytes xs < weight_bytes ys"
proof (induction xs arbitrary: ys)
  case Nil
  then show ?case by (cases ys) (auto simp: numeral_eq_Suc)
next
  case (Cons x xs)
  then obtain y ys' where ys: "ys = y # ys'" by (cases ys) auto
  show ?case
  proof (cases "sint x < sint y")
    case True
    then have "diverges (be_bytes 4 (x XOR 0x80000000)) (be_bytes 4 (y XOR 0x80000000))"
      by (intro diverges_be_bytes) (auto simp: flip32_less)
    then show ?thesis using ys by (simp add: diverges_append_less)
  next
    case False
    then have "x = y" "map sint xs < map sint ys'"
      using Cons.prems ys by (auto dest: signed_word_eqI)
    then show ?thesis using Cons.IH[of ys'] ys by (simp add: append_less_same)
  qed
qed

text \<open>The weights of the runes of a string; \<open>None\<close> where it is malformed.\<close>

function rune_weights :: "(nat \<Rightarrow> 32 word) \<Rightarrow> bytes \<Rightarrow> 32 word list option" where
  "rune_weights weight s =
     (if s = [] then Some []
      else let (r, n) = decode_rune s
           in if r = runeError \<and> n \<le> 1 then None
              else map_option (Cons (weight r)) (rune_weights weight (drop n s)))"
  by pat_completeness auto
termination
  by (relation "measure (\<lambda>(w, s). length s)")
    (auto simp: decode_rune_def runeError_def split: list.splits if_splits)

declare rune_weights.simps [simp del]

lemma string_weights_eq:
  "string_weights weight raw s =
     (case rune_weights weight s of None \<Rightarrow> Inl (KeyError MalformedString)
      | Some ws \<Rightarrow> Inr (raw @ weight_bytes ws))"
proof (induction weight raw s rule: string_weights.induct)
  case (1 weight raw s)
  obtain r n where rn: "decode_rune s = (r, n)" by fastforce
  show ?case
  proof (cases "s = [] \<or> (r = runeError \<and> n \<le> 1)")
    case True
    then show ?thesis
      using rn by (subst string_weights.simps, subst rune_weights.simps) auto
  next
    case False
    then show ?thesis
      using 1[OF _ rn[symmetric] refl] rn
      by (subst string_weights.simps, subst rune_weights.simps) (auto split: option.split)
  qed
qed

section \<open>The SQL order of a column type\<close>

definition int_rank :: "int \<Rightarrow> rat" where "int_rank = of_int"

lemma int_rank_less [simp]: "int_rank a < int_rank b \<longleftrightarrow> a < b" "int_rank a = int_rank b \<longleftrightarrow> a = b"
  by (simp_all add: int_rank_def)

definition string_rank :: "coltype \<Rightarrow> bytes \<Rightarrow> rat list" where
  "string_rank typ s =
     (let s = (if cchar typ then trim_right 0x20 s else s)
      in case ccoll typ of
           Some (CollOther (Some weight)) \<Rightarrow>
             (case rune_weights weight s of Some ws \<Rightarrow> map (\<lambda>w. int_rank (sint w)) ws | None \<Rightarrow> [])
         | _ \<Rightarrow> map (\<lambda>b. int_rank (uint b)) s)"

fun sql_rank :: "coltype \<Rightarrow> val \<Rightarrow> rat list" where
  "sql_rank typ (VString s) =
     (if is_text (ctype typ) then string_rank typ s else map (\<lambda>b. int_rank (uint b)) s)"
| "sql_rank typ (VBytes b) = map (\<lambda>b. int_rank (uint b)) b"
| "sql_rank typ (VFloat32 w) = [int_rank (f64_value (f32_to_f64 w))]"
| "sql_rank typ (VFloat64 w) = [int_rank (f64_value w)]"
| "sql_rank typ (VDecimal d) = [decimal_value d]"
| "sql_rank typ (VTime ns) = [int_rank (sint (time_UnixMicro ns))]"
| "sql_rank typ (VTimespan w) = [int_rank (sint w)]"
| "sql_rank typ v =
     (case signedValue v of
        Some w \<Rightarrow> [int_rank (sint w)]
      | None \<Rightarrow> (case unsignedValue v of Some w \<Rightarrow> [int_rank (uint w)] | None \<Rightarrow> []))"

lemma signed_rank: "signedValue v = Some w \<Longrightarrow> sql_rank typ v = [int_rank (sint w)]"
  by (cases v) auto

lemma unsigned_rank: "unsignedValue v = Some w \<Longrightarrow> sql_rank typ v = [int_rank (uint w)]"
  by (cases v) auto

text \<open>What a column encoder owes its rank.\<close>

definition encodes_order :: "bytes \<Rightarrow> rat list \<Rightarrow> bytes \<Rightarrow> rat list \<Rightarrow> bool" where
  "encodes_order k r l q \<longleftrightarrow> (r < q \<longrightarrow> diverges k l) \<and> (r = q \<longrightarrow> k = l)"

lemma signed_encodes:
  "encodes_order (appendSigned [] v) [int_rank (sint v)] (appendSigned [] w) [int_rank (sint w)]"
  by (auto simp: encodes_order_def appendSigned_def flip64_less intro: diverges_be_bytes dest: signed_word_eqI)

lemma unsigned_encodes:
  fixes v w :: "'a::len word"
  shows "LENGTH('a) \<le> 8 * n \<Longrightarrow>
    encodes_order (be_bytes n v) [int_rank (uint v)] (be_bytes n w) [int_rank (uint w)]"
  by (auto simp: encodes_order_def word_less_def intro!: diverges_be_bytes dest: unsigned_word_eqI)

lemma float_encodes:
  assumes "appendFloatKey [] v = Inr k" "appendFloatKey [] w = Inr l"
  shows "encodes_order k [int_rank (f64_value v)] l [int_rank (f64_value w)]"
proof -
  have "float_key v = float_key w" if "f64_value v = f64_value w"
    using that float_key_less[of v w] float_key_less[of w v] by force
  then show ?thesis
    using assms by (auto simp: encodes_order_def appendFloatKey_def float_key_less
        split: if_splits intro!: diverges_be_bytes)
qed

lemma rat_bytes_less:
  "map (\<lambda>b. int_rank (uint b)) xs < map (\<lambda>b. int_rank (uint b)) ys \<longleftrightarrow> xs < (ys :: bytes)"
  by (induction xs arbitrary: ys) (case_tac ys; auto simp: word_less_def dest: unsigned_word_eqI)+

lemma rat_bytes_eq:
  "map (\<lambda>b. int_rank (uint b)) xs = map (\<lambda>b. int_rank (uint b)) ys \<longleftrightarrow> xs = (ys :: bytes)"
  by (induction xs arbitrary: ys) (case_tac ys; auto dest: unsigned_word_eqI)+

lemma rat_weights_less:
  "map (\<lambda>w. int_rank (sint w)) xs < map (\<lambda>w. int_rank (sint w)) ys \<longleftrightarrow> map sint xs < map sint (ys :: 32 word list)"
  by (induction xs arbitrary: ys) (case_tac ys; auto)+

lemma rat_weights_eq:
  "map (\<lambda>w. int_rank (sint w)) xs = map (\<lambda>w. int_rank (sint w)) ys \<longleftrightarrow> xs = (ys :: 32 word list)"
  by (induction xs arbitrary: ys) (case_tac ys; auto dest: signed_word_eqI)+

lemma bytes_encodes:
  "encodes_order (appendEscaped [] a) (map (\<lambda>b. int_rank (uint b)) a)
     (appendEscaped [] b) (map (\<lambda>b. int_rank (uint b)) b)"
  by (auto simp: encodes_order_def appendEscaped_def rat_bytes_less rat_bytes_eq escape_order)

lemma string_encodes:
  assumes "appendStringKey [] typ s = Inr k" "appendStringKey [] typ t = Inr l"
  shows "encodes_order k (string_rank typ s) l (string_rank typ t)"
proof (cases "\<exists>weight. ccoll typ = Some (CollOther (Some weight))")
  case True
  then obtain weight where w: "ccoll typ = Some (CollOther (Some weight))" by blast
  show ?thesis
    using assms w
    by (cases "cchar typ") (auto simp: appendStringKey_def string_rank_def string_weights_eq Let_def encodes_order_def
        appendEscaped_def rat_weights_less rat_weights_eq escape_order weight_bytes_order
        split: option.splits if_splits)
next
  case False
  then show ?thesis
    using assms bytes_encodes
    by (cases "cchar typ") (auto simp: appendStringKey_def string_rank_def Let_def split: option.splits if_splits collation.splits)
qed

lemma decimal_encodes:
  assumes "appendDecimalKey [] a = Inr k" "appendDecimalKey [] b = Inr l"
  shows "encodes_order k [decimal_value a] l [decimal_value b]"
  using appendDecimalKey_order[OF assms] by (auto simp: encodes_order_def)

lemma uint_ucast_64: "uint (ucast (w :: 16 word) :: 64 word) = uint w"
  using uint_lt2p[of w] by (simp add: unsigned_ucast_eq take_bit_int_eq_self)

lemma binary_not_text: "is_binary t \<Longrightarrow> \<not> is_text t"
  by (auto simp: is_binary_def is_text_def)

lemma appendKeyColumn_encodes:
  assumes "appendKeyColumn [] typ v = Inr k" "appendKeyColumn [] typ w = Inr l"
  shows "encodes_order k (sql_rank typ v) l (sql_rank typ w)"
  using assms unfolding appendKeyColumn_def Let_def
  by (auto split: if_splits option.splits val.splits
      simp: signed_rank unsigned_rank signed_encodes unsigned_encodes float_encodes bytes_encodes
        string_encodes decimal_encodes uint_ucast_64 dest: binary_not_text)

section \<open>Composite keys\<close>

text \<open>
  A family of column encoders, one per column, and their ranks. A composite key is the
  concatenation of the column encodings; it is ordered as the list of ranks.
\<close>

locale key_columns =
  fixes enc :: "'c \<Rightarrow> 'v \<Rightarrow> error + bytes" and rank :: "'c \<Rightarrow> 'v \<Rightarrow> rat list"
  assumes encodes: "enc c v = Inr k \<Longrightarrow> enc c w = Inr l \<Longrightarrow> encodes_order k (rank c v) l (rank c w)"
begin

fun enc_all :: "'c list \<Rightarrow> 'v list \<Rightarrow> bytes \<Rightarrow> bool" where
  "enc_all [] [] ks \<longleftrightarrow> ks = []"
| "enc_all (c # cs) (v # vs) ks \<longleftrightarrow> (\<exists>k ks'. enc c v = Inr k \<and> enc_all cs vs ks' \<and> ks = k @ ks')"
| "enc_all _ _ _ \<longleftrightarrow> False"

definition ranks :: "'c list \<Rightarrow> 'v list \<Rightarrow> rat list list" where
  "ranks cs vs = map2 rank cs vs"

lemma enc_all_order:
  assumes "enc_all cs vs k" "enc_all cs ws l"
  shows "(ranks cs vs < ranks cs ws \<longrightarrow> diverges k l) \<and> (ranks cs vs = ranks cs ws \<longrightarrow> k = l)"
  using assms
proof (induction cs vs k arbitrary: ws l rule: enc_all.induct)
  case (1 ks)
  then show ?case by (cases ws) (auto simp: ranks_def)
next
  case (2 c cs v vs ks)
  then obtain w ws' where ws: "ws = w # ws'" by (cases ws) auto
  from 2(2) obtain kc kr where k: "enc c v = Inr kc" "enc_all cs vs kr" "ks = kc @ kr" by auto
  from 2(3) ws obtain lc lr where l: "enc c w = Inr lc" "enc_all cs ws' lr" "l = lc @ lr" by auto
  have "(ranks cs vs < ranks cs ws' \<longrightarrow> diverges kr lr) \<and> (ranks cs vs = ranks cs ws' \<longrightarrow> kr = lr)"
    using 2(1)[OF k(2) l(2)] by blast
  then show ?case
    using encodes[OF k(1) l(1)] k(3) l(3) ws
    by (auto simp: ranks_def encodes_order_def intro: diverges_append)
qed auto

lemma enc_all_less_iff:
  assumes "enc_all cs vs k" "enc_all cs ws l"
  shows "k @ u < l @ v \<longleftrightarrow> ranks cs vs < ranks cs ws \<or> (ranks cs vs = ranks cs ws \<and> u < v)"
  using enc_all_order[OF assms] enc_all_order[OF assms(2,1)] diverges_append_less[of k l u v]
    diverges_append_less[of l k v u] append_less_same[of k u v]
  by (metis less_asym linorder_neqE)

lemma enc_all_eq_iff:
  assumes "enc_all cs vs k" "enc_all cs ws l"
  shows "k = l \<longleftrightarrow> ranks cs vs = ranks cs ws"
  using enc_all_order[OF assms] enc_all_order[OF assms(2,1)] diverges_less[of k l] diverges_less[of l k]
  by (metis less_irrefl linorder_neqE)

end

interpretation col: key_columns "appendKeyColumn []" sql_rank
  by unfold_locales (rule appendKeyColumn_encodes)

text \<open>A column of a secondary index: NULL is \<open>0x00\<close>, a value is \<open>0x01\<close> and its encoding.\<close>

fun index_column :: "coltype \<Rightarrow> val option \<Rightarrow> error + bytes" where
  "index_column typ None = Inr [0x00]"
| "index_column typ (Some v) = map_sum id (Cons 0x01) (appendKeyColumn [] typ v)"

fun index_rank :: "coltype \<Rightarrow> val option \<Rightarrow> rat list" where
  "index_rank typ None = []"
| "index_rank typ (Some v) = 0 # sql_rank typ v"

interpretation icol: key_columns index_column index_rank
proof
  fix c v k w l
  assume a: "index_column c v = Inr k" "index_column c w = Inr l"
  show "encodes_order k (index_rank c v) l (index_rank c w)"
  proof (cases v; cases w)
    fix x y
    assume vw: "v = Some x" "w = Some y"
    then obtain k' l' where "appendKeyColumn [] c x = Inr k'" "appendKeyColumn [] c y = Inr l'"
      "k = 0x01 # k'" "l = 0x01 # l'"
      using a by (cases "appendKeyColumn [] c x"; cases "appendKeyColumn [] c y") auto
    then show ?thesis
      using appendKeyColumn_encodes[of c x k' y l'] vw by (auto simp: encodes_order_def)
  qed (use a in \<open>auto simp: encodes_order_def map_sum_def split: sum.splits\<close>)
qed

lemma appendKeyColumn_dst:
  "appendKeyColumn dst typ v = map_sum id (append dst) (appendKeyColumn [] typ v)"
  unfolding appendKeyColumn_def Let_def
  by (auto simp: appendSigned_def appendFloatKey_def appendEscaped_def appendDecimalKey_eq
      appendStringKey_def Let_def split: option.split val.split sum.split collation.split)

definition key_type :: "pkschema \<Rightarrow> int \<Rightarrow> coltype" where
  "key_type schema ord = col_type (schema_columns schema ! nat ord)"

definition key_ranks :: "pkschema \<Rightarrow> row \<Rightarrow> rat list list" where
  "key_ranks schema row =
     map (\<lambda>ord. sql_rank (key_type schema ord) (the (row_cell row ord))) (pk_ordinals schema)"

definition index_ranks :: "pkschema \<Rightarrow> int list \<Rightarrow> row \<Rightarrow> rat list list" where
  "index_ranks schema ords row = map (\<lambda>ord. index_rank (key_type schema ord) (row_cell row ord)) ords"

lemma encode_key_loop_columns:
  "encode_key_loop schema row ords out = Inr k \<Longrightarrow>
     \<exists>k'. k = out @ k' \<and> col.enc_all (map (key_type schema) ords) (map (\<lambda>ord. the (row_cell row ord)) ords) k'"
proof (induction ords arbitrary: out)
  case (Cons ord ords)
  from Cons.prems obtain v c where v: "row_cell row ord = Some v"
    "appendKeyColumn [] (key_type schema ord) v = Inr c"
    "encode_key_loop schema row ords (out @ c) = Inr k"
    by (auto simp: key_type_def appendKeyColumn_dst[of out] map_sum_def split: option.splits if_splits sum.splits)
  from Cons.IH[OF v(3)] show ?case using v by fastforce
qed simp

lemma encodeKey_less_iff:
  assumes "encodeKey schema r = Inr k" "encodeKey schema q = Inr l"
  shows "k < l \<longleftrightarrow> key_ranks schema r < key_ranks schema q"
    and "k = l \<longleftrightarrow> key_ranks schema r = key_ranks schema q"
proof -
  have eq: "col.ranks (map (key_type schema) ords) (map (\<lambda>ord. the (row_cell r ord)) ords) =
      map (\<lambda>ord. sql_rank (key_type schema ord) (the (row_cell r ord))) ords" for r ords
    by (simp add: col.ranks_def zip_map_map zip_same_conv_map)
  obtain k' l' where e: "k = k'" "l = l'"
    "col.enc_all (map (key_type schema) (pk_ordinals schema)) (map (\<lambda>ord. the (row_cell r ord)) (pk_ordinals schema)) k'"
    "col.enc_all (map (key_type schema) (pk_ordinals schema)) (map (\<lambda>ord. the (row_cell q ord)) (pk_ordinals schema)) l'"
    using encode_key_loop_columns[OF assms(1)[unfolded encodeKey_def]]
      encode_key_loop_columns[OF assms(2)[unfolded encodeKey_def]] by auto
  show "k < l \<longleftrightarrow> key_ranks schema r < key_ranks schema q"
    using col.enc_all_less_iff[OF e(3,4), of "[]" "[]"] e(1,2) by (simp add: eq key_ranks_def)
  show "k = l \<longleftrightarrow> key_ranks schema r = key_ranks schema q"
    using col.enc_all_eq_iff[OF e(3,4)] e(1,2) by (simp add: eq key_ranks_def)
qed

lemma index_key_loop_columns:
  "index_key_loop schema row ords out n = Inr (k, m) \<Longrightarrow>
     (\<exists>k'. k = out @ k' \<and> icol.enc_all (map (key_type schema) ords) (map (row_cell row) ords) k') \<and>
     m = (n \<or> (\<exists>ord \<in> set ords. row_cell row ord = None))"
proof (induction ords arbitrary: out n)
  case (Cons ord ords)
  show ?case
  proof (cases "row_cell row ord")
    case None
    with Cons.prems have "index_key_loop schema row ords (out @ [0x00]) True = Inr (k, m)" by simp
    from Cons.IH[OF this] show ?thesis using None by auto
  next
    case (Some v)
    with Cons.prems obtain c where c: "appendKeyColumn [] (key_type schema ord) v = Inr c"
      "index_key_loop schema row ords (out @ 0x01 # c) n = Inr (k, m)"
      by (auto simp: key_type_def appendKeyColumn_dst[of "out @ [1]"] map_sum_def split: if_splits sum.splits)
    from Cons.IH[OF c(2)] show ?thesis using Some c(1) by fastforce
  qed
qed simp

lemma encodeIndexKey_less_iff:
  assumes "encodeIndexKey schema r ords pk u = Inr (k, n)" "encodeIndexKey schema q ords pl u = Inr (l, m)"
  shows "k < l \<longleftrightarrow> index_ranks schema ords r < index_ranks schema ords q \<or>
           (index_ranks schema ords r = index_ranks schema ords q \<and> (n \<or> \<not> u) \<and> pk < pl)"
    and "n \<longleftrightarrow> (\<exists>ord \<in> set ords. row_cell r ord = None)"
proof -
  have eq: "icol.ranks (map (key_type schema) ords) (map (row_cell r) ords) = index_ranks schema ords r" for r ords
    by (simp add: icol.ranks_def index_ranks_def zip_map_map zip_same_conv_map)
  obtain k' l' where e: "index_key_loop schema r ords [] False = Inr (k', n)"
      "index_key_loop schema q ords [] False = Inr (l', m)"
      "k = (if n \<or> \<not> u then k' @ pk else k')" "l = (if m \<or> \<not> u then l' @ pl else l')"
    using assms by (auto simp: encodeIndexKey_def split: sum.splits)
  note c = index_key_loop_columns[OF e(1)] index_key_loop_columns[OF e(2)]
  have null: "n = m" if "index_ranks schema ords r = index_ranks schema ords q"
  proof -
    have "row_cell r ord = None \<longleftrightarrow> row_cell q ord = None" if "ord \<in> set ords" for ord
      using \<open>index_ranks schema ords r = _\<close> that
      by (cases "row_cell r ord"; cases "row_cell q ord") (auto simp: index_ranks_def dest: spec[of _ ord])
    then show ?thesis using c by auto
  qed
  have "k' @ u < l' @ v \<longleftrightarrow> index_ranks schema ords r < index_ranks schema ords q \<or>
      (index_ranks schema ords r = index_ranks schema ords q \<and> u < v)" for u v
    using icol.enc_all_less_iff[of "map (key_type schema) ords" "map (row_cell r) ords" k'
        "map (row_cell q) ords" l' u v] c by (simp add: eq)
  from this[of "if n \<or> \<not> u then pk else []" "if m \<or> \<not> u then pl else []"]
  show "k < l \<longleftrightarrow> index_ranks schema ords r < index_ranks schema ords q \<or>
           (index_ranks schema ords r = index_ranks schema ords q \<and> (n \<or> \<not> u) \<and> pk < pl)"
    using e(3,4) null by (auto split: if_splits)
  show "n \<longleftrightarrow> (\<exists>ord \<in> set ords. row_cell r ord = None)" using c(1) by simp
qed

lemma keyable_iff: "keyable typ \<longleftrightarrow> appendKeyColumn dst typ v \<noteq> Inl (KeyError TypeNotKeyable)"
  unfolding keyable_def appendKeyColumn_def Let_def
  by (auto simp: appendFloatKey_def appendDecimalKey_eq appendStringKey_def string_weights_eq Let_def
      split: option.split val.split sum.splits collation.split)

section \<open>Prefix intervals\<close>

lemma prefix_end_loop_Some:
  "prefix_end_loop p i = Some e \<Longrightarrow> i \<le> length p \<Longrightarrow>
     \<exists>j < i. e = take j p @ [p ! j + 1] \<and> p ! j \<noteq> 0xFF \<and> (\<forall>k. j < k \<and> k < i \<longrightarrow> p ! k = 0xFF)"
proof (induction i)
  case (Suc i)
  show ?case
  proof (cases "p ! i = 0xFF")
    case True
    with Suc obtain j where "j < i" "e = take j p @ [p ! j + 1]" "p ! j \<noteq> 0xFF"
      "\<forall>k. j < k \<and> k < i \<longrightarrow> p ! k = 0xFF" by auto
    then show ?thesis using True by (intro exI[of _ j]) (auto simp: less_Suc_eq)
  next
    case False
    then show ?thesis
      using Suc.prems by (intro exI[of _ i]) (auto simp: take_Suc_conv_app_nth)
  qed
qed simp

lemma prefix_end_loop_None:
  "prefix_end_loop p i = None \<Longrightarrow> j < i \<Longrightarrow> p ! j = 0xFF"
  by (induction i) (auto split: if_splits simp: less_Suc_eq)

lemma FF_max: "(0xFF :: byte) = - 1"
  by (simp add: word_eq_iff_unsigned)

lemma byte_le_FF: "(b :: byte) \<le> 0xFF"
  unfolding FF_max by (rule word_order.extremum)

lemma prefix_le: "prefix p k \<Longrightarrow> p \<le> (k :: bytes)"
proof (induction p arbitrary: k)
  case (Cons a p)
  then show ?case by (cases k) auto
qed simp

lemma FF_prefix: "replicate n (0xFF :: byte) \<le> k \<Longrightarrow> prefix (replicate n 0xFF) k"
proof (induction n arbitrary: k)
  case (Suc n)
  then obtain c k' where k: "k = c # k'" by (cases k) auto
  with Suc.prems have "0xFF < c \<or> (c = 0xFF \<and> replicate n 0xFF \<le> k')" by auto
  then show ?case using Suc.IH[of k'] byte_le_FF[of c] k by auto
qed simp

lemma byte_succ_less: "b \<noteq> 0xFF \<Longrightarrow> c < b + 1 \<longleftrightarrow> c \<le> (b :: byte)"
proof -
  assume "b \<noteq> 0xFF"
  then have "b \<noteq> - 1" by (simp add: FF_max)
  then have "unat (b + 1) = Suc (unat b)" using unatSuc[of b] by (metis add.commute add_eq_0_iff)
  then show ?thesis by (simp add: word_less_nat_alt word_le_nat_alt less_Suc_eq_le)
qed

lemma prefix_interval:
  assumes "b \<noteq> (0xFF :: byte)"
  shows "q @ b # replicate n 0xFF \<le> k \<and> k < q @ [b + 1] \<longleftrightarrow> prefix (q @ b # replicate n 0xFF) k"
proof (induction q arbitrary: k)
  case Nil
  show ?case
  proof (cases k)
    case (Cons c k')
    have "replicate n 0xFF \<le> k' \<longleftrightarrow> prefix (replicate n 0xFF) k'"
      using FF_prefix prefix_le by blast
    then show ?thesis using Cons assms by (auto simp: byte_succ_less)
  qed simp
next
  case (Cons a q)
  note IH = this
  show ?case
  proof (cases k)
    case (Cons c k')
    then show ?thesis using IH[of k'] by auto
  qed simp
qed

lemma keyPrefixEnd_Some:
  assumes "keyPrefixEnd p = Some e"
  shows "p \<le> k \<and> k < e \<longleftrightarrow> prefix p k"
proof -
  obtain j where j: "j < length p" "e = take j p @ [p ! j + 1]" "p ! j \<noteq> 0xFF"
    "\<forall>k. j < k \<and> k < length p \<longrightarrow> p ! k = 0xFF"
    using prefix_end_loop_Some[OF assms[unfolded keyPrefixEnd_def]] by auto
  have "drop (Suc j) p = replicate (length p - Suc j) 0xFF"
    using j(1,4) by (intro nth_equalityI) auto
  then have "p = take j p @ p ! j # replicate (length p - Suc j) 0xFF"
    using id_take_nth_drop[OF j(1)] by simp
  then show ?thesis using prefix_interval[OF j(3), of "take j p" _ k] j(2) by metis
qed

lemma keyPrefixEnd_None:
  assumes "keyPrefixEnd p = None"
  shows "p \<le> k \<longleftrightarrow> prefix p k"
proof -
  have "p = replicate (length p) 0xFF"
    using prefix_end_loop_None[OF assms[unfolded keyPrefixEnd_def]] by (intro nth_equalityI) auto
  then show ?thesis using FF_prefix[of "length p" k] prefix_le[of p k] by auto
qed

end
