(* ===== verification/Table_Editor.thy ===== *)
theory Table_Editor
  imports Table_Index Key_Order
begin

text \<open>
  The row editor of a table (\<open>engine/catalog.go\<close>: \<open>editor\<close>), with its statement-level undo. The editor
  owns the table state it points at, and the \<open>dirty\<close> flag of its transaction. An operation returns its
  error beside the state it leaves behind: a failed operation may have written index edits, and relies
  on \<open>DiscardChanges\<close> to take them back.
\<close>

section \<open>Definitions\<close>

record beforeRow =
  br_row :: row
  br_present :: bool
  br_edit :: "rowEdit option"

record editor =
  e_state :: tableState
  e_before :: "(bytes, beforeRow) gomap option"
  e_idxSnapshot :: "(bytes, nat) gomap option"
  e_idxInitErr :: "error option"
  e_txDirty :: bool

definition idx_lengths :: "tableState \<Rightarrow> (bytes, nat) gomap" where
  "idx_lengths s = (case ts_idxEdits s of None \<Rightarrow> [] | Some m \<Rightarrow> map (\<lambda>(name, ov). (name, length (ov_local ov))) m)"

definition StatementBegin :: "sqllib \<Rightarrow> editor \<Rightarrow> editor option" where
  "StatementBegin lib e =
     (let e = e\<lparr>e_before := Some [], e_idxInitErr := None, e_idxSnapshot := None\<rparr>
      in Option.bind (if length (ts_indexes (e_state e)) > 0 then ensureIndexEdits lib (e_state e) else Some (Inr (), e_state e))
           (\<lambda>(res, s). Some (case res of
              Inl err \<Rightarrow> e\<lparr>e_state := s, e_idxInitErr := Some err\<rparr>
            | Inr _ \<Rightarrow> e\<lparr>e_state := s, e_idxSnapshot := Some (idx_lengths s)\<rparr>)))"

definition StatementComplete :: "editor \<Rightarrow> editor" where
  "StatementComplete e = e\<lparr>e_before := None, e_idxSnapshot := None\<rparr>"

definition restore_row :: "bytes \<times> beforeRow \<Rightarrow> tableState \<Rightarrow> tableState" where
  "restore_row x s =
     (case x of (key, before) \<Rightarrow>
        s\<lparr>ts_edits := (case br_edit before of Some edit \<Rightarrow> AList.update key edit (ts_edits s) | None \<Rightarrow> AList.delete key (ts_edits s)),
          ts_rows := map_option (\<lambda>rows. if br_present before then AList.update key (br_row before) rows else AList.delete key rows)
                       (ts_rows s)\<rparr>)"

definition restore_index :: "(bytes, nat) gomap \<Rightarrow> (bytes, indexOverlay) gomap \<Rightarrow> (bytes, indexOverlay) gomap" where
  "restore_index snapshot m =
     concat (map (\<lambda>(name, ov). case map_of snapshot name of
                                 None \<Rightarrow> []
                               | Some n \<Rightarrow> [(name, ov\<lparr>ov_local := take n (ov_local ov)\<rparr>)]) m)"

definition DiscardChanges :: "editor \<Rightarrow> editor" where
  "DiscardChanges e =
     (let s = fold restore_row (case e_before e of None \<Rightarrow> [] | Some b \<Rightarrow> b) (e_state e);
          s = (case e_idxSnapshot e of
                 None \<Rightarrow> s
               | Some snapshot \<Rightarrow> s\<lparr>ts_idxEdits := map_option (restore_index snapshot) (ts_idxEdits s)\<rparr>)
      in e\<lparr>e_state := s, e_before := None, e_idxSnapshot := None\<rparr>)"

definition remember :: "bytes \<Rightarrow> row \<Rightarrow> bool \<Rightarrow> editor \<Rightarrow> editor" where
  "remember key row present e =
     (case e_before e of
        None \<Rightarrow> e
      | Some before \<Rightarrow>
          if map_of before key \<noteq> None then e
          else e\<lparr>e_before := Some (AList.update key
                   \<lparr>br_row = row, br_present = present, br_edit = map_of (ts_edits (e_state e)) key\<rparr> before)\<rparr>)"

definition edit_state :: "(tableState \<Rightarrow> tableState) \<Rightarrow> editor \<Rightarrow> editor" where
  "edit_state f e = e\<lparr>e_state := f (e_state e)\<rparr>"

definition mark_dirty :: "editor \<Rightarrow> editor" where
  "mark_dirty e = e\<lparr>e_txDirty := True, e_state := (e_state e)\<lparr>ts_dirty := True\<rparr>\<rparr>"

fun insert_indexes :: "row \<Rightarrow> bytes \<Rightarrow> indexDisk list \<Rightarrow> tableState \<Rightarrow> (unit, tableState) step" where
  "insert_indexes row key [] s = Some (Inr (), s)"
| "insert_indexes row key (idx # idxs) s =
     (case encodeIndexKey (ts_schema s) row (idx_Columns idx) key (idx_Unique idx) of
        Inl err \<Rightarrow> Some (Inl err, s)
      | Inr (idxKey, hasNull) \<Rightarrow>
          Option.bind (if idx_Unique idx \<and> \<not> hasNull then lookupIndexKey s (idx_Name idx) idxKey else Some (Inr False))
            (\<lambda>res. case res of
               Inl err \<Rightarrow> Some (Inl err, s)
             | Inr found \<Rightarrow>
                 if found then Some (Inl (TableError UniqueKeyErr), s)
                 else case addIndexEdit (idx_Name idx) (put_entry idxKey key) s of
                        Inl err \<Rightarrow> Some (Inl err, s)
                      | Inr s \<Rightarrow> insert_indexes row key idxs s))"

definition editor_Insert :: "sqllib \<Rightarrow> editor \<Rightarrow> row \<Rightarrow> (unit, editor) step" where
  "editor_Insert lib e row =
     (case e_idxInitErr e of
        Some err \<Rightarrow> Some (Inl err, e)
      | None \<Rightarrow>
          (case encodeKey (ts_schema (e_state e)) row of
             Inl err \<Rightarrow> Some (Inl err, e)
           | Inr key \<Rightarrow>
               Option.bind (lookupRow lib (e_state e) key) (\<lambda>res. case res of
                 Inl err \<Rightarrow> Some (Inl err, e)
               | Inr (Some existing) \<Rightarrow> Some (Inl (TableError UniqueKeyErr), e)
               | Inr None \<Rightarrow>
                   Option.bind (ensureIndexEdits lib (e_state e)) (\<lambda>(res, s). case res of
                     Inl err \<Rightarrow> Some (Inl err, e\<lparr>e_state := s\<rparr>)
                   | Inr _ \<Rightarrow>
                       Option.bind (insert_indexes row key (ts_indexes s) s) (\<lambda>(res, s). Some (case res of
                         Inl err \<Rightarrow> (Inl err, e\<lparr>e_state := s\<rparr>)
                       | Inr _ \<Rightarrow>
                           (Inr (), mark_dirty (edit_state (setEdit key \<lparr>ed_row = row, ed_delete = False\<rparr>)
                              (remember key [] False (e\<lparr>e_state := s\<rparr>))))))))))"

fun delete_indexes :: "row \<Rightarrow> bytes \<Rightarrow> indexDisk list \<Rightarrow> tableState \<Rightarrow> (error + unit) \<times> tableState" where
  "delete_indexes existing key [] s = (Inr (), s)"
| "delete_indexes existing key (idx # idxs) s =
     (case encodeIndexKey (ts_schema s) existing (idx_Columns idx) key (idx_Unique idx) of
        Inl err \<Rightarrow> (Inl err, s)
      | Inr (idxKey, _) \<Rightarrow>
          (case addIndexEdit (idx_Name idx) (del_entry idxKey) s of
             Inl err \<Rightarrow> (Inl err, s)
           | Inr s \<Rightarrow> delete_indexes existing key idxs s))"

definition editor_Delete :: "sqllib \<Rightarrow> editor \<Rightarrow> row \<Rightarrow> (unit, editor) step" where
  "editor_Delete lib e row =
     (case e_idxInitErr e of
        Some err \<Rightarrow> Some (Inl err, e)
      | None \<Rightarrow>
          (case encodeKey (ts_schema (e_state e)) row of
             Inl err \<Rightarrow> Some (Inl err, e)
           | Inr key \<Rightarrow>
               Option.bind (lookupRow lib (e_state e) key) (\<lambda>res. Some (case res of
                 Inl err \<Rightarrow> (Inl err, e)
               | Inr None \<Rightarrow> (Inl (TableError DeleteRowNotFound), e)
               | Inr (Some existing) \<Rightarrow>
                   (case delete_indexes existing key (ts_indexes (e_state e)) (e_state e) of
                      (Inl err, s) \<Rightarrow> (Inl err, e\<lparr>e_state := s\<rparr>)
                    | (Inr _, s) \<Rightarrow>
                        (Inr (), mark_dirty (edit_state (setEdit key \<lparr>ed_row = [], ed_delete = True\<rparr>)
                           (remember key existing True (e\<lparr>e_state := s\<rparr>)))))))))"

fun update_indexes :: "row \<Rightarrow> row \<Rightarrow> bytes \<Rightarrow> bytes \<Rightarrow> indexDisk list \<Rightarrow> tableState \<Rightarrow> (unit, tableState) step" where
  "update_indexes existing newRow oldKey newKey [] s = Some (Inr (), s)"
| "update_indexes existing newRow oldKey newKey (idx # idxs) s =
     (case encodeIndexKey (ts_schema s) existing (idx_Columns idx) oldKey (idx_Unique idx) of
        Inl err \<Rightarrow> Some (Inl err, s)
      | Inr (oldIdxKey, _) \<Rightarrow>
          (case encodeIndexKey (ts_schema s) newRow (idx_Columns idx) newKey (idx_Unique idx) of
             Inl err \<Rightarrow> Some (Inl err, s)
           | Inr (newIdxKey, hasNull) \<Rightarrow>
               if oldIdxKey = newIdxKey then
                 (case (if oldKey \<noteq> newKey then addIndexEdit (idx_Name idx) (put_entry newIdxKey newKey) s else Inr s) of
                    Inl err \<Rightarrow> Some (Inl err, s)
                  | Inr s \<Rightarrow> update_indexes existing newRow oldKey newKey idxs s)
               else
                 Option.bind (if idx_Unique idx \<and> \<not> hasNull then lookupIndexKey s (idx_Name idx) newIdxKey else Some (Inr False))
                   (\<lambda>res. case res of
                      Inl err \<Rightarrow> Some (Inl err, s)
                    | Inr found \<Rightarrow>
                        if found then Some (Inl (TableError UniqueKeyErr), s)
                        else case addIndexEdit (idx_Name idx) (del_entry oldIdxKey) s of
                               Inl err \<Rightarrow> Some (Inl err, s)
                             | Inr s' \<Rightarrow>
                                 (case addIndexEdit (idx_Name idx) (put_entry newIdxKey newKey) s' of
                                    Inl err \<Rightarrow> Some (Inl err, s')
                                  | Inr s'' \<Rightarrow> update_indexes existing newRow oldKey newKey idxs s''))))"

definition update_rows :: "row \<Rightarrow> row \<Rightarrow> bytes \<Rightarrow> bytes \<Rightarrow> editor \<Rightarrow> (unit, editor) step" where
  "update_rows existing newRow oldKey newKey e =
     Option.bind (update_indexes existing newRow oldKey newKey (ts_indexes (e_state e)) (e_state e)) (\<lambda>(res, s). Some (case res of
       Inl err \<Rightarrow> (Inl err, e\<lparr>e_state := s\<rparr>)
     | Inr _ \<Rightarrow> (Inr (), mark_dirty (edit_state (setEdit newKey \<lparr>ed_row = newRow, ed_delete = False\<rparr>) (e\<lparr>e_state := s\<rparr>)))))"

definition update_existing :: "sqllib \<Rightarrow> row \<Rightarrow> row \<Rightarrow> bytes \<Rightarrow> bytes \<Rightarrow> editor \<Rightarrow> (unit, editor) step" where
  "update_existing lib existing newRow oldKey newKey e =
     (let e = remember oldKey existing True e
      in if oldKey \<noteq> newKey then
           Option.bind (lookupRow lib (e_state e) newKey) (\<lambda>res. case res of
             Inl err \<Rightarrow> Some (Inl err, e)
           | Inr (Some _) \<Rightarrow> Some (Inl (TableError UniqueKeyErr), e)
           | Inr None \<Rightarrow>
               update_rows existing newRow oldKey newKey
                 (edit_state (setEdit oldKey \<lparr>ed_row = [], ed_delete = True\<rparr>) (remember newKey [] False e)))
         else update_rows existing newRow oldKey newKey e)"

definition editor_Update :: "sqllib \<Rightarrow> editor \<Rightarrow> row \<Rightarrow> row \<Rightarrow> (unit, editor) step" where
  "editor_Update lib e oldRow newRow =
     (case e_idxInitErr e of
        Some err \<Rightarrow> Some (Inl err, e)
      | None \<Rightarrow>
          Option.bind (ensureIndexEdits lib (e_state e)) (\<lambda>(res, s).
            let e = e\<lparr>e_state := s\<rparr>
            in case res of
                 Inl err \<Rightarrow> Some (Inl err, e)
               | Inr _ \<Rightarrow>
                   (case encodeKey (ts_schema s) oldRow of
                      Inl err \<Rightarrow> Some (Inl err, e)
                    | Inr oldKey \<Rightarrow>
                        (case encodeKey (ts_schema s) newRow of
                           Inl err \<Rightarrow> Some (Inl err, e)
                         | Inr newKey \<Rightarrow>
                             if oldKey = newKey \<and> oldRow = newRow then Some (Inr (), e)
                             else Option.bind (lookupRow lib s oldKey) (\<lambda>res. case res of
                               Inl err \<Rightarrow> Some (Inl err, e)
                             | Inr None \<Rightarrow> Some (Inl (TableError DeleteRowNotFound), e)
                             | Inr (Some existing) \<Rightarrow> update_existing lib existing newRow oldKey newKey e)))))"

end
