(* ===== verification/Editor_Correct.thy ===== *)
theory Editor_Correct
  imports Table_Editor
begin

text \<open>
  The editor refines a table with unique constraints: a map from primary keys to rows, and for each
  index a map from index keys to primary keys that lists exactly the rows. \<open>Insert\<close>, \<open>Delete\<close> and
  \<open>Update\<close> change the rows as the statement says and keep every index in step.
\<close>

section \<open>Index keys tell rows apart\<close>

lemma index_ranks_nulls:
  assumes "index_ranks schema ords r = index_ranks schema ords q"
  shows "(\<exists>ord \<in> set ords. row_cell r ord = None) \<longleftrightarrow> (\<exists>ord \<in> set ords. row_cell q ord = None)"
proof -
  have "row_cell r ord = None \<longleftrightarrow> row_cell q ord = None" if "ord \<in> set ords" for ord
    using assms that by (cases "row_cell r ord"; cases "row_cell q ord") (auto simp: index_ranks_def dest: spec[of _ ord])
  then show ?thesis by auto
qed

lemma encodeIndexKey_pk:
  assumes "encodeIndexKey schema r ords pk u = Inr (k, n)" "encodeIndexKey schema q ords pl u = Inr (k, m)" "n \<or> \<not> u"
  shows "pk = pl"
proof -
  note l = encodeIndexKey_less_iff[OF assms(1,2)] and g = encodeIndexKey_less_iff[OF assms(2,1)]
  have eq: "index_ranks schema ords r = index_ranks schema ords q"
    using l(1) g(1) by (metis less_irrefl linorder_neqE)
  then have "n = m" using l(2) g(2) index_ranks_nulls[OF eq] by simp
  then show ?thesis using l(1) g(1) eq assms(3) by (metis less_irrefl linorder_neqE)
qed

section \<open>Index maps under row changes\<close>

lemma index_matches_insert:
  assumes m: "index_matches schema idx M I" and M: "M pk = None" and k: "index_key schema idx pk row = Some k" and I: "I k = None"
  shows "index_matches schema idx (M(pk \<mapsto> row)) (I(k \<mapsto> pk))"
proof -
  have i: "I k' = Some q \<longleftrightarrow> (\<exists>r. M q = Some r \<and> index_key schema idx q r = Some k')" for k' q
    using m by (simp add: index_matches_def)
  have "(I(k \<mapsto> pk)) k' = Some q \<longleftrightarrow> (\<exists>r. (M(pk \<mapsto> row)) q = Some r \<and> index_key schema idx q r = Some k')" for k' q
    using i[of k' q] i[of k q] M k I by (cases "q = pk"; cases "k' = k") auto
  then show ?thesis by (simp add: index_matches_def)
qed

lemma index_matches_delete:
  assumes m: "index_matches schema idx M I" and M: "M pk = Some row" and k: "index_key schema idx pk row = Some k"
  shows "index_matches schema idx (M(pk := None)) (I(k := None))"
proof -
  have i: "I k' = Some q \<longleftrightarrow> (\<exists>r. M q = Some r \<and> index_key schema idx q r = Some k')" for k' q
    using m by (simp add: index_matches_def)
  have "I k = Some pk" using i M k by blast
  then have "(I(k := None)) k' = Some q \<longleftrightarrow> (\<exists>r. (M(pk := None)) q = Some r \<and> index_key schema idx q r = Some k')" for k' q
    using i[of k' q] i[of k q] M k by (cases "q = pk"; cases "k' = k") auto
  then show ?thesis by (simp add: index_matches_def)
qed

lemma index_matches_update:
  assumes m: "index_matches schema idx M I" and M: "M old = Some row" "new = old \<or> M new = None"
    and k: "index_key schema idx old row = Some k0" "index_key schema idx new row' = Some k1" and I: "k1 = k0 \<or> I k1 = None"
  shows "index_matches schema idx (M(old := None, new \<mapsto> row')) (I(k0 := None, k1 \<mapsto> new))"
proof (rule index_matches_insert[OF index_matches_delete[OF m M(1) k(1)] _ k(2)])
  show "(M(old := None)) new = None" using M(2) by auto
  show "(I(k0 := None)) k1 = None" using I by auto
qed

text \<open>The uniqueness check, or the primary key inside the index key, keeps a new index key free.\<close>

lemma index_key_free:
  assumes m: "index_matches schema idx M I"
    and k: "encodeIndexKey schema row (idx_Columns idx) pk (idx_Unique idx) = Inr (k, n)"
    and no: "M pk = None \<or> (\<exists>r. M pk = Some r \<and> index_key schema idx pk r \<noteq> Some k)"
    and free: "idx_Unique idx \<and> \<not> n \<Longrightarrow> I k = None"
  shows "I k = None"
proof (cases "idx_Unique idx \<and> \<not> n")
  case False
  show ?thesis
  proof (rule ccontr)
    assume "I k \<noteq> None"
    then obtain q where "I k = Some q" by auto
    then obtain r where r: "M q = Some r" "index_key schema idx q r = Some k" using m by (auto simp: index_matches_def)
    then obtain b where "encodeIndexKey schema r (idx_Columns idx) q (idx_Unique idx) = Inr (k, b)"
      by (auto simp: index_key_def split: sum.splits)
    then have "pk = q" using encodeIndexKey_pk[OF k] False by blast
    then show False using no r by auto
  qed
qed (use free in blast)

section \<open>The invariant\<close>

definition indexes_ok :: "sqllib \<Rightarrow> tableState \<Rightarrow> entry list \<Rightarrow> (bytes \<Rightarrow> entry list) \<Rightarrow> bool" where
  "indexes_ok lib s es ies \<longleftrightarrow> distinct (map idx_Name (ts_indexes s)) \<and> (ts_indexes s \<noteq> [] \<longrightarrow> ts_idxEdits s \<noteq> None) \<and>
     (\<forall>idx \<in> set (ts_indexes s). index_content s (idx_Name idx) (ies (idx_Name idx)) \<and> indexable (ts_schema s) idx (table_view lib s es))"

definition rows_keyed :: "pkschema \<Rightarrow> (bytes \<rightharpoonup> row) \<Rightarrow> bool" where
  "rows_keyed schema M \<longleftrightarrow> (\<forall>pk row. M pk = Some row \<longrightarrow> encodeKey schema row = Inr pk)"

definition table_ok :: "sqllib \<Rightarrow> tableState \<Rightarrow> entry list \<Rightarrow> (bytes \<Rightarrow> entry list) \<Rightarrow> bool" where
  "table_ok lib s es ies \<longleftrightarrow> ts_ok lib s es \<and> indexes_ok lib s es ies \<and> indexes_match lib s es ies \<and>
     rows_keyed (ts_schema s) (table_view lib s es)"

text \<open>An index edit of one index leaves the rest of the state alone.\<close>

lemma ensureIndexEdits_done:
  "indexes_ok lib s es ies \<Longrightarrow> ensureIndexEdits lib s = Some (Inr (), s)"
  by (auto simp: indexes_ok_def ensureIndexEdits_def)

definition same_rows :: "tableState \<Rightarrow> tableState \<Rightarrow> bool" where
  "same_rows s s' \<longleftrightarrow> (\<exists>m. s' = s\<lparr>ts_idxEdits := m\<rparr> \<and> (m = None \<longleftrightarrow> ts_idxEdits s = None))"

lemma same_rows_refl [simp]: "same_rows s s"
  by (simp add: same_rows_def exI[of _ "ts_idxEdits s"])

lemma same_rows_trans: "same_rows s t \<Longrightarrow> same_rows t u \<Longrightarrow> same_rows s u"
  by (auto simp: same_rows_def)

lemma same_rows_frame:
  assumes "same_rows s s'"
  shows "ts_schema s' = ts_schema s" "ts_indexes s' = ts_indexes s" "ts_manifest s' = ts_manifest s" "ts_store s' = ts_store s"
    "table_view lib s' = table_view lib s" "ts_ok lib s' es = ts_ok lib s es" "index_content s' n ies = index_content s n ies"
    "ts_rows s' = ts_rows s" "ts_edits s' = ts_edits s" "ts_pending s' = ts_pending s" "lookupRow lib s' = lookupRow lib s"
    "(ts_idxEdits s' = None) = (ts_idxEdits s = None)"
  using assms by (auto simp: same_rows_def index_content_def fun_eq_iff lookupRow_def ts_edit_def cong: option.case_cong sum.case_cong)

lemma addIndexEdit_same:
  assumes "ts_idxEdits s \<noteq> None"
  shows "\<exists>s'. addIndexEdit name e s = Inr s' \<and> same_rows s s' \<and>
    (\<forall>n ies. index_view s' n ies = (if n = name then index_put e (index_view s n ies) else index_view s n ies))"
proof -
  obtain m where m: "addIndexEdit name e s = Inr (s\<lparr>ts_idxEdits := Some m\<rparr>)" using addIndexEdit_view[OF assms, of name e] by blast
  have "index_view (s\<lparr>ts_idxEdits := Some m\<rparr>) n ies = (if n = name then index_put e (index_view s n ies) else index_view s n ies)" for n ies
    using addIndexEdit_view[OF assms, of name e n ies] m by auto
  then show ?thesis using m assms by (auto simp: same_rows_def)
qed

section \<open>Insert\<close>

definition violates :: "pkschema \<Rightarrow> (bytes \<rightharpoonup> row) \<Rightarrow> bytes \<Rightarrow> row \<Rightarrow> indexDisk \<Rightarrow> bool" where
  "violates schema M key row idx \<longleftrightarrow> idx_Unique idx \<and>
     (\<exists>k pk r. encodeIndexKey schema row (idx_Columns idx) key True = Inr (k, False) \<and> M pk = Some r \<and>
        index_key schema idx pk r = Some k)"

definition indexes_of :: "pkschema \<Rightarrow> (bytes \<rightharpoonup> row) \<Rightarrow> tableState \<Rightarrow> (bytes \<Rightarrow> entry list) \<Rightarrow> indexDisk list \<Rightarrow> bool" where
  "indexes_of schema M s ies idxs \<longleftrightarrow>
     (\<forall>idx \<in> set idxs. index_matches schema idx M (index_view s (idx_Name idx) (ies (idx_Name idx))))"

lemma indexes_of_Cons [simp]:
  "indexes_of schema M s ies (idx # idxs) \<longleftrightarrow>
     index_matches schema idx M (index_view s (idx_Name idx) (ies (idx_Name idx))) \<and> indexes_of schema M s ies idxs"
  by (simp add: indexes_of_def)

lemma indexes_of_same:
  "(\<And>n. n \<in> idx_Name ` set idxs \<Longrightarrow> index_view s' n (ies n) = index_view s n (ies n)) \<Longrightarrow>
    indexes_of schema M s' ies idxs = indexes_of schema M s ies idxs"
  by (simp add: indexes_of_def)

text \<open>Edits of one index leave the others alone.\<close>

lemma indexes_of_rest:
  assumes "indexes_of schema M s ies (idx # idxs)" "distinct (map idx_Name (idx # idxs))"
    and "\<forall>n ies. index_view s1 n ies = (if n = idx_Name idx then f ies else index_view s n ies)"
  shows "indexes_of schema M s1 ies idxs"
proof -
  have "idx_Name idx \<notin> idx_Name ` set idxs" using assms(2) by simp
  then have "index_view s1 n (ies n) = index_view s n (ies n)" if "n \<in> idx_Name ` set idxs" for n
    using that assms(3) by (cases "n = idx_Name idx") auto
  then show ?thesis using assms(1) indexes_of_same[of idxs s1 ies s] by simp
qed

lemma violates_view:
  assumes "index_matches schema idx M I" "encodeIndexKey schema row (idx_Columns idx) key (idx_Unique idx) = Inr (k, n)"
  shows "violates schema M key row idx \<longleftrightarrow> idx_Unique idx \<and> \<not> n \<and> I k \<noteq> None"
proof (cases "idx_Unique idx")
  case True
  have "I k \<noteq> None \<longleftrightarrow> (\<exists>pk r. M pk = Some r \<and> index_key schema idx pk r = Some k)"
    using assms(1) by (auto simp: index_matches_def)
  then show ?thesis using True assms(2) by (auto simp: violates_def)
qed (simp add: violates_def)

lemma insert_indexes_spec:
  assumes "indexes_of (ts_schema s) M s ies idxs" "M key = None" "distinct (map idx_Name idxs)" "idxs \<noteq> [] \<longrightarrow> ts_idxEdits s \<noteq> None"
    and "\<forall>idx \<in> set idxs. index_content s (idx_Name idx) (ies (idx_Name idx)) \<and> index_key (ts_schema s) idx key row \<noteq> None"
  shows "\<exists>res s'. insert_indexes row key idxs s = Some (res, s') \<and> same_rows s s' \<and>
    (\<forall>n. n \<notin> idx_Name ` set idxs \<longrightarrow> index_view s' n (ies n) = index_view s n (ies n)) \<and>
    (if \<exists>idx \<in> set idxs. violates (ts_schema s) M key row idx then res = Inl (TableError UniqueKeyErr)
     else res = Inr () \<and> indexes_of (ts_schema s) (M(key \<mapsto> row)) s' ies idxs)"
  using assms
proof (induction idxs arbitrary: s)
  case Nil
  then show ?case by (auto simp: indexes_of_def)
next
  case (Cons idx idxs)
  let ?name = "idx_Name idx" and ?schema = "ts_schema s"
  let ?I = "index_view s ?name (ies ?name)"
  obtain k n where k: "encodeIndexKey ?schema row (idx_Columns idx) key (idx_Unique idx) = Inr (k, n)" "index_key ?schema idx key row = Some k"
    using Cons.prems(5) by (auto simp: index_key_def split: sum.splits)
  have m: "index_matches ?schema idx M ?I" using Cons.prems(1) by simp
  have look: "(if idx_Unique idx \<and> \<not> n then lookupIndexKey s ?name k else Some (Inr False)) = Some (Inr (violates ?schema M key row idx))"
    using lookupIndexKey_view[of s ?name "ies ?name" k] Cons.prems(5) violates_view[OF m k(1)] by auto
  show ?case
  proof (cases "violates ?schema M key row idx")
    case True
    then show ?thesis using k(1) look by (intro exI[of _ "Inl (TableError UniqueKeyErr)"] exI[of _ s]) simp
  next
    case ok: False
    obtain s1 where s1: "addIndexEdit ?name (put_entry k key) s = Inr s1" "same_rows s s1"
        "\<forall>n ies. index_view s1 n ies = (if n = ?name then index_put (put_entry k key) (index_view s ?name ies) else index_view s n ies)"
      using addIndexEdit_same[of s ?name "put_entry k key"] Cons.prems(4) by auto
    have run: "insert_indexes row key (idx # idxs) s = insert_indexes row key idxs s1" using k(1) look ok s1(1) by simp
    have fresh: "?name \<notin> idx_Name ` set idxs" using Cons.prems(3) by simp
    note f = same_rows_frame[OF s1(2)]
    have "indexes_of ?schema M s1 ies idxs" by (rule indexes_of_rest[OF Cons.prems(1,3) s1(3)])
    then obtain res s' where ih: "insert_indexes row key idxs s1 = Some (res, s')" "same_rows s1 s'"
        "\<forall>n. n \<notin> idx_Name ` set idxs \<longrightarrow> index_view s' n (ies n) = index_view s1 n (ies n)"
        "if \<exists>idx \<in> set idxs. violates ?schema M key row idx then res = Inl (TableError UniqueKeyErr)
         else res = Inr () \<and> indexes_of ?schema (M(key \<mapsto> row)) s' ies idxs"
      using Cons.IH[of s1, unfolded f(1,7,12)] Cons.prems by auto
    have "?I k = None"
      using index_key_free[OF m k(1)] Cons.prems(2) violates_view[OF m k(1)] ok by blast
    then have "index_matches ?schema idx (M(key \<mapsto> row)) (?I(k \<mapsto> key))"
      by (rule index_matches_insert[OF m Cons.prems(2) k(2)])
    then have "index_matches ?schema idx (M(key \<mapsto> row)) (index_view s' ?name (ies ?name))"
      using ih(3) fresh s1(3) by (simp add: index_put_def put_entry_def)
    then show ?thesis
      unfolding run using ih ok s1(3) same_rows_trans[OF s1(2) ih(2)] by (intro exI[of _ res] exI[of _ s']) auto
  qed
qed

section \<open>Delete and update\<close>

lemma delete_indexes_spec:
  assumes "indexes_of (ts_schema s) M s ies idxs" "M key = Some row" "distinct (map idx_Name idxs)" "idxs \<noteq> [] \<longrightarrow> ts_idxEdits s \<noteq> None"
    and "\<forall>idx \<in> set idxs. index_key (ts_schema s) idx key row \<noteq> None"
  shows "\<exists>s'. delete_indexes row key idxs s = (Inr (), s') \<and> same_rows s s' \<and>
    (\<forall>n. n \<notin> idx_Name ` set idxs \<longrightarrow> index_view s' n (ies n) = index_view s n (ies n)) \<and>
    indexes_of (ts_schema s) (M(key := None)) s' ies idxs"
  using assms
proof (induction idxs arbitrary: s)
  case Nil
  then show ?case by (auto simp: indexes_of_def)
next
  case (Cons idx idxs)
  let ?name = "idx_Name idx" and ?schema = "ts_schema s"
  obtain k n where k: "encodeIndexKey ?schema row (idx_Columns idx) key (idx_Unique idx) = Inr (k, n)" "index_key ?schema idx key row = Some k"
    using Cons.prems(5) by (auto simp: index_key_def split: sum.splits)
  obtain s1 where s1: "addIndexEdit ?name (del_entry k) s = Inr s1" "same_rows s s1"
      "\<forall>n ies. index_view s1 n ies = (if n = ?name then index_put (del_entry k) (index_view s ?name ies) else index_view s n ies)"
    using addIndexEdit_same[of s ?name "del_entry k"] Cons.prems(4) by auto
  note f = same_rows_frame[OF s1(2)]
  have rest: "indexes_of ?schema M s1 ies idxs" by (rule indexes_of_rest[OF Cons.prems(1,3) s1(3)])
  have p: "distinct (map idx_Name idxs)" "idxs \<noteq> [] \<longrightarrow> ts_idxEdits s \<noteq> None" "\<forall>idx \<in> set idxs. index_key ?schema idx key row \<noteq> None"
    using Cons.prems by auto
  obtain s' where ih: "delete_indexes row key idxs s1 = (Inr (), s')" "same_rows s1 s'"
      "\<forall>n. n \<notin> idx_Name ` set idxs \<longrightarrow> index_view s' n (ies n) = index_view s1 n (ies n)"
      "indexes_of ?schema (M(key := None)) s' ies idxs"
    using Cons.IH[of s1, unfolded f(1,12), OF rest Cons.prems(2) p] by blast
  have here: "index_matches ?schema idx (M(key := None)) (index_view s' ?name (ies ?name))"
    using index_matches_delete[of ?schema idx M "index_view s ?name (ies ?name)" key row k] Cons.prems(1-3) k(2) ih(3) s1(3)
    by (simp add: index_put_def del_entry_def)
  have "delete_indexes row key (idx # idxs) s = (Inr (), s')" using k(1) s1(1) ih(1) by simp
  moreover have "\<forall>n. n \<notin> idx_Name ` set (idx # idxs) \<longrightarrow> index_view s' n (ies n) = index_view s n (ies n)" using ih(3) s1(3) by auto
  moreover have "indexes_of ?schema (M(key := None)) s' ies (idx # idxs)" unfolding indexes_of_Cons using here ih(4) by blast
  ultimately show ?case using same_rows_trans[OF s1(2) ih(2)] by blast
qed

definition update_violates :: "pkschema \<Rightarrow> (bytes \<rightharpoonup> row) \<Rightarrow> bytes \<Rightarrow> row \<Rightarrow> bytes \<Rightarrow> row \<Rightarrow> indexDisk \<Rightarrow> bool" where
  "update_violates schema M old row new row' idx \<longleftrightarrow>
     index_key schema idx old row \<noteq> index_key schema idx new row' \<and> violates schema M new row' idx"

lemma update_index_step:
  assumes m: "index_matches schema idx M I" and M: "M old = Some row" "new = old \<or> M new = None"
    and k: "encodeIndexKey schema row (idx_Columns idx) old (idx_Unique idx) = Inr (k0, n0)"
      "encodeIndexKey schema row' (idx_Columns idx) new (idx_Unique idx) = Inr (k1, n1)"
    and ok: "\<not> update_violates schema M old row new row' idx"
  shows "index_matches schema idx (M(old := None, new \<mapsto> row')) (I(k0 := None, k1 \<mapsto> new))"
proof -
  have ik: "index_key schema idx old row = Some k0" "index_key schema idx new row' = Some k1" using k by (simp_all add: index_key_def)
  have "I k1 = None" if "k1 \<noteq> k0"
  proof (rule index_key_free[OF m k(2)])
    show "M new = None \<or> (\<exists>r. M new = Some r \<and> index_key schema idx new r \<noteq> Some k1)" using that M ik by auto
    show "I k1 = None" if "idx_Unique idx \<and> \<not> n1"
      using that \<open>k1 \<noteq> k0\<close> ok ik violates_view[OF m k(2)] by (simp add: update_violates_def)
  qed
  then show ?thesis using index_matches_update[OF m M ik] by blast
qed

lemma update_indexes_spec:
  assumes "indexes_of (ts_schema s) M s ies idxs" and M: "M old = Some row" "new = old \<or> M new = None"
    and "distinct (map idx_Name idxs)" "idxs \<noteq> [] \<longrightarrow> ts_idxEdits s \<noteq> None"
    and "\<forall>idx \<in> set idxs. index_content s (idx_Name idx) (ies (idx_Name idx)) \<and> index_key (ts_schema s) idx old row \<noteq> None \<and>
      index_key (ts_schema s) idx new row' \<noteq> None"
  shows "\<exists>res s'. update_indexes row row' old new idxs s = Some (res, s') \<and> same_rows s s' \<and>
    (\<forall>n. n \<notin> idx_Name ` set idxs \<longrightarrow> index_view s' n (ies n) = index_view s n (ies n)) \<and>
    (if \<exists>idx \<in> set idxs. update_violates (ts_schema s) M old row new row' idx then res = Inl (TableError UniqueKeyErr)
     else res = Inr () \<and> indexes_of (ts_schema s) (M(old := None, new \<mapsto> row')) s' ies idxs)"
  using assms(1,4-)
proof (induction idxs arbitrary: s)
  case Nil
  then show ?case by (auto simp: indexes_of_def)
next
  case (Cons idx idxs)
  let ?name = "idx_Name idx" and ?schema = "ts_schema s" and ?M' = "M(old := None, new \<mapsto> row')"
  let ?I = "index_view s ?name (ies ?name)"
  obtain k0 n0 k1 n1 where k: "encodeIndexKey ?schema row (idx_Columns idx) old (idx_Unique idx) = Inr (k0, n0)"
      "encodeIndexKey ?schema row' (idx_Columns idx) new (idx_Unique idx) = Inr (k1, n1)"
    using Cons.prems(4) by (auto simp: index_key_def split: sum.splits)
  then have ik: "index_key ?schema idx old row = Some k0" "index_key ?schema idx new row' = Some k1" by (simp_all add: index_key_def)
  have m: "index_matches ?schema idx M ?I" using Cons.prems(1) by simp
  have I0: "?I k0 = Some old" using m M(1) ik(1) by (auto simp: index_matches_def)
  have look: "(if idx_Unique idx \<and> \<not> n1 then lookupIndexKey s ?name k1 else Some (Inr False)) = Some (Inr (violates ?schema M new row' idx))"
    using lookupIndexKey_view[of s ?name "ies ?name" k1] Cons.prems(4) violates_view[OF m k(2)] by auto
  show ?case
  proof (cases "update_violates ?schema M old row new row' idx")
    case True
    then have "k0 \<noteq> k1" "violates ?schema M new row' idx" using ik by (auto simp: update_violates_def)
    then show ?thesis
      using k look True by (intro exI[of _ "Inl (TableError UniqueKeyErr)"] exI[of _ s]) simp
  next
    case ok: False
    have "\<exists>s1. same_rows s s1 \<and> update_indexes row row' old new (idx # idxs) s = update_indexes row row' old new idxs s1 \<and>
      (\<exists>f. (\<forall>n ies. index_view s1 n ies = (if n = ?name then f ies else index_view s n ies)) \<and> f (ies ?name) = ?I(k0 := None, k1 \<mapsto> new))"
    proof (cases "k0 = k1")
      case True
      show ?thesis
      proof (cases "old = new")
        case same: True
        have "?I = ?I(k0 := None, k1 \<mapsto> new)" using True same I0 by (auto simp: fun_eq_iff)
        then show ?thesis
          using True same k by (intro exI[of _ s] conjI exI[of _ "index_view s ?name"]) auto
      next
        case moved: False
        obtain s1 where s1: "addIndexEdit ?name (put_entry k1 new) s = Inr s1" "same_rows s s1"
            "\<forall>n ies. index_view s1 n ies = (if n = ?name then index_put (put_entry k1 new) (index_view s n ies) else index_view s n ies)"
          using addIndexEdit_same[of s ?name "put_entry k1 new"] Cons.prems(3) by auto
        show ?thesis
          using True moved k s1 by (intro exI[of _ s1] conjI exI[of _ "\<lambda>ies. index_put (put_entry k1 new) (index_view s ?name ies)"])
            (auto simp: index_put_def put_entry_def)
      qed
    next
      case False
      then have nv: "\<not> violates ?schema M new row' idx" using ok ik by (simp add: update_violates_def)
      obtain s1 where s1: "addIndexEdit ?name (del_entry k0) s = Inr s1" "same_rows s s1"
          "\<forall>n ies. index_view s1 n ies = (if n = ?name then index_put (del_entry k0) (index_view s n ies) else index_view s n ies)"
        using addIndexEdit_same[of s ?name "del_entry k0"] Cons.prems(3) by auto
      obtain s2 where s2: "addIndexEdit ?name (put_entry k1 new) s1 = Inr s2" "same_rows s1 s2"
          "\<forall>n ies. index_view s2 n ies = (if n = ?name then index_put (put_entry k1 new) (index_view s1 n ies) else index_view s1 n ies)"
        using addIndexEdit_same[of s1 ?name "put_entry k1 new"] Cons.prems(3) same_rows_frame(12)[OF s1(2)] by auto
      show ?thesis
        using False nv k look s1 s2 same_rows_trans[OF s1(2) s2(2)]
        by (intro exI[of _ s2] conjI exI[of _ "\<lambda>ies. index_put (put_entry k1 new) (index_put (del_entry k0) (index_view s ?name ies))"])
          (auto simp: index_put_def put_entry_def del_entry_def)
    qed
    then obtain s1 f where s1: "same_rows s s1" "update_indexes row row' old new (idx # idxs) s = update_indexes row row' old new idxs s1"
        "\<forall>n ies. index_view s1 n ies = (if n = ?name then f ies else index_view s n ies)" "f (ies ?name) = ?I(k0 := None, k1 \<mapsto> new)"
      by blast
    note fr = same_rows_frame[OF s1(1)]
    have "indexes_of ?schema M s1 ies idxs" by (rule indexes_of_rest[OF Cons.prems(1,2) s1(3)])
    then obtain res s' where ih: "update_indexes row row' old new idxs s1 = Some (res, s')" "same_rows s1 s'"
        "\<forall>n. n \<notin> idx_Name ` set idxs \<longrightarrow> index_view s' n (ies n) = index_view s1 n (ies n)"
        "if \<exists>idx \<in> set idxs. update_violates ?schema M old row new row' idx then res = Inl (TableError UniqueKeyErr)
         else res = Inr () \<and> indexes_of ?schema ?M' s' ies idxs"
      using Cons.IH[of s1, unfolded fr(1,7,12)] Cons.prems by auto
    have "index_matches ?schema idx ?M' (index_view s' ?name (ies ?name))"
      using update_index_step[OF m M k ok] ih(3) s1(3,4) Cons.prems(2) by simp
    then show ?thesis
      unfolding s1(2) using ih ok s1(3) same_rows_trans[OF s1(1) ih(2)] by (intro exI[of _ res] exI[of _ s']) auto
  qed
qed

section \<open>The operations refine the table\<close>

lemma index_view_frame [simp]:
  "index_view (s\<lparr>ts_dirty := d\<rparr>) n ies = index_view s n ies" "index_view (setEdit k ed s) n ies = index_view s n ies"
  "index_content (s\<lparr>ts_dirty := d\<rparr>) n ies = index_content s n ies" "index_content (setEdit k ed s) n ies = index_content s n ies"
  by (simp_all add: index_view_def index_content_def setEdit_def split: option.split)

lemma editor_frame [simp]:
  "e_state (mark_dirty e) = (e_state e)\<lparr>ts_dirty := True\<rparr>" "e_state (edit_state f e) = f (e_state e)"
  "e_state (remember k row p e) = e_state e" "e_idxInitErr (remember k row p e) = e_idxInitErr e"
  "e_idxInitErr (mark_dirty e) = e_idxInitErr e" "e_idxInitErr (edit_state f e) = e_idxInitErr e"
  by (simp_all add: mark_dirty_def edit_state_def remember_def split: option.split)

lemma setEdit_table_ok:
  assumes "ts_ok lib s es" "distinct (map idx_Name (ts_indexes s))" "ts_indexes s \<noteq> [] \<longrightarrow> ts_idxEdits s \<noteq> None"
    and "\<forall>idx \<in> set (ts_indexes s). index_content s (idx_Name idx) (ies (idx_Name idx)) \<and> indexable (ts_schema s) idx M'"
    and "table_view lib (setEdit k ed s) es = M'" "indexes_of (ts_schema s) M' s ies (ts_indexes s)" "rows_keyed (ts_schema s) M'"
  shows "table_ok lib ((setEdit k ed s)\<lparr>ts_dirty := True\<rparr>) es ies"
  using assms setEdit_ok[OF assms(1)]
  by (simp add: table_ok_def indexes_ok_def indexes_match_def indexes_of_def setEdit_frame)

lemma indexable_upd: "indexable schema idx M \<Longrightarrow> index_key schema idx k row \<noteq> None \<Longrightarrow> indexable schema idx (M(k \<mapsto> row))"
  "indexable schema idx M \<Longrightarrow> indexable schema idx (M(k := None))"
  by (auto simp: indexable_def)

lemma rows_keyed_upd: "rows_keyed schema M \<Longrightarrow> encodeKey schema row = Inr k \<Longrightarrow> rows_keyed schema (M(k \<mapsto> row))"
  "rows_keyed schema M \<Longrightarrow> rows_keyed schema (M(k := None))"
  by (auto simp: rows_keyed_def)

lemma table_okD:
  assumes "table_ok lib s es ies"
  shows "ts_ok lib s es" "distinct (map idx_Name (ts_indexes s))" "ts_indexes s \<noteq> [] \<longrightarrow> ts_idxEdits s \<noteq> None"
    "indexes_of (ts_schema s) (table_view lib s es) s ies (ts_indexes s)" "rows_keyed (ts_schema s) (table_view lib s es)"
    "\<forall>idx \<in> set (ts_indexes s). index_content s (idx_Name idx) (ies (idx_Name idx)) \<and> indexable (ts_schema s) idx (table_view lib s es)"
    "ensureIndexEdits lib s = Some (Inr (), s)"
  using assms ensureIndexEdits_done[of lib s es ies] by (auto simp: table_ok_def indexes_ok_def indexes_match_def indexes_of_def)

theorem editor_Insert_refines:
  assumes ok: "table_ok lib (e_state e) es ies" and init: "e_idxInitErr e = None" and key: "encodeKey (ts_schema (e_state e)) row = Inr key"
    and keys: "\<forall>idx \<in> set (ts_indexes (e_state e)). index_key (ts_schema (e_state e)) idx key row \<noteq> None"
  shows "\<exists>res e'. editor_Insert lib e row = Some (res, e') \<and>
    (if table_view lib (e_state e) es key \<noteq> None \<or>
        (\<exists>idx \<in> set (ts_indexes (e_state e)). violates (ts_schema (e_state e)) (table_view lib (e_state e) es) key row idx)
     then res = Inl (TableError UniqueKeyErr) \<and> table_view lib (e_state e') es = table_view lib (e_state e) es
     else res = Inr () \<and> table_ok lib (e_state e') es ies \<and>
       table_view lib (e_state e') es = (table_view lib (e_state e) es)(key \<mapsto> row))"
proof -
  let ?s = "e_state e"
  let ?M = "table_view lib ?s es"
  note t = table_okD[OF ok]
  have look: "lookupRow lib ?s key = Some (Inr (?M key))" by (rule lookupRow_view[OF t(1)])
  show ?thesis
  proof (cases "?M key")
    case (Some existing)
    then show ?thesis using init key look by (intro exI[of _ "Inl (TableError UniqueKeyErr)"] exI[of _ e]) (simp add: editor_Insert_def)
  next
    case None
    obtain res s' where s': "insert_indexes row key (ts_indexes ?s) ?s = Some (res, s')" "same_rows ?s s'"
        "if \<exists>idx \<in> set (ts_indexes ?s). violates (ts_schema ?s) ?M key row idx then res = Inl (TableError UniqueKeyErr)
         else res = Inr () \<and> indexes_of (ts_schema ?s) (?M(key \<mapsto> row)) s' ies (ts_indexes ?s)"
      using insert_indexes_spec[OF t(4) None t(2,3)] t(6) keys by blast
    note f = same_rows_frame[OF s'(2)]
    show ?thesis
    proof (cases "\<exists>idx \<in> set (ts_indexes ?s). violates (ts_schema ?s) ?M key row idx")
      case True
      then show ?thesis
        using init key look None t(7) s' f(5) by (intro exI[of _ res] exI[of _ "e\<lparr>e_state := s'\<rparr>"]) (simp add: editor_Insert_def)
    next
      case False
      let ?ed = "\<lparr>ed_row = row, ed_delete = False\<rparr>"
      let ?e' = "mark_dirty (edit_state (setEdit key ?ed) (remember key [] False (e\<lparr>e_state := s'\<rparr>)))"
      have run: "editor_Insert lib e row = Some (Inr (), ?e')" using init key look None t(7) s' False by (simp add: editor_Insert_def)
      have view: "table_view lib (setEdit key ?ed s') es = ?M(key \<mapsto> row)" by (simp add: table_view_setEdit f edit_result_def)
      have "table_ok lib ((setEdit key ?ed s')\<lparr>ts_dirty := True\<rparr>) es ies"
        using t keys key s'(3) False view
        by (intro setEdit_table_ok[where M' = "?M(key \<mapsto> row)"]) (auto simp: f intro: indexable_upd rows_keyed_upd)
      then show ?thesis
        using run view False None by (intro exI[of _ "Inr ()"] exI[of _ ?e']) simp
    qed
  qed
qed

theorem editor_Delete_refines:
  assumes ok: "table_ok lib (e_state e) es ies" and init: "e_idxInitErr e = None" and key: "encodeKey (ts_schema (e_state e)) row = Inr key"
  shows "\<exists>res e'. editor_Delete lib e row = Some (res, e') \<and>
    (if table_view lib (e_state e) es key = None
     then res = Inl (TableError DeleteRowNotFound) \<and> e' = e
     else res = Inr () \<and> table_ok lib (e_state e') es ies \<and>
       table_view lib (e_state e') es = (table_view lib (e_state e) es)(key := None))"
proof -
  let ?s = "e_state e"
  let ?M = "table_view lib ?s es"
  note t = table_okD[OF ok]
  have look: "lookupRow lib ?s key = Some (Inr (?M key))" by (rule lookupRow_view[OF t(1)])
  show ?thesis
  proof (cases "?M key")
    case None
    then show ?thesis
      using init key look by (intro exI[of _ "Inl (TableError DeleteRowNotFound)"] exI[of _ e]) (simp add: editor_Delete_def)
  next
    case (Some existing)
    have keys: "\<forall>idx \<in> set (ts_indexes ?s). index_key (ts_schema ?s) idx key existing \<noteq> None"
      using t(6) Some by (auto simp: indexable_def)
    obtain s' where s': "delete_indexes existing key (ts_indexes ?s) ?s = (Inr (), s')" "same_rows ?s s'"
        "indexes_of (ts_schema ?s) (?M(key := None)) s' ies (ts_indexes ?s)"
      using delete_indexes_spec[OF t(4) Some t(2,3) keys] by blast
    note f = same_rows_frame[OF s'(2)]
    let ?ed = "\<lparr>ed_row = [], ed_delete = True\<rparr>"
    let ?e' = "mark_dirty (edit_state (setEdit key ?ed) (remember key existing True (e\<lparr>e_state := s'\<rparr>)))"
    have run: "editor_Delete lib e row = Some (Inr (), ?e')" using init key look Some s'(1) by (simp add: editor_Delete_def)
    have view: "table_view lib (setEdit key ?ed s') es = ?M(key := None)" by (simp add: table_view_setEdit f edit_result_def)
    have "table_ok lib ((setEdit key ?ed s')\<lparr>ts_dirty := True\<rparr>) es ies"
    proof (rule setEdit_table_ok[OF _ _ _ _ view])
      show "rows_keyed (ts_schema s') (?M(key := None))" using t(5) rows_keyed_upd(2) by (simp only: f)
      show "indexes_of (ts_schema s') (?M(key := None)) s' ies (ts_indexes s')" using s'(3) by (simp only: f)
      show "\<forall>idx \<in> set (ts_indexes s'). index_content s' (idx_Name idx) (ies (idx_Name idx)) \<and> indexable (ts_schema s') idx (?M(key := None))"
        using t(6) indexable_upd(2) by (simp only: f) blast
    qed (use t in \<open>auto simp: f\<close>)
    then show ?thesis
      using run view Some by (intro exI[of _ "Inr ()"] exI[of _ ?e']) simp
  qed
qed

lemma update_rows_refines:
  assumes ok: "ts_ok lib (e_state e) es" and ix: "indexes_of (ts_schema (e_state e)) M (e_state e) ies (ts_indexes (e_state e))"
    and M: "M old = Some row" "new = old \<or> M new = None" "rows_keyed (ts_schema (e_state e)) M"
    and names: "distinct (map idx_Name (ts_indexes (e_state e)))" "ts_indexes (e_state e) \<noteq> [] \<longrightarrow> ts_idxEdits (e_state e) \<noteq> None"
    and keys: "\<forall>idx \<in> set (ts_indexes (e_state e)). index_content (e_state e) (idx_Name idx) (ies (idx_Name idx)) \<and>
      indexable (ts_schema (e_state e)) idx M \<and> index_key (ts_schema (e_state e)) idx new row' \<noteq> None"
    and new: "encodeKey (ts_schema (e_state e)) row' = Inr new" and view: "(table_view lib (e_state e) es)(new \<mapsto> row') = M(old := None, new \<mapsto> row')"
  shows "\<exists>res e'. update_rows row row' old new e = Some (res, e') \<and>
    (if \<exists>idx \<in> set (ts_indexes (e_state e)). update_violates (ts_schema (e_state e)) M old row new row' idx
     then res = Inl (TableError UniqueKeyErr)
     else res = Inr () \<and> table_ok lib (e_state e') es ies \<and> table_view lib (e_state e') es = M(old := None, new \<mapsto> row'))"
proof -
  let ?s = "e_state e" and ?M' = "M(old := None, new \<mapsto> row')"
  have k: "\<forall>idx \<in> set (ts_indexes ?s). index_content ?s (idx_Name idx) (ies (idx_Name idx)) \<and> index_key (ts_schema ?s) idx old row \<noteq> None \<and>
      index_key (ts_schema ?s) idx new row' \<noteq> None"
    using keys M(1) by (auto simp: indexable_def)
  obtain res s' where s': "update_indexes row row' old new (ts_indexes ?s) ?s = Some (res, s')" "same_rows ?s s'"
      "if \<exists>idx \<in> set (ts_indexes ?s). update_violates (ts_schema ?s) M old row new row' idx then res = Inl (TableError UniqueKeyErr)
       else res = Inr () \<and> indexes_of (ts_schema ?s) ?M' s' ies (ts_indexes ?s)"
    using update_indexes_spec[OF ix M(1,2) names k] by blast
  note f = same_rows_frame[OF s'(2)]
  show ?thesis
  proof (cases "\<exists>idx \<in> set (ts_indexes ?s). update_violates (ts_schema ?s) M old row new row' idx")
    case True
    then show ?thesis using s' by (intro exI[of _ res] exI[of _ "e\<lparr>e_state := s'\<rparr>"]) (simp add: update_rows_def)
  next
    case False
    let ?ed = "\<lparr>ed_row = row', ed_delete = False\<rparr>"
    let ?e' = "mark_dirty (edit_state (setEdit new ?ed) (e\<lparr>e_state := s'\<rparr>))"
    have run: "update_rows row row' old new e = Some (Inr (), ?e')" using s' False by (simp add: update_rows_def)
    have v: "table_view lib (setEdit new ?ed s') es = ?M'" using view by (simp add: table_view_setEdit f edit_result_def)
    have "table_ok lib ((setEdit new ?ed s')\<lparr>ts_dirty := True\<rparr>) es ies"
    proof (rule setEdit_table_ok[OF _ _ _ _ v])
      show "rows_keyed (ts_schema s') ?M'" using M(3) new rows_keyed_upd by (simp only: f)
      show "indexes_of (ts_schema s') ?M' s' ies (ts_indexes s')" using s'(3) False by (simp only: f) simp
      show "\<forall>idx \<in> set (ts_indexes s'). index_content s' (idx_Name idx) (ies (idx_Name idx)) \<and> indexable (ts_schema s') idx ?M'"
        using keys indexable_upd by (simp only: f) blast
    qed (use ok names in \<open>auto simp: f\<close>)
    then show ?thesis using run v False by (intro exI[of _ "Inr ()"] exI[of _ ?e']) simp
  qed
qed

theorem editor_Update_refines:
  assumes ok: "table_ok lib (e_state e) es ies" and init: "e_idxInitErr e = None"
    and old: "encodeKey (ts_schema (e_state e)) oldRow = Inr oldKey" and new: "encodeKey (ts_schema (e_state e)) newRow = Inr newKey"
    and keys: "\<forall>idx \<in> set (ts_indexes (e_state e)). index_key (ts_schema (e_state e)) idx newKey newRow \<noteq> None"
    and row: "table_view lib (e_state e) es oldKey = Some row" and changed: "oldRow \<noteq> newRow"
  shows "\<exists>res e'. editor_Update lib e oldRow newRow = Some (res, e') \<and>
    (if oldKey \<noteq> newKey \<and> table_view lib (e_state e) es newKey \<noteq> None \<or>
        (\<exists>idx \<in> set (ts_indexes (e_state e)). update_violates (ts_schema (e_state e)) (table_view lib (e_state e) es) oldKey row newKey newRow idx)
     then res = Inl (TableError UniqueKeyErr)
     else res = Inr () \<and> table_ok lib (e_state e') es ies \<and>
       table_view lib (e_state e') es = (table_view lib (e_state e) es)(oldKey := None, newKey \<mapsto> newRow))"
proof -
  let ?s = "e_state e"
  let ?M = "table_view lib ?s es"
  note t = table_okD[OF ok]
  have look: "lookupRow lib ?s k = Some (Inr (?M k))" for k by (rule lookupRow_view[OF t(1)])
  have run: "editor_Update lib e oldRow newRow = update_existing lib row newRow oldKey newKey e"
    using init t(7) old new changed look[of oldKey] row by (simp add: editor_Update_def Let_def)
  let ?e1 = "remember oldKey row True e"
  have k: "\<forall>idx \<in> set (ts_indexes ?s). index_content ?s (idx_Name idx) (ies (idx_Name idx)) \<and>
      indexable (ts_schema ?s) idx ?M \<and> index_key (ts_schema ?s) idx newKey newRow \<noteq> None" using t(6) keys by blast
  show ?thesis
  proof (cases "oldKey = newKey")
    case True
    then show ?thesis
      using run update_rows_refines[of lib ?e1 es ?M ies oldKey row newKey newRow] t row k new
      by (simp add: update_existing_def Let_def)
  next
    case False
    show ?thesis
    proof (cases "?M newKey")
      case (Some r)
      then show ?thesis using run False look[of newKey] by (simp add: update_existing_def Let_def)
    next
      case None
      let ?ed = "\<lparr>ed_row = [], ed_delete = True\<rparr>"
      let ?e2 = "edit_state (setEdit oldKey ?ed) (remember newKey [] False ?e1)"
      have e2: "e_state ?e2 = setEdit oldKey ?ed ?s" by simp
      have "update_existing lib row newRow oldKey newKey e = update_rows row newRow oldKey newKey ?e2"
        using False None look[of newKey] by (simp add: update_existing_def Let_def)
      moreover have "(table_view lib (e_state ?e2) es)(newKey \<mapsto> newRow) = ?M(oldKey := None, newKey \<mapsto> newRow)"
        by (simp add: table_view_setEdit edit_result_def)
      ultimately show ?thesis
        using run False None update_rows_refines[of lib ?e2 es ?M ies oldKey row newKey newRow] t row k new setEdit_ok[OF t(1)]
        unfolding e2 setEdit_frame index_view_frame indexes_of_def by simp
    qed
  qed
qed

end
