(* ===== verification/Editor_Undo.thy ===== *)
theory Editor_Undo
  imports Editor_Correct
begin

text \<open>
  Statement-level undo. After \<open>StatementBegin\<close>, whatever inserts, deletes and updates a statement runs
  and whether they succeed or fail half-way, \<open>DiscardChanges\<close> restores the rows, the transaction's edits
  and every index.
\<close>

inductive statement :: "sqllib \<Rightarrow> editor \<Rightarrow> editor \<Rightarrow> bool" for lib e0 where
  start: "statement lib e0 e0"
| insert: "statement lib e0 e \<Longrightarrow> editor_Insert lib e row = Some (res, e') \<Longrightarrow> statement lib e0 e'"
| delete: "statement lib e0 e \<Longrightarrow> editor_Delete lib e row = Some (res, e') \<Longrightarrow> statement lib e0 e'"
| update: "statement lib e0 e \<Longrightarrow> editor_Update lib e old new = Some (res, e') \<Longrightarrow> statement lib e0 e'"

section \<open>Index overlays only grow\<close>

definition idx_at :: "tableState \<Rightarrow> bytes \<rightharpoonup> indexOverlay" where
  "idx_at s n = Option.bind (ts_idxEdits s) (\<lambda>m. map_of m n)"

definition ov_extends :: "indexOverlay \<Rightarrow> indexOverlay \<Rightarrow> bool" where
  "ov_extends ov ov' \<longleftrightarrow> (\<exists>ext. ov' = ov\<lparr>ov_local := ov_local ov @ ext\<rparr>)"

definition extends :: "tableState \<Rightarrow> tableState \<Rightarrow> bool" where
  "extends s s' \<longleftrightarrow> same_rows s s' \<and> (\<forall>n ov. idx_at s n = Some ov \<longrightarrow> (\<exists>ov'. idx_at s' n = Some ov' \<and> ov_extends ov ov'))"

lemma ov_extends_refl [simp]: "ov_extends ov ov"
  by (simp add: ov_extends_def exI[of _ "[]"])

lemma ov_extends_trans: "ov_extends a b \<Longrightarrow> ov_extends b c \<Longrightarrow> ov_extends a c"
  by (auto simp: ov_extends_def)

lemma extends_refl [simp]: "extends s s"
  by (simp add: extends_def)

lemma extends_trans:
  assumes "extends s t" "extends t u"
  shows "extends s u"
  using assms ov_extends_trans unfolding extends_def by (meson same_rows_trans)

lemma addIndexEdit_extends:
  assumes "addIndexEdit name e s = Inr s'"
  shows "extends s s'"
proof -
  obtain m where m: "ts_idxEdits s = Some m"
    "s' = s\<lparr>ts_idxEdits := Some (AList.update name
       (ov_add (case map_of m name of None \<Rightarrow> \<lparr>ov_base = noRows, ov_local = []\<rparr> | Some ov \<Rightarrow> ov) e) m)\<rparr>"
    using assms by (auto simp: addIndexEdit_def Let_def split: option.splits)
  have "ov_extends ov (ov_add ov e)" for ov by (auto simp: ov_extends_def ov_add_def)
  then show ?thesis
    using m by (auto simp: extends_def same_rows_def idx_at_def update_conv')
qed

lemma step_extends:
  assumes "addIndexEdit name e s = Inr s1" "extends s1 s'"
  shows "extends s s'"
  using addIndexEdit_extends[OF assms(1)] assms(2) by (rule extends_trans)

lemma insert_indexes_extends: "insert_indexes row key idxs s = Some (res, s') \<Longrightarrow> extends s s'"
proof (induction idxs arbitrary: s)
  case (Cons idx idxs)
  show ?case
  proof (cases "encodeIndexKey (ts_schema s) row (idx_Columns idx) key (idx_Unique idx)")
    case (Inl err)
    then show ?thesis using Cons.prems by simp
  next
    case (Inr kn)
    obtain k n where kn: "kn = (k, n)" by fastforce
    obtain r where r: "(if idx_Unique idx \<and> \<not> n then lookupIndexKey s (idx_Name idx) k else Some (Inr False)) = Some r"
      using Cons.prems Inr kn by (cases "if idx_Unique idx \<and> \<not> n then lookupIndexKey s (idx_Name idx) k else Some (Inr False)") auto
    show ?thesis
      using Cons.prems Inr kn r Cons.IH step_extends[of "idx_Name idx" "put_entry k key" s]
      by (cases r; cases "addIndexEdit (idx_Name idx) (put_entry k key) s") (auto split: if_splits)
  qed
qed simp

lemma delete_indexes_extends: "delete_indexes row key idxs s = (res, s') \<Longrightarrow> extends s s'"
proof (induction idxs arbitrary: s)
  case (Cons idx idxs)
  show ?case
  proof (cases "encodeIndexKey (ts_schema s) row (idx_Columns idx) key (idx_Unique idx)")
    case (Inr kn)
    then show ?thesis
      using Cons.prems Cons.IH step_extends[of "idx_Name idx" "del_entry (fst kn)" s]
      by (cases "addIndexEdit (idx_Name idx) (del_entry (fst kn)) s") (auto simp: case_prod_unfold)
  qed (use Cons.prems in simp)
qed simp

lemma update_indexes_extends: "update_indexes row row' old new idxs s = Some (res, s') \<Longrightarrow> extends s s'"
proof (induction idxs arbitrary: s)
  case (Cons idx idxs)
  let ?enc = "\<lambda>row key. encodeIndexKey (ts_schema s) row (idx_Columns idx) key (idx_Unique idx)"
  let ?name = "idx_Name idx"
  show ?case
  proof (cases "?enc row old")
    case (Inr kn)
    obtain k0 n0 where k0: "?enc row old = Inr (k0, n0)" using Inr by (cases kn) auto
    show ?thesis
    proof (cases "?enc row' new")
      case (Inr ln)
      obtain k1 n1 where k1: "?enc row' new = Inr (k1, n1)" using Inr by (cases ln) auto
      note prems = Cons.prems[unfolded update_indexes.simps k0 k1, simplified]
      show ?thesis
      proof (cases "k0 = k1")
        case True
        then show ?thesis
          using prems Cons.IH[of s] Cons.IH step_extends[of ?name "put_entry k1 new" s]
          by (cases "old = new"; cases "addIndexEdit ?name (put_entry k1 new) s") auto
      next
        case False
        obtain r where r: "(if idx_Unique idx \<and> \<not> n1 then lookupIndexKey s ?name k1 else Some (Inr False)) = Some r"
          using prems False by (cases "if idx_Unique idx \<and> \<not> n1 then lookupIndexKey s ?name k1 else Some (Inr False)") auto
        have "extends s1 s'" if "addIndexEdit ?name (del_entry k0) s = Inr s1" "r = Inr False" for s1
          using prems False r that Cons.IH step_extends[of ?name "put_entry k1 new" s1]
          by (cases "addIndexEdit ?name (put_entry k1 new) s1") auto
        then show ?thesis
          using prems False r step_extends[of ?name "del_entry k0" s]
          by (cases r; cases "addIndexEdit ?name (del_entry k0) s") (auto split: if_splits)
      qed
    qed (use Cons.prems k0 in simp)
  qed (use Cons.prems in simp)
qed simp

section \<open>What the undo log remembers\<close>

definition row_at :: "tableState \<Rightarrow> bytes \<rightharpoonup> row" where
  "row_at s k = Option.bind (ts_rows s) (\<lambda>rows. map_of rows k)"

definition same_frame :: "tableState \<Rightarrow> tableState \<Rightarrow> bool" where
  "same_frame s0 s \<longleftrightarrow> ts_schema s = ts_schema s0 \<and> ts_indexes s = ts_indexes s0 \<and> ts_manifest s = ts_manifest s0 \<and>
     ts_store s = ts_store s0 \<and> ts_pending s = ts_pending s0 \<and> (ts_rows s = None \<longleftrightarrow> ts_rows s0 = None) \<and>
     (ts_idxEdits s = None \<longleftrightarrow> ts_idxEdits s0 = None)"

definition remembers :: "tableState \<Rightarrow> tableState \<Rightarrow> (bytes, beforeRow) gomap \<Rightarrow> bytes \<Rightarrow> bool" where
  "remembers s0 s b k \<longleftrightarrow>
     (case map_of b k of
        None \<Rightarrow> map_of (ts_edits s) k = map_of (ts_edits s0) k \<and> row_at s k = row_at s0 k
      | Some br \<Rightarrow> br_edit br = map_of (ts_edits s0) k \<and>
          (ts_rows s0 \<noteq> None \<longrightarrow> (if br_present br then Some (br_row br) else None) = row_at s0 k))"

definition undoable :: "editor \<Rightarrow> editor \<Rightarrow> bool" where
  "undoable e0 e \<longleftrightarrow> e_idxSnapshot e = e_idxSnapshot e0 \<and> e_idxInitErr e = None \<and> same_frame (e_state e0) (e_state e) \<and>
     (\<exists>b. e_before e = Some b \<and> distinct (map fst b) \<and> (\<forall>k. remembers (e_state e0) (e_state e) b k)) \<and>
     (\<forall>n ov. idx_at (e_state e0) n = Some ov \<longrightarrow> (\<exists>ov'. idx_at (e_state e) n = Some ov' \<and> ov_extends ov ov'))"

definition remembered :: "editor \<Rightarrow> bytes \<Rightarrow> bool" where
  "remembered e k \<longleftrightarrow> (\<exists>b. e_before e = Some b \<and> map_of b k \<noteq> None)"

lemma undoable_extends:
  assumes "undoable e0 e" "extends (e_state e) s'"
  shows "undoable e0 (e\<lparr>e_state := s'\<rparr>)"
proof -
  have f: "same_rows (e_state e) s'" using assms(2) by (simp add: extends_def)
  have "remembers (e_state e0) s' b k = remembers (e_state e0) (e_state e) b k" for b k
    by (simp add: remembers_def row_at_def same_rows_frame[OF f] split: option.split)
  moreover have "\<exists>ov'. idx_at s' n = Some ov' \<and> ov_extends ov ov'" if "idx_at (e_state e0) n = Some ov" for n ov
    using assms that ov_extends_trans unfolding undoable_def extends_def by meson
  ultimately show ?thesis
    using assms(1) by (auto simp: undoable_def same_frame_def same_rows_frame[OF f])
qed

lemma undoable_remember:
  assumes u: "undoable e0 e" and row: "ts_rows (e_state e) \<noteq> None \<longrightarrow> row_at (e_state e) k = (if p then Some row else None)"
  shows "undoable e0 (remember k row p e)" "remembered (remember k row p e) k"
proof -
  obtain b where b: "e_before e = Some b" "distinct (map fst b)" "\<forall>k. remembers (e_state e0) (e_state e) b k"
    using u by (auto simp: undoable_def)
  let ?br = "\<lparr>br_row = row, br_present = p, br_edit = map_of (ts_edits (e_state e)) k\<rparr>"
  show "remembered (remember k row p e) k" using b(1) by (auto simp: remembered_def remember_def update_conv')
  show "undoable e0 (remember k row p e)"
  proof (cases "map_of b k")
    case (Some br)
    then show ?thesis using u b(1) by (simp add: remember_def)
  next
    case None
    have "remembers (e_state e0) (e_state e) (AList.update k ?br b) k'" for k'
    proof (cases "k' = k")
      case True
      have "remembers (e_state e0) (e_state e) b k" using b(3) by simp
      moreover have "ts_rows (e_state e) \<noteq> None" if "ts_rows (e_state e0) \<noteq> None" using u that by (auto simp: undoable_def same_frame_def)
      ultimately show ?thesis using True None row by (auto simp: remembers_def update_conv')
    next
      case False
      then show ?thesis using b(3) by (simp add: remembers_def update_conv')
    qed
    then have "All (remembers (e_state e0) (e_state e) (AList.update k ?br b))" by blast
    then show ?thesis using u b None distinct_update[OF b(2), of k ?br] by (simp add: undoable_def remember_def)
  qed
qed

lemma remembered_mono: "remembered e k \<Longrightarrow> remembered (remember k' row p e) k"
  by (auto simp: remembered_def remember_def update_conv')

lemma remembered_frame [simp]:
  "remembered (e\<lparr>e_state := s\<rparr>) k = remembered e k" "remembered (edit_state f e) k = remembered e k" "remembered (mark_dirty e) k = remembered e k"
  by (simp_all add: remembered_def edit_state_def mark_dirty_def)

lemma undoable_setEdit:
  assumes u: "undoable e0 e" and k: "remembered e k"
  shows "undoable e0 (edit_state (setEdit k ed) e)"
proof -
  obtain b where b: "e_before e = Some b" "distinct (map fst b)" "\<forall>k. remembers (e_state e0) (e_state e) b k"
    using u by (auto simp: undoable_def)
  have "map_of b k \<noteq> None" using k b(1) by (simp add: remembered_def)
  have rows: "row_at (setEdit k ed (e_state e)) k' = row_at (e_state e) k'" if "k' \<noteq> k" for k'
    using that by (auto simp: row_at_def setEdit_def update_conv' delete_conv' split: Option.bind_splits)
  have "remembers (e_state e0) (setEdit k ed (e_state e)) b k'" for k'
  proof (cases "k' = k")
    case True
    then show ?thesis using b(3) \<open>map_of b k \<noteq> None\<close> by (auto simp: remembers_def split: option.splits dest: spec[of _ k])
  next
    case False
    then show ?thesis using b(3) rows[OF False] by (simp add: remembers_def setEdit_def update_conv' cong: option.case_cong)
  qed
  then have "All (remembers (e_state e0) (setEdit k ed (e_state e)) b)" by blast
  moreover have "idx_at (setEdit k ed (e_state e)) = idx_at (e_state e)" by (simp add: fun_eq_iff idx_at_def setEdit_frame)
  moreover have "same_frame (e_state e0) (setEdit k ed (e_state e))"
    using u by (simp add: undoable_def same_frame_def setEdit_frame) (simp add: setEdit_def)
  ultimately show ?thesis using u b by (simp add: undoable_def edit_state_def)
qed

lemma undoable_dirty: "undoable e0 e \<Longrightarrow> undoable e0 (mark_dirty e)"
  by (simp add: undoable_def mark_dirty_def same_frame_def remembers_def row_at_def idx_at_def cong: option.case_cong)

lemma undoable_lookup:
  assumes "lookupRow lib s k = Some (Inr r)" "ts_rows s \<noteq> None"
  shows "row_at s k = r"
  using assms by (auto simp: lookupRow_def row_at_def)

section \<open>Every operation of a statement is undoable\<close>

lemma undoable_ensure:
  assumes "undoable e0 e" "ts_indexes (e_state e0) \<noteq> [] \<longrightarrow> ts_idxEdits (e_state e0) \<noteq> None"
  shows "ensureIndexEdits lib (e_state e) = Some (Inr (), e_state e)"
  using assms by (auto simp: undoable_def same_frame_def ensureIndexEdits_def)

lemma undoable_Insert:
  assumes u: "undoable e0 e" and ix: "ts_indexes (e_state e0) \<noteq> [] \<longrightarrow> ts_idxEdits (e_state e0) \<noteq> None"
    and ins: "editor_Insert lib e row = Some (res, e')"
  shows "undoable e0 e'"
proof -
  let ?s = "e_state e"
  have init: "e_idxInitErr e = None" using u by (simp add: undoable_def)
  consider "e' = e" | key s r where "lookupRow lib ?s key = Some (Inr None)"
      "insert_indexes row key (ts_indexes ?s) ?s = Some (r, s)"
      "e' = e\<lparr>e_state := s\<rparr> \<or> e' = mark_dirty (edit_state (setEdit key \<lparr>ed_row = row, ed_delete = False\<rparr>)
         (remember key [] False (e\<lparr>e_state := s\<rparr>)))"
    using ins init undoable_ensure[OF u ix, of lib]
    by (auto simp: editor_Insert_def split: sum.split_asm option.split_asm Option.bind_split_asm)
  then show ?thesis
  proof cases
    case (2 key s r)
    have ext: "extends ?s s" by (rule insert_indexes_extends[OF 2(2)])
    have u1: "undoable e0 (e\<lparr>e_state := s\<rparr>)" by (rule undoable_extends[OF u ext])
    have "same_rows ?s s" using ext by (simp add: extends_def)
    then have "ts_rows s \<noteq> None \<longrightarrow> row_at s key = None"
      using undoable_lookup[OF 2(1)] by (simp add: same_rows_frame row_at_def)
    then show ?thesis
      using 2(3) u1 undoable_remember[OF u1, of key False "[]"] undoable_setEdit undoable_dirty by auto
  qed (use u in simp)
qed

lemma undoable_Delete:
  assumes u: "undoable e0 e" and del: "editor_Delete lib e row = Some (res, e')"
  shows "undoable e0 e'"
proof -
  let ?s = "e_state e"
  have init: "e_idxInitErr e = None" using u by (simp add: undoable_def)
  consider "e' = e" | key existing s r where "lookupRow lib ?s key = Some (Inr (Some existing))"
      "delete_indexes existing key (ts_indexes ?s) ?s = (r, s)"
      "e' = e\<lparr>e_state := s\<rparr> \<or> e' = mark_dirty (edit_state (setEdit key \<lparr>ed_row = [], ed_delete = True\<rparr>)
         (remember key existing True (e\<lparr>e_state := s\<rparr>)))"
    using del init by (auto simp: editor_Delete_def split: sum.split_asm option.split_asm Option.bind_split_asm prod.split_asm)
  then show ?thesis
  proof cases
    case (2 key existing s r)
    have ext: "extends ?s s" by (rule delete_indexes_extends[OF 2(2)])
    have u1: "undoable e0 (e\<lparr>e_state := s\<rparr>)" by (rule undoable_extends[OF u ext])
    have "same_rows ?s s" using ext by (simp add: extends_def)
    then have "ts_rows s \<noteq> None \<longrightarrow> row_at s key = Some existing"
      using undoable_lookup[OF 2(1)] by (simp add: same_rows_frame row_at_def)
    then show ?thesis
      using 2(3) u1 undoable_remember[OF u1, of key True existing] undoable_setEdit undoable_dirty by auto
  qed (use u in simp)
qed

lemma undoable_update_rows:
  assumes "undoable e0 e" "remembered e newKey" "update_rows existing newRow oldKey newKey e = Some (res, e')"
  shows "undoable e0 e'"
proof -
  obtain r s where s: "update_indexes existing newRow oldKey newKey (ts_indexes (e_state e)) (e_state e) = Some (r, s)"
      "e' = e\<lparr>e_state := s\<rparr> \<or> e' = mark_dirty (edit_state (setEdit newKey \<lparr>ed_row = newRow, ed_delete = False\<rparr>) (e\<lparr>e_state := s\<rparr>))"
    using assms(3) by (auto simp: update_rows_def split: sum.split_asm Option.bind_split_asm)
  have u1: "undoable e0 (e\<lparr>e_state := s\<rparr>)" by (rule undoable_extends[OF assms(1) update_indexes_extends[OF s(1)]])
  show ?thesis using s(2) u1 assms(2) undoable_setEdit[OF u1] undoable_dirty by auto
qed

lemma undoable_Update:
  assumes u: "undoable e0 e" and ix: "ts_indexes (e_state e0) \<noteq> [] \<longrightarrow> ts_idxEdits (e_state e0) \<noteq> None"
    and upd: "editor_Update lib e oldRow newRow = Some (res, e')"
  shows "undoable e0 e'"
proof -
  let ?s = "e_state e"
  have init: "e_idxInitErr e = None" using u by (simp add: undoable_def)
  consider "e' = e" | oldKey newKey existing where "lookupRow lib ?s oldKey = Some (Inr (Some existing))"
      "update_existing lib existing newRow oldKey newKey e = Some (res, e')"
    using upd init undoable_ensure[OF u ix, of lib]
    by (auto simp: editor_Update_def Let_def split: sum.split_asm option.split_asm if_split_asm Option.bind_split_asm)
  then show ?thesis
  proof cases
    case (2 oldKey newKey existing)
    let ?e1 = "remember oldKey existing True e"
    have u1: "undoable e0 ?e1" "remembered ?e1 oldKey"
      using undoable_remember[OF u, of oldKey True existing] undoable_lookup[OF 2(1)] by auto
    show ?thesis
    proof (cases "oldKey = newKey")
      case True
      then show ?thesis using 2(2) undoable_update_rows[OF u1(1)] u1(2) by (simp add: update_existing_def Let_def)
    next
      case False
      let ?e2 = "remember newKey [] False ?e1"
      let ?e3 = "edit_state (setEdit oldKey \<lparr>ed_row = [], ed_delete = True\<rparr>) ?e2"
      consider "e' = ?e1" | "lookupRow lib ?s newKey = Some (Inr None)" "update_rows existing newRow oldKey newKey ?e3 = Some (res, e')"
        using 2(2) False by (auto simp: update_existing_def Let_def split: sum.split_asm option.split_asm Option.bind_split_asm)
      then show ?thesis
      proof cases
        case 2
        have u2: "undoable e0 ?e2" "remembered ?e2 newKey"
          using undoable_remember[OF u1(1), of newKey False "[]"] undoable_lookup[OF 2(1)] by auto
        have "undoable e0 ?e3" using undoable_setEdit[OF u2(1)] remembered_mono[OF u1(2)] by blast
        then show ?thesis using undoable_update_rows[OF _ _ 2(2)] u2(2) by simp
      qed (use u1 in simp)
    qed
  qed (use u in simp)
qed

section \<open>Discarding the changes\<close>

lemma restore_row_frame:
  "ts_schema (restore_row x s) = ts_schema s" "ts_indexes (restore_row x s) = ts_indexes s"
  "ts_manifest (restore_row x s) = ts_manifest s" "ts_store (restore_row x s) = ts_store s"
  "ts_pending (restore_row x s) = ts_pending s" "ts_idxEdits (restore_row x s) = ts_idxEdits s"
  "(ts_rows (restore_row x s) = None) = (ts_rows s = None)"
  by (simp_all add: restore_row_def case_prod_unfold)

lemma fold_restore_frame:
  "ts_schema (fold restore_row b s) = ts_schema s" "ts_indexes (fold restore_row b s) = ts_indexes s"
  "ts_manifest (fold restore_row b s) = ts_manifest s" "ts_store (fold restore_row b s) = ts_store s"
  "ts_pending (fold restore_row b s) = ts_pending s" "ts_idxEdits (fold restore_row b s) = ts_idxEdits s"
  "(ts_rows (fold restore_row b s) = None) = (ts_rows s = None)"
  by (induction b arbitrary: s) (simp_all add: restore_row_frame)

lemma restore_row_at:
  "map_of (ts_edits (restore_row (k, br) s)) = (map_of (ts_edits s))(k := br_edit br)"
  "ts_rows s \<noteq> None \<Longrightarrow> row_at (restore_row (k, br) s) = (row_at s)(k := if br_present br then Some (br_row br) else None)"
proof -
  show "map_of (ts_edits (restore_row (k, br) s)) = (map_of (ts_edits s))(k := br_edit br)"
    by (cases "br_edit br") (simp_all add: restore_row_def update_conv' delete_conv')
  show "row_at (restore_row (k, br) s) = (row_at s)(k := if br_present br then Some (br_row br) else None)" if "ts_rows s \<noteq> None"
    using that by (cases "br_present br") (auto simp: restore_row_def row_at_def fun_eq_iff update_conv' delete_conv')
qed

lemma fold_restore_edits:
  "distinct (map fst b) \<Longrightarrow> map_of (ts_edits (fold restore_row b s)) k =
     (case map_of b k of None \<Rightarrow> map_of (ts_edits s) k | Some br \<Rightarrow> br_edit br)"
proof (induction b arbitrary: s)
  case (Cons x b)
  obtain k' br where x: "x = (k', br)" by fastforce
  have "map_of b k' = None" using Cons.prems x by (simp add: map_of_eq_None_iff)
  then show ?case using Cons x by (auto simp: restore_row_at split: option.split)
qed simp

lemma fold_restore_rows:
  "distinct (map fst b) \<Longrightarrow> ts_rows s \<noteq> None \<Longrightarrow> row_at (fold restore_row b s) k =
     (case map_of b k of None \<Rightarrow> row_at s k | Some br \<Rightarrow> if br_present br then Some (br_row br) else None)"
proof (induction b arbitrary: s)
  case (Cons x b)
  obtain k' br where x: "x = (k', br)" by fastforce
  have "map_of b k' = None" using Cons.prems x by (simp add: map_of_eq_None_iff)
  moreover have "ts_rows (restore_row x s) \<noteq> None" using Cons.prems(2) by (simp add: restore_row_def x)
  ultimately show ?case using Cons x by (auto simp: restore_row_at split: option.split)
qed simp

lemma map_of_restore_index:
  "map_of (restore_index snap m) n =
     Option.bind (map_of m n) (\<lambda>ov. map_option (\<lambda>l. ov\<lparr>ov_local := take l (ov_local ov)\<rparr>) (map_of snap n))"
proof (induction m)
  case (Cons x m)
  obtain name ov where x: "x = (name, ov)" by fastforce
  have "n \<notin> fst ` set (restore_index snap m)" if "map_of snap n = None"
    using that by (auto simp: restore_index_def split: option.splits)
  then have "map_of (restore_index snap m) n = None" if "map_of snap n = None" using that by (simp add: map_of_eq_None_iff)
  then show ?case using Cons x by (auto simp: restore_index_def split: option.split)
qed (simp add: restore_index_def)

lemma idx_lengths_at: "map_of (idx_lengths s) n = map_option (\<lambda>ov. length (ov_local ov)) (idx_at s n)"
proof (cases "ts_idxEdits s")
  case (Some m)
  have "map_of (map (\<lambda>(name, ov). (name, length (ov_local ov))) m) n = map_option (\<lambda>ov. length (ov_local ov)) (map_of m n)"
    by (induction m) auto
  then show ?thesis using Some by (simp add: idx_lengths_def idx_at_def)
qed (simp add: idx_lengths_def idx_at_def)

text \<open>Two states that differ only in the order of their maps and in \<open>dirty\<close>.\<close>

definition same_table :: "tableState \<Rightarrow> tableState \<Rightarrow> bool" where
  "same_table s s' \<longleftrightarrow> same_frame s s' \<and> map_of (ts_edits s') = map_of (ts_edits s) \<and> row_at s' = row_at s \<and> idx_at s' = idx_at s"

lemma same_table_refl [simp]: "same_table s s"
  by (simp add: same_table_def same_frame_def)

lemma same_table_views:
  assumes "same_table s s'"
  shows "table_view lib s' es = table_view lib s es" "index_view s' n ies = index_view s n ies"
proof -
  have "pending_edit lib s' = pending_edit lib s"
    using assms by (simp add: same_table_def same_frame_def fun_eq_iff pending_edit_def decodePending_def)
  then have "overlay_edit lib s' = overlay_edit lib s"
    using assms by (simp add: same_table_def same_frame_def overlay_edit_def)
  then show "table_view lib s' es = table_view lib s es"
    using assms by (simp add: same_table_def same_frame_def fun_eq_iff table_view_def split: option.split)
  have "idx_at s' n = idx_at s n" using assms by (simp add: same_table_def)
  then show "index_view s' n ies = index_view s n ies" by (simp add: index_view_def idx_at_def)
qed

lemma same_table_maps:
  assumes "same_table s s'"
  shows "map_option map_of (ts_rows s') = map_option map_of (ts_rows s)"
    and "map_option map_of (ts_idxEdits s') = map_option map_of (ts_idxEdits s)"
  using assms
  by (cases "ts_rows s"; cases "ts_rows s'"; cases "ts_idxEdits s"; cases "ts_idxEdits s'";
      simp add: same_table_def same_frame_def row_at_def idx_at_def fun_eq_iff)+

lemma same_table_reads:
  assumes "same_table s s'"
  shows "lookupRow lib s' k = lookupRow lib s k" "lookupIndexKey s' n k = lookupIndexKey s n k"
proof -
  have f: "ts_schema s' = ts_schema s" "ts_pending s' = ts_pending s" "ts_manifest s' = ts_manifest s" "ts_store s' = ts_store s"
      "map_of (ts_edits s') = map_of (ts_edits s)"
    using assms by (simp_all add: same_table_def same_frame_def)
  have edit: "ts_edit lib s' k = ts_edit lib s k" unfolding ts_edit_def decodePending_def f ..
  show "lookupRow lib s' k = lookupRow lib s k"
    using same_table_maps(1)[OF assms] unfolding lookupRow_def edit f by (cases "ts_rows s"; cases "ts_rows s'") simp_all
  have "idx_at s' n = idx_at s n" using assms by (simp add: same_table_def)
  then show "lookupIndexKey s' n k = lookupIndexKey s n k"
    unfolding lookupIndexKey_def idx_at_def f by simp
qed

lemma undoable_discard:
  assumes u: "undoable e0 e" and snap: "e_idxSnapshot e0 = Some (idx_lengths (e_state e0))"
  shows "same_table (e_state e0) (e_state (DiscardChanges e))"
proof -
  let ?old = "e_state e0" and ?s = "e_state e"
  obtain b where b: "e_before e = Some b" "distinct (map fst b)" "\<forall>k. remembers ?old ?s b k" using u by (auto simp: undoable_def)
  have fr: "same_frame ?old ?s" using u by (simp add: undoable_def)
  let ?t = "fold restore_row b ?s"
  have state: "e_state (DiscardChanges e) = ?t\<lparr>ts_idxEdits := map_option (restore_index (idx_lengths ?old)) (ts_idxEdits ?s)\<rparr>"
    using b(1) u snap fold_restore_frame[of b ?s] by (simp add: DiscardChanges_def undoable_def Let_def)
  have edits: "map_of (ts_edits ?t) k = map_of (ts_edits ?old) k" for k
    using b(3) fold_restore_edits[OF b(2), of ?s k] by (auto simp: remembers_def split: option.splits dest: spec[of _ k])
  have rows: "row_at ?t k = row_at ?old k" for k
  proof (cases "ts_rows ?old")
    case None
    then show ?thesis using fr fold_restore_frame[of b ?s] by (simp add: same_frame_def row_at_def)
  next
    case (Some r)
    then have "ts_rows ?s \<noteq> None" using fr by (auto simp: same_frame_def)
    then show ?thesis
      using Some b(3) fold_restore_rows[OF b(2), of ?s k] by (auto simp: remembers_def split: option.splits dest: spec[of _ k])
  qed
  have idx: "idx_at (?t\<lparr>ts_idxEdits := map_option (restore_index (idx_lengths ?old)) (ts_idxEdits ?s)\<rparr>) n = idx_at ?old n" for n
  proof -
    have at: "idx_at (?t\<lparr>ts_idxEdits := map_option (restore_index (idx_lengths ?old)) (ts_idxEdits ?s)\<rparr>) n =
        Option.bind (idx_at ?s n) (\<lambda>ov. map_option (\<lambda>l. ov\<lparr>ov_local := take l (ov_local ov)\<rparr>) (map_option (\<lambda>ov. length (ov_local ov)) (idx_at ?old n)))"
      by (cases "ts_idxEdits ?s") (simp_all add: idx_at_def map_of_restore_index idx_lengths_at[unfolded idx_at_def])
    show ?thesis
    proof (cases "idx_at ?old n")
      case None
      then show ?thesis unfolding at by (cases "idx_at ?s n") simp_all
    next
      case (Some ov)
      then obtain ext where "idx_at ?s n = Some (ov\<lparr>ov_local := ov_local ov @ ext\<rparr>)"
        using u unfolding undoable_def ov_extends_def by blast
      then show ?thesis unfolding at using Some by simp
    qed
  qed
  have "row_at (?t\<lparr>ts_idxEdits := x\<rparr>) = row_at ?t" for x by (simp add: fun_eq_iff row_at_def)
  then show ?thesis
    using edits rows idx fr fold_restore_frame[of b ?s] unfolding state by (simp add: same_table_def same_frame_def fun_eq_iff)
qed

lemma ensureIndexEdits_builds:
  assumes "ensureIndexEdits lib s = Some (Inr u, s')" "ts_indexes s' \<noteq> []"
  shows "ts_idxEdits s' \<noteq> None"
  using assms
  by (auto simp: ensureIndexEdits_def Let_def split: if_split_asm Option.bind_split_asm sum.split_asm prod.split_asm)

theorem statement_undo:
  assumes begin': "StatementBegin lib e = Some e0" and run: "statement lib e0 e1"
  shows "same_table (e_state e0) (e_state (DiscardChanges e1))"
proof (cases "e_idxInitErr e0")
  case (Some err)
  have "e1 = e0" using run Some
    by (induction rule: statement.induct) (auto simp: editor_Insert_def editor_Delete_def editor_Update_def)
  moreover have "e_before e0 = Some []" "e_idxSnapshot e0 = None"
    using begin' Some by (auto simp: StatementBegin_def Let_def split: Option.bind_split_asm sum.split_asm if_split_asm)
  ultimately show ?thesis by (simp add: DiscardChanges_def)
next
  case None
  have e0: "e_before e0 = Some []" "e_idxSnapshot e0 = Some (idx_lengths (e_state e0))"
      "ts_indexes (e_state e0) \<noteq> [] \<longrightarrow> ts_idxEdits (e_state e0) \<noteq> None"
    using begin' None ensureIndexEdits_builds[of lib "e_state e"]
    by (auto simp: StatementBegin_def Let_def split: Option.bind_split_asm sum.split_asm if_split_asm)
  have "undoable e0 e0" using None e0(1) by (simp add: undoable_def same_frame_def remembers_def)
  with run have "undoable e0 e1"
    by (induction rule: statement.induct) (use e0(3) undoable_Insert undoable_Delete undoable_Update in blast)+
  then show ?thesis by (rule undoable_discard[OF _ e0(2)])
qed

end
