(* ===== verification/Key_Ranges.thy ===== *)
theory Key_Ranges
  imports Key_Order
begin

text \<open>
  SQL ranges as intervals of encoded keys (\<open>engine/ranges.go\<close>). A \<open>nil\<close> interval end is \<^const>\<open>None\<close>;
  a nil start is the empty key. \<open>conv\<close> stands for \<open>sql.Type.Convert\<close>. A cut of a range column is the
  Go type behind the interface \<open>sql.MySQLRangeCut\<close>.
\<close>

section \<open>Definitions\<close>

record keyInterval =
  iv_start :: bytes
  iv_end :: "bytes option"

definition iv_empty :: "keyInterval \<Rightarrow> bool" where
  "iv_empty iv \<longleftrightarrow> (case iv_end iv of None \<Rightarrow> False | Some e \<Rightarrow> iv_start iv \<ge> e)"

definition iv_contains :: "keyInterval \<Rightarrow> bytes \<Rightarrow> bool" where
  "iv_contains iv key \<longleftrightarrow> key \<ge> iv_start iv \<and> (case iv_end iv of None \<Rightarrow> True | Some e \<Rightarrow> key < e)"

definition scanOrder :: "keyInterval list \<Rightarrow> bool \<Rightarrow> keyInterval list" where
  "scanOrder intervals reverse = (if \<not> reverse then intervals else rev intervals)"

definition before :: "bytes \<Rightarrow> bytes \<Rightarrow> bool \<Rightarrow> bool" where
  "before a b reverse \<longleftrightarrow> (if reverse then a > b else a < b)"

datatype cut = Below val | Above val | BelowNull | AboveNull | AboveAll | OtherCut

record rangeColumn =
  lowerBound :: cut
  upperBound :: cut

definition isUnboundedLower :: "cut \<Rightarrow> bool" where
  "isUnboundedLower c \<longleftrightarrow> c = BelowNull"

definition isAllColumn :: "rangeColumn \<Rightarrow> bool \<Rightarrow> bool" where
  "isAllColumn col nullable \<longleftrightarrow>
     upperBound col = AboveAll \<and>
     (isUnboundedLower (lowerBound col) \<or> (lowerBound col = AboveNull \<and> \<not> nullable))"

definition isPointColumn :: "rangeColumn \<Rightarrow> bool" where
  "isPointColumn col \<longleftrightarrow>
     (case lowerBound col of
        BelowNull \<Rightarrow> upperBound col = AboveNull
      | Below k \<Rightarrow> upperBound col = Above k
      | _ \<Rightarrow> False)"

fun shape_loop :: "rangeColumn list \<Rightarrow> bool \<Rightarrow> bool \<Rightarrow> bool" where
  "shape_loop [] nullable ranged \<longleftrightarrow> True"
| "shape_loop (col # r) nullable ranged \<longleftrightarrow>
     (if isAllColumn col nullable then shape_loop r nullable True
      else if ranged then False
      else if isPointColumn col then shape_loop r nullable ranged
      else shape_loop r nullable True)"

definition rangeShapeSupported :: "rangeColumn list \<Rightarrow> bool \<Rightarrow> bool" where
  "rangeShapeSupported r nullable = shape_loop r nullable False"

type_synonym converter = "coltype \<Rightarrow> val \<Rightarrow> error + val"

definition appendBoundValue :: "converter \<Rightarrow> bytes \<Rightarrow> coltype \<Rightarrow> bool \<Rightarrow> val \<Rightarrow> error + bytes" where
  "appendBoundValue conv prfx ty nullable key =
     (case conv ty key of
        Inl e \<Rightarrow> Inl e
      | Inr value \<Rightarrow> appendKeyColumn (if nullable then prfx @ [0x01] else prfx) ty value)"

definition nullMarker :: "bytes \<Rightarrow> bool \<Rightarrow> byte \<Rightarrow> bytes" where
  "nullMarker prfx nullable marker = (if nullable then prfx @ [marker] else prfx)"

text \<open>\<open>append([]byte(nil), prefix...)\<close> of an empty prefix is nil.\<close>

definition nil_if_empty :: "bytes \<Rightarrow> bytes option" where
  "nil_if_empty b = (if b = [] then None else Some b)"

definition exclusiveStart :: "bytes \<Rightarrow> bytes \<times> bool" where
  "exclusiveStart prfx = (case keyPrefixEnd prfx of None \<Rightarrow> ([], True) | Some s \<Rightarrow> (s, False))"

fun lowerCutKey :: "converter \<Rightarrow> bytes \<Rightarrow> coltype \<Rightarrow> bool \<Rightarrow> cut \<Rightarrow> error + (bytes \<times> bool)" where
  "lowerCutKey conv prfx ty nullable BelowNull = Inr (nullMarker prfx nullable 0x00, False)"
| "lowerCutKey conv prfx ty nullable AboveNull = Inr (nullMarker prfx nullable 0x01, False)"
| "lowerCutKey conv prfx ty nullable (Below key) =
     map_sum id (\<lambda>start. (start, False)) (appendBoundValue conv prfx ty nullable key)"
| "lowerCutKey conv prfx ty nullable (Above key) =
     map_sum id exclusiveStart (appendBoundValue conv prfx ty nullable key)"
| "lowerCutKey conv prfx ty nullable AboveAll = Inr (exclusiveStart prfx)"
| "lowerCutKey conv prfx ty nullable OtherCut = Inl (KeyError UnsupportedLowerBound)"

fun upperCutKey :: "converter \<Rightarrow> bytes \<Rightarrow> coltype \<Rightarrow> bool \<Rightarrow> cut \<Rightarrow> error + bytes option" where
  "upperCutKey conv prfx ty nullable AboveAll = Inr (keyPrefixEnd prfx)"
| "upperCutKey conv prfx ty nullable (Below key) =
     map_sum id Some (appendBoundValue conv prfx ty nullable key)"
| "upperCutKey conv prfx ty nullable (Above key) =
     map_sum id keyPrefixEnd (appendBoundValue conv prfx ty nullable key)"
| "upperCutKey conv prfx ty nullable AboveNull = Inr (nil_if_empty (nullMarker prfx nullable 0x01))"
| "upperCutKey conv prfx ty nullable BelowNull = Inr (nil_if_empty (nullMarker prfx nullable 0x00))"
| "upperCutKey conv prfx ty nullable OtherCut = Inl (KeyError UnsupportedUpperBound)"

definition no_interval :: keyInterval where
  "no_interval = \<lparr>iv_start = [], iv_end = None\<rparr>"

fun range_interval_loop ::
    "converter \<Rightarrow> coltype list \<Rightarrow> bool \<Rightarrow> rangeColumn list \<Rightarrow> bytes \<Rightarrow> error + (keyInterval \<times> bool)" where
  "range_interval_loop conv types nullable [] prfx =
     Inr (\<lparr>iv_start = prfx, iv_end = keyPrefixEnd prfx\<rparr>, False)"
| "range_interval_loop conv types nullable (col # r) prfx =
     (if isAllColumn col nullable then Inr (\<lparr>iv_start = prfx, iv_end = keyPrefixEnd prfx\<rparr>, False)
      else case types of
        [] \<Rightarrow> Inl IndexOutOfRange
      | ty # types' \<Rightarrow>
          if \<not> isPointColumn col then
            (case lowerCutKey conv prfx ty nullable (lowerBound col) of
               Inl e \<Rightarrow> Inl e
             | Inr (start, none) \<Rightarrow>
                 if none then Inr (no_interval, True)
                 else map_sum id (\<lambda>end'. (\<lparr>iv_start = start, iv_end = end'\<rparr>, False))
                        (upperCutKey conv prfx ty nullable (upperBound col)))
          else case lowerBound col of
            BelowNull \<Rightarrow>
              if \<not> nullable then Inr (no_interval, True)
              else range_interval_loop conv types' nullable r (prfx @ [0x00])
          | Below key \<Rightarrow>
              (case appendBoundValue conv prfx ty nullable key of
                 Inl e \<Rightarrow> Inl e
               | Inr prfx \<Rightarrow> range_interval_loop conv types' nullable r prfx)
          | _ \<Rightarrow> Inl IndexOutOfRange)"

definition rangeInterval ::
    "converter \<Rightarrow> coltype list \<Rightarrow> bool \<Rightarrow> rangeColumn list \<Rightarrow> error + (keyInterval \<times> bool)" where
  "rangeInterval conv types nullable r = range_interval_loop conv types nullable r []"

text \<open>
  \<open>sort.Slice\<close> leaves the order of intervals with equal starts open; they are merged, in any order,
  into the one with the furthest end.
\<close>

fun merge_interval_loop :: "keyInterval \<Rightarrow> keyInterval list \<Rightarrow> keyInterval list" where
  "merge_interval_loop cur [] = [cur]"
| "merge_interval_loop cur (iv # ivs) =
     (case iv_end cur of
        None \<Rightarrow> merge_interval_loop cur ivs
      | Some e \<Rightarrow>
          if iv_start iv > e then cur # merge_interval_loop iv ivs
          else if (case iv_end iv of None \<Rightarrow> True | Some f \<Rightarrow> f > e)
          then merge_interval_loop (cur\<lparr>iv_end := iv_end iv\<rparr>) ivs
          else merge_interval_loop cur ivs)"

definition mergeIntervals :: "keyInterval list \<Rightarrow> keyInterval list" where
  "mergeIntervals ivs =
     (if length ivs < 2 then ivs
      else case sort_key iv_start ivs of [] \<Rightarrow> [] | first # rest \<Rightarrow> merge_interval_loop first rest)"

fun range_intervals_loop ::
    "converter \<Rightarrow> coltype list \<Rightarrow> bool \<Rightarrow> rangeColumn list list \<Rightarrow> keyInterval list \<Rightarrow> error + keyInterval list" where
  "range_intervals_loop conv types nullable [] out = Inr (mergeIntervals out)"
| "range_intervals_loop conv types nullable (r # ranges) out =
     (if length r > length types then Inl (KeyError TooManyRangeColumns)
      else case rangeInterval conv types nullable r of
             Inl e \<Rightarrow> Inl e
           | Inr (iv, none) \<Rightarrow>
               range_intervals_loop conv types nullable ranges (if \<not> none \<and> \<not> iv_empty iv then out @ [iv] else out))"

definition rangeIntervals ::
    "converter \<Rightarrow> coltype list \<Rightarrow> bool \<Rightarrow> rangeColumn list list \<Rightarrow> error + keyInterval list" where
  "rangeIntervals conv types nullable ranges = range_intervals_loop conv types nullable ranges []"

section \<open>What a range selects\<close>

text \<open>
  A value of a column is its rank, with NULL below every value. A row matches a range when every
  column lies between its cuts.
\<close>

definition bound_rank :: "converter \<Rightarrow> coltype \<Rightarrow> val \<Rightarrow> rat list" where
  "bound_rank conv ty key = (case conv ty key of Inl _ \<Rightarrow> [] | Inr v \<Rightarrow> index_rank ty (Some v))"

fun above_lower :: "converter \<Rightarrow> coltype \<Rightarrow> cut \<Rightarrow> val option \<Rightarrow> bool" where
  "above_lower conv ty BelowNull v \<longleftrightarrow> True"
| "above_lower conv ty AboveNull v \<longleftrightarrow> v \<noteq> None"
| "above_lower conv ty (Below k) v \<longleftrightarrow> bound_rank conv ty k \<le> index_rank ty v"
| "above_lower conv ty (Above k) v \<longleftrightarrow> bound_rank conv ty k < index_rank ty v"
| "above_lower conv ty _ v \<longleftrightarrow> False"

fun below_upper :: "converter \<Rightarrow> coltype \<Rightarrow> cut \<Rightarrow> val option \<Rightarrow> bool" where
  "below_upper conv ty AboveAll v \<longleftrightarrow> True"
| "below_upper conv ty AboveNull v \<longleftrightarrow> v = None"
| "below_upper conv ty (Below k) v \<longleftrightarrow> index_rank ty v < bound_rank conv ty k"
| "below_upper conv ty (Above k) v \<longleftrightarrow> index_rank ty v \<le> bound_rank conv ty k"
| "below_upper conv ty _ v \<longleftrightarrow> False"

fun range_matches :: "converter \<Rightarrow> coltype list \<Rightarrow> rangeColumn list \<Rightarrow> val option list \<Rightarrow> bool" where
  "range_matches conv (ty # types) (col # r) (v # vs) \<longleftrightarrow>
     above_lower conv ty (lowerBound col) v \<and> below_upper conv ty (upperBound col) v \<and> range_matches conv types r vs"
| "range_matches conv types r vs \<longleftrightarrow> r = []"

text \<open>The column encoder of a primary key (no markers, no NULL) or of a secondary index.\<close>

definition key_column :: "bool \<Rightarrow> coltype \<Rightarrow> val option \<Rightarrow> error + bytes" where
  "key_column nullable ty v =
     (if nullable then index_column ty v
      else case v of None \<Rightarrow> Inl (KeyError PrimaryKeyNull) | Some v \<Rightarrow> appendKeyColumn [] ty v)"

interpretation kcol: key_columns "key_column nullable" index_rank for nullable
proof
  fix c v k w l
  assume a: "key_column nullable c v = Inr k" "key_column nullable c w = Inr l"
  show "encodes_order k (index_rank c v) l (index_rank c w)"
  proof (cases nullable)
    case True
    then show ?thesis using a icol.encodes by (simp add: key_column_def)
  next
    case False
    then obtain x y where "v = Some x" "w = Some y" "appendKeyColumn [] c x = Inr k" "appendKeyColumn [] c y = Inr l"
      using a by (auto simp: key_column_def split: option.splits)
    then show ?thesis using appendKeyColumn_encodes[of c x k y l] by (auto simp: encodes_order_def)
  qed
qed

section \<open>Comparing with prefix bounds\<close>

lemma prefix_end_less:
  "(case keyPrefixEnd q of None \<Rightarrow> True | Some e \<Rightarrow> k < e) \<longleftrightarrow> k < q \<or> prefix q k"
proof (cases "keyPrefixEnd q")
  case None
  then show ?thesis using keyPrefixEnd_None[OF None, of k] by auto
next
  case (Some e)
  have "q < e" using keyPrefixEnd_Some[OF Some, of q] by simp
  then show ?thesis using keyPrefixEnd_Some[OF Some, of k] Some by (auto dest: less_trans)
qed

lemma exclusiveStart_less:
  "exclusiveStart q = (s, none) \<Longrightarrow> (\<not> none \<and> s \<le> k) \<longleftrightarrow> \<not> (k < q \<or> prefix q k)"
  unfolding prefix_end_less[symmetric] by (auto simp: exclusiveStart_def split: option.splits)

definition parts :: "bytes \<Rightarrow> bytes \<Rightarrow> bool" where
  "parts k p \<longleftrightarrow> diverges k p \<or> diverges p k"

lemma parts_append: "parts k p \<Longrightarrow> parts (k @ u) (p @ v)"
  by (auto simp: parts_def diverges_append)

lemma diverges_not_prefix: "diverges p k \<Longrightarrow> \<not> prefix p k" "diverges k p \<Longrightarrow> \<not> prefix p k"
  by (induction p k rule: diverges.induct) auto

lemma parts_extended:
  assumes "parts k p"
  shows "diverges k p \<and> k < p @ y \<or> diverges p k \<and> p @ y < k \<and> \<not> prefix (p @ y) k"
  using assms diverges_append[of p k y "[]"] diverges_append[of k p "[]" y] diverges_not_prefix(1)[of "p @ y" k]
  by (auto simp: parts_def diverges_less)

lemma column_compare:
  assumes "key_column nullable ty v = Inr x" "key_column nullable ty w = Inr y"
  shows "x @ s < y \<longleftrightarrow> index_rank ty v < index_rank ty w"
    and "prefix y (x @ s) \<longleftrightarrow> index_rank ty v = index_rank ty w"
    and "x @ s < y \<or> prefix y (x @ s) \<longleftrightarrow> index_rank ty v \<le> index_rank ty w"
    and "parts x y \<longleftrightarrow> index_rank ty v \<noteq> index_rank ty w"
proof -
  have o: "index_rank ty v < index_rank ty w \<Longrightarrow> diverges x y" "index_rank ty w < index_rank ty v \<Longrightarrow> diverges y x"
    "index_rank ty v = index_rank ty w \<Longrightarrow> x = y"
    using kcol.encodes[OF assms] kcol.encodes[OF assms(2,1)] by (auto simp: encodes_order_def)
  have lt: "diverges x y \<Longrightarrow> x @ s < y" "diverges y x \<Longrightarrow> y < x @ s"
    using diverges_append_less[of x y s "[]"] diverges_append_less[of y x "[]" s] by auto
  have np: "diverges x y \<Longrightarrow> \<not> prefix y (x @ s)" "diverges y x \<Longrightarrow> \<not> prefix y (x @ s)"
    using diverges_not_prefix(2)[of "x @ s" y] diverges_not_prefix(1)[of y "x @ s"]
      diverges_append[of x y s "[]"] diverges_append[of y x "[]" s] by auto
  have irr: "\<not> diverges y y" by (meson diverges_less less_irrefl)
  have ge: "y \<le> y @ s" by (rule prefix_le) simp
  consider "index_rank ty v < index_rank ty w" | "index_rank ty w < index_rank ty v" | "index_rank ty v = index_rank ty w"
    by fastforce
  note cs = this
  show "x @ s < y \<longleftrightarrow> index_rank ty v < index_rank ty w"
    using cs by cases (use o lt ge in \<open>auto dest: less_asym\<close>)
  show "prefix y (x @ s) \<longleftrightarrow> index_rank ty v = index_rank ty w"
    using cs by cases (use o np in auto)
  then show "x @ s < y \<or> prefix y (x @ s) \<longleftrightarrow> index_rank ty v \<le> index_rank ty w"
    using \<open>x @ s < y \<longleftrightarrow> index_rank ty v < index_rank ty w\<close> by auto
  show "parts x y \<longleftrightarrow> index_rank ty v \<noteq> index_rank ty w"
    using cs by cases (use o irr in \<open>auto simp: parts_def\<close>)
qed

lemma appendKeyColumn_nonempty: "appendKeyColumn [] ty v \<noteq> Inr []"
proof -
  have esc: "appendEscaped [] b \<noteq> []" for b by (simp add: appendEscaped_def)
  have "appendStringKey [] ty s \<noteq> Inr []" for s
    by (simp add: appendStringKey_def esc Let_def split: collation.splits option.splits sum.splits)
  moreover have "appendDecimalKey [] d \<noteq> Inr []" for d by (simp add: appendDecimalKey_def Let_def)
  ultimately show ?thesis
    by (cases v) (simp_all add: appendKeyColumn_def Let_def esc appendFloatKey_def appendSigned_def numeral_eq_Suc
        split: option.split)
qed

lemma key_column_nonempty: "key_column nullable ty v \<noteq> Inr []"
  using appendKeyColumn_nonempty by (cases v) (auto simp: key_column_def map_sum_def split: sum.splits)

lemma appendBoundValue_column:
  assumes "appendBoundValue conv p ty nullable key = Inr q"
  shows "\<exists>w y. conv ty key = Inr w \<and> key_column nullable ty (Some w) = Inr y \<and> q = p @ y
    \<and> bound_rank conv ty key = index_rank ty (Some w)"
proof -
  obtain w where w: "conv ty key = Inr w" "appendKeyColumn (if nullable then p @ [1] else p) ty w = Inr q"
    using assms by (auto simp: appendBoundValue_def split: sum.splits)
  then obtain y where "appendKeyColumn [] ty w = Inr y" "q = (if nullable then p @ [1] else p) @ y"
    using appendKeyColumn_dst[of "if nullable then p @ [1] else p" ty w]
    by (cases "appendKeyColumn [] ty w") auto
  then show ?thesis using w by (auto simp: key_column_def bound_rank_def)
qed

lemma append_le_same: "p @ a \<le> p @ b \<longleftrightarrow> a \<le> (b :: bytes)"
  by (simp add: append_less_same flip: not_less)

lemma index_first:
  assumes "key_column True ty v = Inr x"
  shows "\<exists>z. x = (case v of None \<Rightarrow> 0 | Some _ \<Rightarrow> 1) # z"
  using assms by (cases v) (auto simp: key_column_def map_sum_def split: sum.splits)

lemma key_column_nonnull: "key_column False ty v = Inr x \<Longrightarrow> v \<noteq> None"
  by (auto simp: key_column_def split: option.splits)

lemma lowerCutKey_spec:
  assumes "lowerCutKey conv p ty nullable ct = Inr (start, none)" "key_column nullable ty v = Inr x"
  shows "(\<not> none \<and> start \<le> p @ x @ s) \<longleftrightarrow> above_lower conv ty ct v"
proof -
  have marks: "nullable \<Longrightarrow> [0] \<le> x @ s" "nullable \<Longrightarrow> [1] \<le> x @ s \<longleftrightarrow> v \<noteq> None"
    using assms(2) index_first[of ty v x] by (auto split: option.splits)
  have p: "p \<le> p @ x @ s" by (rule prefix_le) simp
  show ?thesis
  proof (cases ct)
    case (Below key)
    then obtain w y where w: "key_column nullable ty (Some w) = Inr y" "start = p @ y" "\<not> none"
        "bound_rank conv ty key = index_rank ty (Some w)"
      using assms(1) appendBoundValue_column[of conv p ty nullable key] by (auto simp: map_sum_def split: sum.splits)
    then show ?thesis
      using column_compare(1)[OF assms(2) w(1), of s] Below by (simp add: append_less_same flip: not_less)
  next
    case (Above key)
    then obtain w y where w: "key_column nullable ty (Some w) = Inr y" "exclusiveStart (p @ y) = (start, none)"
        "bound_rank conv ty key = index_rank ty (Some w)"
      using assms(1) appendBoundValue_column[of conv p ty nullable key] by (auto simp: map_sum_def split: sum.splits)
    then show ?thesis
      using exclusiveStart_less[OF w(2), of "p @ x @ s"] column_compare(3)[OF assms(2) w(1), of s] Above
      by (simp add: append_less_same not_le)
  next
    case BelowNull
    then show ?thesis using assms(1) marks p by (auto simp: nullMarker_def append_le_same)
  next
    case AboveNull
    then show ?thesis
      using assms marks p key_column_nonnull[of ty v x] by (cases nullable) (auto simp: nullMarker_def append_le_same)
  next
    case AboveAll
    then show ?thesis using assms(1) exclusiveStart_less[of p start none "p @ x @ s"] by simp
  qed (use assms(1) in simp)
qed

lemma upperCutKey_spec:
  assumes "upperCutKey conv p ty nullable ct = Inr e" "key_column nullable ty v = Inr x"
    and "nullable \<or> p \<noteq> [] \<or> ct \<notin> {AboveNull, BelowNull}"
  shows "(case e of None \<Rightarrow> True | Some e \<Rightarrow> p @ x @ s < e) \<longleftrightarrow> below_upper conv ty ct v"
proof -
  have marks: "nullable \<Longrightarrow> \<not> x @ s < [0]" "nullable \<Longrightarrow> x @ s < [1] \<longleftrightarrow> v = None"
    using assms(2) index_first[of ty v x] by (auto split: option.splits)
  have p: "\<not> p @ x @ s < p" using prefix_le[of p "p @ x @ s"] by simp
  show ?thesis
  proof (cases ct)
    case (Below key)
    then obtain w y where w: "key_column nullable ty (Some w) = Inr y" "e = Some (p @ y)"
        "bound_rank conv ty key = index_rank ty (Some w)"
      using assms(1) appendBoundValue_column[of conv p ty nullable key] by (auto simp: map_sum_def split: sum.splits)
    then show ?thesis
      using column_compare(1)[OF assms(2) w(1), of s] Below by (simp add: append_less_same)
  next
    case (Above key)
    then obtain w y where w: "key_column nullable ty (Some w) = Inr y" "e = keyPrefixEnd (p @ y)"
        "bound_rank conv ty key = index_rank ty (Some w)"
      using assms(1) appendBoundValue_column[of conv p ty nullable key] by (auto simp: map_sum_def split: sum.splits)
    then show ?thesis
      using prefix_end_less[of "p @ x @ s" "p @ y"] column_compare(3)[OF assms(2) w(1), of s] Above
      by (simp add: append_less_same)
  next
    case BelowNull
    then show ?thesis
      using assms(1,3) marks p by (cases nullable) (auto simp: nullMarker_def nil_if_empty_def append_less_same)
  next
    case AboveNull
    then show ?thesis
      using assms marks p key_column_nonnull[of ty v x]
      by (cases nullable) (auto simp: nullMarker_def nil_if_empty_def append_less_same)
  next
    case AboveAll
    then show ?thesis using assms(1) prefix_end_less[of "p @ x @ s" p] by simp
  qed (use assms(1) in simp)
qed

section \<open>A range selects exactly the keys of its interval\<close>

lemma isPointColumn_cases:
  assumes "isPointColumn col"
  obtains "lowerBound col = BelowNull" "upperBound col = AboveNull"
    | key where "lowerBound col = Below key" "upperBound col = Above key"
  using assms by (auto simp: isPointColumn_def split: cut.splits)

lemma all_column_matches:
  assumes "isAllColumn col nullable" "key_column nullable ty v = Inr x"
  shows "above_lower conv ty (lowerBound col) v" "below_upper conv ty (upperBound col) v"
  using assms key_column_nonnull[of ty v x] by (auto simp: isAllColumn_def isUnboundedLower_def)

lemma all_columns_match:
  assumes "shape_loop r nullable True" "kcol.enc_all nullable types vs ks" "length r \<le> length types"
  shows "range_matches conv types r vs"
  using assms
proof (induction r arbitrary: types vs ks)
  case (Cons col r)
  then show ?case
    by (cases types; cases vs) (auto simp: all_column_matches split: if_splits sum.splits)
qed simp

lemma prefix_interval_contains: "iv_contains \<lparr>iv_start = p, iv_end = keyPrefixEnd p\<rparr> k \<longleftrightarrow> prefix p k"
  using prefix_end_less[of k p] prefix_le[of p k] by (auto simp: iv_contains_def)

text \<open>An interval below a prefix holds no key that parts from the prefix.\<close>

lemma lowerCutKey_parts:
  assumes "lowerCutKey conv p ty nullable ct = Inr (start, none)" "\<not> none" "start \<le> k"
  shows "\<not> diverges k p"
proof
  assume d: "diverges k p"
  have lt: "k < p @ y" for y using diverges_append_less[OF d, of "[]" y] by simp
  have ex: "exclusiveStart (p @ y) = (start, False) \<Longrightarrow> False" for y
    using exclusiveStart_less[of "p @ y" start False k] assms(3) lt[of y] by simp
  show False
    using assms lt[of "[]"] lt ex[of "[]"]
    by (cases ct) (auto simp: nullMarker_def map_sum_def split: sum.splits if_splits
        dest!: appendBoundValue_column ex dest: leD)
qed

lemma upperCutKey_parts:
  assumes "upperCutKey conv p ty nullable ct = Inr e" "case e of None \<Rightarrow> True | Some e \<Rightarrow> k < e"
  shows "\<not> diverges p k"
proof
  assume d: "diverges p k"
  then have p: "p \<noteq> []" by (cases p) auto
  have gt: "p @ y < k" "\<not> prefix (p @ y) k" for y
    using diverges_append_less[OF d, of y "[]"] diverges_not_prefix(1)[of "p @ y" k] diverges_append[OF d, of y "[]"] by auto
  have pe: "keyPrefixEnd (p @ y) = e \<Longrightarrow> False" for y
    using prefix_end_less[of k "p @ y"] assms(2) gt[of y] by (auto dest: less_asym)
  have lt: "e = Some (p @ y) \<Longrightarrow> False" for y using assms(2) gt(1)[of y] by (auto dest: less_asym)
  show False
    using assms(1) p pe[of "[]"] pe lt lt[of "[]"]
    by (cases ct) (auto simp: nullMarker_def nil_if_empty_def map_sum_def split: sum.splits if_splits
        dest!: appendBoundValue_column)
qed

lemma range_interval_loop_parts:
  assumes "range_interval_loop conv types nullable r p = Inr (iv, none)" "\<not> none" "iv_contains iv k"
  shows "\<not> parts k p"
  using assms
proof (induction conv types nullable r p rule: range_interval_loop.induct)
  case (1 conv types nullable prfx)
  then show ?case
    by (auto simp: prefix_interval_contains parts_def diverges_not_prefix)
next
  case (2 conv types nullable col r p)
  note prems = 2(3-5)
  consider (all) "isAllColumn col nullable"
    | (ranged) ty ts start e where "\<not> isAllColumn col nullable" "types = ty # ts" "\<not> isPointColumn col"
        "lowerCutKey conv p ty nullable (lowerBound col) = Inr (start, False)"
        "upperCutKey conv p ty nullable (upperBound col) = Inr e" "iv = \<lparr>iv_start = start, iv_end = e\<rparr>"
    | (null) ty ts where "\<not> isAllColumn col nullable" "types = ty # ts" "isPointColumn col" "lowerBound col = BelowNull"
        "nullable" "range_interval_loop conv ts nullable r (p @ [0]) = Inr (iv, none)"
    | (point) ty ts key q where "\<not> isAllColumn col nullable" "types = ty # ts" "isPointColumn col" "lowerBound col = Below key"
        "appendBoundValue conv p ty nullable key = Inr q" "range_interval_loop conv ts nullable r q = Inr (iv, none)"
    using prems(1,2) by (auto simp: map_sum_def split: if_splits list.splits sum.splits cut.splits)
  then show ?case
  proof cases
    case all
    then show ?thesis using prems by (auto simp: prefix_interval_contains parts_def diverges_not_prefix)
  next
    case ranged
    then show ?thesis
      using lowerCutKey_parts[OF ranged(4), of k] upperCutKey_parts[OF ranged(5), of k] prems(3)
      by (auto simp: iv_contains_def parts_def)
  next
    case null
    then show ?thesis using 2(2)[OF null(1-2) _ null(4) _ null(6) prems(2,3)] parts_append[of k p "[]" "[0]"] by auto
  next
    case point
    then obtain y where "q = p @ y" using appendBoundValue_column[OF point(5)] by auto
    then show ?thesis using 2(1)[OF point(1,2) _ point(4,5,6) prems(2,3)] point(3) parts_append[of k p "[]" y] by auto
  qed
qed

text \<open>
  A range whose shape the scan supports selects exactly the rows whose keys lie in its interval. The
  exception is the first column of a primary key with an upper cut at NULL: \<open>nullMarker\<close> then returns
  a nil end, which stands for no bound at all.
\<close>

fun upper_bounded :: "bool \<Rightarrow> rangeColumn list \<Rightarrow> bool" where
  "upper_bounded nullable [] \<longleftrightarrow> True"
| "upper_bounded nullable (col # r) \<longleftrightarrow>
     nullable \<or> isPointColumn col \<or> upperBound col \<notin> {AboveNull, BelowNull}"

lemma range_interval_loop_exact:
  assumes "range_interval_loop conv types nullable r p = Inr (iv, none)" "shape_loop r nullable False"
    and "kcol.enc_all nullable types vs ks" "length r \<le> length types" "p \<noteq> [] \<or> upper_bounded nullable r"
  shows "(\<not> none \<and> iv_contains iv (p @ ks @ s)) \<longleftrightarrow> range_matches conv types r vs"
  using assms
proof (induction conv types nullable r p arbitrary: vs ks rule: range_interval_loop.induct)
  case (1 conv types nullable prfx)
  then show ?case by (auto simp: prefix_interval_contains)
next
  case (2 conv types nullable col r p)
  note prems = 2(3-7)
  obtain ty ts v ws x xs where ty: "types = ty # ts" "vs = v # ws" "key_column nullable ty v = Inr x"
      "kcol.enc_all nullable ts ws xs" "ks = x @ xs" "length r \<le> length ts"
    using prems(3,4) by (cases types; cases vs) auto
  show ?case
  proof (cases "isAllColumn col nullable")
    case True
    then show ?thesis
      using prems ty all_column_matches[OF True ty(3), of conv] all_columns_match[of r nullable ts ws xs conv]
      by (auto simp: prefix_interval_contains)
  next
    case all: False
    show ?thesis
    proof (cases "isPointColumn col")
      case False
      then have rest: "range_matches conv ts r ws"
        using all prems(2) ty all_columns_match[of r nullable ts ws xs conv] by simp
      obtain start none' where low: "lowerCutKey conv p ty nullable (lowerBound col) = Inr (start, none')"
        using prems(1) all False ty(1) by (auto split: sum.splits)
      note l = lowerCutKey_spec[OF low ty(3), of "xs @ s"]
      show ?thesis
      proof (cases none')
        case True
        then show ?thesis using prems(1) all False ty l low by auto
      next
        case nn: False
        then obtain e where up: "upperCutKey conv p ty nullable (upperBound col) = Inr e"
            "iv = \<lparr>iv_start = start, iv_end = e\<rparr>" "\<not> none"
          using prems(1) all False ty(1) low by (auto simp: map_sum_def split: sum.splits)
        have "nullable \<or> p \<noteq> [] \<or> upperBound col \<notin> {AboveNull, BelowNull}"
          using prems(5) False by auto
        from upperCutKey_spec[OF up(1) ty(3) this, of "xs @ s"]
        show ?thesis using l nn up ty rest by (simp add: iv_contains_def)
      qed
    next
      case point: True
      then show ?thesis
      proof (cases rule: isPointColumn_cases)
        case 1
        show ?thesis
        proof (cases nullable)
          case True
          have loop: "range_interval_loop conv ts nullable r (p @ [0]) = Inr (iv, none)"
            and shape: "shape_loop r nullable False"
            using prems(1,2) all point 1 True ty(1) by auto
          show ?thesis
          proof (cases v)
            case None
            then have "x = [0]" using ty(3) True by (simp add: key_column_def)
            then show ?thesis
              using 2(2)[OF all ty(1) _ 1(1) _ loop shape ty(4,6)] point True None ty(1,2,5) 1 by simp
          next
            case (Some w)
            then obtain z where "x = 1 # z" using ty(3) True index_first[of ty v x] by auto
            then have "parts (p @ ks @ s) (p @ [0])" using ty(5) by (simp add: parts_def)
            then show ?thesis using range_interval_loop_parts[OF loop, of "p @ ks @ s"] Some ty(1,2) 1 by auto
          qed
        next
          case False
          then show ?thesis using prems(1) all point 1 ty(1-3) key_column_nonnull[of ty v x] by auto
        qed
      next
        case (2 key)
        then obtain q where q: "appendBoundValue conv p ty nullable key = Inr q"
          and loop: "range_interval_loop conv ts nullable r q = Inr (iv, none)"
          and shape: "shape_loop r nullable False"
          using prems(1,2) all point ty(1) by (auto split: sum.splits)
        obtain w y where w: "key_column nullable ty (Some w) = Inr y" "q = p @ y"
            "bound_rank conv ty key = index_rank ty (Some w)"
          using appendBoundValue_column[OF q] by auto
        have y: "q \<noteq> []" using w(1,2) key_column_nonempty by blast
        show ?thesis
        proof (cases "index_rank ty v = index_rank ty (Some w)")
          case True
          then have "x = y" using kcol.encodes[OF ty(3) w(1)] by (simp add: encodes_order_def)
          then show ?thesis
            using "2.IH"(1)[OF all ty(1) _ 2(1) q loop shape ty(4,6)] point y True w 2 ty(1,2,5) by simp
        next
          case False
          then have "parts (p @ ks @ s) (p @ y)"
            using column_compare(4)[OF ty(3) w(1)] parts_append[of x y "xs @ s" "[]"] ty(5)
            by (auto simp: parts_def)
          then show ?thesis
            using range_interval_loop_parts[OF loop, of "p @ ks @ s"] w False 2 ty(1,2) by auto
        qed
      qed
    qed
  qed
qed

section \<open>Merging intervals\<close>

definition iv_apart :: "keyInterval \<Rightarrow> keyInterval \<Rightarrow> bool" where
  "iv_apart a b \<longleftrightarrow> (\<exists>e. iv_end a = Some e \<and> e < iv_start b)"

definition covers :: "keyInterval list \<Rightarrow> bytes \<Rightarrow> bool" where
  "covers ivs k \<longleftrightarrow> (\<exists>iv\<in>set ivs. iv_contains iv k)"

lemma covers_simps [simp]:
  "\<not> covers [] k" "covers (iv # ivs) k \<longleftrightarrow> iv_contains iv k \<or> covers ivs k"
  "covers (xs @ ys) k \<longleftrightarrow> covers xs k \<or> covers ys k"
  by (auto simp: covers_def)

lemma merge_interval_loop_covers:
  "sorted (map iv_start (cur # ivs)) \<Longrightarrow> covers (merge_interval_loop cur ivs) k \<longleftrightarrow> covers (cur # ivs) k"
proof (induction cur ivs rule: merge_interval_loop.induct)
  case (2 cur iv ivs)
  have le: "iv_start cur \<le> iv_start iv" using 2 by simp
  show ?case
  proof (cases "iv_end cur")
    case None
    then have "iv_contains iv k \<Longrightarrow> iv_contains cur k" using le by (auto simp: iv_contains_def)
    then show ?thesis using None 2(1)[OF None] 2(5) by auto
  next
    case (Some e)
    show ?thesis
    proof (cases "iv_start iv > e")
      case True
      then show ?thesis using Some 2(2)[OF Some True] 2(5) by simp
    next
      case near: False
      show ?thesis
      proof (cases "case iv_end iv of None \<Rightarrow> True | Some f \<Rightarrow> f > e")
        case True
        have "iv_contains (cur\<lparr>iv_end := iv_end iv\<rparr>) k \<longleftrightarrow> iv_contains cur k \<or> iv_contains iv k"
          using le near True Some by (auto simp: iv_contains_def not_less split: option.splits)
        then show ?thesis using Some near True 2(3)[OF Some near True] 2(5) by simp
      next
        case False
        then have "iv_contains iv k \<Longrightarrow> iv_contains cur k"
          using le Some by (auto simp: iv_contains_def not_less split: option.splits)
        then show ?thesis using Some near False 2(4)[OF Some near False] 2(5) by auto
      qed
    qed
  qed
qed simp

lemma merge_interval_loop_apart:
  assumes "sorted (map iv_start (cur # ivs))" "list_all (\<lambda>iv. \<not> iv_empty iv) (cur # ivs)"
  shows "sorted_wrt iv_apart (merge_interval_loop cur ivs)
    \<and> list_all (\<lambda>iv. iv_start cur \<le> iv_start iv \<and> \<not> iv_empty iv) (merge_interval_loop cur ivs)"
  using assms
proof (induction cur ivs rule: merge_interval_loop.induct)
  case (2 cur iv ivs)
  show ?case
  proof (cases "iv_end cur")
    case None
    then show ?thesis using 2(1)[OF None] 2(5,6) by simp
  next
    case (Some e)
    have le: "iv_start cur \<le> iv_start iv" using 2(5) by simp
    show ?thesis
    proof (cases "iv_start iv > e")
      case True
      have "iv_apart cur x \<and> iv_start cur \<le> iv_start x" if "iv_start iv \<le> iv_start x" for x
        using less_le_trans[OF True that] order_trans[OF le that] by (simp add: iv_apart_def Some)
      note apart = this
      have pre: "sorted (map iv_start (iv # ivs))" "list_all (\<lambda>iv. \<not> iv_empty iv) (iv # ivs)"
        using 2(5,6) by simp_all
      have IH: "sorted_wrt iv_apart (merge_interval_loop iv ivs)"
        "\<forall>x\<in>set (merge_interval_loop iv ivs). iv_start iv \<le> iv_start x \<and> \<not> iv_empty x"
        using 2(2)[OF Some True pre] by (simp_all add: list_all_iff)
      then have "\<forall>x\<in>set (merge_interval_loop iv ivs). iv_apart cur x \<and> iv_start cur \<le> iv_start x"
        using apart by blast
      then show ?thesis using Some True IH 2(6) by (simp add: list_all_iff)
    next
      case near: False
      show ?thesis
      proof (cases "case iv_end iv of None \<Rightarrow> True | Some f \<Rightarrow> f > e")
        case True
        have "\<not> iv_empty (cur\<lparr>iv_end := iv_end iv\<rparr>)"
          using 2(5,6) True Some by (auto simp: iv_empty_def not_le split: option.splits)
        then show ?thesis using Some near True 2(3)[OF Some near True] 2(5,6) by simp
      next
        case False
        then show ?thesis using Some near 2(4)[OF Some near False] 2(5,6) by simp
      qed
    qed
  qed
qed simp

lemma mergeIntervals_covers: "covers (mergeIntervals ivs) k \<longleftrightarrow> covers ivs k"
proof (cases "sort_key iv_start ivs")
  case (Cons first rest)
  then have "covers (merge_interval_loop first rest) k \<longleftrightarrow> covers (sort_key iv_start ivs) k"
    using merge_interval_loop_covers[of first rest k] sorted_sort_key[of iv_start ivs] by simp
  then have "covers (merge_interval_loop first rest) k \<longleftrightarrow> covers ivs k" by (simp only: covers_def set_sort)
  then show ?thesis using Cons by (simp add: mergeIntervals_def)
next
  case Nil
  then have "ivs = []" using length_sort[of iv_start ivs] by simp
  then show ?thesis by (simp add: mergeIntervals_def)
qed

lemma mergeIntervals_apart:
  assumes "list_all (\<lambda>iv. \<not> iv_empty iv) ivs"
  shows "sorted_wrt iv_apart (mergeIntervals ivs) \<and> list_all (\<lambda>iv. \<not> iv_empty iv) (mergeIntervals ivs)"
proof (cases "length ivs < 2")
  case True
  then show ?thesis using assms by (cases ivs) (auto simp: mergeIntervals_def)
next
  case False
  then obtain first rest where fr: "sort_key iv_start ivs = first # rest"
    by (cases "sort_key iv_start ivs") (auto dest: arg_cong[of _ _ length])
  have "list_all (\<lambda>iv. \<not> iv_empty iv) (sort_key iv_start ivs)" using assms by (simp add: list_all_iff)
  from merge_interval_loop_apart[of first rest] this sorted_sort_key[of iv_start ivs]
  show ?thesis using False unfolding fr by (simp add: mergeIntervals_def list_all_iff fr)
qed

lemma range_intervals_loop_spec:
  assumes "range_intervals_loop conv types nullable ranges out = Inr ivs"
    and "list_all (\<lambda>r. rangeShapeSupported r nullable \<and> upper_bounded nullable r) ranges"
    and "kcol.enc_all nullable types vs ks"
  shows "covers ivs (ks @ s) \<longleftrightarrow> covers out (ks @ s) \<or> list_ex (\<lambda>r. range_matches conv types r vs) ranges"
  using assms
proof (induction conv types nullable ranges out rule: range_intervals_loop.induct)
  case (1 conv types nullable out)
  then show ?case using mergeIntervals_covers by auto
next
  case (2 conv types nullable r ranges out)
  from 2(2) obtain iv none where iv: "length r \<le> length types" "rangeInterval conv types nullable r = Inr (iv, none)"
      "range_intervals_loop conv types nullable ranges (if \<not> none \<and> \<not> iv_empty iv then out @ [iv] else out) = Inr ivs"
    by (auto split: if_splits sum.splits)
  have "\<not> iv_contains iv k" if "iv_empty iv" for k
    using that by (auto simp: iv_empty_def iv_contains_def split: option.splits)
  moreover have "(\<not> none \<and> iv_contains iv (ks @ s)) \<longleftrightarrow> range_matches conv types r vs"
    using range_interval_loop_exact[of conv types nullable r "[]" iv none vs ks s] iv(1,2) 2(3,4)
    by (simp add: rangeInterval_def rangeShapeSupported_def)
  ultimately show ?case using 2(1)[OF _ iv(2) refl iv(3)] 2(3,4) iv(1) by auto
qed

lemma range_intervals_loop_apart:
  assumes "range_intervals_loop conv types nullable ranges out = Inr ivs" "list_all (\<lambda>iv. \<not> iv_empty iv) out"
  shows "sorted_wrt iv_apart ivs \<and> list_all (\<lambda>iv. \<not> iv_empty iv) ivs"
  using assms
proof (induction conv types nullable ranges out rule: range_intervals_loop.induct)
  case (1 conv types nullable out)
  then show ?case using mergeIntervals_apart by auto
qed (auto split: if_splits sum.splits)

section \<open>Ranges over the keys of rows\<close>

lemma encode_key_loop_kcol:
  "encode_key_loop schema row ords out = Inr k \<Longrightarrow>
     \<exists>ks. k = out @ ks \<and> kcol.enc_all False (map (key_type schema) ords) (map (row_cell row) ords) ks"
proof (induction ords arbitrary: out)
  case (Cons ord ords)
  from Cons.prems obtain v c where v: "row_cell row ord = Some v"
    "appendKeyColumn [] (key_type schema ord) v = Inr c"
    "encode_key_loop schema row ords (out @ c) = Inr k"
    by (auto simp: key_type_def appendKeyColumn_dst[of out] map_sum_def split: option.splits if_splits sum.splits)
  from Cons.IH[OF v(3)] obtain ks where "k = out @ c @ ks"
      "kcol.enc_all False (map (key_type schema) ords) (map (row_cell row) ords) ks" by auto
  moreover have "key_column False (key_type schema ord) (Some v) = Inr c" using v(2) by (simp add: key_column_def)
  ultimately show ?case using v(1) by (intro exI[of _ "c @ ks"]) simp
qed simp

lemma icol_kcol: "icol.enc_all cs vs ks = kcol.enc_all True cs vs ks"
  by (induction cs vs ks rule: icol.enc_all.induct) (auto simp: key_column_def)

lemma encodeIndexKey_kcol:
  assumes "encodeIndexKey schema row ords pk u = Inr (k, n)"
  shows "\<exists>ks s. k = ks @ s \<and> kcol.enc_all True (map (key_type schema) ords) (map (row_cell row) ords) ks"
proof -
  obtain ks where e: "index_key_loop schema row ords [] False = Inr (ks, n)" "k = ks @ (if n \<or> \<not> u then pk else [])"
    using assms by (auto simp: encodeIndexKey_def split: sum.splits)
  then show ?thesis using index_key_loop_columns[OF e(1)] icol_kcol by auto
qed

text \<open>
  On the first column of a primary key an upper cut at NULL selects nothing, since no key column
  is NULL, but its interval has no end.
\<close>

lemma upper_null_cut_unbounded:
  "upperCutKey conv [] ty False AboveNull = Inr None" "upperCutKey conv [] ty False BelowNull = Inr None"
  by (simp_all add: nullMarker_def nil_if_empty_def)

end
