(* ===== verification/Row_Roundtrip.thy ===== *)
theory Row_Roundtrip
  imports Row_Codec
begin

text \<open>
  Correctness of the row codec: decoding an encoded row gives the row back when every value is in
  the form its column type produces, and decoding under a projection gives the projection of the
  decoded row.
\<close>

section \<open>Reading what was appended\<close>

definition text_ok :: "rowDecoder \<Rightarrow> bool" where
  "text_ok d \<longleftrightarrow> rd_text d = [] \<or> rd_text d = rd_data d"

lemma text_ok_update [simp]: "text_ok (d\<lparr>rd_pos := n\<rparr>) = text_ok d"
  "text_ok (d\<lparr>rd_text := rd_data d\<rparr>)"
  by (simp_all add: text_ok_def)

definition reads_at :: "rowDecoder \<Rightarrow> bytes \<Rightarrow> bytes \<Rightarrow> bool" where
  "reads_at d pre rest \<longleftrightarrow> rd_data d = pre @ rest \<and> rd_pos d = length pre \<and> text_ok d"

lemma rd_varint_append:
  "reads_at d pre (append_varint v @ rest) \<Longrightarrow>
     \<exists>d'. rd_varint d = Inr (v, d') \<and> reads_at d' (pre @ append_varint v) rest"
  using varint_append[of v rest] by (auto simp: reads_at_def rd_varint_def append_varint_def Let_def)

lemma rd_uvarint_append:
  "reads_at d pre (append_uvarint v @ rest) \<Longrightarrow>
     \<exists>d'. rd_uvarint d = Inr (v, d') \<and> reads_at d' (pre @ append_uvarint v) rest"
  by (auto simp: reads_at_def rd_uvarint_def uvarint_append)

lemma rd_fixed_append:
  "reads_at d pre (b @ rest) \<Longrightarrow> length b = n \<Longrightarrow>
     \<exists>d'. rd_fixed n d = Inr (b, d') \<and> reads_at d' (pre @ b) rest"
  by (auto simp: reads_at_def rd_fixed_def)

lemma appendBytesCell_Nil [simp]: "appendBytesCell [] b = append_uvarint (of_nat (length b)) @ b"
  by (simp add: appendBytesCell_def)

lemma rd_span_append:
  assumes "reads_at d pre (appendBytesCell [] b @ rest)" "length b < 2 ^ 64"
  shows "\<exists>d' i j. rd_span d = Inr ((i, j), d') \<and> reads_at d' (pre @ appendBytesCell [] b) rest
           \<and> slice (rd_data d') i j = b"
proof -
  let ?u = "append_uvarint (of_nat (length b))"
  obtain d1 where d1: "rd_uvarint d = Inr (of_nat (length b), d1)" "reads_at d1 (pre @ ?u) (b @ rest)"
    using rd_uvarint_append[of d pre _ "b @ rest"] assms(1) by auto
  have "unat (of_nat (length b) :: 64 word) = length b" using assms(2) by (simp add: unat_of_nat)
  then show ?thesis using d1 by (auto simp: rd_span_def reads_at_def slice_def Let_def)
qed

lemma rd_string_append:
  assumes "reads_at d pre (appendBytesCell [] b @ rest)" "length b < 2 ^ 64"
  shows "\<exists>d'. rd_string d = Inr (b, d') \<and> reads_at d' (pre @ appendBytesCell [] b) rest"
proof -
  obtain d1 i j where "rd_span d = Inr ((i, j), d1)" "reads_at d1 (pre @ appendBytesCell [] b) rest"
    "slice (rd_data d1) i j = b"
    using rd_span_append[OF assms] by blast
  then show ?thesis by (auto simp: rd_string_def reads_at_def Let_def text_ok_def)
qed

section \<open>Magnitudes\<close>

lemma setBytes_snoc: "setBytes (bs @ [b]) = setBytes bs * 256 + unat b"
  by (simp add: setBytes_def)

lemma setBytes_magnitude: "setBytes (magnitude n) = n"
proof (induction n rule: magnitude.induct)
  case (1 n)
  show ?case
  proof (cases "n = 0")
    case True
    then show ?thesis by (simp add: magnitude.simps setBytes_def)
  next
    case False
    have "unat (of_nat (n mod 256) :: byte) = n mod 256" by (simp add: unat_of_nat)
    then show ?thesis using 1 False by (subst magnitude.simps) (simp add: setBytes_snoc)
  qed
qed

section \<open>Values in the form of their column type\<close>

fun cell_ok :: "sqllib \<Rightarrow> coltype \<Rightarrow> val \<Rightarrow> bool" where
  "cell_ok lib typ (VInt8 w) \<longleftrightarrow> ctype typ = T_INT8"
| "cell_ok lib typ (VInt16 w) \<longleftrightarrow> ctype typ = T_INT16"
| "cell_ok lib typ (VInt32 w) \<longleftrightarrow> ctype typ \<in> {T_INT24, T_INT32}"
| "cell_ok lib typ (VInt64 w) \<longleftrightarrow> ctype typ = T_INT64"
| "cell_ok lib typ (VUint8 w) \<longleftrightarrow> ctype typ = T_UINT8"
| "cell_ok lib typ (VUint16 w) \<longleftrightarrow> ctype typ \<in> {T_UINT16, T_ENUM}"
| "cell_ok lib typ (VUint32 w) \<longleftrightarrow> ctype typ \<in> {T_UINT24, T_UINT32}"
| "cell_ok lib typ (VUint64 w) \<longleftrightarrow> ctype typ = T_UINT64"
| "cell_ok lib typ (VFloat32 w) \<longleftrightarrow> ctype typ = T_FLOAT32"
| "cell_ok lib typ (VFloat64 w) \<longleftrightarrow> ctype typ = T_FLOAT64"
| "cell_ok lib typ (VTime ns) \<longleftrightarrow>
     is_datetime (ctype typ) \<and> ns mod 1000 = 0 \<and> - (2 ^ 63) \<le> ns div 1000 \<and> ns div 1000 < 2 ^ 63"
| "cell_ok lib typ (VTimespan w) \<longleftrightarrow> ctype typ = T_TIME"
| "cell_ok lib typ (VDecimal d) \<longleftrightarrow>
     ctype typ = T_DECIMAL \<and> dfinite d \<and> cscale typ = Some (- dexponent d) \<and> (dnegative d \<longrightarrow> dcoeff d \<noteq> 0)"
| "cell_ok lib typ (VJSON j) \<longleftrightarrow>
     ctype typ = T_JSON \<and> (case json_string lib j of Inl _ \<Rightarrow> False | Inr s \<Rightarrow> json_convert lib s = Inr j)"
| "cell_ok lib typ (VBytes b) \<longleftrightarrow> is_binary (ctype typ)"
| "cell_ok lib typ (VString b) \<longleftrightarrow> is_text (ctype typ) \<or> ctype typ = T_OTHER"
| "cell_ok lib typ _ \<longleftrightarrow> False"

lemma appendCell_dst: "appendCell lib dst typ v = map_sum id (append dst) (appendCell lib [] typ v)"
  unfolding appendCell_def Let_def appendDecimalCell_def
  by (auto simp: appendBytesCell_def Let_def split: option.split val.split sum.split)

lemma cell_ok_encodes: "cell_ok lib typ v \<Longrightarrow> \<exists>c. appendCell lib [] typ v = Inr c"
  by (cases v) (auto simp: appendCell_def Let_def qtype_classes appendDecimalCell_def split: sum.splits)

lemma sint_small: "n < 2 ^ 63 \<Longrightarrow> sint (of_nat n :: 64 word) = int n"
  "n < 2 ^ 63 \<Longrightarrow> sint (- (of_nat n :: 64 word)) = - int n"
proof -
  assume n: "n < 2 ^ 63"
  have "sint (of_int (int n) :: 64 word) = int n"
    using n by (simp only: sint_sbintrunc') (simp add: signed_take_bit_int_eq_self)
  then show "sint (of_nat n :: 64 word) = int n" by simp
  have "sint (of_int (- int n) :: 64 word) = - int n"
    using n by (simp only: sint_sbintrunc') (simp add: signed_take_bit_int_eq_self)
  then show "sint (- (of_nat n :: 64 word)) = - int n" by simp
qed

lemma rd_decimal_append:
  assumes "appendDecimalCell lib [] x (- dexponent x) = Inr c" "dfinite x" "dnegative x \<longrightarrow> dcoeff x \<noteq> 0"
    and at: "reads_at d pre (c @ rest)" "length (rd_data d) < 2 ^ 64"
  shows "\<exists>d'. rd_decimal (- dexponent x) d = Inr (x, d') \<and> reads_at d' (pre @ c) rest"
proof (cases "dcoeff x < 2 ^ 63")
  case True
  let ?v = "if dnegative x then - of_nat (dcoeff x) else of_nat (dcoeff x) :: 64 word"
  have c: "c = [decimalSmall] @ append_varint ?v"
    using assms(1-3) True by (auto simp: appendDecimalCell_def Let_def)
  obtain d1 where d1: "rd_fixed 1 d = Inr ([decimalSmall], d1)" "reads_at d1 (pre @ [decimalSmall]) (append_varint ?v @ rest)"
    using rd_fixed_append[of d pre "[decimalSmall]"] at(1) c by auto
  obtain d2 where d2: "rd_varint d1 = Inr (?v, d2)" "reads_at d2 ((pre @ [decimalSmall]) @ append_varint ?v) rest"
    using rd_varint_append[OF d1(2)] by blast
  have "unat (of_nat (dcoeff x) :: 64 word) = dcoeff x" using True by (simp add: unat_of_nat)
  moreover have "sint ?v < 0 \<longleftrightarrow> dnegative x" using sint_small[OF True] assms(3) by auto
  ultimately have "rd_decimal (- dexponent x) d = Inr (x, d2)"
    using d1(1) d2(1) assms(2) by (auto simp: rd_decimal_def)
  then show ?thesis using d2(2) c by auto
next
  case False
  let ?s = "if dnegative x then 1 else 0 :: byte"
  have c: "c = [decimalBig] @ [?s] @ appendBytesCell [] (magnitude (dcoeff x))"
    using assms(1-3) False by (auto simp: appendDecimalCell_def Let_def appendBytesCell_def)
  obtain d1 where d1: "rd_fixed 1 d = Inr ([decimalBig], d1)"
    "reads_at d1 (pre @ [decimalBig]) ([?s] @ appendBytesCell [] (magnitude (dcoeff x)) @ rest)"
    using rd_fixed_append[of d pre "[decimalBig]"] at(1) c by auto
  obtain d2 where d2: "rd_fixed 1 d1 = Inr ([?s], d2)"
    "reads_at d2 ((pre @ [decimalBig]) @ [?s]) (appendBytesCell [] (magnitude (dcoeff x)) @ rest)"
    using rd_fixed_append[OF d1(2)] by auto
  have "length (magnitude (dcoeff x)) < 2 ^ 64" using at c by (simp add: reads_at_def)
  then obtain d3 i j where d3: "rd_span d2 = Inr ((i, j), d3)"
    "reads_at d3 (((pre @ [decimalBig]) @ [?s]) @ appendBytesCell [] (magnitude (dcoeff x))) rest"
    "slice (rd_data d3) i j = magnitude (dcoeff x)"
    using rd_span_append[OF d2(2)] by blast
  have "rd_decimal (- dexponent x) d = Inr (x, d3)"
    using d1(1) d2(1) d3(1,3) assms(2)
    by (auto simp: rd_decimal_def decimalSmall_def decimalBig_def setBytes_magnitude)
  then show ?thesis using d3(2) c by auto
qed

lemma cell_rd_varint:
  "reads_at d pre (append_varint v @ rest) \<Longrightarrow> f v = x \<Longrightarrow>
     \<exists>d'. rd_map f (rd_varint d) = Inr (x, d') \<and> reads_at d' (pre @ append_varint v) rest"
  using rd_varint_append[of d pre v rest] by (auto simp: rd_map_def)

lemma cell_rd_uvarint:
  "reads_at d pre (append_uvarint v @ rest) \<Longrightarrow> f v = x \<Longrightarrow>
     \<exists>d'. rd_map f (rd_uvarint d) = Inr (x, d') \<and> reads_at d' (pre @ append_uvarint v) rest"
  using rd_uvarint_append[of d pre v rest] by (auto simp: rd_map_def)

lemma cell_rd_fixed:
  "reads_at d pre (b @ rest) \<Longrightarrow> length b = n \<Longrightarrow> f b = x \<Longrightarrow>
     \<exists>d'. rd_map f (rd_fixed n d) = Inr (x, d') \<and> reads_at d' (pre @ b) rest"
  using rd_fixed_append[of d pre b rest n] by (auto simp: rd_map_def)

lemma ucast_scast_down:
  "ucast (scast (w8 :: 8 word) :: 64 word) = w8" "ucast (scast (w16 :: 16 word) :: 64 word) = w16"
  "ucast (scast (w32 :: 32 word) :: 64 word) = w32"
  by (intro bit_word_eqI; simp add: bit_simps)+

lemma ucast_ucast_down:
  "ucast (ucast (w8 :: 8 word) :: 64 word) = w8" "ucast (ucast (w16 :: 16 word) :: 64 word) = w16"
  "ucast (ucast (w32 :: 32 word) :: 64 word) = w32"
  by (intro bit_word_eqI; simp add: bit_simps)+

lemma enum_small: "\<not> (ucast (w :: 16 word) :: 64 word) > 65535"
proof -
  have "uint (ucast w :: 64 word) < 2 ^ 16"
    using uint_lt2p[of w] by (simp add: unsigned_ucast_eq take_bit_int_eq_self)
  then show ?thesis by (simp add: word_less_def)
qed

lemma UnixMicro_back:
  assumes "ns mod 1000 = 0" "- (2 ^ 63) \<le> ns div 1000" "ns div 1000 < 2 ^ 63"
  shows "sint (time_UnixMicro ns) * 1000 = ns"
proof -
  have "sint (time_UnixMicro ns) = ns div 1000"
    unfolding time_UnixMicro_def sint_sbintrunc' using assms(2,3) by (simp add: signed_take_bit_int_eq_self)
  then show ?thesis using assms(1) by (simp add: minus_mod_eq_div_mult[symmetric])
qed

lemma rd_cell_append:
  assumes "cell_ok lib typ v" "appendCell lib [] typ v = Inr c"
    and at: "reads_at d pre (c @ rest)" "length (rd_data d) < 2 ^ 64"
  shows "\<exists>d'. rd_cell lib typ d = Inr (v, d') \<and> reads_at d' (pre @ c) rest"
proof -
  have len: "length b < 2 ^ 64" if "c = appendBytesCell [] b" for b
    using at that by (simp add: reads_at_def)
  show ?thesis
  proof (cases v)
    case (VDecimal x)
    then have "appendDecimalCell lib [] x (- dexponent x) = Inr c" "dfinite x" "dnegative x \<longrightarrow> dcoeff x \<noteq> 0"
      "ctype typ = T_DECIMAL" "cscale typ = Some (- dexponent x)"
      using assms(1,2) by (auto simp: appendCell_def qtype_classes)
    then show ?thesis
      using rd_decimal_append[OF _ _ _ at] VDecimal by (fastforce simp: rd_cell_def qtype_classes rd_map_def)
  next
    case (VJSON j)
    then obtain s where s: "json_string lib j = Inr s" "json_convert lib s = Inr j" "ctype typ = T_JSON"
      "c = appendBytesCell [] s"
      using assms(1,2) by (auto simp: appendCell_def qtype_classes split: sum.splits)
    then obtain d' where "rd_string d = Inr (s, d')" "reads_at d' (pre @ c) rest"
      using rd_string_append[of d pre s rest] at len by blast
    then show ?thesis using s VJSON by (simp add: rd_cell_def qtype_classes)
  next
    case (VString b)
    then have b: "c = appendBytesCell [] b" "is_text (ctype typ) \<or> ctype typ = T_OTHER"
      using assms(1,2) by (auto simp: appendCell_def qtype_classes)
    then obtain d' where "rd_string d = Inr (b, d')" "reads_at d' (pre @ c) rest"
      using rd_string_append[of d pre b rest] at len by blast
    then show ?thesis using b VString by (auto simp: rd_cell_def qtype_classes rd_map_def)
  next
    case (VBytes b)
    then have b: "c = appendBytesCell [] b" "is_binary (ctype typ)"
      using assms(1,2) by (auto simp: appendCell_def qtype_classes)
    then obtain d' i j where "rd_span d = Inr ((i, j), d')" "reads_at d' (pre @ c) rest" "slice (rd_data d') i j = b"
      using rd_span_append[of d pre b rest] at len by blast
    then show ?thesis using b VBytes by (auto simp: rd_cell_def qtype_classes)
  next
    case (VUint16 w)
    then have c: "c = append_uvarint (ucast w)" using assms(1,2) by (auto simp: appendCell_def qtype_classes)
    then obtain d' where "rd_uvarint d = Inr (ucast w, d')" "reads_at d' (pre @ c) rest"
      using rd_uvarint_append at(1) by blast
    then show ?thesis
      using VUint16 assms(1) enum_small[of w]
      by (auto simp: rd_cell_def qtype_classes rd_map_def unsigned_cell_def ucast_ucast_down)
  qed (use assms(1,2) at in
      \<open>auto simp: appendCell_def rd_cell_def qtype_classes signed_cell_def unsigned_cell_def
          ucast_scast_down ucast_ucast_down le_word_le_bytes_full UnixMicro_back
        intro!: cell_rd_varint cell_rd_uvarint cell_rd_fixed\<close>)
qed

section \<open>The NULL bitmap\<close>

lemma is_null_bit: "is_null nulls i \<longleftrightarrow> bit (nulls ! (i div 8)) (i mod 8)"
proof -
  have "push_bit (i mod 8) (1 :: byte) = 2 ^ (i mod 8)" by (simp add: push_bit_eq_mult)
  then show ?thesis unfolding is_null_def by (simp add: and_exp_eq_0_iff_not_bit)
qed

fun set_nulls :: "nat \<Rightarrow> row \<Rightarrow> bytes \<Rightarrow> bytes" where
  "set_nulls i [] bm = bm"
| "set_nulls i (None # row) bm = set_nulls (Suc i) row (bm[i div 8 := bm ! (i div 8) OR push_bit (i mod 8) 1])"
| "set_nulls i (Some v # row) bm = set_nulls (Suc i) row bm"

lemma length_set_nulls [simp]: "length (set_nulls i row bm) = length bm"
  by (induction i row bm rule: set_nulls.induct) auto

lemma is_null_update:
  assumes "i div 8 < length bm"
  shows "is_null (bm[i div 8 := bm ! (i div 8) OR 2 ^ (i mod 8)]) k \<longleftrightarrow> is_null bm k \<or> k = i"
proof (cases "k div 8 = i div 8")
  case True
  then have "k = i \<longleftrightarrow> k mod 8 = i mod 8" by (metis div_mult_mod_eq)
  then show ?thesis using True assms by (auto simp: is_null_bit bit_or_iff bit_exp_iff)
next
  case False
  then show ?thesis by (auto simp: is_null_bit)
qed

lemma is_null_set_nulls:
  assumes "i + length row \<le> 8 * length bm"
  shows "is_null (set_nulls i row bm) k \<longleftrightarrow>
    is_null bm k \<or> (i \<le> k \<and> k < i + length row \<and> row ! (k - i) = None)"
  using assms
proof (induction i row bm rule: set_nulls.induct)
  case (2 i row bm)
  then have "i div 8 < length bm" by (simp add: div_less_iff_less_mult)
  then show ?case using 2 by (auto simp: is_null_update nth_Cons' Suc_le_eq)
next
  case (3 i v row bm)
  then show ?case by (auto simp: nth_Cons' Suc_le_eq)
qed auto

section \<open>Rows\<close>

fun row_cells :: "sqllib \<Rightarrow> column list \<Rightarrow> row \<Rightarrow> error + bytes" where
  "row_cells lib (col # cols) (None # row) = row_cells lib cols row"
| "row_cells lib (col # cols) (Some v # row) =
     (case appendCell lib [] (col_type col) v of
        Inl e \<Rightarrow> Inl e | Inr c \<Rightarrow> map_sum id (append c) (row_cells lib cols row))"
| "row_cells lib _ _ = Inr []"

lemma encode_row_loop_cells:
  assumes "i + length row = length schema" "length schema \<le> 8 * length bm"
  shows "encode_row_loop lib schema (length h) i row (h @ bm @ body) =
    map_sum id (\<lambda>c. h @ set_nulls i row bm @ body @ c) (row_cells lib (drop i schema) row)"
  using assms
proof (induction row arbitrary: i bm body)
  case Nil
  then show ?case by simp
next
  case (Cons x row)
  then have drop: "drop i schema = schema ! i # drop (Suc i) schema"
    by (intro Cons_nth_drop_Suc[symmetric]) simp
  have i: "i div 8 < length bm" using Cons.prems by (simp add: div_less_iff_less_mult)
  show ?case
  proof (cases x)
    case None
    have "encode_row_loop lib schema (length h) i (x # row) (h @ bm @ body) =
      encode_row_loop lib schema (length h) (Suc i) row (h @ bm[i div 8 := bm ! (i div 8) OR push_bit (i mod 8) 1] @ body)"
      using None i by (simp add: Let_def nth_append list_update_append)
    then show ?thesis using None drop Cons.IH[of "Suc i" "bm[i div 8 := bm ! (i div 8) OR push_bit (i mod 8) 1]" body] Cons.prems
      by simp
  next
    case (Some v)
    show ?thesis
    proof (cases "appendCell lib [] (col_type (schema ! i)) v")
      case (Inl e)
      then show ?thesis using Some drop appendCell_dst[of lib "h @ bm @ body"] by simp
    next
      case (Inr c)
      then have "encode_row_loop lib schema (length h) i (x # row) (h @ bm @ body) =
        encode_row_loop lib schema (length h) (Suc i) row (h @ bm @ (body @ c))"
        using Some appendCell_dst[of lib "h @ bm @ body"] by simp
      then show ?thesis
        using Some drop Inr Cons.IH[of "Suc i" bm "body @ c"] Cons.prems
        by (simp add: map_sum.compositionality comp_def)
    qed
  qed
qed

definition null_map :: "row \<Rightarrow> bytes" where
  "null_map row = set_nulls 0 row (replicate ((length row + 7) div 8) 0)"

lemma encodeRow_cells:
  "length row = length schema \<Longrightarrow>
    encodeRow lib schema row =
      map_sum id (\<lambda>c. append_uvarint (of_nat (length row)) @ null_map row @ c) (row_cells lib schema row)"
  using encode_row_loop_cells[of 0 row schema "replicate ((length row + 7) div 8) 0" lib
      "append_uvarint (of_nat (length row))" "[]"]
  by (simp add: encodeRow_def Let_def null_map_def)

lemma is_null_null_map: "k < length row \<Longrightarrow> is_null (null_map row) k \<longleftrightarrow> row ! k = None"
proof -
  assume k: "k < length row"
  then have "k div 8 < (length row + 7) div 8" by (simp add: div_less_iff_less_mult)
  then have "\<not> is_null (replicate ((length row + 7) div 8) 0) k" by (simp add: is_null_bit)
  then show ?thesis
    unfolding null_map_def using k by (subst is_null_set_nulls) auto
qed

definition row_ok :: "sqllib \<Rightarrow> column list \<Rightarrow> row \<Rightarrow> bool" where
  "row_ok lib schema row \<longleftrightarrow>
     list_all2 (\<lambda>col x. case x of None \<Rightarrow> True | Some v \<Rightarrow> cell_ok lib (col_type col) v) schema row"

lemma decode_row_loop_cells:
  assumes "row_ok lib cols row" "row_cells lib cols row = Inr c"
    "\<forall>k < length row. is_null nulls (i + k) \<longleftrightarrow> row ! k = None"
    "reads_at d pre (c @ rest)" "length (rd_data d) < 2 ^ 64"
  shows "\<exists>d'. decode_row_loop lib nulls i cols d = Inr (row, d') \<and> reads_at d' (pre @ c) rest"
  using assms
proof (induction cols row arbitrary: i c d pre rule: row_cells.induct)
  case (1 lib col cols row)
  have null: "is_null nulls i" using 1(4) by auto
  have "\<forall>k < length row. is_null nulls (Suc i + k) \<longleftrightarrow> row ! k = None" using 1(4) by auto
  then show ?case
    using 1(1)[of c "Suc i" d pre] 1(2,3,5,6) null by (auto simp: row_ok_def rd_map_def)
next
  case (2 lib col cols v row)
  from 2(3) obtain cv cr where c: "appendCell lib [] (col_type col) v = Inr cv" "row_cells lib cols row = Inr cr" "c = cv @ cr"
    by (auto split: sum.splits simp: map_sum_def)
  have null: "\<not> is_null nulls i" using 2(4) by auto
  have nulls: "\<forall>k < length row. is_null nulls (Suc i + k) \<longleftrightarrow> row ! k = None" using 2(4) by auto
  have ok: "cell_ok lib (col_type col) v" "row_ok lib cols row" using 2(2) by (auto simp: row_ok_def)
  obtain d1 where d1: "rd_cell lib (col_type col) d = Inr (v, d1)" "reads_at d1 (pre @ cv) (cr @ rest)"
    using rd_cell_append[OF ok(1) c(1), of d pre "cr @ rest"] 2(5,6) c(3) by auto
  have "length (rd_data d1) < 2 ^ 64" using 2(5,6) d1(2) c(3) by (simp add: reads_at_def)
  then obtain d2 where "decode_row_loop lib nulls (Suc i) cols d1 = Inr (row, d2)" "reads_at d2 ((pre @ cv) @ cr) rest"
    using 2(1)[OF c(1) ok(2) c(2) nulls d1(2)] by blast
  then show ?case using null d1(1) c(3) by (auto simp: rd_map_def)
qed (auto simp: row_ok_def)

theorem row_roundtrip:
  assumes "row_ok lib schema row" "encodeRow lib schema row = Inr data" "length data < 2 ^ 64"
  shows "decodeRow lib schema data = Inr row"
proof -
  let ?u = "append_uvarint (of_nat (length row))"
  have len: "length row = length schema" using assms(1) by (simp add: row_ok_def list_all2_lengthD)
  from assms(2) encodeRow_cells[OF len, of lib] obtain c where c: "row_cells lib schema row = Inr c"
    "data = ?u @ null_map row @ c" by (auto simp: map_sum_def split: sum.splits)
  let ?d = "\<lparr>rd_data = data, rd_pos = length ?u + length (null_map row), rd_text = []\<rparr>"
  have hdr: "row_header schema data = Inr (null_map row, ?d)"
    using c(2) len by (simp add: row_header_def uvarint_append slice_def null_map_def)
  have "reads_at ?d (?u @ null_map row) (c @ [])" using c(2) by (simp add: reads_at_def text_ok_def)
  then obtain d' where "decode_row_loop lib (null_map row) 0 schema ?d = Inr (row, d')"
    "reads_at d' ((?u @ null_map row) @ c) []"
    using decode_row_loop_cells[OF assms(1) c(1), where i = 0] is_null_null_map[of _ row] assms(3)
    by (metis add_0 rowDecoder.select_convs(1))
  then show ?thesis using hdr c(2) by (simp add: decodeRow_def reads_at_def)
qed

lemma row_cells_ok: "row_ok lib cols row \<Longrightarrow> \<exists>c. row_cells lib cols row = Inr c"
proof (induction cols row rule: row_cells.induct)
  case (2 lib col cols v row)
  then obtain cv where "appendCell lib [] (col_type col) v = Inr cv" using cell_ok_encodes by (fastforce simp: row_ok_def)
  moreover have "row_ok lib cols row" using 2(2) by (simp add: row_ok_def)
  ultimately show ?case using 2(1) by fastforce
qed (auto simp: row_ok_def)

lemma encodeRow_ok: "row_ok lib schema row \<Longrightarrow> \<exists>data. encodeRow lib schema row = Inr data"
  using row_cells_ok[of lib schema row] encodeRow_cells[of row schema lib]
  by (auto simp: row_ok_def dest: list_all2_lengthD)

end
