(* ===== verification/Row_Project.thy ===== *)
theory Row_Project
  imports Row_Roundtrip
begin

text \<open>
  Decoding under a projection. A decoder that skips cells reaches the same positions as the one
  that decodes them, so \<open>decodeRowProjected\<close> gives the projection of what \<open>decodeRow\<close> gives.
\<close>

section \<open>Decoders at the same position\<close>

definition same_place :: "rowDecoder \<Rightarrow> rowDecoder \<Rightarrow> bool" where
  "same_place d e \<longleftrightarrow> rd_data d = rd_data e \<and> rd_pos d = rd_pos e \<and> text_ok d \<and> text_ok e"

lemma rd_varint_same:
  "rd_varint d = Inr (v, d') \<Longrightarrow> same_place d e \<Longrightarrow> \<exists>e'. rd_varint e = Inr (v, e') \<and> same_place d' e'"
  by (auto simp: rd_varint_def same_place_def split: prod.splits if_splits)

lemma rd_uvarint_same:
  "rd_uvarint d = Inr (v, d') \<Longrightarrow> same_place d e \<Longrightarrow> \<exists>e'. rd_uvarint e = Inr (v, e') \<and> same_place d' e'"
  by (auto simp: rd_uvarint_def same_place_def split: prod.splits if_splits)

lemma rd_fixed_same:
  "rd_fixed n d = Inr (v, d') \<Longrightarrow> same_place d e \<Longrightarrow> \<exists>e'. rd_fixed n e = Inr (v, e') \<and> same_place d' e'"
  by (auto simp: rd_fixed_def same_place_def split: if_splits)

lemma rd_span_same:
  assumes "rd_span d = Inr (v, d')" "same_place d e"
  shows "\<exists>e'. rd_span e = Inr (v, e') \<and> same_place d' e'"
proof -
  from assms(1) obtain l d1 where d1: "rd_uvarint d = Inr (l, d1)"
    by (auto simp: rd_span_def split: sum.splits)
  then obtain e1 where "rd_uvarint e = Inr (l, e1)" "same_place d1 e1"
    using rd_uvarint_same assms(2) by blast
  then show ?thesis using assms(1) d1 by (auto simp: rd_span_def same_place_def Let_def split: if_splits)
qed

lemma rd_string_same:
  assumes "rd_string d = Inr (v, d')" "same_place d e"
  shows "\<exists>e'. rd_string e = Inr (v, e') \<and> same_place d' e'"
    and "\<exists>x e'. rd_span e = Inr (x, e') \<and> same_place d' e'"
proof -
  from assms(1) obtain i j d1 where d1: "rd_span d = Inr ((i, j), d1)"
    by (auto simp: rd_string_def split: sum.splits)
  then obtain e1 where e1: "rd_span e = Inr ((i, j), e1)" "same_place d1 e1"
    using rd_span_same assms(2) by blast
  then show "\<exists>e'. rd_string e = Inr (v, e') \<and> same_place d' e'"
    using assms(1) d1 by (auto simp: rd_string_def same_place_def text_ok_def Let_def split: if_splits)
  show "\<exists>x e'. rd_span e = Inr (x, e') \<and> same_place d' e'"
    using assms(1) d1 e1 by (auto simp: rd_string_def same_place_def text_ok_def Let_def split: if_splits)
qed

lemmas rd_same = rd_varint_same rd_uvarint_same rd_fixed_same rd_span_same rd_string_same

lemma rd_map_same:
  assumes "rd_map f r = Inr (v, d')" "\<And>x d'. r = Inr (x, d') \<Longrightarrow> \<exists>e'. s = Inr (x, e') \<and> same_place d' e'"
  shows "\<exists>e'. rd_map f s = Inr (v, e') \<and> same_place d' e'"
  using assms by (cases r) (fastforce simp: rd_map_def)+

lemma rd_done_same:
  assumes "rd_map f r = Inr (v, d')" "\<And>x d'. r = Inr (x, d') \<Longrightarrow> \<exists>y e'. s = Inr (y, e') \<and> same_place d' e'"
  shows "\<exists>e'. rd_done s = Inr e' \<and> same_place d' e'"
  using assms by (cases r) (fastforce simp: rd_map_def rd_done_def)+

lemma rd_decimal_same:
  assumes "rd_decimal n d = Inr (v, d')" "same_place d e"
  shows "\<exists>e'. rd_decimal n e = Inr (v, e') \<and> same_place d' e'"
proof -
  from assms(1) obtain tag d1 where d1: "rd_fixed 1 d = Inr (tag, d1)"
    by (auto simp: rd_decimal_def split: sum.splits)
  then obtain e1 where e1: "rd_fixed 1 e = Inr (tag, e1)" "same_place d1 e1"
    using rd_fixed_same assms(2) by blast
  show ?thesis
  proof (cases "tag ! 0 = decimalSmall")
    case True
    then show ?thesis
      using assms(1) d1 e1 rd_varint_same[OF _ e1(2)] by (fastforce simp: rd_decimal_def split: sum.splits)
  next
    case False
    with assms(1) d1 have big: "tag ! 0 = decimalBig" by (auto simp: rd_decimal_def split: if_splits)
    with assms(1) d1 False obtain sign d2 where d2: "rd_fixed 1 d1 = Inr (sign, d2)"
      by (auto simp: rd_decimal_def split: sum.splits)
    then obtain e2 where e2: "rd_fixed 1 e1 = Inr (sign, e2)" "same_place d2 e2"
      using rd_fixed_same e1(2) by blast
    from assms(1) d1 d2 False big obtain i j d3 where d3: "rd_span d2 = Inr ((i, j), d3)"
      by (auto simp: rd_decimal_def split: sum.splits)
    then obtain e3 where "rd_span e2 = Inr ((i, j), e3)" "same_place d3 e3"
      using rd_span_same e2(2) by blast
    then show ?thesis
      using assms(1) d1 d2 d3 e1 e2 False big by (auto simp: rd_decimal_def same_place_def)
  qed
qed

lemma rd_cell_same:
  assumes "rd_cell lib typ d = Inr (v, d')" "same_place d e"
  shows "\<exists>e'. rd_cell lib typ e = Inr (v, e') \<and> same_place d' e'"
proof (cases "ctype typ = T_JSON \<or> ctype typ = T_ENUM \<or> is_binary (ctype typ)")
  case True
  then show ?thesis
  proof (elim disjE)
    assume t: "ctype typ = T_JSON"
    then obtain s d1 where "rd_string d = Inr (s, d1)"
      using assms(1) by (auto simp: rd_cell_def qtype_classes split: sum.splits)
    then show ?thesis
      using rd_string_same(1)[OF _ assms(2)] assms(1) t
      by (fastforce simp: rd_cell_def qtype_classes split: sum.splits)
  next
    assume t: "ctype typ = T_ENUM"
    then obtain s d1 where "rd_uvarint d = Inr (s, d1)"
      using assms(1) by (auto simp: rd_cell_def qtype_classes split: sum.splits)
    then show ?thesis
      using rd_uvarint_same[OF _ assms(2)] assms(1) t
      by (fastforce simp: rd_cell_def qtype_classes split: if_splits)
  next
    assume t: "is_binary (ctype typ)"
    then obtain i j d1 where "rd_span d = Inr ((i, j), d1)"
      using assms(1) by (auto simp: rd_cell_def qtype_classes split: sum.splits)
    then show ?thesis
      using rd_span_same[OF _ assms(2)] assms(1) t
      by (fastforce simp: rd_cell_def qtype_classes same_place_def)
  qed
next
  case False
  then show ?thesis
    using assms unfolding rd_cell_def Let_def
    by (auto split: if_splits option.splits
        intro: rd_map_same rd_varint_same rd_uvarint_same rd_fixed_same rd_string_same rd_decimal_same)
qed

lemma same_place_refl: "text_ok d \<Longrightarrow> same_place d d"
  by (simp add: same_place_def)

lemma rd_skip_cell:
  assumes "rd_cell lib typ d = Inr (v, d')" "text_ok d"
  shows "\<exists>e'. rd_skip typ d = Inr e' \<and> same_place d' e'"
proof -
  note refl = same_place_refl[OF assms(2)]
  have ok: "text_ok d'" using rd_cell_same[OF assms(1) refl] by (auto simp: same_place_def)
  show ?thesis
  proof (cases "ctype typ = T_DECIMAL")
    case True
    then show ?thesis
      using assms(1) same_place_refl[OF ok]
      by (auto simp: rd_cell_def rd_skip_def qtype_classes rd_map_def rd_decimal_def rd_done_def map_sum_def
          split: option.splits sum.splits if_splits)
  next
    case dec: False
    show ?thesis
    proof (cases "ctype typ \<in> {T_JSON, T_OTHER} \<or> is_text (ctype typ)")
      case True
      then obtain s d1 where d1: "rd_string d = Inr (s, d1)" "d1 = d'"
        using assms(1) by (auto simp: rd_cell_def qtype_classes rd_map_def map_sum_def split: sum.splits)
      then show ?thesis
        using rd_string_same(2)[OF d1(1) refl] True by (auto simp: rd_skip_def qtype_classes rd_done_def)
    next
      case False
      then show ?thesis
        using assms(1) same_place_refl[OF ok] dec
        by (cases "ctype typ")
          (auto simp: rd_cell_def rd_skip_def qtype_classes rd_map_def rd_done_def map_sum_def
            split: sum.splits if_splits)
    qed
  qed
qed

lemma rd_skip_same:
  assumes "rd_cell lib typ d = Inr (v, d')" "same_place d e"
  shows "\<exists>e'. rd_skip typ e = Inr e' \<and> same_place d' e'"
proof -
  obtain e1 where e1: "rd_cell lib typ e = Inr (v, e1)" "same_place d' e1"
    using rd_cell_same[OF assms] by blast
  then show ?thesis
    using rd_skip_cell[OF e1(1)] assms(2) by (auto simp: same_place_def)
qed

section \<open>Projections\<close>

definition first_at :: "nat list \<Rightarrow> nat \<Rightarrow> nat" where
  "first_at ords k = length (takeWhile (\<lambda>x. x \<noteq> k) ords)"

lemma first_at_append: "k \<in> set xs \<Longrightarrow> first_at (xs @ ys) k = first_at xs k"
  "k \<notin> set xs \<Longrightarrow> first_at (xs @ k # ys) k = length xs"
  unfolding first_at_def by (auto simp: takeWhile_append1) (subst takeWhile_append2; auto)

lemma first_at_nth: "k \<in> set ords \<Longrightarrow> first_at ords k < length ords \<and> ords ! first_at ords k = k"
  unfolding first_at_def
  by (metis (mono_tags, lifting) length_takeWhile_le nth_length_takeWhile order_le_less takeWhile_eq_all_conv takeWhile_eq_take take_all_iff order_refl)

lemma first_at_le: "j < length ords \<Longrightarrow> first_at ords (ords ! j) \<le> j"
  unfolding first_at_def by (metis (mono_tags, lifting) linorder_not_less nth_mem nth_take set_takeWhileD takeWhile_eq_take length_take min.absorb2 less_imp_le nth_take_lemma takeWhile_nth)

definition projects :: "nat \<Rightarrow> nat list \<Rightarrow> rowProjection \<Rightarrow> bool" where
  "projects width ds p \<longleftrightarrow>
     length (p_slot p) = width \<and>
     (\<forall>k < width. p_slot p ! k = (if k \<in> set ds then int (first_at ds k) else - 1)) \<and>
     (\<forall>k \<in> set ds. int k \<le> p_last p) \<and> p_last p < int width \<and> (p_last p < 0 \<longrightarrow> ds = []) \<and>
     (p_repeats p \<longleftrightarrow> \<not> distinct ds)"

lemma projection_loop_projects:
  assumes "projection_loop (length ds) ords p = Inr q" "projects width ds p"
  shows "projects width (ds @ ords) q \<and> p_ordinals q = p_ordinals p \<and> (\<forall>k \<in> set ords. k < width)"
  using assms
proof (induction ords arbitrary: ds p)
  case (Cons k ords)
  have k: "k < width" using Cons.prems by (auto simp: projects_def split: if_splits)
  obtain p' where p': "projection_loop (length (ds @ [k])) ords p' = Inr q" "projects width (ds @ [k]) p'"
      "p_ordinals p' = p_ordinals p"
  proof (cases "k \<in> set ds")
    case True
    then have "projection_loop (length (ds @ [k])) ords (p\<lparr>p_repeats := True\<rparr>) = Inr q"
      using Cons.prems k by (auto simp: projects_def)
    moreover have "projects width (ds @ [k]) (p\<lparr>p_repeats := True\<rparr>)"
      using Cons.prems(2) True by (auto simp: projects_def first_at_append)
    ultimately show ?thesis using that by simp
  next
    case False
    let ?p = "p\<lparr>p_slot := (p_slot p)[k := int (length ds)], p_last := max (p_last p) (int k)\<rparr>"
    have "projection_loop (length (ds @ [k])) ords ?p = Inr q"
      using Cons.prems k False by (auto simp: projects_def)
    moreover have "projects width (ds @ [k]) ?p"
      using Cons.prems(2) False k
      by (auto simp: projects_def first_at_append(2)[of k ds "[]"] first_at_append(1) nth_list_update)
    ultimately show ?thesis using that by simp
  qed
  show ?case using Cons.IH[OF p'(1,2)] p'(3) k by simp
qed simp

lemma newRowProjection_projects:
  assumes "newRowProjection width ords = Inr (Some p)"
  shows "projects width ords p" "p_ordinals p = ords" "\<forall>k \<in> set ords. k < width"
proof -
  let ?p = "\<lparr>p_ordinals = ords, p_slot = replicate width (- 1), p_last = - 1, p_repeats = False\<rparr>"
  have "projection_loop (length ([] :: nat list)) ords ?p = Inr p"
    using assms by (auto simp: newRowProjection_def map_sum_def split: if_splits sum.splits)
  moreover have "projects width [] ?p" by (simp add: projects_def)
  ultimately show "projects width ords p" "p_ordinals p = ords" "\<forall>k \<in> set ords. k < width"
    using projection_loop_projects[of "[]" ords ?p p width] by auto
qed

text \<open>The output slots once the columns below \<open>i\<close> are read.\<close>

definition filled :: "nat list \<Rightarrow> row \<Rightarrow> nat \<Rightarrow> row" where
  "filled ords row i =
     map (\<lambda>j. if ords ! j < i \<and> first_at ords (ords ! j) = j then row ! (ords ! j) else None) [0..<length ords]"

lemma filled_Suc:
  "filled ords row (Suc i) =
     (if i \<in> set ords then (filled ords row i)[first_at ords i := row ! i] else filled ords row i)"
proof (cases "i \<in> set ords")
  case True
  note f = first_at_nth[OF True]
  show ?thesis
    using True f by (intro nth_equalityI) (auto simp: filled_def less_Suc_eq nth_list_update)
next
  case False
  then have "ords ! j \<noteq> i" if "j < length ords" for j using that nth_mem by blast
  then show ?thesis using False by (auto simp: filled_def less_Suc_eq)
qed

lemma filled_None: "row ! i = None \<Longrightarrow> filled ords row (Suc i) = filled ords row i"
  by (auto simp: filled_def less_Suc_eq)

lemma filled_end: "\<forall>k \<in> set ords. k < i \<Longrightarrow> \<forall>k \<in> set ords. k < j \<Longrightarrow> filled ords row i = filled ords row j"
  by (auto simp: filled_def)

lemma decode_row_loop_length:
  "decode_row_loop lib nulls i cols d = Inr (row, d') \<Longrightarrow> length row = length cols"
proof (induction cols arbitrary: i d row d')
  case (Cons col cols)
  then obtain i1 d1 r1 where "decode_row_loop lib nulls i1 cols d1 = Inr (r1, d')" "length row = Suc (length r1)"
    by (auto simp: rd_map_def map_sum_def split: if_splits sum.splits)
  then show ?case using Cons.IH by simp
qed simp

lemma projected_loop_filled:
  assumes "projects width ords p" "i + length cols = width" "length row = width"
    "decode_row_loop lib nulls i cols d = Inr (drop i row, d')" "same_place d e"
    "\<forall>k \<in> set ords. k < width"
  shows "projected_loop lib nulls p i cols e (filled ords row i) = Inr (filled ords row width)"
  using assms
proof (induction cols arbitrary: i d e)
  case Nil
  then show ?case by (simp add: projects_def)
next
  case (Cons col cols)
  have i: "i < width" using Cons.prems by simp
  have drop: "drop i row = row ! i # drop (Suc i) row" using i Cons.prems by (simp add: Cons_nth_drop_Suc)
  have slot: "p_slot p ! i = (if i \<in> set ords then int (first_at ords i) else - 1)"
    using Cons.prems(1) i by (simp add: projects_def)
  show ?case
  proof (cases "int i > p_last p")
    case True
    then have "\<forall>k \<in> set ords. k < i" using Cons.prems(1) by (force simp: projects_def)
    then show ?thesis using True filled_end[of ords i width row] Cons.prems(6) by simp
  next
    case last: False
    show ?thesis
    proof (cases "is_null nulls i")
      case True
      then have "row ! i = None" "decode_row_loop lib nulls (Suc i) cols d = Inr (drop (Suc i) row, d')"
        using Cons.prems(4) drop by (auto simp: rd_map_def map_sum_def split: sum.splits)
      then show ?thesis
        using Cons.IH[of "Suc i" d e] Cons.prems True last by (simp add: filled_None)
    next
      case False
      then obtain v d1 where d1: "rd_cell lib (col_type col) d = Inr (v, d1)" "row ! i = Some v"
          "decode_row_loop lib nulls (Suc i) cols d1 = Inr (drop (Suc i) row, d')"
        using Cons.prems(4) drop by (auto simp: rd_map_def map_sum_def split: sum.splits)
      show ?thesis
      proof (cases "i \<in> set ords")
        case True
        obtain e1 where "rd_cell lib (col_type col) e = Inr (v, e1)" "same_place d1 e1"
          using rd_cell_same[OF d1(1) Cons.prems(5)] by blast
        then show ?thesis
          using Cons.IH[of "Suc i" d1 e1] Cons.prems d1 True last slot False by (simp add: filled_Suc)
      next
        case skip: False
        obtain e1 where "rd_skip (col_type col) e = Inr e1" "same_place d1 e1"
          using rd_skip_same[OF d1(1) Cons.prems(5)] by blast
        then show ?thesis
          using Cons.IH[of "Suc i" d1 e1] Cons.prems d1 skip last slot False by (simp add: filled_Suc)
      qed
    qed
  qed
qed

lemma repeat_loop_fills:
  assumes "projects width ords p" "ords = ds @ es" "\<forall>k \<in> set ords. k < width" "length out = length ords"
    "\<forall>j < length ords. (j < length ds \<or> first_at ords (ords ! j) = j) \<longrightarrow> out ! j = row ! (ords ! j)"
  shows "repeat_loop (p_slot p) (length ds) es out = map (\<lambda>k. row ! k) ords"
  using assms(2-)
proof (induction es arbitrary: ds out)
  case Nil
  then show ?case by (intro nth_equalityI) auto
next
  case (Cons k es)
  have k: "ords ! length ds = k" "k \<in> set ords" using Cons.prems(1) by auto
  then have slot: "p_slot p ! k = int (first_at ords k)" using assms(1) Cons.prems(2) by (simp add: projects_def)
  have "out ! first_at ords k = row ! k"
    using Cons.prems(4) first_at_nth[OF k(2)] by auto
  then have "repeat_loop (p_slot p) (length (ds @ [k])) es (out[length ds := row ! k]) = map (\<lambda>k. row ! k) ords"
    using Cons.prems k by (intro Cons.IH) (auto simp: nth_list_update less_Suc_eq)
  then show ?case using slot \<open>out ! first_at ords k = row ! k\<close> by simp
qed

lemma distinct_first_at: "distinct ords \<Longrightarrow> j < length ords \<Longrightarrow> first_at ords (ords ! j) = j"
  using first_at_nth[of "ords ! j" ords] by (auto simp: nth_eq_iff_index_eq)

theorem decodeRowProjected_project:
  assumes "decodeRow lib schema data = Inr row" "newRowProjection (length schema) ords = Inr p"
  shows "decodeRowProjected lib schema data p = project p row"
proof (cases p)
  case None
  then show ?thesis using assms(1) by (simp add: decodeRowProjected_def project_def)
next
  case (Some q)
  note q = newRowProjection_projects[OF assms(2)[unfolded Some]]
  from assms(1) obtain nulls d d' where h: "row_header schema data = Inr (nulls, d)"
    "decode_row_loop lib nulls 0 schema d = Inr (row, d')"
    by (auto simp: decodeRow_def split: sum.splits if_splits)
  have len: "length row = length schema" using decode_row_loop_length[OF h(2)] .
  have "text_ok d" using h(1) by (auto simp: row_header_def text_ok_def Let_def split: prod.splits if_splits)
  then have loop: "projected_loop lib nulls q 0 schema d (filled ords row 0) = Inr (filled ords row (length schema))"
    using projected_loop_filled[OF q(1) _ len _ same_place_refl q(3), of 0 schema lib nulls d d'] h(2) by simp
  have empty: "filled ords row 0 = replicate (length ords) None"
    by (simp add: filled_def map_replicate_const)
  have proj: "project p row = Inr (map (\<lambda>k. row ! k) ords)"
    using Some q(2,3) len by (simp add: project_def list_all_iff)
  have full: "filled ords row (length schema) ! j = row ! (ords ! j)"
    if "j < length ords" "first_at ords (ords ! j) = j" for j
    using that q(3) by (simp add: filled_def)
  have "(if p_repeats q then repeat_loop (p_slot q) 0 ords (filled ords row (length schema))
      else filled ords row (length schema)) = map (\<lambda>k. row ! k) ords"
  proof (cases "p_repeats q")
    case True
    then show ?thesis
      using repeat_loop_fills[OF q(1), of "[]" ords "filled ords row (length schema)" row] q(3) full
      by (simp add: filled_def)
  next
    case False
    then have "distinct ords" using q(1) by (simp add: projects_def)
    then show ?thesis
      using False full distinct_first_at by (intro nth_equalityI) (auto simp: filled_def)
  qed
  then show ?thesis
    using Some h(1) loop empty proj q(1,2)
    by (auto simp: decodeRowProjected_def projects_def Let_def)
qed

end
