(* ===== verification/Engine_Properties.thy ===== *)
theory Engine_Properties
  imports Key_Ranges Row_Project
begin

text \<open>
  The properties of the SQL engine's codecs, with witnesses.
\<close>

section \<open>Witness inputs\<close>

definition w_int :: coltype where
  "w_int = \<lparr>ctype = T_INT64, cchar = False, ccoll = None, cscale = None\<rparr>"

definition w_text :: coltype where
  "w_text = \<lparr>ctype = T_TEXT, cchar = False, ccoll = None, cscale = None\<rparr>"

definition w_columns :: "column list" where
  "w_columns = [\<lparr>col_name = [0x61], col_type = w_int, col_nullable = False\<rparr>,
                \<lparr>col_name = [0x62], col_type = w_text, col_nullable = True\<rparr>]"

definition w_schema :: pkschema where
  "w_schema = \<lparr>schema_columns = w_columns, pk_ordinals = [0, 1]\<rparr>"

definition w_row :: "64 word \<Rightarrow> bytes \<Rightarrow> row" where
  "w_row n s = [Some (VInt64 n), Some (VString s)]"

definition w_lib :: sqllib where
  "w_lib = \<lparr>json_string = (\<lambda>_. Inl (LibraryError 0)), json_convert = (\<lambda>_. Inl (LibraryError 0)),
            decimal_round = (\<lambda>d _. Inr d)\<rparr>"

lemmas w_codec = w_int_def w_text_def w_columns_def w_schema_def w_row_def w_lib_def

section \<open>Keys\<close>

text \<open>
  C13. The primary keys of two rows of a table compare as the rows do in SQL: byte order of
  the encoded keys is the lexicographic order of the key columns' values, and equal keys are
  equal values (1.0 and 1.00, -0 and 0, strings equal under the collation).
\<close>

theorem encodeKey_preserves_order:
  assumes "encodeKey schema r = Inr k" "encodeKey schema q = Inr l"
  shows "(k < l \<longleftrightarrow> key_ranks schema r < key_ranks schema q) \<and> (k = l \<longleftrightarrow> key_ranks schema r = key_ranks schema q)"
  using encodeKey_less_iff[OF assms] by blast

theorem encodeKey_preserves_order_witness:
  "\<exists>k l. encodeKey w_schema (w_row (- 1) [0]) = Inr k \<and> encodeKey w_schema (w_row 5 []) = Inr l \<and> k < l"
proof -
  have ok: "\<exists>k. encodeKey w_schema (w_row n s) = Inr k" for n s
    by (simp add: encodeKey_def w_codec row_cell_def appendKeyColumn_def appendStringKey_def qtype_classes)
  obtain k l where kl: "encodeKey w_schema (w_row (- 1) [0]) = Inr k" "encodeKey w_schema (w_row 5 []) = Inr l"
    using ok by blast
  have "key_ranks w_schema (w_row (- 1) [0]) < key_ranks w_schema (w_row 5 [])"
    by (simp add: key_ranks_def w_codec row_cell_def key_type_def int_rank_def)
  then show ?thesis using encodeKey_preserves_order[OF kl] kl by blast
qed

text \<open>
  C14. Secondary-index keys: columns compare in order with NULL before every value, and rows
  equal on all of them compare by the primary key, which is appended exactly when a column is
  NULL or the index is not unique.
\<close>

theorem encodeIndexKey_preserves_order:
  assumes "encodeIndexKey schema r ords pk u = Inr (k, n)" "encodeIndexKey schema q ords pl u = Inr (l, m)"
  shows "(n \<longleftrightarrow> (\<exists>ord \<in> set ords. row_cell r ord = None)) \<and>
    (k < l \<longleftrightarrow> index_ranks schema ords r < index_ranks schema ords q \<or>
      (index_ranks schema ords r = index_ranks schema ords q \<and> (n \<or> \<not> u) \<and> pk < pl))"
  using encodeIndexKey_less_iff[OF assms] by blast

theorem encodeIndexKey_preserves_order_witness:
  "\<exists>k l. encodeIndexKey w_schema [Some (VInt64 1), None] [1] [1] True = Inr (k, True) \<and>
    encodeIndexKey w_schema [Some (VInt64 1), None] [1] [2] True = Inr (l, True) \<and> k < l"
proof -
  have ok: "encodeIndexKey w_schema [Some (VInt64 1), None] [1] pk True = Inr (0 # pk, True)" for pk
    by (simp add: encodeIndexKey_def w_codec row_cell_def)
  show ?thesis
    using encodeIndexKey_preserves_order[OF ok ok, of "[1]" "[2]"] ok by fastforce
qed

text \<open>
  \<open>keyPrefixEnd\<close> bounds a prefix scan exactly: the keys from the prefix up to its end are
  the keys that start with the prefix, and without an end they are all keys from the prefix on.
\<close>

theorem keyPrefixEnd_bounds_prefix:
  "prefix p k \<longleftrightarrow> p \<le> k \<and> (case keyPrefixEnd p of None \<Rightarrow> True | Some e \<Rightarrow> k < e)"
  using keyPrefixEnd_None[of p k] keyPrefixEnd_Some[of p _ k] by (auto split: option.split)

text \<open>
  \<open>keyable\<close> is in step with \<open>appendKeyColumn\<close>: it accepts exactly the types for which
  encoding a value does not fail with \<open>cannot be part of a key\<close>.
\<close>

theorem keyable_in_step:
  "keyable typ \<longleftrightarrow> appendKeyColumn dst typ v \<noteq> Inl (KeyError TypeNotKeyable)"
  by (rule keyable_iff)

section \<open>Ranges\<close>

text \<open>
  C15. Range scans of a primary key are exact: the intervals of a range collection are ascending,
  disjoint and not empty, and a row's key lies in one of them exactly when the row satisfies one of
  the ranges. The ranges have the shape the planner accepts; the first column has no upper cut at
  NULL unless it is a point.
\<close>

theorem primary_ranges_exact:
  assumes "rangeIntervals conv (map (key_type schema) (pk_ordinals schema)) False ranges = Inr ivs"
    and "list_all (\<lambda>r. rangeShapeSupported r False \<and> upper_bounded False r) ranges"
    and "encodeKey schema row = Inr k"
  shows "sorted_wrt iv_apart ivs \<and> list_all (\<lambda>iv. \<not> iv_empty iv) ivs \<and>
    (covers ivs k \<longleftrightarrow>
      list_ex (\<lambda>r. range_matches conv (map (key_type schema) (pk_ordinals schema)) r
                  (map (row_cell row) (pk_ordinals schema))) ranges)"
proof -
  obtain ks where "k = ks"
      "kcol.enc_all False (map (key_type schema) (pk_ordinals schema)) (map (row_cell row) (pk_ordinals schema)) ks"
    using encode_key_loop_kcol[OF assms(3)[unfolded encodeKey_def]] by auto
  then show ?thesis
    using range_intervals_loop_spec[OF assms(1)[unfolded rangeIntervals_def] assms(2), of _ ks "[]"]
      range_intervals_loop_apart[OF assms(1)[unfolded rangeIntervals_def]] by simp
qed

text \<open>
  C16. Range scans of a secondary index are exact: an index key, with or without the primary key
  appended, lies in one of the intervals exactly when the indexed columns, NULLs included, satisfy
  one of the ranges.
\<close>

theorem index_ranges_exact:
  assumes "rangeIntervals conv (map (key_type schema) ords) True ranges = Inr ivs"
    and "list_all (\<lambda>r. rangeShapeSupported r True) ranges"
    and "encodeIndexKey schema row ords pk u = Inr (k, n)"
  shows "sorted_wrt iv_apart ivs \<and> list_all (\<lambda>iv. \<not> iv_empty iv) ivs \<and>
    (covers ivs k \<longleftrightarrow>
      list_ex (\<lambda>r. range_matches conv (map (key_type schema) ords) r (map (row_cell row) ords)) ranges)"
proof -
  have "upper_bounded True r" for r by (cases r) auto
  then have shapes: "list_all (\<lambda>r. rangeShapeSupported r True \<and> upper_bounded True r) ranges"
    using assms(2) by (simp add: list_all_iff)
  obtain ks s where "k = ks @ s" "kcol.enc_all True (map (key_type schema) ords) (map (row_cell row) ords) ks"
    using encodeIndexKey_kcol[OF assms(3)] by auto
  then show ?thesis
    using range_intervals_loop_spec[OF assms(1)[unfolded rangeIntervals_def] shapes, of _ ks s]
      range_intervals_loop_apart[OF assms(1)[unfolded rangeIntervals_def]] by simp
qed

definition w_ranges :: "rangeColumn list list" where
  "w_ranges = [[\<lparr>lowerBound = Below (VInt64 3), upperBound = Above (VInt64 3)\<rparr>,
                \<lparr>lowerBound = AboveNull, upperBound = Below (VString [0x62])\<rparr>]]"

theorem primary_ranges_exact_witness:
  "\<exists>ivs k. rangeIntervals (\<lambda>_. Inr) (map (key_type w_schema) (pk_ordinals w_schema)) False w_ranges = Inr ivs \<and>
     encodeKey w_schema (w_row 3 [0x61]) = Inr k \<and> covers ivs k"
proof -
  have "\<not> isl (rangeIntervals (\<lambda>_. Inr) (map (key_type w_schema) (pk_ordinals w_schema)) False w_ranges)"
    "\<not> isl (encodeKey w_schema (w_row 3 [0x61]))"
    unfolding w_ranges_def w_codec by code_simp+
  then obtain ivs k where r: "rangeIntervals (\<lambda>_. Inr) (map (key_type w_schema) (pk_ordinals w_schema)) False w_ranges = Inr ivs"
    and k: "encodeKey w_schema (w_row 3 [0x61]) = Inr k"
    by (metis isl_def sumE)
  have s: "list_all (\<lambda>r. rangeShapeSupported r False \<and> upper_bounded False r) w_ranges"
    unfolding w_ranges_def by code_simp
  have "list_ex (\<lambda>r. range_matches (\<lambda>_. Inr) (map (key_type w_schema) (pk_ordinals w_schema)) r
      (map (row_cell (w_row 3 [0x61])) (pk_ordinals w_schema))) w_ranges"
    by (simp add: w_ranges_def w_codec key_type_def row_cell_def bound_rank_def string_rank_def int_rank_def)
  then show ?thesis using primary_ranges_exact[OF _ s] r k by blast
qed

theorem index_ranges_exact_witness:
  "\<exists>ivs k. rangeIntervals (\<lambda>_. Inr) (map (key_type w_schema) [0, 1]) True w_ranges = Inr ivs \<and>
     encodeIndexKey w_schema [Some (VInt64 3), None] [0, 1] [7] False = Inr (k, True) \<and> \<not> covers ivs k"
proof -
  have "\<not> isl (rangeIntervals (\<lambda>_. Inr) (map (key_type w_schema) [0, 1]) True w_ranges)"
    unfolding w_ranges_def w_codec by code_simp
  then obtain ivs where r: "rangeIntervals (\<lambda>_. Inr) (map (key_type w_schema) [0, 1]) True w_ranges = Inr ivs"
    by (metis isl_def sumE)
  have k: "encodeIndexKey w_schema [Some (VInt64 3), None] [0, 1] [7] False = Inr ([1, 128, 0, 0, 0, 0, 0, 0, 3, 0, 7], True)"
    unfolding w_codec by code_simp
  have s: "list_all (\<lambda>r. rangeShapeSupported r True) w_ranges" unfolding w_ranges_def by code_simp
  have "\<not> list_ex (\<lambda>r. range_matches (\<lambda>_. Inr) (map (key_type w_schema) [0, 1]) r
      (map (row_cell [Some (VInt64 3), None]) [0, 1])) w_ranges"
    by (simp add: w_ranges_def w_codec key_type_def row_cell_def bound_rank_def string_rank_def int_rank_def)
  then show ?thesis using index_ranges_exact[OF _ s] r k by blast
qed

section \<open>Rows\<close>

text \<open>
  C17. Row round trip: a row whose values have the form of their column types (\<open>row_ok\<close>) is
  encoded, and the decoder gives it back, NULLs included.
\<close>

theorem row_codec_roundtrip:
  assumes "row_ok lib schema row"
  shows "\<exists>data. encodeRow lib schema row = Inr data \<and> (length data < 2 ^ 64 \<longrightarrow> decodeRow lib schema data = Inr row)"
  using encodeRow_ok[OF assms] row_roundtrip[OF assms] by blast

theorem row_codec_roundtrip_witness:
  "decodeRow w_lib w_columns [2, 2, 9] = Inr [Some (VInt64 (- 5)), None]"
proof -
  have ok: "row_ok w_lib w_columns [Some (VInt64 (- 5)), None]" by (simp add: row_ok_def w_codec)
  have "encodeRow w_lib w_columns [Some (VInt64 (- 5)), None] = Inr [2, 2, 9]"
    unfolding w_codec by code_simp
  then show ?thesis using row_codec_roundtrip[OF ok] by simp
qed

text \<open>
  C18. Decoding under a projection, which skips cells and stops early, gives the projection of
  the decoded row, whatever columns are selected, in whatever order and however often.
\<close>

theorem projected_decode_is_projection:
  assumes "decodeRow lib schema data = Inr row" "newRowProjection (length schema) ords = Inr p"
  shows "decodeRowProjected lib schema data p = project p row"
  by (rule decodeRowProjected_project[OF assms])

theorem projected_decode_is_projection_witness:
  "\<exists>p. newRowProjection (length w_columns) [1, 1] = Inr p \<and> decodeRowProjected w_lib w_columns [2, 0, 9, 1, 0x7A] p =
    Inr [Some (VString [0x7A]), Some (VString [0x7A])]"
proof -
  have row: "decodeRow w_lib w_columns [2, 0, 9, 1, 0x7A] = Inr [Some (VInt64 (- 5)), Some (VString [0x7A])]"
    unfolding w_codec by code_simp
  have proj: "newRowProjection (length w_columns) [1, 1] =
      Inr (Some \<lparr>p_ordinals = [1, 1], p_slot = [- 1, 0], p_last = 1, p_repeats = True\<rparr>)"
    unfolding w_codec by code_simp
  show ?thesis
    using projected_decode_is_projection[OF row proj] proj by (auto simp: project_def w_columns_def)
qed

end
