(* ===== verification/Table_Properties.thy ===== *)
theory Table_Properties
  imports Editor_Undo Engine_Properties
begin

text \<open>
  The properties of a table in a transaction, with witnesses: reads, the row editor, its indexes and
  its undo.
\<close>

section \<open>Witness inputs\<close>

definition w_pk :: pkschema where
  "w_pk = \<lparr>schema_columns = w_columns, pk_ordinals = [0]\<rparr>"

definition w_index :: indexDisk where
  "w_index = \<lparr>idx_Name = [0x75], idx_Columns = [1], idx_Unique = True\<rparr>"

definition w_k1 :: bytes where
  "w_k1 = [128, 0, 0, 0, 0, 0, 0, 1]"

text \<open>A table without a base tree that holds the one row \<open>(1, 'z')\<close>.\<close>

definition w_table :: tableState where
  "w_table = \<lparr>ts_schema = w_pk, ts_indexes = [w_index],
     ts_idxEdits = Some [([0x75], \<lparr>ov_base = noRows, ov_local = [index_edit (put_entry [1, 0x7A, 0, 1] w_k1)]\<rparr>)],
     ts_rows = None, ts_manifest = \<lparr>SchemaRoot = [], DataRoot = [], Indexes = []\<rparr>, ts_store = (\<lambda>_. Inl StoreNotFound),
     ts_pending = noRows, ts_edits = [(w_k1, \<lparr>ed_row = w_row 1 [0x7A], ed_delete = False\<rparr>)], ts_dirty = False\<rparr>"

definition w_editor :: editor where
  "w_editor = \<lparr>e_state = w_table, e_before = Some [], e_idxSnapshot = Some [([0x75], 1)], e_idxInitErr = None, e_txDirty = False\<rparr>"

lemma w_table_view: "table_view lib w_table [] = [w_k1 \<mapsto> w_row 1 [0x7A]]"
  by (auto simp: fun_eq_iff table_view_def overlay_edit_def w_table_def noRows_def pending_map_def pending_list_def
      edit_result_def base_row_def elookup_def)

lemma w_keys:
  "encodeKey w_pk (w_row 1 [0x7A]) = Inr w_k1" "encodeKey w_pk (w_row 2 [0x7A]) = Inr [128, 0, 0, 0, 0, 0, 0, 2]"
  "encodeKey w_pk (w_row 2 [0x79]) = Inr [128, 0, 0, 0, 0, 0, 0, 2]"
  "encodeIndexKey w_pk (w_row 1 [0x7A]) [1] w_k1 True = Inr ([1, 0x7A, 0, 1], False)"
  "encodeIndexKey w_pk (w_row 2 [0x7A]) [1] [128, 0, 0, 0, 0, 0, 0, 2] True = Inr ([1, 0x7A, 0, 1], False)"
  "encodeIndexKey w_pk (w_row 2 [0x79]) [1] [128, 0, 0, 0, 0, 0, 0, 2] True = Inr ([1, 0x79, 0, 1], False)"
  unfolding w_codec w_pk_def w_k1_def by code_simp+

lemma w_index_key:
  "index_key w_pk w_index w_k1 (w_row 1 [0x7A]) = Some [1, 0x7A, 0, 1]"
  "index_key w_pk w_index [128, 0, 0, 0, 0, 0, 0, 2] (w_row 2 [0x7A]) = Some [1, 0x7A, 0, 1]"
  "index_key w_pk w_index [128, 0, 0, 0, 0, 0, 0, 2] (w_row 2 [0x79]) = Some [1, 0x79, 0, 1]"
  by (simp_all add: index_key_def w_index_def w_keys)

lemma w_state_fields:
  "e_state w_editor = w_table" "ts_schema w_table = w_pk" "ts_indexes w_table = [w_index]" "e_idxInitErr w_editor = None"
  by (simp_all add: w_editor_def w_table_def)

lemma w_index_view: "index_view w_table [0x75] [] = [[1, 0x7A, 0, 1] \<mapsto> w_k1]"
  by (auto simp: fun_eq_iff index_view_def w_table_def ov_effect_def edit_over_def ov_get_def put_entry_def noRows_def
      pending_Get_def elookup_def)

lemma w_table_ok: "table_ok lib w_table [] (\<lambda>_. [])"
proof -
  have "\<not> hash_Valid []" by (simp add: hash_Valid_def)
  then have "ts_ok lib w_table []"
    by (simp add: ts_ok_def ts_base_ok_def w_table_def tree_content_def noRows_def pending_ok_def pending_list_def)
  moreover have "indexes_ok lib w_table [] (\<lambda>_. [])"
    by (simp add: indexes_ok_def w_table_view indexable_def w_index_key, simp add: w_table_def index_content_def w_index_key)
  moreover have "index_matches w_pk w_index [w_k1 \<mapsto> w_row 1 [0x7A]] (index_view w_table [0x75] [])"
    by (auto simp: index_matches_def w_index_view w_index_key split: if_splits)
  then have "indexes_match lib w_table [] (\<lambda>_. [])"
    by (simp add: indexes_match_def w_table_view, simp add: w_table_def w_index_def)
  moreover have "rows_keyed (ts_schema w_table) (table_view lib w_table [])"
    by (simp add: rows_keyed_def w_table_view, simp add: w_table_def w_keys)
  ultimately show ?thesis by (simp add: table_ok_def)
qed

section \<open>Reads\<close>

text \<open>
  C24. Point reads: \<open>lookupRow\<close> returns what the transaction's edit of the key says, else the journal's
  pending edit, else the row of the base tree; and \<open>ensureRows\<close> materialises exactly these rows.
\<close>

theorem lookupRow_reads_the_overlay:
  assumes "ts_ok lib s es"
  shows "lookupRow lib s k = Some (Inr (table_view lib s es k)) \<and>
    (\<exists>rows. ensureRows lib s = Some (Inr (), s\<lparr>ts_rows := Some rows\<rparr>) \<and> map_of rows = table_view lib s es)"
  using lookupRow_view[OF assms] ensureRows_view[OF assms] by blast

theorem lookupRow_reads_the_overlay_witness:
  "lookupRow w_lib w_table w_k1 = Some (Inr (Some (w_row 1 [0x7A])))"
proof -
  have "ts_ok w_lib w_table []" using w_table_ok by (simp add: table_ok_def)
  from lookupRow_reads_the_overlay[OF this, of w_k1] show ?thesis by (simp add: w_table_view)
qed

section \<open>The editor\<close>

text \<open>
  C19. \<open>Insert\<close> refines insertion into a table with unique constraints: it fails with a unique-key
  error exactly when the primary key is taken or another row has the same key in a unique index
  (a key with a NULL never collides), and then no row has changed; otherwise the row is there and
  every index lists exactly the rows.
\<close>

theorem Insert_refines_table:
  assumes "table_ok lib (e_state e) es ies" "e_idxInitErr e = None" "encodeKey (ts_schema (e_state e)) row = Inr key"
    and "\<forall>idx \<in> set (ts_indexes (e_state e)). index_key (ts_schema (e_state e)) idx key row \<noteq> None"
  shows "\<exists>res e'. editor_Insert lib e row = Some (res, e') \<and>
    (if table_view lib (e_state e) es key \<noteq> None \<or>
        (\<exists>idx \<in> set (ts_indexes (e_state e)). violates (ts_schema (e_state e)) (table_view lib (e_state e) es) key row idx)
     then res = Inl (TableError UniqueKeyErr) \<and> table_view lib (e_state e') es = table_view lib (e_state e) es
     else res = Inr () \<and> table_ok lib (e_state e') es ies \<and>
       table_view lib (e_state e') es = (table_view lib (e_state e) es)(key \<mapsto> row))"
  by (rule editor_Insert_refines[OF assms])

theorem Insert_refines_table_witness:
  "(\<exists>e'. editor_Insert w_lib w_editor (w_row 2 [0x7A]) = Some (Inl (TableError UniqueKeyErr), e')) \<and>
   (\<exists>e'. editor_Insert w_lib w_editor (w_row 2 [0x79]) = Some (Inr (), e') \<and>
     table_view w_lib (e_state e') [] = [w_k1 \<mapsto> w_row 1 [0x7A], [128, 0, 0, 0, 0, 0, 0, 2] \<mapsto> w_row 2 [0x79]])"
proof
  have ok: "table_ok w_lib (e_state w_editor) [] (\<lambda>_. [])" using w_table_ok by (simp add: w_state_fields)
  have new: "[128, 0, 0, 0, 0, 0, 0, 2] \<noteq> w_k1" by (simp add: w_k1_def)
  have "violates w_pk [w_k1 \<mapsto> w_row 1 [0x7A]] [128, 0, 0, 0, 0, 0, 0, 2] (w_row 2 [0x7A]) w_index"
    unfolding violates_def by (intro conjI exI[of _ "[1, 0x7A, 0, 1]"] exI[of _ w_k1] exI[of _ "w_row 1 [0x7A]"])
      (simp_all add: w_index_def w_keys w_index_key(1)[unfolded w_index_def])
  then show "\<exists>e'. editor_Insert w_lib w_editor (w_row 2 [0x7A]) = Some (Inl (TableError UniqueKeyErr), e')"
    using Insert_refines_table[OF ok, of "w_row 2 [0x7A]" "[128, 0, 0, 0, 0, 0, 0, 2]", unfolded w_state_fields w_table_view] new
    by (auto simp: w_state_fields w_keys w_index_key w_table_view)
  have "\<not> violates w_pk [w_k1 \<mapsto> w_row 1 [0x7A]] [128, 0, 0, 0, 0, 0, 0, 2] (w_row 2 [0x79]) w_index"
    by (simp add: violates_def w_index_key) (simp add: w_index_def w_keys)
  then show "\<exists>e'. editor_Insert w_lib w_editor (w_row 2 [0x79]) = Some (Inr (), e') \<and>
     table_view w_lib (e_state e') [] = [w_k1 \<mapsto> w_row 1 [0x7A], [128, 0, 0, 0, 0, 0, 0, 2] \<mapsto> w_row 2 [0x79]]"
    using Insert_refines_table[OF ok, of "w_row 2 [0x79]" "[128, 0, 0, 0, 0, 0, 0, 2]", unfolded w_state_fields w_table_view] new
    by (auto simp: w_state_fields w_keys w_index_key w_table_view)
qed

text \<open>
  C21. \<open>Delete\<close> removes the row with the primary key of its argument from the table and from every
  index, or fails and changes nothing when there is none.
\<close>

theorem Delete_refines_table:
  assumes "table_ok lib (e_state e) es ies" "e_idxInitErr e = None" "encodeKey (ts_schema (e_state e)) row = Inr key"
  shows "\<exists>res e'. editor_Delete lib e row = Some (res, e') \<and>
    (if table_view lib (e_state e) es key = None then res = Inl (TableError DeleteRowNotFound) \<and> e' = e
     else res = Inr () \<and> table_ok lib (e_state e') es ies \<and>
       table_view lib (e_state e') es = (table_view lib (e_state e) es)(key := None))"
  by (rule editor_Delete_refines[OF assms])

theorem Delete_refines_table_witness:
  "\<exists>e'. editor_Delete w_lib w_editor (w_row 1 [0x7A]) = Some (Inr (), e') \<and> table_view w_lib (e_state e') [] = Map.empty"
proof -
  have ok: "table_ok w_lib (e_state w_editor) [] (\<lambda>_. [])" using w_table_ok by (simp add: w_state_fields)
  show ?thesis
    using Delete_refines_table[OF ok, of "w_row 1 [0x7A]" w_k1, unfolded w_state_fields w_table_view] by (auto simp: w_state_fields w_keys w_table_view)
qed

text \<open>
  C20. \<open>Update\<close> of an existing row replaces it under its new primary key and keeps every index in
  step, or fails with a unique-key error exactly when the new primary key is taken by another row or
  a changed key of a unique index is.
\<close>

theorem Update_refines_table:
  assumes "table_ok lib (e_state e) es ies" "e_idxInitErr e = None"
    and "encodeKey (ts_schema (e_state e)) oldRow = Inr oldKey" "encodeKey (ts_schema (e_state e)) newRow = Inr newKey"
    and "\<forall>idx \<in> set (ts_indexes (e_state e)). index_key (ts_schema (e_state e)) idx newKey newRow \<noteq> None"
    and "table_view lib (e_state e) es oldKey = Some row" "oldRow \<noteq> newRow"
  shows "\<exists>res e'. editor_Update lib e oldRow newRow = Some (res, e') \<and>
    (if oldKey \<noteq> newKey \<and> table_view lib (e_state e) es newKey \<noteq> None \<or>
        (\<exists>idx \<in> set (ts_indexes (e_state e)).
           update_violates (ts_schema (e_state e)) (table_view lib (e_state e) es) oldKey row newKey newRow idx)
     then res = Inl (TableError UniqueKeyErr)
     else res = Inr () \<and> table_ok lib (e_state e') es ies \<and>
       table_view lib (e_state e') es = (table_view lib (e_state e) es)(oldKey := None, newKey \<mapsto> newRow))"
  by (rule editor_Update_refines[OF assms])

theorem Update_refines_table_witness:
  "\<exists>e'. editor_Update w_lib w_editor (w_row 1 [0x7A]) (w_row 2 [0x7A]) = Some (Inr (), e') \<and>
     table_view w_lib (e_state e') [] = [[128, 0, 0, 0, 0, 0, 0, 2] \<mapsto> w_row 2 [0x7A]]"
proof -
  have ok: "table_ok w_lib (e_state w_editor) [] (\<lambda>_. [])" using w_table_ok by (simp add: w_state_fields)
  have ne: "[128, 0, 0, 0, 0, 0, 0, 2] \<noteq> w_k1" "w_row 1 [0x7A] \<noteq> w_row 2 [0x7A]" by (simp_all add: w_k1_def w_row_def)
  have "\<not> update_violates w_pk [w_k1 \<mapsto> w_row 1 [0x7A]] w_k1 (w_row 1 [0x7A]) [128, 0, 0, 0, 0, 0, 0, 2] (w_row 2 [0x7A]) w_index"
    by (simp add: update_violates_def w_index_key)
  then show ?thesis
    using Update_refines_table[OF ok, of "w_row 1 [0x7A]" w_k1 "w_row 2 [0x7A]" "[128, 0, 0, 0, 0, 0, 0, 2]", unfolded w_state_fields w_table_view] ne
    by (auto simp: w_state_fields w_keys w_index_key w_table_view)
qed

text \<open>
  C23. Index edits derived from row edits (on the first use of an index in a transaction) agree with the rows:
  every index, persisted or not, lists exactly the rows that the base tree, the journal and the transaction
  make up. This needs that removals come before additions when a unique value moves between rows.
\<close>

theorem ensureIndexEdits_agrees_with_rows:
  assumes "ts_ok lib s es" "ts_idxEdits s = None" "distinct (map idx_Name (ts_indexes s))"
    and "\<forall>idx \<in> set (ts_indexes s). index_base_ok lib s es ies idx" "ts_indexes s \<noteq> []"
  shows "\<exists>s'. ensureIndexEdits lib s = Some (Inr (), s') \<and> ts_schema s' = ts_schema s \<and> ts_indexes s' = ts_indexes s \<and>
    ts_ok lib s' es \<and> table_view lib s' es = table_view lib s es \<and> indexes_match lib s' es ies"
proof -
  obtain m rows where s': "ensureIndexEdits lib s = Some (Inr (), s\<lparr>ts_rows := rows, ts_idxEdits := Some m\<rparr>)"
      "ts_ok lib (s\<lparr>ts_rows := rows, ts_idxEdits := Some m\<rparr>) es" "indexes_match lib (s\<lparr>ts_rows := rows, ts_idxEdits := Some m\<rparr>) es ies"
    using ensureIndexEdits_match[OF assms] by blast
  then show ?thesis by (intro exI[of _ "s\<lparr>ts_rows := rows, ts_idxEdits := Some m\<rparr>"]) simp
qed

theorem ensureIndexEdits_agrees_with_rows_witness:
  "\<exists>s'. ensureIndexEdits w_lib (w_table\<lparr>ts_idxEdits := None\<rparr>) = Some (Inr (), s') \<and> index_view s' [0x75] [] [1, 0x7A, 0, 1] = Some w_k1"
proof -
  let ?s = "w_table\<lparr>ts_idxEdits := None\<rparr>"
  have f: "ts_schema ?s = w_pk" "ts_indexes ?s = [w_index]" "ts_idxEdits ?s = None" by (simp_all add: w_table_def)
  have ok: "ts_ok w_lib ?s []" using w_table_ok[of w_lib] by (simp add: table_ok_def)
  have "index_content ?s [0x75] []" "\<not> index_persisted ?s w_index" by (simp_all add: w_table_def index_content_def index_persisted_def)
  then have "index_base_ok w_lib ?s [] (\<lambda>_. []) w_index"
    by (simp add: index_base_ok_def w_table_view f keys_unique_def indexable_def w_index_key) (simp add: w_index_def)
  then obtain s' where s': "ensureIndexEdits w_lib ?s = Some (Inr (), s')" "ts_schema s' = w_pk" "ts_indexes s' = [w_index]"
      "table_view w_lib s' [] = [w_k1 \<mapsto> w_row 1 [0x7A]]" "indexes_match w_lib s' [] (\<lambda>_. [])"
    using ensureIndexEdits_agrees_with_rows[OF ok f(3), of "\<lambda>_. []", unfolded f(1,2)] by (auto simp: w_table_view)
  then have "index_matches w_pk w_index [w_k1 \<mapsto> w_row 1 [0x7A]] (index_view s' [0x75] [])"
    by (simp add: indexes_match_def) (simp add: w_index_def)
  then show ?thesis using s'(1) by (auto simp: index_matches_def w_index_key)
qed

section \<open>Undo\<close>

text \<open>The table of the witnesses with its rows materialised.\<close>

definition w_rows_editor :: editor where
  "w_rows_editor = w_editor\<lparr>e_state := w_table\<lparr>ts_rows := Some [(w_k1, w_row 1 [0x7A])]\<rparr>\<rparr>"

text \<open>
  C22. Statement undo: whatever operations a statement runs and however they end, \<open>DiscardChanges\<close> restores
  the transaction's edits, the materialised rows and the overlay of every index as \<open>StatementBegin\<close> left
  them, so that the rows and the indexes of the table, every point read of a row and every uniqueness check
  of an index key are what they were.
\<close>

theorem DiscardChanges_undoes_the_statement:
  assumes "StatementBegin lib e = Some e0" "statement lib e0 e1"
  shows "let s0 = e_state e0; s = e_state (DiscardChanges e1)
    in map_of (ts_edits s) = map_of (ts_edits s0) \<and> map_option map_of (ts_rows s) = map_option map_of (ts_rows s0) \<and>
       map_option map_of (ts_idxEdits s) = map_option map_of (ts_idxEdits s0) \<and>
       table_view lib s es = table_view lib s0 es \<and> (\<forall>name. index_view s name (ies name) = index_view s0 name (ies name)) \<and>
       (\<forall>k. lookupRow lib s k = lookupRow lib s0 k) \<and> (\<forall>name k. lookupIndexKey s name k = lookupIndexKey s0 name k)"
proof -
  note s = statement_undo[OF assms]
  have "map_of (ts_edits (e_state (DiscardChanges e1))) = map_of (ts_edits (e_state e0))" using s by (simp add: same_table_def)
  then show ?thesis using same_table_views[OF s] same_table_maps[OF s] same_table_reads[OF s] by (simp add: Let_def)
qed

theorem DiscardChanges_undoes_the_statement_witness:
  "\<exists>e1. statement w_lib w_rows_editor e1
     \<and> lookupRow w_lib (e_state e1) [128, 0, 0, 0, 0, 0, 0, 2] = Some (Inr (Some (w_row 2 [0x79])))
     \<and> lookupRow w_lib (e_state (DiscardChanges e1)) [128, 0, 0, 0, 0, 0, 0, 2] = Some (Inr None)
     \<and> map_option map_of (ts_rows (e_state (DiscardChanges e1))) = Some [w_k1 \<mapsto> w_row 1 [0x7A]]
     \<and> table_view w_lib (e_state (DiscardChanges e1)) [] = [w_k1 \<mapsto> w_row 1 [0x7A]]"
proof -
  let ?k = "[128, 0, 0, 0, 0, 0, 0, 2] :: bytes"
  have begin': "StatementBegin w_lib w_rows_editor = Some w_rows_editor"
    by (simp add: StatementBegin_def w_rows_editor_def w_editor_def w_table_def ensureIndexEdits_def idx_lengths_def)
  have ne: "?k \<noteq> w_k1" by (simp add: w_k1_def)
  obtain e1 where e1: "editor_Insert w_lib w_rows_editor (w_row 2 [0x79]) = Some (Inr (), e1)"
      "lookupRow w_lib (e_state e1) ?k = Some (Inr (Some (w_row 2 [0x79])))"
  proof -
    have ok: "table_ok w_lib (e_state w_rows_editor) [] (\<lambda>_. [])"
      using w_table_ok[of w_lib] w_table_view[of w_lib]
      by (simp add: w_rows_editor_def w_state_fields table_ok_def ts_ok_def indexes_ok_def indexes_match_def index_content_def index_view_def cong: option.case_cong)
    have f: "e_idxInitErr w_rows_editor = None" "ts_schema (e_state w_rows_editor) = w_pk" "ts_indexes (e_state w_rows_editor) = [w_index]"
        "table_view w_lib (e_state w_rows_editor) [] = [w_k1 \<mapsto> w_row 1 [0x7A]]"
      using w_table_view by (simp_all add: w_rows_editor_def w_state_fields)
    have "\<not> violates w_pk [w_k1 \<mapsto> w_row 1 [0x7A]] ?k (w_row 2 [0x79]) w_index"
      by (simp add: violates_def w_index_key) (simp add: w_index_def w_keys)
    then obtain e1 where e1: "editor_Insert w_lib w_rows_editor (w_row 2 [0x79]) = Some (Inr (), e1)" "table_ok w_lib (e_state e1) [] (\<lambda>_. [])"
        "table_view w_lib (e_state e1) [] = [w_k1 \<mapsto> w_row 1 [0x7A], ?k \<mapsto> w_row 2 [0x79]]"
      using editor_Insert_refines[OF ok f(1), of "w_row 2 [0x79]" ?k, unfolded f] ne by (auto simp: w_keys w_index_key)
    have "ts_ok w_lib (e_state e1) []" using e1(2) by (simp add: table_ok_def)
    from lookupRow_view[OF this, of ?k] show ?thesis using that[OF e1(1)] e1(3) by simp
  qed
  have run: "statement w_lib w_rows_editor e1" by (rule statement.insert[OF statement.start e1(1)])
  have view: "table_view w_lib (e_state w_rows_editor) [] = [w_k1 \<mapsto> w_row 1 [0x7A]]"
    using w_table_view by (simp add: w_rows_editor_def)
  have "ts_rows (e_state w_rows_editor) = Some [(w_k1, w_row 1 [0x7A])]" by (simp add: w_rows_editor_def)
  then show ?thesis
    using run e1(2) view ne DiscardChanges_undoes_the_statement[OF begin' run, of "[]" "\<lambda>_. []"]
    by (intro exI[of _ e1]) (simp add: Let_def lookupRow_def)
qed

end
