(* ===== verification/Repository_Properties.thy ===== *)
theory Repository_Properties
  imports Pending_Iter
begin

text \<open>
  The properties of the repository layer, with witnesses.
\<close>

section \<open>Witness inputs\<close>

definition w_edit :: "byte \<Rightarrow> byte \<Rightarrow> row_edit" where
  "w_edit k v = \<lparr>re_key = [k], re_value = [v], re_delete = False, re_generation = 0\<rparr>"

definition w_pending :: PendingRows where
  "w_pending = \<lparr>pruns = [[w_edit 2 9], [w_edit 1 1, w_edit 2 2, w_edit 3 3]]\<rparr>"

lemma w_pending_inv: "pending_inv w_pending"
  by (simp add: w_pending_def pending_inv_def pending_ok_def run_ok_def w_edit_def)

lemma w_pending_ok: "pending_ok w_pending"
  using w_pending_inv by (simp add: pending_inv_def)

lemma w_pending_list: "pending_list (pruns w_pending) = [w_edit 1 1, w_edit 2 9, w_edit 3 3]"
  by (simp add: w_pending_def pending_list_def w_edit_def)

section \<open>Pending rows\<close>

text \<open>
  C25. \<open>PendingRows\<close> refines a map from keys to edits: \<open>with\<close> overlays the edits, the last edit of
  a key winning and each stamped with the generation, and \<open>Get\<close> looks a key up in that map,
  however the runs were merged.
\<close>

theorem pending_with_refines_overlay:
  assumes "pending_ok p"
  shows "pending_ok (pending_with p edits g) \<and> pending_Get (pending_with p edits g) k = overlay g edits (pending_Get p) k"
  using pending_with_correct[OF assms, of edits g] pending_Get_map[OF assms] pending_Get_map[of "pending_with p edits g"]
  by (simp add: overlay_apply split: list.split)

theorem pending_with_refines_overlay_witness:
  "pending_Get (pending_with w_pending [w_edit 2 7, w_edit 2 8] 4) [2] = Some (stamp 4 (w_edit 2 8))"
  using pending_with_refines_overlay[OF w_pending_ok, of "[w_edit 2 7, w_edit 2 8]" 4 "[2]"]
  by (simp add: overlay_apply w_edit_def)

text \<open>
  C26. The size tiers: \<open>with\<close> keeps the runs sorted, non-empty and each more than twice as long as
  the newer one, so \<open>n\<close> edits lie in at most \<open>log2 (2 n + 1)\<close> runs.
\<close>

theorem pending_runs_bounded:
  assumes "pending_inv p"
  shows "pending_inv (pending_with p edits g) \<and>
    2 ^ length (pruns (pending_with p edits g)) \<le> 2 * pending_Len (pending_with p edits g) + 1"
  using pending_with_inv[OF assms] pending_runs_logarithmic by blast

theorem pending_runs_bounded_witness:
  "2 ^ length (pruns (pending_with w_pending [w_edit 5 5] 1)) \<le> 2 * pending_Len (pending_with w_pending [w_edit 5 5] 1) + 1"
  using pending_runs_bounded[OF w_pending_inv] by blast

text \<open>
  C27. The ascending iterator over \<open>[start, end)\<close> returns the newest edit of every key of the
  interval in key order, deletes included, and then reports the end.
\<close>

theorem pending_Iter_lists_interval:
  assumes "pending_ok p"
  shows "pending_take n (pending_Iter p start end') =
    take n (filter (\<lambda>e. start \<le> re_key e \<and> before_end end' (re_key e)) (pending_list (pruns p)))"
  by (rule pending_Iter_list[OF assms])

theorem pending_Iter_lists_interval_witness:
  "pending_take 5 (pending_Iter w_pending [2] None) = [w_edit 2 9, w_edit 3 3]"
  using pending_Iter_lists_interval[OF w_pending_ok, of 5 "[2]" None]
  by (simp add: w_pending_list w_edit_def before_end_def)

text \<open>
  The descending iterator over \<open>[start, end)\<close> returns the same edits in the opposite order.
\<close>

theorem pending_IterReverse_lists_interval:
  assumes "pending_ok p"
  shows "pending_take n (pending_IterReverse p start end') =
    take n (rev (filter (\<lambda>e. from_start start (re_key e) \<and> before_end end' (re_key e)) (pending_list (pruns p))))"
  by (rule pending_IterReverse_list[OF assms])

theorem pending_IterReverse_lists_interval_witness:
  "pending_take 5 (pending_IterReverse w_pending (Some [1]) (Some [3])) = [w_edit 2 9, w_edit 1 1]"
  using pending_IterReverse_lists_interval[OF w_pending_ok, of 5 "Some [1]" "Some [3]"]
  by (simp add: w_pending_list w_edit_def before_end_def from_start_def)

end
