(* ===== verification/Journal_Frames.thy ===== *)
theory Journal_Frames
  imports Snapshot_Store "HOL-Library.Sublist"
begin

text \<open>
  The frames of the working journal (\<open>common/repository/working.go\<close>, \<open>journal_compact.go\<close>): the magic
  \<open>RDBJ\<close>, the length and the CRC-32C of a record, and the record as JSON. JSON is the record \<open>jsonlib\<close>
  of two functions, the printer and a decoder that also reports whether the input ends after the value.
  A record's kind is a datatype: the four kinds the code names, and any other string.

  A reader that meets an incomplete frame at the end of the file returns the frames before it. The main
  result is what this gives after a crash: reading any prefix of a written journal returns exactly the
  records whose frames are complete.
\<close>

section \<open>Definitions\<close>

datatype journalKind = KPrepare | KTypedPrepare | KCommit | KCheckpoint | KOther bytes

record IndexClaim =
  cl_Index :: bytes
  cl_Key :: bytes

record TypedTableEdit =
  te_Table :: bytes
  te_Schema :: bytes
  te_Drop :: bool
  te_Edits :: "row_edit list"
  te_Claims :: "IndexClaim list"

record journalRecord =
  jr_Version :: int
  jr_Kind :: journalKind
  jr_TxID :: bytes
  jr_Generation :: uint64
  jr_BaseCommit :: bytes
  jr_GitCommit :: bytes
  jr_Manifest :: "Manifest option"
  jr_Objects :: "(hash, bytes) gomap"
  jr_TypedEdits :: "TypedTableEdit list"
  jr_CheckpointedTxIDs :: "bytes list"
  jr_FromGeneration :: uint64

definition workingFormatVersion :: int where "workingFormatVersion = 3"

record jsonlib =
  json_Marshal :: "journalRecord \<Rightarrow> error + bytes"
  json_Decode :: "bytes \<Rightarrow> error + journalRecord \<times> bool"

text \<open>\<open>crc32.Checksum\<close> with the Castagnoli table: the table entry of a byte, and the loop over the bytes.\<close>

definition crc_shift :: "32 word \<Rightarrow> 32 word" where
  "crc_shift c = (if bit c 0 then drop_bit 1 c XOR 0x82F63B78 else drop_bit 1 c)"

definition crc_entry :: "byte \<Rightarrow> 32 word" where
  "crc_entry b = (crc_shift ^^ 8) (ucast b)"

definition crc32c :: "bytes \<Rightarrow> 32 word" where
  "crc32c data = NOT (fold (\<lambda>v c. crc_entry (ucast c XOR v) XOR drop_bit 8 c) data (NOT 0))"

definition journalHeaderSize :: nat where "journalHeaderSize = 12"

definition frameMagic :: bytes where "frameMagic = [0x52, 0x44, 0x42, 0x4A]"

definition be_word :: "bytes \<Rightarrow> 32 word" where
  "be_word bs = le_word (rev bs)"

definition frame_of :: "bytes \<Rightarrow> bytes" where
  "frame_of data = frameMagic @ be_bytes 4 (of_nat (length data) :: 32 word) @ be_bytes 4 (crc32c data) @ data"

definition encodeFrame :: "jsonlib \<Rightarrow> journalRecord \<Rightarrow> error + bytes" where
  "encodeFrame js r = map_sum id frame_of (json_Marshal js r)"

text \<open>\<open>appendRecords\<close> writes frame after frame; a record that cannot be printed ends it with the frames before it written.\<close>

fun append_frames :: "jsonlib \<Rightarrow> journalRecord list \<Rightarrow> bytes \<Rightarrow> (error + unit) \<times> bytes" where
  "append_frames js [] file = (Inr (), file)"
| "append_frames js (r # rs) file =
     (case encodeFrame js r of
        Inl e \<Rightarrow> (Inl e, file)
      | Inr frame \<Rightarrow> append_frames js rs (file @ frame))"

record journalFrame =
  jf_record :: journalRecord
  jf_end :: nat

function read_frames :: "jsonlib \<Rightarrow> nat \<Rightarrow> bytes \<Rightarrow> error + journalFrame list" where
  "read_frames js offset rest =
     (if length rest < journalHeaderSize then Inr []
      else if take 4 rest \<noteq> frameMagic then Inl (JournalError InvalidFrameMagic)
      else let len = unat (be_word (take 4 (drop 4 rest)))
           in if len = 0 \<or> len > 2 ^ 30 then Inl (JournalError InvalidFrameLength)
              else if length rest < journalHeaderSize + len then Inr []
              else let data = take len (drop journalHeaderSize rest); end' = offset + journalHeaderSize + len
                   in if crc32c data \<noteq> be_word (take 4 (drop 8 rest)) then Inl (JournalError ChecksumMismatch)
                      else case json_Decode js data of
                        Inl _ \<Rightarrow> Inl (JournalError UndecodableRecord)
                      | Inr (record, atEnd) \<Rightarrow>
                          if \<not> atEnd then Inl (JournalError TrailingFrameContent)
                          else if jr_Version record \<noteq> workingFormatVersion then Inl (JournalError UnsupportedJournalFormat)
                          else (case read_frames js end' (drop (journalHeaderSize + len) rest) of
                                  Inl e \<Rightarrow> Inl e
                                | Inr frames \<Rightarrow> Inr (\<lparr>jf_record = record, jf_end = end'\<rparr> # frames)))"
  by pat_completeness auto
termination
  by (relation "measure (\<lambda>(js, offset, rest). length rest)") (auto simp: journalHeaderSize_def)

declare read_frames.simps [simp del]

text \<open>The first header, padded with zeros when the file is shorter.\<close>

definition firstHeader :: "bytes \<Rightarrow> bytes" where
  "firstHeader file = take journalHeaderSize file @ replicate (journalHeaderSize - length file) 0"

definition readJournalFrames ::
  "jsonlib \<Rightarrow> bytes option \<Rightarrow> nat \<Rightarrow> bytes option \<Rightarrow> error + journalFrame list \<times> bytes" where
  "readJournalFrames js file start expectFirst =
     (case file of
        None \<Rightarrow> Inr ([], firstHeader [])
      | Some content \<Rightarrow>
          let first = firstHeader content
          in if start > 0 \<and> (\<exists>e \<in> set_option expectFirst. first \<noteq> e) then Inl (JournalError JournalReplaced)
             else map_sum id (\<lambda>frames. (frames, first)) (read_frames js start (drop start content)))"

definition readJournal :: "jsonlib \<Rightarrow> bytes option \<Rightarrow> error + journalRecord list" where
  "readJournal js file = map_sum id (\<lambda>(frames, _). map jf_record frames) (readJournalFrames js file 0 None)"

section \<open>What JSON promises\<close>

text \<open>
  A printed record decodes to itself, less the generation of its row edits, which is not printed; the
  printed text is not empty.
\<close>

definition journaled_edit :: "TypedTableEdit \<Rightarrow> TypedTableEdit" where
  "journaled_edit te = te\<lparr>te_Edits := map (\<lambda>e. e\<lparr>re_generation := 0\<rparr>) (te_Edits te)\<rparr>"

definition journaled :: "journalRecord \<Rightarrow> journalRecord" where
  "journaled r = r\<lparr>jr_TypedEdits := map journaled_edit (jr_TypedEdits r)\<rparr>"

lemma journaled_simps [simp]:
  "jr_Version (journaled r) = jr_Version r" "jr_Kind (journaled r) = jr_Kind r" "jr_TxID (journaled r) = jr_TxID r"
  "jr_Generation (journaled r) = jr_Generation r" "jr_BaseCommit (journaled r) = jr_BaseCommit r"
  "jr_GitCommit (journaled r) = jr_GitCommit r" "jr_Manifest (journaled r) = jr_Manifest r"
  "jr_Objects (journaled r) = jr_Objects r" "jr_CheckpointedTxIDs (journaled r) = jr_CheckpointedTxIDs r"
  "jr_FromGeneration (journaled r) = jr_FromGeneration r"
  "jr_TypedEdits (journaled r) = map journaled_edit (jr_TypedEdits r)"
  by (simp_all add: journaled_def)

lemma journaled_edit_simps [simp]:
  "te_Table (journaled_edit te) = te_Table te" "te_Schema (journaled_edit te) = te_Schema te"
  "te_Drop (journaled_edit te) = te_Drop te" "te_Claims (journaled_edit te) = te_Claims te"
  by (simp_all add: journaled_edit_def)

definition record_json :: "jsonlib \<Rightarrow> bool" where
  "record_json js \<longleftrightarrow> (\<forall>r d. json_Marshal js r = Inr d \<longrightarrow> json_Decode js d = Inr (journaled r, True) \<and> d \<noteq> [])"

lemma decode_marshal: "record_json js \<Longrightarrow> json_Marshal js r = Inr d \<Longrightarrow> json_Decode js d = Inr (journaled r, True)"
  and marshal_nonempty: "record_json js \<Longrightarrow> json_Marshal js r = Inr d \<Longrightarrow> d \<noteq> []"
  by (simp_all add: record_json_def)

text \<open>A record the reader accepts: of the current version, and within the length limit.\<close>

definition frame_fits :: "jsonlib \<Rightarrow> journalRecord \<Rightarrow> bool" where
  "frame_fits js r \<longleftrightarrow> jr_Version r = workingFormatVersion \<and> (\<exists>d. json_Marshal js r = Inr d \<and> length d \<le> 2 ^ 30)"

definition the_frame :: "jsonlib \<Rightarrow> journalRecord \<Rightarrow> bytes" where
  "the_frame js r = (case encodeFrame js r of Inr f \<Rightarrow> f | Inl _ \<Rightarrow> [])"

definition journal_bytes :: "jsonlib \<Rightarrow> journalRecord list \<Rightarrow> bytes" where
  "journal_bytes js rs = concat (map (the_frame js) rs)"

text \<open>The frames the reader reports for records written from an offset on.\<close>

fun frames_at :: "jsonlib \<Rightarrow> nat \<Rightarrow> journalRecord list \<Rightarrow> journalFrame list" where
  "frames_at js offset [] = []"
| "frames_at js offset (r # rs) =
     (let end' = offset + length (the_frame js r) in \<lparr>jf_record = journaled r, jf_end = end'\<rparr> # frames_at js end' rs)"

text \<open>The records whose frames end within the first \<open>n\<close> bytes.\<close>

fun complete_records :: "jsonlib \<Rightarrow> nat \<Rightarrow> journalRecord list \<Rightarrow> journalRecord list" where
  "complete_records js n [] = []"
| "complete_records js n (r # rs) =
     (let l = length (the_frame js r) in if l \<le> n then r # complete_records js (n - l) rs else [])"

lemma be_word_be_bytes: "be_word (be_bytes 4 (x :: 32 word)) = x"
proof -
  have "be_bytes 4 x = rev (le_bytes 4 x)" by (simp add: numeral_eq_Suc)
  then show ?thesis by (simp add: be_word_def codec_roundtrip)
qed

lemma length_frame_of [simp]: "length (frame_of d) = 12 + length d"
  by (simp add: frame_of_def frameMagic_def)

lemma read_short: "length rest < journalHeaderSize \<Longrightarrow> read_frames js offset rest = Inr []"
  by (simp add: read_frames.simps)

lemma append_frames_bytes:
  assumes "\<forall>r \<in> set rs. frame_fits js r"
  shows "append_frames js rs buf = (Inr (), buf @ journal_bytes js rs)"
  using assms by (induction rs arbitrary: buf) (auto simp: frame_fits_def encodeFrame_def journal_bytes_def the_frame_def)

lemma frames_at_append: "frames_at js n (rs @ qs) = frames_at js n rs @ frames_at js (n + length (journal_bytes js rs)) qs"
  by (induction rs arbitrary: n) (auto simp: journal_bytes_def Let_def add.assoc)

lemma frames_at_records [simp]: "map jf_record (frames_at js n rs) = map journaled rs"
  by (induction rs arbitrary: n) (auto simp: Let_def)

lemma length_frames_at [simp]: "length (frames_at js n rs) = length rs"
  by (induction rs arbitrary: n) (auto simp: Let_def)

lemma complete_records_all: "length (journal_bytes js rs) \<le> n \<Longrightarrow> complete_records js n rs = rs"
  by (induction rs arbitrary: n) (auto simp: Let_def journal_bytes_def)

lemma complete_records_prefix: "prefix (complete_records js n rs) rs"
  by (induction rs arbitrary: n) (auto simp: Let_def)

lemma complete_records_append:
  "complete_records js n (rs @ qs) =
    (if length (journal_bytes js rs) \<le> n then rs @ complete_records js (n - length (journal_bytes js rs)) qs
     else complete_records js n rs)"
  by (induction rs arbitrary: n) (auto simp: Let_def journal_bytes_def)

section \<open>Reading after a crash\<close>

lemma read_frame:
  assumes js: "record_json js" and fits: "frame_fits js r"
  shows "read_frames js offset (the_frame js r @ rest) =
    (case read_frames js (offset + length (the_frame js r)) rest of
       Inl e \<Rightarrow> Inl e
     | Inr frames \<Rightarrow> Inr (\<lparr>jf_record = journaled r, jf_end = offset + length (the_frame js r)\<rparr> # frames))"
proof -
  obtain d where d: "json_Marshal js r = Inr d" "length d \<le> 2 ^ 30" "jr_Version r = workingFormatVersion"
    using fits by (auto simp: frame_fits_def)
  have ne: "d \<noteq> []" by (rule marshal_nonempty[OF js d(1)])
  have len: "unat (of_nat (length d) :: 32 word) = length d"
    using d(2) by (simp add: unat_of_nat)
  have frame: "the_frame js r = frame_of d" by (simp add: the_frame_def encodeFrame_def d(1))
  define buf where "buf = frame_of d @ rest"
  have parts: "length buf = 12 + length d + length rest" "take 4 buf = frameMagic"
    "take 4 (drop 4 buf) = be_bytes 4 (of_nat (length d) :: 32 word)"
    "take 4 (drop 8 buf) = be_bytes 4 (crc32c d)" "take (length d) (drop 12 buf) = d"
    by (simp_all add: buf_def frame_of_def frameMagic_def)
  have tail: "drop (12 + length d) buf = rest"
    unfolding buf_def by (metis append_eq_conv_conj length_frame_of)
  have "read_frames js offset buf =
    (case read_frames js (offset + (12 + length d)) rest of
       Inl e \<Rightarrow> Inl e
     | Inr frames \<Rightarrow> Inr (\<lparr>jf_record = journaled r, jf_end = offset + (12 + length d)\<rparr> # frames))"
    using d(2) by (subst read_frames.simps)
      (simp add: parts tail journalHeaderSize_def be_word_be_bytes len ne d(3) decode_marshal[OF js d(1)] Let_def add.assoc)
  then show ?thesis unfolding frame buf_def length_frame_of .
qed

lemma read_torn_frame:
  assumes js: "record_json js" and fits: "frame_fits js r" and short: "n < length (the_frame js r)"
  shows "read_frames js offset (take n (the_frame js r)) = Inr []"
proof (cases "n < 12")
  case True
  then show ?thesis by (intro read_short) (simp add: journalHeaderSize_def)
next
  case False
  obtain d where d: "json_Marshal js r = Inr d" "length d \<le> 2 ^ 30"
    using fits by (auto simp: frame_fits_def)
  have ne: "d \<noteq> []" by (rule marshal_nonempty[OF js d(1)])
  have len: "unat (of_nat (length d) :: 32 word) = length d"
    using d(2) by (simp add: unat_of_nat)
  have frame: "the_frame js r = frame_of d" by (simp add: the_frame_def encodeFrame_def d(1))
  obtain k where k: "n = 12 + k" using False by (metis le_add_diff_inverse not_less)
  define buf where "buf = take n (frame_of d)"
  have parts: "length buf = n" "take 4 buf = frameMagic" "take 4 (drop 4 buf) = be_bytes 4 (of_nat (length d) :: 32 word)"
    using short unfolding buf_def frame k by (simp_all add: drop_take frame_of_def frameMagic_def)
  have "n < 12 + length d" using short frame by simp
  then have "read_frames js offset buf = Inr []"
    using d(2) by (subst read_frames.simps) (simp add: parts journalHeaderSize_def be_word_be_bytes len ne Let_def False)
  then show ?thesis by (simp add: frame buf_def)
qed

lemma read_prefix:
  assumes js: "record_json js" and fits: "\<forall>r \<in> set rs. frame_fits js r"
  shows "read_frames js offset (take n (journal_bytes js rs)) = Inr (frames_at js offset (complete_records js n rs))"
  using fits
proof (induction rs arbitrary: n offset)
  case Nil
  then show ?case by (simp add: journal_bytes_def read_short journalHeaderSize_def)
next
  case (Cons r rs)
  let ?f = "the_frame js r"
  show ?case
  proof (cases "length ?f \<le> n")
    case True
    have "take n (journal_bytes js (r # rs)) = ?f @ take (n - length ?f) (journal_bytes js rs)"
      using True by (simp add: journal_bytes_def)
    then show ?thesis using True Cons by (simp add: read_frame[OF js] Let_def)
  next
    case False
    then have "take n (journal_bytes js (r # rs)) = take n ?f" by (simp add: journal_bytes_def)
    then show ?thesis using False Cons.prems by (simp add: read_torn_frame[OF js] Let_def)
  qed
qed

lemma read_whole:
  assumes "record_json js" "\<forall>r \<in> set rs. frame_fits js r"
  shows "read_frames js offset (journal_bytes js rs) = Inr (frames_at js offset rs)"
  using read_prefix[OF assms, of offset "length (journal_bytes js rs)"] by (simp add: complete_records_all)

text \<open>
  The writer does not check the limit the reader enforces: a record longer than a gigabyte is written,
  and the journal cannot be read afterwards.
\<close>

lemma oversized_record_unreadable:
  assumes "json_Marshal js r = Inr d" "2 ^ 30 < length d" "length d < 2 ^ 32"
  shows "append_frames js [r] file = (Inr (), file @ frame_of d) \<and>
    read_frames js 0 (frame_of d) = Inl (JournalError InvalidFrameLength)"
proof -
  have len: "unat (of_nat (length d) :: 32 word) = length d"
    using assms(3) by (simp add: unat_of_nat)
  have parts: "take 4 (frame_of d) = frameMagic" "take 4 (drop 4 (frame_of d)) = be_bytes 4 (of_nat (length d) :: 32 word)"
    by (simp_all add: frame_of_def frameMagic_def)
  have "read_frames js 0 (frame_of d) = Inl (JournalError InvalidFrameLength)"
    using assms(2) by (subst read_frames.simps) (simp add: parts journalHeaderSize_def be_word_be_bytes len Let_def)
  then show ?thesis by (simp add: encodeFrame_def assms(1))
qed

end
