(* ===== verification/Working_View.thy ===== *)
theory Working_View
  imports Journal_Frames
begin

text \<open>
  The view a journal gives of the working state (\<open>common/repository/working.go\<close>,
  \<open>common/repository/writelog.go\<close>): a snapshot, the edits of its tables that no checkpoint has
  published, and the log of who wrote what. The snapshot after a typed commit lists its objects in the
  iteration order of a Go map, which is the parameter \<open>order\<close>.

  The main result is first-committer-wins: \<open>writeConflict\<close> accepts a transaction exactly when its
  edits are compatible with every transaction committed since its base.
\<close>

section \<open>Definitions\<close>

record pendingTableEdits =
  pt_schemaData :: bytes
  pt_rows :: PendingRows

record tableWrites =
  tw_schema :: uint64
  tw_touched :: uint64

type_synonym claimKey = "bytes \<times> bytes \<times> bytes"

record writeLog =
  wl_from :: uint64
  wl_tables :: "(bytes, tableWrites) gomap"
  wl_claims :: "(claimKey, uint64) gomap"

record workingView =
  vw_snapshot :: "Snapshot option"
  vw_generation :: uint64
  vw_dirty :: bool
  vw_baseCommit :: bytes
  vw_pendingEdits :: "(bytes, pendingTableEdits) gomap"
  vw_writes :: "writeLog option"

definition noPending :: pendingTableEdits where
  "noPending = \<lparr>pt_schemaData = [], pt_rows = \<lparr>pruns = []\<rparr>\<rparr>"

definition hasPendingRows :: "pendingTableEdits option \<Rightarrow> bool" where
  "hasPendingRows e = (case e of None \<Rightarrow> False | Some e \<Rightarrow> \<not> pending_Empty (pt_rows e))"

definition ddl :: "TypedTableEdit \<Rightarrow> bool" where
  "ddl te \<longleftrightarrow> te_Drop te \<or> te_Schema te \<noteq> []"

subsection \<open>The write log\<close>

definition table_writes :: "writeLog \<Rightarrow> bytes \<Rightarrow> tableWrites" where
  "table_writes l t = (case map_of (wl_tables l) t of None \<Rightarrow> \<lparr>tw_schema = 0, tw_touched = 0\<rparr> | Some tw \<Rightarrow> tw)"

definition claim_generation :: "writeLog \<Rightarrow> claimKey \<Rightarrow> uint64" where
  "claim_generation l c = (case map_of (wl_claims l) c of None \<Rightarrow> 0 | Some g \<Rightarrow> g)"

definition record_edit :: "uint64 \<Rightarrow> TypedTableEdit \<Rightarrow> writeLog \<Rightarrow> writeLog" where
  "record_edit generation te l =
     (let tw = (table_writes l (te_Table te))\<lparr>tw_touched := generation\<rparr>;
          tw = (if ddl te then tw\<lparr>tw_schema := generation\<rparr> else tw)
      in l\<lparr>wl_tables := AList.update (te_Table te) tw (wl_tables l),
           wl_claims := fold (\<lambda>claim. AList.update (te_Table te, cl_Index claim, cl_Key claim) generation)
                          (te_Claims te) (wl_claims l)\<rparr>)"

definition recorded :: "writeLog option \<Rightarrow> TypedTableEdit list \<Rightarrow> uint64 \<Rightarrow> writeLog" where
  "recorded l edits generation =
     fold (record_edit generation) edits
       (case l of None \<Rightarrow> \<lparr>wl_from = generation - 1, wl_tables = [], wl_claims = []\<rparr> | Some l \<Rightarrow> l)"

definition row_conflict :: "workingView \<Rightarrow> uint64 \<Rightarrow> TypedTableEdit \<Rightarrow> bool" where
  "row_conflict v base te \<longleftrightarrow>
     (case map_of (vw_pendingEdits v) (te_Table te) of
        None \<Rightarrow> False
      | Some p \<Rightarrow> list_ex (\<lambda>re. case pending_Get (pt_rows p) (re_key re) of
                                  None \<Rightarrow> False | Some e \<Rightarrow> re_generation e > base) (te_Edits te))"

definition claim_conflict :: "writeLog \<Rightarrow> uint64 \<Rightarrow> TypedTableEdit \<Rightarrow> bool" where
  "claim_conflict l base te \<longleftrightarrow>
     list_ex (\<lambda>claim. claim_generation l (te_Table te, cl_Index claim, cl_Key claim) > base) (te_Claims te)"

fun conflict_loop :: "workingView \<Rightarrow> writeLog \<Rightarrow> uint64 \<Rightarrow> TypedTableEdit list \<Rightarrow> error + unit" where
  "conflict_loop v l base [] = Inr ()"
| "conflict_loop v l base (te # tes) =
     (let tw = table_writes l (te_Table te)
      in if tw_touched tw \<le> base then conflict_loop v l base tes
         else if tw_schema tw > base then Inl (RepoError ErrConflict)
         else if ddl te then Inl (RepoError ErrConflict)
         else if row_conflict v base te then Inl (RepoError ErrConflict)
         else if claim_conflict l base te then Inl (RepoError ErrConflict)
         else conflict_loop v l base tes)"

definition writeConflict :: "workingView \<Rightarrow> uint64 \<Rightarrow> TypedTableEdit list \<Rightarrow> error + unit" where
  "writeConflict v base edits =
     (if base = vw_generation v then Inr ()
      else case vw_writes v of
        None \<Rightarrow> Inl (RepoError ErrConflict)
      | Some l \<Rightarrow>
          if base > vw_generation v \<or> base < wl_from l then Inl (RepoError ErrConflict)
          else conflict_loop v l base edits)"

subsection \<open>Snapshots of the working state\<close>

record applied =
  ap_tables :: "(bytes, Table) gomap"
  ap_pending :: "(bytes, pendingTableEdits) gomap"
  ap_cache :: "(hash, bytes) gomap"

definition apply_typed_edit :: "(bytes \<Rightarrow> bytes) \<Rightarrow> uint64 \<Rightarrow> TypedTableEdit \<Rightarrow> applied \<Rightarrow> applied" where
  "apply_typed_edit H generation te a =
     (if te_Drop te then
        a\<lparr>ap_tables := AList.delete (te_Table te) (ap_tables a), ap_pending := AList.delete (te_Table te) (ap_pending a)\<rparr>
      else let entry = (case map_of (ap_pending a) (te_Table te) of None \<Rightarrow> noPending | Some previous \<Rightarrow> previous);
               entry = (if te_Schema te \<noteq> [] then entry\<lparr>pt_schemaData := te_Schema te\<rparr> else entry);
               entry = entry\<lparr>pt_rows := pending_with (pt_rows entry) (te_Edits te) generation\<rparr>;
               a = a\<lparr>ap_pending := AList.update (te_Table te) entry (ap_pending a)\<rparr>
           in if te_Schema te = [] then a
              else let schemaHash = storage_Sum H (te_Schema te);
                       existing = (case map_of (ap_tables a) (te_Table te) of
                                     None \<Rightarrow> \<lparr>SchemaRoot = [], DataRoot = [], Indexes = []\<rparr> | Some t \<Rightarrow> t)
                   in a\<lparr>ap_cache := AList.update schemaHash (te_Schema te) (ap_cache a),
                        ap_tables := AList.update (te_Table te) (existing\<lparr>SchemaRoot := schemaHash\<rparr>) (ap_tables a)\<rparr>)"

definition applyTypedEditsToSnapshot ::
  "(bytes \<Rightarrow> bytes) \<Rightarrow> (hash list \<Rightarrow> hash list) \<Rightarrow> Snapshot \<Rightarrow> (bytes, pendingTableEdits) gomap
    \<Rightarrow> TypedTableEdit list \<Rightarrow> uint64 \<Rightarrow> Snapshot \<times> (bytes, pendingTableEdits) gomap" where
  "applyTypedEditsToSnapshot H order base existing edits generation =
     (let a = fold (apply_typed_edit H generation) edits
                \<lparr>ap_tables = mf_tables (sn_Manifest base), ap_pending = existing, ap_cache = sn_cache base\<rparr>;
          objectSet = fold List.insert (filter hash_Valid (map (SchemaRoot \<circ> snd) (ap_tables a))) (sn_objectSet base);
          manifest = (sn_Manifest base)\<lparr>mf_Tables := Some (ap_tables a), mf_Objects := order objectSet\<rparr>;
          snapshotEdits = filter (\<lambda>(_, te). \<not> pending_Empty (pt_rows te) \<or> pt_schemaData te \<noteq> []) (ap_pending a)
      in (base\<lparr>sn_generation := generation, sn_Manifest := manifest, sn_objectSet := objectSet, sn_cache := ap_cache a,
               sn_pendingEdits := Some (map (map_prod id pt_rows) snapshotEdits)\<rparr>,
          ap_pending a))"

definition workingSnapshot ::
  "Snapshot \<Rightarrow> Manifest \<Rightarrow> hash list \<Rightarrow> (hash, bytes) gomap \<Rightarrow> uint64 \<Rightarrow> Snapshot" where
  "workingSnapshot base manifest available objects generation =
     base\<lparr>sn_generation := generation, sn_Manifest := manifest, sn_objectSet := available,
          sn_cache := fold (\<lambda>(h, d). AList.update h d) objects (sn_cache base),
          sn_objectOIDs := concat (map (\<lambda>h. let oid = index_or_empty (sn_objectOIDs base) h
                                              in if oid = [] then [] else [(h, oid)]) available),
          sn_pendingEdits := None\<rparr>"

text \<open>The view after a typed transaction.\<close>

definition typed_view ::
  "(bytes \<Rightarrow> bytes) \<Rightarrow> (hash list \<Rightarrow> hash list) \<Rightarrow> Snapshot \<Rightarrow> TypedTableEdit list \<Rightarrow> uint64 \<Rightarrow> workingView \<Rightarrow> workingView" where
  "typed_view H order snapshot edits generation v =
     (case applyTypedEditsToSnapshot H order snapshot (vw_pendingEdits v) edits generation of
        (snapshot', pending) \<Rightarrow>
          v\<lparr>vw_snapshot := Some snapshot', vw_pendingEdits := pending, vw_writes := Some (recorded (vw_writes v) edits generation)\<rparr>)"

section \<open>First committer wins\<close>

text \<open>
  The writes since the log's start, flattened: each table edit with the generation that committed it.
  Two edits are compatible when they are of different tables, or neither changes the schema and they
  share no row key and no claim.
\<close>

definition claim_keys :: "TypedTableEdit \<Rightarrow> (bytes \<times> bytes) set" where
  "claim_keys te = (\<lambda>c. (cl_Index c, cl_Key c)) ` set (te_Claims te)"

definition row_keys :: "TypedTableEdit \<Rightarrow> bytes set" where
  "row_keys te = re_key ` set (te_Edits te)"

definition compatible :: "TypedTableEdit \<Rightarrow> TypedTableEdit \<Rightarrow> bool" where
  "compatible te te' \<longleftrightarrow> te_Table te \<noteq> te_Table te'
     \<or> (\<not> ddl te \<and> \<not> ddl te' \<and> row_keys te \<inter> row_keys te' = {} \<and> claim_keys te \<inter> claim_keys te' = {})"

definition touched_since :: "uint64 \<Rightarrow> bytes \<Rightarrow> (uint64 \<times> TypedTableEdit) list \<Rightarrow> TypedTableEdit set" where
  "touched_since base t hist = {te. \<exists>g. (g, te) \<in> set hist \<and> g > base \<and> te_Table te = t}"

definition log_ok :: "writeLog \<Rightarrow> (bytes, pendingTableEdits) gomap \<Rightarrow> (uint64 \<times> TypedTableEdit) list \<Rightarrow> bool" where
  "log_ok l pending hist \<longleftrightarrow> (\<forall>base t.
     (base < tw_touched (table_writes l t) \<longleftrightarrow> touched_since base t hist \<noteq> {}) \<and>
     (base < tw_schema (table_writes l t) \<longleftrightarrow> (\<exists>te \<in> touched_since base t hist. ddl te)) \<and>
     (\<forall>i k. base < claim_generation l (t, i, k) \<longleftrightarrow> (\<exists>te \<in> touched_since base t hist. (i, k) \<in> claim_keys te)) \<and>
     (\<forall>p. map_of pending t = Some p \<longrightarrow> pending_ok (pt_rows p)) \<and>
     (\<not> base < tw_schema (table_writes l t) \<longrightarrow> (\<forall>k.
        (\<exists>p e. map_of pending t = Some p \<and> pending_Get (pt_rows p) k = Some e \<and> base < re_generation e)
        \<longleftrightarrow> (\<exists>te \<in> touched_since base t hist. k \<in> row_keys te))))"


lemma pending_with_Get:
  assumes "pending_ok p"
  shows "pending_ok (pending_with p edits g)"
    and "k \<notin> re_key ` set edits \<Longrightarrow> pending_Get (pending_with p edits g) k = pending_Get p k"
    and "k \<in> re_key ` set edits \<Longrightarrow> \<exists>e. pending_Get (pending_with p edits g) k = Some e \<and> re_generation e = g"
proof -
  show ok: "pending_ok (pending_with p edits g)" by (rule pending_with_correct[OF assms])
  have get: "pending_Get (pending_with p edits g) k = overlay g edits (pending_Get p) k"
    using pending_with_correct[OF assms, of edits g] pending_Get_map[OF assms] pending_Get_map[OF ok] by (simp add: overlay_apply split: list.split)
  show "k \<notin> re_key ` set edits \<Longrightarrow> pending_Get (pending_with p edits g) k = pending_Get p k"
  proof -
    assume "k \<notin> re_key ` set edits"
    then have "filter (\<lambda>e. re_key e = k) edits = []" by (force simp: filter_empty_conv)
    then show ?thesis by (simp add: get overlay_apply)
  qed
  assume "k \<in> re_key ` set edits"
  then have "filter (\<lambda>e. re_key e = k) edits \<noteq> []" by (auto simp: filter_empty_conv)
  then show "\<exists>e. pending_Get (pending_with p edits g) k = Some e \<and> re_generation e = g"
    by (auto simp: get overlay_apply stamp_def split: list.split)
qed

lemma touched_since_snoc:
  "touched_since base t (hist @ [(g, te)]) =
    touched_since base t hist \<union> (if base < g \<and> te_Table te = t then {te} else {})"
  by (auto simp: touched_since_def)

lemma touched_since_old: "\<forall>(g', _) \<in> set hist. g' \<le> g \<Longrightarrow> g \<le> base \<Longrightarrow> touched_since base t hist = {}"
  by (fastforce simp: touched_since_def)

lemma table_writes_record:
  "table_writes (record_edit g te l) t =
    (if t = te_Table te then \<lparr>tw_schema = (if ddl te then g else tw_schema (table_writes l t)), tw_touched = g\<rparr>
     else table_writes l t)"
  by (simp add: record_edit_def Let_def table_writes_def update_conv')

lemma claims_update:
  "map_of (fold (\<lambda>c. AList.update (t', cl_Index c, cl_Key c) g) cs m) (t, i, k) =
    (if t = t' \<and> (i, k) \<in> (\<lambda>c. (cl_Index c, cl_Key c)) ` set cs then Some g else map_of m (t, i, k))"
  by (induction cs arbitrary: m) (auto simp: update_conv')

lemma claim_generation_record:
  "claim_generation (record_edit g te l) (t, i, k) =
    (if t = te_Table te \<and> (i, k) \<in> claim_keys te then g else claim_generation l (t, i, k))"
  by (simp add: record_edit_def Let_def claim_generation_def claims_update claim_keys_def)

lemma apply_typed_edit_pending:
  "map_of (ap_pending (apply_typed_edit H g te a)) t =
    (if t \<noteq> te_Table te then map_of (ap_pending a) t
     else if te_Drop te then None
     else let p = (case map_of (ap_pending a) t of None \<Rightarrow> noPending | Some p \<Rightarrow> p)
          in Some \<lparr>pt_schemaData = (if te_Schema te \<noteq> [] then te_Schema te else pt_schemaData p),
                   pt_rows = pending_with (pt_rows p) (te_Edits te) g\<rparr>)"
  by (auto simp: apply_typed_edit_def Let_def update_conv' delete_conv')

lemma noPending_rows: "pending_ok (pt_rows noPending)" "pending_Get (pt_rows noPending) k = None"
  by (simp_all add: noPending_def pending_ok_def pending_Get_def)

text \<open>One table edit, recorded and applied, keeps log and pending rows in step with the history.\<close>

definition rows_since :: "uint64 \<Rightarrow> (bytes, pendingTableEdits) gomap \<Rightarrow> bytes \<Rightarrow> bytes \<Rightarrow> bool" where
  "rows_since base pending t k \<longleftrightarrow>
     (\<exists>p e. map_of pending t = Some p \<and> pending_Get (pt_rows p) k = Some e \<and> base < re_generation e)"

lemma rows_since_apply:
  assumes "\<And>p. map_of (ap_pending a) (te_Table te) = Some p \<Longrightarrow> pending_ok (pt_rows p)" "\<not> te_Drop te"
  shows "rows_since base (ap_pending (apply_typed_edit H g te a)) (te_Table te) k \<longleftrightarrow>
    (if k \<in> row_keys te then base < g else rows_since base (ap_pending a) (te_Table te) k)"
proof -
  define p where "p = (case map_of (ap_pending a) (te_Table te) of None \<Rightarrow> noPending | Some p \<Rightarrow> p)"
  have ok: "pending_ok (pt_rows p)" using assms(1) noPending_rows by (auto simp: p_def split: option.split)
  have old: "rows_since base (ap_pending a) (te_Table te) k \<longleftrightarrow> (\<exists>e. pending_Get (pt_rows p) k = Some e \<and> base < re_generation e)"
    by (auto simp: rows_since_def p_def noPending_rows split: option.split)
  have new: "rows_since base (ap_pending (apply_typed_edit H g te a)) (te_Table te) k \<longleftrightarrow>
      (\<exists>e. pending_Get (pending_with (pt_rows p) (te_Edits te) g) k = Some e \<and> base < re_generation e)"
    using assms(2) by (auto simp: rows_since_def apply_typed_edit_pending p_def Let_def)
  show ?thesis
    unfolding new old row_keys_def using pending_with_Get(2,3)[OF ok, of k "te_Edits te" g] by auto
qed

lemma log_ok_step:
  assumes ok: "log_ok l (ap_pending a) hist" and mono: "\<forall>(g', _) \<in> set hist. g' \<le> g"
  shows "log_ok (record_edit g te l) (ap_pending (apply_typed_edit H g te a)) (hist @ [(g, te)])"
  unfolding log_ok_def touched_since_snoc table_writes_record claim_generation_record rows_since_def[symmetric]
proof (intro allI)
  fix base t
  note I = ok[unfolded log_ok_def rows_since_def[symmetric], rule_format, of base t]
  let ?T = "touched_since base t hist"
  have old: "?T = {}" if "\<not> base < g" using touched_since_old[OF mono] that by (meson not_less)
  have pok: "pending_ok (pt_rows p)" if "map_of (ap_pending (apply_typed_edit H g te a)) t = Some p" for p
    using that I noPending_rows pending_with_Get(1)
    by (auto simp: apply_typed_edit_pending Let_def split: if_splits option.splits)
  show "(base < tw_touched (if t = te_Table te then \<lparr>tw_schema = if ddl te then g else tw_schema (table_writes l t), tw_touched = g\<rparr>
           else table_writes l t) \<longleftrightarrow> ?T \<union> (if base < g \<and> te_Table te = t then {te} else {}) \<noteq> {}) \<and>
     (base < tw_schema (if t = te_Table te then \<lparr>tw_schema = if ddl te then g else tw_schema (table_writes l t), tw_touched = g\<rparr>
           else table_writes l t) \<longleftrightarrow> (\<exists>te \<in> ?T \<union> (if base < g \<and> te_Table te = t then {te} else {}). ddl te)) \<and>
     (\<forall>i k. base < (if t = te_Table te \<and> (i, k) \<in> claim_keys te then g else claim_generation l (t, i, k)) \<longleftrightarrow>
           (\<exists>te \<in> ?T \<union> (if base < g \<and> te_Table te = t then {te} else {}). (i, k) \<in> claim_keys te)) \<and>
     (\<forall>p. map_of (ap_pending (apply_typed_edit H g te a)) t = Some p \<longrightarrow> pending_ok (pt_rows p)) \<and>
     (\<not> base < tw_schema (if t = te_Table te then \<lparr>tw_schema = if ddl te then g else tw_schema (table_writes l t), tw_touched = g\<rparr>
           else table_writes l t) \<longrightarrow>
        (\<forall>k. rows_since base (ap_pending (apply_typed_edit H g te a)) t k \<longleftrightarrow>
           (\<exists>te \<in> ?T \<union> (if base < g \<and> te_Table te = t then {te} else {}). k \<in> row_keys te)))"
  proof (cases "t = te_Table te")
    case False
    then have "rows_since base (ap_pending (apply_typed_edit H g te a)) t k = rows_since base (ap_pending a) t k" for k
      by (simp add: rows_since_def apply_typed_edit_pending)
    then show ?thesis using False I pok by simp
  next
    case True
    note rows = rows_since_apply[of a te base H g, folded True, OF conjunct1[OF conjunct2[OF conjunct2[OF conjunct2[OF I]]], rule_format]]
    have drop: "\<not> rows_since base (ap_pending (apply_typed_edit H g te a)) t k" if "te_Drop te" for k
      using that True by (simp add: rows_since_def apply_typed_edit_pending)
    show ?thesis
    proof (cases "base < g")
      case new: True
      show ?thesis using I True new pok rows by (auto simp: ddl_def)
    next
      case no: False
      have "\<not> rows_since base (ap_pending (apply_typed_edit H g te a)) t k" for k
        using I rows[of k] drop[of k] old[OF no] no by (cases "te_Drop te") (auto split: if_splits)
      then show ?thesis using I True no pok old[OF no] by auto
    qed
  qed
qed


lemma log_ok_fold:
  assumes "log_ok l (ap_pending a) hist" "\<forall>(g', _) \<in> set hist. g' \<le> g"
  shows "log_ok (fold (record_edit g) edits l) (ap_pending (fold (apply_typed_edit H g) edits a)) (hist @ map (Pair g) edits)"
  using assms
proof (induction edits arbitrary: l a hist)
  case (Cons te edits)
  have "\<forall>(g', _) \<in> set (hist @ [(g, te)]). g' \<le> g" using Cons.prems(2) by auto
  from Cons.IH[OF log_ok_step[OF Cons.prems] this] show ?case by simp
qed simp

lemma log_ok_new: "log_ok \<lparr>wl_from = g, wl_tables = [], wl_claims = []\<rparr> [] []"
  by (simp add: log_ok_def touched_since_def table_writes_def claim_generation_def)

text \<open>The view and the history of the typed transactions since its last base.\<close>

definition view_log :: "uint64 \<Rightarrow> workingView \<Rightarrow> (uint64 \<times> TypedTableEdit) list \<Rightarrow> bool" where
  "view_log start v hist \<longleftrightarrow> start \<le> vw_generation v \<and> (\<forall>(g, _) \<in> set hist. start < g \<and> g \<le> vw_generation v) \<and>
     (case vw_writes v of
        None \<Rightarrow> hist = [] \<and> vw_pendingEdits v = [] \<and> start = vw_generation v
      | Some l \<Rightarrow> wl_from l = start \<and> log_ok l (vw_pendingEdits v) hist)"

definition commit_typed ::
  "(bytes \<Rightarrow> bytes) \<Rightarrow> (hash list \<Rightarrow> hash list) \<Rightarrow> Snapshot \<Rightarrow> TypedTableEdit list \<Rightarrow> workingView \<Rightarrow> workingView" where
  "commit_typed H order snapshot edits v =
     (typed_view H order snapshot edits (vw_generation v + 1) v)\<lparr>vw_generation := vw_generation v + 1, vw_dirty := True\<rparr>"

lemma recorded_from: "wl_from (recorded l edits g) = (case l of None \<Rightarrow> g - 1 | Some l \<Rightarrow> wl_from l)"
proof -
  have "wl_from (fold (record_edit g) edits l) = wl_from l" for l
    by (induction edits arbitrary: l) (simp_all add: record_edit_def Let_def)
  then show ?thesis by (simp add: recorded_def split: option.split)
qed

lemma commit_typed_simps [simp]:
  "vw_generation (commit_typed H order s edits v) = vw_generation v + 1"
  "vw_dirty (commit_typed H order s edits v)"
  "vw_baseCommit (commit_typed H order s edits v) = vw_baseCommit v"
  "vw_writes (commit_typed H order s edits v) = Some (recorded (vw_writes v) edits (vw_generation v + 1))"
  "vw_snapshot (commit_typed H order s edits v) \<noteq> None"
  by (simp_all add: commit_typed_def typed_view_def applyTypedEditsToSnapshot_def Let_def)

lemma commit_typed_pending:
  "vw_pendingEdits (commit_typed H order s edits v) =
    ap_pending (fold (apply_typed_edit H (vw_generation v + 1)) edits
      \<lparr>ap_tables = mf_tables (sn_Manifest s), ap_pending = vw_pendingEdits v, ap_cache = sn_cache s\<rparr>)"
  by (simp add: commit_typed_def typed_view_def applyTypedEditsToSnapshot_def Let_def)

lemma view_log_commit:
  assumes "view_log start v hist" "vw_generation v < - 1"
  shows "view_log start (commit_typed H order s edits v) (hist @ map (Pair (vw_generation v + 1)) edits)"
proof -
  let ?g = "vw_generation v + 1"
  let ?l = "case vw_writes v of None \<Rightarrow> \<lparr>wl_from = ?g - 1, wl_tables = [], wl_claims = []\<rparr> | Some l \<Rightarrow> l"
  have less: "vw_generation v < ?g" using assms(2) inc_less_eq_triv_imp[of "vw_generation v"] by force
  have old: "\<forall>(g', _) \<in> set hist. start < g' \<and> g' \<le> vw_generation v" "start \<le> vw_generation v"
    using assms(1) by (auto simp: view_log_def)
  have ok: "log_ok ?l (vw_pendingEdits v) hist" and first: "wl_from ?l = start"
    using assms(1) log_ok_new by (auto simp: view_log_def split: option.splits)
  have "\<forall>(g', _) \<in> set hist. g' \<le> ?g" using old(1) less by fastforce
  from log_ok_fold[where a = "\<lparr>ap_tables = _, ap_pending = vw_pendingEdits v, ap_cache = _\<rparr>", simplified, OF ok this]
  have "log_ok (recorded (vw_writes v) edits ?g) (vw_pendingEdits (commit_typed H order s edits v)) (hist @ map (Pair ?g) edits)"
    unfolding commit_typed_pending recorded_def .
  moreover have "\<forall>(g', _) \<in> set (hist @ map (Pair ?g) edits). start < g' \<and> g' \<le> ?g"
    using old less by fastforce
  moreover have "start \<le> ?g" using old(2) less by simp
  moreover have "wl_from (recorded (vw_writes v) edits ?g) = start"
    using first by (simp add: recorded_from split: option.splits)
  ultimately show ?thesis by (simp add: view_log_def)
qed

lemma row_conflict_rows_since:
  "row_conflict v base te \<longleftrightarrow> (\<exists>k \<in> row_keys te. rows_since base (vw_pendingEdits v) (te_Table te) k)"
  by (auto simp: row_conflict_def rows_since_def row_keys_def list_ex_iff split: option.splits)

lemma conflict_loop_iff:
  assumes "log_ok l (vw_pendingEdits v) hist"
  shows "conflict_loop v l base edits = Inr () \<longleftrightarrow>
    (\<forall>te \<in> set edits. \<forall>te' \<in> touched_since base (te_Table te) hist. compatible te te')"
proof (induction edits)
  case (Cons te edits)
  let ?T = "touched_since base (te_Table te) hist"
  note I = assms[unfolded log_ok_def rows_since_def[symmetric], rule_format, of base "te_Table te"]
  have tab: "te_Table te' = te_Table te" if "te' \<in> ?T" for te' using that by (auto simp: touched_since_def)
  have claims: "claim_conflict l base te \<longleftrightarrow> (\<exists>te' \<in> ?T. claim_keys te \<inter> claim_keys te' \<noteq> {})"
    using I by (auto simp: claim_conflict_def list_ex_iff claim_keys_def[of te])
  have touched: "base < tw_touched (table_writes l (te_Table te)) \<longleftrightarrow> ?T \<noteq> {}"
    and schema: "base < tw_schema (table_writes l (te_Table te)) \<longleftrightarrow> (\<exists>te' \<in> ?T. ddl te')"
    using I by simp_all
  have rows: "row_conflict v base te \<longleftrightarrow> (\<exists>te' \<in> ?T. row_keys te \<inter> row_keys te' \<noteq> {})" if "\<not> (\<exists>te' \<in> ?T. ddl te')"
    using I that by (auto simp: row_conflict_rows_since)
  have "conflict_loop v l base (te # edits) = Inr () \<longleftrightarrow> conflict_loop v l base edits = Inr () \<and>
      (?T = {} \<or> \<not> (\<exists>te' \<in> ?T. ddl te') \<and> \<not> ddl te \<and> \<not> row_conflict v base te \<and> \<not> claim_conflict l base te)"
    using touched by (simp add: Let_def not_less[symmetric] schema)
  also have "\<dots> \<longleftrightarrow> conflict_loop v l base edits = Inr () \<and> (\<forall>te' \<in> ?T. compatible te te')"
  proof -
    have "(\<forall>te' \<in> ?T. compatible te te') \<longleftrightarrow>
        (\<forall>te' \<in> ?T. \<not> ddl te \<and> \<not> ddl te' \<and> row_keys te \<inter> row_keys te' = {} \<and> claim_keys te \<inter> claim_keys te' = {})"
      by (rule ball_cong) (auto simp: compatible_def dest: tab)
    then show ?thesis using rows unfolding claims by (cases "\<exists>te' \<in> ?T. ddl te'") auto
  qed
  finally show ?case by (simp add: Cons.IH conj_commute)
qed simp

lemma writeConflict_iff:
  assumes "view_log start v hist" "start \<le> base" "base \<le> vw_generation v"
  shows "writeConflict v base edits = Inr () \<longleftrightarrow>
    (\<forall>te \<in> set edits. \<forall>(g, te') \<in> set hist. base < g \<longrightarrow> compatible te te')"
proof (cases "base = vw_generation v")
  case True
  then show ?thesis using assms(1) by (force simp: writeConflict_def view_log_def)
next
  case False
  then obtain l where l: "vw_writes v = Some l" "wl_from l = start" "log_ok l (vw_pendingEdits v) hist"
    using assms by (auto simp: view_log_def split: option.splits)
  have "writeConflict v base edits = conflict_loop v l base edits"
    using False l assms(2,3) by (auto simp: writeConflict_def)
  moreover have "(\<forall>te' \<in> touched_since base (te_Table te) hist. compatible te te') \<longleftrightarrow>
      (\<forall>g te'. (g, te') \<in> set hist \<longrightarrow> base < g \<longrightarrow> compatible te te')" for te
  proof (intro iffI allI impI ballI)
    fix g te' assume *: "\<forall>te' \<in> touched_since base (te_Table te) hist. compatible te te'" "(g, te') \<in> set hist" "base < g"
    then show "compatible te te'"
      by (cases "te_Table te' = te_Table te") (auto simp: touched_since_def compatible_def)
  qed (auto simp: touched_since_def)
  ultimately show ?thesis by (auto simp: conflict_loop_iff[OF l(3)])
qed

text \<open>Transactions committed one after the other on a view without pending edits.\<close>

definition commits ::
  "(bytes \<Rightarrow> bytes) \<Rightarrow> (hash list \<Rightarrow> hash list) \<Rightarrow> TypedTableEdit list list \<Rightarrow> workingView \<Rightarrow> workingView" where
  "commits H order txs v = fold (\<lambda>edits v. commit_typed H order (the (vw_snapshot v)) edits v) txs v"

definition history :: "uint64 \<Rightarrow> TypedTableEdit list list \<Rightarrow> (uint64 \<times> TypedTableEdit) list" where
  "history start txs = concat (map (\<lambda>j. map (Pair (start + of_nat (Suc j))) (txs ! j)) [0..<length txs])"

lemma history_snoc: "history start (txs @ [edits]) = history start txs @ map (Pair (start + of_nat (Suc (length txs)))) edits"
  by (simp add: history_def nth_append) (intro arg_cong[where f = concat] map_cong; simp)

lemma commits_generation: "vw_generation (commits H order txs v) = vw_generation v + of_nat (length txs)"
  by (induction txs arbitrary: v) (simp_all add: commits_def)

lemma view_log_commits:
  assumes "vw_writes v = None" "vw_pendingEdits v = []" "unat (vw_generation v) + length txs < 2 ^ 64"
  shows "view_log (vw_generation v) (commits H order txs v) (history (vw_generation v) txs)"
  using assms(3)
proof (induction txs rule: rev_induct)
  case Nil
  then show ?case using assms(1,2) by (simp add: view_log_def commits_def history_def)
next
  case (snoc edits txs)
  let ?v = "commits H order txs v"
  have "unat (vw_generation ?v) = unat (vw_generation v) + length txs"
    using snoc.prems by (simp add: commits_generation unat_word_ariths(1) unat_of_nat)
  then have "vw_generation ?v < - 1"
    using snoc.prems by (simp add: word_less_nat_alt unsigned_minus_1_eq_mask mask_eq_exp_minus_1)
  from view_log_commit[OF snoc.IH this, of H order "the (vw_snapshot ?v)" edits] snoc.prems
  show ?case
    by (simp add: history_snoc commits_generation add.assoc) (simp add: commits_def add.commute)
qed

lemma ball_drop_nth: "(\<forall>x \<in> set (drop i xs). P x) \<longleftrightarrow> (\<forall>j < length xs. i \<le> j \<longrightarrow> P (xs ! j))"
proof (intro iffI allI impI)
  fix j assume *: "\<forall>x \<in> set (drop i xs). P x" "j < length xs" "i \<le> j"
  then have "j - i < length (drop i xs)" "drop i xs ! (j - i) = xs ! j" by (auto simp: less_diff_conv)
  with * show "P (xs ! j)" by (metis nth_mem)
qed (auto simp: all_set_conv_all_nth)

lemma first_committer_wins_commits:
  assumes "vw_writes v = None" "vw_pendingEdits v = []" "unat (vw_generation v) + length txs < 2 ^ 64" "i \<le> length txs"
  shows "writeConflict (commits H order txs v) (vw_generation v + of_nat i) edits = Inr () \<longleftrightarrow>
    (\<forall>te \<in> set edits. \<forall>tx \<in> set (drop i txs). \<forall>te' \<in> set tx. compatible te te')"
proof -
  let ?g = "\<lambda>n. vw_generation v + of_nat n"
  have num: "unat (?g n) = unat (vw_generation v) + n" if "n \<le> length txs" for n
    using that assms(3) by (simp add: unat_word_ariths(1) unat_of_nat)
  have le: "?g a \<le> ?g b \<longleftrightarrow> a \<le> b" if "a \<le> length txs" "b \<le> length txs" for a b
    using num[OF that(1)] num[OF that(2)] by (simp only: word_le_nat_alt) simp
  have less: "?g i < ?g (Suc j) \<longleftrightarrow> i \<le> j" if "j < length txs" for j
    using le[of "Suc j" i] that assms(4) by (simp only: not_le[symmetric]) auto
  have "(\<forall>(g, te') \<in> set (history (vw_generation v) txs). ?g i < g \<longrightarrow> compatible te te') \<longleftrightarrow>
      (\<forall>tx \<in> set (drop i txs). \<forall>te' \<in> set tx. compatible te te')" for te
  proof -
    have "(\<forall>(g, te') \<in> set (history (vw_generation v) txs). ?g i < g \<longrightarrow> compatible te te') \<longleftrightarrow>
        (\<forall>j < length txs. i \<le> j \<longrightarrow> (\<forall>te' \<in> set (txs ! j). compatible te te'))"
    proof -
      have "(\<forall>(g, te') \<in> set (history (vw_generation v) txs). ?g i < g \<longrightarrow> compatible te te') \<longleftrightarrow>
          (\<forall>j < length txs. \<forall>te' \<in> set (txs ! j). ?g i < ?g (Suc j) \<longrightarrow> compatible te te')"
        by (auto simp: history_def simp del: of_nat_Suc)
      then show ?thesis using less by (auto simp del: of_nat_Suc)
    qed
    also have "\<dots> \<longleftrightarrow> (\<forall>tx \<in> set (drop i txs). \<forall>te' \<in> set tx. compatible te te')"
      by (rule ball_drop_nth[symmetric])
    finally show ?thesis .
  qed
  moreover have "?g 0 \<le> ?g i" "?g i \<le> vw_generation (commits H order txs v)"
    using le[of 0 i] le[of i "length txs"] assms(4) by (simp_all add: commits_generation)
  ultimately show ?thesis
    using writeConflict_iff[OF view_log_commits[OF assms(1-3)], of "?g i"] by simp
qed

end
