(* ===== verification/Journal_Load.thy ===== *)
theory Journal_Load
  imports Working_View
begin

text \<open>
  Replay of the working journal (\<open>WorkingState.load\<close>, \<open>reconcileHead\<close> of
  \<open>common/repository/working.go\<close>).

  The repository around the journal is the record \<open>repoEnv\<close>: the digest, JSON, the iteration order of
  object sets, the snapshot of a data commit (\<open>SnapshotCommit\<close>) and the data head (\<open>Head\<close>). The journal
  file is its content and an identity, which is what \<open>os.SameFile\<close> compares. A cached view has the
  offset up to which it has replayed the file and the first header of that file.
\<close>

section \<open>Definitions\<close>

record repoEnv =
  en_H :: "bytes \<Rightarrow> bytes"
  en_json :: jsonlib
  en_order :: "hash list \<Rightarrow> hash list"
  en_snapshotCommit :: "bytes \<Rightarrow> error + Snapshot"
  en_head :: "error + bytes"

record journalFile =
  f_id :: nat
  f_content :: bytes

record workingCache =
  wc_view :: workingView
  wc_info :: "nat option"
  wc_offset :: nat
  wc_first :: bytes

subsection \<open>Reconciling with the head\<close>

text \<open>\<open>reflect.DeepEqual\<close> on manifests; a nil and an empty slice or map of roots are not told apart.\<close>

definition gomap_equal :: "('v \<Rightarrow> 'v \<Rightarrow> bool) \<Rightarrow> ('k, 'v) gomap \<Rightarrow> ('k, 'v) gomap \<Rightarrow> bool" where
  "gomap_equal eq a b \<longleftrightarrow> length a = length b \<and>
     list_all (\<lambda>(k, v). case map_of b k of None \<Rightarrow> False | Some v' \<Rightarrow> eq v v') a"

definition table_DeepEqual :: "Table \<Rightarrow> Table \<Rightarrow> bool" where
  "table_DeepEqual a b \<longleftrightarrow> SchemaRoot a = SchemaRoot b \<and> DataRoot a = DataRoot b \<and> gomap_equal (=) (Indexes a) (Indexes b)"

definition manifest_DeepEqual :: "Manifest \<Rightarrow> Manifest \<Rightarrow> bool" where
  "manifest_DeepEqual a b \<longleftrightarrow> mf_FormatVersion a = mf_FormatVersion b \<and> mf_DefaultDatabase a = mf_DefaultDatabase b \<and>
     (case (mf_Tables a, mf_Tables b) of
        (None, None) \<Rightarrow> True | (Some ta, Some tb) \<Rightarrow> gomap_equal table_DeepEqual ta tb | _ \<Rightarrow> False) \<and>
     mf_Objects a = mf_Objects b"

definition reconcileHead :: "repoEnv \<Rightarrow> workingView \<Rightarrow> bytes \<Rightarrow> error + workingView" where
  "reconcileHead env view head =
     (if vw_baseCommit view = head then Inr view
      else case en_snapshotCommit env head of
        Inl e \<Rightarrow> Inl e
      | Inr current \<Rightarrow>
          let reconciled = view\<lparr>vw_snapshot := Some (current\<lparr>sn_generation := vw_generation view\<rparr>), vw_baseCommit := head,
                                vw_dirty := False, vw_writes := None\<rparr>
          in if vw_dirty view then
               (case vw_snapshot view of
                  None \<Rightarrow> Inl (TableError NilDereference)
                | Some s \<Rightarrow> if manifest_DeepEqual (sn_Manifest current) (sn_Manifest s) then Inr reconciled
                            else Inl (JournalError ErrWorkingBaseChanged))
             else Inr reconciled)"

subsection \<open>Replaying frames\<close>

record replay =
  rp_view :: workingView
  rp_deferred :: "journalRecord list"
  rp_baseLoaded :: bool
  rp_pending :: "(bytes, journalRecord) gomap"
  rp_safe :: nat

definition ensureBase :: "repoEnv \<Rightarrow> replay \<Rightarrow> error + replay" where
  "ensureBase env rp =
     (if rp_baseLoaded rp then Inr rp
      else case en_snapshotCommit env (vw_baseCommit (rp_view rp)) of
        Inl e \<Rightarrow> Inl e
      | Inr base \<Rightarrow>
          Inr (rp\<lparr>rp_view := (rp_view rp)\<lparr>vw_snapshot := Some (base\<lparr>sn_generation := vw_generation (rp_view rp)\<rparr>)\<rparr>,
                  rp_baseLoaded := True\<rparr>))"

definition apply_prepare :: "repoEnv \<Rightarrow> journalRecord \<Rightarrow> workingView \<Rightarrow> error + workingView" where
  "apply_prepare env prepare view =
     (case vw_snapshot view of
        None \<Rightarrow> Inl (TableError NilDereference)
      | Some s \<Rightarrow>
          if jr_Kind prepare = KTypedPrepare then
            Inr (typed_view (en_H env) (en_order env) s (jr_TypedEdits prepare) (jr_Generation prepare) view)
          else case jr_Manifest prepare of
            None \<Rightarrow> Inl (TableError NilDereference)
          | Some m \<Rightarrow>
              Inr (view\<lparr>vw_snapshot := Some (workingSnapshot s m (remdups (mf_Objects m)) (jr_Objects prepare) (jr_Generation prepare)),
                        vw_pendingEdits := [], vw_writes := None\<rparr>))"

fun apply_prepares :: "repoEnv \<Rightarrow> journalRecord list \<Rightarrow> workingView \<Rightarrow> error + workingView" where
  "apply_prepares env [] view = Inr view"
| "apply_prepares env (p # ps) view =
     (case apply_prepare env p view of Inl e \<Rightarrow> Inl e | Inr view' \<Rightarrow> apply_prepares env ps view')"

definition materialize :: "repoEnv \<Rightarrow> replay \<Rightarrow> error + replay" where
  "materialize env rp =
     (case ensureBase env rp of
        Inl e \<Rightarrow> Inl e
      | Inr rp \<Rightarrow>
          (case apply_prepares env (rp_deferred rp) (rp_view rp) of
             Inl e \<Rightarrow> Inl e
           | Inr view \<Rightarrow> Inr (rp\<lparr>rp_view := view, rp_deferred := []\<rparr>)))"

definition replay_commit :: "repoEnv \<Rightarrow> journalRecord \<Rightarrow> nat \<Rightarrow> replay \<Rightarrow> error + replay" where
  "replay_commit env record end' rp =
     (case map_of (rp_pending rp) (jr_TxID record) of
        None \<Rightarrow> Inl (JournalError UnmatchedCommit)
      | Some prepare \<Rightarrow>
          if jr_Generation prepare \<noteq> jr_Generation record then Inl (JournalError UnmatchedCommit)
          else if jr_Generation prepare \<noteq> vw_generation (rp_view rp) + 1 then Inl (JournalError NonMonotonicGeneration)
          else if jr_BaseCommit prepare \<noteq> vw_baseCommit (rp_view rp) \<and> vw_dirty (rp_view rp)
          then Inl (JournalError BaseChangedWhileDirty)
          else let rp = (if jr_BaseCommit prepare \<noteq> vw_baseCommit (rp_view rp)
                         then rp\<lparr>rp_view := (rp_view rp)\<lparr>vw_baseCommit := jr_BaseCommit prepare, vw_pendingEdits := [], vw_writes := None\<rparr>,
                                 rp_baseLoaded := False, rp_deferred := []\<rparr>
                         else rp);
                   done = Inr (rp\<lparr>rp_deferred := rp_deferred rp @ [prepare],
                                  rp_view := (rp_view rp)\<lparr>vw_generation := jr_Generation prepare, vw_dirty := True\<rparr>,
                                  rp_pending := AList.delete (jr_TxID record) (rp_pending rp), rp_safe := end'\<rparr>)
               in if jr_Kind prepare = KPrepare then
                    (case jr_Manifest prepare of
                       None \<Rightarrow> Inl (TableError NilDereference)
                     | Some m \<Rightarrow> (case validateManifestInventory m (remdups (mf_Objects m)) of Inl e \<Rightarrow> Inl e | Inr _ \<Rightarrow> done))
                  else done)"

definition replay_frame :: "repoEnv \<Rightarrow> bool \<Rightarrow> journalFrame \<Rightarrow> replay \<Rightarrow> error + replay" where
  "replay_frame env atStart frame rp =
     (let record = jf_record frame;
          rp = (if atStart \<and> jr_Kind record = KCheckpoint
                then rp\<lparr>rp_view := (rp_view rp)\<lparr>vw_generation := jr_Generation record\<rparr>\<rparr> else rp)
      in case jr_Kind record of
           KPrepare \<Rightarrow>
             if jr_Manifest record = None \<or> jr_TxID record = [] then Inl (JournalError IncompletePrepare)
             else if \<not> list_all (\<lambda>(h, d). hash_Valid h \<and> storage_Sum (en_H env) d = h) (jr_Objects record)
             then Inl (JournalError JournalObjectIntegrity)
             else Inr (rp\<lparr>rp_pending := AList.update (jr_TxID record) record (rp_pending rp)\<rparr>)
         | KTypedPrepare \<Rightarrow>
             if jr_TxID record = [] \<or> jr_TypedEdits record = [] then Inl (JournalError IncompleteTypedPrepare)
             else Inr (rp\<lparr>rp_pending := AList.update (jr_TxID record) record (rp_pending rp)\<rparr>)
         | KCommit \<Rightarrow> replay_commit env record (jf_end frame) rp
         | KCheckpoint \<Rightarrow>
             if rp_pending rp \<noteq> [] then Inl (JournalError CheckpointAfterIncomplete)
             else if jr_Generation record \<noteq> vw_generation (rp_view rp) then Inl (JournalError CheckpointGenerationDiffers)
             else Inr (rp\<lparr>rp_view := (rp_view rp)\<lparr>vw_baseCommit := jr_GitCommit record, vw_dirty := False,
                                                  vw_pendingEdits := [], vw_writes := None\<rparr>,
                          rp_baseLoaded := False, rp_deferred := [], rp_safe := jf_end frame\<rparr>)
         | KOther _ \<Rightarrow> Inl (JournalError UnknownRecordKind))"

fun replay_frames :: "repoEnv \<Rightarrow> bool \<Rightarrow> journalFrame list \<Rightarrow> replay \<Rightarrow> error + replay" where
  "replay_frames env atStart [] rp = Inr rp"
| "replay_frames env atStart (f # fs) rp =
     (case replay_frame env atStart f rp of Inl e \<Rightarrow> Inl e | Inr rp' \<Rightarrow> replay_frames env False fs rp')"

text \<open>The base of the first transaction, if the frames have one.\<close>

definition initial_base :: "journalFrame list \<Rightarrow> bytes \<Rightarrow> bytes" where
  "initial_base frames def =
     (case find (\<lambda>f. jr_Kind (jf_record f) \<in> {KPrepare, KTypedPrepare} \<and> jr_BaseCommit (jf_record f) \<noteq> []) frames of
        None \<Rightarrow> def
      | Some f \<Rightarrow> jr_BaseCommit (jf_record f))"

subsection \<open>Loading\<close>

text \<open>From the replayed state on: a dirty view is built before it is compared with the head.\<close>

definition finish_load :: "repoEnv \<Rightarrow> bytes \<Rightarrow> replay \<Rightarrow> error + replay" where
  "finish_load env head rp =
     (case (if vw_dirty (rp_view rp) then materialize env rp else Inr rp) of
        Inl e \<Rightarrow> Inl e
      | Inr rp \<Rightarrow>
          (case reconcileHead env (rp_view rp) head of
             Inl e \<Rightarrow> Inl e
           | Inr view \<Rightarrow>
               materialize env (rp\<lparr>rp_view := view,
                                   rp_baseLoaded := (rp_baseLoaded rp \<or> vw_baseCommit view \<noteq> vw_baseCommit (rp_view rp))\<rparr>)))"

definition new_view :: "bytes \<Rightarrow> workingView" where
  "new_view base = \<lparr>vw_snapshot = None, vw_generation = 0, vw_dirty = False, vw_baseCommit = base, vw_pendingEdits = [], vw_writes = None\<rparr>"

definition load_frames ::
  "repoEnv \<Rightarrow> workingCache option \<Rightarrow> nat option \<Rightarrow> nat \<Rightarrow> journalFrame list \<Rightarrow> bytes
    \<Rightarrow> (error + workingView) \<times> workingCache option" where
  "load_frames env cached info start frames first =
     (let cache_after = (\<lambda>rp. Some \<lparr>wc_view = rp_view rp, wc_info = info, wc_offset = rp_safe rp, wc_first = first\<rparr>)
      in case cached of
        None \<Rightarrow>
          (case en_head env of
             Inl e \<Rightarrow> (Inl e, None)
           | Inr head \<Rightarrow>
               if head = [] then (Inl (RepoError ErrNotInitialized), None)
               else case replay_frames env (start = 0) frames
                      \<lparr>rp_view = new_view (initial_base frames head), rp_deferred = [], rp_baseLoaded = False, rp_pending = [], rp_safe = start\<rparr> of
                      Inl e \<Rightarrow> (Inl e, None)
                    | Inr rp \<Rightarrow> (case finish_load env head rp of Inl e \<Rightarrow> (Inl e, None) | Inr rp \<Rightarrow> (Inr (rp_view rp), cache_after rp)))
      | Some c \<Rightarrow>
          if frames = [] then
            if vw_dirty (wc_view c) then (Inr (wc_view c), cached)
            else case en_head env of
                   Inl e \<Rightarrow> (Inl e, cached)
                 | Inr head \<Rightarrow>
                     (case reconcileHead env (wc_view c) head of
                        Inl e \<Rightarrow> (Inl e, cached)
                      | Inr view \<Rightarrow> (Inr view, Some (c\<lparr>wc_view := view\<rparr>)))
          else case replay_frames env (start = 0) frames
                 \<lparr>rp_view = wc_view c, rp_deferred = [], rp_baseLoaded = True, rp_pending = [], rp_safe = start\<rparr> of
                 Inl e \<Rightarrow> (Inl e, cached)
               | Inr rp \<Rightarrow>
                   (case (if vw_dirty (rp_view rp) then Inr (vw_baseCommit (rp_view rp)) else en_head env) of
                      Inl e \<Rightarrow> (Inl e, cached)
                    | Inr head \<Rightarrow> (case finish_load env head rp of Inl e \<Rightarrow> (Inl e, cached) | Inr rp \<Rightarrow> (Inr (rp_view rp), cache_after rp))))"

definition usable_cache :: "workingCache option \<Rightarrow> journalFile option \<Rightarrow> workingCache option" where
  "usable_cache cache jf =
     (case cache of
        None \<Rightarrow> None
      | Some c \<Rightarrow>
          (case (jf, wc_info c) of
             (None, None) \<Rightarrow> cache
           | (Some f, Some i) \<Rightarrow> if f_id f = i \<and> wc_offset c \<le> length (f_content f) then cache else None
           | _ \<Rightarrow> None))"

text \<open>
  A load that fails leaves the cache in place, unless the file was replaced; the error results carry the
  cache the code keeps.
\<close>

definition load :: "repoEnv \<Rightarrow> workingCache option \<Rightarrow> journalFile option \<Rightarrow> (error + workingView) \<times> workingCache option" where
  "load env cache jf =
     (let cached = usable_cache cache jf;
          start = (case cached of None \<Rightarrow> 0 | Some c \<Rightarrow> wc_offset c);
          content = map_option f_content jf;
          result = (\<lambda>cached start frames first. case load_frames env cached (map_option f_id jf) start frames first of
             (Inl e, _) \<Rightarrow> (Inl e, cache) | (Inr view, c) \<Rightarrow> (Inr view, c))
      in case readJournalFrames (en_json env) content start (map_option wc_first cached) of
           Inr (frames, first) \<Rightarrow> result cached start frames first
         | Inl e \<Rightarrow>
             if e = JournalError JournalReplaced then
               (case readJournalFrames (en_json env) content 0 None of
                  Inl e \<Rightarrow> (Inl e, cache)
                | Inr (frames, first) \<Rightarrow> result None 0 frames first)
             else (Inl e, cache))"


section \<open>What the journal keeps of an edit\<close>

text \<open>The generation of a row edit is not journaled, and not needed: a commit stamps its own.\<close>

lemma insort_key_cong: "\<forall>y \<in> set (x # xs). f y = g y \<Longrightarrow> insort_key f x xs = insort_key g x xs"
  by (induction xs) auto

lemma sort_key_cong: "\<forall>x \<in> set xs. f x = g x \<Longrightarrow> sort_key f xs = sort_key g xs"
  by (induction xs) (auto simp: insort_key_cong)

lemma unique_run_unstamped:
  assumes "\<forall>pos \<in> set order. pos < length es"
  shows "unique_run (map (\<lambda>e. e\<lparr>re_generation := 0\<rparr>) es) g order = unique_run es g order"
  using assms by (induction es g order rule: unique_run.induct) auto

lemma pending_with_unstamped: "pending_with p (map (\<lambda>e. e\<lparr>re_generation := 0\<rparr>) es) g = pending_with p es g"
proof -
  have "edit_order (map (\<lambda>e. e\<lparr>re_generation := 0\<rparr>) es) = edit_order es"
    unfolding edit_order_def length_map by (rule sort_key_cong) auto
  then show ?thesis by (simp add: pending_with_def unique_run_unstamped edit_order_def)
qed

lemma apply_typed_edit_journaled: "apply_typed_edit H g \<circ> journaled_edit = apply_typed_edit H g"
  by (simp add: fun_eq_iff apply_typed_edit_def journaled_edit_def pending_with_unstamped Let_def)

lemma record_edit_journaled: "record_edit g \<circ> journaled_edit = record_edit g"
  by (simp add: fun_eq_iff record_edit_def ddl_def)

lemma typed_view_journaled: "typed_view H order s (map journaled_edit edits) g v = typed_view H order s edits g v"
  by (simp add: typed_view_def applyTypedEditsToSnapshot_def recorded_def fold_map apply_typed_edit_journaled record_edit_journaled)

section \<open>Replay is lazy\<close>

lemma replay_frames_append:
  "replay_frames env b (fs @ gs) rp =
    (case replay_frames env b fs rp of Inl e \<Rightarrow> Inl e | Inr rp' \<Rightarrow> replay_frames env (b \<and> fs = []) gs rp')"
  by (induction fs arbitrary: b rp) (auto split: sum.split)

text \<open>Until a view is built, a full replay only collects transactions.\<close>

definition lazy :: "replay \<Rightarrow> bool" where
  "lazy rp \<longleftrightarrow> \<not> rp_baseLoaded rp \<and> vw_snapshot (rp_view rp) = None \<and> vw_pendingEdits (rp_view rp) = []
     \<and> vw_writes (rp_view rp) = None \<and> (vw_dirty (rp_view rp) \<longleftrightarrow> rp_deferred rp \<noteq> [])"

lemma replay_frame_lazy: "lazy rp \<Longrightarrow> replay_frame env b f rp = Inr rp' \<Longrightarrow> lazy rp'"
  by (auto simp: replay_frame_def replay_commit_def Let_def lazy_def split: journalKind.splits if_splits option.splits sum.splits)

lemma replay_frames_lazy: "lazy rp \<Longrightarrow> replay_frames env b fs rp = Inr rp' \<Longrightarrow> lazy rp'"
  by (induction fs arbitrary: b rp) (auto split: sum.splits dest: replay_frame_lazy)

definition fresh_replay :: "bytes \<Rightarrow> replay" where
  "fresh_replay base = \<lparr>rp_view = new_view base, rp_deferred = [], rp_baseLoaded = False, rp_pending = [], rp_safe = 0\<rparr>"

lemma lazy_fresh: "lazy (fresh_replay base)"
  by (simp add: lazy_def fresh_replay_def new_view_def)

text \<open>The base of a replay that starts with a checkpoint does not matter.\<close>

lemma replay_frames_base:
  assumes "jr_Kind (jf_record f) = KCheckpoint"
  shows "replay_frames env True (f # fs) (fresh_replay b) = replay_frames env True (f # fs) (fresh_replay b')"
  using assms by (simp add: replay_frame_def fresh_replay_def new_view_def Let_def)

lemma replay_frames_no_prepare:
  assumes "replay_frames env True fs (fresh_replay b) = Inr rp"
    and "\<forall>f \<in> set fs. jr_Kind (jf_record f) \<notin> {KPrepare, KTypedPrepare}" "fs \<noteq> []"
  shows "replay_frames env True fs (fresh_replay b') = Inr rp"
proof -
  obtain f fs' where fs: "fs = f # fs'" using assms(3) by (cases fs) auto
  have "jr_Kind (jf_record f) = KCheckpoint"
    using assms(1,2) fs by (cases "jr_Kind (jf_record f)") (auto simp: replay_frame_def replay_commit_def fresh_replay_def Let_def)
  then show ?thesis using replay_frames_base assms(1) fs by metis
qed

section \<open>Building the view\<close>

lemma applyTyped_generation:
  "applyTypedEditsToSnapshot H order (s\<lparr>sn_generation := x\<rparr>) p edits g = applyTypedEditsToSnapshot H order s p edits g"
  by (simp add: applyTypedEditsToSnapshot_def Let_def)

lemma apply_prepare_generation:
  "apply_prepare env p (v\<lparr>vw_generation := g\<rparr>) = map_sum id (\<lambda>v. v\<lparr>vw_generation := g\<rparr>) (apply_prepare env p v)"
  by (auto simp: apply_prepare_def typed_view_def split: option.split prod.split)

lemma apply_prepares_generation:
  "apply_prepares env ps (v\<lparr>vw_generation := g\<rparr>) = map_sum id (\<lambda>v. v\<lparr>vw_generation := g\<rparr>) (apply_prepares env ps v)"
  by (induction ps arbitrary: v) (auto simp: apply_prepare_generation split: sum.split)

lemma apply_prepare_stamp:
  "apply_prepare env p (v\<lparr>vw_snapshot := Some (s\<lparr>sn_generation := x\<rparr>)\<rparr>) =
   apply_prepare env p (v\<lparr>vw_snapshot := Some s\<rparr>)"
  by (auto simp: apply_prepare_def typed_view_def applyTyped_generation workingSnapshot_def split: option.split prod.split)

lemma apply_prepares_append:
  "apply_prepares env (ps @ qs) v = (case apply_prepares env ps v of Inl e \<Rightarrow> Inl e | Inr v' \<Rightarrow> apply_prepares env qs v')"
  by (induction ps arbitrary: v) (auto split: sum.split)

lemma apply_prepare_frame:
  assumes "apply_prepare env p v = Inr v'"
  shows "vw_generation v' = vw_generation v \<and> vw_dirty v' = vw_dirty v \<and> vw_baseCommit v' = vw_baseCommit v \<and> vw_snapshot v' \<noteq> None"
  using assms by (auto simp: apply_prepare_def typed_view_def split: option.splits if_splits prod.splits)

lemma apply_prepares_frame:
  assumes "apply_prepares env ps v = Inr v'"
  shows "vw_generation v' = vw_generation v \<and> vw_dirty v' = vw_dirty v \<and> vw_baseCommit v' = vw_baseCommit v"
  using assms apply_prepare_frame by (induction ps arbitrary: v) (fastforce split: sum.splits)+

end
