(* ===== verification/Journal_Crash.thy ===== *)
theory Journal_Crash
  imports Journal_Load
begin

text \<open>
  A typed commit appends two frames, the prepared edits and the commit marker. Whatever part of them
  reaches the disk, the next load from scratch sees the transaction whole or not at all
  (\<open>load_after_crash\<close>), and a load from a cached view agrees with one from scratch.
\<close>

section \<open>Finishing a full replay\<close>

lemma materialize_loaded: "rp_baseLoaded rp \<Longrightarrow> rp_deferred rp = [] \<Longrightarrow> materialize env rp = Inr rp"
  by (simp add: materialize_def ensureBase_def)

lemma finish_clean:
  assumes "lazy rp" "\<not> vw_dirty (rp_view rp)"
  shows "finish_load env head rp =
    (case en_snapshotCommit env head of
       Inl e \<Rightarrow> Inl e
     | Inr s \<Rightarrow> Inr (rp\<lparr>rp_view := (rp_view rp)\<lparr>vw_snapshot := Some (s\<lparr>sn_generation := vw_generation (rp_view rp)\<rparr>), vw_baseCommit := head\<rparr>,
                        rp_baseLoaded := True\<rparr>))"
  using assms
  by (cases "vw_baseCommit (rp_view rp) = head")
    (auto simp: finish_load_def reconcileHead_def materialize_def ensureBase_def lazy_def Let_def split: sum.split)

lemma finish_dirty:
  assumes "lazy rp" "vw_dirty (rp_view rp)" "vw_baseCommit (rp_view rp) = head"
  shows "finish_load env head rp =
    (case en_snapshotCommit env head of
       Inl e \<Rightarrow> Inl e
     | Inr s \<Rightarrow>
         (case apply_prepares env (rp_deferred rp) ((rp_view rp)\<lparr>vw_snapshot := Some s\<rparr>) of
            Inl e \<Rightarrow> Inl e
          | Inr v \<Rightarrow> Inr (rp\<lparr>rp_view := v, rp_baseLoaded := True, rp_deferred := []\<rparr>)))"
proof (cases "en_snapshotCommit env head")
  case (Inr s)
  obtain p ps where ps: "rp_deferred rp = p # ps" using assms by (cases "rp_deferred rp") (auto simp: lazy_def)
  let ?v = "\<lambda>s. (rp_view rp)\<lparr>vw_snapshot := Some s\<rparr>"
  let ?mat = "case apply_prepares env (rp_deferred rp) (?v s) of Inl e \<Rightarrow> Inl e
    | Inr v \<Rightarrow> Inr (rp\<lparr>rp_view := v, rp_baseLoaded := True, rp_deferred := []\<rparr>)"
  have stamp: "apply_prepares env (rp_deferred rp) (?v (s\<lparr>sn_generation := x\<rparr>)) = apply_prepares env (rp_deferred rp) (?v s)" for x
    by (simp add: ps apply_prepare_stamp)
  have "materialize env rp = ?mat"
    using Inr assms by (simp add: materialize_def ensureBase_def lazy_def stamp split: sum.split)
  moreover have "vw_baseCommit v = head" if "apply_prepares env (rp_deferred rp) (?v s) = Inr v" for v
    using apply_prepares_frame[OF that] assms(3) by simp
  ultimately show ?thesis
    using assms Inr by (auto simp: finish_load_def reconcileHead_def materialize_loaded split: sum.split)
qed (use assms in \<open>simp add: finish_load_def materialize_def ensureBase_def lazy_def\<close>)

lemma materialize_frame:
  assumes "materialize env rp = Inr rp'"
  shows "vw_generation (rp_view rp') = vw_generation (rp_view rp) \<and> vw_dirty (rp_view rp') = vw_dirty (rp_view rp)
    \<and> vw_baseCommit (rp_view rp') = vw_baseCommit (rp_view rp)"
proof -
  obtain rp1 v where "ensureBase env rp = Inr rp1" "apply_prepares env (rp_deferred rp1) (rp_view rp1) = Inr v" "rp_view rp' = v"
    using assms by (auto simp: materialize_def split: sum.splits)
  then show ?thesis
    using apply_prepares_frame[of env "rp_deferred rp1" "rp_view rp1" v] by (auto simp: ensureBase_def split: if_splits sum.splits)
qed

lemma finish_reconciled:
  assumes "vw_dirty (rp_view rp)" "vw_baseCommit (rp_view rp) \<noteq> head" "finish_load env head rp = Inr rp'"
  shows "\<not> vw_dirty (rp_view rp')"
proof -
  obtain rp1 view rp2 where *: "materialize env rp = Inr rp1" "reconcileHead env (rp_view rp1) head = Inr view"
      "materialize env rp2 = Inr rp'" "rp_view rp2 = view"
    using assms by (auto simp: finish_load_def split: sum.splits)
  have "\<not> vw_dirty view"
    using *(2) assms(1,2) materialize_frame[OF *(1)] by (auto simp: reconcileHead_def Let_def split: sum.splits option.splits if_splits)
  then show ?thesis using materialize_frame[OF *(3)] *(4) by simp
qed

section \<open>Full loads\<close>

lemma map_sum_Inr: "map_sum id f x = Inr y \<longleftrightarrow> (\<exists>z. x = Inr z \<and> f z = y)"
  by (cases x) auto

definition full_load :: "repoEnv \<Rightarrow> bytes \<Rightarrow> journalFrame list \<Rightarrow> error + replay" where
  "full_load env head frames =
     (case replay_frames env True frames (fresh_replay (initial_base frames head)) of
        Inl e \<Rightarrow> Inl e | Inr rp \<Rightarrow> finish_load env head rp)"

lemma load_frames_full:
  assumes "en_head env = Inr head" "head \<noteq> []"
  shows "fst (load_frames env None info 0 frames first) = map_sum id rp_view (full_load env head frames)"
  using assms by (auto simp: load_frames_def full_load_def fresh_replay_def Let_def split: sum.split)

lemma load_file:
  assumes "record_json (en_json env)" "\<forall>r \<in> set rs. frame_fits (en_json env) r" "en_head env = Inr head" "head \<noteq> []"
  shows "fst (load env None (Some \<lparr>f_id = i, f_content = take n (journal_bytes (en_json env) rs)\<rparr>)) =
    map_sum id rp_view (full_load env head (frames_at (en_json env) 0 (complete_records (en_json env) n rs)))"
proof -
  have keep: "fst (case p of (Inl e, _) \<Rightarrow> (Inl e, cache) | (Inr v, c) \<Rightarrow> (Inr v, c)) = fst p"
    for p :: "(error + workingView) \<times> workingCache option" and cache
    by (auto split: prod.split sum.split)
  show ?thesis
    using read_prefix[OF assms(1,2)]
    by (simp add: load_def usable_cache_def readJournalFrames_def Let_def keep load_frames_full[OF assms(3,4)])
qed

text \<open>Whether a journal holds transactions that no checkpoint has published.\<close>

definition journal_dirty :: "journalRecord list \<Rightarrow> bool" where
  "journal_dirty rs = fold (\<lambda>r d. case jr_Kind r of KCommit \<Rightarrow> True | KCheckpoint \<Rightarrow> False | _ \<Rightarrow> d) rs False"

lemma replay_frame_dirty:
  "replay_frame env b f rp = Inr rp' \<Longrightarrow>
    vw_dirty (rp_view rp') = (case jr_Kind (jf_record f) of KCommit \<Rightarrow> True | KCheckpoint \<Rightarrow> False | _ \<Rightarrow> vw_dirty (rp_view rp))"
  by (auto simp: replay_frame_def replay_commit_def Let_def split: journalKind.splits if_splits option.splits sum.splits)

lemma replay_frames_dirty:
  assumes "replay_frames env b fs rp = Inr rp'"
  shows "vw_dirty (rp_view rp') = fold (\<lambda>r d. case jr_Kind r of KCommit \<Rightarrow> True | KCheckpoint \<Rightarrow> False | _ \<Rightarrow> d)
    (map jf_record fs) (vw_dirty (rp_view rp))"
  using assms replay_frame_dirty
  by (induction fs arbitrary: b rp) (fastforce split: sum.splits)+

section \<open>The frames of a typed commit\<close>

definition typed_prepare :: "bytes \<Rightarrow> uint64 \<Rightarrow> bytes \<Rightarrow> TypedTableEdit list \<Rightarrow> journalRecord" where
  "typed_prepare txid generation base edits =
     \<lparr>jr_Version = workingFormatVersion, jr_Kind = KTypedPrepare, jr_TxID = txid, jr_Generation = generation, jr_BaseCommit = base,
      jr_GitCommit = [], jr_Manifest = None, jr_Objects = [], jr_TypedEdits = edits, jr_CheckpointedTxIDs = [], jr_FromGeneration = 0\<rparr>"

definition commit_marker :: "bytes \<Rightarrow> uint64 \<Rightarrow> bytes \<Rightarrow> journalRecord" where
  "commit_marker txid generation base =
     \<lparr>jr_Version = workingFormatVersion, jr_Kind = KCommit, jr_TxID = txid, jr_Generation = generation, jr_BaseCommit = base,
      jr_GitCommit = [], jr_Manifest = None, jr_Objects = [], jr_TypedEdits = [], jr_CheckpointedTxIDs = [], jr_FromGeneration = 0\<rparr>"

lemma replay_typed_prepare:
  assumes "txid \<noteq> []" "edits \<noteq> []" "jf_record f = journaled (typed_prepare txid g base edits)"
  shows "replay_frame env b f rp = Inr (rp\<lparr>rp_pending := AList.update txid (jf_record f) (rp_pending rp)\<rparr>)"
  using assms by (simp add: replay_frame_def typed_prepare_def Let_def)

lemma replay_commit_marker:
  assumes "jf_record m = journaled (commit_marker txid g base)"
    and "map_of (rp_pending rp) txid = Some (journaled (typed_prepare txid g base edits))"
    and "g = vw_generation (rp_view rp) + 1" "vw_dirty (rp_view rp) \<longrightarrow> vw_baseCommit (rp_view rp) = base" "lazy rp"
  shows "replay_frame env b m rp =
    Inr (rp\<lparr>rp_view := (rp_view rp)\<lparr>vw_baseCommit := base, vw_generation := g, vw_dirty := True\<rparr>,
            rp_deferred := rp_deferred rp @ [journaled (typed_prepare txid g base edits)],
            rp_pending := AList.delete txid (rp_pending rp), rp_safe := jf_end m\<rparr>)"
  using assms
  by (auto simp: replay_frame_def replay_commit_def commit_marker_def typed_prepare_def lazy_def Let_def)

lemma finish_load_pending:
  "finish_load env head (rp\<lparr>rp_pending := x\<rparr>) = map_sum id (\<lambda>r. r\<lparr>rp_pending := x\<rparr>) (finish_load env head rp)"
  by (auto simp: finish_load_def materialize_def ensureBase_def Let_def split: sum.split)


section \<open>All or nothing\<close>

text \<open>
  The state of a journal that loads: the records it holds, the data head, and the view. Its transactions
  are not published behind its back: if it holds uncheckpointed ones, the view is dirty.
\<close>

definition journal_at :: "repoEnv \<Rightarrow> bytes \<Rightarrow> journalRecord list \<Rightarrow> workingView \<Rightarrow> bool" where
  "journal_at env head rs v \<longleftrightarrow> en_head env = Inr head \<and> head \<noteq> [] \<and> (\<forall>r \<in> set rs. jr_BaseCommit r \<noteq> [])
     \<and> map_sum id rp_view (full_load env head (frames_at (en_json env) 0 rs)) = Inr v \<and> (journal_dirty rs \<longrightarrow> vw_dirty v)"

lemma initial_base_append:
  assumes "\<forall>f \<in> set fs. jr_BaseCommit (jf_record f) \<noteq> []"
    and "\<exists>f \<in> set fs. jr_Kind (jf_record f) \<in> {KPrepare, KTypedPrepare}"
  shows "initial_base (fs @ gs) head = initial_base fs head"
proof -
  have "find P (fs @ gs) = find P fs" if "\<exists>f \<in> set fs. P f" for P
    using that by (induction fs) auto
  then show ?thesis using assms by (auto simp: initial_base_def)
qed

lemma initial_base_none:
  assumes "\<forall>f \<in> set fs. jr_Kind (jf_record f) \<notin> {KPrepare, KTypedPrepare}"
  shows "initial_base (fs @ gs) head = initial_base gs head"
  using assms by (induction fs) (auto simp: initial_base_def)

text \<open>Where the replay stands at the end of a journal, whatever prepared transaction follows.\<close>

lemma journal_at_replay:
  assumes "journal_at env head rs v"
  obtains rp where "lazy rp" "vw_generation (rp_view rp) = vw_generation v"
    "vw_dirty (rp_view rp) \<longrightarrow> vw_baseCommit (rp_view rp) = head" "vw_baseCommit v = head"
    "map_sum id rp_view (finish_load env head rp) = Inr v"
    "\<And>gs. initial_base gs head = head \<Longrightarrow>
       replay_frames env True (frames_at (en_json env) 0 rs @ gs) (fresh_replay (initial_base (frames_at (en_json env) 0 rs @ gs) head)) =
       replay_frames env (rs = []) gs rp"
proof -
  let ?fs = "frames_at (en_json env) 0 rs"
  obtain rp rp' where rp: "replay_frames env True ?fs (fresh_replay (initial_base ?fs head)) = Inr rp"
      "finish_load env head rp = Inr rp'" "rp_view rp' = v"
    using assms by (auto simp: journal_at_def full_load_def map_sum_Inr split: sum.splits)
  have lazy: "lazy rp" by (rule replay_frames_lazy[OF lazy_fresh rp(1)])
  have dirty: "vw_dirty (rp_view rp) = journal_dirty rs"
  proof -
    have "map jf_record ?fs = map journaled rs" by simp
    then show ?thesis
      using replay_frames_dirty[OF rp(1)] by (simp add: journal_dirty_def fresh_replay_def new_view_def fold_map comp_def)
  qed
  have base: "vw_dirty (rp_view rp) \<longrightarrow> vw_baseCommit (rp_view rp) = head"
    using finish_reconciled[OF _ _ rp(2)] dirty assms rp(3) by (auto simp: journal_at_def)
  have same: "vw_generation (rp_view rp) = vw_generation v \<and> vw_baseCommit v = head"
  proof (cases "vw_dirty (rp_view rp)")
    case True
    then show ?thesis
      using rp(2,3) base apply_prepares_frame by (fastforce simp: finish_dirty[OF lazy True] split: sum.splits)
  next
    case False
    then show ?thesis using rp(2,3) by (auto simp: finish_clean[OF lazy False] split: sum.splits)
  qed
  have kinds: "jr_BaseCommit (jf_record f) \<noteq> []" if "f \<in> set ?fs" for f
  proof -
    have "jf_record f \<in> set (map jf_record ?fs)" unfolding set_map using that by (rule imageI)
    then show ?thesis using assms by (auto simp: journal_at_def)
  qed
  have step: "replay_frames env True (?fs @ gs) (fresh_replay (initial_base (?fs @ gs) head)) = replay_frames env (rs = []) gs rp"
    if "initial_base gs head = head" for gs
  proof -
    have "replay_frames env True ?fs (fresh_replay (initial_base (?fs @ gs) head)) = Inr rp"
    proof (cases "\<exists>f \<in> set ?fs. jr_Kind (jf_record f) \<in> {KPrepare, KTypedPrepare}")
      case True
      then show ?thesis using rp(1) initial_base_append[of ?fs gs head] kinds by simp
    next
      case False
      have "initial_base ?fs head = head" using initial_base_none[of ?fs "[]" head] False by (simp add: initial_base_def)
      moreover have "initial_base (?fs @ gs) head = head" using initial_base_none[of ?fs gs head] False that by simp
      ultimately show ?thesis using rp(1) by simp
    qed
    moreover have "?fs = [] \<longleftrightarrow> rs = []" by (metis length_0_conv length_frames_at)
    ultimately show ?thesis by (simp add: replay_frames_append)
  qed
  show thesis using that[of rp] lazy same base rp(2,3) step by simp
qed


lemma typed_prepare_initial:
  assumes "jf_record f = journaled (typed_prepare txid g head edits)" "head \<noteq> []"
  shows "initial_base (f # gs) head = head"
  using assms by (simp add: initial_base_def typed_prepare_def)

lemma map_sum_pending: "map_sum id rp_view (map_sum id (\<lambda>r. r\<lparr>rp_pending := x\<rparr>) y) = map_sum id rp_view y"
  by (cases y) auto

lemma apply_prepares_snapshot:
  assumes "apply_prepares env ps v = Inr v'" "vw_snapshot v \<noteq> None"
  shows "vw_snapshot v' \<noteq> None"
  using assms by (induction ps arbitrary: v) (auto split: sum.splits dest: apply_prepare_frame)

lemma apply_typed_prepare:
  assumes "vw_snapshot v = Some s" "vw_generation v = g"
  shows "apply_prepare env (journaled (typed_prepare txid g base edits)) v = Inr (typed_view (en_H env) (en_order env) s edits g v)"
  using assms by (simp add: apply_prepare_def typed_prepare_def typed_view_journaled)

lemma commit_typed_view:
  "commit_typed H order s edits v = typed_view H order s edits (vw_generation v + 1) (v\<lparr>vw_generation := vw_generation v + 1, vw_dirty := True\<rparr>)"
  by (simp add: commit_typed_def typed_view_def split: prod.split)

text \<open>With the edits on disk and no marker, nothing has happened.\<close>

lemma load_prepared:
  assumes "journal_at env head rs v" "txid \<noteq> []" "edits \<noteq> []"
  shows "map_sum id rp_view (full_load env head (frames_at (en_json env) 0 (rs @ [typed_prepare txid g (vw_baseCommit v) edits]))) = Inr v"
proof -
  obtain rp where rp: "lazy rp" "vw_baseCommit v = head" "map_sum id rp_view (finish_load env head rp) = Inr v"
    "\<And>gs. initial_base gs head = head \<Longrightarrow>
       replay_frames env True (frames_at (en_json env) 0 rs @ gs) (fresh_replay (initial_base (frames_at (en_json env) 0 rs @ gs) head)) =
       replay_frames env (rs = []) gs rp"
    using journal_at_replay[OF assms(1)] by metis
  have "head \<noteq> []" using assms(1) by (simp add: journal_at_def)
  then show ?thesis
    using rp(3) rp(4)[OF typed_prepare_initial[of _ txid g head edits]]
    by (simp add: frames_at_append Let_def full_load_def rp(2) replay_typed_prepare[OF assms(2,3)] finish_load_pending map_sum_pending)
qed

text \<open>With the marker, the view is the one the commit returned.\<close>

lemma load_committed:
  assumes at: "journal_at env head rs v" and "txid \<noteq> []" "edits \<noteq> []" and g: "g = vw_generation v + 1"
  shows "map_sum id rp_view (full_load env head
      (frames_at (en_json env) 0 (rs @ [typed_prepare txid g (vw_baseCommit v) edits, commit_marker txid g (vw_baseCommit v)]))) =
    Inr (commit_typed (en_H env) (en_order env) (the (vw_snapshot v)) edits v)"
proof -
  obtain rp where rp: "lazy rp" "vw_generation (rp_view rp) = vw_generation v"
    "vw_dirty (rp_view rp) \<longrightarrow> vw_baseCommit (rp_view rp) = head" "vw_baseCommit v = head"
    "map_sum id rp_view (finish_load env head rp) = Inr v"
    "\<And>gs. initial_base gs head = head \<Longrightarrow>
       replay_frames env True (frames_at (en_json env) 0 rs @ gs) (fresh_replay (initial_base (frames_at (en_json env) 0 rs @ gs) head)) =
       replay_frames env (rs = []) gs rp"
    using journal_at_replay[OF at] by metis
  have head: "head \<noteq> []" using at by (simp add: journal_at_def)
  let ?p = "journaled (typed_prepare txid g head edits)"
  let ?fs = "frames_at (en_json env) (length (journal_bytes (en_json env) rs)) [typed_prepare txid g head edits, commit_marker txid g head]"
  define rp1 where "rp1 = rp\<lparr>rp_pending := AList.update txid ?p (rp_pending rp)\<rparr>"
  have lazy1: "lazy rp1" using rp(1) by (simp add: lazy_def rp1_def)
  obtain rp2 where rp2: "replay_frames env (rs = []) ?fs rp = Inr rp2"
      "rp_view rp2 = (rp_view rp)\<lparr>vw_baseCommit := head, vw_generation := g, vw_dirty := True\<rparr>"
      "rp_deferred rp2 = rp_deferred rp @ [?p]" "lazy rp2"
  proof -
    let ?rp2 = "rp1\<lparr>rp_view := (rp_view rp1)\<lparr>vw_baseCommit := head, vw_generation := g, vw_dirty := True\<rparr>,
       rp_deferred := rp_deferred rp1 @ [?p], rp_pending := AList.delete txid (rp_pending rp1), rp_safe := jf_end (?fs ! 1)\<rparr>"
    have "replay_frame env False (?fs ! 1) rp1 = Inr ?rp2"
      by (rule replay_commit_marker[OF _ _ _ _ lazy1])
        (use rp(2,3) g in \<open>simp_all add: Let_def rp1_def update_conv'\<close>)
    then have "replay_frames env (rs = []) ?fs rp = Inr ?rp2"
      by (simp add: Let_def replay_typed_prepare[OF assms(2,3)] rp1_def)
    moreover have "lazy ?rp2" using lazy1 by (simp add: lazy_def)
    ultimately show thesis using that[of ?rp2] by (simp add: rp1_def)
  qed
  have "full_load env head (frames_at (en_json env) 0 (rs @ [typed_prepare txid g (vw_baseCommit v) edits, commit_marker txid g (vw_baseCommit v)]))
      = finish_load env head rp2"
    using rp(6)[of ?fs] typed_prepare_initial[of _ txid g head edits] head rp2(1)
    by (simp add: frames_at_append full_load_def rp(4) Let_def)
  moreover have "map_sum id rp_view (finish_load env head rp2) = Inr (commit_typed (en_H env) (en_order env) (the (vw_snapshot v)) edits v)"
  proof (cases "vw_dirty (rp_view rp)")
    case True
    obtain s where s: "en_snapshotCommit env head = Inr s"
        "apply_prepares env (rp_deferred rp) ((rp_view rp)\<lparr>vw_snapshot := Some s\<rparr>) = Inr v"
      using rp(5) finish_dirty[OF rp(1) True] rp(3) True by (auto simp: map_sum_Inr split: sum.splits)
    obtain t where t: "vw_snapshot v = Some t" using apply_prepares_snapshot[OF s(2)] by auto
    have "vw_dirty v" using apply_prepares_frame[OF s(2)] True by simp
    then have dirty: "v\<lparr>vw_generation := x, vw_dirty := True\<rparr> = v\<lparr>vw_generation := x\<rparr>" for x by (cases v) simp
    have "(rp_view rp2)\<lparr>vw_snapshot := Some s\<rparr> = (rp_view rp)\<lparr>vw_snapshot := Some s, vw_generation := g\<rparr>"
      using rp2(2) rp(3) True by simp
    then have "apply_prepares env (rp_deferred rp2) ((rp_view rp2)\<lparr>vw_snapshot := Some s\<rparr>) =
        Inr (typed_view (en_H env) (en_order env) t edits g (v\<lparr>vw_generation := g\<rparr>))"
      using apply_prepares_generation[of env "rp_deferred rp" g "(rp_view rp)\<lparr>vw_snapshot := Some s\<rparr>"]
      by (simp add: rp2(3) apply_prepares_append s(2) apply_typed_prepare t)
    then show ?thesis
      using finish_dirty[OF rp2(4)] s(1) by (simp add: rp2(2) commit_typed_view t g dirty)
  next
    case False
    obtain s where s: "en_snapshotCommit env head = Inr s"
        "v = (rp_view rp)\<lparr>vw_snapshot := Some (s\<lparr>sn_generation := vw_generation (rp_view rp)\<rparr>), vw_baseCommit := head\<rparr>"
      using rp(5) finish_clean[OF rp(1) False] by (auto simp: map_sum_Inr split: sum.splits)
    have "rp_deferred rp = []" using rp(1) False by (simp add: lazy_def)
    then show ?thesis
      using finish_dirty[OF rp2(4)] s(1)
      by (simp add: rp2(2,3) apply_typed_prepare commit_typed_view g s(2))
        (simp add: typed_view_def applyTyped_generation split: prod.split)
  qed
  ultimately show ?thesis by simp
qed


theorem load_after_crash:
  assumes js: "record_json (en_json env)" and fits: "\<forall>r \<in> set rs. frame_fits (en_json env) r"
    and at: "journal_at env head rs v" and tx: "txid \<noteq> []" "edits \<noteq> []" and g: "g = vw_generation v + 1"
    and tx_fits: "frame_fits (en_json env) (typed_prepare txid g (vw_baseCommit v) edits)"
      "frame_fits (en_json env) (commit_marker txid g (vw_baseCommit v))"
  defines "new \<equiv> journal_bytes (en_json env) [typed_prepare txid g (vw_baseCommit v) edits, commit_marker txid g (vw_baseCommit v)]"
  shows "fst (load env None (Some \<lparr>f_id = i, f_content = journal_bytes (en_json env) rs @ take n new\<rparr>)) =
    Inr (if n < length new then v else commit_typed (en_H env) (en_order env) (the (vw_snapshot v)) edits v)"
proof -
  let ?js = "en_json env" and ?old = "journal_bytes (en_json env) rs"
  let ?new = "[typed_prepare txid g (vw_baseCommit v) edits, commit_marker txid g (vw_baseCommit v)]"
  have head: "en_head env = Inr head" "head \<noteq> []" using at by (simp_all add: journal_at_def)
  have split: "?old @ take n new = take (length ?old + n) (journal_bytes ?js (rs @ ?new))"
    by (simp add: journal_bytes_def new_def)
  have all: "\<forall>r \<in> set (rs @ ?new). frame_fits ?js r" using fits tx_fits by auto
  have "fst (load env None (Some \<lparr>f_id = i, f_content = ?old @ take n new\<rparr>)) =
      map_sum id rp_view (full_load env head (frames_at ?js 0 (rs @ complete_records ?js n ?new)))"
    unfolding split load_file[OF js all head] by (simp add: complete_records_append)
  moreover have "complete_records ?js n ?new =
      (if n < length (the_frame ?js (hd ?new)) then [] else if n < length new then [hd ?new] else ?new)"
    by (auto simp: Let_def new_def journal_bytes_def)
  ultimately show ?thesis
    using load_prepared[OF at tx, of g] load_committed[OF at tx g] at by (auto simp: journal_at_def new_def journal_bytes_def)
qed


section \<open>Sequences of commits\<close>

text \<open>The records of typed transactions committed one after the other, after generation \<open>g\<close>.\<close>

fun tx_records :: "bytes \<Rightarrow> uint64 \<Rightarrow> (bytes \<times> TypedTableEdit list) list \<Rightarrow> journalRecord list" where
  "tx_records base g [] = []"
| "tx_records base g ((txid, edits) # txs) =
     typed_prepare txid (g + 1) base edits # commit_marker txid (g + 1) base # tx_records base (g + 1) txs"

definition tx_ok :: "bytes \<times> TypedTableEdit list \<Rightarrow> bool" where
  "tx_ok tx \<longleftrightarrow> fst tx \<noteq> [] \<and> snd tx \<noteq> []"

lemma journal_at_commit:
  assumes "journal_at env head rs v" "txid \<noteq> []" "edits \<noteq> []"
  shows "journal_at env head (rs @ [typed_prepare txid (vw_generation v + 1) head edits, commit_marker txid (vw_generation v + 1) head])
    (commit_typed (en_H env) (en_order env) (the (vw_snapshot v)) edits v)"
proof -
  have base: "vw_baseCommit v = head" using journal_at_replay[OF assms(1)] by metis
  show ?thesis
    using load_committed[OF assms refl] assms(1) unfolding base
    by (simp add: journal_at_def ball_Un) (simp add: typed_prepare_def commit_marker_def)
qed

lemma journal_at_commits:
  assumes "journal_at env head rs v" "\<forall>tx \<in> set txs. tx_ok tx"
  shows "journal_at env head (rs @ tx_records head (vw_generation v) txs) (commits (en_H env) (en_order env) (map snd txs) v)"
  using assms
proof (induction txs arbitrary: rs v)
  case Nil
  then show ?case by (simp add: commits_def)
next
  case (Cons tx txs)
  obtain txid edits where tx: "tx = (txid, edits)" by (cases tx)
  then have "txid \<noteq> []" "edits \<noteq> []" using Cons.prems(2) by (auto simp: tx_ok_def)
  from Cons.IH[OF journal_at_commit[OF Cons.prems(1) this]] Cons.prems(2) show ?case
    by (simp add: tx commits_def)
qed

text \<open>Replaying them on a view that is already built.\<close>

definition prepares :: "bytes \<Rightarrow> uint64 \<Rightarrow> (bytes \<times> TypedTableEdit list) list \<Rightarrow> journalRecord list" where
  "prepares base g txs = filter (\<lambda>r. jr_Kind r = KTypedPrepare) (map journaled (tx_records base g txs))"

lemma prepares_Cons [simp]:
  "prepares base g [] = []"
  "prepares base g ((txid, edits) # txs) = journaled (typed_prepare txid (g + 1) base edits) # prepares base (g + 1) txs"
  by (simp_all add: prepares_def typed_prepare_def commit_marker_def)

definition replay_on :: "workingView \<Rightarrow> journalRecord list \<Rightarrow> nat \<Rightarrow> replay" where
  "replay_on v ps off = \<lparr>rp_view = v, rp_deferred = ps, rp_baseLoaded = True, rp_pending = [], rp_safe = off\<rparr>"

lemma replay_tx_on_view:
  assumes "txid \<noteq> []" "edits \<noteq> []" "vw_baseCommit v = base" "g = vw_generation v + 1"
    and "jf_record p = journaled (typed_prepare txid g base edits)" "jf_record m = journaled (commit_marker txid g base)"
  shows "replay_frames env b (p # m # fs) (replay_on v ps off) =
    replay_frames env False fs (replay_on (v\<lparr>vw_generation := g, vw_dirty := True\<rparr>) (ps @ [jf_record p]) (jf_end m))"
  using assms
  by (simp add: replay_typed_prepare)
    (simp add: replay_frame_def replay_commit_def commit_marker_def typed_prepare_def replay_on_def Let_def)

lemma replay_txs_on_view:
  assumes "\<forall>tx \<in> set txs. tx_ok tx" "vw_baseCommit v = base"
  shows "replay_frames env b (frames_at js off (tx_records base (vw_generation v) txs)) (replay_on v ps off) =
    Inr (replay_on (v\<lparr>vw_generation := vw_generation v + of_nat (length txs), vw_dirty := vw_dirty v \<or> txs \<noteq> []\<rparr>)
           (ps @ prepares base (vw_generation v) txs) (off + length (journal_bytes js (tx_records base (vw_generation v) txs))))"
  using assms
proof (induction txs arbitrary: v ps off b)
  case Nil
  then show ?case by (simp add: journal_bytes_def)
next
  case (Cons tx txs)
  obtain txid edits where tx: "tx = (txid, edits)" by (cases tx)
  then have ok: "txid \<noteq> []" "edits \<noteq> []" using Cons.prems(1) by (auto simp: tx_ok_def)
  let ?g = "vw_generation v + 1"
  let ?v = "v\<lparr>vw_generation := ?g, vw_dirty := True\<rparr>"
  let ?p = "typed_prepare txid ?g base edits" and ?m = "commit_marker txid ?g base"
  let ?off = "off + length (the_frame js ?p) + length (the_frame js ?m)"
  have "replay_frames env b (frames_at js off (tx_records base (vw_generation v) (tx # txs))) (replay_on v ps off) =
      replay_frames env False (frames_at js ?off (tx_records base ?g txs)) (replay_on ?v (ps @ [journaled ?p]) ?off)"
    using replay_tx_on_view[OF ok Cons.prems(2) refl, of "\<lparr>jf_record = journaled ?p, jf_end = off + length (the_frame js ?p)\<rparr>"
        "\<lparr>jf_record = journaled ?m, jf_end = ?off\<rparr>" env b "frames_at js ?off (tx_records base ?g txs)" ps off]
    by (simp add: tx Let_def)
  also have "\<dots> = Inr (replay_on (?v\<lparr>vw_generation := ?g + of_nat (length txs), vw_dirty := True\<rparr>)
      ((ps @ [journaled ?p]) @ prepares base ?g txs) (?off + length (journal_bytes js (tx_records base ?g txs))))"
    using Cons.IH[of ?v] Cons.prems by simp
  finally show ?case by (simp add: tx journal_bytes_def add.assoc)
qed

lemma apply_txs_on_view:
  assumes "vw_snapshot v \<noteq> None"
  shows "apply_prepares env (prepares base (vw_generation v) txs) (v\<lparr>vw_generation := x, vw_dirty := True\<rparr>) =
    Inr ((commits (en_H env) (en_order env) (map snd txs) v)\<lparr>vw_generation := x, vw_dirty := True\<rparr>)"
  using assms
proof (induction txs arbitrary: v)
  case Nil
  then show ?case by (simp add: commits_def)
next
  case (Cons tx txs)
  obtain txid edits where tx: "tx = (txid, edits)" by (cases tx)
  obtain s where s: "vw_snapshot v = Some s" using Cons.prems by auto
  let ?v = "commit_typed (en_H env) (en_order env) s edits v"
  have "apply_prepare env (journaled (typed_prepare txid (vw_generation v + 1) base edits)) (v\<lparr>vw_generation := x, vw_dirty := True\<rparr>) =
      Inr (?v\<lparr>vw_generation := x, vw_dirty := True\<rparr>)"
    by (simp add: apply_prepare_def typed_prepare_def typed_view_journaled s commit_typed_def)
      (simp add: typed_view_def split: prod.split)
  moreover have "vw_snapshot ?v \<noteq> None" by simp
  ultimately show ?case using Cons.IH[of ?v] by (simp add: tx commits_def s)
qed

lemma commits_simps:
  "txs \<noteq> [] \<Longrightarrow> vw_dirty (commits H order txs v)" "vw_baseCommit (commits H order txs v) = vw_baseCommit v"
proof -
  show "vw_baseCommit (commits H order txs v) = vw_baseCommit v"
    by (induction txs arbitrary: v) (simp_all add: commits_def)
  show "vw_dirty (commits H order txs v)" if "txs \<noteq> []"
    using that by (cases txs rule: rev_cases) (simp_all add: commits_def)
qed

lemma journal_at_view:
  assumes "journal_at env head rs v"
  shows "vw_baseCommit v = head" "vw_snapshot v \<noteq> None"
proof -
  obtain rp where rp: "lazy rp" "vw_dirty (rp_view rp) \<longrightarrow> vw_baseCommit (rp_view rp) = head" "vw_baseCommit v = head"
      "map_sum id rp_view (finish_load env head rp) = Inr v"
    using journal_at_replay[OF assms] by metis
  show "vw_baseCommit v = head" by (rule rp(3))
  show "vw_snapshot v \<noteq> None"
  proof (cases "vw_dirty (rp_view rp)")
    case True
    then obtain s where "apply_prepares env (rp_deferred rp) ((rp_view rp)\<lparr>vw_snapshot := Some s\<rparr>) = Inr v"
      using rp(4) finish_dirty[OF rp(1) True] rp(2) by (auto simp: map_sum_Inr split: sum.splits)
    from apply_prepares_snapshot[OF this] show ?thesis by simp
  next
    case False
    then show ?thesis using rp(4) finish_clean[OF rp(1) False] by (auto simp: map_sum_Inr split: sum.splits)
  qed
qed

text \<open>
  A process that has the journal cached replays the transactions other processes appended, and sees what
  a replay from scratch sees.
\<close>

theorem cached_load_agrees:
  fixes i :: nat
  assumes js: "record_json (en_json env)" and at: "journal_at env head rs v" and ok: "\<forall>tx \<in> set txs. tx_ok tx"
    and fits: "\<forall>r \<in> set (rs @ tx_records head (vw_generation v) txs). frame_fits (en_json env) r"
  defines "content \<equiv> journal_bytes (en_json env) (rs @ tx_records head (vw_generation v) txs)"
  defines "c \<equiv> \<lparr>wc_view = v, wc_info = Some i, wc_offset = length (journal_bytes (en_json env) rs), wc_first = firstHeader content\<rparr>"
  shows "fst (load env (Some c) (Some \<lparr>f_id = i, f_content = content\<rparr>)) = Inr (commits (en_H env) (en_order env) (map snd txs) v)"
    and "fst (load env None (Some \<lparr>f_id = i, f_content = content\<rparr>)) = Inr (commits (en_H env) (en_order env) (map snd txs) v)"
proof -
  have head: "en_head env = Inr head" "head \<noteq> []" using at by (simp_all add: journal_at_def)
  note view = journal_at_view[OF at]
  let ?rs = "rs @ tx_records head (vw_generation v) txs"
  have "fst (load env None (Some \<lparr>f_id = i, f_content = take (length content) content\<rparr>)) =
      map_sum id rp_view (full_load env head (frames_at (en_json env) 0 ?rs))"
    unfolding content_def load_file[OF js fits head] by (simp add: complete_records_all)
  then show "fst (load env None (Some \<lparr>f_id = i, f_content = content\<rparr>)) = Inr (commits (en_H env) (en_order env) (map snd txs) v)"
    using journal_at_commits[OF at ok] by (simp add: journal_at_def)
  let ?off = "length (journal_bytes (en_json env) rs)"
  let ?fs = "frames_at (en_json env) ?off (tx_records head (vw_generation v) txs)"
  have bytes: "content = journal_bytes (en_json env) rs @ journal_bytes (en_json env) (tx_records head (vw_generation v) txs)"
    by (simp add: content_def journal_bytes_def)
  have frames: "readJournalFrames (en_json env) (Some content) ?off (Some (firstHeader content)) = Inr (?fs, firstHeader content)"
    using read_whole[OF js, of "tx_records head (vw_generation v) txs" ?off] fits by (auto simp: readJournalFrames_def bytes)
  have "fst (load_frames env (Some c) (Some i) ?off ?fs (firstHeader content)) = Inr (commits (en_H env) (en_order env) (map snd txs) v)"
  proof (cases "txs = []")
    case True
    then show ?thesis
      using head view by (simp add: load_frames_def c_def commits_def reconcileHead_def Let_def)
  next
    case False
    let ?w = "v\<lparr>vw_generation := vw_generation v + of_nat (length txs), vw_dirty := True\<rparr>"
    let ?c = "commits (en_H env) (en_order env) (map snd txs) v"
    have replay: "replay_frames env (?off = 0) ?fs (replay_on v [] ?off) =
        Inr (replay_on ?w (prepares head (vw_generation v) txs) (length content))"
      using replay_txs_on_view[OF ok view(1), of env _ "en_json env" ?off "[]"] False by (simp add: bytes)
    have "?c\<lparr>vw_generation := vw_generation v + of_nat (length txs), vw_dirty := True\<rparr> = ?c"
      using commits_simps(1)[of "map snd txs" "en_H env" "en_order env" v] commits_generation[of "en_H env" "en_order env" "map snd txs" v] False
      by (cases ?c) simp
    then have "apply_prepares env (prepares head (vw_generation v) txs) ?w = Inr ?c"
      using apply_txs_on_view[OF view(2)] by simp
    then have "finish_load env head (replay_on ?w (prepares head (vw_generation v) txs) (length content)) =
        Inr (replay_on ?c [] (length content))"
      using view(1) by (simp add: finish_load_def materialize_def ensureBase_def reconcileHead_def replay_on_def commits_simps)
    moreover have "?fs \<noteq> []" using False by (cases txs) (auto simp: Let_def)
    ultimately show ?thesis
      using replay view(1) by (simp add: load_frames_def c_def replay_on_def Let_def)
  qed
  then show "fst (load env (Some c) (Some \<lparr>f_id = i, f_content = content\<rparr>)) = Inr (commits (en_H env) (en_order env) (map snd txs) v)"
    using frames by (auto simp: load_def usable_cache_def c_def bytes Let_def split: prod.split sum.split)
qed

end
