(* ===== verification/Working_State.thy ===== *)
theory Working_State
  imports Journal_Crash
begin

text \<open>
  The operations of the working state (\<open>common/repository/working.go\<close>, \<open>journal_compact.go\<close>): commits,
  recovery of a transaction's outcome, checkpoints and compaction of the journal.

  A working state is its journal file and its cached view; an operation returns both. The disk is the
  record \<open>disk\<close> of what it does to one operation: the identity of a file it creates, how many bytes of an
  append reach the file before an error, and the results of opening, flushing, renaming and syncing the
  directory. Publication is a
  parameter \<open>publish\<close> of checkpoints. Locks, metrics, and the fault hooks tests install are left out.
\<close>

section \<open>Definitions\<close>

record disk =
  dk_id :: nat
  dk_open :: "error + unit"
  dk_write :: "nat option"
  dk_flush :: "error + unit"
  dk_rename :: "error + unit"
  dk_syncDir :: "error + unit"

type_synonym wstate = "workingCache option \<times> journalFile option"

definition appendRecords :: "jsonlib \<Rightarrow> disk \<Rightarrow> journalRecord list \<Rightarrow> journalFile option \<Rightarrow> (error + unit) \<times> journalFile option" where
  "appendRecords js dk records jf =
     (case dk_open dk of
        Inl e \<Rightarrow> (Inl e, jf)
      | Inr _ \<Rightarrow>
          let f = (case jf of None \<Rightarrow> \<lparr>f_id = dk_id dk, f_content = []\<rparr> | Some f \<Rightarrow> f);
              (res, content) = append_frames js records (f_content f);
              written = length (f_content f) + (case dk_write dk of None \<Rightarrow> length content | Some n \<Rightarrow> n)
          in if written < length content then (Inl (LibraryError 0), Some (f\<lparr>f_content := take written content\<rparr>))
             else (case res of Inl e \<Rightarrow> Inl e | Inr _ \<Rightarrow> dk_flush dk, Some (f\<lparr>f_content := content\<rparr>)))"

definition truncateIncompleteTail :: "wstate \<Rightarrow> (error + unit) \<times> journalFile option" where
  "truncateIncompleteTail st =
     (case st of
        (Some c, jf) \<Rightarrow>
          (case wc_info c of
             None \<Rightarrow> (Inr (), jf)
           | Some i \<Rightarrow>
               (case jf of
                  None \<Rightarrow> (Inl (JournalError JournalNotFound), jf)
                | Some f \<Rightarrow>
                    if f_id f \<noteq> i \<or> length (f_content f) \<le> wc_offset c then (Inr (), jf)
                    else (Inr (), Some (f\<lparr>f_content := take (wc_offset c) (f_content f)\<rparr>))))
      | (None, jf) \<Rightarrow> (Inr (), jf))"

definition firstHeaderAfterAppend :: "wstate \<Rightarrow> bytes" where
  "firstHeaderAfterAppend st =
     (case st of
        (Some c, jf) \<Rightarrow> if wc_first c \<noteq> replicate journalHeaderSize 0 then wc_first c
                        else (case jf of None \<Rightarrow> firstHeader [] | Some f \<Rightarrow> firstHeader (f_content f))
      | (None, jf) \<Rightarrow> (case jf of None \<Rightarrow> firstHeader [] | Some f \<Rightarrow> firstHeader (f_content f)))"

definition cache_view :: "workingView \<Rightarrow> wstate \<Rightarrow> workingCache option" where
  "cache_view v st =
     (case snd st of
        None \<Rightarrow> fst st
      | Some f \<Rightarrow> Some \<lparr>wc_view = v, wc_info = Some (f_id f), wc_offset = length (f_content f), wc_first = firstHeaderAfterAppend st\<rparr>)"

subsection \<open>Transaction ids\<close>

definition digit_byte :: "nat \<Rightarrow> byte" where
  "digit_byte d = of_nat (48 + d)"

definition formatUint :: "uint64 \<Rightarrow> bytes" where
  "formatUint g = map digit_byte (decimal_digits (unat g))"

definition newTransactionID :: "error + bytes \<Rightarrow> uint64 \<Rightarrow> error + bytes" where
  "newTransactionID random generation = map_sum id (\<lambda>r. formatUint generation @ 0x2D # r) random"

fun parse_digits :: "nat \<Rightarrow> bytes \<Rightarrow> nat option" where
  "parse_digits n [] = Some n"
| "parse_digits n (c # cs) =
     (if 0x30 \<le> c \<and> c \<le> 0x39 then
        let n' = 10 * n + (unat c - 48) in if n' < 2 ^ 64 then parse_digits n' cs else None
      else None)"

definition parseUint :: "bytes \<Rightarrow> uint64 option" where
  "parseUint s = (if s = [] then None else map_option of_nat (parse_digits 0 s))"

definition transactionGeneration :: "bytes \<Rightarrow> uint64 option" where
  "transactionGeneration txid =
     (if 0x2D \<in> set txid then parseUint (takeWhile (\<lambda>c. c \<noteq> 0x2D) txid) else None)"

subsection \<open>Commits\<close>

definition append_commit ::
  "repoEnv \<Rightarrow> disk \<Rightarrow> journalRecord \<Rightarrow> journalRecord \<Rightarrow> workingView \<Rightarrow> wstate \<Rightarrow> (error + Snapshot) \<times> wstate" where
  "append_commit env dk prepare marker v st =
     (case truncateIncompleteTail st of
        (Inl e, jf) \<Rightarrow> (Inl (CommitError OutcomeUnknown e), (fst st, jf))
      | (Inr _, jf) \<Rightarrow>
          (case appendRecords (en_json env) dk [prepare, marker] jf of
             (Inl e, jf) \<Rightarrow> (Inl (CommitError OutcomeUnknown e), (fst st, jf))
           | (Inr _, jf) \<Rightarrow>
               (case vw_snapshot v of
                  None \<Rightarrow> (Inl (TableError NilDereference), (fst st, jf))
                | Some s \<Rightarrow> (Inr s, (cache_view v (fst st, jf), jf)))))"

definition CommitTypedEdits ::
  "repoEnv \<Rightarrow> disk \<Rightarrow> error + bytes \<Rightarrow> Snapshot option \<Rightarrow> TypedTableEdit list \<Rightarrow> wstate \<Rightarrow> ((error + Snapshot) \<times> bytes) \<times> wstate" where
  "CommitTypedEdits env dk random base edits st =
     (case base of
        None \<Rightarrow> ((Inl (RepoError BaseSnapshotRequired), []), st)
      | Some base \<Rightarrow>
          (case load env (fst st) (snd st) of
             (Inl e, c) \<Rightarrow> ((Inl e, []), (c, snd st))
           | (Inr view, c) \<Rightarrow>
               (case vw_snapshot view of
                  None \<Rightarrow> ((Inl (TableError NilDereference), []), (c, snd st))
                | Some s \<Rightarrow>
                    if sn_Commit base \<noteq> sn_Commit s then ((Inl (RepoError ErrConflict), []), (c, snd st))
                    else case writeConflict view (sn_generation base) edits of
                      Inl e \<Rightarrow> ((Inl e, []), (c, snd st))
                    | Inr _ \<Rightarrow>
                        let generation = vw_generation view + 1
                        in (case newTransactionID random generation of
                              Inl e \<Rightarrow> ((Inl e, []), (c, snd st))
                            | Inr txid \<Rightarrow>
                                (case append_commit env dk (typed_prepare txid generation (vw_baseCommit view) edits)
                                        (commit_marker txid generation (vw_baseCommit view))
                                        (commit_typed (en_H env) (en_order env) s edits view) (c, snd st) of
                                   (res, st) \<Rightarrow> ((res, txid), st))))))"

definition manifest_prepare :: "bytes \<Rightarrow> uint64 \<Rightarrow> bytes \<Rightarrow> Manifest \<Rightarrow> (hash, bytes) gomap \<Rightarrow> journalRecord" where
  "manifest_prepare txid generation base manifest objects =
     (typed_prepare txid generation base [])\<lparr>jr_Kind := KPrepare, jr_Manifest := Some manifest, jr_Objects := objects\<rparr>"

definition working_Commit ::
  "repoEnv \<Rightarrow> nat \<Rightarrow> disk \<Rightarrow> error + bytes \<Rightarrow> Writer \<Rightarrow> Manifest \<Rightarrow> wstate \<Rightarrow> ((error + Snapshot) \<times> bytes) \<times> Writer \<times> wstate" where
  "working_Commit env repo dk random w manifest st =
     (if w_repo w \<noteq> repo then ((Inl (JournalError ForeignWriter), []), w, st)
      else case load env (fst st) (snd st) of
        (Inl e, c) \<Rightarrow> ((Inl e, []), w, (c, snd st))
      | (Inr view, c) \<Rightarrow>
          (case (w_base w, vw_snapshot view) of
             (Some base, Some s) \<Rightarrow>
               if sn_generation base \<noteq> vw_generation view \<or> sn_Commit base \<noteq> sn_Commit s
               then ((Inl (RepoError ErrConflict), []), w, (c, snd st))
               else (case takeWorkingWriter (en_H env) w manifest of
                 (Inl e, w) \<Rightarrow> ((Inl e, []), w, (c, snd st))
               | (Inr (manifest, available, objects), w) \<Rightarrow>
                   let generation = vw_generation view + 1
                   in (case newTransactionID random generation of
                         Inl e \<Rightarrow> ((Inl e, []), w, (c, snd st))
                       | Inr txid \<Rightarrow>
                           let v = (new_view (vw_baseCommit view))\<lparr>vw_generation := generation, vw_dirty := True,
                                     vw_snapshot := Some (workingSnapshot base manifest available objects generation)\<rparr>
                           in (case append_commit env dk (manifest_prepare txid generation (vw_baseCommit view) manifest objects)
                                      (commit_marker txid generation (vw_baseCommit view)) v (c, snd st) of
                                 (res, st) \<Rightarrow> ((res, txid), w, st))))
           | _ \<Rightarrow> ((Inl (TableError NilDereference), []), w, (c, snd st))))"

subsection \<open>Recovering an outcome\<close>

record WorkingCommitResult =
  wr_Outcome :: CommitOutcome
  wr_TransactionID :: bytes
  wr_Generation :: uint64

definition recoverFromAnchor :: "journalRecord option \<Rightarrow> WorkingCommitResult \<Rightarrow> WorkingCommitResult \<times> error option" where
  "recoverFromAnchor anchor result =
     (case anchor of
        None \<Rightarrow> (result, None)
      | Some a \<Rightarrow>
          if wr_TransactionID result \<in> set (jr_CheckpointedTxIDs a) then
            (result\<lparr>wr_Outcome := OutcomeCommitted,
                    wr_Generation := (case transactionGeneration (wr_TransactionID result) of None \<Rightarrow> 0 | Some g \<Rightarrow> g)\<rparr>, None)
          else case transactionGeneration (wr_TransactionID result) of
            None \<Rightarrow> (result\<lparr>wr_Outcome := OutcomeUnknown\<rparr>, Some (JournalError ErrWorkingHistoryTruncated))
          | Some g \<Rightarrow>
              if g \<le> jr_FromGeneration a
              then (result\<lparr>wr_Outcome := OutcomeUnknown\<rparr>, Some (JournalError ErrWorkingHistoryTruncated))
              else (result, None))"

text \<open>The loop over the records: the generation once prepared, and whether it committed.\<close>

fun recover_loop :: "bytes \<Rightarrow> journalRecord list \<Rightarrow> uint64 option \<Rightarrow> uint64 option \<times> bool" where
  "recover_loop txid [] prepared = (prepared, False)"
| "recover_loop txid (r # rs) prepared =
     (if jr_TxID r \<noteq> txid then recover_loop txid rs prepared
      else case jr_Kind r of
        KPrepare \<Rightarrow> recover_loop txid rs (Some (jr_Generation r))
      | KTypedPrepare \<Rightarrow> recover_loop txid rs (Some (jr_Generation r))
      | KCommit \<Rightarrow> if prepared = Some (jr_Generation r) then (prepared, True) else recover_loop txid rs prepared
      | _ \<Rightarrow> recover_loop txid rs prepared)"

definition RecoverTransaction :: "jsonlib \<Rightarrow> journalFile option \<Rightarrow> bytes \<Rightarrow> WorkingCommitResult \<times> error option" where
  "RecoverTransaction js jf txid =
     (if blank txid then (\<lparr>wr_Outcome = OutcomeUnknown, wr_TransactionID = [], wr_Generation = 0\<rparr>, Some (JournalError TransactionIDRequired))
      else case readJournal js (map_option f_content jf) of
        Inl e \<Rightarrow> (\<lparr>wr_Outcome = OutcomeUnknown, wr_TransactionID = txid, wr_Generation = 0\<rparr>, Some e)
      | Inr records \<Rightarrow>
          let result = \<lparr>wr_Outcome = OutcomeRejected, wr_TransactionID = txid, wr_Generation = 0\<rparr>;
              anchor = (case records of r # _ \<Rightarrow> if jr_Kind r = KCheckpoint then Some r else None | [] \<Rightarrow> None)
          in (case recover_loop txid records None of
                (Some g, True) \<Rightarrow> (result\<lparr>wr_Outcome := OutcomeCommitted, wr_Generation := g\<rparr>, None)
              | (Some g, False) \<Rightarrow> (result\<lparr>wr_Generation := g\<rparr>, None)
              | (None, _) \<Rightarrow> recoverFromAnchor anchor result))"

subsection \<open>Checkpoints\<close>

definition checkpoint_marker :: "uint64 \<Rightarrow> bytes \<Rightarrow> bytes \<Rightarrow> journalRecord" where
  "checkpoint_marker generation base commit =
     \<lparr>jr_Version = workingFormatVersion, jr_Kind = KCheckpoint, jr_TxID = [], jr_Generation = generation, jr_BaseCommit = base,
      jr_GitCommit = commit, jr_Manifest = None, jr_Objects = [], jr_TypedEdits = [], jr_CheckpointedTxIDs = [], jr_FromGeneration = 0\<rparr>"

definition anchor_of :: "journalRecord \<Rightarrow> journalRecord list \<Rightarrow> journalRecord" where
  "anchor_of checkpoint records =
     checkpoint\<lparr>jr_CheckpointedTxIDs := map jr_TxID (filter (\<lambda>r. jr_Kind r = KCommit) records),
                jr_FromGeneration := (case records of
                   r # _ \<Rightarrow> if jr_Kind r = KCheckpoint then jr_Generation r else jr_FromGeneration checkpoint
                 | [] \<Rightarrow> jr_FromGeneration checkpoint)\<rparr>"

definition compactLocked :: "jsonlib \<Rightarrow> disk \<Rightarrow> journalRecord \<Rightarrow> journalFile option \<Rightarrow> (error + unit) \<times> journalFile option" where
  "compactLocked js dk checkpoint jf =
     (case readJournal js (map_option f_content jf) of
        Inl e \<Rightarrow> (Inl e, jf)
      | Inr records \<Rightarrow>
          (case encodeFrame js (anchor_of checkpoint records) of
             Inl e \<Rightarrow> (Inl e, jf)
           | Inr frame \<Rightarrow>
               (case dk_rename dk of
                  Inl e \<Rightarrow> (Inl e, jf)
                | Inr _ \<Rightarrow> (dk_syncDir dk, Some \<lparr>f_id = dk_id dk, f_content = frame\<rparr>))))"

definition compactAfterCheckpoint :: "jsonlib \<Rightarrow> disk \<Rightarrow> journalRecord \<Rightarrow> workingView \<Rightarrow> journalFile option \<Rightarrow> wstate" where
  "compactAfterCheckpoint js dk checkpoint view jf =
     (case compactLocked js dk checkpoint jf of
        (Inl e, jf) \<Rightarrow> (None, jf)
      | (Inr _, jf) \<Rightarrow>
          (map_option (\<lambda>f. \<lparr>wc_view = view, wc_info = Some (f_id f), wc_offset = length (f_content f), wc_first = firstHeader (f_content f)\<rparr>) jf,
           jf))"

record CommitResult =
  cr_Outcome :: CommitOutcome
  cr_Commit :: bytes
  cr_Snapshot :: "Snapshot option"

definition rejected :: CommitResult where
  "rejected = \<lparr>cr_Outcome = OutcomeRejected, cr_Commit = [], cr_Snapshot = None\<rparr>"

text \<open>The bookkeeping after a publication: the checkpoint record, then compaction.\<close>

definition record_checkpoint ::
  "repoEnv \<Rightarrow> disk \<Rightarrow> workingView \<Rightarrow> CommitResult \<Rightarrow> error option \<Rightarrow> wstate \<Rightarrow> (CommitResult \<times> error option) \<times> wstate" where
  "record_checkpoint env dk view result err st =
     (let marker = checkpoint_marker (vw_generation view) (vw_baseCommit view) (cr_Commit result)
      in case appendRecords (en_json env) dk [marker] (snd st) of
           (Inl e, jf) \<Rightarrow> ((result, Some e), (None, jf))
         | (Inr _, jf) \<Rightarrow>
             (case (case cr_Snapshot result of Some s \<Rightarrow> Inr s | None \<Rightarrow> en_snapshotCommit env (cr_Commit result)) of
                Inl e \<Rightarrow> ((result, Some e), (fst st, jf))
              | Inr s \<Rightarrow>
                  ((result, err),
                   compactAfterCheckpoint (en_json env) dk marker
                     ((new_view (cr_Commit result))\<lparr>vw_generation := vw_generation view,
                        vw_snapshot := Some (s\<lparr>sn_generation := vw_generation view\<rparr>)\<rparr>) jf)))"

definition CheckpointPrepared ::
  "(Writer \<Rightarrow> Manifest \<Rightarrow> CommitResult \<times> error option) \<Rightarrow> repoEnv \<Rightarrow> nat \<Rightarrow> disk \<Rightarrow> Writer \<Rightarrow> Manifest \<Rightarrow> wstate
    \<Rightarrow> (CommitResult \<times> error option) \<times> wstate" where
  "CheckpointPrepared publish env repo dk w manifest st =
     (if w_repo w \<noteq> repo then ((rejected, Some (JournalError ForeignWriter)), st)
      else case load env (fst st) (snd st) of
        (Inl e, c) \<Rightarrow> ((rejected, Some e), (c, snd st))
      | (Inr view, c) \<Rightarrow>
          if \<not> vw_dirty view then
            (case vw_snapshot view of
               None \<Rightarrow> (rejected, Some (TableError NilDereference))
             | Some s \<Rightarrow> (\<lparr>cr_Outcome = OutcomeCommitted, cr_Commit = sn_Commit s, cr_Snapshot = Some s\<rparr>, None), (c, snd st))
          else case dk_flush dk of
            Inl e \<Rightarrow> ((rejected, Some e), (c, snd st))
          | Inr _ \<Rightarrow>
              (case publish (w\<lparr>w_workingLockHeld := True\<rparr>) manifest of
                 (result, err) \<Rightarrow>
                   if err \<noteq> None \<and> cr_Outcome result \<noteq> OutcomeCommitted then ((result, err), (c, snd st))
                   else record_checkpoint env dk view result err (c, snd st)))"

fun put_objects :: "(bytes \<Rightarrow> bytes) \<Rightarrow> (hash \<Rightarrow> error + bytes) \<Rightarrow> Snapshot \<Rightarrow> hash list \<Rightarrow> Writer \<Rightarrow> error + Writer" where
  "put_objects H get base [] w = Inr w"
| "put_objects H get base (h # hs) w =
     (if h \<in> set (sn_objectSet base) then put_objects H get base hs w
      else case get h of
        Inl e \<Rightarrow> Inl e
      | Inr data \<Rightarrow> (case writer_Put H w data of Inl e \<Rightarrow> Inl e | Inr (_, w) \<Rightarrow> put_objects H get base hs w))"

text \<open>The writer of a checkpoint that has no row edits to build trees from.\<close>

definition checkpoint_writer :: "repoEnv \<Rightarrow> gitReader \<Rightarrow> nat \<Rightarrow> workingView \<Rightarrow> Snapshot \<Rightarrow> error + Writer" where
  "checkpoint_writer env readGit repo view s =
     (case en_snapshotCommit env (vw_baseCommit view) of
        Inl e \<Rightarrow> Inl e
      | Inr base \<Rightarrow>
          (case BeginSnapshot repo (Some base) of
             Inl e \<Rightarrow> Inl e
           | Inr w \<Rightarrow>
               (case put_objects (en_H env) (snapshot_read (en_H env) readGit s) base (mf_Objects (sn_Manifest s))
                       (w\<lparr>w_workingLockHeld := True\<rparr>) of
                  Inl e \<Rightarrow> Inl e
                | Inr w \<Rightarrow> (case RetainOnly w (mf_Objects (sn_Manifest s)) of (Inl e, _) \<Rightarrow> Inl e | (Inr _, w) \<Rightarrow> Inr w))))"

definition working_Checkpoint ::
  "(Writer \<Rightarrow> Manifest \<Rightarrow> CommitResult \<times> error option) \<Rightarrow> gitReader \<Rightarrow> repoEnv \<Rightarrow> nat \<Rightarrow> disk \<Rightarrow> wstate
    \<Rightarrow> (CommitResult \<times> error option) \<times> wstate" where
  "working_Checkpoint publish readGit env repo dk st =
     (case load env (fst st) (snd st) of
        (Inl e, c) \<Rightarrow> ((rejected, Some e), (c, snd st))
      | (Inr view, c) \<Rightarrow>
          (case vw_snapshot view of
             None \<Rightarrow> ((rejected, Some (TableError NilDereference)), (c, snd st))
           | Some s \<Rightarrow>
               if \<not> vw_dirty view then
                 ((\<lparr>cr_Outcome = OutcomeCommitted, cr_Commit = sn_Commit s, cr_Snapshot = Some s\<rparr>, None), (c, snd st))
               else if list_ex (\<lambda>(_, rows). \<not> pending_Empty rows) (case sn_pendingEdits s of None \<Rightarrow> [] | Some m \<Rightarrow> m)
               then ((rejected, Some (JournalError ErrPendingRowEdits)), (c, snd st))
               else case checkpoint_writer env readGit repo view s of
                 Inl e \<Rightarrow> ((rejected, Some e), (c, snd st))
               | Inr w \<Rightarrow>
                   (case dk_flush dk of
                      Inl e \<Rightarrow> ((rejected, Some e), (c, snd st))
                    | Inr _ \<Rightarrow>
                        (case publish w (sn_Manifest s) of
                           (result, err) \<Rightarrow>
                             if err \<noteq> None \<and> cr_Outcome result \<noteq> OutcomeCommitted then ((result, err), (c, snd st))
                             else record_checkpoint env dk view result err (c, snd st)))))"

subsection \<open>Is the journal dirty?\<close>

record dirtyScan =
  ds_info :: "nat option"
  ds_first :: bytes
  ds_offset :: nat
  ds_dirty :: bool

definition noScan :: dirtyScan where
  "noScan = \<lparr>ds_info = None, ds_first = replicate journalHeaderSize 0, ds_offset = 0, ds_dirty = False\<rparr>"

definition scan_frames :: "journalFrame list \<Rightarrow> dirtyScan \<Rightarrow> dirtyScan" where
  "scan_frames frames scan =
     fold (\<lambda>f s. s\<lparr>ds_dirty := (case jr_Kind (jf_record f) of KCommit \<Rightarrow> True | KCheckpoint \<Rightarrow> False | _ \<Rightarrow> ds_dirty s),
                   ds_offset := jf_end f\<rparr>) frames scan"

definition journalDirtyLocked :: "jsonlib \<Rightarrow> dirtyScan \<Rightarrow> journalFile option \<Rightarrow> (error + bool) \<times> dirtyScan" where
  "journalDirtyLocked js scan0 jf =
     (case jf of
        None \<Rightarrow> (Inr False, noScan)
      | Some f \<Rightarrow>
          let fresh = (ds_info scan0 \<noteq> Some (f_id f) \<or> length (f_content f) < ds_offset scan0);
              scan = (if fresh then noScan else scan0);
              finish = (\<lambda>scan frames first. let s = scan_frames frames (scan\<lparr>ds_first := first\<rparr>); s = s\<lparr>ds_info := Some (f_id f)\<rparr>
                         in (Inr (ds_dirty s), s))
          in if \<not> fresh \<and> length (f_content f) = ds_offset scan then (Inr (ds_dirty scan), scan)
             else case readJournalFrames js (Some (f_content f)) (ds_offset scan) (Some (ds_first scan)) of
                    Inr (frames, first) \<Rightarrow> finish scan frames first
                  | Inl e \<Rightarrow>
                      if e = JournalError JournalReplaced then
                        (case readJournalFrames js (Some (f_content f)) 0 None of
                           Inl e \<Rightarrow> (Inl e, scan0)
                         | Inr (frames, first) \<Rightarrow> finish noScan frames first)
                      else (Inl e, scan0))"

end
