(* ===== verification/Working_Correct.thy ===== *)
theory Working_Correct
  imports Working_State
begin

text \<open>
  What the operations of the working state promise: a commit whose append fails or is cut short is
  visible to the next load exactly when \<open>RecoverTransaction\<close> reports it committed; compaction keeps the
  view; and a checkpoint on a journal with a torn tail leaves a journal that cannot be loaded.
\<close>

section \<open>Transaction ids\<close>

lemma parse_digits_append: "parse_digits n (xs @ ys) = Option.bind (parse_digits n xs) (\<lambda>m. parse_digits m ys)"
  by (induction xs arbitrary: n) (auto simp: Let_def)

lemma decimal_digit_bound: "d \<in> set (decimal_digits n) \<Longrightarrow> d < 10"
proof (induction n rule: decimal_digits.induct)
  case (1 n)
  show ?case using 1(2) by (subst (asm) decimal_digits.simps) (use 1(1) in \<open>auto split: if_splits\<close>)
qed

lemma unat_digit_byte: "d < 10 \<Longrightarrow> unat (digit_byte d) = 48 + d"
  by (simp add: digit_byte_def unat_of_nat del: of_nat_add)

lemma parse_decimal_digits:
  "n < 2 ^ 64 \<Longrightarrow> parse_digits 0 (map digit_byte (decimal_digits n)) = Some n"
proof (induction n rule: decimal_digits.induct)
  case (1 n)
  have digit: "parse_digits m [digit_byte d] = Some (10 * m + d)" if "d < 10" "10 * m + d < 2 ^ 64" for m d
    using that by (simp add: word_le_nat_alt unat_digit_byte Let_def)
  show ?case
  proof (cases "n < 10")
    case True
    then show ?thesis using digit[of n 0] by (subst decimal_digits.simps) simp
  next
    case False
    then have "parse_digits 0 (map digit_byte (decimal_digits (n div 10))) = Some (n div 10)"
      using 1 by simp
    then show ?thesis
      using False digit[of "n mod 10" "n div 10"] 1(2)
      by (subst decimal_digits.simps) (simp add: parse_digits_append)
  qed
qed

lemma transactionGeneration_format: "transactionGeneration (formatUint g @ 0x2D # r) = Some g"
proof -
  have byte: "digit_byte d \<noteq> 0x2D" if "d < 10" for d
    using unat_digit_byte[OF that] by (auto dest: arg_cong[where f = unat])
  have no: "c \<noteq> 0x2D" if "c \<in> set (formatUint g)" for c
    using that byte decimal_digit_bound by (auto simp: formatUint_def)
  have take: "takeWhile (\<lambda>c. c \<noteq> 0x2D) (formatUint g @ 0x2D # r) = formatUint g"
    using no by (simp add: takeWhile_append2)
  have "formatUint g \<noteq> []" by (subst formatUint_def, subst decimal_digits.simps) simp
  moreover have "parse_digits 0 (formatUint g) = Some (unat g)"
    unfolding formatUint_def by (rule parse_decimal_digits) (use unsigned_less[of g] in simp)
  ultimately show ?thesis unfolding transactionGeneration_def take by (simp add: parseUint_def)
qed


section \<open>Loading a journal with a torn tail\<close>

definition torn_tail :: "jsonlib \<Rightarrow> bytes \<Rightarrow> bool" where
  "torn_tail js t \<longleftrightarrow> t = [] \<or> (\<exists>r m. frame_fits js r \<and> m < length (the_frame js r) \<and> t = take m (the_frame js r))"

definition ended :: "journalRecord list \<Rightarrow> bool" where
  "ended rs \<longleftrightarrow> rs = [] \<or> jr_Kind (last rs) \<in> {KCommit, KCheckpoint}"

lemma read_torn_tail:
  assumes "record_json js" "\<forall>r \<in> set rs. frame_fits js r" "torn_tail js t"
  shows "read_frames js off (journal_bytes js rs @ t) = Inr (frames_at js off rs)"
proof (cases "t = []")
  case True
  then show ?thesis using read_whole[OF assms(1,2)] by simp
next
  case False
  then obtain r m where r: "frame_fits js r" "m < length (the_frame js r)" "t = take m (the_frame js r)"
    using assms(3) by (auto simp: torn_tail_def)
  have "journal_bytes js rs @ t = take (length (journal_bytes js rs) + m) (journal_bytes js (rs @ [r]))"
    using r by (simp add: journal_bytes_def)
  then show ?thesis
    using read_prefix[OF assms(1), of "rs @ [r]"] assms(2) r by (simp add: complete_records_append)
qed

lemma replay_frames_safe:
  assumes "replay_frames env b fs rp = Inr rp'" "fs \<noteq> []" "jr_Kind (jf_record (last fs)) \<in> {KCommit, KCheckpoint}"
  shows "rp_safe rp' = jf_end (last fs)"
proof -
  have one: "rp_safe r' = jf_end f" if "replay_frame env b f r = Inr r'" "jr_Kind (jf_record f) \<in> {KCommit, KCheckpoint}" for b f r r'
    using that by (auto simp: replay_frame_def replay_commit_def Let_def split: if_splits option.splits sum.splits)
  obtain fs' f where fs: "fs = fs' @ [f]" using assms(2) by (cases fs rule: rev_cases) auto
  obtain r where "replay_frames env b fs' rp = Inr r" "replay_frame env (b \<and> fs' = []) f r = Inr rp'"
    using assms(1) fs by (auto simp: replay_frames_append split: sum.splits)
  then show ?thesis using one assms(3) fs by auto
qed

lemma materialize_safe: "materialize env rp = Inr rp' \<Longrightarrow> rp_safe rp' = rp_safe rp"
  by (auto simp: materialize_def ensureBase_def split: sum.splits if_splits)

lemma finish_load_safe: "finish_load env head rp = Inr rp' \<Longrightarrow> rp_safe rp' = rp_safe rp"
  by (auto simp: finish_load_def split: sum.splits if_splits dest!: materialize_safe)

lemma frames_at_last:
  assumes "rs \<noteq> []"
  shows "jf_end (last (frames_at js off rs)) = off + length (journal_bytes js rs)" "jf_record (last (frames_at js off rs)) = journaled (last rs)"
proof -
  obtain qs r where rs: "rs = qs @ [r]" using assms by (cases rs rule: rev_cases) auto
  show "jf_end (last (frames_at js off rs)) = off + length (journal_bytes js rs)" "jf_record (last (frames_at js off rs)) = journaled (last rs)"
    by (simp_all add: rs frames_at_append Let_def) (simp add: journal_bytes_def)
qed

lemma load_torn_tail:
  assumes js: "record_json (en_json env)" and fits: "\<forall>r \<in> set rs. frame_fits (en_json env) r"
    and at: "journal_at env head rs v" and ended: "ended rs" and torn: "torn_tail (en_json env) t"
  shows "load env None (Some \<lparr>f_id = i, f_content = journal_bytes (en_json env) rs @ t\<rparr>) =
    (Inr v, Some \<lparr>wc_view = v, wc_info = Some i, wc_offset = length (journal_bytes (en_json env) rs),
                  wc_first = firstHeader (journal_bytes (en_json env) rs @ t)\<rparr>)"
proof -
  let ?fs = "frames_at (en_json env) 0 rs"
  have head: "en_head env = Inr head" "head \<noteq> []" using at by (simp_all add: journal_at_def)
  obtain rp rp' where rp: "replay_frames env True ?fs (fresh_replay (initial_base ?fs head)) = Inr rp"
      "finish_load env head rp = Inr rp'" "rp_view rp' = v"
    using at by (auto simp: journal_at_def full_load_def map_sum_Inr split: sum.splits)
  have "rp_safe rp = length (journal_bytes (en_json env) rs)"
  proof (cases "rs = []")
    case True
    then show ?thesis using rp(1) by (auto simp: journal_bytes_def fresh_replay_def)
  next
    case False
    have "?fs \<noteq> []" using False by (metis length_0_conv length_frames_at)
    then show ?thesis
      using replay_frames_safe[OF rp(1)] frames_at_last[OF False, of "en_json env" 0] ended False by (simp add: ended_def)
  qed
  then have "rp_safe rp' = length (journal_bytes (en_json env) rs)" using finish_load_safe[OF rp(2)] by simp
  then show ?thesis
    using rp head read_torn_tail[OF js fits torn, of 0]
    by (simp add: load_def usable_cache_def readJournalFrames_def load_frames_def fresh_replay_def Let_def)
qed

section \<open>The outcome of a commit\<close>

lemma not_blank_digit: "d < 10 \<Longrightarrow> \<not> blank (digit_byte d # s)"
proof -
  assume d: "d < 10"
  have "digit_byte d < 0x80" using unat_digit_byte[OF d] d by (simp add: word_less_nat_alt)
  then have "decode_rune (digit_byte d # s) = (48 + d, 1)" using unat_digit_byte[OF d] by (simp add: decode_rune_def)
  then show ?thesis using d by (subst blank.simps) (auto simp: is_space_def)
qed

lemma txid_not_blank: "\<not> blank (formatUint g @ s)"
proof -
  have "decimal_digits (unat g) \<noteq> []" by (subst decimal_digits.simps) simp
  then obtain d ds where "decimal_digits (unat g) = d # ds" by (cases "decimal_digits (unat g)") simp
  then show ?thesis using not_blank_digit[of d] decimal_digit_bound[of d "unat g"] by (simp add: formatUint_def)
qed

definition fresh_tx :: "bytes \<Rightarrow> journalRecord list \<Rightarrow> bool" where
  "fresh_tx txid rs \<longleftrightarrow> (\<forall>r \<in> set rs. jr_TxID r \<noteq> txid \<and> txid \<notin> set (jr_CheckpointedTxIDs r))"

lemma recover_loop_fresh:
  assumes "fresh_tx txid rs"
  shows "recover_loop txid (map journaled rs @ qs) p = recover_loop txid qs p"
  using assms by (induction rs) (auto simp: fresh_tx_def)

lemma recover_committed:
  assumes "readJournal js (map_option f_content jf) = Inr records" "\<not> blank txid"
  shows "wr_Outcome (fst (RecoverTransaction js jf txid)) = OutcomeCommitted \<longleftrightarrow>
    (case recover_loop txid records None of
       (Some g, done) \<Rightarrow> done
     | (None, _) \<Rightarrow> (case records of [] \<Rightarrow> False | r # _ \<Rightarrow> jr_Kind r = KCheckpoint \<and> txid \<in> set (jr_CheckpointedTxIDs r)))"
proof -
  obtain p b where loop: "recover_loop txid records None = (p, b)" by (cases "recover_loop txid records None")
  show ?thesis
  proof (cases p)
    case (Some g)
    then show ?thesis using assms loop by (cases b) (simp_all add: RecoverTransaction_def Let_def)
  next
    case None
    then show ?thesis
      using assms loop
      by (cases records) (auto simp: RecoverTransaction_def Let_def recoverFromAnchor_def split: option.split)
  qed
qed

text \<open>After any cut, the transaction is reported committed exactly when its marker is complete.\<close>

lemma recover_after_crash:
  assumes js: "record_json js" and fits: "\<forall>r \<in> set rs. frame_fits js r" and fresh: "fresh_tx txid rs" and txid: "\<not> blank txid"
    and tx_fits: "frame_fits js (typed_prepare txid g base edits)" "frame_fits js (commit_marker txid g base)"
  defines "new \<equiv> journal_bytes js [typed_prepare txid g base edits, commit_marker txid g base]"
  shows "wr_Outcome (fst (RecoverTransaction js (Some \<lparr>f_id = i, f_content = journal_bytes js rs @ take n new\<rparr>) txid)) = OutcomeCommitted
    \<longleftrightarrow> length new \<le> n"
proof -
  let ?p = "typed_prepare txid g base edits" and ?m = "commit_marker txid g base"
  have split: "journal_bytes js rs @ take n new = take (length (journal_bytes js rs) + n) (journal_bytes js (rs @ [?p, ?m]))"
    by (simp add: journal_bytes_def new_def)
  have all: "\<forall>r \<in> set (rs @ [?p, ?m]). frame_fits js r" using fits tx_fits by auto
  define qs where "qs = complete_records js n [?p, ?m]"
  have read: "readJournal js (Some (journal_bytes js rs @ take n new)) = Inr (map journaled rs @ map journaled qs)"
    unfolding split by (simp add: readJournal_def readJournalFrames_def read_prefix[OF js all] complete_records_append qs_def)
  have loop: "recover_loop txid (map journaled rs @ map journaled qs) None = recover_loop txid (map journaled qs) None"
    by (rule recover_loop_fresh[OF fresh])
  have qs: "qs = (if n < length (the_frame js ?p) then [] else if n < length new then [?p] else [?p, ?m])"
    by (auto simp: qs_def Let_def new_def journal_bytes_def)
  have "length (the_frame js ?p) \<le> length new" by (simp add: new_def journal_bytes_def)
  moreover have "recover_loop txid (map journaled qs) None =
      (if n < length (the_frame js ?p) then (None, False) else (Some g, length new \<le> n))"
    by (auto simp: qs typed_prepare_def commit_marker_def)
  moreover have "\<not> (case map journaled rs @ map journaled qs of [] \<Rightarrow> False | r # _ \<Rightarrow> jr_Kind r = KCheckpoint \<and> txid \<in> set (jr_CheckpointedTxIDs r))"
    using fresh by (cases rs) (auto simp: fresh_tx_def qs typed_prepare_def commit_marker_def split: list.splits)
  ultimately show ?thesis
    using recover_committed[OF _ txid, of js "Some \<lparr>f_id = i, f_content = journal_bytes js rs @ take n new\<rparr>"] read loop by auto
qed


definition reached :: "disk \<Rightarrow> bytes \<Rightarrow> bytes \<Rightarrow> nat" where
  "reached dk old new = (case dk_write dk of None \<Rightarrow> length old + length new | Some n \<Rightarrow> n)"

lemma appendRecords_bytes:
  assumes "dk_open dk = Inr ()" "\<forall>r \<in> set rs. frame_fits js r"
  shows "appendRecords js dk rs (Some f) =
    (let new = journal_bytes js rs; n = reached dk (f_content f) new
     in (if n < length new then Inl (LibraryError 0) else dk_flush dk, Some (f\<lparr>f_content := f_content f @ take n new\<rparr>)))"
  using assms by (cases "dk_write dk") (auto simp: appendRecords_def append_frames_bytes Let_def reached_def)

text \<open>
  A typed commit on a journal with a torn tail, whatever the disk does to its append: afterwards a load
  from scratch shows the transaction exactly when \<open>RecoverTransaction\<close> reports it committed, and a commit
  that reports success is committed.
\<close>

lemma CommitTypedEdits_outcome:
  assumes js: "record_json (en_json env)" and fits: "\<forall>r \<in> set rs. frame_fits (en_json env) r"
    and at: "journal_at env head rs v" and ended: "ended rs" and torn: "torn_tail (en_json env) t"
    and base: "sn_Commit base = sn_Commit (the (vw_snapshot v))" "writeConflict v (sn_generation base) edits = Inr ()"
    and edits: "edits \<noteq> []" and dk: "dk_open dk = Inr ()"
    and g: "g = vw_generation v + 1" and txid: "txid = formatUint g @ 0x2D # r" "fresh_tx txid rs"
    and tx_fits: "frame_fits (en_json env) (typed_prepare txid g head edits)" "frame_fits (en_json env) (commit_marker txid g head)"
  shows "\<exists>res c f. CommitTypedEdits env dk (Inr r) (Some base) edits
      (None, Some \<lparr>f_id = i, f_content = journal_bytes (en_json env) rs @ t\<rparr>) = ((res, txid), (c, Some f)) \<and>
    fst (load env None (Some f)) =
      Inr (if wr_Outcome (fst (RecoverTransaction (en_json env) (Some f) txid)) = OutcomeCommitted
           then commit_typed (en_H env) (en_order env) (the (vw_snapshot v)) edits v else v) \<and>
    (\<forall>s. res = Inr s \<longrightarrow> wr_Outcome (fst (RecoverTransaction (en_json env) (Some f) txid)) = OutcomeCommitted \<and>
       vw_snapshot (commit_typed (en_H env) (en_order env) (the (vw_snapshot v)) edits v) = Some s) \<and>
    (dk_write dk = None \<and> dk_flush dk = Inr () \<longrightarrow> \<not> isl res)"
proof -
  let ?js = "en_json env" and ?old = "journal_bytes (en_json env) rs"
  let ?p = "typed_prepare txid g head edits" and ?m = "commit_marker txid g head"
  let ?new = "journal_bytes ?js [?p, ?m]"
  let ?v = "commit_typed (en_H env) (en_order env) (the (vw_snapshot v)) edits v"
  let ?f = "\<lambda>n. \<lparr>f_id = i, f_content = ?old @ take n ?new\<rparr>"
  note view = journal_at_view[OF at]
  obtain s where s: "vw_snapshot v = Some s" using view(2) by auto
  obtain s' where s': "vw_snapshot ?v = Some s'" by (cases "vw_snapshot ?v") auto
  let ?c = "\<lparr>wc_view = v, wc_info = Some i, wc_offset = length ?old, wc_first = firstHeader (?old @ t)\<rparr>"
  have ne: "txid \<noteq> []" using txid(1) by simp
  have nb: "\<not> blank txid" using txid_not_blank txid(1) by simp
  have load: "load env None (Some \<lparr>f_id = i, f_content = ?old @ t\<rparr>) = (Inr v, Some ?c)"
    by (rule load_torn_tail[OF js fits at ended torn])
  have trunc: "truncateIncompleteTail (Some ?c, Some \<lparr>f_id = i, f_content = ?old @ t\<rparr>) = (Inr (), Some \<lparr>f_id = i, f_content = ?old\<rparr>)"
    by (simp add: truncateIncompleteTail_def)
  have fits2: "\<forall>r \<in> set [?p, ?m]. frame_fits ?js r" using tx_fits by simp
  let ?n = "reached dk ?old ?new"
  have append: "appendRecords ?js dk [?p, ?m] (Some \<lparr>f_id = i, f_content = ?old\<rparr>) =
      (if ?n < length ?new then Inl (LibraryError 0) else dk_flush dk, Some (?f ?n))"
    by (simp only: appendRecords_bytes[OF dk fits2] Let_def) simp
  have after: "fst (load env None (Some (?f ?n))) = Inr (if ?n < length ?new then v else ?v)"
    using load_after_crash[OF js fits at ne edits g, of i ?n] tx_fits view(1) by simp
  have recover: "wr_Outcome (fst (RecoverTransaction ?js (Some (?f ?n)) txid)) = OutcomeCommitted \<longleftrightarrow> length ?new \<le> ?n"
    by (rule recover_after_crash[OF js fits txid(2) nb tx_fits])
  let ?res = "if ?n < length ?new then Inl (CommitError OutcomeUnknown (LibraryError 0))
    else case dk_flush dk of Inl e \<Rightarrow> Inl (CommitError OutcomeUnknown e) | Inr _ \<Rightarrow> Inr s'"
  have tid: "newTransactionID (Inr r) (vw_generation v + 1) = Inr txid" by (simp add: newTransactionID_def txid(1) g)
  have "\<exists>c. append_commit env dk ?p ?m ?v (Some ?c, Some \<lparr>f_id = i, f_content = ?old @ t\<rparr>) = (?res, (c, Some (?f ?n)))"
    unfolding append_commit_def trunc prod.case sum.case append s' by (cases "?n < length ?new"; cases "dk_flush dk") simp_all
  then obtain c where ac: "append_commit env dk ?p ?m ?v (Some ?c, Some \<lparr>f_id = i, f_content = ?old @ t\<rparr>) = (?res, (c, Some (?f ?n)))" ..
  have "CommitTypedEdits env dk (Inr r) (Some base) edits (None, Some \<lparr>f_id = i, f_content = ?old @ t\<rparr>) =
      ((?res, txid), (c, Some (?f ?n)))"
    using base s ac view(1) tid by (simp add: CommitTypedEdits_def load g Let_def)
  moreover have "dk_write dk = None \<Longrightarrow> length ?new \<le> ?n" by (simp add: reached_def)
  ultimately show ?thesis using after recover s' by (auto split: sum.splits)
qed


section \<open>Compaction\<close>

lemma full_load_checkpoint:
  assumes "replay_frames env True fs (fresh_replay (initial_base (fs @ [f]) head)) = Inr rp"
    and "replay_frame env (fs = []) f rp = Inr rp'" "jr_Kind (jf_record f) = KCheckpoint"
  shows "map_sum id rp_view (full_load env head (fs @ [f])) =
    map_sum id (\<lambda>s. (new_view head)\<lparr>vw_generation := jr_Generation (jf_record f),
      vw_snapshot := Some (s\<lparr>sn_generation := jr_Generation (jf_record f)\<rparr>)\<rparr>) (en_snapshotCommit env head)"
proof -
  have lazy: "lazy rp" by (rule replay_frames_lazy[OF lazy_fresh assms(1)])
  then have lazy': "lazy rp'" by (rule replay_frame_lazy[OF _ assms(2)])
  have view: "vw_generation (rp_view rp') = jr_Generation (jf_record f)" "\<not> vw_dirty (rp_view rp')"
    using assms(2,3) by (auto simp: replay_frame_def Let_def split: if_splits)
  have "full_load env head (fs @ [f]) = finish_load env head rp'"
    using assms(1,2) by (simp add: full_load_def replay_frames_append)
  then show ?thesis
    using finish_clean[OF lazy' view(2)] lazy' view by (cases "rp_view rp'") (auto simp: lazy_def new_view_def split: sum.split)
qed

text \<open>A compacted journal: the anchor alone, which loads to the data head at the anchor's generation.\<close>

lemma load_whole:
  assumes "record_json (en_json env)" "en_head env = Inr head" "head \<noteq> []" "\<forall>r \<in> set rs. frame_fits (en_json env) r"
  shows "fst (load env None (Some \<lparr>f_id = i, f_content = journal_bytes (en_json env) rs\<rparr>)) =
    map_sum id rp_view (full_load env head (frames_at (en_json env) 0 rs))"
  using load_file[OF assms(1,4,2,3), of i "length (journal_bytes (en_json env) rs)"] by (simp add: complete_records_all)

lemma load_anchor:
  assumes "record_json (en_json env)" "en_head env = Inr head" "head \<noteq> []" "frame_fits (en_json env) a" "jr_Kind a = KCheckpoint"
  shows "fst (load env None (Some \<lparr>f_id = i, f_content = journal_bytes (en_json env) [a]\<rparr>)) =
    map_sum id (\<lambda>s. (new_view head)\<lparr>vw_generation := jr_Generation a, vw_snapshot := Some (s\<lparr>sn_generation := jr_Generation a\<rparr>)\<rparr>)
      (en_snapshotCommit env head)"
proof -
  let ?f = "\<lparr>jf_record = journaled a, jf_end = length (the_frame (en_json env) a)\<rparr>"
  have "\<exists>rp. replay_frame env True ?f (fresh_replay b) = Inr rp" for b
    using assms(5) by (simp add: replay_frame_def fresh_replay_def Let_def)
  then show ?thesis
    using full_load_checkpoint[of env "[]" ?f head] load_whole[OF assms(1-3), of "[a]" i] assms(4,5) by (auto simp: Let_def)
qed

lemma compactLocked_anchor:
  assumes js: "record_json js" and fits: "\<forall>r \<in> set rs. frame_fits js r" "frame_fits js (anchor_of m (map journaled rs))"
    and dk: "dk_rename dk = Inr ()" "dk_syncDir dk = Inr ()"
  shows "compactLocked js dk m (Some \<lparr>f_id = i, f_content = journal_bytes js rs\<rparr>) =
    (Inr (), Some \<lparr>f_id = dk_id dk, f_content = journal_bytes js [anchor_of m (map journaled rs)]\<rparr>)"
proof -
  have "readJournal js (Some (journal_bytes js rs)) = Inr (map journaled rs)"
    using read_whole[OF js fits(1), of 0] by (simp add: readJournal_def readJournalFrames_def)
  moreover have "encodeFrame js a = Inr (journal_bytes js [a])" if "frame_fits js a" for a
    using that by (auto simp: frame_fits_def encodeFrame_def journal_bytes_def the_frame_def)
  ultimately show ?thesis using fits(2) dk by (simp add: compactLocked_def)
qed

lemma anchor_of_simps [simp]:
  "jr_Kind (anchor_of m rs) = jr_Kind m" "jr_Generation (anchor_of m rs) = jr_Generation m" "jr_TxID (anchor_of m rs) = jr_TxID m"
  "jr_CheckpointedTxIDs (anchor_of m rs) = map jr_TxID (filter (\<lambda>r. jr_Kind r = KCommit) rs)"
  by (simp_all add: anchor_of_def)

lemma checkpoint_marker_simps [simp]:
  "jr_Kind (checkpoint_marker g base commit) = KCheckpoint" "jr_Generation (checkpoint_marker g base commit) = g"
  "jr_TxID (checkpoint_marker g base commit) = []"
  by (simp_all add: checkpoint_marker_def)

text \<open>A compacted journal loads as the journal it replaces, whose last record is the checkpoint.\<close>

lemma compaction_keeps_view:
  assumes js: "record_json (en_json env)" and head: "en_head env = Inr head" "head \<noteq> []"
    and m: "m = checkpoint_marker g base commit" and fits: "\<forall>r \<in> set (rs @ [m]). frame_fits (en_json env) r"
    and loads: "fst (load env None (Some \<lparr>f_id = i, f_content = journal_bytes (en_json env) (rs @ [m])\<rparr>)) = Inr v"
    and afits: "frame_fits (en_json env) (anchor_of m (map journaled (rs @ [m])))"
    and dk: "dk_rename dk = Inr ()" "dk_syncDir dk = Inr ()"
  shows "\<exists>f. compactLocked (en_json env) dk m (Some \<lparr>f_id = i, f_content = journal_bytes (en_json env) (rs @ [m])\<rparr>) = (Inr (), Some f)
    \<and> fst (load env None (Some f)) = Inr v"
proof -
  let ?js = "en_json env"
  let ?fs = "frames_at ?js 0 rs" and ?f = "\<lparr>jf_record = journaled m, jf_end = length (journal_bytes ?js rs) + length (the_frame ?js m)\<rparr>"
  have full: "map_sum id rp_view (full_load env head (?fs @ [?f])) = Inr v"
    using loads load_whole[OF js head fits] by (simp add: frames_at_append Let_def)
  then obtain rp rp' where rp: "replay_frames env True ?fs (fresh_replay (initial_base (?fs @ [?f]) head)) = Inr rp"
      "replay_frame env (?fs = []) ?f rp = Inr rp'"
    by (auto simp: full_load_def replay_frames_append split: sum.splits)
  have "map_sum id (\<lambda>s. (new_view head)\<lparr>vw_generation := g, vw_snapshot := Some (s\<lparr>sn_generation := g\<rparr>)\<rparr>) (en_snapshotCommit env head) = Inr v"
    using full_load_checkpoint[OF rp] full m by simp
  then show ?thesis
    using compactLocked_anchor[OF js fits afits dk, of i] load_anchor[OF js head afits, of "dk_id dk"] m by simp
qed

section \<open>A checkpoint\<close>

text \<open>
  A checkpoint on a dirty journal marks the whole journal published, at the generation it has when the
  checkpoint takes the lock: from then on a load shows the published commit and nothing else.
\<close>

lemma checkpoint_replaces_view:
  assumes js: "record_json (en_json env)" and fits: "\<forall>r \<in> set rs. frame_fits (en_json env) r"
    and at: "journal_at env head rs v" and ended: "ended rs" and dirty: "vw_dirty v"
    and publish: "publish (w\<lparr>w_workingLockHeld := True\<rparr>) manifest = (result, None)" "w_repo w = repo" "cr_Snapshot result = Some s"
    and dk: "dk_open dk = Inr ()" "dk_write dk = None" "dk_flush dk = Inr ()" "dk_rename dk = Inr ()" "dk_syncDir dk = Inr ()"
    and m: "m = checkpoint_marker (vw_generation v) head (cr_Commit result)"
    and mfits: "frame_fits (en_json env) m" "frame_fits (en_json env) (anchor_of m (map journaled (rs @ [m])))"
    and env': "en_json env' = en_json env" "en_head env' = Inr (cr_Commit result)" "cr_Commit result \<noteq> []"
      "en_snapshotCommit env' (cr_Commit result) = Inr p"
    and tx: "t \<in> set rs" "jr_Kind t = KCommit" "\<not> blank (jr_TxID t)"
  shows "\<exists>c f. CheckpointPrepared publish env repo dk w manifest (None, Some \<lparr>f_id = i, f_content = journal_bytes (en_json env) rs\<rparr>) =
      ((result, None), (Some c, Some f)) \<and>
    fst (load env' None (Some f)) = Inr ((new_view (cr_Commit result))\<lparr>vw_generation := vw_generation v,
      vw_snapshot := Some (p\<lparr>sn_generation := vw_generation v\<rparr>)\<rparr>) \<and>
    wr_Outcome (fst (RecoverTransaction (en_json env) (Some f) (jr_TxID t))) = OutcomeCommitted"
proof -
  let ?js = "en_json env" and ?a = "anchor_of m (map journaled (rs @ [m]))"
  let ?f = "\<lparr>f_id = dk_id dk, f_content = journal_bytes ?js [?a]\<rparr>"
  have all: "\<forall>r \<in> set (rs @ [m]). frame_fits ?js r" using fits mfits by auto
  have "torn_tail ?js []" by (simp add: torn_tail_def)
  note load = load_torn_tail[OF js fits at ended this]
  have append: "appendRecords ?js dk [m] (Some \<lparr>f_id = i, f_content = journal_bytes ?js rs\<rparr>) =
      (Inr (), Some \<lparr>f_id = i, f_content = journal_bytes ?js (rs @ [m])\<rparr>)"
    using dk mfits(1) by (simp add: appendRecords_bytes reached_def Let_def del: append_frames.simps) (simp add: journal_bytes_def)
  have "\<exists>c. CheckpointPrepared publish env repo dk w manifest (None, Some \<lparr>f_id = i, f_content = journal_bytes ?js rs\<rparr>) =
      ((result, None), (Some c, Some ?f))"
    using publish dk dirty journal_at_view(1)[OF at] append load[of i] compactLocked_anchor[OF js all mfits(2) dk(4,5), of i] m
    by (simp add: CheckpointPrepared_def record_checkpoint_def compactAfterCheckpoint_def Let_def)
  moreover have "fst (load env' None (Some ?f)) = Inr ((new_view (cr_Commit result))\<lparr>vw_generation := vw_generation v,
      vw_snapshot := Some (p\<lparr>sn_generation := vw_generation v\<rparr>)\<rparr>)"
    using load_anchor[of env' "cr_Commit result" ?a "dk_id dk"] js env' mfits(2) m by simp
  moreover have "wr_Outcome (fst (RecoverTransaction ?js (Some ?f) (jr_TxID t))) = OutcomeCommitted"
  proof -
    have read: "readJournal ?js (Some (f_content ?f)) = Inr [journaled ?a]"
      using read_whole[OF js, of "[?a]" 0] mfits(2) by (simp add: readJournal_def readJournalFrames_def Let_def)
    have "journaled t \<in> set (filter (\<lambda>r. jr_Kind r = KCommit) (map journaled (rs @ [m])))" using tx by simp
    then have "jr_TxID (journaled t) \<in> set (jr_CheckpointedTxIDs ?a)" unfolding anchor_of_simps set_map by (rule imageI)
    moreover have "recover_loop (jr_TxID t) [journaled ?a] None = (None, False)" by (simp add: m)
    moreover have "jr_Kind (journaled ?a) = KCheckpoint" "jr_CheckpointedTxIDs (journaled ?a) = jr_CheckpointedTxIDs ?a" by (simp_all add: m)
    ultimately show ?thesis
      using recover_committed[of ?js "Some ?f" "[journaled ?a]" "jr_TxID t"] read tx(3) unfolding option.map journaled_simps by simp
  qed
  ultimately show ?thesis by blast
qed

section \<open>A checkpoint on a torn journal\<close>

lemma read_frames_then_error:
  assumes "record_json js" "\<forall>r \<in> set rs. frame_fits js r" "\<And>off. read_frames js off rest = Inl e"
  shows "read_frames js off (journal_bytes js rs @ rest) = Inl e"
  using assms(2)
proof (induction rs arbitrary: off)
  case (Cons r rs)
  have "journal_bytes js (r # rs) @ rest = the_frame js r @ journal_bytes js rs @ rest" by (simp add: journal_bytes_def)
  then show ?case using Cons by (simp add: read_frame[OF assms(1)])
qed (simp add: journal_bytes_def assms(3))

text \<open>
  A crashed append may leave as little as the magic of a frame behind. \<open>Checkpoint\<close> does not cut that
  tail before it appends its record, as a commit does: the record's own magic is then read as a length.
\<close>

lemma torn_magic_unreadable:
  assumes "8 \<le> length rest" "take 4 rest = frameMagic"
  shows "read_frames js off (frameMagic @ rest) = Inl (JournalError InvalidFrameLength)"
proof -
  define buf where "buf = frameMagic @ rest"
  have "be_word frameMagic = 0x5244424A" by (simp add: be_word_def frameMagic_def)
  then have len: "unat (be_word frameMagic) = 1380205130" by simp
  have parts: "\<not> length buf < journalHeaderSize" "take 4 buf = frameMagic" "take 4 (drop 4 buf) = frameMagic"
    using assms by (simp_all add: buf_def frameMagic_def journalHeaderSize_def)
  have "read_frames js off buf = Inl (JournalError InvalidFrameLength)"
    by (subst read_frames.simps) (simp add: parts len)
  then show ?thesis by (simp add: buf_def)
qed

lemma torn_checkpoint_unreadable:
  assumes js: "record_json (en_json env)" and fits: "\<forall>r \<in> set rs. frame_fits (en_json env) r"
    and at: "journal_at env head rs v" and ended: "ended rs" and dirty: "vw_dirty v"
    and torn: "\<exists>r. frame_fits (en_json env) r"
    and publish: "publish (w\<lparr>w_workingLockHeld := True\<rparr>) manifest = (result, None)" "w_repo w = repo" "cr_Snapshot result = Some s"
    and dk: "dk_open dk = Inr ()" "dk_write dk = None" "dk_flush dk = Inr ()"
    and mfits: "frame_fits (en_json env) (checkpoint_marker (vw_generation v) head (cr_Commit result))"
  shows "\<exists>f. CheckpointPrepared publish env repo dk w manifest
      (None, Some \<lparr>f_id = i, f_content = journal_bytes (en_json env) rs @ frameMagic\<rparr>) = ((result, None), (None, Some f)) \<and>
    (\<forall>env'. en_json env' = en_json env \<longrightarrow> fst (load env' None (Some f)) = Inl (JournalError InvalidFrameLength))"
proof -
  let ?js = "en_json env" and ?old = "journal_bytes (en_json env) rs @ frameMagic"
  let ?m = "checkpoint_marker (vw_generation v) head (cr_Commit result)"
  let ?f = "\<lparr>f_id = i, f_content = ?old @ the_frame ?js ?m\<rparr>"
  obtain r where r: "frame_fits ?js r" using torn by blast
  have "\<exists>d. the_frame ?js q = frame_of d" if "frame_fits ?js q" for q
    using that by (auto simp: frame_fits_def the_frame_def encodeFrame_def)
  then obtain d d' where d: "the_frame ?js r = frame_of d" "the_frame ?js ?m = frame_of d'" using r mfits by blast
  have "torn_tail ?js frameMagic"
    unfolding torn_tail_def using r d(1)
    by (intro disjI2 exI[of _ r] exI[of _ 4]) (simp add: frame_of_def frameMagic_def)
  note load = load_torn_tail[OF js fits at ended this]
  have bad: "read_frames ?js off (?old @ the_frame ?js ?m) = Inl (JournalError InvalidFrameLength)" for off
    using read_frames_then_error[OF js fits torn_magic_unreadable[of "the_frame ?js ?m"]]
    by (simp add: d(2)) (simp add: frame_of_def frameMagic_def)
  have append: "appendRecords ?js dk [?m] (Some \<lparr>f_id = i, f_content = ?old\<rparr>) = (Inr (), Some ?f)"
    using dk mfits by (simp add: appendRecords_bytes reached_def Let_def del: append_frames.simps) (simp add: journal_bytes_def)
  have "compactLocked ?js dk ?m (Some ?f) = (Inl (JournalError InvalidFrameLength), Some ?f)"
    using bad[of 0] by (simp add: compactLocked_def readJournal_def readJournalFrames_def)
  then have "CheckpointPrepared publish env repo dk w manifest (None, Some \<lparr>f_id = i, f_content = ?old\<rparr>) = ((result, None), (None, Some ?f))"
    using publish dk dirty journal_at_view(1)[OF at] append load[of i]
    by (simp add: CheckpointPrepared_def record_checkpoint_def compactAfterCheckpoint_def)
  moreover have "fst (load env' None (Some ?f)) = Inl (JournalError InvalidFrameLength)" if "en_json env' = ?js" for env'
    using bad[of 0] that by (simp add: load_def usable_cache_def readJournalFrames_def)
  ultimately show ?thesis by blast
qed

end
