(* ===== verification/Journal_Properties.thy ===== *)
theory Journal_Properties
  imports Working_Correct
begin

text \<open>
  The properties of the working journal, with witnesses.
\<close>

section \<open>Witness inputs\<close>

text \<open>A repository with an empty data commit, one transaction that writes one row, and its checkpoint.\<close>

definition w_head :: bytes where "w_head = [7]"

definition w_snapshot :: Snapshot where
  "w_snapshot = \<lparr>sn_repo = 0, sn_Commit = w_head, sn_generation = 0,
     sn_Manifest = \<lparr>mf_FormatVersion = FormatVersion, mf_DefaultDatabase = [100], mf_Tables = Some [], mf_Objects = []\<rparr>,
     sn_objectSet = [], sn_objectOIDs = [], sn_cache = [], sn_pendingEdits = None\<rparr>"

definition w_edits :: "byte \<Rightarrow> TypedTableEdit list" where
  "w_edits k = [\<lparr>te_Table = [116], te_Schema = [], te_Drop = False,
     te_Edits = [\<lparr>re_key = [k], re_value = [1], re_delete = False, re_generation = 0\<rparr>], te_Claims = []\<rparr>]"

definition w_txid :: bytes where "w_txid = formatUint 1 @ 0x2D # [97]"

definition w_prepare :: journalRecord where "w_prepare = typed_prepare w_txid 1 w_head (w_edits 1)"

definition w_marker :: journalRecord where "w_marker = commit_marker w_txid 1 w_head"

definition w_checkpoint :: journalRecord where "w_checkpoint = checkpoint_marker 1 w_head [8]"

definition w_anchor :: journalRecord where
  "w_anchor = anchor_of w_checkpoint (map journaled ([w_prepare, w_marker] @ [w_checkpoint]))"

definition w_records :: "(journalRecord \<times> byte) list" where
  "w_records = [(w_prepare, 1), (w_marker, 2), (w_checkpoint, 3), (w_anchor, 4)]"

definition w_json :: jsonlib where
  "w_json = \<lparr>json_Marshal = (\<lambda>r. case map_of w_records r of Some b \<Rightarrow> Inr [b] | None \<Rightarrow> Inl (LibraryError 1)),
     json_Decode = (\<lambda>d. case find (\<lambda>(_, b). d = [b]) w_records of Some (r, _) \<Rightarrow> Inr (journaled r, True) | None \<Rightarrow> Inl (LibraryError 1))\<rparr>"

definition w_env :: "bytes \<Rightarrow> repoEnv" where
  "w_env head = \<lparr>en_H = sha256, en_json = w_json, en_order = (\<lambda>hs. hs), en_snapshotCommit = (\<lambda>_. Inr w_snapshot), en_head = Inr head\<rparr>"

definition w_disk :: disk where
  "w_disk = \<lparr>dk_id = 1, dk_open = Inr (), dk_write = None, dk_flush = Inr (), dk_rename = Inr (), dk_syncDir = Inr ()\<rparr>"

definition w_result :: CommitResult where
  "w_result = \<lparr>cr_Outcome = OutcomeCommitted, cr_Commit = [8], cr_Snapshot = Some w_snapshot\<rparr>"

definition w_writer :: Writer where
  "w_writer = \<lparr>w_repo = 0, w_base = Some w_snapshot, w_expected = w_head, w_objects = [], w_objectOIDs = [], w_retained = None, w_parents = [],
     w_committed = False, w_workingLockHeld = False\<rparr>"

definition w_view :: workingView where
  "w_view = (new_view w_head)\<lparr>vw_snapshot := Some w_snapshot\<rparr>"

lemma w_kinds:
  "jr_Kind w_prepare = KTypedPrepare" "jr_Kind w_marker = KCommit" "jr_Kind w_checkpoint = KCheckpoint"
  "jr_Kind w_anchor = KCheckpoint"
  by (simp_all add: w_prepare_def w_marker_def w_checkpoint_def w_anchor_def typed_prepare_def commit_marker_def checkpoint_marker_def
      anchor_of_def)

lemma w_checkpoint_anchor: "w_checkpoint \<noteq> w_anchor"
proof -
  have "jr_CheckpointedTxIDs w_anchor \<noteq> []"
    by (simp add: w_anchor_def anchor_of_def w_kinds)
  moreover have "jr_CheckpointedTxIDs w_checkpoint = []" by (simp add: w_checkpoint_def checkpoint_marker_def)
  ultimately show ?thesis by metis
qed

lemma w_records_distinct: "distinct (map fst w_records)"
  using w_kinds w_checkpoint_anchor by (auto simp: w_records_def)

lemma w_json_ok: "record_json w_json"
  using w_records_distinct by (auto simp: record_json_def w_json_def w_records_def split: if_splits)

lemma w_fits: "frame_fits w_json w_prepare" "frame_fits w_json w_marker" "frame_fits w_json w_checkpoint" "frame_fits w_json w_anchor"
  using w_records_distinct
  by (auto simp: frame_fits_def w_json_def w_records_def)
    (simp_all add: w_prepare_def w_marker_def w_checkpoint_def w_anchor_def anchor_of_def typed_prepare_def commit_marker_def checkpoint_marker_def)

lemma w_env_simps [simp]:
  "en_json (w_env h) = w_json" "en_head (w_env h) = Inr h" "en_H (w_env h) = sha256" "en_snapshotCommit (w_env h) c = Inr w_snapshot"
  by (simp_all add: w_env_def)

lemma w_view_simps [simp]:
  "vw_generation w_view = 0" "vw_baseCommit w_view = w_head" "vw_snapshot w_view = Some w_snapshot" "vw_writes w_view = None"
  "vw_pendingEdits w_view = []" "vw_dirty w_view = False"
  by (simp_all add: w_view_def new_view_def)

lemma w_at: "journal_at (w_env w_head) w_head [] w_view"
proof -
  have "w_snapshot\<lparr>sn_generation := 0\<rparr> = w_snapshot" by (simp add: w_snapshot_def)
  then have "map_sum id rp_view (full_load (w_env w_head) w_head []) = Inr w_view"
    by (simp add: full_load_def initial_base_def finish_load_def fresh_replay_def reconcileHead_def materialize_def ensureBase_def
        new_view_def w_view_def)
  then show ?thesis by (simp add: journal_at_def journal_dirty_def w_head_def)
qed

lemma w_txs: "tx_records w_head 0 [(w_txid, w_edits 1)] = [w_prepare, w_marker]" "\<forall>tx \<in> set [(w_txid, w_edits 1)]. tx_ok tx"
  by (simp_all add: w_prepare_def w_marker_def tx_ok_def w_txid_def w_edits_def)

lemma w_committed: "journal_at (w_env w_head) w_head [w_prepare, w_marker] (commits sha256 (en_order (w_env w_head)) [w_edits 1] w_view)"
  using journal_at_commits[OF w_at w_txs(2)] w_txs(1) by simp

lemma w_ended: "ended [w_prepare, w_marker]"
  by (simp add: ended_def w_kinds)


section \<open>Concurrent transactions\<close>

text \<open>
  C28. First committer wins. Typed transactions are committed one after the other on a view without
  pending edits. A further transaction that started after the first \<open>i\<close> of them is accepted by
  \<open>writeConflict\<close> exactly when each of its table edits is compatible with each later one: of another
  table, or neither changes the schema and they share no row key and no unique-index claim.
\<close>

theorem writeConflict_first_committer_wins:
  assumes "vw_writes v = None" "vw_pendingEdits v = []" "unat (vw_generation v) + length txs < 2 ^ 64" "i \<le> length txs"
  shows "writeConflict (commits H order txs v) (vw_generation v + of_nat i) edits = Inr () \<longleftrightarrow>
    (\<forall>te \<in> set edits. \<forall>tx \<in> set (drop i txs). \<forall>te' \<in> set tx. compatible te te')"
  by (rule first_committer_wins_commits[OF assms])

theorem writeConflict_first_committer_wins_witness:
  "writeConflict (commits sha256 (\<lambda>hs. hs) [w_edits 1, w_edits 2] w_view) 1 (w_edits 1) = Inr ()
   \<and> writeConflict (commits sha256 (\<lambda>hs. hs) [w_edits 1, w_edits 2] w_view) 1 (w_edits 2) \<noteq> Inr ()"
  using writeConflict_first_committer_wins[of w_view "[w_edits 1, w_edits 2]" 1 sha256 "\<lambda>hs. hs" "w_edits 1"]
    writeConflict_first_committer_wins[of w_view "[w_edits 1, w_edits 2]" 1 sha256 "\<lambda>hs. hs" "w_edits 2"]
  by (simp add: compatible_def w_edits_def ddl_def row_keys_def claim_keys_def)

section \<open>Crashes\<close>

text \<open>
  C29. All or nothing. \<open>CommitTypedEdits\<close> on a journal whose last append may have been torn, with a
  disk that may stop its own append after any byte or fail to flush: a later load from scratch shows the
  whole transaction when \<open>RecoverTransaction\<close> reports it committed, and otherwise the view from before. A
  commit that returns a snapshot is committed, and without disk errors it returns one.
\<close>

theorem CommitTypedEdits_all_or_nothing:
  assumes "record_json (en_json env)" "\<forall>r \<in> set rs. frame_fits (en_json env) r"
    and "journal_at env head rs v" "ended rs" "torn_tail (en_json env) t"
    and "sn_Commit base = sn_Commit (the (vw_snapshot v))" "writeConflict v (sn_generation base) edits = Inr ()"
    and "edits \<noteq> []" "dk_open dk = Inr ()"
    and "g = vw_generation v + 1" "txid = formatUint g @ 0x2D # r" "fresh_tx txid rs"
    and "frame_fits (en_json env) (typed_prepare txid g head edits)" "frame_fits (en_json env) (commit_marker txid g head)"
  shows "\<exists>res c f. CommitTypedEdits env dk (Inr r) (Some base) edits
      (None, Some \<lparr>f_id = i, f_content = journal_bytes (en_json env) rs @ t\<rparr>) = ((res, txid), (c, Some f)) \<and>
    fst (load env None (Some f)) =
      Inr (if wr_Outcome (fst (RecoverTransaction (en_json env) (Some f) txid)) = OutcomeCommitted
           then commit_typed (en_H env) (en_order env) (the (vw_snapshot v)) edits v else v) \<and>
    (\<forall>s. res = Inr s \<longrightarrow> wr_Outcome (fst (RecoverTransaction (en_json env) (Some f) txid)) = OutcomeCommitted \<and>
       vw_snapshot (commit_typed (en_H env) (en_order env) (the (vw_snapshot v)) edits v) = Some s) \<and>
    (dk_write dk = None \<and> dk_flush dk = Inr () \<longrightarrow> \<not> isl res)"
  by (rule CommitTypedEdits_outcome[OF assms])

theorem CommitTypedEdits_all_or_nothing_witness:
  "\<exists>res c f. CommitTypedEdits (w_env w_head) w_disk (Inr [97]) (Some w_snapshot) (w_edits 1)
      (None, Some \<lparr>f_id = 0, f_content = journal_bytes w_json [] @ []\<rparr>) = ((res, w_txid), (c, Some f)) \<and> \<not> isl res"
proof -
  have "writeConflict w_view (sn_generation w_snapshot) (w_edits 1) = Inr ()"
    by (simp add: writeConflict_def w_snapshot_def)
  moreover have "frame_fits w_json (typed_prepare w_txid 1 w_head (w_edits 1))" "frame_fits w_json (commit_marker w_txid 1 w_head)"
    using w_fits by (simp_all add: w_prepare_def w_marker_def)
  ultimately show ?thesis
    using CommitTypedEdits_all_or_nothing[of "w_env w_head" "[]" w_head w_view "[]" w_snapshot "w_edits 1" w_disk 1 w_txid "[97]" 0] w_json_ok w_at
    by (auto simp: ended_def torn_tail_def w_txid_def fresh_tx_def w_disk_def) (auto simp: w_edits_def)
qed

text \<open>
  C30. A process that has the journal cached and finds typed transactions other processes appended since
  replays only those, and has the view a replay of the whole journal gives: the transactions applied in
  order to the view it had.
\<close>

theorem load_from_cache_agrees_with_replay:
  fixes i :: nat
  assumes "record_json (en_json env)" "journal_at env head rs v" "\<forall>tx \<in> set txs. tx_ok tx"
    and "\<forall>r \<in> set (rs @ tx_records head (vw_generation v) txs). frame_fits (en_json env) r"
    and "content = journal_bytes (en_json env) (rs @ tx_records head (vw_generation v) txs)"
    and "c = \<lparr>wc_view = v, wc_info = Some i, wc_offset = length (journal_bytes (en_json env) rs), wc_first = firstHeader content\<rparr>"
  shows "fst (load env (Some c) (Some \<lparr>f_id = i, f_content = content\<rparr>)) = fst (load env None (Some \<lparr>f_id = i, f_content = content\<rparr>))
    \<and> fst (load env None (Some \<lparr>f_id = i, f_content = content\<rparr>)) = Inr (commits (en_H env) (en_order env) (map snd txs) v)"
  using cached_load_agrees[OF assms(1-4)] assms(5,6) by simp

theorem load_from_cache_agrees_with_replay_witness:
  "fst (load (w_env w_head) (Some \<lparr>wc_view = w_view, wc_info = Some 0, wc_offset = 0, wc_first = firstHeader (journal_bytes w_json [w_prepare, w_marker])\<rparr>)
      (Some \<lparr>f_id = 0, f_content = journal_bytes w_json [w_prepare, w_marker]\<rparr>)) = Inr (commits sha256 (en_order (w_env w_head)) [w_edits 1] w_view)"
  using load_from_cache_agrees_with_replay[OF _ w_at w_txs(2) _ refl refl, where i = 0] w_json_ok w_fits w_txs(1)
  by (simp add: journal_bytes_def)

text \<open>
  C31. Compaction: when the journal ends with a checkpoint and loads, replacing it by the checkpoint's
  anchor leaves a journal that loads to the same view.
\<close>

theorem compactLocked_keeps_the_view:
  assumes "record_json (en_json env)" "en_head env = Inr head" "head \<noteq> []"
    and "m = checkpoint_marker g base commit" "\<forall>r \<in> set (rs @ [m]). frame_fits (en_json env) r"
    and "fst (load env None (Some \<lparr>f_id = i, f_content = journal_bytes (en_json env) (rs @ [m])\<rparr>)) = Inr v"
    and "frame_fits (en_json env) (anchor_of m (map journaled (rs @ [m])))" "dk_rename dk = Inr ()" "dk_syncDir dk = Inr ()"
  shows "\<exists>f. compactLocked (en_json env) dk m (Some \<lparr>f_id = i, f_content = journal_bytes (en_json env) (rs @ [m])\<rparr>) = (Inr (), Some f)
    \<and> fst (load env None (Some f)) = Inr v"
  by (rule compaction_keeps_view[OF assms])

lemma w_after_checkpoint:
  "fst (load (w_env [8]) None (Some \<lparr>f_id = i, f_content = journal_bytes w_json ([w_prepare, w_marker] @ [w_checkpoint])\<rparr>)) =
    Inr ((new_view [8])\<lparr>vw_generation := 1, vw_snapshot := Some (w_snapshot\<lparr>sn_generation := 1\<rparr>)\<rparr>)"
proof -
  let ?env = "w_env [8]" and ?rs = "[w_prepare, w_marker]"
  let ?fs = "frames_at w_json 0 ?rs"
  let ?f = "\<lparr>jf_record = journaled w_checkpoint, jf_end = length (journal_bytes w_json ?rs) + length (the_frame w_json w_checkpoint)\<rparr>"
  have frames: "frames_at w_json 0 (?rs @ [w_checkpoint]) = ?fs @ [?f]" by (simp add: frames_at_append Let_def journal_bytes_def)
  have ne: "w_txid \<noteq> []" "w_edits 1 \<noteq> []" "w_head \<noteq> []" by (simp_all add: w_txid_def w_edits_def w_head_def)
  have base: "initial_base (?fs @ [?f]) [8] = w_head"
    by (simp add: initial_base_def Let_def w_prepare_def typed_prepare_def w_head_def)
  obtain rp where rp: "replay_frames ?env True ?fs (fresh_replay w_head) = Inr rp" "vw_generation (rp_view rp) = 1" "rp_pending rp = []"
    using ne by (simp add: Let_def w_prepare_def w_marker_def replay_typed_prepare)
      (simp add: replay_frame_def replay_commit_def commit_marker_def typed_prepare_def fresh_replay_def new_view_def Let_def)
  have f: "jr_Kind (jf_record ?f) = KCheckpoint" "jr_Generation (jf_record ?f) = 1"
    by (simp_all add: w_kinds) (simp add: w_checkpoint_def checkpoint_marker_def)
  have ne_fs: "(?fs = []) = False" by (simp add: Let_def)
  obtain rp' where rp': "replay_frame ?env (?fs = []) ?f rp = Inr rp'"
    using rp ne_fs by (auto simp: replay_frame_def w_checkpoint_def checkpoint_marker_def Let_def)
  have "map_sum id rp_view (full_load ?env [8] (?fs @ [?f])) =
      Inr ((new_view [8])\<lparr>vw_generation := 1, vw_snapshot := Some (w_snapshot\<lparr>sn_generation := 1\<rparr>)\<rparr>)"
    using full_load_checkpoint[OF _ rp' f(1), of "[8]"] rp(1) unfolding base f(2) by (simp add: w_env_def)
  then show ?thesis
    using load_file[of ?env "?rs @ [w_checkpoint]" "[8]" i "length (journal_bytes w_json (?rs @ [w_checkpoint]))"] w_json_ok w_fits
    unfolding frames[symmetric] by (simp add: complete_records_all del: append_Cons frames_at.simps)
qed

theorem compactLocked_keeps_the_view_witness:
  "\<exists>f. compactLocked w_json w_disk w_checkpoint (Some \<lparr>f_id = 0, f_content = journal_bytes w_json ([w_prepare, w_marker] @ [w_checkpoint])\<rparr>) =
      (Inr (), Some f)
    \<and> fst (load (w_env [8]) None (Some f)) = Inr ((new_view [8])\<lparr>vw_generation := 1, vw_snapshot := Some (w_snapshot\<lparr>sn_generation := 1\<rparr>)\<rparr>)"
  using compactLocked_keeps_the_view[of "w_env [8]" "[8]" w_checkpoint 1 w_head "[8]" "[w_prepare, w_marker]" 0 _ w_disk] w_json_ok w_fits
    w_after_checkpoint[of 0] w_anchor_def
  by (simp add: w_checkpoint_def w_disk_def)

text \<open>
  C32. What a checkpoint leaves behind: \<open>CheckpointPrepared\<close> publishes the manifest it is given and marks
  every transaction that the journal holds by then as published. From then on a load shows the
  published commit, at the journal's generation and with no pending edits, and \<open>RecoverTransaction\<close> reports
  each of those transactions as committed. Nothing relates the manifest to the journal: in the witness the
  manifest was prepared before the transaction committed, and the transaction's row is gone.
\<close>

theorem CheckpointPrepared_replaces_the_journal:
  assumes "record_json (en_json env)" "\<forall>r \<in> set rs. frame_fits (en_json env) r"
    and "journal_at env head rs v" "ended rs" "vw_dirty v"
    and "publish (w\<lparr>w_workingLockHeld := True\<rparr>) manifest = (result, None)" "w_repo w = repo" "cr_Snapshot result = Some s"
    and "dk_open dk = Inr ()" "dk_write dk = None" "dk_flush dk = Inr ()" "dk_rename dk = Inr ()" "dk_syncDir dk = Inr ()"
    and "m = checkpoint_marker (vw_generation v) head (cr_Commit result)"
    and "frame_fits (en_json env) m" "frame_fits (en_json env) (anchor_of m (map journaled (rs @ [m])))"
    and "en_json env' = en_json env" "en_head env' = Inr (cr_Commit result)" "cr_Commit result \<noteq> []"
    and "en_snapshotCommit env' (cr_Commit result) = Inr p"
    and "t \<in> set rs" "jr_Kind t = KCommit" "\<not> blank (jr_TxID t)"
  shows "\<exists>c f. CheckpointPrepared publish env repo dk w manifest (None, Some \<lparr>f_id = i, f_content = journal_bytes (en_json env) rs\<rparr>) =
      ((result, None), (Some c, Some f)) \<and>
    fst (load env' None (Some f)) = Inr ((new_view (cr_Commit result))\<lparr>vw_generation := vw_generation v,
      vw_snapshot := Some (p\<lparr>sn_generation := vw_generation v\<rparr>)\<rparr>) \<and>
    wr_Outcome (fst (RecoverTransaction (en_json env) (Some f) (jr_TxID t))) = OutcomeCommitted"
  using checkpoint_replaces_view[OF assms(1-5), of publish w manifest result repo s dk m env' p t i] assms(6-23) by simp

theorem CheckpointPrepared_replaces_the_journal_witness:
  "\<exists>c f. CheckpointPrepared (\<lambda>_ _. (w_result, None)) (w_env w_head) 0 w_disk w_writer (sn_Manifest w_snapshot)
      (None, Some \<lparr>f_id = 0, f_content = journal_bytes w_json [w_prepare, w_marker]\<rparr>) = ((w_result, None), (Some c, Some f))
    \<and> fst (load (w_env [8]) None (Some f)) = Inr ((new_view [8])\<lparr>vw_generation := 1, vw_snapshot := Some (w_snapshot\<lparr>sn_generation := 1\<rparr>)\<rparr>)
    \<and> wr_Outcome (fst (RecoverTransaction w_json (Some f) w_txid)) = OutcomeCommitted"
proof -
  let ?v = "commits sha256 (en_order (w_env w_head)) [w_edits 1] w_view"
  have v: "vw_dirty ?v" "vw_generation ?v = 1" by (simp_all add: commits_def)
  have fits: "\<forall>r \<in> set [w_prepare, w_marker]. frame_fits (en_json (w_env w_head)) r" "frame_fits (en_json (w_env w_head)) w_checkpoint"
    "frame_fits (en_json (w_env w_head)) (anchor_of w_checkpoint (map journaled ([w_prepare, w_marker] @ [w_checkpoint])))"
    using w_fits by (auto simp: w_anchor_def)
  have m: "w_checkpoint = checkpoint_marker (vw_generation ?v) w_head (cr_Commit w_result)" by (simp add: w_checkpoint_def w_result_def v(2))
  have dk: "dk_open w_disk = Inr ()" "dk_write w_disk = None" "dk_flush w_disk = Inr ()" "dk_rename w_disk = Inr ()" "dk_syncDir w_disk = Inr ()"
    by (simp_all add: w_disk_def)
  have js: "record_json (en_json (w_env w_head))" using w_json_ok by simp
  have tx: "jr_TxID w_marker = w_txid" by (simp add: w_marker_def commit_marker_def)
  then have "\<not> blank (jr_TxID w_marker)" using txid_not_blank[of 1] by (simp add: w_txid_def)
  note full = CheckpointPrepared_replaces_the_journal[OF js fits(1) w_committed w_ended v(1) _ _ _ dk m fits(2,3) _ _ _ _ _ w_kinds(2) this,
      where publish = "\<lambda>_ _. (w_result, None)" and w = w_writer and manifest = "sn_Manifest w_snapshot" and repo = 0 and s = w_snapshot
        and i = 0 and env' = "w_env [8]" and p = w_snapshot]
  have "w_repo w_writer = 0" "cr_Snapshot w_result = Some w_snapshot" "cr_Commit w_result = [8]" by (simp_all add: w_writer_def w_result_def)
  then show ?thesis using full v(2) tx by auto
qed

text \<open>
  C33. What a checkpoint does not handle: an append of a crashed process left the magic of a frame at the
  end of the journal. \<open>CheckpointPrepared\<close> publishes, appends its record behind the torn frame, fails to
  compact, and reports success. From then on the journal cannot be loaded.
\<close>

theorem CheckpointPrepared_breaks_torn_journal:
  assumes "record_json (en_json env)" "\<forall>r \<in> set rs. frame_fits (en_json env) r"
    and "journal_at env head rs v" "ended rs" "vw_dirty v" "\<exists>r. frame_fits (en_json env) r"
    and "publish (w\<lparr>w_workingLockHeld := True\<rparr>) manifest = (result, None)" "w_repo w = repo" "cr_Snapshot result = Some s"
    and "dk_open dk = Inr ()" "dk_write dk = None" "dk_flush dk = Inr ()"
    and "frame_fits (en_json env) (checkpoint_marker (vw_generation v) head (cr_Commit result))"
  shows "\<exists>f. CheckpointPrepared publish env repo dk w manifest
      (None, Some \<lparr>f_id = i, f_content = journal_bytes (en_json env) rs @ frameMagic\<rparr>) = ((result, None), (None, Some f)) \<and>
    (\<forall>env'. en_json env' = en_json env \<longrightarrow> fst (load env' None (Some f)) = Inl (JournalError InvalidFrameLength))"
  using torn_checkpoint_unreadable[OF assms(1-6), of publish w manifest result repo s dk i] assms(7-13) by simp

theorem CheckpointPrepared_breaks_torn_journal_witness:
  "\<exists>f. CheckpointPrepared (\<lambda>_ _. (w_result, None)) (w_env w_head) 0 w_disk w_writer (sn_Manifest w_snapshot)
      (None, Some \<lparr>f_id = 0, f_content = journal_bytes w_json [w_prepare, w_marker] @ frameMagic\<rparr>) = ((w_result, None), (None, Some f))
    \<and> fst (load (w_env w_head) None (Some f)) = Inl (JournalError InvalidFrameLength)"
proof -
  let ?v = "commits sha256 (en_order (w_env w_head)) [w_edits 1] w_view"
  have v: "vw_dirty ?v" "vw_generation ?v = 1" by (simp_all add: commits_def)
  have fits: "\<forall>r \<in> set [w_prepare, w_marker]. frame_fits (en_json (w_env w_head)) r" "\<exists>r. frame_fits (en_json (w_env w_head)) r"
    "frame_fits (en_json (w_env w_head)) (checkpoint_marker (vw_generation ?v) w_head (cr_Commit w_result))"
    using w_fits v(2) by (auto simp: w_checkpoint_def w_result_def)
  have dk: "dk_open w_disk = Inr ()" "dk_write w_disk = None" "dk_flush w_disk = Inr ()" by (simp_all add: w_disk_def)
  have js: "record_json (en_json (w_env w_head))" using w_json_ok by simp
  note torn = CheckpointPrepared_breaks_torn_journal[OF js fits(1) w_committed w_ended v(1) fits(2) _ _ _ dk fits(3), where publish = "\<lambda>_ _. (w_result, None)"
      and w = w_writer and manifest = "sn_Manifest w_snapshot" and repo = 0 and s = w_snapshot and i = 0]
  have "w_repo w_writer = 0" "cr_Snapshot w_result = Some w_snapshot" by (simp_all add: w_writer_def w_result_def)
  then show ?thesis using torn by auto
qed

end
