(* ===== verification/Publication.thy ===== *)
theory Publication
  imports Working_State
begin

text \<open>
  Publishing a snapshot as a Git data commit (\<open>common/repository/repository.go\<close>, \<open>snapshotmemo.go\<close>,
  \<open>refstamp.go\<close>): the cached data head, the memo of loaded snapshots, \<open>readSnapshot\<close>, and
  \<open>CommitWithOutcomeMessage\<close> from the inventory check to the verification of the published tree.

  Git itself is a parameter: a record of the operations of \<open>common/git\<close> on an abstract state of the
  object database and the data ref. An operation returns its result and the state it leaves, also when
  it fails. The state of a Git repository may change between two calls; what no code can observe, such
  as the time a lock is held, is left out, and so are the fault injectors of the tests.
\<close>

section \<open>Definitions\<close>

record 'g git =
  git_HashObjects :: "bytes list \<Rightarrow> 'g \<Rightarrow> (error + bytes list) \<times> 'g"
  git_UpdateTree :: "bytes \<Rightarrow> (bytes \<times> bytes) list \<Rightarrow> bytes list \<Rightarrow> 'g \<Rightarrow> (error + bytes) \<times> 'g"
  git_WriteTree :: "(bytes \<times> bytes) list \<Rightarrow> 'g \<Rightarrow> (error + bytes) \<times> 'g"
  git_CommitTreeParents :: "bytes \<Rightarrow> bytes list \<Rightarrow> bytes \<Rightarrow> 'g \<Rightarrow> (error + bytes) \<times> 'g"
  git_UpdateRef :: "bytes \<Rightarrow> bytes \<Rightarrow> 'g \<Rightarrow> (error + unit) \<times> 'g"
  git_ResolveRef :: "'g \<Rightarrow> error + bytes"
  git_IsAncestor :: "bytes \<Rightarrow> bytes \<Rightarrow> 'g \<Rightarrow> error + bool"
  git_ReadTreeFile :: "bytes \<Rightarrow> bytes \<Rightarrow> 'g \<Rightarrow> error + bytes"
  git_ListTreeObjects :: "bytes \<Rightarrow> 'g \<Rightarrow> error + (bytes, bytes) gomap"
  git_stamp :: "'g \<Rightarrow> error + bytes"

text \<open>JSON of a manifest: the decoder also reports whether only white space follows.\<close>

record manifestJson =
  mj_Marshal :: "Manifest \<Rightarrow> error + bytes"
  mj_Decode :: "bytes \<Rightarrow> error + Manifest \<times> bool"

record 'g host =
  ho_H :: "bytes \<Rightarrow> bytes"
  ho_git :: "'g git"
  ho_manifest :: manifestJson
  ho_json :: jsonlib
  ho_lockWorking :: "error + unit"
  ho_lock :: "error + unit"

record snapshotCore =
  co_manifest :: Manifest
  co_objectSet :: "hash list"
  co_objectOIDs :: "(hash, bytes) gomap"
  co_cache :: "(hash, bytes) gomap"

text \<open>
  A repository: Git's state, the cached head with the stamp it was resolved under, the memo of
  snapshots (\<open>None\<close> for a core the garbage collector took), and the journal with its dirty scan.
\<close>

record 'g repository =
  rs_id :: nat
  rs_git :: 'g
  rs_head :: "(bytes \<times> bytes) option"
  rs_memo :: "(bytes, snapshotCore option) gomap"
  rs_scan :: dirtyScan
  rs_journal :: "journalFile option"

subsection \<open>The data head\<close>

definition data_head :: "'g git \<Rightarrow> 'g \<Rightarrow> error + bytes" where
  "data_head G g =
     (case git_ResolveRef G g of
        Inl e \<Rightarrow> if e = RepoError RefNotFound then Inr [] else Inl e
      | Inr h \<Rightarrow> Inr h)"

definition repo_Head :: "'g host \<Rightarrow> 'g repository \<Rightarrow> (error + bytes) \<times> 'g repository" where
  "repo_Head ho rs =
     (case git_stamp (ho_git ho) (rs_git rs) of
        Inl _ \<Rightarrow> (data_head (ho_git ho) (rs_git rs), rs)
      | Inr mark \<Rightarrow>
          (case rs_head rs of
             Some (tip, mark') \<Rightarrow>
               if mark' = mark then (Inr tip, rs)
               else (case data_head (ho_git ho) (rs_git rs) of
                       Inl e \<Rightarrow> (Inl e, rs)
                     | Inr tip \<Rightarrow> (Inr tip, rs\<lparr>rs_head := Some (tip, mark)\<rparr>))
           | None \<Rightarrow>
               (case data_head (ho_git ho) (rs_git rs) of
                  Inl e \<Rightarrow> (Inl e, rs)
                | Inr tip \<Rightarrow> (Inr tip, rs\<lparr>rs_head := Some (tip, mark)\<rparr>))))"

subsection \<open>Paths in a data tree\<close>

definition manifestPath :: bytes where "manifestPath = ascii ''manifest.json''"

definition objectDir :: bytes where "objectDir = ascii ''objects/sha256/''"

definition objectPath :: "hash \<Rightarrow> bytes" where
  "objectPath h = objectDir @ take 2 h @ 0x2F # drop 2 h"

definition has_prefix :: "bytes \<Rightarrow> bytes \<Rightarrow> bool" where
  "has_prefix p s \<longleftrightarrow> take (length p) s = p"

definition path_hash :: "bytes \<Rightarrow> hash" where
  "path_hash path = filter (\<lambda>c. c \<noteq> 0x2F) (if has_prefix objectDir path then drop (length objectDir) path else path)"

subsection \<open>Reading a snapshot\<close>

fun check_inventory :: "hash option \<Rightarrow> hash list \<Rightarrow> error + unit" where
  "check_inventory prev [] = Inr ()"
| "check_inventory prev (h # hs) =
     (if \<not> hash_Valid h then Inl (RepoError InvalidInventoryHash)
      else if (case prev of None \<Rightarrow> False | Some p \<Rightarrow> \<not> p < h) then Inl (RepoError InventoryNotSorted)
      else check_inventory (Some h) hs)"

fun scan_tree :: "(bytes, bytes) gomap \<Rightarrow> bytes list \<Rightarrow> (hash, bytes) gomap \<Rightarrow> error + bytes list \<times> (hash, bytes) gomap" where
  "scan_tree [] expected oids = Inr (expected, oids)"
| "scan_tree ((path, oid) # rest) expected oids =
     (if path \<notin> set expected then Inl (RepoError UnlistedTreeEntry)
      else scan_tree rest (removeAll path expected)
             (if has_prefix objectDir path \<and> hash_Valid (path_hash path) then AList.update (path_hash path) oid oids else oids))"

definition readSnapshot :: "'g host \<Rightarrow> 'g repository \<Rightarrow> bytes \<Rightarrow> error + Snapshot" where
  "readSnapshot ho rs commit =
     (case git_ReadTreeFile (ho_git ho) commit manifestPath (rs_git rs) of
        Inl _ \<Rightarrow> Inl (RepoError CorruptSnapshot)
      | Inr data \<Rightarrow>
          (case mj_Decode (ho_manifest ho) data of
             Inl _ \<Rightarrow> Inl (RepoError CorruptSnapshot)
           | Inr (manifest, alone) \<Rightarrow>
               if \<not> alone then Inl (RepoError TrailingManifest)
               else if mf_FormatVersion manifest \<noteq> FormatVersion then Inl (RepoError UnsupportedFormat)
               else case check_inventory None (mf_Objects manifest) of
                 Inl e \<Rightarrow> Inl e
               | Inr _ \<Rightarrow>
                   (case validateManifestInventory manifest (mf_Objects manifest) of
                      Inl e \<Rightarrow> Inl e
                    | Inr _ \<Rightarrow>
                        (case git_ListTreeObjects (ho_git ho) commit (rs_git rs) of
                           Inl _ \<Rightarrow> Inl (RepoError CorruptSnapshot)
                         | Inr objects \<Rightarrow>
                             (case scan_tree objects (manifestPath # map objectPath (mf_Objects manifest)) [] of
                                Inl e \<Rightarrow> Inl e
                              | Inr (missing, oids) \<Rightarrow>
                                  if missing \<noteq> [] then Inl (RepoError MissingTreeEntries)
                                  else Inr \<lparr>sn_repo = rs_id rs, sn_Commit = commit, sn_generation = 0, sn_Manifest = manifest,
                                            sn_objectSet = mf_Objects manifest, sn_objectOIDs = oids, sn_cache = [], sn_pendingEdits = None\<rparr>)))))"

definition snapshotFromCore :: "nat \<Rightarrow> bytes \<Rightarrow> snapshotCore \<Rightarrow> Snapshot" where
  "snapshotFromCore repo commit core =
     \<lparr>sn_repo = repo, sn_Commit = commit, sn_generation = 0, sn_Manifest = co_manifest core, sn_objectSet = co_objectSet core,
      sn_objectOIDs = co_objectOIDs core, sn_cache = co_cache core, sn_pendingEdits = None\<rparr>"

definition core_of :: "Snapshot \<Rightarrow> snapshotCore" where
  "core_of s = \<lparr>co_manifest = sn_Manifest s, co_objectSet = sn_objectSet s, co_objectOIDs = sn_objectOIDs s, co_cache = sn_cache s\<rparr>"

definition memoizedSnapshot :: "'g repository \<Rightarrow> bytes \<Rightarrow> Snapshot option" where
  "memoizedSnapshot rs commit =
     (case map_of (rs_memo rs) commit of
        Some (Some core) \<Rightarrow> Some (snapshotFromCore (rs_id rs) commit core)
      | _ \<Rightarrow> None)"

definition rememberSnapshot :: "Snapshot \<Rightarrow> 'g repository \<Rightarrow> 'g repository" where
  "rememberSnapshot s rs =
     rs\<lparr>rs_memo := AList.update (sn_Commit s) (Some (core_of s)) (filter (\<lambda>(_, core). core \<noteq> None) (rs_memo rs))\<rparr>"

definition loadSnapshot :: "'g host \<Rightarrow> 'g repository \<Rightarrow> bytes \<Rightarrow> (error + Snapshot) \<times> 'g repository" where
  "loadSnapshot ho rs commit =
     (case memoizedSnapshot rs commit of
        Some s \<Rightarrow> (Inr s, rs)
      | None \<Rightarrow>
          (case readSnapshot ho rs commit of
             Inl e \<Rightarrow> (Inl e, rs)
           | Inr s \<Rightarrow> (Inr (snapshotFromCore (rs_id rs) commit (core_of s)), rememberSnapshot s rs)))"

definition repo_SnapshotCommit :: "'g host \<Rightarrow> 'g repository \<Rightarrow> bytes \<Rightarrow> (error + Snapshot) \<times> 'g repository" where
  "repo_SnapshotCommit ho rs commit =
     (if blank commit then (Inl (RepoError SnapshotCommitRequired), rs) else loadSnapshot ho rs commit)"

definition repo_Current :: "'g host \<Rightarrow> 'g repository \<Rightarrow> (error + Snapshot) \<times> 'g repository" where
  "repo_Current ho rs =
     (case repo_Head ho rs of
        (Inl e, rs) \<Rightarrow> (Inl e, rs)
      | (Inr commit, rs) \<Rightarrow> if commit = [] then (Inl (RepoError ErrNotInitialized), rs) else loadSnapshot ho rs commit)"

definition repo_Begin :: "'g host \<Rightarrow> 'g repository \<Rightarrow> (error + Writer) \<times> 'g repository" where
  "repo_Begin ho rs =
     (case repo_Current ho rs of
        (Inl e, rs) \<Rightarrow> (Inl e, rs)
      | (Inr base, rs) \<Rightarrow> (BeginSnapshot (rs_id rs) (Some base), rs))"

subsection \<open>The locks of a publication\<close>

definition requireCleanJournalLocked :: "'g host \<Rightarrow> 'g repository \<Rightarrow> (error + unit) \<times> 'g repository" where
  "requireCleanJournalLocked ho rs =
     (case journalDirtyLocked (ho_json ho) (rs_scan rs) (rs_journal rs) of
        (Inl e, scan) \<Rightarrow> (Inl e, rs\<lparr>rs_scan := scan\<rparr>)
      | (Inr dirty, scan) \<Rightarrow> (if dirty then Inl (JournalError ErrWorkingStateDirty) else Inr (), rs\<lparr>rs_scan := scan\<rparr>))"

definition lockForPublication :: "'g host \<Rightarrow> bool \<Rightarrow> 'g repository \<Rightarrow> (error + unit) \<times> 'g repository" where
  "lockForPublication ho requireClean rs =
     (case ho_lockWorking ho of
        Inl e \<Rightarrow> (Inl e, rs)
      | Inr _ \<Rightarrow>
          (case (if requireClean then requireCleanJournalLocked ho rs else (Inr (), rs)) of
             (Inl e, rs) \<Rightarrow> (Inl e, rs)
           | (Inr _, rs) \<Rightarrow> (ho_lock ho, rs)))"

subsection \<open>Publication\<close>

text \<open>The inventory of the new snapshot; \<open>inBase\<close> is \<open>baseObjectOID\<close>.\<close>

definition baseObjectOID :: "Writer \<Rightarrow> hash \<Rightarrow> bytes option" where
  "baseObjectOID w h = (case w_base w of None \<Rightarrow> None | Some b \<Rightarrow> map_of (sn_objectOIDs b) h)"

definition publication_manifest :: "(bytes \<Rightarrow> bytes) \<Rightarrow> Writer \<Rightarrow> Manifest \<Rightarrow> error + Manifest \<times> hash list" where
  "publication_manifest H w m =
     (let available = available_objects w
      in case check_available H (\<lambda>h. baseObjectOID w h \<noteq> None) (w_objects w) available of
           Inl e \<Rightarrow> Inl e
         | Inr _ \<Rightarrow>
             let m' = fill_manifest m available
             in (case validateManifestInventory m' available of Inl e \<Rightarrow> Inl e | Inr _ \<Rightarrow> Inr (m', available)))"

text \<open>The Git object a hash already has: in the base, or imported.\<close>

definition known_oid :: "Writer \<Rightarrow> hash \<Rightarrow> bytes" where
  "known_oid w h =
     (let oid = (case w_base w of None \<Rightarrow> [] | Some b \<Rightarrow> index_or_empty (sn_objectOIDs b) h)
      in if oid = [] then index_or_empty (w_objectOIDs w) h else oid)"

definition tree_entries :: "Writer \<Rightarrow> bytes \<Rightarrow> (hash, bytes) gomap \<Rightarrow> hash list \<Rightarrow> (bytes \<times> bytes) list" where
  "tree_entries w manifestOID written objects =
     (manifestPath, manifestOID) #
       map (\<lambda>h. (objectPath h, if known_oid w h = [] then index_or_empty written h else known_oid w h)) objects"

definition snapshotOID :: "(bytes \<times> bytes) list \<Rightarrow> hash \<Rightarrow> bytes" where
  "snapshotOID entries h = index_or_empty entries (objectPath h)"

definition write_snapshot_tree ::
  "'g git \<Rightarrow> Writer \<Rightarrow> hash list \<Rightarrow> (bytes \<times> bytes) list \<Rightarrow> 'g \<Rightarrow> (error + bytes) \<times> 'g" where
  "write_snapshot_tree G w available entries g =
     (case w_base w of
        None \<Rightarrow> git_WriteTree G entries g
      | Some b \<Rightarrow>
          git_UpdateTree G (sn_Commit b)
            (hd entries # map (\<lambda>h. (objectPath h, snapshotOID entries h)) (filter (\<lambda>h. h \<in> set available) (map fst (w_objects w))))
            (map objectPath (filter (\<lambda>h. h \<notin> set available) (mf_Objects (sn_Manifest b)))) g)"

definition defaultMessage :: bytes where "defaultMessage = ascii ''RepoDB snapshot v6''"

text \<open>The objects, the tree and the commit; nothing refers to them before the ref is updated.\<close>

definition write_commit ::
  "'g git \<Rightarrow> Writer \<Rightarrow> Manifest \<Rightarrow> hash list \<Rightarrow> bytes \<Rightarrow> bytes \<Rightarrow> 'g \<Rightarrow> (error + bytes \<times> (bytes \<times> bytes) list) \<times> 'g" where
  "write_commit G w m available manifestData message g =
     (let missing = filter (\<lambda>h. known_oid w h = []) (mf_Objects m)
      in case git_HashObjects G (manifestData # map (index_or_empty (w_objects w)) missing) g of
           (Inl e, g) \<Rightarrow> (Inl e, g)
         | (Inr [], g) \<Rightarrow> (Inl IndexOutOfRange, g)
         | (Inr (manifestOID # oids), g) \<Rightarrow>
             if length oids < length missing then (Inl IndexOutOfRange, g)
             else let entries = tree_entries w manifestOID (zip missing oids) (mf_Objects m)
               in (case write_snapshot_tree G w available entries g of
                     (Inl e, g) \<Rightarrow> (Inl e, g)
                   | (Inr tree, g) \<Rightarrow>
                       let parents = (if w_parents w = [] \<and> w_expected w \<noteq> [] then [w_expected w] else w_parents w)
                       in (case git_CommitTreeParents G tree parents (if blank message then defaultMessage else message) g of
                             (Inl e, g) \<Rightarrow> (Inl e, g)
                           | (Inr commit, g) \<Rightarrow> (Inr (commit, entries), g))))"

definition resolvePublication :: "'g git \<Rightarrow> bytes \<Rightarrow> bytes \<Rightarrow> 'g \<Rightarrow> CommitResult" where
  "resolvePublication G candidate expected g =
     \<lparr>cr_Outcome = (case git_ResolveRef G g of
        Inl _ \<Rightarrow> OutcomeUnknown
      | Inr actual \<Rightarrow> if actual = candidate then OutcomeCommitted else OutcomeRejected), cr_Commit = candidate, cr_Snapshot = None\<rparr>"

text \<open>Moving the data ref: \<open>None\<close> to go on, or what the publication returns.\<close>

definition update_data_ref ::
  "'g git \<Rightarrow> bytes \<Rightarrow> bytes \<Rightarrow> 'g \<Rightarrow> (CommitResult \<times> error option) option \<times> 'g" where
  "update_data_ref G commit expected g =
     (case git_UpdateRef G commit expected g of
        (Inr _, g) \<Rightarrow> (None, g)
      | (Inl e, g) \<Rightarrow>
          (case git_ResolveRef G g of
             Inr actual \<Rightarrow>
               if actual \<noteq> expected then
                 (Some (\<lparr>cr_Outcome = OutcomeRejected, cr_Commit = commit, cr_Snapshot = None\<rparr>, Some (RepoError ErrConflict)), g)
               else let result = resolvePublication G commit expected g
                 in (if cr_Outcome result = OutcomeRejected then Some (result, Some e) else None, g)
           | Inl _ \<Rightarrow>
               (Some (resolvePublication G commit expected g, Some (CommitError OutcomeUnknown (RepoError ErrCommitUnknown))), g)))"

definition verifySnapshotTree :: "'g git \<Rightarrow> Snapshot \<Rightarrow> bytes \<Rightarrow> 'g \<Rightarrow> error + unit" where
  "verifySnapshotTree G s manifestOID g =
     (case git_ListTreeObjects G (sn_Commit s) g of
        Inl e \<Rightarrow> Inl e
      | Inr objects \<Rightarrow>
          if index_or_empty objects manifestPath \<noteq> manifestOID \<or> length objects \<noteq> length (mf_Objects (sn_Manifest s)) + 1
          then Inl (RepoError PublishedInventoryDiffers)
          else if list_ex (\<lambda>(h, oid). index_or_empty objects (objectPath h) \<noteq> oid) (sn_objectOIDs s)
          then Inl (RepoError PublishedObjectDiffers)
          else Inr ())"

definition published_snapshot :: "Writer \<Rightarrow> Manifest \<Rightarrow> hash list \<Rightarrow> bytes \<Rightarrow> (bytes \<times> bytes) list \<Rightarrow> Snapshot" where
  "published_snapshot w m available commit entries =
     \<lparr>sn_repo = w_repo w, sn_Commit = commit, sn_generation = 0, sn_Manifest = m, sn_objectSet = available,
      sn_objectOIDs = fold (\<lambda>(path, oid). AList.update (path_hash path) oid) (tl entries) [],
      sn_cache = fold (\<lambda>(h, data). AList.update h data) (filter (\<lambda>(h, _). h \<in> set available) (w_objects w))
        (case w_base w of None \<Rightarrow> [] | Some b \<Rightarrow> sn_cache b),
      sn_pendingEdits = None\<rparr>"

definition finish_publication ::
  "'g host \<Rightarrow> Snapshot \<Rightarrow> bytes \<Rightarrow> 'g repository \<Rightarrow> (CommitResult \<times> error option) \<times> 'g repository" where
  "finish_publication ho s manifestOID rs =
     (let result = \<lparr>cr_Outcome = OutcomeCommitted, cr_Commit = sn_Commit s, cr_Snapshot = Some s\<rparr>
      in case verifySnapshotTree (ho_git ho) s manifestOID (rs_git rs) of
           Inl e \<Rightarrow> ((result, Some (CommitError OutcomeCommitted e)), rs)
         | Inr _ \<Rightarrow> ((result\<lparr>cr_Snapshot := Some (snapshotFromCore (rs_id rs) (sn_Commit s) (core_of s))\<rparr>, None), rememberSnapshot s rs))"

definition CommitWithOutcomeMessage ::
  "'g host \<Rightarrow> Writer \<Rightarrow> Manifest \<Rightarrow> bytes \<Rightarrow> 'g repository \<Rightarrow> (CommitResult \<times> error option) \<times> Writer \<times> 'g repository" where
  "CommitWithOutcomeMessage ho w m message rs =
     (if w_committed w then ((rejected, Some WriterCommitted), w, rs)
      else let w' = w\<lparr>w_committed := True, w_objects := []\<rparr>; G = ho_git ho
        in case publication_manifest (ho_H ho) w m of
             Inl e \<Rightarrow> ((rejected, Some e), w', rs)
           | Inr (m, available) \<Rightarrow>
               (case mj_Marshal (ho_manifest ho) m of
                  Inl e \<Rightarrow> ((rejected, Some e), w', rs)
                | Inr data \<Rightarrow>
                    (case (if w_workingLockHeld w then (ho_lock ho, rs) else lockForPublication ho True rs) of
                       (Inl e, rs) \<Rightarrow> ((rejected, Some e), w', rs)
                     | (Inr _, rs) \<Rightarrow>
                         (case (if w_expected w = [] then (False, rs)
                                else case repo_Head ho rs of
                                  (Inr tip, rs) \<Rightarrow> (tip \<noteq> w_expected w, rs)
                                | (Inl _, rs) \<Rightarrow> (False, rs)) of
                            (True, rs) \<Rightarrow> ((rejected, Some (RepoError ErrConflict)), w', rs)
                          | (False, rs) \<Rightarrow>
                              (case write_commit G w m available (data @ [0x0A]) message (rs_git rs) of
                                 (Inl e, g) \<Rightarrow> ((rejected, Some e), w', rs\<lparr>rs_git := g\<rparr>)
                               | (Inr (commit, entries), g) \<Rightarrow>
                                   (case update_data_ref G commit (w_expected w) g of
                                      (Some (result, err), g) \<Rightarrow> ((result, err), w', rs\<lparr>rs_git := g\<rparr>)
                                    | (None, g) \<Rightarrow>
                                        (case finish_publication ho (published_snapshot w m available commit entries)
                                                (snd (hd entries)) (rs\<lparr>rs_git := g\<rparr>) of
                                           ((result, err), rs) \<Rightarrow> ((result, err), w', rs))))))))"

definition CommitWithOutcome ::
  "'g host \<Rightarrow> Writer \<Rightarrow> Manifest \<Rightarrow> 'g repository \<Rightarrow> (CommitResult \<times> error option) \<times> Writer \<times> 'g repository" where
  "CommitWithOutcome ho w m rs = CommitWithOutcomeMessage ho w m defaultMessage rs"

definition writer_Commit ::
  "'g host \<Rightarrow> Writer \<Rightarrow> Manifest \<Rightarrow> 'g repository \<Rightarrow> (Snapshot option \<times> error option) \<times> Writer \<times> 'g repository" where
  "writer_Commit ho w m rs =
     (case CommitWithOutcome ho w m rs of ((result, err), w, rs) \<Rightarrow> ((cr_Snapshot result, err), w, rs))"

definition RecoverCommit :: "'g host \<Rightarrow> bytes \<Rightarrow> 'g repository \<Rightarrow> (CommitResult \<times> error option) \<times> 'g repository" where
  "RecoverCommit ho candidate rs =
     (let unknown = \<lparr>cr_Outcome = OutcomeUnknown, cr_Commit = candidate, cr_Snapshot = None\<rparr>;
          found = (case loadSnapshot ho rs candidate of
            (Inl e, rs) \<Rightarrow> ((\<lparr>cr_Outcome = OutcomeCommitted, cr_Commit = candidate, cr_Snapshot = None\<rparr>, Some e), rs)
          | (Inr s, rs) \<Rightarrow> ((\<lparr>cr_Outcome = OutcomeCommitted, cr_Commit = candidate, cr_Snapshot = Some s\<rparr>, None), rs))
      in case git_ResolveRef (ho_git ho) (rs_git rs) of
           Inl e \<Rightarrow> ((unknown, Some e), rs)
         | Inr actual \<Rightarrow>
             if actual = candidate then found
             else case git_IsAncestor (ho_git ho) candidate actual (rs_git rs) of
               Inl e \<Rightarrow> ((unknown, Some e), rs)
             | Inr published \<Rightarrow> if published then found else ((unknown\<lparr>cr_Outcome := OutcomeRejected\<rparr>, None), rs))"

subsection \<open>Fast-forwarding under the lock\<close>

definition FastForwardSnapshot ::
  "'g host \<Rightarrow> bytes \<Rightarrow> Snapshot option \<Rightarrow> 'g repository \<Rightarrow> (error + Snapshot) \<times> 'g repository" where
  "FastForwardSnapshot ho expected snapshot rs =
     (let G = ho_git ho
      in case snapshot of
           None \<Rightarrow> (Inl (RepoError ForeignSnapshot), rs)
         | Some s \<Rightarrow>
             if sn_repo s \<noteq> rs_id rs then (Inl (RepoError ForeignSnapshot), rs)
             else case requireCleanJournalLocked ho rs of
               (Inl e, rs) \<Rightarrow> (Inl e, rs)
             | (Inr _, rs) \<Rightarrow>
                 (case data_head G (rs_git rs) of
                    Inl e \<Rightarrow> (Inl e, rs)
                  | Inr actual \<Rightarrow>
                      if actual \<noteq> expected then (Inl (RepoError ErrConflict), rs)
                      else if actual = sn_Commit s then (Inr s, rs)
                      else case (if actual = [] then Inr True else git_IsAncestor G actual (sn_Commit s) (rs_git rs)) of
                        Inl e \<Rightarrow> (Inl e, rs)
                      | Inr forward \<Rightarrow>
                          if \<not> forward then (Inl (RepoError NotFastForward), rs)
                          else case git_UpdateRef G (sn_Commit s) actual (rs_git rs) of
                            (Inr _, g) \<Rightarrow> (Inr s, rs\<lparr>rs_git := g\<rparr>)
                          | (Inl e, g) \<Rightarrow>
                              (case data_head G g of
                                 Inr now \<Rightarrow> (Inl (if now \<noteq> actual then RepoError ErrConflict else e), rs\<lparr>rs_git := g\<rparr>)
                               | Inl _ \<Rightarrow> (Inl e, rs\<lparr>rs_git := g\<rparr>))))"

definition FastForward :: "'g host \<Rightarrow> bytes \<Rightarrow> bytes \<Rightarrow> 'g repository \<Rightarrow> (error + Snapshot) \<times> 'g repository" where
  "FastForward ho expected target rs =
     (case loadSnapshot ho rs target of
        (Inl e, rs) \<Rightarrow> (Inl e, rs)
      | (Inr s, rs) \<Rightarrow> FastForwardSnapshot ho expected (Some s) rs)"

end
