(* ===== verification/Publication_Correct.thy ===== *)
theory Publication_Correct
  imports Publication
begin

text \<open>
  Publication is correct: what it relies on of Git, stated as laws over the blobs and trees of the object
  database, that a published snapshot reads back as it was published, and when the data ref moves.
\<close>

section \<open>Paths\<close>

lemma length_objectDir: "length objectDir = 15"
  by (simp add: objectDir_def ascii_def)

lemma hash_Valid_parts:
  assumes "hash_Valid h"
  shows "length h = 64" "0x2F \<notin> set h"
  using assms by (auto simp: hash_Valid_def list_all_iff hash_char_def)

lemma objectPath_inj: "hash_Valid h \<Longrightarrow> hash_Valid h' \<Longrightarrow> objectPath h = objectPath h' \<longleftrightarrow> h = h'"
proof
  assume valid: "hash_Valid h" "hash_Valid h'" and "objectPath h = objectPath h'"
  then have "take 2 h = take 2 h' \<and> drop 2 h = drop 2 h'"
    using hash_Valid_parts(1)[OF valid(1)] hash_Valid_parts(1)[OF valid(2)] by (auto simp: objectPath_def)
  then show "h = h'" by (metis append_take_drop_id)
qed simp

lemma objectPath_manifest [simp]: "objectPath h \<noteq> manifestPath" "manifestPath \<noteq> objectPath h"
  by (auto simp: objectPath_def objectDir_def manifestPath_def ascii_def)

lemma objectPath_prefix: "has_prefix objectDir (objectPath h)"
  by (simp add: has_prefix_def objectPath_def)

lemma path_hash_objectPath: "hash_Valid h \<Longrightarrow> path_hash (objectPath h) = h"
proof -
  assume "hash_Valid h"
  note h = hash_Valid_parts[OF this]
  have "filter (\<lambda>c. c \<noteq> 0x2F) (take 2 h) = take 2 h" "filter (\<lambda>c. c \<noteq> 0x2F) (drop 2 h) = drop 2 h"
    using h(2) by (auto simp: filter_id_conv dest: in_set_takeD in_set_dropD)
  then show ?thesis using objectPath_prefix[of h] by (simp add: path_hash_def objectPath_def)
qed

lemma manifest_no_prefix: "\<not> has_prefix objectDir manifestPath"
  by (simp add: has_prefix_def objectDir_def manifestPath_def ascii_def)

section \<open>The tree of a snapshot\<close>

definition tree_of :: "bytes \<Rightarrow> (hash \<Rightarrow> bytes) \<Rightarrow> hash list \<Rightarrow> bytes \<rightharpoonup> bytes" where
  "tree_of mo oid hs = map_of ((manifestPath, mo) # map (\<lambda>h. (objectPath h, oid h)) hs)"

lemma tree_of_manifest [simp]: "tree_of mo oid hs manifestPath = Some mo"
  by (simp add: tree_of_def)

lemma tree_of_object:
  assumes "h \<in> set hs" "\<forall>h \<in> set hs. hash_Valid h"
  shows "tree_of mo oid hs (objectPath h) = Some (oid h)"
  using assms
proof (induction hs)
  case (Cons a hs)
  have "hash_Valid h" "hash_Valid a" using Cons.prems by auto
  then show ?case using Cons objectPath_inj[of a h] by (cases "a = h") (auto simp: tree_of_def)
qed simp

lemma tree_of_dom: "dom (tree_of mo oid hs) = insert manifestPath (objectPath ` set hs)"
  by (simp add: tree_of_def dom_map_of_conv_image_fst image_image)

lemma tree_of_eqI:
  assumes "\<forall>h \<in> set hs. hash_Valid h" "t manifestPath = Some mo" "\<And>h. h \<in> set hs \<Longrightarrow> t (objectPath h) = Some (oid h)"
    and "\<And>p. p \<in> dom t \<Longrightarrow> p = manifestPath \<or> (\<exists>h \<in> set hs. p = objectPath h)"
  shows "t = tree_of mo oid hs"
proof
  fix p
  show "t p = tree_of mo oid hs p"
  proof (cases "p \<in> dom t")
    case True
    then consider "p = manifestPath" | h where "h \<in> set hs" "p = objectPath h" using assms(4) by blast
    then show ?thesis using assms(2,3) tree_of_object[OF _ assms(1)] by cases auto
  next
    case False
    then have "p \<notin> dom (tree_of mo oid hs)" using assms(2,3) by (auto simp: tree_of_dom)
    then show ?thesis using False by (metis domIff)
  qed
qed

text \<open>Reading a tree back: the scan accepts it and recovers the object ids.\<close>

lemma scan_tree_spec:
  assumes "distinct (map fst objects)" "fst ` set objects \<subseteq> set expected"
  shows "\<exists>oids'. scan_tree objects expected oids = Inr (filter (\<lambda>p. p \<notin> fst ` set objects) expected, oids')
    \<and> map_of oids' = fold (\<lambda>(p, oid) m. if has_prefix objectDir p \<and> hash_Valid (path_hash p) then m(path_hash p \<mapsto> oid) else m) objects (map_of oids)"
  using assms
proof (induction objects arbitrary: expected oids)
  case (Cons x objects)
  obtain p oid where x: "x = (p, oid)" by (cases x)
  let ?oids = "if has_prefix objectDir p \<and> hash_Valid (path_hash p) then AList.update (path_hash p) oid oids else oids"
  have "fst ` set objects \<subseteq> set (removeAll p expected)" using Cons.prems by (auto simp: x)
  then obtain oids' where "scan_tree objects (removeAll p expected) ?oids =
        Inr (filter (\<lambda>q. q \<notin> fst ` set objects) (removeAll p expected), oids')"
      "map_of oids' = fold (\<lambda>(p, oid) m. if has_prefix objectDir p \<and> hash_Valid (path_hash p) then m(path_hash p \<mapsto> oid) else m) objects
        (map_of ?oids)"
    using Cons.IH[of "removeAll p expected" ?oids] Cons.prems(1) by auto
  moreover have "filter (\<lambda>q. q \<notin> fst ` set objects) (removeAll p expected) = filter (\<lambda>q. q \<notin> fst ` set (x # objects)) expected"
    by (auto simp: x removeAll_filter_not_eq intro!: filter_cong)
  ultimately show ?case using Cons.prems(2) by (auto simp: x update_conv')
qed simp

lemma fold_oids:
  assumes "distinct (map fst objects)" "\<forall>p \<in> fst ` set objects. p = manifestPath \<or> (\<exists>h \<in> set hs. p = objectPath h)" "\<forall>h \<in> set hs. hash_Valid h"
  shows "fold (\<lambda>(p, oid) m. if has_prefix objectDir p \<and> hash_Valid (path_hash p) then m(path_hash p \<mapsto> oid) else m) objects m h =
    (if h \<in> set hs \<and> objectPath h \<in> fst ` set objects then map_of objects (objectPath h) else m h)"
  using assms(1,2)
proof (induction objects arbitrary: m)
  case (Cons x objects)
  obtain p oid where x: "x = (p, oid)" by (cases x)
  have IH: "fold (\<lambda>(p, oid) m. if has_prefix objectDir p \<and> hash_Valid (path_hash p) then m(path_hash p \<mapsto> oid) else m) objects m h =
    (if h \<in> set hs \<and> objectPath h \<in> fst ` set objects then map_of objects (objectPath h) else m h)" for m
    using Cons by auto
  consider "p = manifestPath" | h' where "h' \<in> set hs" "p = objectPath h'" using Cons.prems(2) x by auto
  then show ?case
  proof cases
    case 1
    then show ?thesis using manifest_no_prefix by (simp add: x IH)
  next
    case (2 h')
    then have "hash_Valid h'" using assms(3) by blast
    moreover have "objectPath h = objectPath h' \<longleftrightarrow> h = h'" if "h \<in> set hs"
      using that calculation assms(3) objectPath_inj by blast
    ultimately show ?thesis
      using 2 Cons.prems(1) by (auto simp: x IH path_hash_objectPath objectPath_prefix)
  qed
qed simp

lemma check_inventory_sorted:
  assumes "sorted_wrt (<) hs" "\<forall>h \<in> set hs. hash_Valid h" "case prev of None \<Rightarrow> True | Some p \<Rightarrow> \<forall>h \<in> set hs. p < h"
  shows "check_inventory prev hs = Inr ()"
  using assms by (induction hs arbitrary: prev) (auto split: option.splits)

section \<open>What is required of Git\<close>

text \<open>
  \<open>blob\<close> and \<open>tree\<close> read the object database: the contents of a blob, and the paths and blobs of a tree
  or of a commit's tree. Objects are never removed or changed. Only \<open>update-ref\<close> touches the data ref, and
  it moves it from the expected old value only; when it reports an error, the ref may have moved before.
\<close>

definition git_keeps :: "('g \<Rightarrow> bytes \<Rightarrow> bytes option) \<Rightarrow> ('g \<Rightarrow> bytes \<Rightarrow> (bytes \<rightharpoonup> bytes) option) \<Rightarrow> 'g \<Rightarrow> 'g \<Rightarrow> bool" where
  "git_keeps blob tree g g' \<longleftrightarrow> (\<forall>oid d. blob g oid = Some d \<longrightarrow> blob g' oid = Some d) \<and> (\<forall>c t. tree g c = Some t \<longrightarrow> tree g' c = Some t)"

definition hash_objects_law :: "'g git \<Rightarrow> ('g \<Rightarrow> bytes \<Rightarrow> bytes option) \<Rightarrow> ('g \<Rightarrow> bytes \<Rightarrow> (bytes \<rightharpoonup> bytes) option) \<Rightarrow> bool" where
  "hash_objects_law G blob tree \<longleftrightarrow>
     (\<forall>ds g res g'. git_HashObjects G ds g = (res, g') \<longrightarrow> git_keeps blob tree g g' \<and> git_ResolveRef G g' = git_ResolveRef G g
        \<and> (\<forall>oids. res = Inr oids \<longrightarrow> list_all2 (\<lambda>d oid. oid \<noteq> [] \<and> blob g' oid = Some d) ds oids))"

definition update_tree_law :: "'g git \<Rightarrow> ('g \<Rightarrow> bytes \<Rightarrow> bytes option) \<Rightarrow> ('g \<Rightarrow> bytes \<Rightarrow> (bytes \<rightharpoonup> bytes) option) \<Rightarrow> bool" where
  "update_tree_law G blob tree \<longleftrightarrow>
     (\<forall>c ups dels g res g'. git_UpdateTree G c ups dels g = (res, g') \<longrightarrow> git_keeps blob tree g g' \<and> git_ResolveRef G g' = git_ResolveRef G g
        \<and> (\<forall>t t0. res = Inr t \<longrightarrow> tree g c = Some t0 \<longrightarrow> distinct (map fst ups) \<longrightarrow> tree g' t = Some ((t0 ++ map_of ups) |` (- set dels))))"

definition write_tree_law :: "'g git \<Rightarrow> ('g \<Rightarrow> bytes \<Rightarrow> bytes option) \<Rightarrow> ('g \<Rightarrow> bytes \<Rightarrow> (bytes \<rightharpoonup> bytes) option) \<Rightarrow> bool" where
  "write_tree_law G blob tree \<longleftrightarrow>
     (\<forall>es g res g'. git_WriteTree G es g = (res, g') \<longrightarrow> git_keeps blob tree g g' \<and> git_ResolveRef G g' = git_ResolveRef G g
        \<and> (\<forall>t. res = Inr t \<longrightarrow> distinct (map fst es) \<longrightarrow> tree g' t = Some (map_of es)))"

definition commit_tree_law :: "'g git \<Rightarrow> ('g \<Rightarrow> bytes \<Rightarrow> bytes option) \<Rightarrow> ('g \<Rightarrow> bytes \<Rightarrow> (bytes \<rightharpoonup> bytes) option) \<Rightarrow> bool" where
  "commit_tree_law G blob tree \<longleftrightarrow>
     (\<forall>t ps msg g res g'. git_CommitTreeParents G t ps msg g = (res, g') \<longrightarrow> git_keeps blob tree g g' \<and> git_ResolveRef G g' = git_ResolveRef G g
        \<and> (\<forall>c t0. res = Inr c \<longrightarrow> tree g t = Some t0 \<longrightarrow> tree g' c = Some t0))"

definition update_ref_law :: "'g git \<Rightarrow> ('g \<Rightarrow> bytes \<Rightarrow> bytes option) \<Rightarrow> ('g \<Rightarrow> bytes \<Rightarrow> (bytes \<rightharpoonup> bytes) option) \<Rightarrow> bool" where
  "update_ref_law G blob tree \<longleftrightarrow>
     (\<forall>new old g res g'. git_UpdateRef G new old g = (res, g') \<longrightarrow> git_keeps blob tree g g'
        \<and> (git_ResolveRef G g' = git_ResolveRef G g \<and> isl res \<or> git_ResolveRef G g' = Inr new \<and> data_head G g = Inr old))"

definition git_writes :: "'g git \<Rightarrow> ('g \<Rightarrow> bytes \<Rightarrow> bytes option) \<Rightarrow> ('g \<Rightarrow> bytes \<Rightarrow> (bytes \<rightharpoonup> bytes) option) \<Rightarrow> bool" where
  "git_writes G blob tree \<longleftrightarrow> hash_objects_law G blob tree \<and> update_tree_law G blob tree \<and> 
     write_tree_law G blob tree \<and> commit_tree_law G blob tree \<and> update_ref_law G blob tree"

definition git_reads :: "'g git \<Rightarrow> ('g \<Rightarrow> bytes \<Rightarrow> bytes option) \<Rightarrow> ('g \<Rightarrow> bytes \<Rightarrow> (bytes \<rightharpoonup> bytes) option) \<Rightarrow> bool" where
  "git_reads G blob tree \<longleftrightarrow>
     (\<forall>c g t. tree g c = Some t \<longrightarrow> (\<exists>m. git_ListTreeObjects G c g = Inr m \<and> distinct (map fst m) \<and> map_of m = t))
   \<and> (\<forall>c p g t oid d. tree g c = Some t \<longrightarrow> t p = Some oid \<longrightarrow> blob g oid = Some d \<longrightarrow> git_ReadTreeFile G c p g = Inr d)"

lemma git_keeps_refl [simp]: "git_keeps blob tree g g"
  by (simp add: git_keeps_def)

lemma git_keeps_trans: "git_keeps blob tree g g' \<Longrightarrow> git_keeps blob tree g' g'' \<Longrightarrow> git_keeps blob tree g g''"
  by (simp add: git_keeps_def)

lemma git_keeps_blob: "git_keeps blob tree g g' \<Longrightarrow> blob g oid = Some d \<Longrightarrow> blob g' oid = Some d"
  by (simp add: git_keeps_def)

lemma git_keeps_tree: "git_keeps blob tree g g' \<Longrightarrow> tree g c = Some t \<Longrightarrow> tree g' c = Some t"
  by (simp add: git_keeps_def)

section \<open>Reading a snapshot back\<close>

lemma readSnapshot_complete:
  assumes reads: "git_reads (ho_git ho) blob tree"
    and git: "tree (rs_git rs) c = Some (tree_of mo oid (mf_Objects m))" "blob (rs_git rs) mo = Some data"
    and json: "mj_Decode (ho_manifest ho) data = Inr (m, True)"
    and m: "mf_FormatVersion m = FormatVersion" "sorted_wrt (<) (mf_Objects m)" "\<forall>h \<in> set (mf_Objects m). hash_Valid h"
      "validateManifestInventory m (mf_Objects m) = Inr ()"
  shows "\<exists>oids. readSnapshot ho rs c = Inr \<lparr>sn_repo = rs_id rs, sn_Commit = c, sn_generation = 0, sn_Manifest = m,
      sn_objectSet = mf_Objects m, sn_objectOIDs = oids, sn_cache = [], sn_pendingEdits = None\<rparr>
    \<and> map_of oids = (\<lambda>h. if h \<in> set (mf_Objects m) then Some (oid h) else None)"
proof -
  let ?hs = "mf_Objects m"
  obtain objects where objects: "git_ListTreeObjects (ho_git ho) c (rs_git rs) = Inr objects" "distinct (map fst objects)"
      "map_of objects = tree_of mo oid ?hs"
    using reads git(1) unfolding git_reads_def by metis
  have paths: "fst ` set objects = insert manifestPath (objectPath ` set ?hs)"
    using objects(3) tree_of_dom by (metis dom_map_of_conv_image_fst)
  have listed: "\<forall>p \<in> fst ` set objects. p = manifestPath \<or> (\<exists>h \<in> set ?hs. p = objectPath h)" using paths by auto
  let ?expected = "manifestPath # map objectPath ?hs"
  obtain oids where oids: "scan_tree objects ?expected [] = Inr (filter (\<lambda>p. p \<notin> fst ` set objects) ?expected, oids)"
      "map_of oids = fold (\<lambda>(p, oid) m. if has_prefix objectDir p \<and> hash_Valid (path_hash p) then m(path_hash p \<mapsto> oid) else m) objects (map_of [])"
    using scan_tree_spec[OF objects(2), of ?expected "[]"] paths by auto
  have "filter (\<lambda>p. p \<notin> fst ` set objects) ?expected = []" using paths by (auto simp: filter_empty_conv)
  moreover have "map_of oids h = (if h \<in> set ?hs then Some (oid h) else None)" for h
    using fold_oids[OF objects(2) listed m(3), of "map_of []" h] paths tree_of_object[OF _ m(3), of h mo oid]
    by (simp add: oids(2) objects(3))
  moreover have "git_ReadTreeFile (ho_git ho) c manifestPath (rs_git rs) = Inr data"
    using reads git tree_of_manifest[of mo oid ?hs] unfolding git_reads_def by blast
  moreover have "check_inventory None ?hs = Inr ()" using check_inventory_sorted[OF m(2,3)] by simp
  ultimately show ?thesis using json m(1,4) objects(1) oids(1) by (auto simp: readSnapshot_def)
qed

section \<open>The commit of a publication\<close>

definition backed :: "(bytes \<Rightarrow> bytes) \<Rightarrow> ('g \<Rightarrow> bytes \<Rightarrow> bytes option) \<Rightarrow> 'g \<Rightarrow> hash \<Rightarrow> bytes \<Rightarrow> bool" where
  "backed H blob g h oid \<longleftrightarrow> oid \<noteq> [] \<and> (\<exists>d. blob g oid = Some d \<and> storage_Sum H d = h)"

text \<open>A snapshot whose commit is in the object database, every listed object with the bytes its name says.\<close>

definition snapshot_at ::
  "(bytes \<Rightarrow> bytes) \<Rightarrow> ('g \<Rightarrow> bytes \<Rightarrow> bytes option) \<Rightarrow> ('g \<Rightarrow> bytes \<Rightarrow> (bytes \<rightharpoonup> bytes) option) \<Rightarrow> 'g \<Rightarrow> Snapshot \<Rightarrow> bool" where
  "snapshot_at H blob tree g s \<longleftrightarrow>
     (\<exists>mo. tree g (sn_Commit s) = Some (tree_of mo (index_or_empty (sn_objectOIDs s)) (mf_Objects (sn_Manifest s))))
     \<and> sorted_wrt (<) (mf_Objects (sn_Manifest s)) \<and> dom (map_of (sn_objectOIDs s)) = set (mf_Objects (sn_Manifest s))
     \<and> (\<forall>h \<in> set (mf_Objects (sn_Manifest s)). hash_Valid h \<and> backed H blob g h (index_or_empty (sn_objectOIDs s) h))"

definition writer_at ::
  "(bytes \<Rightarrow> bytes) \<Rightarrow> ('g \<Rightarrow> bytes \<Rightarrow> bytes option) \<Rightarrow> ('g \<Rightarrow> bytes \<Rightarrow> (bytes \<rightharpoonup> bytes) option) \<Rightarrow> 'g \<Rightarrow> Writer \<Rightarrow> bool" where
  "writer_at H blob tree g w \<longleftrightarrow> (\<forall>b. w_base w = Some b \<longrightarrow> snapshot_at H blob tree g b)
     \<and> distinct (map fst (w_objects w))
     \<and> (\<forall>h. index_or_empty (w_objectOIDs w) h \<noteq> [] \<longrightarrow> backed H blob g h (index_or_empty (w_objectOIDs w) h))"

lemma backed_keeps: "git_keeps blob tree g g' \<Longrightarrow> backed H blob g h oid \<Longrightarrow> backed H blob g' h oid"
  by (auto simp: backed_def git_keeps_def)

lemma check_available_Inr:
  "check_available H P new hs = Inr () \<longleftrightarrow>
    (\<forall>h \<in> set hs. (P h \<or> map_of new h \<noteq> None) \<and> (\<forall>d. map_of new h = Some d \<longrightarrow> storage_Sum H d = h))"
  by (induction hs) (auto split: option.splits)

lemma sortedHashSet_simps: "set (sortedHashSet hs) = set hs" "sorted_wrt (<) (sortedHashSet hs)"
  by (simp_all add: sortedHashSet_def strict_sorted_iff)

lemma publication_manifest_Inr:
  assumes "publication_manifest H w m0 = Inr (m, available)"
  shows "available = available_objects w" "m = fill_manifest m0 available" "validateManifestInventory m available = Inr ()"
    "mf_Objects m = sortedHashSet available"
    "\<forall>h \<in> set available. (baseObjectOID w h \<noteq> None \<or> map_of (w_objects w) h \<noteq> None)
       \<and> (\<forall>d. map_of (w_objects w) h = Some d \<longrightarrow> storage_Sum H d = h)"
  using assms by (auto simp: publication_manifest_def Let_def fill_manifest_def check_available_Inr split: sum.splits)

text \<open>What is known of an object of the inventory: it has an object id already, or the writer has its bytes.\<close>

lemma known_oid_backed:
  assumes "writer_at H blob tree g w" "known_oid w h \<noteq> []"
  shows "backed H blob g h (known_oid w h)"
proof (cases "case w_base w of None \<Rightarrow> [] | Some b \<Rightarrow> index_or_empty (sn_objectOIDs b) h")
  case Nil
  then show ?thesis using assms by (simp add: known_oid_def writer_at_def)
next
  case (Cons c cs)
  then obtain b where b: "w_base w = Some b" "index_or_empty (sn_objectOIDs b) h \<noteq> []" by (auto split: option.splits)
  then have "h \<in> dom (map_of (sn_objectOIDs b))" by (auto simp: index_or_empty_def split: option.splits)
  then show ?thesis using assms b by (auto simp: writer_at_def snapshot_at_def known_oid_def)
qed

lemma known_oid_base:
  assumes "writer_at H blob tree g w" "w_base w = Some b" "h \<in> set (mf_Objects (sn_Manifest b))"
  shows "known_oid w h = index_or_empty (sn_objectOIDs b) h"
  using assms by (auto simp: writer_at_def snapshot_at_def known_oid_def backed_def)

lemma available_valid:
  assumes "digest32 H" "writer_at H blob tree g w" "publication_manifest H w m0 = Inr (m, available)" "h \<in> set available"
  shows "hash_Valid h"
proof (cases "map_of (w_objects w) h")
  case None
  then obtain b where b: "w_base w = Some b" "map_of (sn_objectOIDs b) h \<noteq> None"
    using publication_manifest_Inr(5)[OF assms(3)] assms(4) by (auto simp: baseObjectOID_def split: option.splits)
  then have "h \<in> set (mf_Objects (sn_Manifest b))" using assms(2) by (auto simp: writer_at_def snapshot_at_def)
  then show ?thesis using b assms(2) by (auto simp: writer_at_def snapshot_at_def)
next
  case (Some d)
  then have "storage_Sum H d = h" using publication_manifest_Inr(5)[OF assms(3)] assms(4) by blast
  then show ?thesis using digest32.hash_Valid_Sum[OF assms(1), of d] by simp
qed

lemma updated_tree:
  assumes base: "w_base w = Some b" "snapshot_at H blob tree g b"
    and valid: "\<forall>h \<in> set hs. hash_Valid h" and hs: "set hs = set available"
    and entries: "map_of entries = tree_of mo oid hs" "hd entries = (manifestPath, mo)"
    and oids: "\<And>h. h \<in> set hs \<Longrightarrow> map_of (w_objects w) h = None \<Longrightarrow>
      h \<in> set (mf_Objects (sn_Manifest b)) \<and> oid h = index_or_empty (sn_objectOIDs b) h"
  shows "(tree_of mo0 (index_or_empty (sn_objectOIDs b)) (mf_Objects (sn_Manifest b)) ++
      map_of (hd entries # map (\<lambda>h. (objectPath h, snapshotOID entries h)) (filter (\<lambda>h. h \<in> set available) (map fst (w_objects w))))) |`
      (- set (map objectPath (filter (\<lambda>h. h \<notin> set available) (mf_Objects (sn_Manifest b))))) = tree_of mo oid hs"
    (is "(?t0 ++ map_of ?ups) |` (- set ?dels) = _")
proof (rule tree_of_eqI[OF valid])
  let ?bs = "mf_Objects (sn_Manifest b)"
  have bvalid: "\<forall>h \<in> set ?bs. hash_Valid h" using base(2) by (auto simp: snapshot_at_def)
  have ups: "?ups = (manifestPath, mo) # map (\<lambda>h. (objectPath h, oid h)) (filter (\<lambda>h. h \<in> set available) (map fst (w_objects w)))"
    using tree_of_object[OF _ valid] hs by (simp add: entries snapshotOID_def index_or_empty_def)
  have dels: "objectPath h \<notin> set ?dels" if "h \<in> set hs" for h
    using that valid bvalid hs objectPath_inj by fastforce
  have new: "map_of ?ups = tree_of mo oid (filter (\<lambda>h. h \<in> set available) (map fst (w_objects w)))"
    unfolding ups tree_of_def ..
  show "((?t0 ++ map_of ?ups) |` (- set ?dels)) manifestPath = Some mo"
    unfolding new by (auto simp: map_add_def restrict_map_def)
  show "((?t0 ++ map_of ?ups) |` (- set ?dels)) (objectPath h) = Some (oid h)" if h: "h \<in> set hs" for h
  proof (cases "map_of (w_objects w) h")
    case (Some d)
    then have "h \<in> set (filter (\<lambda>h. h \<in> set available) (map fst (w_objects w)))"
      using h hs by (auto dest: map_of_SomeD intro!: image_eqI)
    moreover have "\<forall>h \<in> set (filter (\<lambda>h. h \<in> set available) (map fst (w_objects w))). hash_Valid h" using valid hs by auto
    ultimately show ?thesis using tree_of_object dels[OF h] unfolding new by (simp add: map_add_def restrict_map_def)
  next
    case None
    have "objectPath h \<notin> dom (map_of ?ups)"
    proof
      assume "objectPath h \<in> dom (map_of ?ups)"
      then obtain h' where "h' \<in> set available" "h' \<in> fst ` set (w_objects w)" "objectPath h = objectPath h'"
        unfolding new tree_of_dom by auto
      then have "h = h'" using h valid hs objectPath_inj by blast
      then show False using None \<open>h' \<in> fst ` set (w_objects w)\<close> by (simp add: map_of_eq_None_iff)
    qed
    then show ?thesis
      using oids[OF h None] tree_of_object[OF _ bvalid] dels[OF h] by (auto simp: map_add_def restrict_map_def domIff)
  qed
  show "p = manifestPath \<or> (\<exists>h \<in> set hs. p = objectPath h)" if p: "p \<in> dom ((?t0 ++ map_of ?ups) |` (- set ?dels))" for p
  proof -
    have "p \<notin> set ?dels" "p \<in> dom ?t0 \<or> p \<in> dom (map_of ?ups)" using p unfolding dom_restrict dom_map_add by blast+
    then show ?thesis using hs unfolding new tree_of_dom by auto
  qed
qed

text \<open>The laws of each write, ready for use.\<close>

lemma HashObjects_law:
  "git_writes G blob tree \<Longrightarrow> git_HashObjects G ds g = (res, g') \<Longrightarrow> git_keeps blob tree g g' \<and> git_ResolveRef G g' = git_ResolveRef G g
    \<and> (\<forall>oids. res = Inr oids \<longrightarrow> list_all2 (\<lambda>d oid. oid \<noteq> [] \<and> blob g' oid = Some d) ds oids)"
  unfolding git_writes_def by (elim conjE) (unfold hash_objects_law_def, blast)

lemma UpdateTree_law:
  "git_writes G blob tree \<Longrightarrow> git_UpdateTree G c ups dels g = (res, g') \<Longrightarrow> git_keeps blob tree g g' \<and> git_ResolveRef G g' = git_ResolveRef G g
    \<and> (\<forall>t t0. res = Inr t \<longrightarrow> tree g c = Some t0 \<longrightarrow> distinct (map fst ups) \<longrightarrow> tree g' t = Some ((t0 ++ map_of ups) |` (- set dels)))"
  unfolding git_writes_def by (elim conjE) (unfold update_tree_law_def, blast)

lemma WriteTree_law:
  "git_writes G blob tree \<Longrightarrow> git_WriteTree G es g = (res, g') \<Longrightarrow> git_keeps blob tree g g' \<and> git_ResolveRef G g' = git_ResolveRef G g
    \<and> (\<forall>t. res = Inr t \<longrightarrow> distinct (map fst es) \<longrightarrow> tree g' t = Some (map_of es))"
  unfolding git_writes_def by (elim conjE) (unfold write_tree_law_def, blast)

lemma CommitTreeParents_law:
  "git_writes G blob tree \<Longrightarrow> git_CommitTreeParents G t ps msg g = (res, g') \<Longrightarrow> git_keeps blob tree g g' \<and> git_ResolveRef G g' = git_ResolveRef G g
    \<and> (\<forall>c t0. res = Inr c \<longrightarrow> tree g t = Some t0 \<longrightarrow> tree g' c = Some t0)"
  unfolding git_writes_def by (elim conjE) (unfold commit_tree_law_def, blast)

lemma UpdateRef_law:
  "git_writes G blob tree \<Longrightarrow> git_UpdateRef G new old g = (res, g') \<Longrightarrow> git_keeps blob tree g g'
    \<and> (git_ResolveRef G g' = git_ResolveRef G g \<and> isl res \<or> git_ResolveRef G g' = Inr new \<and> data_head G g = Inr old)"
  unfolding git_writes_def by (elim conjE) (unfold update_ref_law_def, blast)

lemma distinct_objectPaths: "\<forall>h \<in> set hs. hash_Valid h \<Longrightarrow> distinct hs \<Longrightarrow> distinct (map objectPath hs)"
  using objectPath_inj by (auto simp: distinct_map intro!: inj_onI)

lemma write_snapshot_tree_spec:
  assumes writes: "git_writes G blob tree" and H: "digest32 H" and w: "writer_at H blob tree g w" and keeps: "git_keeps blob tree g g1"
    and m: "publication_manifest H w m0 = Inr (m, available)"
    and entries: "entries = (manifestPath, mo) # map (\<lambda>h. (objectPath h, oid h)) (mf_Objects m)"
    and oid: "\<And>h. known_oid w h \<noteq> [] \<Longrightarrow> oid h = known_oid w h"
    and res: "write_snapshot_tree G w available entries g1 = (res, g')"
  shows "git_keeps blob tree g1 g' \<and> git_ResolveRef G g' = git_ResolveRef G g1 \<and> (\<forall>t. res = Inr t \<longrightarrow> tree g' t = Some (tree_of mo oid (mf_Objects m)))"
proof -
  let ?hs = "mf_Objects m"
  have hs: "set ?hs = set available" "sorted_wrt (<) ?hs" using publication_manifest_Inr(4)[OF m] sortedHashSet_simps by auto
  have valid: "\<forall>h \<in> set ?hs. hash_Valid h" using available_valid[OF H w m] hs by simp
  have em: "map_of entries = tree_of mo oid ?hs" by (simp add: entries tree_of_def)
  show ?thesis
  proof (cases "w_base w")
    case None
    have "distinct (map fst entries)"
      using distinct_objectPaths[OF valid] hs(2) by (auto simp: entries strict_sorted_iff comp_def)
    then show ?thesis using WriteTree_law[OF writes] res None em by (simp add: write_snapshot_tree_def)
  next
    case (Some b)
    let ?new = "filter (\<lambda>h. h \<in> set available) (map fst (w_objects w))"
    have b: "snapshot_at H blob tree g b" using w Some by (simp add: writer_at_def)
    obtain mo0 where "tree g (sn_Commit b) = Some (tree_of mo0 (index_or_empty (sn_objectOIDs b)) (mf_Objects (sn_Manifest b)))"
      using b by (auto simp: snapshot_at_def)
    then have tb: "tree g1 (sn_Commit b) = Some (tree_of mo0 (index_or_empty (sn_objectOIDs b)) (mf_Objects (sn_Manifest b)))"
      using git_keeps_tree[OF keeps] by blast
    have old: "h \<in> set (mf_Objects (sn_Manifest b)) \<and> oid h = index_or_empty (sn_objectOIDs b) h"
      if "h \<in> set ?hs" "map_of (w_objects w) h = None" for h
    proof -
      have "baseObjectOID w h \<noteq> None" using publication_manifest_Inr(5)[OF m] that hs(1) by blast
      then have h: "h \<in> set (mf_Objects (sn_Manifest b))" using b Some by (auto simp: baseObjectOID_def snapshot_at_def)
      then have "index_or_empty (sn_objectOIDs b) h \<noteq> []" using b by (auto simp: snapshot_at_def backed_def)
      then show ?thesis using known_oid_base[OF w Some h] oid h by simp
    qed
    have "\<forall>h \<in> set ?new. hash_Valid h" using valid hs(1) by auto
    moreover have "distinct ?new" using w by (simp add: writer_at_def)
    ultimately have "distinct (map objectPath ?new)" by (rule distinct_objectPaths)
    then have dist: "distinct (map fst (hd entries # map (\<lambda>h. (objectPath h, snapshotOID entries h)) ?new))"
      by (auto simp: entries comp_def)
    have call: "git_UpdateTree G (sn_Commit b) (hd entries # map (\<lambda>h. (objectPath h, snapshotOID entries h)) ?new)
        (map objectPath (filter (\<lambda>h. h \<notin> set available) (mf_Objects (sn_Manifest b)))) g1 = (res, g')"
      using res Some by (simp add: write_snapshot_tree_def)
    have "hd entries = (manifestPath, mo)" by (simp add: entries)
    note result = updated_tree[OF Some b valid hs(1) em this old, of mo0]
    note law = UpdateTree_law[OF writes call]
    have "tree g' t = Some (tree_of mo oid ?hs)" if "res = Inr t" for t
      using law[THEN conjunct2, THEN conjunct2, rule_format, OF that tb dist] by (rule trans[OF _ arg_cong[where f = Some, OF result]])
    then show ?thesis using law by simp
  qed
qed

lemma write_commit_spec:
  assumes writes: "git_writes G blob tree" and H: "digest32 H" and w: "writer_at H blob tree g w"
    and m: "publication_manifest H w m0 = Inr (m, available)"
    and res: "write_commit G w m available data msg g = (res, g')"
  shows "git_keeps blob tree g g' \<and> git_ResolveRef G g' = git_ResolveRef G g \<and>
    (\<forall>commit entries. res = Inr (commit, entries) \<longrightarrow>
      (\<exists>mo oid. entries = (manifestPath, mo) # map (\<lambda>h. (objectPath h, oid h)) (mf_Objects m) \<and> blob g' mo = Some data \<and>
        tree g' commit = Some (tree_of mo oid (mf_Objects m)) \<and> (\<forall>h \<in> set (mf_Objects m). backed H blob g' h (oid h))))"
proof -
  let ?missing = "filter (\<lambda>h. known_oid w h = []) (mf_Objects m)"
  have hs: "set (mf_Objects m) = set available" "sorted_wrt (<) (mf_Objects m)"
    using publication_manifest_Inr(4)[OF m] sortedHashSet_simps by auto
  obtain r1 g1 where h1: "git_HashObjects G (data # map (index_or_empty (w_objects w)) ?missing) g = (r1, g1)" by fastforce
  note k1 = HashObjects_law[OF writes h1]
  show ?thesis
  proof (cases r1)
    case (Inl e)
    then show ?thesis using res h1 k1 by (auto simp: write_commit_def)
  next
    case (Inr oids0)
    then obtain mo oids where oids: "r1 = Inr (mo # oids)" "mo \<noteq> []" "blob g1 mo = Some data"
        "list_all2 (\<lambda>d oid. oid \<noteq> [] \<and> blob g1 oid = Some d) (map (index_or_empty (w_objects w)) ?missing) oids"
      using k1 by (auto simp: list_all2_Cons1)
    define oid where "oid h = (if known_oid w h = [] then index_or_empty (zip ?missing oids) h else known_oid w h)" for h
    have oid_known: "known_oid w h \<noteq> [] \<Longrightarrow> oid h = known_oid w h" for h by (simp add: oid_def)
    define entries where "entries = (manifestPath, mo) # map (\<lambda>h. (objectPath h, oid h)) (mf_Objects m)"
    have len: "length oids = length ?missing" using oids(4) by (auto dest: list_all2_lengthD)
    have te: "tree_entries w mo (zip ?missing oids) (mf_Objects m) = entries" by (simp add: tree_entries_def entries_def oid_def)
    obtain r2 g2 where h2: "write_snapshot_tree G w available entries g1 = (r2, g2)" by fastforce
    have k2: "git_keeps blob tree g1 g2 \<and> git_ResolveRef G g2 = git_ResolveRef G g1 \<and>
        (\<forall>t. r2 = Inr t \<longrightarrow> tree g2 t = Some (tree_of mo oid (mf_Objects m)))"
      using write_snapshot_tree_spec[OF writes H w _ m entries_def oid_known h2] k1 by simp
    have keeps: "git_keeps blob tree g g2" using git_keeps_trans[OF conjunct1[OF k1] conjunct1[OF k2]] .
    have objs: "backed H blob g2 h (oid h)" if h: "h \<in> set (mf_Objects m)" for h
    proof (cases "known_oid w h = []")
      case False
      then show ?thesis using backed_keeps[OF keeps known_oid_backed[OF w False]] by (simp add: oid_def)
    next
      case True
      have "h \<notin> dom (map_of (case w_base w of None \<Rightarrow> [] | Some b \<Rightarrow> sn_objectOIDs b))"
        using True w by (auto simp: known_oid_def writer_at_def snapshot_at_def backed_def Let_def split: option.splits if_splits)
      then obtain d where d: "map_of (w_objects w) h = Some d" "storage_Sum H d = h"
        using publication_manifest_Inr(5)[OF m, rule_format, of h] h hs(1)
        by (cases "map_of (w_objects w) h") (auto simp: baseObjectOID_def split: option.splits)
      have "h \<in> set ?missing" using h True by simp
      then obtain i where i: "i < length ?missing" "?missing ! i = h" unfolding in_set_conv_nth by blast
      have "distinct ?missing" using hs(2) by (simp add: strict_sorted_iff)
      then have "map_of (zip ?missing oids) h = Some (oids ! i)" using i len map_of_zip_nth[of ?missing oids i] by simp
      moreover have "oids ! i \<noteq> [] \<and> blob g1 (oids ! i) = Some (index_or_empty (w_objects w) h)"
        using list_all2_nthD[OF oids(4), of i] i by simp
      ultimately show ?thesis
        using True d k2 by (auto simp: oid_def backed_def index_or_empty_def git_keeps_def)
    qed
    let ?parents = "if w_parents w = [] \<and> w_expected w \<noteq> [] then [w_expected w] else w_parents w"
    show ?thesis
    proof (cases r2)
      case (Inl e)
      then show ?thesis using res h1 oids(1) len te h2 k1 k2 keeps by (auto simp: write_commit_def Let_def)
    next
      case r2: (Inr t)
      obtain r3 where h3: "git_CommitTreeParents G t ?parents (if blank msg then defaultMessage else msg) g2 = (r3, g')"
          "res = map_sum id (\<lambda>c. (c, entries)) r3"
        using res h1 oids(1) len te h2 r2 by (auto simp: write_commit_def Let_def split: prod.splits sum.splits)
      have k3: "git_keeps blob tree g2 g' \<and> git_ResolveRef G g' = git_ResolveRef G g2 \<and>
          (\<forall>c t0. r3 = Inr c \<longrightarrow> tree g2 t = Some t0 \<longrightarrow> tree g' c = Some t0)"
        using CommitTreeParents_law[OF writes h3(1)] .
      have mo: "blob g' mo = Some data" using git_keeps_blob[OF conjunct1[OF k3] git_keeps_blob[OF conjunct1[OF k2] oids(3)]] .
      have all: "\<forall>h \<in> set (mf_Objects m). backed H blob g' h (oid h)"
        using backed_keeps[OF conjunct1[OF k3] objs] by (rule ballI)
      have "tree g2 t = Some (tree_of mo oid (mf_Objects m))" using k2 r2 by simp
      then have tree: "tree g' commit = Some (tree_of mo oid (mf_Objects m))" if "r3 = Inr commit" for commit using k3 that by simp
      have "git_keeps blob tree g g'" using git_keeps_trans[OF keeps conjunct1[OF k3]] .
      moreover have "git_ResolveRef G g' = git_ResolveRef G g" using k1 k2 k3 by simp
      moreover have "r3 = Inr commit \<and> es = entries" if "res = Inr (commit, es)" for commit es using that h3(2) by (cases r3) auto
      ultimately show ?thesis using mo all tree unfolding entries_def by blast
    qed
  qed
qed

section \<open>Moving the data ref\<close>

lemma update_data_ref_spec:
  assumes writes: "git_writes G blob tree" and res: "update_data_ref G commit expected g = (r, g')"
  shows "git_keeps blob tree g g'"
    and "r = None \<Longrightarrow> data_head G g = Inr expected \<and> git_ResolveRef G g' = Inr commit"
    and "r = Some (result, err) \<Longrightarrow> cr_Outcome result \<noteq> OutcomeCommitted \<and> cr_Commit result = commit \<and>
      (cr_Outcome result = OutcomeRejected \<longrightarrow> git_ResolveRef G g' = git_ResolveRef G g \<or>
         err = Some (RepoError ErrConflict) \<and> data_head G g = Inr expected \<and> git_ResolveRef G g' = Inr commit)"
proof -
  obtain ru where call: "git_UpdateRef G commit expected g = (ru, g')"
    using res by (auto simp: update_data_ref_def Let_def split: prod.splits sum.splits if_splits)
  note law = UpdateRef_law[OF writes call]
  have same: "data_head G g = Inr expected" if "git_ResolveRef G g' = git_ResolveRef G g" "git_ResolveRef G g' = Inr expected"
  proof -
    have "git_ResolveRef G g = Inr expected" using that by simp
    then show ?thesis by (simp add: data_head_def)
  qed
  show "git_keeps blob tree g g'" using law by simp
  show "data_head G g = Inr expected \<and> git_ResolveRef G g' = Inr commit" if "r = None"
    using res call law same that
    by (auto simp: update_data_ref_def resolvePublication_def Let_def split: sum.splits if_splits)
  show "cr_Outcome result \<noteq> OutcomeCommitted \<and> cr_Commit result = commit \<and>
      (cr_Outcome result = OutcomeRejected \<longrightarrow> git_ResolveRef G g' = git_ResolveRef G g \<or>
         err = Some (RepoError ErrConflict) \<and> data_head G g = Inr expected \<and> git_ResolveRef G g' = Inr commit)" if "r = Some (result, err)"
    using res call law that
    by (auto simp: update_data_ref_def resolvePublication_def Let_def split: sum.splits if_splits)
qed

lemma lockForPublication_git: "lockForPublication ho clean rs = (r, rs') \<Longrightarrow> rs_git rs' = rs_git rs"
  by (auto simp: lockForPublication_def requireCleanJournalLocked_def split: sum.splits prod.splits if_splits)

lemma repo_Head_git: "repo_Head ho rs = (r, rs') \<Longrightarrow> rs_git rs' = rs_git rs"
  by (auto simp: repo_Head_def split: sum.splits option.splits prod.splits if_splits)

text \<open>The head cached under a stamp is the head, as long as equal stamps mean an unmoved ref.\<close>

definition stamp_law :: "'g git \<Rightarrow> bool" where
  "stamp_law G \<longleftrightarrow> (\<forall>g g'. git_stamp G g = git_stamp G g' \<longrightarrow> \<not> isl (git_stamp G g) \<longrightarrow> git_ResolveRef G g = git_ResolveRef G g')"

definition head_inv :: "'g git \<Rightarrow> 'g repository \<Rightarrow> bool" where
  "head_inv G rs \<longleftrightarrow> (\<forall>tip mark. rs_head rs = Some (tip, mark) \<longrightarrow> (\<exists>g. git_stamp G g = Inr mark \<and> data_head G g = Inr tip))"

lemma repo_Head_current:
  assumes "stamp_law (ho_git ho)" "head_inv (ho_git ho) rs" "repo_Head ho rs = (r, rs')"
  shows "r = data_head (ho_git ho) (rs_git rs)" "head_inv (ho_git ho) rs'"
proof -
  let ?G = "ho_git ho"
  have hit: "data_head ?G (rs_git rs) = Inr tip" if mark: "git_stamp ?G (rs_git rs) = Inr mark" "rs_head rs = Some (tip, mark)" for tip mark
  proof -
    obtain g where g: "git_stamp ?G g = Inr mark" "data_head ?G g = Inr tip" using assms(2) mark(2) unfolding head_inv_def by blast
    have "git_stamp ?G (rs_git rs) = git_stamp ?G g" "\<not> isl (git_stamp ?G (rs_git rs))" using mark(1) g(1) by simp_all
    then have "git_ResolveRef ?G (rs_git rs) = git_ResolveRef ?G g" using assms(1) unfolding stamp_law_def by blast
    then show ?thesis using g(2) by (simp add: data_head_def)
  qed
  then show "r = data_head ?G (rs_git rs)"
    using assms(3) by (auto simp: repo_Head_def split: sum.splits option.splits if_splits)
  have "rs' = rs \<or> (\<exists>tip mark. rs' = rs\<lparr>rs_head := Some (tip, mark)\<rparr> \<and> git_stamp ?G (rs_git rs) = Inr mark \<and> data_head ?G (rs_git rs) = Inr tip)"
    using assms(3) by (auto simp: repo_Head_def split: sum.splits option.splits if_splits)
  then show "head_inv ?G rs'"
    using assms(2) unfolding head_inv_def by fastforce
qed

section \<open>The outcome of a publication\<close>

lemma finish_publication_outcome:
  "finish_publication ho s mo rs = ((result, err), rs') \<Longrightarrow>
    cr_Outcome result = OutcomeCommitted \<and> cr_Commit result = sn_Commit s \<and> rs_git rs' = rs_git rs"
  by (auto simp: finish_publication_def rememberSnapshot_def Let_def split: sum.splits)

text \<open>How far a publication gets: it is rejected before it touches the ref, or it writes a commit and tries to move the ref.\<close>

lemma publication_cases:
  assumes writes: "git_writes (ho_git ho) blob tree" and H: "digest32 (ho_H ho)" and w: "writer_at (ho_H ho) blob tree (rs_git rs) w"
    and res: "CommitWithOutcomeMessage ho w m0 msg rs = ((result, err), w', rs')"
  shows "(git_keeps blob tree (rs_git rs) (rs_git rs') \<and> cr_Outcome result = OutcomeRejected \<and>
    git_ResolveRef (ho_git ho) (rs_git rs') = git_ResolveRef (ho_git ho) (rs_git rs)) \<or> (\<exists>m available data rs1 commit entries g g' r. publication_manifest (ho_H ho) w m0 = Inr (m, available) \<and>
      rs_git rs1 = rs_git rs \<and> write_commit (ho_git ho) w m available (data @ [0x0A]) msg (rs_git rs) = (Inr (commit, entries), g) \<and>
      update_data_ref (ho_git ho) commit (w_expected w) g = (r, g') \<and>
      (case r of Some (q, e) \<Rightarrow> result = q \<and> err = e \<and> rs_git rs' = g'
       | None \<Rightarrow> finish_publication ho (published_snapshot w m available commit entries) (snd (hd entries)) (rs1\<lparr>rs_git := g'\<rparr>) = ((result, err), rs')))"
    (is "?done \<or> _")
proof (cases "publication_manifest (ho_H ho) w m0")
  case (Inl e)
  then show ?thesis using res by (auto simp: CommitWithOutcomeMessage_def rejected_def Let_def split: if_splits)
next
  case (Inr q)
  then obtain m available where m: "publication_manifest (ho_H ho) w m0 = Inr (m, available)" by (cases q) auto
  obtain rl rs1 where lock: "(if w_workingLockHeld w then (ho_lock ho, rs) else lockForPublication ho True rs) = (rl, rs1)" by fastforce
  then have g1: "rs_git rs1 = rs_git rs" by (auto split: if_splits dest: lockForPublication_git)
  obtain stale rs2 where head: "(if w_expected w = [] then (False, rs1) else case repo_Head ho rs1 of
      (Inr tip, rs) \<Rightarrow> (tip \<noteq> w_expected w, rs) | (Inl _, rs) \<Rightarrow> (False, rs)) = (stale, rs2)" by fastforce
  then have g2: "rs_git rs2 = rs_git rs"
    using g1 by (auto split: if_splits prod.splits sum.splits dest: repo_Head_git)
  consider "?done" | data r4 g4 where "mj_Marshal (ho_manifest ho) m = Inr data" "rl = Inr ()" "\<not> stale" "\<not> w_committed w"
      "write_commit (ho_git ho) w m available (data @ [0x0A]) msg (rs_git rs) = (r4, g4)"
  proof (cases "mj_Marshal (ho_manifest ho) m")
    case (Inl e)
    then show ?thesis using that(1) res m by (auto simp: CommitWithOutcomeMessage_def rejected_def Let_def split: if_splits)
  next
    case (Inr data)
    then show ?thesis
      using that res m lock head g1 g2
      by (cases rl; cases stale) (auto simp: CommitWithOutcomeMessage_def rejected_def Let_def split: if_splits prod.splits)
  qed
  then show ?thesis
  proof cases
    case (2 data r4 g4)
    note k = write_commit_spec[OF writes H w m 2(5)]
    show ?thesis
    proof (cases r4)
      case (Inl e)
      then show ?thesis
        using res m 2 lock head g2 k by (simp add: CommitWithOutcomeMessage_def rejected_def Let_def) auto
    next
      case (Inr ce)
      then obtain commit entries where ce: "r4 = Inr (commit, entries)" by (cases ce) auto
      obtain r g' where ref: "update_data_ref (ho_git ho) commit (w_expected w) g4 = (r, g')" by fastforce
      show ?thesis
        using res m 2 lock head g2 ce ref
        by (intro disjI2 exI[of _ m] exI[of _ available] exI[of _ data] exI[of _ rs2] exI[of _ commit] exI[of _ entries] exI[of _ g4]
            exI[of _ g'] exI[of _ r]) (auto simp: CommitWithOutcomeMessage_def Let_def split: option.splits prod.splits)
    qed
  qed simp
qed

lemma publication_outcome:
  assumes writes: "git_writes (ho_git ho) blob tree" and H: "digest32 (ho_H ho)" and w: "writer_at (ho_H ho) blob tree (rs_git rs) w"
    and res: "CommitWithOutcomeMessage ho w m0 msg rs = ((result, err), w', rs')"
  shows "git_keeps blob tree (rs_git rs) (rs_git rs')"
    and "cr_Outcome result = OutcomeCommitted \<Longrightarrow>
      data_head (ho_git ho) (rs_git rs) = Inr (w_expected w) \<and> git_ResolveRef (ho_git ho) (rs_git rs') = Inr (cr_Commit result)"
    and "cr_Outcome result = OutcomeRejected \<Longrightarrow> git_ResolveRef (ho_git ho) (rs_git rs') = git_ResolveRef (ho_git ho) (rs_git rs) \<or>
      err = Some (RepoError ErrConflict) \<and> data_head (ho_git ho) (rs_git rs) = Inr (w_expected w) \<and>
      git_ResolveRef (ho_git ho) (rs_git rs') = Inr (cr_Commit result)"
proof -
  let ?G = "ho_git ho" and ?done = "git_keeps blob tree (rs_git rs) (rs_git rs') \<and> cr_Outcome result = OutcomeRejected \<and>
    git_ResolveRef (ho_git ho) (rs_git rs') = git_ResolveRef (ho_git ho) (rs_git rs)"
  have "?done \<or> (\<exists>m available data rs1 commit entries g g' r. publication_manifest (ho_H ho) w m0 = Inr (m, available) \<and>
      rs_git rs1 = rs_git rs \<and> write_commit ?G w m available (data @ [0x0A]) msg (rs_git rs) = (Inr (commit, entries), g) \<and>
      update_data_ref ?G commit (w_expected w) g = (r, g') \<and>
      (case r of Some (q, e) \<Rightarrow> result = q \<and> err = e \<and> rs_git rs' = g'
       | None \<Rightarrow> finish_publication ho (published_snapshot w m available commit entries) (snd (hd entries)) (rs1\<lparr>rs_git := g'\<rparr>) = ((result, err), rs')))"
    using publication_cases[OF assms] .
  then consider "?done" | m available data rs1 commit entries g g' r where "publication_manifest (ho_H ho) w m0 = Inr (m, available)"
      "write_commit ?G w m available (data @ [0x0A]) msg (rs_git rs) = (Inr (commit, entries), g)"
      "update_data_ref ?G commit (w_expected w) g = (r, g')"
      "case r of Some (q, e) \<Rightarrow> result = q \<and> err = e \<and> rs_git rs' = g'
       | None \<Rightarrow> finish_publication ho (published_snapshot w m available commit entries) (snd (hd entries)) (rs1\<lparr>rs_git := g'\<rparr>) = ((result, err), rs')"
    by blast
  then have "git_keeps blob tree (rs_git rs) (rs_git rs') \<and>
     (cr_Outcome result = OutcomeCommitted \<longrightarrow>
       data_head ?G (rs_git rs) = Inr (w_expected w) \<and> git_ResolveRef ?G (rs_git rs') = Inr (cr_Commit result)) \<and>
     (cr_Outcome result = OutcomeRejected \<longrightarrow> git_ResolveRef ?G (rs_git rs') = git_ResolveRef ?G (rs_git rs) \<or>
       err = Some (RepoError ErrConflict) \<and> data_head ?G (rs_git rs) = Inr (w_expected w) \<and> git_ResolveRef ?G (rs_git rs') = Inr (cr_Commit result))"
  proof cases
    case (2 m available data rs1 commit entries g g' r)
    note k = write_commit_spec[OF writes H w 2(1,2)] and u = update_data_ref_spec[OF writes 2(3)]
    have keeps: "git_keeps blob tree (rs_git rs) g'" using git_keeps_trans[OF conjunct1[OF k] u(1)] .
    have head: "data_head ?G g = data_head ?G (rs_git rs)" using k by (simp add: data_head_def)
    show ?thesis
    proof (cases r)
      case None
      then have "finish_publication ho (published_snapshot w m available commit entries) (snd (hd entries)) (rs1\<lparr>rs_git := g'\<rparr>) = ((result, err), rs')"
        using 2(4) by simp
      note f = finish_publication_outcome[OF this]
      then show ?thesis using u(2)[OF None] keeps head by (simp add: published_snapshot_def)
    next
      case (Some q)
      then have q: "r = Some (result, err)" "rs_git rs' = g'" using 2(4) by (cases q; simp)+
      then show ?thesis using u(3)[OF q(1)] keeps head k by auto
    qed
  qed simp
  then show "git_keeps blob tree (rs_git rs) (rs_git rs')"
    and "cr_Outcome result = OutcomeCommitted \<Longrightarrow>
      data_head ?G (rs_git rs) = Inr (w_expected w) \<and> git_ResolveRef ?G (rs_git rs') = Inr (cr_Commit result)"
    and "cr_Outcome result = OutcomeRejected \<Longrightarrow> git_ResolveRef ?G (rs_git rs') = git_ResolveRef ?G (rs_git rs) \<or>
      err = Some (RepoError ErrConflict) \<and> data_head ?G (rs_git rs) = Inr (w_expected w) \<and> git_ResolveRef ?G (rs_git rs') = Inr (cr_Commit result)"
    by blast+
qed

section \<open>A publication that succeeds\<close>

text \<open>Git works: writes succeed, and \<open>update-ref\<close> succeeds when the ref has the expected value.\<close>

definition git_up :: "'g git \<Rightarrow> bool" where
  "git_up G \<longleftrightarrow> (\<forall>ds g. \<not> isl (fst (git_HashObjects G ds g))) \<and> (\<forall>c ups dels g. \<not> isl (fst (git_UpdateTree G c ups dels g)))
     \<and> (\<forall>es g. \<not> isl (fst (git_WriteTree G es g))) \<and> (\<forall>t ps msg g. \<exists>c g'. git_CommitTreeParents G t ps msg g = (Inr c, g') \<and> c \<noteq> [])
     \<and> (\<forall>new old g. data_head G g = Inr old \<longrightarrow> new \<noteq> [] \<longrightarrow> \<not> isl (fst (git_UpdateRef G new old g)))"

lemma write_commit_up:
  assumes "git_up G" "git_writes G blob tree"
  obtains commit entries g' where "write_commit G w m available data msg g = (Inr (commit, entries), g')" "commit \<noteq> []"
proof -
  let ?missing = "filter (\<lambda>h. known_oid w h = []) (mf_Objects m)"
  obtain oids g1 where h1: "git_HashObjects G (data # map (index_or_empty (w_objects w)) ?missing) g = (Inr oids, g1)"
    using assms(1) unfolding git_up_def by (metis isl_def obj_sumE prod.collapse)
  then obtain mo rest where oids: "oids = mo # rest" "length rest = length ?missing"
    using HashObjects_law[OF assms(2) h1] by (auto simp: list_all2_Cons1 dest: list_all2_lengthD)
  let ?entries = "tree_entries w mo (zip ?missing rest) (mf_Objects m)"
  have "\<not> isl (fst (write_snapshot_tree G w available ?entries g1))"
    using assms(1) by (cases "w_base w") (simp_all add: git_up_def write_snapshot_tree_def)
  then obtain t g2 where h2: "write_snapshot_tree G w available ?entries g1 = (Inr t, g2)"
    by (metis isl_def obj_sumE prod.collapse)
  let ?parents = "if w_parents w = [] \<and> w_expected w \<noteq> [] then [w_expected w] else w_parents w"
  obtain c g3 where "git_CommitTreeParents G t ?parents (if blank msg then defaultMessage else msg) g2 = (Inr c, g3)" "c \<noteq> []"
    using assms(1) unfolding git_up_def by blast
  then show ?thesis using that h1 h2 oids by (simp add: write_commit_def Let_def)
qed

lemma published_oids:
  assumes "\<forall>h \<in> set hs. hash_Valid h"
  shows "map_of (fold (\<lambda>(path, oid). AList.update (path_hash path) oid) (map (\<lambda>h. (objectPath h, oid h)) hs) m) h =
      (if h \<in> set hs then Some (oid h) else map_of m h)"
    and "distinct (map fst m) \<Longrightarrow> distinct (map fst (fold (\<lambda>(path, oid). AList.update (path_hash path) oid) (map (\<lambda>h. (objectPath h, oid h)) hs) m))"
  using assms by (induction hs arbitrary: m) (auto simp: path_hash_objectPath update_conv' distinct_update)

lemma verifySnapshotTree_ok:
  assumes reads: "git_reads G blob tree" and tree: "tree g (sn_Commit s) = Some (tree_of mo oid (mf_Objects (sn_Manifest s)))"
    and hs: "\<forall>h \<in> set (mf_Objects (sn_Manifest s)). hash_Valid h" "distinct (mf_Objects (sn_Manifest s))"
    and oids: "map_of (sn_objectOIDs s) = (\<lambda>h. if h \<in> set (mf_Objects (sn_Manifest s)) then Some (oid h) else None)" "distinct (map fst (sn_objectOIDs s))"
  shows "verifySnapshotTree G s mo g = Inr ()"
proof -
  let ?hs = "mf_Objects (sn_Manifest s)"
  obtain objects where objects: "git_ListTreeObjects G (sn_Commit s) g = Inr objects" "distinct (map fst objects)" "map_of objects = tree_of mo oid ?hs"
    using reads tree unfolding git_reads_def by metis
  have "length objects = card (fst ` set objects)" using distinct_card[OF objects(2)] by simp
  also have "fst ` set objects = insert manifestPath (objectPath ` set ?hs)"
    using objects(3) tree_of_dom by (metis dom_map_of_conv_image_fst)
  also have "card (insert manifestPath (objectPath ` set ?hs)) = Suc (card (objectPath ` set ?hs))" by (subst card_insert_disjoint) auto
  also have "card (objectPath ` set ?hs) = length ?hs"
    using distinct_card[OF distinct_objectPaths[OF hs]] by simp
  finally have len: "length objects = length ?hs + 1" by simp
  have "index_or_empty objects (objectPath h) = oid'" if "(h, oid') \<in> set (sn_objectOIDs s)" for h oid'
  proof -
    have "map_of (sn_objectOIDs s) h = Some oid'" using that oids(2) by simp
    then have "h \<in> set ?hs" "oid' = oid h" using oids(1) by (auto split: if_splits)
    then show ?thesis using tree_of_object[OF _ hs(1)] by (simp add: index_or_empty_def objects(3))
  qed
  moreover have "index_or_empty objects manifestPath = mo" by (simp add: index_or_empty_def objects(3))
  ultimately show ?thesis using objects(1) len by (auto simp: verifySnapshotTree_def list_ex_iff)
qed

text \<open>A manifest that JSON gives back passes the same checks.\<close>

lemma check_tables_Inr:
  "check_tables objects ts = Inr () \<longleftrightarrow>
    (\<forall>(name, t) \<in> set ts. \<not> blank name \<and> root_listed objects (SchemaRoot t) \<and> root_listed objects (DataRoot t))"
  by (induction ts rule: check_tables.induct) auto

lemma gomap_equal_back:
  assumes "gomap_equal eq a b" "distinct (map fst a)" "(k, v') \<in> set b"
  shows "\<exists>v. (k, v) \<in> set a \<and> eq v v'"
proof -
  have len: "length a = length b" and sub: "\<And>k v. (k, v) \<in> set a \<Longrightarrow> \<exists>v'. map_of b k = Some v' \<and> eq v v'"
    using assms(1) by (auto simp: gomap_equal_def list_all_iff split: option.splits)
  have "fst ` set a \<subseteq> fst ` set b"
  proof
    fix k assume "k \<in> fst ` set a"
    then obtain v where "(k, v) \<in> set a" by auto
    then obtain v' where "map_of b k = Some v'" using sub by blast
    then show "k \<in> fst ` set b" by (auto dest!: map_of_SomeD intro: rev_image_eqI)
  qed
  moreover have "card (fst ` set a) = length a" using distinct_card[OF assms(2)] by simp
  moreover have "card (fst ` set b) \<le> length b" using card_length[of "map fst b"] by simp
  ultimately have sub': "fst ` set a \<subseteq> fst ` set b" and le: "card (fst ` set b) \<le> card (fst ` set a)" "card (fst ` set a) = length b"
    using len by simp_all
  have eq: "fst ` set a = fst ` set b" using card_seteq[OF _ sub' le(1)] by simp
  then have "fst ` set a = fst ` set b" "card (fst ` set b) = length b" using le(2) by simp_all
  then have "distinct (map fst b)" "k \<in> fst ` set a" using assms(3) card_distinct[of "map fst b"] by (auto intro: rev_image_eqI)
  then obtain v where "(k, v) \<in> set a" "map_of b k = Some v'" using assms(3) by auto
  then show ?thesis using sub by fastforce
qed

lemma validate_DeepEqual:
  assumes "manifest_DeepEqual m m'" "distinct (map fst (mf_tables m))" "validateManifestInventory m available = Inr ()"
    and "set (mf_Objects m) = set available"
  shows "validateManifestInventory m' (mf_Objects m') = Inr ()"
proof -
  obtain ts where ts: "mf_Tables m = Some ts" "check_tables available ts = Inr ()" "mf_DefaultDatabase m \<noteq> []"
    using assms(3) by (auto simp: validateManifestInventory_def split: if_splits option.splits)
  then obtain ts' where ts': "mf_Tables m' = Some ts'" "gomap_equal table_DeepEqual ts ts'" "mf_DefaultDatabase m' \<noteq> []" "mf_Objects m' = mf_Objects m"
    using assms(1) by (auto simp: manifest_DeepEqual_def split: option.splits)
  have "distinct (map fst ts)" using assms(2) ts(1) by (simp add: mf_tables_def)
  note pair = gomap_equal_back[OF ts'(2) this]
  have "check_tables (mf_Objects m') ts' = Inr ()"
    unfolding check_tables_Inr
  proof (clarify)
    fix name t' assume "(name, t') \<in> set ts'"
    then obtain t where "(name, t) \<in> set ts" "table_DeepEqual t t'" using pair by blast
    then show "\<not> blank name \<and> root_listed (mf_Objects m') (SchemaRoot t') \<and> root_listed (mf_Objects m') (DataRoot t')"
      using ts(2) assms(4) ts'(4) by (fastforce simp: check_tables_Inr table_DeepEqual_def root_listed_def)
  qed
  then show ?thesis using ts' by (simp add: validateManifestInventory_def)
qed

lemma lock_id:
  "(if held then (ho_lock ho, rs) else lockForPublication ho True rs) = (r, rs') \<Longrightarrow> rs_id rs' = rs_id rs"
  by (auto simp: lockForPublication_def requireCleanJournalLocked_def split: sum.splits prod.splits if_splits)

lemma stale_check_passes:
  assumes "stamp_law (ho_git ho)" "head_inv (ho_git ho) rs" "data_head (ho_git ho) (rs_git rs) = Inr expected"
  shows "\<exists>rs'. (if expected = [] then (False, rs) else case repo_Head ho rs of
      (Inr tip, rs) \<Rightarrow> (tip \<noteq> expected, rs) | (Inl _, rs) \<Rightarrow> (False, rs)) = (False, rs') \<and> rs_git rs' = rs_git rs \<and> rs_id rs' = rs_id rs"
proof -
  obtain r rs' where h: "repo_Head ho rs = (r, rs')" by fastforce
  have "r = Inr expected" using repo_Head_current(1)[OF assms(1,2) h] assms(3) by simp
  moreover have "rs_id rs' = rs_id rs" using h by (auto simp: repo_Head_def split: sum.splits option.splits if_splits)
  ultimately show ?thesis using h repo_Head_git[OF h] by auto
qed

text \<open>Publish, then read: with a working Git and the expected head, a valid publication is committed and reads back.\<close>

lemma publication_succeeds:
  assumes git: "git_writes (ho_git ho) blob tree" "git_reads (ho_git ho) blob tree" "git_up (ho_git ho)" and H: "digest32 (ho_H ho)"
    and w: "writer_at (ho_H ho) blob tree (rs_git rs) w" "\<not> w_committed w" "w_repo w = rs_id rs"
    and m: "publication_manifest (ho_H ho) w m0 = Inr (m, available)" "distinct (map fst (mf_tables m))"
    and json: "mj_Marshal (ho_manifest ho) m = Inr data" "mj_Decode (ho_manifest ho) (data @ [0x0A]) = Inr (m', True)" "manifest_DeepEqual m m'"
    and lock: "(if w_workingLockHeld w then (ho_lock ho, rs) else lockForPublication ho True rs) = (Inr (), rs1)"
    and head: "stamp_law (ho_git ho)" "head_inv (ho_git ho) rs1" "data_head (ho_git ho) (rs_git rs) = Inr (w_expected w)"
  shows "\<exists>c s s' rs'. CommitWithOutcomeMessage ho w m0 msg rs =
      ((\<lparr>cr_Outcome = OutcomeCommitted, cr_Commit = c, cr_Snapshot = Some s\<rparr>, None), w\<lparr>w_committed := True, w_objects := []\<rparr>, rs') \<and>
    git_ResolveRef (ho_git ho) (rs_git rs') = Inr c \<and> snapshot_at (ho_H ho) blob tree (rs_git rs') s \<and>
    sn_Commit s = c \<and> sn_Manifest s = m \<and> set (sn_objectSet s) = set available \<and>
    readSnapshot ho rs' c = Inr s' \<and> sn_Commit s' = c \<and> manifest_DeepEqual m (sn_Manifest s') \<and>
    set (sn_objectSet s') = set available \<and> map_of (sn_objectOIDs s') = map_of (sn_objectOIDs s)"
proof -
  let ?G = "ho_git ho" and ?H = "ho_H ho" and ?hs = "mf_Objects m"
  have hs: "set ?hs = set available" "sorted_wrt (<) ?hs" "distinct ?hs"
    using publication_manifest_Inr(4)[OF m(1)] sortedHashSet_simps[of available] by (auto simp: strict_sorted_iff)
  have valid: "\<forall>h \<in> set ?hs. hash_Valid h" using available_valid[OF H w(1) m(1)] hs(1) by simp
  have g1: "rs_git rs1 = rs_git rs" using lock by (auto split: if_splits dest: lockForPublication_git)
  obtain rs2 where rs2: "(if w_expected w = [] then (False, rs1) else case repo_Head ho rs1 of
      (Inr tip, rs) \<Rightarrow> (tip \<noteq> w_expected w, rs) | (Inl _, rs) \<Rightarrow> (False, rs)) = (False, rs2)" "rs_git rs2 = rs_git rs" "rs_id rs2 = rs_id rs"
  proof -
    have "data_head ?G (rs_git rs1) = Inr (w_expected w)" using head(3) g1 by simp
    then show ?thesis using stale_check_passes[OF head(1,2)] that g1 lock_id[OF lock] by force
  qed
  obtain commit entries g where wc: "write_commit ?G w m available (data @ [0x0A]) msg (rs_git rs) = (Inr (commit, entries), g)"
      and ne: "commit \<noteq> []"
    using write_commit_up[OF git(3,1)] by metis
  note k = write_commit_spec[OF git(1) H w(1) m(1) wc]
  obtain mo oid where e: "entries = (manifestPath, mo) # map (\<lambda>h. (objectPath h, oid h)) ?hs" "blob g mo = Some (data @ [0x0A])"
      "tree g commit = Some (tree_of mo oid ?hs)" "\<forall>h \<in> set ?hs. backed ?H blob g h (oid h)"
    using k by blast
  have "data_head ?G g = Inr (w_expected w)" using k head(3) by (simp add: data_head_def)
  then obtain g' where ur: "git_UpdateRef ?G commit (w_expected w) g = (Inr (), g')"
  proof -
    assume *: "data_head ?G g = Inr (w_expected w)"
    have "\<not> isl (fst (git_UpdateRef ?G commit (w_expected w) g))" using git(3) * ne by (simp add: git_up_def)
    then show ?thesis using that by (cases "git_UpdateRef ?G commit (w_expected w) g"; cases "fst (git_UpdateRef ?G commit (w_expected w) g)") auto
  qed
  note law = UpdateRef_law[OF git(1) ur]
  have keeps: "git_keeps blob tree g g'" and ref: "git_ResolveRef ?G g' = Inr commit" using law by auto
  let ?s = "published_snapshot w m available commit entries"
  have oids: "map_of (sn_objectOIDs ?s) = (\<lambda>h. if h \<in> set ?hs then Some (oid h) else None)" "distinct (map fst (sn_objectOIDs ?s))"
    using published_oids[OF valid, where oid = oid and m = "[]"] by (auto simp: published_snapshot_def e(1) fun_eq_iff)
  have tree: "tree g' commit = Some (tree_of mo oid ?hs)" using git_keeps_tree[OF keeps e(3)] .
  have "verifySnapshotTree ?G ?s mo g' = Inr ()"
    using verifySnapshotTree_ok[OF git(2), of g' ?s mo oid] tree valid hs(3) oids by (simp add: published_snapshot_def)
  then have fin: "finish_publication ho ?s (snd (hd entries)) (rs2\<lparr>rs_git := g'\<rparr>) =
      ((\<lparr>cr_Outcome = OutcomeCommitted, cr_Commit = commit, cr_Snapshot = Some (snapshotFromCore (rs_id rs2) commit (core_of ?s))\<rparr>, None),
       rememberSnapshot ?s (rs2\<lparr>rs_git := g'\<rparr>))"
    by (simp add: finish_publication_def e(1) published_snapshot_def)
  let ?rs' = "rememberSnapshot ?s (rs2\<lparr>rs_git := g'\<rparr>)" and ?r = "snapshotFromCore (rs_id rs2) commit (core_of ?s)"
  have commit: "CommitWithOutcomeMessage ho w m0 msg rs =
      ((\<lparr>cr_Outcome = OutcomeCommitted, cr_Commit = commit, cr_Snapshot = Some ?r\<rparr>, None), w\<lparr>w_committed := True, w_objects := []\<rparr>, ?rs')"
    using w(2) m(1) json(1) lock rs2 wc ur fin by (simp add: CommitWithOutcomeMessage_def update_data_ref_def Let_def)
  have rs': "rs_git ?rs' = g'" "rs_id ?rs' = rs_id rs2" by (simp_all add: rememberSnapshot_def)
  have r: "sn_Commit ?r = commit" "sn_Manifest ?r = m" "sn_objectSet ?r = available" "sn_objectOIDs ?r = sn_objectOIDs ?s"
    by (simp_all add: snapshotFromCore_def core_of_def published_snapshot_def)
  have idx: "index_or_empty (sn_objectOIDs ?s) h = oid h" if "h \<in> set ?hs" for h using oids(1) that by (simp add: index_or_empty_def)
  have "tree_of mo (index_or_empty (sn_objectOIDs ?s)) ?hs = tree_of mo oid ?hs" using idx by (simp add: tree_of_def cong: map_cong)
  then have "\<exists>mo. tree g' commit = Some (tree_of mo (index_or_empty (sn_objectOIDs ?s)) ?hs)" using tree by (metis)
  then have at: "snapshot_at ?H blob tree g' ?r"
    using hs(2) valid e(4) backed_keeps[OF keeps] idx unfolding snapshot_at_def r by (auto simp: oids(1) dom_def)
  have fmt: "mf_FormatVersion m' = FormatVersion" "mf_Objects m' = ?hs"
    using json(3) publication_manifest_Inr(2)[OF m(1)] by (auto simp: manifest_DeepEqual_def fill_manifest_def)
  have valid': "sorted_wrt (<) (mf_Objects m')" "\<forall>h \<in> set (mf_Objects m'). hash_Valid h" using hs(2) valid fmt(2) by simp_all
  have tree': "tree (rs_git ?rs') commit = Some (tree_of mo oid (mf_Objects m'))" using tree by (simp add: rs' fmt(2))
  have blob': "blob (rs_git ?rs') mo = Some (data @ [0x0A])" using git_keeps_blob[OF keeps e(2)] by (simp add: rs')
  note readable = readSnapshot_complete[OF git(2) tree' blob' json(2) fmt(1) valid'
      validate_DeepEqual[OF json(3) m(2) publication_manifest_Inr(3)[OF m(1)] hs(1)]]
  then obtain oids' where read: "readSnapshot ho ?rs' commit = Inr \<lparr>sn_repo = rs_id ?rs', sn_Commit = commit, sn_generation = 0, sn_Manifest = m',
        sn_objectSet = mf_Objects m', sn_objectOIDs = oids', sn_cache = [], sn_pendingEdits = None\<rparr>"
      "map_of oids' = (\<lambda>h. if h \<in> set (mf_Objects m') then Some (oid h) else None)"
    by (elim exE conjE)
  have "map_of oids' = map_of (sn_objectOIDs ?r)" using read(2) oids(1) by (simp add: r(4) fmt(2))
  moreover have "git_ResolveRef ?G (rs_git ?rs') = Inr commit" "snapshot_at ?H blob tree (rs_git ?rs') ?r" using ref at by (simp_all add: rs'(1))
  ultimately show ?thesis
    using commit r json(3) hs(1) fmt(2) by (intro exI[of _ commit] exI[of _ ?r] exI[of _ "\<lparr>sn_repo = rs_id ?rs', sn_Commit = commit,
        sn_generation = 0, sn_Manifest = m', sn_objectSet = mf_Objects m', sn_objectOIDs = oids', sn_cache = [], sn_pendingEdits = None\<rparr>"]
        exI[of _ ?rs'] conjI read(1)) simp_all
qed

end
