(* ===== verification/Publication_Properties.thy ===== *)
theory Publication_Properties
  imports Publication_Correct
begin

text \<open>
  The properties of publication, with witnesses over a small Git: blobs are named by their bytes, trees
  are kept in a list, and the data ref is a commit name or empty.
\<close>

section \<open>A small Git\<close>

record smallGit =
  sg_trees :: "(bytes, (bytes, bytes) gomap) gomap"
  sg_ref :: bytes

definition sg_blob :: "smallGit \<Rightarrow> bytes \<Rightarrow> bytes option" where
  "sg_blob g oid = (case oid of [] \<Rightarrow> None | b # d \<Rightarrow> Some d)"

definition sg_tree :: "smallGit \<Rightarrow> bytes \<Rightarrow> (bytes \<rightharpoonup> bytes) option" where
  "sg_tree g c = map_option map_of (map_of (sg_trees g) c)"

definition sg_entries :: "smallGit \<Rightarrow> bytes \<Rightarrow> (bytes, bytes) gomap" where
  "sg_entries g c = (case map_of (sg_trees g) c of None \<Rightarrow> [] | Some t \<Rightarrow> t)"

definition sg_add :: "(bytes, bytes) gomap \<Rightarrow> smallGit \<Rightarrow> (error + bytes) \<times> smallGit" where
  "sg_add t g = (let i = 2 # concat (map fst (sg_trees g)) in (Inr i, g\<lparr>sg_trees := (i, t) # sg_trees g\<rparr>))"

text \<open>With \<open>interrupted\<close>, \<open>update-ref\<close> moves the ref and is killed before it reports success.\<close>

definition small_git :: "bool \<Rightarrow> smallGit git" where
  "small_git interrupted =
     \<lparr>git_HashObjects = (\<lambda>ds g. (Inr (map (\<lambda>d. 1 # d) ds), g)),
      git_UpdateTree = (\<lambda>c ups dels g. sg_add (filter (\<lambda>(p, _). p \<notin> set dels) (ups @ sg_entries g c)) g),
      git_WriteTree = (\<lambda>es g. sg_add es g),
      git_CommitTreeParents = (\<lambda>t ps msg g. sg_add (sg_entries g t) g),
      git_UpdateRef = (\<lambda>new old g. if sg_ref g = old \<and> new \<noteq> [] then (if interrupted then Inl (LibraryError 9) else Inr (), g\<lparr>sg_ref := new\<rparr>)
                                   else (Inl (LibraryError 1), g)),
      git_ResolveRef = (\<lambda>g. if sg_ref g = [] then Inl (RepoError RefNotFound) else Inr (sg_ref g)),
      git_IsAncestor = (\<lambda>a b g. Inr (a = b)),
      git_ReadTreeFile = (\<lambda>c p g. case Option.bind (map_of (sg_entries g c) p) (sg_blob g) of None \<Rightarrow> Inl (LibraryError 2) | Some d \<Rightarrow> Inr d),
      git_ListTreeObjects = (\<lambda>c g. Inr (AList.clearjunk (sg_entries g c))),
      git_stamp = (\<lambda>g. Inr (sg_ref g))\<rparr>"

lemma sg_add_fresh: "2 # concat (map fst ts) \<notin> fst ` set ts"
proof -
  have "x \<in> fst ` set ts \<Longrightarrow> length x \<le> length (concat (map fst ts))" for x by (induction ts) (force intro: trans_le_add2)+
  then show ?thesis by (metis length_Cons not_less_eq_eq order_refl)
qed

lemma sg_add_keeps:
  assumes "sg_add t g = (r, g')"
  shows "git_keeps sg_blob sg_tree g g'" "sg_ref g' = sg_ref g" "\<And>c. r = Inr c \<Longrightarrow> sg_tree g' c = Some (map_of t)"
proof -
  have "map_of (sg_trees g) (2 # concat (map fst (sg_trees g))) = None"
    using sg_add_fresh[of "sg_trees g"] by (simp add: map_of_eq_None_iff)
  then show "git_keeps sg_blob sg_tree g g'" "sg_ref g' = sg_ref g" "\<And>c. r = Inr c \<Longrightarrow> sg_tree g' c = Some (map_of t)"
    using assms by (auto simp: sg_add_def git_keeps_def sg_blob_def sg_tree_def Let_def)
qed

lemma sg_entries_tree: "sg_tree g c = Some t \<Longrightarrow> map_of (sg_entries g c) = t"
  by (auto simp: sg_tree_def sg_entries_def split: option.splits)

lemma map_of_filter_paths: "map_of (filter (\<lambda>(p, _). p \<notin> D) xs) = map_of xs |` (- D)"
  by (induction xs) (auto simp: restrict_map_def fun_eq_iff)

lemma small_git_head: "data_head (small_git b) g = Inr (sg_ref g)"
  by (simp add: data_head_def small_git_def)

lemma small_git_writes: "git_writes (small_git b) sg_blob sg_tree"
  unfolding git_writes_def
proof (intro conjI)
  let ?G = "small_git b"
  show "hash_objects_law ?G sg_blob sg_tree"
    by (auto simp: hash_objects_law_def small_git_def sg_blob_def list_all2_conv_all_nth)
  show "update_tree_law ?G sg_blob sg_tree"
    unfolding update_tree_law_def
  proof (intro allI impI)
    fix c ups dels g res g'
    assume "git_UpdateTree ?G c ups dels g = (res, g')"
    then have add: "sg_add (filter (\<lambda>(p, _). p \<notin> set dels) (ups @ sg_entries g c)) g = (res, g')" by (simp add: small_git_def)
    have "map_of (filter (\<lambda>(p, _). p \<notin> set dels) (ups @ sg_entries g c)) = (t0 ++ map_of ups) |` (- set dels)" if "sg_tree g c = Some t0" for t0
      using sg_entries_tree[OF that] by (simp only: map_of_filter_paths map_of_append)
    then show "git_keeps sg_blob sg_tree g g' \<and> git_ResolveRef ?G g' = git_ResolveRef ?G g \<and>
        (\<forall>t t0. res = Inr t \<longrightarrow> sg_tree g c = Some t0 \<longrightarrow> distinct (map fst ups) \<longrightarrow> sg_tree g' t = Some ((t0 ++ map_of ups) |` (- set dels)))"
      using sg_add_keeps[OF add] by (simp add: small_git_def)
  qed
  show "write_tree_law ?G sg_blob sg_tree"
    using sg_add_keeps by (auto simp: write_tree_law_def small_git_def)
  show "commit_tree_law ?G sg_blob sg_tree"
    using sg_add_keeps sg_entries_tree by (fastforce simp: commit_tree_law_def small_git_def)
  show "update_ref_law ?G sg_blob sg_tree"
    by (auto simp: update_ref_law_def small_git_head git_keeps_def sg_blob_def sg_tree_def) (auto simp: small_git_def split: if_splits)
qed

lemma small_git_reads: "git_reads (small_git b) sg_blob sg_tree"
  unfolding git_reads_def
proof (intro conjI allI impI)
  fix c g t assume "sg_tree g c = Some t"
  then show "\<exists>m. git_ListTreeObjects (small_git b) c g = Inr m \<and> distinct (map fst m) \<and> map_of m = t"
    using sg_entries_tree[of g c t] by (simp add: small_git_def distinct_clearjunk map_of_clearjunk)
next
  fix c p g t oid d assume "sg_tree g c = Some t" "t p = Some oid" "sg_blob g oid = Some d"
  then show "git_ReadTreeFile (small_git b) c p g = Inr d" using sg_entries_tree[of g c t] by (simp add: small_git_def)
qed

lemma small_git_up: "\<not> b \<Longrightarrow> git_up (small_git b)"
  by (auto simp: git_up_def small_git_def data_head_def sg_add_def Let_def split: if_splits)

lemma small_git_stamp: "stamp_law (small_git b)"
  by (simp add: stamp_law_def small_git_def)

section \<open>Witness inputs\<close>

text \<open>A repository at an empty data commit, and a writer with one new object.\<close>

definition p_object :: bytes where "p_object = [5, 6]"

definition p_git :: smallGit where
  "p_git = \<lparr>sg_trees = [([9], [(manifestPath, [1, 3])])], sg_ref = [9]\<rparr>"

definition p_base :: Snapshot where
  "p_base = \<lparr>sn_repo = 0, sn_Commit = [9], sn_generation = 0,
     sn_Manifest = \<lparr>mf_FormatVersion = FormatVersion, mf_DefaultDatabase = [100], mf_Tables = Some [], mf_Objects = []\<rparr>,
     sn_objectSet = [], sn_objectOIDs = [], sn_cache = [], sn_pendingEdits = None\<rparr>"

definition p_writer :: Writer where
  "p_writer = \<lparr>w_repo = 0, w_base = Some p_base, w_expected = [9], w_objects = [(storage_Sum sha256 p_object, p_object)], w_objectOIDs = [],
     w_retained = None, w_parents = [], w_committed = False, w_workingLockHeld = False\<rparr>"

definition p_manifest :: Manifest where
  "p_manifest = fill_manifest (sn_Manifest p_base) [storage_Sum sha256 p_object]"

definition p_host :: "bool \<Rightarrow> smallGit host" where
  "p_host interrupted = \<lparr>ho_H = sha256, ho_git = small_git interrupted,
     ho_manifest = \<lparr>mj_Marshal = (\<lambda>m. if m = p_manifest then Inr [3] else Inl (LibraryError 3)),
                    mj_Decode = (\<lambda>d. if d = [3, 0x0A] then Inr (p_manifest, True) else Inl (LibraryError 3))\<rparr>,
     ho_json = \<lparr>json_Marshal = (\<lambda>_. Inl (LibraryError 3)), json_Decode = (\<lambda>_. Inl (LibraryError 3))\<rparr>,
     ho_lockWorking = Inr (), ho_lock = Inr ()\<rparr>"

definition p_repo :: "smallGit repository" where
  "p_repo = \<lparr>rs_id = 0, rs_git = p_git, rs_head = None, rs_memo = [], rs_scan = noScan, rs_journal = None\<rparr>"

lemma p_available: "available_objects p_writer = [storage_Sum sha256 p_object]"
  by (simp add: available_objects_def p_writer_def p_base_def)

lemma p_publication: "publication_manifest sha256 p_writer (sn_Manifest p_base) = Inr (p_manifest, [storage_Sum sha256 p_object])"
  by (simp add: publication_manifest_def p_available Let_def p_manifest_def)
    (simp add: p_writer_def p_base_def fill_manifest_def validateManifestInventory_def)

lemma p_writer_at: "writer_at sha256 sg_blob sg_tree p_git p_writer"
  by (auto simp: writer_at_def p_writer_def p_base_def snapshot_at_def index_or_empty_def sg_tree_def p_git_def tree_of_def)

lemma p_host_simps [simp]:
  "ho_H (p_host b) = sha256" "ho_git (p_host b) = small_git b" "ho_lock (p_host b) = Inr ()"
  "mj_Marshal (ho_manifest (p_host b)) p_manifest = Inr [3]" "mj_Decode (ho_manifest (p_host b)) [3, 0x0A] = Inr (p_manifest, True)"
  "rs_git p_repo = p_git" "rs_id p_repo = 0" "rs_head p_repo = None"
  by (simp_all add: p_host_def p_repo_def)

lemma p_lock: "lockForPublication (p_host b) True p_repo = (Inr (), p_repo)"
  by (simp add: lockForPublication_def requireCleanJournalLocked_def journalDirtyLocked_def p_host_def p_repo_def)

lemma p_tables: "mf_tables p_manifest = []" "manifest_DeepEqual p_manifest p_manifest"
  by (simp_all add: mf_tables_def manifest_DeepEqual_def p_manifest_def fill_manifest_def p_base_def gomap_equal_def)

section \<open>Publication\<close>

text \<open>
  C34. Publish, then read. With a Git that works and the data ref at the writer's base, a writer whose
  inventory is complete publishes: the result is committed, the ref is at the new commit, every object of
  the inventory is in the object database with the bytes its name says, and \<open>readSnapshot\<close> of the commit
  gives a snapshot with the same manifest, inventory and object ids.
\<close>

theorem publication_reads_back:
  assumes "git_writes (ho_git ho) blob tree" "git_reads (ho_git ho) blob tree" "git_up (ho_git ho)" "digest32 (ho_H ho)"
    and "writer_at (ho_H ho) blob tree (rs_git rs) w" "\<not> w_committed w" "w_repo w = rs_id rs"
    and "publication_manifest (ho_H ho) w m0 = Inr (m, available)" "distinct (map fst (mf_tables m))"
    and "mj_Marshal (ho_manifest ho) m = Inr data" "mj_Decode (ho_manifest ho) (data @ [0x0A]) = Inr (m', True)" "manifest_DeepEqual m m'"
    and "(if w_workingLockHeld w then (ho_lock ho, rs) else lockForPublication ho True rs) = (Inr (), rs1)"
    and "stamp_law (ho_git ho)" "head_inv (ho_git ho) rs1" "data_head (ho_git ho) (rs_git rs) = Inr (w_expected w)"
  shows "\<exists>c s s' rs'. CommitWithOutcomeMessage ho w m0 msg rs =
      ((\<lparr>cr_Outcome = OutcomeCommitted, cr_Commit = c, cr_Snapshot = Some s\<rparr>, None), w\<lparr>w_committed := True, w_objects := []\<rparr>, rs') \<and>
    git_ResolveRef (ho_git ho) (rs_git rs') = Inr c \<and> snapshot_at (ho_H ho) blob tree (rs_git rs') s \<and>
    sn_Commit s = c \<and> sn_Manifest s = m \<and> set (sn_objectSet s) = set available \<and>
    readSnapshot ho rs' c = Inr s' \<and> sn_Commit s' = c \<and> manifest_DeepEqual m (sn_Manifest s') \<and>
    set (sn_objectSet s') = set available \<and> map_of (sn_objectOIDs s') = map_of (sn_objectOIDs s)"
  by (rule publication_succeeds[OF assms])

theorem publication_reads_back_witness:
  "\<exists>c s s' rs'. CommitWithOutcomeMessage (p_host False) p_writer (sn_Manifest p_base) [] p_repo =
      ((\<lparr>cr_Outcome = OutcomeCommitted, cr_Commit = c, cr_Snapshot = Some s\<rparr>, None), p_writer\<lparr>w_committed := True, w_objects := []\<rparr>, rs') \<and>
    git_ResolveRef (small_git False) (rs_git rs') = Inr c \<and> readSnapshot (p_host False) rs' c = Inr s' \<and>
    set (sn_objectSet s') = {storage_Sum sha256 p_object}"
proof -
  have w: "\<not> w_committed p_writer" "w_repo p_writer = 0" "w_workingLockHeld p_writer = False" "w_expected p_writer = [9]"
    by (simp_all add: p_writer_def)
  have head: "head_inv (small_git False) p_repo" "data_head (small_git False) p_git = Inr [9]"
    by (simp_all add: head_inv_def small_git_head p_git_def)
  show ?thesis
    using publication_reads_back[of "p_host False" sg_blob sg_tree p_repo p_writer "sn_Manifest p_base" p_manifest "[storage_Sum sha256 p_object]"
        "[3]" p_manifest p_repo "[]"] small_git_writes small_git_reads small_git_up[of False] sha.digest32_axioms p_writer_at w p_publication
      p_tables p_lock head small_git_stamp by auto
qed

text \<open>
  C35. When the data ref moves. A publication that reports success found the ref at the writer's base and
  left it at its commit. A rejected one left the ref alone, with one exception: when \<open>update-ref\<close> moved the
  ref but failed to report it, the publication is rejected with a conflict although its commit is the
  head. The witness is such a publication, which \<open>RecoverCommit\<close> then reports as committed.
\<close>

theorem publication_moves_the_ref:
  assumes "git_writes (ho_git ho) blob tree" "digest32 (ho_H ho)" "writer_at (ho_H ho) blob tree (rs_git rs) w"
    and "CommitWithOutcomeMessage ho w m0 msg rs = ((result, err), w', rs')"
  shows "git_keeps blob tree (rs_git rs) (rs_git rs') \<and>
    (cr_Outcome result = OutcomeCommitted \<longrightarrow>
      data_head (ho_git ho) (rs_git rs) = Inr (w_expected w) \<and> git_ResolveRef (ho_git ho) (rs_git rs') = Inr (cr_Commit result)) \<and>
    (cr_Outcome result = OutcomeRejected \<longrightarrow> git_ResolveRef (ho_git ho) (rs_git rs') = git_ResolveRef (ho_git ho) (rs_git rs) \<or>
      err = Some (RepoError ErrConflict) \<and> data_head (ho_git ho) (rs_git rs) = Inr (w_expected w) \<and>
      git_ResolveRef (ho_git ho) (rs_git rs') = Inr (cr_Commit result))"
  using publication_outcome[OF assms] by blast

lemma p_interrupted:
  "\<exists>c rs'. CommitWithOutcomeMessage (p_host True) p_writer (sn_Manifest p_base) [] p_repo =
      ((\<lparr>cr_Outcome = OutcomeRejected, cr_Commit = c, cr_Snapshot = None\<rparr>, Some (RepoError ErrConflict)),
       p_writer\<lparr>w_committed := True, w_objects := []\<rparr>, rs') \<and> git_ResolveRef (small_git True) (rs_git rs') = Inr c \<and> c \<noteq> [9]"
proof -
  have obj: "mf_Objects p_manifest = [storage_Sum sha256 p_object]" by (simp add: p_manifest_def fill_manifest_def sortedHashSet_def)
  have w: "\<not> w_committed p_writer" "w_workingLockHeld p_writer = False" "w_expected p_writer = [9]" "known_oid p_writer h = []" for h
    by (simp_all add: p_writer_def known_oid_def p_base_def index_or_empty_def)
  have "\<exists>c entries g. write_commit (small_git True) p_writer p_manifest [storage_Sum sha256 p_object] ([3] @ [0x0A]) [] p_git =
      (Inr (2 # c, entries), g) \<and> sg_ref g = [9]"
    by (simp add: write_commit_def obj w small_git_def write_snapshot_tree_def sg_add_def Let_def) (simp add: p_writer_def p_git_def)
  then obtain c entries g where "write_commit (small_git True) p_writer p_manifest [storage_Sum sha256 p_object] ([3] @ [0x0A]) [] p_git =
      (Inr (2 # c, entries), g)" "sg_ref g = [9]" by blast
  moreover have "update_data_ref (small_git True) (2 # c) [9] g =
      (Some (\<lparr>cr_Outcome = OutcomeRejected, cr_Commit = 2 # c, cr_Snapshot = None\<rparr>, Some (RepoError ErrConflict)), g\<lparr>sg_ref := 2 # c\<rparr>)"
    using calculation(2) by (simp add: update_data_ref_def small_git_def)
  moreover have "repo_Head (p_host True) p_repo = (Inr [9], p_repo\<lparr>rs_head := Some ([9], [9])\<rparr>)"
  proof -
    have "git_stamp (small_git True) p_git = Inr [9]" "sg_ref p_git = [9]" by (simp_all add: small_git_def p_git_def)
    then show ?thesis by (simp add: repo_Head_def small_git_head)
  qed
  ultimately have "CommitWithOutcomeMessage (p_host True) p_writer (sn_Manifest p_base) [] p_repo =
      ((\<lparr>cr_Outcome = OutcomeRejected, cr_Commit = 2 # c, cr_Snapshot = None\<rparr>, Some (RepoError ErrConflict)),
       p_writer\<lparr>w_committed := True, w_objects := []\<rparr>, p_repo\<lparr>rs_head := Some ([9], [9]), rs_git := g\<lparr>sg_ref := 2 # c\<rparr>\<rparr>)"
    using w p_lock[of True] p_publication by (simp add: CommitWithOutcomeMessage_def Let_def)
  then show ?thesis by (simp add: small_git_def)
qed

theorem publication_moves_the_ref_witness:
  "\<exists>result rs' w'. CommitWithOutcomeMessage (p_host True) p_writer (sn_Manifest p_base) [] p_repo = ((result, Some (RepoError ErrConflict)), w', rs') \<and>
    cr_Outcome result = OutcomeRejected \<and> data_head (small_git True) p_git = Inr (w_expected p_writer) \<and>
    git_ResolveRef (small_git True) (rs_git rs') = Inr (cr_Commit result) \<and>
    cr_Outcome (fst (fst (RecoverCommit (p_host True) (cr_Commit result) rs'))) = OutcomeCommitted"
proof -
  obtain c rs' where run: "CommitWithOutcomeMessage (p_host True) p_writer (sn_Manifest p_base) [] p_repo =
      ((\<lparr>cr_Outcome = OutcomeRejected, cr_Commit = c, cr_Snapshot = None\<rparr>, Some (RepoError ErrConflict)),
       p_writer\<lparr>w_committed := True, w_objects := []\<rparr>, rs')" "git_ResolveRef (small_git True) (rs_git rs') = Inr c" "c \<noteq> [9]"
    using p_interrupted by blast
  have "git_ResolveRef (small_git True) p_git = Inr [9]" by (simp add: small_git_def p_git_def)
  then have "data_head (small_git True) p_git = Inr (w_expected p_writer)"
    using publication_moves_the_ref[of "p_host True" sg_blob sg_tree p_repo p_writer, OF _ _ _ run(1)] run(2,3)
      small_git_writes sha.digest32_axioms p_writer_at by simp
  moreover have "cr_Outcome (fst (fst (RecoverCommit (p_host True) c rs'))) = OutcomeCommitted"
    using run(2) by (simp add: RecoverCommit_def Let_def split: prod.split sum.split)
  ultimately show ?thesis using run by (intro exI conjI) (auto simp del: small_git_head)
qed

end
