(* ===== verification/Row_Merge.thy ===== *)
theory Row_Merge
  imports Snapshot_Store Sorted_Builder Row_Codec Prolly_Validate
begin

text \<open>
  The three-way merge of table rows (\<open>engine/merge.go\<close>): cursors over the base, local and remote trees,
  the loop that merges them key by key, and the resolution of conflicts. The loop hands each row of the
  result to \<open>emit\<close>; the merge of a table validates it and adds it to a sorted builder.
\<close>

section \<open>Definitions\<close>

datatype Resolution = TakeBase | TakeLocal | TakeRemote | TakeDelete | OtherResolution bytes

record MergeConflict =
  mc_ID :: bytes
  mc_Kind :: bytes
  mc_Table :: bytes
  mc_Key :: bytes
  mc_Base :: "bytes option"
  mc_Local :: "bytes option"
  mc_Remote :: "bytes option"

record tableVersion =
  tv_present :: bool
  tv_table :: Table
  tv_snapshot :: "Snapshot option"

subsection \<open>Base64 without padding\<close>

text \<open>\<open>base64.RawURLEncoding\<close> and \<open>base64.RawStdEncoding\<close> differ in the last two letters of the alphabet.\<close>

definition b64_letters :: "bytes \<Rightarrow> bytes" where
  "b64_letters two = ascii ''ABCDEFGHIJKLMNOPQRSTUVWXYZabcdefghijklmnopqrstuvwxyz0123456789'' @ two"

definition b64_url :: bytes where "b64_url = b64_letters [0x2D, 0x5F]"

definition b64_std :: bytes where "b64_std = b64_letters [0x2B, 0x2F]"

fun b64_digits :: "bytes \<Rightarrow> nat list" where
  "b64_digits [] = []"
| "b64_digits [a] = (let n = unat a * 16 in [n div 64, n mod 64])"
| "b64_digits [a, b] = (let n = (unat a * 256 + unat b) * 4 in [n div 4096, n div 64 mod 64, n mod 64])"
| "b64_digits (a # b # c # rest) =
     (let n = (unat a * 256 + unat b) * 256 + unat c in [n div 262144, n div 4096 mod 64, n div 64 mod 64, n mod 64]) @ b64_digits rest"

definition b64_EncodeToString :: "bytes \<Rightarrow> bytes \<Rightarrow> bytes" where
  "b64_EncodeToString letters src = map ((!) letters) (b64_digits src)"

subsection \<open>Cursors\<close>

definition version_get :: "(bytes \<Rightarrow> bytes) \<Rightarrow> gitReader \<Rightarrow> tableVersion \<Rightarrow> hash \<Rightarrow> error + bytes" where
  "version_get H readGit v h =
     (case tv_snapshot v of None \<Rightarrow> Inl (TableError NilDereference) | Some s \<Rightarrow> snapshot_read H readGit s h)"

definition version_iterator :: "(bytes \<Rightarrow> bytes) \<Rightarrow> gitReader \<Rightarrow> tableVersion \<Rightarrow> (error + iterator option) option" where
  "version_iterator H readGit v =
     (if \<not> tv_present v then Some (Inr None)
      else case prolly_Open (DataRoot (tv_table v)) of
        Inl e \<Rightarrow> Some (Inl e)
      | Inr t \<Rightarrow> map_option (map_sum id Some) (tree_Iterator (version_get H readGit v) (troot t)))"

record rowCursor =
  rc_iterator :: "iterator option"
  rc_entry :: entry
  rc_present :: bool

definition no_entry :: entry where "no_entry = \<lparr>ekey = [], evalue = []\<rparr>"

definition cursor_advance :: "(hash \<Rightarrow> error + bytes) \<Rightarrow> rowCursor \<Rightarrow> (error + rowCursor) option" where
  "cursor_advance get c =
     (case rc_iterator c of
        None \<Rightarrow> Some (Inr (c\<lparr>rc_present := False\<rparr>))
      | Some it \<Rightarrow>
          map_option (\<lambda>(r, it'). map_sum id
              (\<lambda>e. c\<lparr>rc_iterator := Some it', rc_entry := (case e of None \<Rightarrow> no_entry | Some e \<Rightarrow> e), rc_present := (e \<noteq> None)\<rparr>) r)
            (iterator_Next get it))"

definition newRowCursor :: "(bytes \<Rightarrow> bytes) \<Rightarrow> gitReader \<Rightarrow> tableVersion \<Rightarrow> (error + rowCursor) option" where
  "newRowCursor H readGit v =
     Option.bind (version_iterator H readGit v) (\<lambda>r. case r of
       Inl e \<Rightarrow> Some (Inl e)
     | Inr it \<Rightarrow> cursor_advance (version_get H readGit v) \<lparr>rc_iterator = it, rc_entry = no_entry, rc_present = False\<rparr>)"

subsection \<open>Choosing a value\<close>

definition sameValue :: "bytes option \<Rightarrow> bytes option \<Rightarrow> bool" where
  "sameValue a b \<longleftrightarrow> a = b"

definition row_id :: "bytes \<Rightarrow> bytes \<Rightarrow> bytes" where
  "row_id table key = ascii ''row:'' @ table @ 0x3A # b64_EncodeToString b64_url key"

definition row_conflict_of :: "bytes \<Rightarrow> bytes \<Rightarrow> bytes option \<Rightarrow> bytes option \<Rightarrow> bytes option \<Rightarrow> MergeConflict" where
  "row_conflict_of table key b l r =
     \<lparr>mc_ID = row_id table key, mc_Kind = ascii ''row'', mc_Table = table, mc_Key = b64_EncodeToString b64_std key,
      mc_Base = b, mc_Local = l, mc_Remote = r\<rparr>"

text \<open>The value of a key in the result (\<^const>\<open>None\<close>: no row), a conflict, or an invalid resolution.\<close>

definition merge_value ::
  "(bytes, Resolution) gomap \<Rightarrow> bytes \<Rightarrow> bytes \<Rightarrow> bytes option \<Rightarrow> bytes option \<Rightarrow> bytes option \<Rightarrow> error + (MergeConflict + bytes option)" where
  "merge_value resolutions table key b l r =
     (if sameValue l r then Inr (Inr l)
      else if sameValue l b then Inr (Inr r)
      else if sameValue r b then Inr (Inr l)
      else case map_of resolutions (row_id table key) of
        None \<Rightarrow> Inr (Inl (row_conflict_of table key b l r))
      | Some TakeBase \<Rightarrow> Inr (Inr b)
      | Some TakeLocal \<Rightarrow> Inr (Inr l)
      | Some TakeRemote \<Rightarrow> Inr (Inr r)
      | Some TakeDelete \<Rightarrow> Inr (Inr None)
      | Some (OtherResolution _) \<Rightarrow> Inl InvalidResolution)"

subsection \<open>The merge loop\<close>

type_synonym getCursor = "(hash \<Rightarrow> error + bytes) \<times> rowCursor"

definition least_key :: "getCursor list \<Rightarrow> bytes option" where
  "least_key cursors =
     fold (\<lambda>(_, c) key. if rc_present c \<and> (case key of None \<Rightarrow> True | Some k \<Rightarrow> ekey (rc_entry c) < k)
                        then Some (ekey (rc_entry c)) else key) cursors None"

text \<open>The values the cursors have for a key; each cursor at the key advances.\<close>

fun take_key :: "bytes \<Rightarrow> getCursor list \<Rightarrow> (error + bytes option list \<times> getCursor list) option" where
  "take_key key [] = Some (Inr ([], []))"
| "take_key key ((get, c) # cs) =
     Option.bind (if rc_present c \<and> ekey (rc_entry c) = key
                  then map_option (map_sum id (\<lambda>c'. (Some (evalue (rc_entry c)), c'))) (cursor_advance get c)
                  else Some (Inr (None, c))) (\<lambda>r. case r of
       Inl e \<Rightarrow> Some (Inl e)
     | Inr (v, c') \<Rightarrow> map_option (map_sum id (\<lambda>(vs, cs'). (v # vs, (get, c') # cs'))) (take_key key cs))"

partial_function (option) merge_loop ::
  "(bytes, Resolution) gomap \<Rightarrow> bytes \<Rightarrow> (entry \<Rightarrow> 's \<Rightarrow> (error + 's) option) \<Rightarrow> getCursor list \<Rightarrow> MergeConflict list \<Rightarrow> 's
    \<Rightarrow> (error + MergeConflict list \<times> 's) option" where
  "merge_loop resolutions table emit cursors conflicts s =
     (case least_key cursors of
        None \<Rightarrow> Some (Inr (conflicts, s))
      | Some key \<Rightarrow>
          Option.bind (take_key key cursors) (\<lambda>r. case r of
            Inl e \<Rightarrow> Some (Inl e)
          | Inr vc \<Rightarrow>
              (case merge_value resolutions table key (fst vc ! 0) (fst vc ! 1) (fst vc ! 2) of
                 Inl e \<Rightarrow> Some (Inl e)
               | Inr (Inl conflict) \<Rightarrow> merge_loop resolutions table emit (snd vc) (conflicts @ [conflict]) s
               | Inr (Inr None) \<Rightarrow> merge_loop resolutions table emit (snd vc) conflicts s
               | Inr (Inr (Some value)) \<Rightarrow>
                   Option.bind (emit \<lparr>ekey = key, evalue = value\<rparr> s) (\<lambda>r. case r of
                     Inl e \<Rightarrow> Some (Inl e)
                   | Inr s' \<Rightarrow> merge_loop resolutions table emit (snd vc) conflicts s'))))"

declare merge_loop.simps [code]

definition mergeRows ::
  "(bytes \<Rightarrow> bytes) \<Rightarrow> gitReader \<Rightarrow> (bytes, Resolution) gomap \<Rightarrow> bytes \<Rightarrow> tableVersion \<Rightarrow> tableVersion \<Rightarrow> tableVersion
    \<Rightarrow> (entry \<Rightarrow> 's \<Rightarrow> (error + 's) option) \<Rightarrow> 's \<Rightarrow> (error + MergeConflict list \<times> 's) option" where
  "mergeRows H readGit resolutions table b l r emit s =
     Option.bind (newRowCursor H readGit b) (\<lambda>rb. case rb of Inl e \<Rightarrow> Some (Inl e) | Inr bc \<Rightarrow>
     Option.bind (newRowCursor H readGit l) (\<lambda>rl. case rl of Inl e \<Rightarrow> Some (Inl e) | Inr lc \<Rightarrow>
     Option.bind (newRowCursor H readGit r) (\<lambda>rr. case rr of Inl e \<Rightarrow> Some (Inl e) | Inr rc \<Rightarrow>
       merge_loop resolutions table emit
         [(version_get H readGit b, bc), (version_get H readGit l, lc), (version_get H readGit r, rc)] [] s)))"

subsection \<open>What the merge of a table emits\<close>

definition validateEntry :: "sqllib \<Rightarrow> pkschema \<Rightarrow> entry \<Rightarrow> error + unit" where
  "validateEntry lib schema entry =
     (case decodeRow lib (schema_columns schema) (evalue entry) of
        Inl e \<Rightarrow> Inl e
      | Inr row \<Rightarrow>
          if list_ex (\<lambda>(column, cell). \<not> col_nullable column \<and> cell = None) (zip (schema_columns schema) row)
          then Inl (RowError ColumnNotNull)
          else case encodeKey schema row of
            Inl e \<Rightarrow> Inl e
          | Inr key \<Rightarrow> if key \<noteq> ekey entry then Inl (RowError RowKeyMismatch) else Inr ())"

definition merge_emit ::
  "sqllib \<Rightarrow> pkschema \<Rightarrow> ('s \<Rightarrow> bytes \<Rightarrow> error + hash \<times> 's) \<Rightarrow> entry \<Rightarrow> sorted_builder \<times> 's \<Rightarrow> (error + sorted_builder \<times> 's) option" where
  "merge_emit lib schema put entry bs =
     (case validateEntry lib schema entry of
        Inl e \<Rightarrow> Some (Inl e)
      | Inr _ \<Rightarrow> sb_Add put DefaultOptions entry (fst bs) (snd bs))"

section \<open>The merge of lists\<close>

text \<open>The reference: every key of the three lists, in order, with the value the rule gives it.\<close>

definition merge_keys :: "entry list list \<Rightarrow> bytes list" where
  "merge_keys ess = sort (remdups (map ekey (concat ess)))"

definition merge_plan ::
  "(bytes, Resolution) gomap \<Rightarrow> bytes \<Rightarrow> entry list \<Rightarrow> entry list \<Rightarrow> entry list \<Rightarrow> bytes \<Rightarrow> error + (MergeConflict + bytes option)" where
  "merge_plan resolutions table eb el er k = merge_value resolutions table k (elookup k eb) (elookup k el) (elookup k er)"

definition plan_entries :: "(bytes \<Rightarrow> error + (MergeConflict + bytes option)) \<Rightarrow> bytes list \<Rightarrow> entry list" where
  "plan_entries plan ks = concat (map (\<lambda>k. case plan k of Inr (Inr (Some v)) \<Rightarrow> [\<lparr>ekey = k, evalue = v\<rparr>] | _ \<Rightarrow> []) ks)"

definition plan_conflicts :: "(bytes \<Rightarrow> error + (MergeConflict + bytes option)) \<Rightarrow> bytes list \<Rightarrow> MergeConflict list" where
  "plan_conflicts plan ks = concat (map (\<lambda>k. case plan k of Inr (Inl c) \<Rightarrow> [c] | _ \<Rightarrow> []) ks)"

fun emits :: "(entry \<Rightarrow> 's \<Rightarrow> (error + 's) option) \<Rightarrow> entry list \<Rightarrow> 's \<Rightarrow> (error + 's) option" where
  "emits emit [] s = Some (Inr s)"
| "emits emit (e # es) s = Option.bind (emit e s) (\<lambda>r. case r of Inl e \<Rightarrow> Some (Inl e) | Inr s' \<Rightarrow> emits emit es s')"

section \<open>Results that succeed\<close>

lemma ok_simps:
  "map_sum id f x = Inr y \<longleftrightarrow> (\<exists>a. x = Inr a \<and> y = f a)"
  "(case x of Inl e \<Rightarrow> Some (Inl e) | Inr a \<Rightarrow> g a) = Some (Inr y) \<longleftrightarrow> (\<exists>a. x = Inr a \<and> g a = Some (Inr y))"
  by (cases x; auto)+

lemma ok_option_simps:
  "Option.bind u (\<lambda>x. case x of Inl e \<Rightarrow> Some (Inl e) | Inr a \<Rightarrow> g a) = Some (Inr y) \<longleftrightarrow> (\<exists>a. u = Some (Inr a) \<and> g a = Some (Inr y))"
  "map_option (map_sum id f) u = Some (Inr y) \<longleftrightarrow> (\<exists>a. u = Some (Inr a) \<and> y = f a)"
  by (cases u; auto simp: ok_simps)+

section \<open>The cursors\<close>

definition cursor_repr :: "(bytes \<Rightarrow> bytes) \<Rightarrow> getCursor \<Rightarrow> entry list \<Rightarrow> bool" where
  "cursor_repr H gc es \<longleftrightarrow> (case es of
     [] \<Rightarrow> \<not> rc_present (snd gc)
   | e # es' \<Rightarrow> rc_present (snd gc) \<and> rc_entry (snd gc) = e \<and> (\<exists>it. rc_iterator (snd gc) = Some it \<and> iter_repr (fst gc) H it es'))"

lemma cursor_repr_simps [simp]:
  "cursor_repr H gc [] \<longleftrightarrow> \<not> rc_present (snd gc)"
  "cursor_repr H gc (e # es) \<longleftrightarrow> rc_present (snd gc) \<and> rc_entry (snd gc) = e \<and> (\<exists>it. rc_iterator (snd gc) = Some it \<and> iter_repr (fst gc) H it es)"
  by (simp_all add: cursor_repr_def)

lemma elookup_Cons: "elookup k (e # es) = (if ekey e = k then Some (evalue e) else elookup k es)"
  by (simp add: elookup_def)

definition without :: "bytes \<Rightarrow> entry list \<Rightarrow> entry list" where
  "without k es = filter (\<lambda>e. ekey e \<noteq> k) es"

lemma without_least:
  assumes "keys_sorted es" "\<forall>e \<in> set es. k \<le> ekey e"
  shows "es = [] \<or> ekey (hd es) \<noteq> k \<Longrightarrow> without k es = es \<and> elookup k es = None"
    and "es \<noteq> [] \<Longrightarrow> ekey (hd es) = k \<Longrightarrow> without k es = tl es \<and> elookup k es = Some (evalue (hd es))"
  using assms by (cases es; fastforce simp: keys_sorted_def without_def elookup_def find_None_iff filter_id_conv)+

lemma without_simps:
  "keys_sorted es \<Longrightarrow> keys_sorted (without k es)" "set (without k es) = {e \<in> set es. ekey e \<noteq> k}"
  "k' \<noteq> k \<Longrightarrow> elookup k' (without k es) = elookup k' es"
proof -
  show "keys_sorted (without k es)" if "keys_sorted es"
    using that by (induction es) (auto simp: keys_sorted_def without_def)
  show "set (without k es) = {e \<in> set es. ekey e \<noteq> k}" by (auto simp: without_def)
  show "elookup k' (without k es) = elookup k' es" if "k' \<noteq> k"
    using that by (induction es) (auto simp: without_def elookup_def)
qed

text \<open>The least key of the cursors is the least key of the lists they stand for.\<close>

definition least_of :: "bytes option \<Rightarrow> bytes set \<Rightarrow> bool" where
  "least_of key ks \<longleftrightarrow> (case key of None \<Rightarrow> ks = {} | Some k \<Rightarrow> k \<in> ks \<and> (\<forall>k' \<in> ks. k \<le> k'))"

lemma least_of_step:
  assumes "least_of key ks" "a \<in> A" "\<forall>x \<in> A. a \<le> x"
  shows "least_of (if (case key of None \<Rightarrow> True | Some k \<Rightarrow> a < k) then Some a else key) (ks \<union> A)"
proof (cases key)
  case (Some k)
  have "\<forall>x \<in> ks \<union> A. a \<le> x" if "a < k" using assms that Some by (auto simp: least_of_def intro: order_trans[of a k] less_imp_le)
  moreover have "\<forall>x \<in> ks \<union> A. k \<le> x" if "\<not> a < k" using assms that Some by (auto simp: least_of_def not_less intro: order_trans[of k a])
  ultimately show ?thesis using assms Some by (simp add: least_of_def)
qed (use assms in \<open>simp add: least_of_def\<close>)

lemma least_key_fold:
  assumes "list_all2 (cursor_repr H) cs ess" "list_all keys_sorted ess" "least_of key ks"
  shows "least_of (fold (\<lambda>(_, c) key. if rc_present c \<and> (case key of None \<Rightarrow> True | Some k \<Rightarrow> ekey (rc_entry c) < k)
      then Some (ekey (rc_entry c)) else key) cs key) (ks \<union> ekey ` set (concat ess))"
  using assms
proof (induction cs ess arbitrary: key ks rule: list_all2_induct)
  case (Cons gc cs es ess)
  obtain get c where gc: "gc = (get, c)" by (cases gc)
  let ?key = "if rc_present c \<and> (case key of None \<Rightarrow> True | Some k \<Rightarrow> ekey (rc_entry c) < k) then Some (ekey (rc_entry c)) else key"
  have "least_of ?key (ks \<union> ekey ` set es)"
  proof (cases es)
    case Nil
    then have c: "rc_present c = False" using Cons.hyps(1) gc by simp
    show ?thesis using Cons.prems(2) unfolding c Nil by simp
  next
    case (Cons e es')
    have e: "rc_present c = True" "rc_entry c = e" using Cons.hyps(1) Cons gc by simp_all
    have le: "\<forall>x \<in> ekey ` set es. ekey e \<le> x" using Cons.prems(1) Cons by (auto simp: keys_sorted_def intro: less_imp_le)
    show ?thesis using least_of_step[OF Cons.prems(2) _ le] Cons unfolding e by simp
  qed
  then show ?case
    using Cons.IH[of ?key "ks \<union> ekey ` set es"] Cons.prems(1) by (simp add: gc image_Un Un_assoc)
qed simp

lemma least_key_repr:
  assumes "list_all2 (cursor_repr H) cs ess" "list_all keys_sorted ess"
  shows "least_key cs = None \<Longrightarrow> concat ess = []"
    and "least_key cs = Some k \<Longrightarrow> k \<in> ekey ` set (concat ess) \<and> (\<forall>e \<in> set (concat ess). k \<le> ekey e)"
  using least_key_fold[OF assms, where key = None and ks = "{}"] by (auto simp: least_key_def least_of_def)

context digest32
begin

lemma advance_repr:
  assumes "iter_repr get H it es" "rc_iterator c = Some it"
  shows "\<exists>c'. cursor_advance get c = Some (Inr c') \<and> cursor_repr H (get, c') es"
  using iterator_Next_pstored[OF assms(1)] assms(2) by (cases es) (auto simp: cursor_advance_def)

lemma take_key_repr:
  assumes "list_all2 (cursor_repr H) cs ess" "list_all keys_sorted ess" "\<forall>e \<in> set (concat ess). k \<le> ekey e"
  shows "\<exists>cs'. take_key k cs = Some (Inr (map (elookup k) ess, cs')) \<and> list_all2 (cursor_repr H) cs' (map (without k) ess)"
  using assms
proof (induction cs ess rule: list_all2_induct)
  case (Cons gc cs es ess)
  obtain get c where gc: "gc = (get, c)" by (cases gc)
  obtain cs' where rest: "take_key k cs = Some (Inr (map (elookup k) ess, cs'))" "list_all2 (cursor_repr H) cs' (map (without k) ess)"
    using Cons by auto
  have es: "keys_sorted es" "\<forall>e \<in> set es. k \<le> ekey e" using Cons.prems by auto
  show ?case
  proof (cases "es \<noteq> [] \<and> ekey (hd es) = k")
    case True
    then obtain e es' where e: "es = e # es'" "ekey e = k" by (cases es) auto
    then obtain it where c: "rc_present c" "rc_entry c = e" "rc_iterator c = Some it" "iter_repr get H it es'" using Cons.hyps(1) gc by auto
    then obtain c' where "cursor_advance get c = Some (Inr c')" "cursor_repr H (get, c') es'" using advance_repr by blast
    then show ?thesis using c e rest without_least(2)[OF es] by (simp add: gc)
  next
    case False
    then have c: "(rc_present c \<and> ekey (rc_entry c) = k) = False" using Cons.hyps(1) gc by (cases es) auto
    moreover have "without k es = es" "elookup k es = None" using False without_least(1)[OF es] by auto
    ultimately show ?thesis using rest Cons.hyps(1) unfolding gc take_key.simps c by simp
  qed
qed simp

end

section \<open>The loop computes the merge\<close>

lemma merge_keys_set: "set (merge_keys ess) = ekey ` set (concat ess)" "sorted_wrt (<) (merge_keys ess)"
  by (simp_all add: merge_keys_def strict_sorted_iff)

lemma merge_keys_step:
  assumes "k \<in> ekey ` set (concat ess)" "\<forall>e \<in> set (concat ess). k \<le> ekey e"
  shows "merge_keys ess = k # merge_keys (map (without k) ess)"
proof (rule sorted_distinct_set_unique)
  let ?ks = "merge_keys (map (without k) ess)"
  have set: "set ?ks = ekey ` set (concat ess) - {k}" by (auto simp: merge_keys_set(1) without_simps(2))
  show "sorted (merge_keys ess)" "distinct (merge_keys ess)" using merge_keys_set(2)[of ess] by (simp_all add: strict_sorted_iff)
  show "sorted (k # ?ks)" "distinct (k # ?ks)"
    using merge_keys_set(2)[of "map (without k) ess"] assms(2) set by (auto simp: strict_sorted_iff)
  show "set (merge_keys ess) = set (k # ?ks)" using set assms(1) by (auto simp: merge_keys_set(1))
qed

context digest32
begin

lemma merge_loop_spec:
  assumes "list_all2 (cursor_repr H) cs [eb, el, er]" "list_all keys_sorted [eb, el, er]"
    and "\<forall>k \<in> set (merge_keys [eb, el, er]). plan k = merge_plan resolutions table eb el er k \<and> \<not> isl (plan k)"
  shows "merge_loop resolutions table emit cs conflicts s =
    map_option (map_sum id (\<lambda>s'. (conflicts @ plan_conflicts plan (merge_keys [eb, el, er]), s')))
      (emits emit (plan_entries plan (merge_keys [eb, el, er])) s)"
  using assms
proof (induction "merge_keys [eb, el, er]" arbitrary: eb el er cs conflicts s)
  case Nil
  then have "least_key cs = None"
    using least_key_repr(2)[OF Nil.prems(1,2)] merge_keys_set(1)[of "[eb, el, er]"] by (cases "least_key cs") auto
  then show ?case using Nil.hyps by (subst merge_loop.simps) (simp add: plan_entries_def plan_conflicts_def)
next
  case (Cons k ks)
  have ne: "concat [eb, el, er] \<noteq> []" using Cons.hyps(2) by (auto simp: merge_keys_def)
  then obtain k' where k': "least_key cs = Some k'" using least_key_repr(1)[OF Cons.prems(1,2)] by (cases "least_key cs") auto
  note least = least_key_repr(2)[OF Cons.prems(1,2) k']
  have "merge_keys [eb, el, er] = k' # merge_keys (map (without k') [eb, el, er])" using merge_keys_step least by blast
  then have k: "k' = k" and ks: "merge_keys [without k eb, without k el, without k er] = ks" using Cons.hyps(2) by auto
  obtain cs' where take: "take_key k cs = Some (Inr (map (elookup k) [eb, el, er], cs'))"
      "list_all2 (cursor_repr H) cs' [without k eb, without k el, without k er]"
    using take_key_repr[OF Cons.prems(1,2)] least k by (metis (no_types, lifting) list.simps(8,9))
  have "k' \<noteq> k" if "k' \<in> set ks" for k' using merge_keys_set(2)[of "[eb, el, er]"] Cons.hyps(2)[symmetric] that by auto
  then have plan: "\<forall>k' \<in> set ks. plan k' = merge_plan resolutions table (without k eb) (without k el) (without k er) k' \<and> \<not> isl (plan k')"
    using Cons.prems(3) unfolding Cons.hyps(2)[symmetric] by (metis list.set_intros(2) merge_plan_def without_simps(3))
  have sorted: "list_all keys_sorted [without k eb, without k el, without k er]" using Cons.prems(2) by (simp add: without_simps(1))
  have IH: "merge_loop resolutions table emit cs' conf s =
      map_option (map_sum id (\<lambda>s'. (conf @ plan_conflicts plan ks, s'))) (emits emit (plan_entries plan ks) s)" for conf s
    using Cons.hyps(1)[OF ks[symmetric] take(2) sorted plan[folded ks], of conf s] unfolding ks .
  have pk: "plan k = merge_value resolutions table k (elookup k eb) (elookup k el) (elookup k er)" "\<not> isl (plan k)"
    using bspec[OF Cons.prems(3), of k] Cons.hyps(2)[symmetric] by (auto simp: merge_plan_def)
  have loop: "merge_loop resolutions table emit cs conflicts s =
      (case plan k of
         Inl e \<Rightarrow> Some (Inl e)
       | Inr (Inl conflict) \<Rightarrow> merge_loop resolutions table emit cs' (conflicts @ [conflict]) s
       | Inr (Inr None) \<Rightarrow> merge_loop resolutions table emit cs' conflicts s
       | Inr (Inr (Some value)) \<Rightarrow>
           Option.bind (emit \<lparr>ekey = k, evalue = value\<rparr> s) (\<lambda>r. case r of Inl e \<Rightarrow> Some (Inl e) | Inr s' \<Rightarrow> merge_loop resolutions table emit cs' conflicts s'))"
    by (subst merge_loop.simps) (simp add: k' k take(1) pk(1) cong: sum.case_cong option.case_cong)
  show ?case
    unfolding loop IH Cons.hyps(2)[symmetric] using pk(2)
    by (auto simp: plan_entries_def plan_conflicts_def option.map_comp comp_def split: sum.splits option.splits Option.bind_splits)
qed

end

section \<open>Merging stored trees\<close>

text \<open>A table version and the entries of its stored tree; an absent table has none.\<close>

definition version_repr :: "(bytes \<Rightarrow> bytes) \<Rightarrow> gitReader \<Rightarrow> tableVersion \<Rightarrow> entry list \<Rightarrow> bool" where
  "version_repr H readGit v es \<longleftrightarrow>
     (if tv_present v
      then \<exists>t. pvalid t \<and> pstored (version_get H readGit v) H t \<and> DataRoot (tv_table v) = proot H t \<and> es = pentries t
      else es = [])"

lemma version_repr_sorted: "version_repr H readGit v es \<Longrightarrow> keys_sorted es"
  by (auto simp: version_repr_def pvalid_def keys_sorted_def split: if_splits)

lemma version_repr_ok: "version_repr H readGit v es \<Longrightarrow> list_all entry_ok es"
  by (auto simp: version_repr_def pvalid_def list_all_iff intro: entry_key_bound split: if_splits)

lemma emits_merge_emit:
  assumes "\<forall>e \<in> set es. validateEntry lib schema e = Inr ()"
  shows "emits (merge_emit lib schema put) es (b, s) = sb_adds put DefaultOptions es b s"
  using assms
proof (induction es arbitrary: b s)
  case (Cons e es)
  then show ?case by (cases "sb_Add put DefaultOptions e b s") (auto simp: merge_emit_def split: sum.split)
qed simp

text \<open>The three-way rule, on the values of one key.\<close>

definition three_way :: "(bytes, Resolution) gomap \<Rightarrow> bytes \<Rightarrow> bytes \<Rightarrow> bytes option \<Rightarrow> bytes option \<Rightarrow> bytes option \<Rightarrow> bytes option" where
  "three_way resolutions table k b l r =
     (if l = r then l else if l = b then r else if r = b then l
      else case map_of resolutions (row_id table k) of
        Some TakeBase \<Rightarrow> b | Some TakeLocal \<Rightarrow> l | Some TakeRemote \<Rightarrow> r | _ \<Rightarrow> None)"

definition unresolved :: "(bytes, Resolution) gomap \<Rightarrow> bytes \<Rightarrow> bytes \<Rightarrow> bytes option \<Rightarrow> bytes option \<Rightarrow> bytes option \<Rightarrow> bool" where
  "unresolved resolutions table k b l r \<longleftrightarrow> l \<noteq> r \<and> l \<noteq> b \<and> r \<noteq> b \<and> map_of resolutions (row_id table k) = None"

definition resolutions_ok :: "(bytes, Resolution) gomap \<Rightarrow> bool" where
  "resolutions_ok resolutions \<longleftrightarrow> (\<forall>k x. map_of resolutions k \<noteq> Some (OtherResolution x))"

lemma merge_value_three_way:
  assumes "resolutions_ok resolutions"
  shows "merge_value resolutions table k b l r =
    (if unresolved resolutions table k b l r then Inr (Inl (row_conflict_of table k b l r)) else Inr (Inr (three_way resolutions table k b l r)))"
  using assms
  by (auto simp: merge_value_def unresolved_def three_way_def sameValue_def resolutions_ok_def split: option.split Resolution.split)

lemma plan_entries_Cons:
  "plan_entries plan (k # ks) = (case plan k of Inr (Inr (Some v)) \<Rightarrow> [\<lparr>ekey = k, evalue = v\<rparr>] | _ \<Rightarrow> []) @ plan_entries plan ks"
  by (simp add: plan_entries_def)

lemma plan_entries_length: "length (plan_entries plan ks) \<le> length ks"
  by (induction ks) (auto simp: plan_entries_def split: sum.split option.split)

lemma plan_entries_keys: "ekey ` set (plan_entries plan ks) \<subseteq> set ks"
  by (auto simp: plan_entries_def split: sum.splits option.splits)

lemma plan_entries_lookup:
  assumes "distinct ks"
  shows "elookup k (plan_entries plan ks) = (if k \<in> set ks then (case plan k of Inr (Inr v) \<Rightarrow> v | _ \<Rightarrow> None) else None)"
  using assms
proof (induction ks)
  case (Cons k' ks)
  have "elookup k' (plan_entries plan ks) = None" if "k' \<notin> set ks"
    using plan_entries_keys[of plan ks] that by (intro elookup_None) auto
  then show ?case using Cons by (auto simp: plan_entries_Cons elookup_Cons split: sum.splits option.splits)
qed (simp add: plan_entries_def elookup_def)

lemma plan_entries_sorted: "sorted_wrt (<) ks \<Longrightarrow> keys_sorted (plan_entries plan ks)"
proof (induction ks)
  case (Cons k ks)
  then show ?case
    using plan_entries_keys[of plan ks] by (fastforce simp: plan_entries_Cons keys_sorted_def split: sum.splits option.splits)
qed (simp add: plan_entries_def keys_sorted_def)

text \<open>The merged entries all come from one of the three versions.\<close>

lemma three_way_cases: "three_way resolutions table k b l r \<in> {None, b, l, r}"
  by (auto simp: three_way_def split: option.split Resolution.split)

lemma elookup_in: "elookup k es = Some v \<Longrightarrow> \<lparr>ekey = k, evalue = v\<rparr> \<in> set es"
  by (auto simp: elookup_def find_Some_iff in_set_conv_nth)

lemma merged_from_versions:
  assumes "resolutions_ok resolutions" "e \<in> set (plan_entries (merge_plan resolutions table eb el er) ks)"
  shows "e \<in> set eb \<union> set el \<union> set er"
proof -
  obtain k v where k: "merge_plan resolutions table eb el er k = Inr (Inr (Some v))" "e = \<lparr>ekey = k, evalue = v\<rparr>"
    using assms(2) by (auto simp: plan_entries_def split: sum.splits option.splits)
  then have "three_way resolutions table k (elookup k eb) (elookup k el) (elookup k er) = Some v"
    by (simp add: merge_plan_def merge_value_three_way[OF assms(1)] split: if_splits)
  then have "elookup k eb = Some v \<or> elookup k el = Some v \<or> elookup k er = Some v"
    using three_way_cases[of resolutions table k "elookup k eb" "elookup k el" "elookup k er"] by auto
  then show ?thesis using elookup_in k(2) by blast
qed

context digest32
begin

lemma newRowCursor_repr:
  assumes "version_repr H readGit v es"
  shows "\<exists>c. newRowCursor H readGit v = Some (Inr c) \<and> cursor_repr H (version_get H readGit v, c) es"
proof (cases "tv_present v")
  case False
  then show ?thesis using assms by (simp add: version_repr_def newRowCursor_def version_iterator_def cursor_advance_def)
next
  case True
  then obtain t where t: "pvalid t" "pstored (version_get H readGit v) H t" "DataRoot (tv_table v) = proot H t" "es = pentries t"
    using assms by (auto simp: version_repr_def)
  obtain it where it: "tree_Iterator (version_get H readGit v) (proot H t) = Some (Inr it)" "iter_repr (version_get H readGit v) H it es"
    using tree_Iterator_pstored[OF t(1,2)] t(4) by blast
  have "hash_Valid (proot H t)" by (simp add: proot_def hash_Valid_Sum)
  then show ?thesis
    using advance_repr[OF it(2), of "\<lparr>rc_iterator = Some it, rc_entry = no_entry, rc_present = False\<rparr>"] True t(3) it(1)
    by (auto simp: newRowCursor_def version_iterator_def prolly_Open_def)
qed

lemma mergeRows_spec:
  fixes table :: bytes
  assumes "version_repr H readGit b eb" "version_repr H readGit l el" "version_repr H readGit r er" "resolutions_ok resolutions"
  defines "plan \<equiv> merge_plan resolutions table eb el er" and "ks \<equiv> merge_keys [eb, el, er]"
  shows "mergeRows H readGit resolutions table b l r emit s =
    map_option (map_sum id (\<lambda>s'. (plan_conflicts plan ks, s'))) (emits emit (plan_entries plan ks) s)"
proof -
  obtain bc lc rc where c: "newRowCursor H readGit b = Some (Inr bc)" "cursor_repr H (version_get H readGit b, bc) eb"
      "newRowCursor H readGit l = Some (Inr lc)" "cursor_repr H (version_get H readGit l, lc) el"
      "newRowCursor H readGit r = Some (Inr rc)" "cursor_repr H (version_get H readGit r, rc) er"
    using newRowCursor_repr[OF assms(1)] newRowCursor_repr[OF assms(2)] newRowCursor_repr[OF assms(3)] by blast
  have sorted: "list_all keys_sorted [eb, el, er]" using version_repr_sorted assms(1-3) by simp
  have "\<not> isl (plan k)" for k by (simp add: plan_def merge_plan_def merge_value_three_way[OF assms(4)])
  then show ?thesis
    using merge_loop_spec[of "[(version_get H readGit b, bc), (version_get H readGit l, lc), (version_get H readGit r, rc)]" eb el er plan
        resolutions table emit "[]" s] c sorted
    by (simp add: mergeRows_def plan_def ks_def)
qed

end

section \<open>Merging into a sorted builder\<close>

definition merged :: "(bytes, Resolution) gomap \<Rightarrow> bytes \<Rightarrow> entry list \<Rightarrow> entry list \<Rightarrow> entry list \<Rightarrow> entry list" where
  "merged resolutions table eb el er = plan_entries (merge_plan resolutions table eb el er) (merge_keys [eb, el, er])"

lemma merged_entries_ok:
  assumes "version_repr H readGit b eb" "version_repr H readGit l el" "version_repr H readGit r er" "resolutions_ok resolutions"
    and "length eb + length el + length er < 2 ^ 64"
  shows "entries_ok (merged resolutions table eb el er)"
proof -
  let ?ks = "merge_keys [eb, el, er]"
  have "length (merged resolutions table eb el er) \<le> length ?ks" unfolding merged_def by (rule plan_entries_length)
  also have "\<dots> \<le> length eb + length el + length er"
    using length_remdups_leq[of "map ekey (concat [eb, el, er])"] by (simp add: merge_keys_def)
  finally have "length (merged resolutions table eb el er) < 2 ^ 64" using assms(5) by simp
  moreover have "list_all entry_ok (merged resolutions table eb el er)"
    using merged_from_versions[OF assms(4)] version_repr_ok[OF assms(1)] version_repr_ok[OF assms(2)] version_repr_ok[OF assms(3)]
    by (fastforce simp: merged_def list_all_iff)
  ultimately show ?thesis
    using plan_entries_sorted[OF merge_keys_set(2)] by (simp add: entries_ok_def merged_def)
qed

text \<open>Without conflicts the merged list gives every key the value of the three-way rule.\<close>

lemma merged_three_way:
  assumes "resolutions_ok resolutions" "plan_conflicts (merge_plan resolutions table eb el er) (merge_keys [eb, el, er]) = []"
  shows "keys_sorted (merged resolutions table eb el er)"
    and "elookup k (merged resolutions table eb el er) = three_way resolutions table k (elookup k eb) (elookup k el) (elookup k er)"
proof -
  let ?plan = "merge_plan resolutions table eb el er" and ?ks = "merge_keys [eb, el, er]"
  have dist: "distinct ?ks" using merge_keys_set(2)[of "[eb, el, er]"] by (simp add: strict_sorted_iff)
  show "keys_sorted (merged resolutions table eb el er)" using plan_entries_sorted[OF merge_keys_set(2)] by (simp add: merged_def)
  show "elookup k (merged resolutions table eb el er) = three_way resolutions table k (elookup k eb) (elookup k el) (elookup k er)"
  proof (cases "k \<in> set ?ks")
    case False
    then have "elookup k eb = None" "elookup k el = None" "elookup k er = None"
      by (auto intro!: elookup_None simp: merge_keys_set(1))
    then show ?thesis using False dist by (simp add: merged_def plan_entries_lookup three_way_def)
  next
    case True
    have "\<not> unresolved resolutions table k (elookup k eb) (elookup k el) (elookup k er)"
      using assms(2) True by (auto simp: plan_conflicts_def merge_plan_def merge_value_three_way[OF assms(1)])
    then show ?thesis
      using True dist by (simp add: merged_def plan_entries_lookup merge_plan_def merge_value_three_way[OF assms(1)])
  qed
qed

lemma emits_valid: "emits (merge_emit lib schema put) es bs = Some (Inr x) \<Longrightarrow> \<forall>e \<in> set es. validateEntry lib schema e = Inr ()"
proof (induction es arbitrary: bs)
  case (Cons e es)
  then show ?case
    by (cases "validateEntry lib schema e"; cases "merge_emit lib schema put e bs") (auto simp: merge_emit_def split: sum.splits)
qed simp

text \<open>A merge that ends without conflicts has built the canonical tree of the merged rows.\<close>

lemma merge_rows_result:
  assumes st: "content_store H get put I" "I s"
    and v: "version_repr H readGit b eb" "version_repr H readGit l el" "version_repr H readGit r er" "resolutions_ok resolutions"
    and len: "length eb + length el + length er < 2 ^ 64"
    and bld: "NewSortedBuilder DefaultOptions = Inr bld"
    and run: "mergeRows H readGit resolutions table b l r (merge_emit lib schema put) (bld, s) = Some (Inr ([], (b1, s1)))"
  shows "\<exists>s'. sb_Finish put DefaultOptions b1 s1 = Some (Inr (\<lparr>troot = proot H (canon DefaultOptions (merged resolutions table eb el er)),
      toptions = DefaultOptions\<rparr>, s')) \<and> store_extends get H I s s' (pobjects H (canon DefaultOptions (merged resolutions table eb el er)))"
    and "plan_conflicts (merge_plan resolutions table eb el er) (merge_keys [eb, el, er]) = []"
proof -
  let ?es = "merged resolutions table eb el er"
  have H: "digest32 H" using st(1) by (rule content_store.axioms(1))
  have run': "emits (merge_emit lib schema put) ?es (bld, s) = Some (Inr (b1, s1))"
      and c: "plan_conflicts (merge_plan resolutions table eb el er) (merge_keys [eb, el, er]) = []"
    using run digest32.mergeRows_spec[OF H v, of table "merge_emit lib schema put" "(bld, s)"]
    by (auto simp: merged_def ok_simps)
  have adds: "sb_adds put DefaultOptions ?es bld s = Some (Inr (b1, s1))"
    using emits_merge_emit[OF emits_valid[OF run']] run' by metis
  have opt: "chunking_ok DefaultOptions" by (simp add: chunking_ok_def options_validate_def DefaultOptions_def)
  show "\<exists>s'. sb_Finish put DefaultOptions b1 s1 = Some (Inr (\<lparr>troot = proot H (canon DefaultOptions ?es), toptions = DefaultOptions\<rparr>, s'))
      \<and> store_extends get H I s s' (pobjects H (canon DefaultOptions ?es))"
    using content_store.sorted_builder_canon[OF st opt merged_entries_ok[OF v len, of table] bld] adds by auto
  show "plan_conflicts (merge_plan resolutions table eb el er) (merge_keys [eb, el, er]) = []" by (rule c)
qed

text \<open>
  Merging the rows of a table into a sorted builder: without unresolved conflicts the merge runs to its
  end, and the result is the canonical tree of the rows the three-way rule gives.
\<close>

lemma merge_table_canonical:
  assumes st: "content_store H get put I" "I s"
    and v: "version_repr H readGit b eb" "version_repr H readGit l el" "version_repr H readGit r er" "resolutions_ok resolutions"
    and valid: "\<forall>e \<in> set eb \<union> set el \<union> set er. validateEntry lib schema e = Inr ()"
    and res: "\<And>k. \<not> unresolved resolutions table k (elookup k eb) (elookup k el) (elookup k er)"
    and len: "length eb + length el + length er < 2 ^ 64"
  shows "\<exists>bld b1 s1 s' es. NewSortedBuilder DefaultOptions = Inr bld
    \<and> mergeRows H readGit resolutions table b l r (merge_emit lib schema put) (bld, s) = Some (Inr ([], (b1, s1)))
    \<and> sb_Finish put DefaultOptions b1 s1 = Some (Inr (\<lparr>troot = proot H (canon DefaultOptions es), toptions = DefaultOptions\<rparr>, s'))
    \<and> store_extends get H I s s' (pobjects H (canon DefaultOptions es)) \<and> keys_sorted es
    \<and> (\<forall>k. elookup k es = three_way resolutions table k (elookup k eb) (elookup k el) (elookup k er))"
proof -
  let ?es = "merged resolutions table eb el er"
  have H: "digest32 H" using st(1) by (rule content_store.axioms(1))
  have none: "plan_conflicts (merge_plan resolutions table eb el er) (merge_keys [eb, el, er]) = []"
    using res by (simp add: plan_conflicts_def merge_plan_def merge_value_three_way[OF v(4)])
  have opt: "chunking_ok DefaultOptions" by (simp add: chunking_ok_def options_validate_def DefaultOptions_def)
  then obtain bld where bld: "NewSortedBuilder DefaultOptions = Inr bld" by (simp add: NewSortedBuilder_def chunking_ok_def)
  obtain b1 s1 where adds: "sb_adds put DefaultOptions ?es bld s = Some (Inr (b1, s1))"
    using content_store.sorted_builder_canon[OF st opt merged_entries_ok[OF v len] bld] by blast
  have "\<forall>e \<in> set ?es. validateEntry lib schema e = Inr ()" using merged_from_versions[OF v(4)] valid by (auto simp: merged_def)
  then have "emits (merge_emit lib schema put) ?es (bld, s) = Some (Inr (b1, s1))" using emits_merge_emit adds by metis
  then have run: "mergeRows H readGit resolutions table b l r (merge_emit lib schema put) (bld, s) = Some (Inr ([], (b1, s1)))"
    using digest32.mergeRows_spec[OF H v, of table "merge_emit lib schema put" "(bld, s)"] none by (simp add: merged_def)
  note fin = merge_rows_result(1)[OF st v len bld run]
  show ?thesis using bld run fin merged_three_way[OF v(4) none] by blast
qed

end
