(* ===== verification/Validation_Cache.thy ===== *)
theory Validation_Cache
  imports Snapshot_Store
begin

text \<open>
  The cache of validated tables (\<open>validationCache\<close> in \<open>engine/engine.go\<close>). The Go map \<open>tables\<close>
  indexes the elements of the list \<open>tableOrder\<close> by their keys; here it is a search of the list, whose
  front is the most recently used entry. Strings are bytes; the identity of a repository is the parameter
  \<open>identity\<close>. The cache of validated nodes is a parameter of \<open>Validate\<close> and is not defined here.
\<close>

section \<open>Definitions\<close>

definition maxValidatedTables :: nat where "maxValidatedTables = 1024"

definition maxValidatedObjects :: int where "maxValidatedObjects = 2 ^ 20"

record validationCacheEntry =
  ve_key :: bytes
  ve_objects :: "ObjectRef list"

record validationCache =
  vc_tableOrder :: "validationCacheEntry list"
  vc_tableObjects :: int

definition newValidationCache :: validationCache where
  "newValidationCache = \<lparr>vc_tableOrder = [], vc_tableObjects = 0\<rparr>"

definition tableValidationKey :: "(nat \<Rightarrow> bytes) \<Rightarrow> Snapshot \<Rightarrow> Table \<Rightarrow> bytes" where
  "tableValidationKey identity snapshot table =
     identity (sn_repo snapshot) @ 0 # ascii ''6'' @ 0 # SchemaRoot table @ 0 # DataRoot table @
     concat (map (\<lambda>name. 0 # name @ 0x3D # index_or_empty (Indexes table) name) (sort (map fst (Indexes table))))"

definition cache_entry :: "validationCache \<Rightarrow> bytes \<Rightarrow> validationCacheEntry option" where
  "cache_entry c key = find (\<lambda>e. ve_key e = key) (vc_tableOrder c)"

definition others :: "bytes \<Rightarrow> validationCacheEntry list \<Rightarrow> validationCacheEntry list" where
  "others key = filter (\<lambda>e. ve_key e \<noteq> key)"

definition lookupTable :: "validationCache \<Rightarrow> Snapshot \<Rightarrow> bytes \<Rightarrow> ObjectRef list option \<times> validationCache" where
  "lookupTable c snapshot key =
     (case cache_entry c key of
        None \<Rightarrow> (None, c)
      | Some e \<Rightarrow>
          (if Provides snapshot (ve_objects e) then Some (ve_objects e) else None,
           c\<lparr>vc_tableOrder := e # others key (vc_tableOrder c)\<rparr>))"

definition over_limit :: "validationCache \<Rightarrow> bool" where
  "over_limit c \<longleftrightarrow> length (vc_tableOrder c) > 1
     \<and> (length (vc_tableOrder c) > maxValidatedTables \<or> vc_tableObjects c > maxValidatedObjects)"

function evict_tables :: "validationCache \<Rightarrow> validationCache" where
  "evict_tables c =
     (if over_limit c
      then evict_tables \<lparr>vc_tableOrder = butlast (vc_tableOrder c),
                         vc_tableObjects = vc_tableObjects c - int (length (ve_objects (last (vc_tableOrder c))))\<rparr>
      else c)"
  by pat_completeness auto
termination by (relation "measure (\<lambda>c. length (vc_tableOrder c))") (auto simp: over_limit_def)

declare evict_tables.simps [simp del]

definition rememberTable :: "validationCache \<Rightarrow> bytes \<Rightarrow> ObjectRef list \<Rightarrow> validationCache" where
  "rememberTable c key objects =
     (let kept = (case cache_entry c key of None \<Rightarrow> vc_tableObjects c | Some e \<Rightarrow> vc_tableObjects c - int (length (ve_objects e)))
      in evict_tables \<lparr>vc_tableOrder = \<lparr>ve_key = key, ve_objects = objects\<rparr> # others key (vc_tableOrder c),
                       vc_tableObjects = kept + int (length objects)\<rparr>)"

definition refHashes :: "ObjectRef list \<Rightarrow> hash list" where
  "refHashes refs = map ref_Hash refs"

definition validatedTableObjects ::
  "(nat \<Rightarrow> bytes) \<Rightarrow> validationCache \<Rightarrow> Snapshot \<Rightarrow> bytes \<Rightarrow> hash list option \<times> validationCache" where
  "validatedTableObjects identity c snapshot name =
     (case map_of (mf_tables (sn_Manifest snapshot)) name of
        None \<Rightarrow> (None, c)
      | Some table \<Rightarrow> apfst (map_option refHashes) (lookupTable c snapshot (tableValidationKey identity snapshot table)))"

section \<open>The invariant of the cache\<close>

text \<open>One entry per key, an exact count of the recorded objects, and the two bounds, from which one entry is exempt.\<close>

definition recorded_objects :: "validationCacheEntry list \<Rightarrow> int" where
  "recorded_objects es = (\<Sum>e\<leftarrow>es. int (length (ve_objects e)))"

definition cache_counts :: "validationCache \<Rightarrow> bool" where
  "cache_counts c \<longleftrightarrow> distinct (map ve_key (vc_tableOrder c)) \<and> vc_tableObjects c = recorded_objects (vc_tableOrder c)"

definition vcache_ok :: "validationCache \<Rightarrow> bool" where
  "vcache_ok c \<longleftrightarrow> cache_counts c \<and> \<not> over_limit c"

lemma recorded_objects_simps [simp]:
  "recorded_objects [] = 0" "recorded_objects (e # es) = int (length (ve_objects e)) + recorded_objects es"
  by (simp_all add: recorded_objects_def)

lemma recorded_objects_last: "es \<noteq> [] \<Longrightarrow> recorded_objects es = recorded_objects (butlast es) + int (length (ve_objects (last es)))"
  by (induction es) auto

lemma others_simps:
  "ve_key e \<notin> ve_key ` set (others (ve_key e) es)" "distinct (map ve_key es) \<Longrightarrow> distinct (map ve_key (others k es))"
  "k' \<noteq> k \<Longrightarrow> find (\<lambda>e. ve_key e = k') (others k es) = find (\<lambda>e. ve_key e = k') es"
proof -
  show "distinct (map ve_key (others k es))" if "distinct (map ve_key es)"
    using that by (simp add: others_def distinct_map inj_on_def)
  show "find (\<lambda>e. ve_key e = k') (others k es) = find (\<lambda>e. ve_key e = k') es" if "k' \<noteq> k"
    using that by (induction es) (auto simp: others_def)
qed (auto simp: others_def)

lemma find_key: "find (\<lambda>e. ve_key e = key) es = Some e \<Longrightarrow> e \<in> set es \<and> ve_key e = key"
  by (auto simp: find_Some_iff)

lemma find_take: "find P (take n xs) = None \<or> find P (take n xs) = find P xs"
  by (induction xs arbitrary: n) (auto simp: take_Cons split: nat.split)

lemma recorded_others:
  assumes "distinct (map ve_key es)"
  shows "recorded_objects (others key es) =
    recorded_objects es - (case find (\<lambda>e. ve_key e = key) es of None \<Rightarrow> 0 | Some e \<Rightarrow> int (length (ve_objects e)))"
  using assms
proof (induction es)
  case (Cons e es)
  have "others (ve_key e) es = es" using Cons.prems by (auto simp: others_def filter_id_conv image_iff)
  then show ?case using Cons by (auto simp: others_def)
qed (simp add: others_def)

lemma length_others:
  assumes "distinct (map ve_key es)" "find (\<lambda>e. ve_key e = key) es = Some e"
  shows "length (others key es) = length es - 1"
  using assms
proof (induction es)
  case (Cons e' es)
  have "others (ve_key e') es = es" using Cons.prems(1) by (auto simp: others_def filter_id_conv image_iff)
  moreover have "es \<noteq> []" if "ve_key e' \<noteq> key" using Cons.prems(2) that by auto
  ultimately show ?case using Cons by (cases "ve_key e' = key") (auto simp: others_def)
qed simp

text \<open>A lookup reorders the entries and changes nothing else.\<close>

lemma lookupTable_ok:
  assumes "vcache_ok c"
  shows "vcache_ok (snd (lookupTable c s key))" "cache_entry (snd (lookupTable c s key)) k = cache_entry c k"
proof -
  show "vcache_ok (snd (lookupTable c s key))"
  proof (cases "cache_entry c key")
    case (Some e)
    then have "find (\<lambda>e. ve_key e = key) (vc_tableOrder c) = Some e" by (simp add: cache_entry_def)
    note e = this find_key[OF this]
    have d: "distinct (map ve_key (vc_tableOrder c))" using assms by (simp add: vcache_ok_def cache_counts_def)
    have "length (vc_tableOrder c) > 0" using e(2) by auto
    then show ?thesis
      using assms Some recorded_others[OF d, of key] length_others[OF d e(1)] others_simps(1)[of e] others_simps(2)[OF d, of key] e
      by (auto simp: lookupTable_def vcache_ok_def cache_counts_def over_limit_def)
  qed (use assms in \<open>simp add: lookupTable_def\<close>)
  show "cache_entry (snd (lookupTable c s key)) k = cache_entry c k"
  proof (cases "cache_entry c key")
    case (Some e)
    then have "ve_key e = key" using find_key[of key "vc_tableOrder c" e] by (simp add: cache_entry_def)
    then show ?thesis
      using Some others_simps(3)[of k key "vc_tableOrder c"] by (cases "k = key") (simp_all add: lookupTable_def cache_entry_def)
  qed (simp add: lookupTable_def)
qed

text \<open>Eviction drops entries from the back until the bounds hold; the front entry stays.\<close>

lemma evict_tables_ok:
  assumes "cache_counts c" "vc_tableOrder c = e # es"
  shows "vcache_ok (evict_tables c) \<and> (\<exists>n. vc_tableOrder (evict_tables c) = e # take n es)"
  using assms
proof (induction c arbitrary: es rule: evict_tables.induct)
  case (1 c)
  show ?case
  proof (cases "over_limit c")
    case True
    let ?c = "\<lparr>vc_tableOrder = butlast (vc_tableOrder c), vc_tableObjects = vc_tableObjects c - int (length (ve_objects (last (vc_tableOrder c))))\<rparr>"
    have ne: "es \<noteq> []" using True "1.prems"(2) by (auto simp: over_limit_def)
    have "distinct (map ve_key (butlast (vc_tableOrder c)))"
      using "1.prems"(1) by (simp add: cache_counts_def map_butlast distinct_butlast)
    then have "cache_counts ?c" using "1.prems" recorded_objects_last[of "vc_tableOrder c"] by (simp add: cache_counts_def)
    then have "vcache_ok (evict_tables ?c)" "\<exists>n. vc_tableOrder (evict_tables ?c) = e # take n (butlast es)"
      using "1.IH"[OF True, of "butlast es"] "1.prems"(2) ne by simp_all
    then show ?thesis using True by (subst (1 2) evict_tables.simps) (auto simp: butlast_conv_take)
  next
    case False
    then show ?thesis using "1.prems" evict_tables.simps[of c] by (auto simp: vcache_ok_def intro: exI[of _ "length es"])
  qed
qed

lemma rememberTable_ok:
  assumes "vcache_ok c"
  shows "vcache_ok (rememberTable c key objects)"
    and "cache_entry (rememberTable c key objects) key = Some \<lparr>ve_key = key, ve_objects = objects\<rparr>"
    and "k \<noteq> key \<Longrightarrow> cache_entry (rememberTable c key objects) k \<in> {None, cache_entry c k}"
proof -
  let ?e = "\<lparr>ve_key = key, ve_objects = objects\<rparr>"
  let ?es = "others key (vc_tableOrder c)"
  let ?kept = "case cache_entry c key of None \<Rightarrow> vc_tableObjects c | Some e \<Rightarrow> vc_tableObjects c - int (length (ve_objects e))"
  let ?c = "\<lparr>vc_tableOrder = ?e # ?es, vc_tableObjects = ?kept + int (length objects)\<rparr>"
  have d: "distinct (map ve_key (vc_tableOrder c))" using assms by (simp add: vcache_ok_def cache_counts_def)
  have "cache_counts ?c"
    using assms recorded_others[OF d, of key] others_simps(1)[of ?e "vc_tableOrder c"] others_simps(2)[OF d, of key]
    by (auto simp: cache_counts_def vcache_ok_def cache_entry_def split: option.splits)
  then obtain n where n: "vcache_ok (rememberTable c key objects)" "vc_tableOrder (rememberTable c key objects) = ?e # take n ?es"
    using evict_tables_ok[of ?c ?e ?es] by (auto simp: rememberTable_def Let_def)
  show "vcache_ok (rememberTable c key objects)" by (rule n)
  show "cache_entry (rememberTable c key objects) key = Some ?e" by (simp add: cache_entry_def n(2))
  show "cache_entry (rememberTable c key objects) k \<in> {None, cache_entry c k}" if "k \<noteq> key"
    using find_take[of "\<lambda>e. ve_key e = k" n ?es] that others_simps(3)[OF that, of "vc_tableOrder c"] by (simp add: cache_entry_def n(2))
qed

section \<open>Runs of the cache\<close>

datatype cache_op = Lookup Snapshot bytes | Remember bytes "ObjectRef list"

fun cache_step :: "validationCache \<Rightarrow> cache_op \<Rightarrow> validationCache" where
  "cache_step c (Lookup s key) = snd (lookupTable c s key)"
| "cache_step c (Remember key objects) = rememberTable c key objects"

definition cache_run :: "cache_op list \<Rightarrow> validationCache" where
  "cache_run ops = foldl cache_step newValidationCache ops"

text \<open>What was last remembered for a key.\<close>

fun remember_step :: "bytes \<Rightarrow> ObjectRef list option \<Rightarrow> cache_op \<Rightarrow> ObjectRef list option" where
  "remember_step key r (Lookup _ _) = r"
| "remember_step key r (Remember key' objects) = (if key' = key then Some objects else r)"

definition last_remembered :: "cache_op list \<Rightarrow> bytes \<Rightarrow> ObjectRef list option" where
  "last_remembered ops key = foldl (remember_step key) None ops"

definition ValidationEntry :: "bytes \<Rightarrow> ObjectRef list \<Rightarrow> validationCacheEntry" where
  "ValidationEntry key objects = \<lparr>ve_key = key, ve_objects = objects\<rparr>"

lemma cache_step_ok: "vcache_ok c \<Longrightarrow> vcache_ok (cache_step c op)"
  by (cases op) (simp_all add: lookupTable_ok(1) rememberTable_ok(1))

lemma cache_step_entry:
  assumes "vcache_ok c" "cache_entry c key \<in> {None, map_option (ValidationEntry key) r}"
  shows "cache_entry (cache_step c op) key \<in> {None, map_option (ValidationEntry key) (remember_step key r op)}"
proof (cases op)
  case (Remember key' objects)
  then show ?thesis
    using assms(2) rememberTable_ok(2)[OF assms(1), of key objects] rememberTable_ok(3)[OF assms(1), of key key' objects]
    by (cases "key' = key") (auto simp: ValidationEntry_def)
qed (use assms lookupTable_ok(2)[OF assms(1)] in auto)

lemma cache_run_spec:
  "vcache_ok (cache_run ops) \<and> cache_entry (cache_run ops) key \<in> {None, map_option (ValidationEntry key) (last_remembered ops key)}"
proof (induction ops rule: rev_induct)
  case Nil
  then show ?case by (simp add: cache_run_def newValidationCache_def vcache_ok_def cache_counts_def over_limit_def cache_entry_def)
next
  case (snoc op ops)
  then show ?case using cache_step_ok cache_step_entry by (simp add: cache_run_def last_remembered_def)
qed

lemma cache_run_lookup:
  assumes "fst (lookupTable (cache_run ops) s key) = Some refs"
  shows "last_remembered ops key = Some refs \<and> Provides s refs"
  using assms cache_run_spec[of ops key]
  by (cases "last_remembered ops key") (auto simp: lookupTable_def ValidationEntry_def split: option.splits if_splits)

end
