(* ===== verification/Snapshot_Merge.thy ===== *)
theory Snapshot_Merge
  imports Row_Merge Validation_Cache Table_State
begin

text \<open>
  The three-way merge of snapshots (\<open>MergeSnapshots\<close> in \<open>engine/merge.go\<close>): the default database, then
  table by table a copy of the version that changed, a resolved schema conflict, or the merge of the rows.

  \<open>decode\<close> stands for \<open>decodeSchema\<close> followed by \<open>validateSchema\<close>: JSON and the column types of
  go-mysql-server; it gives the columns and primary key and the definitions of the secondary indexes.
  Snapshots are read with \<^const>\<open>snapshot_read\<close>. A failed merge returns its error alone: the caller
  drops the writer. A set of hashes is the list of its members.
\<close>

section \<open>Definitions\<close>

type_synonym schemaDecoder = "bytes \<Rightarrow> error + pkschema \<times> indexDisk list"

definition noTable :: Table where "noTable = \<lparr>SchemaRoot = [], DataRoot = [], Indexes = []\<rparr>"

definition version :: "Snapshot \<Rightarrow> bytes \<Rightarrow> tableVersion" where
  "version snapshot name =
     (case map_of (mf_tables (sn_Manifest snapshot)) name of
        None \<Rightarrow> \<lparr>tv_present = False, tv_table = noTable, tv_snapshot = Some snapshot\<rparr>
      | Some table \<Rightarrow> \<lparr>tv_present = True, tv_table = table, tv_snapshot = Some snapshot\<rparr>)"

definition equalVersion :: "tableVersion \<Rightarrow> tableVersion \<Rightarrow> bool" where
  "equalVersion a b \<longleftrightarrow> tv_present a = tv_present b \<and> (\<not> tv_present a \<or> table_Equal (tv_table a) (tv_table b))"

definition schema_value :: "(bytes \<Rightarrow> bytes) \<Rightarrow> gitReader \<Rightarrow> tableVersion \<Rightarrow> error + bytes option" where
  "schema_value H readGit v =
     (if \<not> tv_present v then Inr None else map_sum id Some (version_get H readGit v (SchemaRoot (tv_table v))))"

definition schema_id :: "bytes \<Rightarrow> bytes" where
  "schema_id name = ascii ''schema:'' @ name"

definition schemaConflict ::
  "(bytes \<Rightarrow> bytes) \<Rightarrow> gitReader \<Rightarrow> bytes \<Rightarrow> tableVersion \<Rightarrow> tableVersion \<Rightarrow> tableVersion \<Rightarrow> error + MergeConflict" where
  "schemaConflict H readGit name b l r =
     (case schema_value H readGit b of
        Inl e \<Rightarrow> Inl e
      | Inr bv \<Rightarrow> (case schema_value H readGit l of
          Inl e \<Rightarrow> Inl e
        | Inr lv \<Rightarrow> (case schema_value H readGit r of
            Inl e \<Rightarrow> Inl e
          | Inr rv \<Rightarrow> Inr \<lparr>mc_ID = schema_id name, mc_Kind = ascii ''schema'', mc_Table = name, mc_Key = [],
                            mc_Base = bv, mc_Local = lv, mc_Remote = rv\<rparr>)))"

fun selectVersion :: "Resolution \<Rightarrow> tableVersion \<Rightarrow> tableVersion \<Rightarrow> tableVersion \<Rightarrow> error + tableVersion" where
  "selectVersion TakeBase b l r = Inr b"
| "selectVersion TakeLocal b l r = Inr l"
| "selectVersion TakeRemote b l r = Inr r"
| "selectVersion TakeDelete b l r = Inr \<lparr>tv_present = False, tv_table = noTable, tv_snapshot = None\<rparr>"
| "selectVersion (OtherResolution _) b l r = Inl InvalidResolution"

subsection \<open>The state of a merge\<close>

record mergeState =
  ms_tables :: "(bytes, Table) gomap"
  ms_reachable :: "hash list"
  ms_conflicts :: "MergeConflict list"
  ms_writer :: Writer
  ms_cache :: validationCache

definition add_hashes :: "hash list \<Rightarrow> mergeState \<Rightarrow> mergeState" where
  "add_hashes hs ms = ms\<lparr>ms_reachable := fold List.insert hs (ms_reachable ms)\<rparr>"

definition put_table :: "bytes \<Rightarrow> Table \<Rightarrow> mergeState \<Rightarrow> mergeState" where
  "put_table name table ms = ms\<lparr>ms_tables := AList.update name table (ms_tables ms)\<rparr>"

text \<open>The nodes of the index trees, in the order of the map.\<close>

fun index_hashes :: "(hash \<Rightarrow> error + bytes) \<Rightarrow> (bytes, hash) gomap \<Rightarrow> (error + hash list) option" where
  "index_hashes get [] = Some (Inr [])"
| "index_hashes get ((_, h) # rest) =
     Option.bind (Reachable get h) (\<lambda>r. case r of
       Inl e \<Rightarrow> Some (Inl e)
     | Inr hs \<Rightarrow> map_option (map_sum id ((@) hs)) (index_hashes get rest))"

definition table_objects :: "(hash \<Rightarrow> error + bytes) \<Rightarrow> Table \<Rightarrow> (error + hash list) option" where
  "table_objects get table =
     Option.bind (Reachable get (DataRoot table)) (\<lambda>r. case r of
       Inl e \<Rightarrow> Some (Inl e)
     | Inr hs \<Rightarrow> map_option (map_sum id (\<lambda>is. SchemaRoot table # hs @ is)) (index_hashes get (Indexes table)))"

definition copyTable ::
  "(bytes \<Rightarrow> bytes) \<Rightarrow> gitReader \<Rightarrow> schemaDecoder \<Rightarrow> (nat \<Rightarrow> bytes) \<Rightarrow> bytes \<Rightarrow> tableVersion \<Rightarrow> mergeState
    \<Rightarrow> (error + mergeState) option" where
  "copyTable H readGit decode identity name source ms =
     (if \<not> tv_present source then Some (Inr ms)
      else case tv_snapshot source of
        None \<Rightarrow> Some (Inl (TableError NilDereference))
      | Some s \<Rightarrow>
          (case snapshot_read H readGit s (SchemaRoot (tv_table source)) of
             Inl e \<Rightarrow> Some (Inl e)
           | Inr schemaData \<Rightarrow>
               (case decode schemaData of
                  Inl e \<Rightarrow> Some (Inl e)
                | Inr _ \<Rightarrow>
                    let (cached, cache) = validatedTableObjects identity (ms_cache ms) s name
                    in Option.bind
                         (case cached of
                            Some objects \<Rightarrow> Some (Inr objects)
                          | None \<Rightarrow> table_objects (snapshot_read H readGit s) (tv_table source))
                         (\<lambda>r. case r of
                            Inl e \<Rightarrow> Some (Inl e)
                          | Inr objects \<Rightarrow>
                              (case ImportObjects H readGit (ms_writer ms) (Some s) objects of
                                 (Inl e, _) \<Rightarrow> Some (Inl e)
                               | (Inr _, w) \<Rightarrow>
                                   Some (Inr (put_table name (tv_table source)
                                     (add_hashes objects (ms\<lparr>ms_writer := w, ms_cache := cache\<rparr>)))))))))"

subsection \<open>Rebuilding the indexes of a merged table\<close>

text \<open>
  \<open>idxEntries\<close> maps the name of an index to its entries, in the order of the rows. \<open>sort.Slice\<close> may leave
  equal keys in any order; with two equal keys the build of the tree fails whatever their order.
\<close>

definition add_entry :: "bytes \<Rightarrow> entry \<Rightarrow> (bytes, entry list) gomap \<Rightarrow> (bytes, entry list) gomap" where
  "add_entry name e m = AList.update name ((case map_of m name of None \<Rightarrow> [] | Some es \<Rightarrow> es) @ [e]) m"

fun index_row_entries ::
  "pkschema \<Rightarrow> row \<Rightarrow> bytes \<Rightarrow> indexDisk list \<Rightarrow> (bytes, entry list) gomap \<Rightarrow> error + (bytes, entry list) gomap" where
  "index_row_entries schema row key [] m = Inr m"
| "index_row_entries schema row key (idx # idxs) m =
     (case encodeIndexKey schema row (idx_Columns idx) key (idx_Unique idx) of
        Inl e \<Rightarrow> Inl e
      | Inr (idxKey, _) \<Rightarrow> index_row_entries schema row key idxs (add_entry (idx_Name idx) \<lparr>ekey = idxKey, evalue = key\<rparr> m))"

fun index_entries ::
  "sqllib \<Rightarrow> pkschema \<Rightarrow> indexDisk list \<Rightarrow> entry list \<Rightarrow> (bytes, entry list) gomap \<Rightarrow> error + (bytes, entry list) gomap" where
  "index_entries lib schema indexes [] m = Inr m"
| "index_entries lib schema indexes (e # es) m =
     (case decodeRow lib (schema_columns schema) (evalue e) of
        Inl e \<Rightarrow> Inl e
      | Inr row \<Rightarrow> (case index_row_entries schema row (ekey e) indexes m of
          Inl e \<Rightarrow> Inl e
        | Inr m' \<Rightarrow> index_entries lib schema indexes es m'))"

fun build_indexes ::
  "('s \<Rightarrow> bytes \<Rightarrow> error + hash \<times> 's) \<Rightarrow> (bytes, entry list) gomap \<Rightarrow> indexDisk list \<Rightarrow> (bytes, hash) gomap \<Rightarrow> 's
    \<Rightarrow> (error + (bytes, hash) gomap \<times> 's) option" where
  "build_indexes put m [] roots s = Some (Inr (roots, s))"
| "build_indexes put m (idx # idxs) roots s =
     (let ie = sort_key ekey (case map_of m (idx_Name idx) of None \<Rightarrow> [] | Some es \<Rightarrow> es)
      in if idx_Unique idx \<and> has_duplicate_key ie then Some (Inl DuplicateIndexKey)
         else Option.bind (Build put s ie DefaultOptions) (\<lambda>r. case r of
           Inl e \<Rightarrow> Some (Inl e)
         | Inr (tree, s') \<Rightarrow> build_indexes put m idxs (AList.update (idx_Name idx) (troot tree) roots) s'))"

definition rebuildIndexesFromTree ::
  "sqllib \<Rightarrow> ('s \<Rightarrow> hash \<Rightarrow> error + bytes) \<Rightarrow> ('s \<Rightarrow> bytes \<Rightarrow> error + hash \<times> 's) \<Rightarrow> pkschema \<Rightarrow> indexDisk list \<Rightarrow> hash \<Rightarrow> 's
    \<Rightarrow> (error + (bytes, hash) gomap option \<times> 's) option" where
  "rebuildIndexesFromTree lib get put schema indexes rt s =
     Option.bind (tree_Entries (get s) rt) (\<lambda>r. case r of
       Inl e \<Rightarrow> Some (Inl e)
     | Inr [] \<Rightarrow> Some (Inr (None, s))
     | Inr (e # es) \<Rightarrow>
         (case index_entries lib schema indexes (e # es) [] of
            Inl e \<Rightarrow> Some (Inl e)
          | Inr m \<Rightarrow> map_option (map_sum id (apfst Some)) (build_indexes put m indexes [] s)))"

subsection \<open>One table\<close>

text \<open>The end of the row merge: the data tree, the schema, the indexes and the inventory.\<close>

definition finish_table ::
  "(bytes \<Rightarrow> bytes) \<Rightarrow> gitReader \<Rightarrow> sqllib \<Rightarrow> bytes \<Rightarrow> bytes \<Rightarrow> pkschema \<Rightarrow> indexDisk list \<Rightarrow> sorted_builder \<Rightarrow> mergeState
    \<Rightarrow> (error + mergeState) option" where
  "finish_table H readGit lib name schemaData schema indexDefs builder ms =
     Option.bind (sb_Finish (writer_Put H) DefaultOptions builder (ms_writer ms)) (\<lambda>r. case r of
       Inl e \<Rightarrow> Some (Inl e)
     | Inr (tree, w1) \<Rightarrow>
         (case writer_Put H w1 schemaData of
            Inl e \<Rightarrow> Some (Inl e)
          | Inr (schemaRoot, w2) \<Rightarrow>
              Option.bind (Reachable (writer_Get H readGit w2) (troot tree)) (\<lambda>r. case r of
                Inl e \<Rightarrow> Some (Inl e)
              | Inr hashes \<Rightarrow>
                  Option.bind (if indexDefs = [] then Some (Inr (None, w2))
                               else rebuildIndexesFromTree lib (writer_Get H readGit) (writer_Put H) schema indexDefs (troot tree) w2)
                    (\<lambda>r. case r of
                       Inl e \<Rightarrow> Some (Inl e)
                     | Inr (idxRoots, w3) \<Rightarrow>
                         map_option (map_sum id (\<lambda>idxHashes.
                             put_table name \<lparr>SchemaRoot = schemaRoot, DataRoot = troot tree,
                                             Indexes = (case idxRoots of None \<Rightarrow> [] | Some roots \<Rightarrow> roots)\<rparr>
                               (add_hashes (schemaRoot # hashes @ idxHashes) (ms\<lparr>ms_writer := w3\<rparr>))))
                           (index_hashes (writer_Get H readGit w3) (case idxRoots of None \<Rightarrow> [] | Some roots \<Rightarrow> roots))))))"

definition merge_table ::
  "(bytes \<Rightarrow> bytes) \<Rightarrow> gitReader \<Rightarrow> sqllib \<Rightarrow> schemaDecoder \<Rightarrow> (bytes, Resolution) gomap \<Rightarrow> bytes
    \<Rightarrow> tableVersion \<Rightarrow> tableVersion \<Rightarrow> tableVersion \<Rightarrow> mergeState \<Rightarrow> (error + mergeState) option" where
  "merge_table H readGit lib decode resolutions name b l r ms =
     (case version_get H readGit l (SchemaRoot (tv_table l)) of
        Inl e \<Rightarrow> Some (Inl e)
      | Inr schemaData \<Rightarrow>
          (case decode schemaData of
             Inl e \<Rightarrow> Some (Inl e)
           | Inr (schema, indexDefs) \<Rightarrow>
               (case NewSortedBuilder DefaultOptions of
                  Inl e \<Rightarrow> Some (Inl e)
                | Inr builder \<Rightarrow>
                    Option.bind (mergeRows H readGit resolutions name b l r (merge_emit lib schema (writer_Put H)) (builder, ms_writer ms))
                      (\<lambda>r. case r of
                         Inl e \<Rightarrow> Some (Inl e)
                       | Inr (rowConflicts, builder1, w1) \<Rightarrow>
                           let ms1 = ms\<lparr>ms_conflicts := ms_conflicts ms @ rowConflicts, ms_writer := w1\<rparr>
                           in if rowConflicts \<noteq> [] then Some (Inr ms1)
                              else finish_table H readGit lib name schemaData schema indexDefs builder1 ms1))))"

definition schemas_differ :: "tableVersion \<Rightarrow> tableVersion \<Rightarrow> tableVersion \<Rightarrow> bool" where
  "schemas_differ b l r \<longleftrightarrow> \<not> tv_present b \<or> \<not> tv_present l \<or> \<not> tv_present r
     \<or> SchemaRoot (tv_table b) \<noteq> SchemaRoot (tv_table l) \<or> SchemaRoot (tv_table b) \<noteq> SchemaRoot (tv_table r)"

definition merge_schemas ::
  "(bytes \<Rightarrow> bytes) \<Rightarrow> gitReader \<Rightarrow> schemaDecoder \<Rightarrow> (nat \<Rightarrow> bytes) \<Rightarrow> (bytes, Resolution) gomap \<Rightarrow> bytes
    \<Rightarrow> tableVersion \<Rightarrow> tableVersion \<Rightarrow> tableVersion \<Rightarrow> mergeState \<Rightarrow> (error + mergeState) option" where
  "merge_schemas H readGit decode identity resolutions name b l r ms =
     (case schemaConflict H readGit name b l r of
        Inl e \<Rightarrow> Some (Inl e)
      | Inr conflict \<Rightarrow>
          (case map_of resolutions (mc_ID conflict) of
             None \<Rightarrow> Some (Inr (ms\<lparr>ms_conflicts := ms_conflicts ms @ [conflict]\<rparr>))
           | Some choice \<Rightarrow>
               (case selectVersion choice b l r of
                  Inl e \<Rightarrow> Some (Inl e)
                | Inr selected \<Rightarrow> copyTable H readGit decode identity name selected ms)))"

definition merge_name ::
  "(bytes \<Rightarrow> bytes) \<Rightarrow> gitReader \<Rightarrow> sqllib \<Rightarrow> schemaDecoder \<Rightarrow> (nat \<Rightarrow> bytes) \<Rightarrow> (bytes, Resolution) gomap
    \<Rightarrow> Snapshot \<Rightarrow> Snapshot \<Rightarrow> Snapshot \<Rightarrow> bytes \<Rightarrow> mergeState \<Rightarrow> (error + mergeState) option" where
  "merge_name H readGit lib decode identity resolutions bs ls rs name ms =
     (let b = version bs name; l = version ls name; r = version rs name
      in if equalVersion l r then copyTable H readGit decode identity name l ms
         else if equalVersion l b then copyTable H readGit decode identity name r ms
         else if equalVersion r b then copyTable H readGit decode identity name l ms
         else if schemas_differ b l r then merge_schemas H readGit decode identity resolutions name b l r ms
         else merge_table H readGit lib decode resolutions name b l r ms)"

fun merge_names :: "(bytes \<Rightarrow> 's \<Rightarrow> (error + 's) option) \<Rightarrow> bytes list \<Rightarrow> 's \<Rightarrow> (error + 's) option" where
  "merge_names step [] ms = Some (Inr ms)"
| "merge_names step (name # names) ms =
     Option.bind (step name ms) (\<lambda>r. case r of Inl e \<Rightarrow> Some (Inl e) | Inr ms' \<Rightarrow> merge_names step names ms')"

subsection \<open>Snapshots\<close>

definition default_id :: bytes where "default_id = ascii ''catalog:default-database''"

definition merge_default ::
  "(bytes, Resolution) gomap \<Rightarrow> bytes \<Rightarrow> bytes \<Rightarrow> bytes \<Rightarrow> error + (MergeConflict + bytes)" where
  "merge_default resolutions b l r =
     (if l = r then Inr (Inr l)
      else if l = b then Inr (Inr r)
      else if r = b then Inr (Inr l)
      else let conflict = Inr (Inl \<lparr>mc_ID = default_id, mc_Kind = ascii ''catalog'', mc_Table = [], mc_Key = [],
                                     mc_Base = Some b, mc_Local = Some l, mc_Remote = Some r\<rparr>)
           in (case map_of resolutions default_id of
                 None \<Rightarrow> conflict
               | Some TakeBase \<Rightarrow> Inr (Inr b)
               | Some TakeLocal \<Rightarrow> Inr (Inr l)
               | Some TakeRemote \<Rightarrow> Inr (Inr r)
               | Some TakeDelete \<Rightarrow> Inl InvalidResolution
               | Some (OtherResolution choice) \<Rightarrow> if choice = [] then conflict else Inl InvalidResolution))"

definition table_names :: "Snapshot list \<Rightarrow> bytes list" where
  "table_names ss = sort (remdups (concat (map (\<lambda>s. map fst (mf_tables (sn_Manifest s))) ss)))"

definition merged_manifest :: "bytes \<Rightarrow> (bytes, Table) gomap \<Rightarrow> Manifest" where
  "merged_manifest db tables = \<lparr>mf_FormatVersion = 0, mf_DefaultDatabase = db, mf_Tables = Some tables, mf_Objects = []\<rparr>"

definition MergeSnapshots ::
  "(bytes \<Rightarrow> bytes) \<Rightarrow> gitReader \<Rightarrow> sqllib \<Rightarrow> schemaDecoder \<Rightarrow> (nat \<Rightarrow> bytes) \<Rightarrow> validationCache \<Rightarrow> Writer
    \<Rightarrow> Snapshot \<Rightarrow> Snapshot \<Rightarrow> Snapshot \<Rightarrow> (bytes, Resolution) gomap
    \<Rightarrow> (error + (Manifest \<times> hash list option \<times> MergeConflict list) \<times> Writer \<times> validationCache) option" where
  "MergeSnapshots H readGit lib decode identity cache writer bs ls rs resolutions =
     (case merge_default resolutions (mf_DefaultDatabase (sn_Manifest bs)) (mf_DefaultDatabase (sn_Manifest ls)) (mf_DefaultDatabase (sn_Manifest rs)) of
        Inl e \<Rightarrow> Some (Inl e)
      | Inr (Inl conflict) \<Rightarrow>
          Some (Inr ((merged_manifest (mf_DefaultDatabase (sn_Manifest ls)) [], None, [conflict]), writer, cache))
      | Inr (Inr db) \<Rightarrow>
          map_option (map_sum id (\<lambda>ms.
              ((merged_manifest db (ms_tables ms), if ms_conflicts ms \<noteq> [] then None else Some (sort (ms_reachable ms)), ms_conflicts ms),
               ms_writer ms, ms_cache ms)))
            (merge_names (merge_name H readGit lib decode identity resolutions bs ls rs) (table_names [bs, ls, rs])
              \<lparr>ms_tables = [], ms_reachable = [], ms_conflicts = [], ms_writer = writer, ms_cache = cache\<rparr>))"

end
