(* ===== verification/Put_Closure.thy ===== *)
theory Put_Closure
  imports Sorted_Builder Snapshot_Store
begin

text \<open>
  What every \<open>Put\<close> of a store keeps, the tree builders keep: they change the store by \<open>Put\<close> alone, on
  whatever options and entries. In particular the objects a store holds stay readable.
\<close>

locale put_closed =
  fixes put :: "'s \<Rightarrow> bytes \<Rightarrow> error + hash \<times> 's" and Q :: "'s \<Rightarrow> bool"
  assumes put_closed: "put s d = Inr (h, s') \<Longrightarrow> Q s \<Longrightarrow> Q s'"
begin

definition kept :: "'s \<Rightarrow> error + 'x \<times> 's \<Rightarrow> bool" where
  "kept s r \<longleftrightarrow> Q s \<longrightarrow> (case r of Inl e \<Rightarrow> True | Inr (_, s') \<Rightarrow> Q s')"

lemma kept_simps [simp]: "kept s (Inl e)" "kept s (Inr (x, s))"
  by (simp_all add: kept_def)

lemma kept_trans: "kept s (Inr (x, s1)) \<Longrightarrow> kept s1 r \<Longrightarrow> kept s r"
  by (simp add: kept_def)

lemma kept_state: "kept s (Inr (x, s1)) \<Longrightarrow> kept s (Inr (y, s1))"
  by (simp add: kept_def)

lemma kept_Q: "kept s (Inr (x, s')) \<Longrightarrow> Q s \<Longrightarrow> Q s'"
  by (simp add: kept_def)

lemma writeNode_closed: "writeNode put s n = r \<Longrightarrow> kept s r"
  using put_closed by (auto simp: kept_def writeNode_def split: sum.splits)

lemma write_leaves_closed: "write_leaves put grps s = r \<Longrightarrow> kept s r"
proof (induction grps arbitrary: s r)
  case (Cons grp grps)
  show ?case
  proof (cases "writeNode put s \<lparr>nlevel = 0, nentries = grp, nchildren = []\<rparr>")
    case (Inr hs)
    then show ?thesis
      using Cons.prems Cons.IH[OF refl, of "snd hs"] writeNode_closed[OF Inr]
      by (cases hs) (auto split: sum.splits intro: kept_trans kept_state)
  qed (use Cons.prems in auto)
qed auto

lemma write_groups_closed: "write_groups put lvl grps s = r \<Longrightarrow> kept s r"
proof (induction grps arbitrary: s r)
  case (Cons grp grps)
  show ?case
  proof (cases "writeNode put s \<lparr>nlevel = lvl, nentries = [], nchildren = grp\<rparr>")
    case (Inr hs)
    then show ?thesis
      using Cons.prems Cons.IH[OF refl, of "snd hs"] writeNode_closed[OF Inr]
      by (cases hs) (auto split: sum.splits intro: kept_trans kept_state)
  qed (use Cons.prems in auto)
qed auto

lemma build_levels_closed:
  assumes "build_levels put o1 lvl links s = Some r"
  shows "kept s r"
proof -
  have "put' = put \<longrightarrow> kept s r" if "build_levels put' o1 lvl links s = Some r" for put' o1 lvl links s r
    using that
  proof (induction rule: build_levels.raw_induct[rotated, consumes 1])
    case (1 f put' o1 lvl links s r)
    show ?case
    proof (intro impI)
      assume [simp]: "put' = put"
      show "kept s r"
      proof (cases "write_groups put lvl (chunkLinks links o1) s")
        case (Inr ns)
        then have ns: "kept s (Inr (fst ns, snd ns))" using write_groups_closed[OF Inr] by simp
        have "kept s r" if "f put o1 (lvl + 1) (fst ns) (snd ns) = Some r" using kept_trans[OF ns, of r] 1(1)[OF that] by simp
        then show ?thesis using 1(2) Inr by (auto split: if_splits)
      qed (use 1(2) in \<open>auto split: if_splits\<close>)
    qed
  qed
  then show ?thesis using assms by blast
qed

lemma sb_addLink_closed:
  assumes "sb_addLink put o1 level item levels s = Some r"
  shows "kept s r"
proof -
  have "put' = put \<longrightarrow> kept s r" if "sb_addLink put' o1 level item levels s = Some r" for put' o1 level item levels s r
    using that
  proof (induction rule: sb_addLink.raw_induct[rotated, consumes 1])
    case (1 f put' o1 level item levels s r)
    show ?case
    proof (intro impI)
      assume [simp]: "put' = put"
      let ?links = "grow_levels level levels ! level @ [item]"
      let ?w = "writeNode put s \<lparr>nlevel = of_nat (level + 1), nentries = [], nchildren = ?links\<rparr>"
      show "kept s r"
      proof (cases "shouldCut (length ?links) (linkBoundaryHash item) o1")
        case True
        show ?thesis
        proof (cases ?w)
          case (Inr hs)
          then have "f put o1 (level + 1) (group_link ?links (fst hs)) ((grow_levels level levels)[level := []]) (snd hs) = Some r"
            using 1(2) True by (simp add: Let_def)
          then have "kept (snd hs) r" using 1(1) by blast
          moreover have "kept s (Inr (fst hs, snd hs))" using writeNode_closed[OF Inr] by simp
          ultimately show ?thesis by (rule kept_trans[rotated])
        qed (use 1(2) True in \<open>auto simp: Let_def\<close>)
      qed (use 1(2) in \<open>auto simp: Let_def\<close>)
    qed
  qed
  then show ?thesis using assms by blast
qed

lemma sb_flushLinks_closed: "sb_flushLinks put o1 level levels s = Some r \<Longrightarrow> kept s r"
  by (auto simp: sb_flushLinks_def Let_def split: sum.splits prod.splits intro: kept_trans dest!: writeNode_closed sb_addLink_closed)

lemma sb_flushLeaf_closed:
  assumes "sb_flushLeaf put o1 b s = Some r"
  shows "kept s r"
proof (cases "writeNode put s \<lparr>nlevel = 0, nentries = sbleaves b, nchildren = []\<rparr>")
  case (Inr hs)
  then obtain q where q: "sb_addLink put o1 0 (leaf_link (sbleaves b) (fst hs)) (sblevels b) (snd hs) = Some q"
    using assms by (cases hs) (auto simp: sb_flushLeaf_def Let_def)
  have "kept s q" using kept_trans[OF _ sb_addLink_closed[OF q]] writeNode_closed[OF Inr] by (metis prod.collapse)
  then show ?thesis using assms Inr q by (cases hs) (auto simp: sb_flushLeaf_def Let_def split: sum.splits intro: kept_state)
qed (use assms in \<open>auto simp: sb_flushLeaf_def Let_def\<close>)

lemma sb_Add_closed: "sb_Add put o1 e b s = Some r \<Longrightarrow> kept s r"
  using sb_flushLeaf_closed by (auto simp: sb_Add_def Let_def split: if_splits)

lemma sb_finish_loop_closed:
  assumes "sb_finish_loop put o1 level levels s = Some r"
  shows "kept s r"
proof -
  have "put' = put \<longrightarrow> kept s r" if "sb_finish_loop put' o1 level levels s = Some r" for put' o1 level levels s r
    using that
  proof (induction rule: sb_finish_loop.raw_induct[rotated, consumes 1])
    case (1 f put' o1 level levels s r)
    show ?case
    proof (intro impI)
      assume [simp]: "put' = put"
      show "kept s r"
      proof (cases "sb_flushLinks put o1 level levels s")
        case (Some q)
        have IH: "kept s r" if "q = Inr ls" "f put o1 (level + 1) (fst ls) (snd ls) = Some r" for ls
          using 1(1) that sb_flushLinks_closed[OF Some] by (metis kept_trans prod.collapse)
        show ?thesis using 1(2) 1(1)[of put] Some IH by (auto split: if_splits sum.splits)
      qed (use 1(2) 1(1)[of put] in \<open>auto split: if_splits\<close>)
    qed
  qed
  then show ?thesis using assms by blast
qed

lemma with_options_kept: "kept s r \<Longrightarrow> kept s (with_options o1 r)"
  by (auto simp: kept_def with_options_def split: sum.splits)

lemma sb_Finish_closed:
  assumes "sb_Finish put o1 b s = Some r"
  shows "kept s r"
proof -
  have rest: "kept s (with_options o1 q)" if "kept s (Inr (b1, s1))" "sb_finish_loop put o1 0 (sblevels b1) s1 = Some q" for b1 s1 q
    by (rule with_options_kept[OF kept_trans[OF that(1) sb_finish_loop_closed[OF that(2)]]])
  have empty: "kept s (with_options o1 (writeNode put s n))" for n by (rule with_options_kept[OF writeNode_closed[OF refl]])
  have flush: "kept s r" if r: "Option.bind x (\<lambda>r. case r of Inl e \<Rightarrow> Some (Inl e)
      | Inr (b1, s1) \<Rightarrow> map_option (with_options o1) (sb_finish_loop put o1 0 (sblevels b1) s1)) = Some r"
    and x: "\<And>y. x = Some y \<Longrightarrow> kept s y" for x
  proof (cases x)
    case (Some y)
    then show ?thesis using r x[OF Some] rest by (cases y) (auto split: prod.splits)
  qed (use r in simp)
  show ?thesis
    using assms empty flush[of "sb_flushLeaf put o1 b s", OF _ sb_flushLeaf_closed] flush[of "Some (Inr (b, s))"]
    by (auto simp: sb_Finish_def split: if_splits)
qed

lemma Build_closed:
  assumes "Build put s es o1 = Some r"
  shows "kept s r"
proof -
  have rest: "kept s (with_options o1 q)" if "kept s (Inr (ls, s1))" "build_levels put o1 1 ls s1 = Some q" for ls s1 q
    by (rule with_options_kept[OF kept_trans[OF that(1) build_levels_closed[OF that(2)]]])
  have empty: "kept s (with_options o1 (writeNode put s n))" for n by (rule with_options_kept[OF writeNode_closed[OF refl]])
  show ?thesis
  proof (cases "write_leaves put (chunkEntries (sort_key ekey es) o1) s")
    case (Inr ls)
    then have "kept s (Inr (fst ls, snd ls))" using write_leaves_closed[OF Inr] by simp
    then show ?thesis using assms Inr rest empty kept_state by (cases ls) (auto simp: Build_def Let_def split: if_splits sum.splits)
  qed (use assms empty in \<open>auto simp: Build_def Let_def split: if_splits sum.splits\<close>)
qed

end

text \<open>The objects of a store stay, and so does its invariant.\<close>

definition reads_stay :: "('s \<Rightarrow> hash \<Rightarrow> error + bytes) \<Rightarrow> 's \<Rightarrow> 's \<Rightarrow> bool" where
  "reads_stay get s s' \<longleftrightarrow> (\<forall>h d. get s h = Inr d \<longrightarrow> get s' h = Inr d)"

sublocale content_store \<subseteq> held: put_closed put "\<lambda>s. inv s \<and> reads_stay get s0 s" for s0
proof
  fix s d h s'
  assume put: "put s d = Inr (h, s')" and s: "inv s \<and> reads_stay get s0 s"
  have "inv s'" using put_ok[of s d] put s by auto
  moreover have "reads_stay get s0 s'" using put_get[of s d h s'] put s by (auto simp: reads_stay_def)
  ultimately show "inv s' \<and> reads_stay get s0 s'" by simp
qed

end
