(* ===== verification/Index_Rebuild.thy ===== *)
theory Index_Rebuild
  imports Snapshot_Merge Table_Index Put_Closure
begin

text \<open>
  The index trees \<open>rebuildIndexesFromTree\<close> makes: for every index the canonical tree of the index keys
  of all rows. Merges and checkpoints share these facts.
\<close>

definition entries_at :: "(bytes, entry list) gomap \<Rightarrow> bytes \<Rightarrow> entry list" where
  "entries_at m n = (case map_of m n of None \<Rightarrow> [] | Some es \<Rightarrow> es)"

section \<open>The entries of an index\<close>

definition entry_row :: "sqllib \<Rightarrow> pkschema \<Rightarrow> entry \<Rightarrow> row" where
  "entry_row lib schema e = projr (decodeRow lib (schema_columns schema) (evalue e))"

definition index_entry :: "sqllib \<Rightarrow> pkschema \<Rightarrow> indexDisk \<Rightarrow> entry \<Rightarrow> entry" where
  "index_entry lib schema idx e = \<lparr>ekey = the (index_key schema idx (ekey e) (entry_row lib schema e)), evalue = ekey e\<rparr>"

lemma entries_at_add: "entries_at (add_entry name e m) n = (if n = name then entries_at m n @ [e] else entries_at m n)"
  by (simp add: entries_at_def add_entry_def update_conv' split: option.split)

lemma index_row_entries_spec:
  assumes "\<forall>idx \<in> set idxs. index_key schema idx key row \<noteq> None"
  shows "\<exists>m'. index_row_entries schema row key idxs m = Inr m' \<and>
    (\<forall>n. entries_at m' n = entries_at m n @ per_name idxs (\<lambda>idx. [\<lparr>ekey = the (index_key schema idx key row), evalue = key\<rparr>]) n)"
  using assms
proof (induction idxs arbitrary: m)
  case (Cons idx idxs)
  then obtain k h where k: "encodeIndexKey schema row (idx_Columns idx) key (idx_Unique idx) = Inr (k, h)" "index_key schema idx key row = Some k"
    by (auto simp: index_key_def split: sum.splits)
  then show ?case using Cons.IH[of "add_entry (idx_Name idx) \<lparr>ekey = k, evalue = key\<rparr> m"] Cons.prems by (auto simp: entries_at_add)
qed simp

lemma index_entries_spec:
  assumes "\<forall>e \<in> set ds. decodeRow lib (schema_columns schema) (evalue e) = Inr (entry_row lib schema e)
    \<and> (\<forall>idx \<in> set idxs. index_key schema idx (ekey e) (entry_row lib schema e) \<noteq> None)"
  shows "\<exists>m'. index_entries lib schema idxs ds m = Inr m' \<and>
    (\<forall>n. entries_at m' n = entries_at m n @ concat (map (\<lambda>e. per_name idxs (\<lambda>idx. [index_entry lib schema idx e]) n) ds))"
  using assms
proof (induction ds arbitrary: m)
  case (Cons e ds)
  obtain m1 where "index_row_entries schema (entry_row lib schema e) (ekey e) idxs m = Inr m1"
      "\<forall>n. entries_at m1 n = entries_at m n @ per_name idxs (\<lambda>idx. [index_entry lib schema idx e]) n"
    using index_row_entries_spec[of idxs schema "ekey e" "entry_row lib schema e" m] Cons.prems by (auto simp: index_entry_def)
  then show ?case using Cons.IH[of m1] Cons.prems by auto
qed simp

definition rebuilt :: "sqllib \<Rightarrow> pkschema \<Rightarrow> entry list \<Rightarrow> indexDisk \<Rightarrow> entry list" where
  "rebuilt lib schema ds idx = sort_key ekey (map (index_entry lib schema idx) ds)"

text \<open>What the rows must satisfy when the entries of all indexes could be computed.\<close>

lemma index_row_entries_ok:
  "index_row_entries schema row key idxs m = Inr m' \<Longrightarrow> idx \<in> set idxs \<Longrightarrow> index_key schema idx key row \<noteq> None"
  by (induction idxs arbitrary: m) (auto simp: index_key_def split: sum.splits prod.splits)

lemma index_entries_ok:
  assumes "index_entries lib schema idxs ds m = Inr m'" "e \<in> set ds"
  shows "decodeRow lib (schema_columns schema) (evalue e) = Inr (entry_row lib schema e)"
    and "idx \<in> set idxs \<Longrightarrow> index_key schema idx (ekey e) (entry_row lib schema e) \<noteq> None"
proof -
  have "decodeRow lib (schema_columns schema) (evalue e) = Inr (entry_row lib schema e)
      \<and> (\<forall>idx \<in> set idxs. index_key schema idx (ekey e) (entry_row lib schema e) \<noteq> None)"
    using assms
  proof (induction ds arbitrary: m)
    case (Cons d ds)
    obtain row m1 where row: "decodeRow lib (schema_columns schema) (evalue d) = Inr row" "index_row_entries schema row (ekey d) idxs m = Inr m1"
        "index_entries lib schema idxs ds m1 = Inr m'"
      using Cons.prems(1) by (auto split: sum.splits)
    have "row = entry_row lib schema d" using row(1) by (simp add: entry_row_def)
    then show ?case using row Cons.IH[OF row(3)] Cons.prems(2) index_row_entries_ok[OF row(2)] by auto
  qed simp
  then show "decodeRow lib (schema_columns schema) (evalue e) = Inr (entry_row lib schema e)"
    "idx \<in> set idxs \<Longrightarrow> index_key schema idx (ekey e) (entry_row lib schema e) \<noteq> None" by blast+
qed

lemma index_entries_at:
  assumes "index_entries lib schema idxs ds [] = Inr m" "distinct (map idx_Name idxs)" "idx \<in> set idxs"
  shows "entries_at m (idx_Name idx) = map (index_entry lib schema idx) ds"
proof -
  have "\<forall>e \<in> set ds. decodeRow lib (schema_columns schema) (evalue e) = Inr (entry_row lib schema e)
      \<and> (\<forall>idx \<in> set idxs. index_key schema idx (ekey e) (entry_row lib schema e) \<noteq> None)"
    using index_entries_ok[OF assms(1)] by blast
  from index_entries_spec[OF this, of "[]"] assms(1)
  have "entries_at m (idx_Name idx) = concat (map (\<lambda>e. per_name idxs (\<lambda>idx. [index_entry lib schema idx e]) (idx_Name idx)) ds)"
    by (auto simp: entries_at_def)
  then show ?thesis unfolding per_name_idx[OF assms(2,3)] by simp
qed

section \<open>Building the trees\<close>

definition index_roots :: "(bytes \<Rightarrow> bytes) \<Rightarrow> (indexDisk \<Rightarrow> entry list) \<Rightarrow> indexDisk list \<Rightarrow> (bytes, hash) gomap \<Rightarrow> (bytes, hash) gomap" where
  "index_roots H new idxs roots = fold (\<lambda>idx. AList.update (idx_Name idx) (proot H (canon DefaultOptions (new idx)))) idxs roots"

lemma default_chunking: "chunking_ok DefaultOptions"
  by (simp add: chunking_ok_def options_validate_def DefaultOptions_def)

lemma Build_distinct:
  assumes "Build put s es o1 = Some (Inr (t, s'))"
  shows "distinct (map ekey es)"
proof -
  have "\<not> has_duplicate_key (sort_key ekey es)" using assms by (auto simp: Build_def Let_def split: sum.splits if_splits)
  then have "keys_sorted (sort_key ekey es)" using has_duplicate_key_sorted[of "sort_key ekey es"] by simp
  then have "distinct (map ekey (sort_key ekey es))" by (simp add: keys_sorted_def strict_sorted_iff)
  then show ?thesis by (metis distinct_map distinct_sort set_sort)
qed

context content_store
begin

lemma build_indexes_canon:
  assumes "inv s"
    and "\<forall>idx \<in> set idxs. distinct (map ekey (entries_at m (idx_Name idx))) \<and> list_all entry_ok (entries_at m (idx_Name idx))
      \<and> length (entries_at m (idx_Name idx)) < 2 ^ 64 \<and> sort_key ekey (entries_at m (idx_Name idx)) = new idx"
  shows "\<exists>s'. build_indexes put m idxs roots s = Some (Inr (index_roots H new idxs roots, s'))"
  using assms
proof (induction idxs arbitrary: roots s)
  case (Cons idx idxs)
  let ?ie = "entries_at m (idx_Name idx)"
  have ie: "distinct (map ekey ?ie)" "list_all entry_ok ?ie" "length ?ie < 2 ^ 64" "sort_key ekey ?ie = new idx" using Cons.prems(2) by auto
  have d: "distinct (map ekey (new idx))" unfolding ie(4)[symmetric] using ie(1) by (metis distinct_map distinct_sort set_sort)
  have sorted: "sorted (map ekey (new idx))" unfolding ie(4)[symmetric] by simp
  then have "keys_sorted (new idx)" using d by (simp add: keys_sorted_def strict_sorted_iff)
  then have dup: "\<not> has_duplicate_key (new idx)" using has_duplicate_key_sorted[OF sorted] by simp
  have "list_all entry_ok (new idx)" "length (new idx) < 2 ^ 64" unfolding ie(4)[symmetric] using ie(2,3) by (simp_all add: list_all_iff)
  moreover have "sort_key ekey (new idx) = new idx" using sorted by (rule sort_key_id_if_sorted)
  ultimately obtain s1 where s1: "Build put s (new idx) DefaultOptions =
      Some (Inr (\<lparr>troot = proot H (canon DefaultOptions (new idx)), toptions = DefaultOptions\<rparr>, s1))" "inv s1"
    using Build_canon[OF Cons.prems(1) d _ _ default_chunking] store_extends_inv by metis
  have "build_indexes put m (idx # idxs) roots s = build_indexes put m idxs (AList.update (idx_Name idx) (proot H (canon DefaultOptions (new idx))) roots) s1"
    using dup s1(1) ie(4) by (simp add: Let_def entries_at_def)
  then show ?case using Cons.IH[OF s1(2)] Cons.prems(2) by (simp add: index_roots_def)
qed (simp add: index_roots_def)

text \<open>Whatever the entries, trees that were built are the canonical ones.\<close>

lemma build_indexes_result:
  assumes "inv s" "build_indexes put m idxs roots s = Some (Inr (roots', s'))" "distinct (map idx_Name idxs)"
  shows "fst ` set roots' = fst ` set roots \<union> idx_Name ` set idxs \<and> (\<forall>n. n \<notin> idx_Name ` set idxs \<longrightarrow> map_of roots' n = map_of roots n)
    \<and> (\<forall>idx \<in> set idxs. list_all entry_ok (entries_at m (idx_Name idx)) \<and> length (entries_at m (idx_Name idx)) < 2 ^ 64 \<longrightarrow>
        map_of roots' (idx_Name idx) = Some (proot H (canon DefaultOptions (sort_key ekey (entries_at m (idx_Name idx))))))"
  using assms
proof (induction idxs arbitrary: roots s)
  case (Cons idx idxs)
  let ?ie = "entries_at m (idx_Name idx)"
  obtain tree s1 where b: "Build put s (sort_key ekey ?ie) DefaultOptions = Some (Inr (tree, s1))"
      "build_indexes put m idxs (AList.update (idx_Name idx) (troot tree) roots) s1 = Some (Inr (roots', s'))"
    using Cons.prems(2) by (auto simp: Let_def entries_at_def ok_option_simps split: if_splits)
  have s1: "inv s1" using held.kept_Q[OF held.Build_closed[OF b(1)], of s] Cons.prems(1) by (simp add: reads_stay_def)
  have "troot tree = proot H (canon DefaultOptions (sort_key ekey ?ie))" if "list_all entry_ok ?ie" "length ?ie < 2 ^ 64"
  proof -
    have "sort_key ekey (sort_key ekey ?ie) = sort_key ekey ?ie" by (simp add: sort_key_id_if_sorted)
    then show ?thesis
      using Build_canon[OF Cons.prems(1) Build_distinct[OF b(1)] _ _ default_chunking] that b(1) by (auto simp: list_all_iff)
  qed
  moreover have "idx_Name idx \<notin> idx_Name ` set idxs" "distinct (map idx_Name idxs)" using Cons.prems(3) by auto
  ultimately show ?case
    using Cons.IH[OF s1 b(2)] by (auto simp: update_conv' dom_update)
qed simp

text \<open>The index roots of rows: none for no rows, else one canonical tree per index.\<close>

end

definition indexed :: "(bytes \<Rightarrow> bytes) \<Rightarrow> sqllib \<Rightarrow> pkschema \<Rightarrow> indexDisk list \<Rightarrow> entry list \<Rightarrow> (bytes, hash) gomap \<Rightarrow> bool" where
  "indexed H lib schema idxs es roots \<longleftrightarrow>
     (if es = [] \<or> idxs = [] then roots = []
      else distinct (map idx_Name idxs) \<longrightarrow> fst ` set roots = idx_Name ` set idxs
        \<and> (\<forall>idx \<in> set idxs. list_all (entry_ok \<circ> index_entry lib schema idx) es \<and> length es < 2 ^ 64 \<longrightarrow>
             map_of roots (idx_Name idx) = Some (proot H (canon DefaultOptions (rebuilt lib schema es idx)))))"

context content_store
begin

lemma rebuildIndexesFromTree_indexed:
  assumes "inv s" "rebuildIndexesFromTree lib get put schema idxs rt s = Some (Inr (roots, s'))" "idxs \<noteq> []"
  shows "\<exists>es. tree_Entries (get s) rt = Some (Inr es) \<and> indexed H lib schema idxs es (case roots of None \<Rightarrow> [] | Some roots \<Rightarrow> roots)"
proof -
  obtain es where es: "tree_Entries (get s) rt = Some (Inr es)" using assms(2) by (auto simp: rebuildIndexesFromTree_def ok_option_simps)
  show ?thesis
  proof (cases es)
    case Nil
    then show ?thesis using es assms(2) by (auto simp: rebuildIndexesFromTree_def indexed_def)
  next
    case (Cons e es')
    then obtain m r where m: "index_entries lib schema idxs es [] = Inr m" "build_indexes put m idxs [] s = Some (Inr (r, s'))" "roots = Some r"
      using es assms(2) by (auto simp: rebuildIndexesFromTree_def ok_simps ok_option_simps apfst_def simp del: index_entries.simps)
    have "indexed H lib schema idxs es r"
    proof -
      have "fst ` set r = idx_Name ` set idxs \<and> (\<forall>idx \<in> set idxs. list_all (entry_ok \<circ> index_entry lib schema idx) es \<and> length es < 2 ^ 64 \<longrightarrow>
             map_of r (idx_Name idx) = Some (proot H (canon DefaultOptions (rebuilt lib schema es idx))))" if d: "distinct (map idx_Name idxs)"
        using build_indexes_result[OF assms(1) m(2) d] index_entries_at[OF m(1) d] by (auto simp: rebuilt_def list_all_iff)
      then show ?thesis using Cons assms(3) by (simp add: indexed_def)
    qed
    then show ?thesis using es m(3) by auto
  qed
qed

end

end
