(* ===== verification/Merge_Correct.thy ===== *)
theory Merge_Correct
  imports Index_Rebuild Tree_Nodes
begin

text \<open>
  The merge of snapshots, table by table: which version of each table the result has, and that the
  inventory of the result can be read from the writer.
\<close>

section \<open>Listed trees\<close>

text \<open>A tree is listed when every node below its root can be read and its name is in the list.\<close>

definition tree_listed :: "(hash \<Rightarrow> error + bytes) \<Rightarrow> hash list \<Rightarrow> hash \<Rightarrow> bool" where
  "tree_listed get hs rt \<longleftrightarrow> nodes_of get rt \<subseteq> set hs \<and> closed_nodes get (nodes_of get rt)"

text \<open>
  A table is listed when its schema and all nodes of its data tree and of every index tree are. A table
  without a data root has no trees (\<open>walkTable\<close> then lists its schema alone).
\<close>

definition table_listed :: "(hash \<Rightarrow> error + bytes) \<Rightarrow> hash list \<Rightarrow> Table \<Rightarrow> bool" where
  "table_listed get hs t \<longleftrightarrow> root_listed hs (SchemaRoot t)
     \<and> (hash_Valid (DataRoot t) \<longrightarrow> (\<forall>rt \<in> insert (DataRoot t) (snd ` set (Indexes t)). tree_listed get hs rt))"

lemma Reachable_listed: "Reachable get rt = Some (Inr hs) \<Longrightarrow> tree_listed get hs rt"
  using Reachable_nodes[of get rt hs] by (simp add: tree_listed_def)

lemma tree_listed_grows:
  assumes "tree_listed get hs rt" "\<And>h d. get h = Inr d \<Longrightarrow> get' h = Inr d" "set hs \<subseteq> set hs'"
  shows "tree_listed get' hs' rt"
  using assms(1,3) nodes_of_grows[of get rt get', OF _ assms(2)] by (auto simp: tree_listed_def)

lemma table_listed_grows:
  assumes "table_listed get hs t" "\<And>h d. get h = Inr d \<Longrightarrow> get' h = Inr d" "set hs \<subseteq> set hs'"
  shows "table_listed get' hs' t"
  using assms(1,3) tree_listed_grows[of get hs _ get' hs', OF _ assms(2,3)] by (auto simp: table_listed_def root_listed_def)

lemma index_hashes_listed:
  assumes "index_hashes get m = Some (Inr hs)"
  shows "\<forall>rt \<in> snd ` set m. tree_listed get hs rt"
  using assms
proof (induction m arbitrary: hs)
  case (Cons x m)
  obtain n h where x: "x = (n, h)" by fastforce
  obtain hs1 hs2 where hs: "Reachable get h = Some (Inr hs1)" "index_hashes get m = Some (Inr hs2)" "hs = hs1 @ hs2"
    using Cons.prems x by (auto simp: ok_simps ok_option_simps)
  show ?case
    using tree_listed_grows[OF Reachable_listed[OF hs(1)], of get hs] tree_listed_grows[of get hs2 _ get hs] Cons.IH[OF hs(2)] x hs(3) by auto
qed simp

lemma Reachable_read:
  assumes "Reachable get rt = Some (Inr hs)"
  shows "\<forall>h \<in> set hs. \<not> isl (get h)"
  using Reachable_nodes[OF assms] closed_nodes_read by blast

lemma index_hashes_read: "index_hashes get m = Some (Inr hs) \<Longrightarrow> \<forall>h \<in> set hs. \<not> isl (get h)"
  by (induction m arbitrary: hs) (auto simp: ok_simps ok_option_simps dest!: Reachable_read)

lemma table_objects_listed:
  assumes "table_objects get t = Some (Inr hs)"
  shows "table_listed get hs t"
proof -
  obtain hs1 hs2 where hs: "Reachable get (DataRoot t) = Some (Inr hs1)" "index_hashes get (Indexes t) = Some (Inr hs2)" "hs = SchemaRoot t # hs1 @ hs2"
    using assms by (auto simp: table_objects_def ok_simps ok_option_simps)
  then show ?thesis
    using tree_listed_grows[OF Reachable_listed[OF hs(1)], of get hs] index_hashes_listed[OF hs(2)] tree_listed_grows[of get hs2 _ get hs]
    by (auto simp: table_listed_def root_listed_def)
qed

section \<open>The inventory and the tables of a merge in progress\<close>

text \<open>The cache of validated tables covers a snapshot when what it recorded for a table lists the table.\<close>

definition cache_covers :: "(bytes \<Rightarrow> bytes) \<Rightarrow> gitReader \<Rightarrow> (nat \<Rightarrow> bytes) \<Rightarrow> validationCache \<Rightarrow> Snapshot \<Rightarrow> bool" where
  "cache_covers H readGit identity c s \<longleftrightarrow>
     (\<forall>name t e. map_of (mf_tables (sn_Manifest s)) name = Some t \<longrightarrow> cache_entry c (tableValidationKey identity s t) = Some e
       \<longrightarrow> table_listed (snapshot_read H readGit s) (refHashes (ve_objects e)) t)"

text \<open>
  Where a table of the result comes from: it is the table of a snapshot, listed as that snapshot holds it, or
  it was merged, is listed as the writer holds it, and its index roots are those of the rows of its data tree.
\<close>

definition merged_indexes :: "(bytes \<Rightarrow> bytes) \<Rightarrow> sqllib \<Rightarrow> schemaDecoder \<Rightarrow> (hash \<Rightarrow> error + bytes) \<Rightarrow> Table \<Rightarrow> bool" where
  "merged_indexes H lib decode get t \<longleftrightarrow>
     (\<exists>schemaData schema idxs. SchemaRoot t = storage_Sum H schemaData \<and> decode schemaData = Inr (schema, idxs)
        \<and> (if idxs = [] then Indexes t = []
           else \<exists>es. tree_Entries get (DataRoot t) = Some (Inr es) \<and> indexed H lib schema idxs es (Indexes t)))"

definition table_source ::
  "(bytes \<Rightarrow> bytes) \<Rightarrow> gitReader \<Rightarrow> sqllib \<Rightarrow> schemaDecoder \<Rightarrow> Snapshot set \<Rightarrow> (hash \<Rightarrow> error + bytes) \<Rightarrow> hash list \<Rightarrow> bytes \<Rightarrow> Table \<Rightarrow> bool" where
  "table_source H readGit lib decode S get hs name t \<longleftrightarrow>
     (\<exists>s \<in> S. map_of (mf_tables (sn_Manifest s)) name = Some t \<and> table_listed (snapshot_read H readGit s) hs t)
     \<or> table_listed get hs t \<and> merged_indexes H lib decode get t"

definition merge_inv ::
  "(bytes \<Rightarrow> bytes) \<Rightarrow> gitReader \<Rightarrow> sqllib \<Rightarrow> schemaDecoder \<Rightarrow> (nat \<Rightarrow> bytes) \<Rightarrow> Snapshot set \<Rightarrow> mergeState \<Rightarrow> bool" where
  "merge_inv H readGit lib decode identity S ms \<longleftrightarrow>
     writer_inv H readGit (ms_writer ms) \<and> distinct (ms_reachable ms)
     \<and> (\<forall>h \<in> set (ms_reachable ms). \<not> isl (writer_Get H readGit (ms_writer ms) h))
     \<and> (\<forall>name t. map_of (ms_tables ms) name = Some t \<longrightarrow>
          table_source H readGit lib decode S (writer_Get H readGit (ms_writer ms)) (ms_reachable ms) name t)
     \<and> vcache_ok (ms_cache ms) \<and> (\<forall>s \<in> S. cache_covers H readGit identity (ms_cache ms) s)"

lemma insert_all: "set (fold List.insert hs xs) = set hs \<union> set xs" "distinct xs \<Longrightarrow> distinct (fold List.insert hs xs)"
  by (induction hs arbitrary: xs) auto

lemma table_source_grows:
  assumes "table_source H readGit lib decode S get hs name t" "\<And>h d. get h = Inr d \<Longrightarrow> get' h = Inr d" "set hs \<subseteq> set hs'"
  shows "table_source H readGit lib decode S get' hs' name t"
proof -
  have "table_listed get hs t \<Longrightarrow> table_listed get' hs' t" by (rule table_listed_grows[OF _ assms(2,3)])
  moreover have "table_listed (snapshot_read H readGit s) hs t \<Longrightarrow> table_listed (snapshot_read H readGit s) hs' t" for s
    by (rule table_listed_grows[OF _ _ assms(3)])
  moreover have "merged_indexes H lib decode get t \<Longrightarrow> merged_indexes H lib decode get' t"
    using tree_Entries_grows[of get "DataRoot t" _ get', OF _ assms(2)] unfolding merged_indexes_def by (metis (no_types, lifting))
  ultimately show ?thesis using assms(1) unfolding table_source_def by blast
qed

lemma merge_inv_writer:
  assumes "merge_inv H readGit lib decode identity S ms" "writer_inv H readGit w" "reads_stay (writer_Get H readGit) (ms_writer ms) w"
  shows "merge_inv H readGit lib decode identity S (ms\<lparr>ms_writer := w\<rparr>)"
proof -
  have "\<not> isl (writer_Get H readGit w h)" if "h \<in> set (ms_reachable ms)" for h
    using assms(1,3) that by (cases "writer_Get H readGit (ms_writer ms) h") (auto simp: merge_inv_def reads_stay_def)
  moreover have "table_source H readGit lib decode S (writer_Get H readGit w) (ms_reachable ms) name t"
    if "map_of (ms_tables ms) name = Some t" for name t
    by (rule table_source_grows[of H readGit lib decode S "writer_Get H readGit (ms_writer ms)"])
      (use assms(1,3) that in \<open>auto simp: merge_inv_def reads_stay_def\<close>)
  ultimately show ?thesis using assms(1,2) by (simp add: merge_inv_def)
qed

lemma merge_inv_put:
  assumes "merge_inv H readGit lib decode identity S ms" "\<forall>h \<in> set hs. \<not> isl (writer_Get H readGit (ms_writer ms) h)"
    and "table_source H readGit lib decode S (writer_Get H readGit (ms_writer ms)) hs name t"
  shows "merge_inv H readGit lib decode identity S (put_table name t (add_hashes hs ms))"
proof -
  let ?all = "fold List.insert hs (ms_reachable ms)"
  have "table_source H readGit lib decode S (writer_Get H readGit (ms_writer ms)) ?all n t'"
    if "table_source H readGit lib decode S (writer_Get H readGit (ms_writer ms)) (ms_reachable ms) n t'" for n t'
    by (rule table_source_grows[OF that]) (auto simp: insert_all)
  moreover have "table_source H readGit lib decode S (writer_Get H readGit (ms_writer ms)) ?all name t"
    by (rule table_source_grows[OF assms(3)]) (auto simp: insert_all)
  ultimately show ?thesis
    using assms(1,2) by (auto simp: merge_inv_def put_table_def add_hashes_def insert_all update_conv')
qed

subsection \<open>Copying a table\<close>

definition chosen :: "tableVersion \<Rightarrow> Table option" where
  "chosen v = (if tv_present v then Some (tv_table v) else None)"

lemma copyTable_cases:
  assumes "copyTable H readGit decode identity name v ms = Some (Inr ms')" "tv_present v"
  obtains s objects w where "tv_snapshot v = Some s" "ImportObjects H readGit (ms_writer ms) (Some s) objects = (Inr (), w)"
    "fst (validatedTableObjects identity (ms_cache ms) s name) = Some objects
      \<or> table_objects (snapshot_read H readGit s) (tv_table v) = Some (Inr objects)"
    "ms' = put_table name (tv_table v) (add_hashes objects
       (ms\<lparr>ms_writer := w, ms_cache := snd (validatedTableObjects identity (ms_cache ms) s name)\<rparr>))"
proof -
  obtain s where s: "tv_snapshot v = Some s" using assms by (auto simp: copyTable_def split: option.splits)
  obtain cached cache where c: "validatedTableObjects identity (ms_cache ms) s name = (cached, cache)" by fastforce
  let ?objects = "case cached of Some objects \<Rightarrow> Some (Inr objects) | None \<Rightarrow> table_objects (snapshot_read H readGit s) (tv_table v)"
  obtain objects where o: "?objects = Some (Inr objects)"
      "(case ImportObjects H readGit (ms_writer ms) (Some s) objects of (Inl e, _) \<Rightarrow> Some (Inl e)
        | (Inr _, w) \<Rightarrow> Some (Inr (put_table name (tv_table v) (add_hashes objects (ms\<lparr>ms_writer := w, ms_cache := cache\<rparr>))))) = Some (Inr ms')"
    using assms s c by (auto simp: copyTable_def ok_simps ok_option_simps)
  then obtain w where "ImportObjects H readGit (ms_writer ms) (Some s) objects = (Inr (), w)"
      "ms' = put_table name (tv_table v) (add_hashes objects (ms\<lparr>ms_writer := w, ms_cache := cache\<rparr>))"
    by (auto split: prod.splits sum.splits)
  then show ?thesis using that[of s objects w] s c o(1) by (auto split: option.splits)
qed

lemma copyTable_tables:
  assumes "copyTable H readGit decode identity name v ms = Some (Inr ms')"
  shows "map_of (ms_tables ms') = (case chosen v of None \<Rightarrow> map_of (ms_tables ms) | Some t \<Rightarrow> (map_of (ms_tables ms))(name \<mapsto> t))"
    and "ms_conflicts ms' = ms_conflicts ms"
proof -
  have "map_of (ms_tables ms') = (case chosen v of None \<Rightarrow> map_of (ms_tables ms) | Some t \<Rightarrow> (map_of (ms_tables ms))(name \<mapsto> t))
      \<and> ms_conflicts ms' = ms_conflicts ms"
  proof (cases "tv_present v")
    case True
    show ?thesis
      by (rule copyTable_cases[OF assms True]) (simp add: chosen_def True put_table_def add_hashes_def update_conv')
  qed (use assms in \<open>simp add: copyTable_def chosen_def\<close>)
  then show "map_of (ms_tables ms') = (case chosen v of None \<Rightarrow> map_of (ms_tables ms) | Some t \<Rightarrow> (map_of (ms_tables ms))(name \<mapsto> t))"
    "ms_conflicts ms' = ms_conflicts ms" by simp_all
qed

lemma validated_covers:
  assumes "vcache_ok c"
  shows "vcache_ok (snd (validatedTableObjects identity c s name))"
    and "cache_covers H readGit identity c s' \<Longrightarrow> cache_covers H readGit identity (snd (validatedTableObjects identity c s name)) s'"
    and "cache_covers H readGit identity c s \<Longrightarrow> fst (validatedTableObjects identity c s name) = Some hs
      \<Longrightarrow> map_of (mf_tables (sn_Manifest s)) name = Some t \<Longrightarrow> table_listed (snapshot_read H readGit s) hs t"
proof -
  show "vcache_ok (snd (validatedTableObjects identity c s name))"
    using lookupTable_ok(1)[OF assms] assms by (auto simp: validatedTableObjects_def split: option.splits)
  have "cache_entry (snd (validatedTableObjects identity c s name)) k = cache_entry c k" for k
    using lookupTable_ok(2)[OF assms] by (auto simp: validatedTableObjects_def split: option.splits)
  then show "cache_covers H readGit identity (snd (validatedTableObjects identity c s name)) s'" if "cache_covers H readGit identity c s'"
    using that by (simp add: cache_covers_def)
  show "table_listed (snapshot_read H readGit s) hs t" if "cache_covers H readGit identity c s" "fst (validatedTableObjects identity c s name) = Some hs"
      "map_of (mf_tables (sn_Manifest s)) name = Some t"
    using that by (auto simp: validatedTableObjects_def cache_covers_def lookupTable_def split: option.splits if_splits)
qed

lemma version_table: "tv_present (version s name) \<Longrightarrow> map_of (mf_tables (sn_Manifest s)) name = Some (tv_table (version s name)) \<and> tv_snapshot (version s name) = Some s"
  by (auto simp: version_def split: option.splits)

lemma copyTable_inv:
  assumes "copyTable H readGit decode identity name (version s name) ms = Some (Inr ms')"
    and "merge_inv H readGit lib decode identity S ms" "s \<in> S" "cache_named H s"
  shows "merge_inv H readGit lib decode identity S ms'"
proof (cases "tv_present (version s name)")
  case True
  note v = version_table[OF True]
  show ?thesis
    using assms(1) True
  proof (rule copyTable_cases)
    fix s' objects w
    let ?c = "snd (validatedTableObjects identity (ms_cache ms) s' name)"
    assume s': "tv_snapshot (version s name) = Some s'"
      and imp: "ImportObjects H readGit (ms_writer ms) (Some s') objects = (Inr (), w)"
      and obj: "fst (validatedTableObjects identity (ms_cache ms) s' name) = Some objects
        \<or> table_objects (snapshot_read H readGit s') (tv_table (version s name)) = Some (Inr objects)"
      and ms': "ms' = put_table name (tv_table (version s name)) (add_hashes objects (ms\<lparr>ms_writer := w, ms_cache := ?c\<rparr>))"
    have s: "s' = s" using s' v by simp
    have inv: "writer_inv H readGit (ms_writer ms)" "vcache_ok (ms_cache ms)" "cache_covers H readGit identity (ms_cache ms) s"
      using assms(2,3) by (simp_all add: merge_inv_def)
    note w = ImportObjects_spec[OF inv(1) assms(4) imp[unfolded s]]
    have "table_listed (snapshot_read H readGit s) objects (tv_table (version s name))"
      using obj validated_covers(3)[OF inv(2,3)] table_objects_listed v s by blast
    then have "table_source H readGit lib decode S (writer_Get H readGit w) objects name (tv_table (version s name))"
      using v assms(3) unfolding table_source_def by blast
    moreover have "merge_inv H readGit lib decode identity S (ms\<lparr>ms_writer := w\<rparr>)"
      using merge_inv_writer[OF assms(2)] w by (simp add: reads_stay_def)
    then have "merge_inv H readGit lib decode identity S (ms\<lparr>ms_writer := w, ms_cache := ?c\<rparr>)"
      using validated_covers(1,2)[OF inv(2)] by (simp add: merge_inv_def)
    ultimately show ?thesis using merge_inv_put ms' w by simp
  qed
qed (use assms in \<open>simp add: copyTable_def\<close>)

subsection \<open>Merging the rows\<close>

lemma merge_loop_closed:
  assumes closed: "\<And>e s s'. emit e s = Some (Inr s') \<Longrightarrow> Q s \<Longrightarrow> Q s'"
    and run: "merge_loop resolutions table emit cs conflicts s = Some (Inr (conflicts', s'))" "Q s"
  shows "Q s'"
proof -
  have "emit' = emit \<longrightarrow> Q s \<longrightarrow> (\<forall>conflicts' s'. x = Inr (conflicts', s') \<longrightarrow> Q s')"
    if "merge_loop resolutions table emit' cs conflicts s = Some x" for resolutions table emit' cs conflicts s x
    using that
  proof (induction rule: merge_loop.raw_induct[rotated, consumes 1])
    case (1 f resolutions table emit' cs conflicts s x)
    show ?case
    proof (intro impI allI)
      fix conflicts' s'
      assume [simp]: "emit' = emit" and s: "Q s" and x: "x = Inr (conflicts', s')"
      have IH: "Q s'" if "f resolutions table emit cs1 conf1 s1 = Some x" "Q s1" for cs1 conf1 s1
        using 1(1)[OF that(1)] that(2) x by simp
      show "Q s'"
      proof (cases "least_key cs")
        case (Some k)
        obtain vc where vc: "take_key k cs = Some (Inr vc)" using 1(2) Some x by (auto simp: ok_option_simps)
        let ?m = "merge_value resolutions table k (fst vc ! 0) (fst vc ! 1) (fst vc ! 2)"
        obtain m where m: "?m = Inr m" using 1(2) Some x vc by (cases ?m) auto
        show ?thesis
        proof (cases m)
          case (Inl c)
          then show ?thesis using 1(2) Some vc m IH[OF _ s] by simp
        next
          case (Inr v)
          show ?thesis
          proof (cases v)
            case None
            then show ?thesis using 1(2) Some vc m Inr IH[OF _ s] by simp
          next
            case v: (Some y)
            then obtain s1 where "emit \<lparr>ekey = k, evalue = y\<rparr> s = Some (Inr s1)" "f resolutions table emit (snd vc) conflicts s1 = Some x"
              using 1(2) Some vc m Inr x by (auto simp: ok_option_simps)
            then show ?thesis using IH closed s by blast
          qed
        qed
      qed (use 1(2) s x in \<open>simp\<close>)
    qed
  qed
  then show ?thesis using run by blast
qed

lemma mergeRows_closed:
  assumes "\<And>e s s'. emit e s = Some (Inr s') \<Longrightarrow> Q s \<Longrightarrow> Q s'"
    and "mergeRows H readGit resolutions table b l r emit s = Some (Inr (conflicts, s'))" "Q s"
  shows "Q s'"
  using assms(2,3) merge_loop_closed[OF assms(1)] by (auto simp: mergeRows_def ok_option_simps)

lemma rebuild_cases:
  assumes "rebuildIndexesFromTree lib get put schema indexes rt s = Some (Inr (roots, s'))"
  obtains "s' = s" | m where "build_indexes put m indexes [] s = Some (Inr (the roots, s'))"
proof -
  obtain es where es: "tree_Entries (get s) rt = Some (Inr es)" using assms by (auto simp: rebuildIndexesFromTree_def ok_option_simps)
  then show ?thesis
    using assms that by (cases es) (auto simp: rebuildIndexesFromTree_def ok_simps simp del: index_entries.simps)
qed

context put_closed
begin

lemma merge_emit_closed: "merge_emit lib schema put e bs = Some (Inr bs') \<Longrightarrow> Q (snd bs) \<Longrightarrow> Q (snd bs')"
  using kept_Q[OF sb_Add_closed] by (cases bs') (auto simp: merge_emit_def ok_simps)

lemma build_indexes_closed: "build_indexes put m indexes roots s = Some (Inr (roots', s')) \<Longrightarrow> Q s \<Longrightarrow> Q s'"
proof (induction indexes arbitrary: roots s)
  case (Cons idx idxs)
  then show ?case using kept_Q[OF Build_closed] by (auto simp: Let_def ok_option_simps split: if_splits)
qed simp

lemma rebuild_closed: "rebuildIndexesFromTree lib get put schema indexes rt s = Some (Inr (roots, s')) \<Longrightarrow> Q s \<Longrightarrow> Q s'"
  by (erule rebuild_cases) (auto dest: build_indexes_closed)

end

context digest32
begin

lemma writer_put_stays:
  assumes "writer_Put H w d = Inr (h, w')" "writer_inv H readGit w"
  shows "h = storage_Sum H d \<and> writer_inv H readGit w' \<and> reads_stay (writer_Get H readGit) w w' \<and> \<not> isl (writer_Get H readGit w' h)"
proof -
  have "\<not> isl (writer_Get H readGit w' h)"
    using wr.put_get[OF assms(2,1)] wr.put_Inr[OF assms(2,1)] by (cases "writer_Get H readGit w h") auto
  then show ?thesis using wr.put_Inr[OF assms(2,1)] wr.put_keeps[OF assms(2,1)] by (simp add: reads_stay_def)
qed

lemma finish_table_inv:
  assumes "finish_table H readGit lib name schemaData schema indexDefs bld ms = Some (Inr ms')" "merge_inv H readGit lib decode identity S ms"
    and "decode schemaData = Inr (schema, indexDefs)"
  shows "merge_inv H readGit lib decode identity S ms' \<and> ms_conflicts ms' = ms_conflicts ms
    \<and> (\<exists>t. map_of (ms_tables ms') = (map_of (ms_tables ms))(name \<mapsto> t) \<and> SchemaRoot t = storage_Sum H schemaData
        \<and> (\<exists>tree w1. sb_Finish (writer_Put H) DefaultOptions bld (ms_writer ms) = Some (Inr (tree, w1)) \<and> DataRoot t = troot tree))"
proof -
  obtain tree w1 h w2 hashes idxRoots w3 idxHashes where run:
      "sb_Finish (writer_Put H) DefaultOptions bld (ms_writer ms) = Some (Inr (tree, w1))" "writer_Put H w1 schemaData = Inr (h, w2)"
      "Reachable (writer_Get H readGit w2) (troot tree) = Some (Inr hashes)"
      "(if indexDefs = [] then Some (Inr (None, w2))
        else rebuildIndexesFromTree lib (writer_Get H readGit) (writer_Put H) schema indexDefs (troot tree) w2) = Some (Inr (idxRoots, w3))"
      "index_hashes (writer_Get H readGit w3) (case idxRoots of None \<Rightarrow> [] | Some roots \<Rightarrow> roots) = Some (Inr idxHashes)"
      "ms' = put_table name \<lparr>SchemaRoot = h, DataRoot = troot tree, Indexes = (case idxRoots of None \<Rightarrow> [] | Some roots \<Rightarrow> roots)\<rparr>
         (add_hashes (h # hashes @ idxHashes) (ms\<lparr>ms_writer := w3\<rparr>))"
    using assms(1) by (auto simp: finish_table_def ok_simps ok_option_simps)
  let ?roots = "case idxRoots of None \<Rightarrow> [] | Some roots \<Rightarrow> roots" and ?hs = "h # hashes @ idxHashes"
  let ?t = "\<lparr>SchemaRoot = h, DataRoot = troot tree, Indexes = ?roots\<rparr>"
  let ?stay = "\<lambda>w. writer_inv H readGit w \<and> reads_stay (writer_Get H readGit) (ms_writer ms) w"
  have "?stay (ms_writer ms)" using assms(2) by (simp add: merge_inv_def reads_stay_def)
  then have w1: "?stay w1" using wr.held.kept_Q[OF wr.held.sb_Finish_closed[OF run(1)]] by blast
  note w2 = writer_put_stays[OF run(2) conjunct1[OF w1]]
  then have st2: "?stay w2" using w1 by (auto simp: reads_stay_def)
  have st3: "?stay w3" and w3: "reads_stay (writer_Get H readGit) w2 w3"
    using run(4) st2 wr.held.rebuild_closed[where ?s0.0 = "ms_writer ms" and readGit = readGit]
      wr.held.rebuild_closed[where ?s0.0 = w2 and readGit = readGit]
    by (auto simp: reads_stay_def split: if_splits)
  have grow: "writer_Get H readGit w3 x = Inr d" if "writer_Get H readGit w2 x = Inr d" for x d using w3 that by (simp add: reads_stay_def)
  have read: "\<not> isl (writer_Get H readGit w3 x)" if "x \<in> set ?hs" for x
  proof -
    have "\<not> isl (writer_Get H readGit w2 x) \<or> \<not> isl (writer_Get H readGit w3 x)"
      using that w2 Reachable_read[OF run(3)] index_hashes_read[OF run(5)] by auto
    then show ?thesis using grow by (cases "writer_Get H readGit w2 x") auto
  qed
  have "tree_listed (writer_Get H readGit w3) ?hs (troot tree)" by (rule tree_listed_grows[OF Reachable_listed[OF run(3)] grow]) auto
  moreover have "\<forall>rt \<in> snd ` set ?roots. tree_listed (writer_Get H readGit w3) ?hs rt"
    using index_hashes_listed[OF run(5)] tree_listed_grows[of "writer_Get H readGit w3" idxHashes _ "writer_Get H readGit w3" ?hs] by auto
  ultimately have "table_listed (writer_Get H readGit w3) ?hs ?t" by (simp add: table_listed_def root_listed_def)
  moreover have "merged_indexes H lib decode (writer_Get H readGit w3) ?t"
  proof (cases "indexDefs = []")
    case True
    then show ?thesis using run(4) w2 assms(3) unfolding merged_indexes_def by (intro exI[of _ schemaData] exI[of _ schema] exI[of _ indexDefs]) auto
  next
    case False
    then obtain es where es: "tree_Entries (writer_Get H readGit w2) (troot tree) = Some (Inr es)" "indexed H lib schema indexDefs es ?roots"
      using wr.rebuildIndexesFromTree_indexed[OF conjunct1[OF st2], of lib schema indexDefs "troot tree" idxRoots w3] run(4) by auto
    have "tree_Entries (writer_Get H readGit w3) (troot tree) = Some (Inr es)" by (rule tree_Entries_grows[OF es(1) grow])
    then show ?thesis using es(2) w2 assms(3) False unfolding merged_indexes_def by auto
  qed
  ultimately have "table_source H readGit lib decode S (writer_Get H readGit w3) ?hs name ?t" by (simp add: table_source_def)
  then have "merge_inv H readGit lib decode identity S ms'"
    using merge_inv_put[OF merge_inv_writer[OF assms(2) conjunct1[OF st3] conjunct2[OF st3]]] read run(6) by simp
  then show ?thesis using run(1,6) w2 by (auto simp: put_table_def add_hashes_def update_conv')
qed

end

section \<open>The merge of snapshots\<close>

text \<open>The rows of a merged table, for versions that are stored valid trees.\<close>

definition rows_merged ::
  "(bytes \<Rightarrow> bytes) \<Rightarrow> gitReader \<Rightarrow> (bytes, Resolution) gomap \<Rightarrow> bytes \<Rightarrow> tableVersion \<Rightarrow> tableVersion \<Rightarrow> tableVersion \<Rightarrow> hash \<Rightarrow> bool" where
  "rows_merged H readGit resolutions name b l r rt \<longleftrightarrow>
     (\<forall>eb el er. version_repr H readGit b eb \<and> version_repr H readGit l el \<and> version_repr H readGit r er
        \<and> length eb + length el + length er < 2 ^ 64 \<longrightarrow>
        (\<exists>es. keys_sorted es \<and> rt = proot H (canon DefaultOptions es)
          \<and> (\<forall>k. elookup k es = three_way resolutions name k (elookup k eb) (elookup k el) (elookup k er))))"

definition selected ::
  "(bytes \<Rightarrow> bytes) \<Rightarrow> gitReader \<Rightarrow> (bytes, Resolution) gomap \<Rightarrow> Snapshot \<Rightarrow> Snapshot \<Rightarrow> Snapshot \<Rightarrow> bytes \<Rightarrow> Table option \<Rightarrow> bool" where
  "selected H readGit resolutions bs ls rs name t \<longleftrightarrow>
     (let b = version bs name; l = version ls name; r = version rs name
      in if equalVersion l r then t = chosen l
         else if equalVersion l b then t = chosen r
         else if equalVersion r b then t = chosen l
         else if schemas_differ b l r then
           (\<exists>choice v. map_of resolutions (schema_id name) = Some choice \<and> selectVersion choice b l r = Inr v \<and> t = chosen v)
         else (\<exists>table. t = Some table \<and> SchemaRoot table = SchemaRoot (tv_table l)
                \<and> rows_merged H readGit resolutions name b l r (DataRoot table)))"

definition step_ok ::
  "(bytes \<Rightarrow> Table option \<Rightarrow> bool) \<Rightarrow> bytes \<Rightarrow> mergeState \<Rightarrow> mergeState \<Rightarrow> bool" where
  "step_ok sel name ms ms' \<longleftrightarrow>
     (\<forall>k. k \<noteq> name \<longrightarrow> map_of (ms_tables ms') k = map_of (ms_tables ms) k)
     \<and> (\<exists>cs. ms_conflicts ms' = ms_conflicts ms @ cs
          \<and> (cs = [] \<longrightarrow> map_of (ms_tables ms) name = None \<longrightarrow> sel name (map_of (ms_tables ms') name)))"

lemma copy_step_ok:
  assumes "copyTable H readGit decode identity name v ms = Some (Inr ms')" "sel name (chosen v)"
  shows "step_ok sel name ms ms'"
  using copyTable_tables[OF assms(1)] assms(2) by (auto simp: step_ok_def split: option.splits)

lemma schemaConflict_id: "schemaConflict H readGit name b l r = Inr c \<Longrightarrow> mc_ID c = schema_id name"
  by (auto simp: schemaConflict_def split: sum.splits)

context digest32
begin

lemma writer_store: "content_store H (writer_Get H readGit) (writer_Put H) (writer_inv H readGit)"
  by (rule wr.content_store_axioms)

lemma merge_table_step:
  assumes run: "merge_table H readGit lib decode resolutions name b l r ms = Some (Inr ms')"
    and inv: "merge_inv H readGit lib decode identity S ms" and res: "resolutions_ok resolutions"
    and l: "tv_snapshot l = Some s" "cache_named H s"
    and sel: "\<And>t. SchemaRoot t = SchemaRoot (tv_table l) \<Longrightarrow> rows_merged H readGit resolutions name b l r (DataRoot t) \<Longrightarrow> sel name (Some t)"
  shows "merge_inv H readGit lib decode identity S ms' \<and> step_ok sel name ms ms'"
proof -
  obtain schemaData schema indexDefs bld rc b1 w1 where
      schema: "snapshot_read H readGit s (SchemaRoot (tv_table l)) = Inr schemaData" and dec: "decode schemaData = Inr (schema, indexDefs)" and bld: "NewSortedBuilder DefaultOptions = Inr bld"
      and rows: "mergeRows H readGit resolutions name b l r (merge_emit lib schema (writer_Put H)) (bld, ms_writer ms) = Some (Inr (rc, b1, w1))"
      and last: "(if rc \<noteq> [] then Some (Inr (ms\<lparr>ms_conflicts := ms_conflicts ms @ rc, ms_writer := w1\<rparr>))
        else finish_table H readGit lib name schemaData schema indexDefs b1 (ms\<lparr>ms_conflicts := ms_conflicts ms @ rc, ms_writer := w1\<rparr>)) = Some (Inr ms')"
    using run l(1) by (auto simp: merge_table_def version_get_def ok_simps ok_option_simps Let_def)
  let ?ms1 = "ms\<lparr>ms_conflicts := ms_conflicts ms @ rc, ms_writer := w1\<rparr>"
  let ?stay = "\<lambda>w. writer_inv H readGit w \<and> reads_stay (writer_Get H readGit) (ms_writer ms) w"
  have w: "writer_inv H readGit (ms_writer ms)" using inv by (simp add: merge_inv_def)
  have emit: "?stay (snd x')" if "merge_emit lib schema (writer_Put H) e x = Some (Inr x')" "?stay (snd x)" for e x x'
    using wr.held.merge_emit_closed[OF that] .
  have start: "?stay (snd (bld, ms_writer ms))" using w by (simp add: reads_stay_def)
  have "?stay (snd (b1, w1))" by (rule mergeRows_closed[where Q = "\<lambda>x. ?stay (snd x)", OF _ rows start]) (rule emit)
  then have "merge_inv H readGit lib decode identity S (ms\<lparr>ms_writer := w1\<rparr>)" using merge_inv_writer[OF inv] by simp
  then have inv1: "merge_inv H readGit lib decode identity S ?ms1" by (simp add: merge_inv_def)
  show ?thesis
  proof (cases "rc = []")
    case False
    then show ?thesis using last inv1 by (auto simp: step_ok_def)
  next
    case True
    then have fin: "finish_table H readGit lib name schemaData schema indexDefs b1 ?ms1 = Some (Inr ms')" using last by simp
    obtain t tree w2 where t: "merge_inv H readGit lib decode identity S ms'" "ms_conflicts ms' = ms_conflicts ms"
        "map_of (ms_tables ms') = (map_of (ms_tables ms))(name \<mapsto> t)" "SchemaRoot t = storage_Sum H schemaData"
        "sb_Finish (writer_Put H) DefaultOptions b1 w1 = Some (Inr (tree, w2))" "DataRoot t = troot tree"
      using finish_table_inv[OF fin inv1 dec] True by auto
    have "rows_merged H readGit resolutions name b l r (DataRoot t)"
      unfolding rows_merged_def
    proof (intro allI impI; elim conjE)
      fix eb el er
      assume v: "version_repr H readGit b eb" "version_repr H readGit l el" "version_repr H readGit r er"
        and len: "length eb + length el + length er < 2 ^ 64"
      note r = merge_rows_result[OF wr.content_store_axioms w v res len bld rows[unfolded True]]
      show "\<exists>es. keys_sorted es \<and> DataRoot t = proot H (canon DefaultOptions es)
          \<and> (\<forall>k. elookup k es = three_way resolutions name k (elookup k eb) (elookup k el) (elookup k er))"
        using r(1) t(5,6) merged_three_way[OF res r(2)] by (intro exI[of _ "merged resolutions name eb el er"]) auto
    qed
    moreover have "SchemaRoot t = SchemaRoot (tv_table l)" using snapshot_read_Sum[OF l(2) schema] t(4) by simp
    ultimately show ?thesis using t(1,2,3) sel by (auto simp: step_ok_def)
  qed
qed

lemma merge_name_step:
  assumes run: "merge_name H readGit lib decode identity resolutions bs ls rs name ms = Some (Inr ms')"
    and inv: "merge_inv H readGit lib decode identity {bs, ls, rs} ms" and res: "resolutions_ok resolutions"
    and named: "cache_named H bs" "cache_named H ls" "cache_named H rs"
  shows "merge_inv H readGit lib decode identity {bs, ls, rs} ms' \<and> step_ok (selected H readGit resolutions bs ls rs) name ms ms'"
proof -
  let ?b = "version bs name" and ?l = "version ls name" and ?r = "version rs name"
  let ?sel = "selected H readGit resolutions bs ls rs"
  have cp: "merge_inv H readGit lib decode identity {bs, ls, rs} ms' \<and> step_ok ?sel name ms ms'"
    if "copyTable H readGit decode identity name (version s name) ms = Some (Inr ms')" "s \<in> {bs, ls, rs}" "?sel name (chosen (version s name))" for s
    using copyTable_inv[OF that(1) inv that(2)] named that(2) copy_step_ok[of H readGit decode identity name "version s name" ms ms' ?sel] that(1,3) by blast
  consider (copy) s where "copyTable H readGit decode identity name (version s name) ms = Some (Inr ms')" "s \<in> {ls, rs}" "?sel name (chosen (version s name))"
    | (schema) "schemas_differ ?b ?l ?r" "\<not> equalVersion ?l ?r" "\<not> equalVersion ?l ?b" "\<not> equalVersion ?r ?b"
        "merge_schemas H readGit decode identity resolutions name ?b ?l ?r ms = Some (Inr ms')"
    | (rows) "\<not> schemas_differ ?b ?l ?r" "\<not> equalVersion ?l ?r" "\<not> equalVersion ?l ?b" "\<not> equalVersion ?r ?b"
        "merge_table H readGit lib decode resolutions name ?b ?l ?r ms = Some (Inr ms')"
    using run unfolding merge_name_def selected_def Let_def by (auto split: if_splits)
  then show ?thesis
  proof cases
    case copy
    then show ?thesis using cp[of s] by blast
  next
    case schema
    obtain c where c: "schemaConflict H readGit name ?b ?l ?r = Inr c" using schema(5) by (auto simp: merge_schemas_def ok_simps)
    note id = schemaConflict_id[OF c]
    show ?thesis
    proof (cases "map_of resolutions (schema_id name)")
      case None
      then have "ms' = ms\<lparr>ms_conflicts := ms_conflicts ms @ [c]\<rparr>" using schema(5) c id by (simp add: merge_schemas_def)
      then show ?thesis using inv by (simp add: merge_inv_def step_ok_def)
    next
      case (Some choice)
      then obtain v where v: "selectVersion choice ?b ?l ?r = Inr v" "copyTable H readGit decode identity name v ms = Some (Inr ms')"
        using schema(5) c id by (auto simp: merge_schemas_def ok_simps)
      have sel: "?sel name (chosen v)" using schema Some v(1) by (auto simp: selected_def Let_def)
      show ?thesis
      proof (cases "v \<in> {?b, ?l, ?r}")
        case True
        then show ?thesis using cp[of bs] cp[of ls] cp[of rs] v(2) sel by auto
      next
        case False
        then have "\<not> tv_present v" using v(1) by (cases choice) auto
        then show ?thesis using v(2) inv copy_step_ok[of H readGit decode identity name v ms ms' ?sel, OF v(2) sel] by (simp add: copyTable_def)
      qed
    qed
  next
    case rows
    have l: "tv_snapshot ?l = Some ls" using rows(1) version_table[of ls name] by (simp add: schemas_differ_def)
    show ?thesis
      by (rule merge_table_step[OF rows(5) inv res l named(2)]) (use rows in \<open>auto simp: selected_def Let_def\<close>)
  qed
qed

lemma merge_names_run:
  assumes step: "\<And>name ms ms'. step name ms = Some (Inr ms') \<Longrightarrow> J ms \<Longrightarrow> J ms' \<and> step_ok sel name ms ms'"
    and "merge_names step names ms = Some (Inr ms')" "J ms" "distinct names" "\<forall>n \<in> set names. map_of (ms_tables ms) n = None"
  shows "J ms' \<and> (\<forall>k. k \<notin> set names \<longrightarrow> map_of (ms_tables ms') k = map_of (ms_tables ms) k)
    \<and> (ms_conflicts ms' = [] \<longrightarrow> ms_conflicts ms = [] \<and> (\<forall>n \<in> set names. sel n (map_of (ms_tables ms') n)))"
  using assms(2-5)
proof (induction names arbitrary: ms)
  case (Cons n names)
  obtain ms1 where ms1: "step n ms = Some (Inr ms1)" "merge_names step names ms1 = Some (Inr ms')"
    using Cons.prems(1) by (auto simp: ok_option_simps)
  note s = step[OF ms1(1) Cons.prems(2)]
  have "\<forall>n' \<in> set names. map_of (ms_tables ms1) n' = None" using s Cons.prems(3,4) by (auto simp: step_ok_def)
  then have IH: "J ms' \<and> (\<forall>k. k \<notin> set names \<longrightarrow> map_of (ms_tables ms') k = map_of (ms_tables ms1) k)
      \<and> (ms_conflicts ms' = [] \<longrightarrow> ms_conflicts ms1 = [] \<and> (\<forall>n \<in> set names. sel n (map_of (ms_tables ms') n)))"
    using Cons.IH[OF ms1(2)] s Cons.prems(3) by simp
  then show ?case using s Cons.prems(3,4) by (auto simp: step_ok_def)
qed auto

lemma MergeSnapshots_spec:
  assumes run: "MergeSnapshots H readGit lib decode identity cache w bs ls rs resolutions = Some (Inr ((m, hashes, conflicts), w', cache'))"
    and w: "writer_inv H readGit w" and cache: "vcache_ok cache" "\<forall>s \<in> {bs, ls, rs}. cache_covers H readGit identity cache s"
    and named: "cache_named H bs" "cache_named H ls" "cache_named H rs" and res: "resolutions_ok resolutions"
  shows "(hashes = None \<longleftrightarrow> conflicts \<noteq> []) \<and> writer_inv H readGit w'
    \<and> (\<forall>hs. hashes = Some hs \<longrightarrow> sorted hs \<and> distinct hs \<and> (\<forall>h \<in> set hs. \<not> isl (writer_Get H readGit w' h))
        \<and> (\<forall>name t. map_of (mf_tables m) name = Some t \<longrightarrow> table_source H readGit lib decode {bs, ls, rs} (writer_Get H readGit w') hs name t)
        \<and> (\<forall>name. selected H readGit resolutions bs ls rs name (map_of (mf_tables m) name)))"
proof -
  let ?ms0 = "\<lparr>ms_tables = [], ms_reachable = [], ms_conflicts = [], ms_writer = w, ms_cache = cache\<rparr>"
  let ?sel = "selected H readGit resolutions bs ls rs" and ?J = "merge_inv H readGit lib decode identity {bs, ls, rs}"
  obtain d where d: "merge_default resolutions (mf_DefaultDatabase (sn_Manifest bs)) (mf_DefaultDatabase (sn_Manifest ls)) (mf_DefaultDatabase (sn_Manifest rs)) = Inr d"
    using run by (auto simp: MergeSnapshots_def ok_simps)
  show ?thesis
  proof (cases d)
    case (Inl c)
    then show ?thesis using run d w by (auto simp: MergeSnapshots_def)
  next
    case (Inr db)
    then obtain ms where ms: "merge_names (merge_name H readGit lib decode identity resolutions bs ls rs) (table_names [bs, ls, rs]) ?ms0 = Some (Inr ms)"
        "m = merged_manifest db (ms_tables ms)" "hashes = (if ms_conflicts ms \<noteq> [] then None else Some (sort (ms_reachable ms)))"
        "conflicts = ms_conflicts ms" "w' = ms_writer ms"
      using run d by (auto simp: MergeSnapshots_def ok_simps ok_option_simps)
    have "?J ?ms0" using w cache by (simp add: merge_inv_def)
    moreover have "distinct (table_names [bs, ls, rs])" by (simp add: table_names_def)
    ultimately have r: "?J ms" "\<And>k. k \<notin> set (table_names [bs, ls, rs]) \<Longrightarrow> map_of (ms_tables ms) k = None"
        "\<And>n. ms_conflicts ms = [] \<Longrightarrow> n \<in> set (table_names [bs, ls, rs]) \<Longrightarrow> ?sel n (map_of (ms_tables ms) n)"
      using merge_names_run[of "merge_name H readGit lib decode identity resolutions bs ls rs" ?J ?sel, OF merge_name_step[OF _ _ res named] ms(1)]
      by auto
    have "?sel n (map_of (ms_tables ms) n)" if "ms_conflicts ms = []" for n
    proof (cases "n \<in> set (table_names [bs, ls, rs])")
      case False
      then have "map_of (mf_tables (sn_Manifest s)) n = None" if "s \<in> {bs, ls, rs}" for s
        using that by (auto simp: table_names_def map_of_eq_None_iff)
      then show ?thesis using r(2)[OF False] by (simp add: selected_def version_def equalVersion_def chosen_def)
    qed (rule r(3)[OF that])
    moreover have "table_source H readGit lib decode {bs, ls, rs} (writer_Get H readGit w') (sort (ms_reachable ms)) n t"
      if "map_of (ms_tables ms) n = Some t" for n t
      by (rule table_source_grows[of H readGit lib decode "{bs, ls, rs}" "writer_Get H readGit (ms_writer ms)" "ms_reachable ms"])
        (use r(1) ms(5) that in \<open>auto simp: merge_inv_def\<close>)
    ultimately show ?thesis using r(1) ms(2-5) by (auto simp: merge_inv_def merged_manifest_def mf_tables_def)
  qed
qed

end

end
