(* ===== verification/Merge_Properties.thy ===== *)
theory Merge_Properties
  imports Merge_Correct Engine_Properties
begin

text \<open>
  Properties of merges and of the cache of validated tables, with a base without tables, a local and a
  remote snapshot that each added a row, for the witnesses.
\<close>

section \<open>Small snapshots\<close>

definition m_row :: "byte \<Rightarrow> entry" where
  "m_row i = \<lparr>ekey = [128, 0, 0, 0, 0, 0, 0, i], evalue = [2, 2, 2 * i]\<rparr>"

definition m_tree :: "byte \<Rightarrow> ptree" where
  "m_tree i = PLeaf [m_row i]"

definition m_schema :: bytes where "m_schema = [0x73]"

definition m_table :: "(bytes \<Rightarrow> bytes) \<Rightarrow> byte \<Rightarrow> Table" where
  "m_table H i = \<lparr>SchemaRoot = storage_Sum H m_schema, DataRoot = proot H (m_tree i), Indexes = []\<rparr>"

definition m_snapshot :: "(bytes \<Rightarrow> bytes) \<Rightarrow> byte option \<Rightarrow> Snapshot" where
  "m_snapshot H i =
     (let objects = (case i of None \<Rightarrow> [] | Some i \<Rightarrow> [(proot H (m_tree i), pdata H (m_tree i)), (storage_Sum H m_schema, m_schema)])
      in \<lparr>sn_repo = 0, sn_Commit = [], sn_generation = 0,
          sn_Manifest = \<lparr>mf_FormatVersion = 6, mf_DefaultDatabase = [0x64], mf_Tables = Some (case i of None \<Rightarrow> [] | Some i \<Rightarrow> [([0x74], m_table H i)]),
                         mf_Objects = map fst objects\<rparr>,
          sn_objectSet = map fst objects, sn_objectOIDs = [], sn_cache = objects, sn_pendingEdits = None\<rparr>)"

definition m_writer :: "(bytes \<Rightarrow> bytes) \<Rightarrow> Writer" where
  "m_writer H = \<lparr>w_repo = 0, w_base = Some (m_snapshot H None), w_expected = [], w_objects = [], w_objectOIDs = [],
                 w_retained = None, w_parents = [], w_committed = False, w_workingLockHeld = False\<rparr>"

definition m_git :: gitReader where "m_git = (\<lambda>_. Inl StoreNotFound)"

definition m_pk :: pkschema where "m_pk = \<lparr>schema_columns = w_columns, pk_ordinals = [0]\<rparr>"

definition m_decode :: schemaDecoder where "m_decode = (\<lambda>_. Inr (m_pk, []))"

definition m_identity :: "nat \<Rightarrow> bytes" where "m_identity = (\<lambda>_. [])"

lemma m_valid: "\<forall>e \<in> set [m_row 2] \<union> set [m_row 3]. validateEntry w_lib m_pk e = Inr ()"
proof -
  have "validateEntry w_lib m_pk (m_row 2) = Inr ()" "validateEntry w_lib m_pk (m_row 3) = Inr ()" by code_simp+
  then show ?thesis by simp
qed

lemma m_version: "tv_present (version (m_snapshot H (Some i)) [0x74])" "tv_table (version (m_snapshot H (Some i)) [0x74]) = m_table H i"
    "tv_snapshot (version (m_snapshot H (Some i)) [0x74]) = Some (m_snapshot H (Some i))"
    "\<not> tv_present (version (m_snapshot H None) [0x74])"
  by (simp_all add: version_def m_snapshot_def mf_tables_def)

lemma m_named: "cache_named H (m_snapshot H i)"
  by (cases i) (auto simp: cache_named_def m_snapshot_def Let_def proot_def split: if_splits)

lemma m_repr:
  assumes "digest32 H"
  shows "version_repr H m_git (version (m_snapshot H (Some i)) [0x74]) [m_row i]"
proof -
  have "snapshot_read H m_git (m_snapshot H (Some i)) (proot H (m_tree i)) = Inr (pdata H (m_tree i))"
    using digest32.hash_Valid_Sum[OF assms] by (simp add: snapshot_read_def snapshot_Get_def m_snapshot_def Let_def proot_def)
  then have "pstored (version_get H m_git (version (m_snapshot H (Some i)) [0x74])) H (m_tree i)"
    by (simp add: pstored_def m_tree_def pobjects_PLeaf version_get_def m_version proot_def)
  moreover have "pvalid (m_tree i)" by (simp add: m_tree_def pvalid_def keys_sorted_def m_row_def entry_ok_def)
  ultimately show ?thesis
    unfolding version_repr_def using m_version(1-3)[of H i] by (auto simp: m_table_def m_tree_def intro!: exI[of _ "PLeaf [m_row i]"])
qed

lemma m_repr_None: "version_repr H m_git (version (m_snapshot H None) [0x74]) []"
  by (simp add: version_repr_def m_version)

lemma m_writer_inv: "writer_inv H m_git (m_writer H)"
  by (auto simp: writer_inv_def m_writer_def objects_named_def snapshot_sound_def cache_named_def m_snapshot_def)

lemma m_lookup: "elookup k [m_row i] = (if k = ekey (m_row i) then Some (evalue (m_row i)) else None)"
  by (auto simp: elookup_Cons elookup_def)

lemma m_keys: "ekey (m_row 1) \<noteq> ekey (m_row 2)" "ekey (m_row 1) \<noteq> ekey (m_row 3)" "ekey (m_row 2) \<noteq> ekey (m_row 3)"
  by (simp_all add: m_row_def)

section \<open>Merges\<close>

text \<open>
  C37. Merging the rows of a table: the merge reads the three stored trees with one cursor each, and when
  no conflict is left unresolved it runs to its end and the sorted builder has built, in the writer, the
  canonical tree of the rows that the three-way rule gives: for every key the value that changed, the
  common value, or what the resolution of the conflict takes.
\<close>

theorem mergeRows_three_way:
  assumes "digest32 H" "writer_inv H readGit w"
    and "version_repr H readGit b eb" "version_repr H readGit l el" "version_repr H readGit r er" "resolutions_ok resolutions"
    and "\<forall>e \<in> set eb \<union> set el \<union> set er. validateEntry lib schema e = Inr ()"
    and "\<And>k. \<not> unresolved resolutions table k (elookup k eb) (elookup k el) (elookup k er)"
    and "length eb + length el + length er < 2 ^ 64"
  shows "\<exists>bld b1 w1 w' es. NewSortedBuilder DefaultOptions = Inr bld
    \<and> mergeRows H readGit resolutions table b l r (merge_emit lib schema (writer_Put H)) (bld, w) = Some (Inr ([], (b1, w1)))
    \<and> sb_Finish (writer_Put H) DefaultOptions b1 w1 = Some (Inr (\<lparr>troot = proot H (canon DefaultOptions es), toptions = DefaultOptions\<rparr>, w'))
    \<and> store_extends (writer_Get H readGit) H (writer_inv H readGit) w w' (pobjects H (canon DefaultOptions es)) \<and> keys_sorted es
    \<and> (\<forall>k. elookup k es = three_way resolutions table k (elookup k eb) (elookup k el) (elookup k er))"
  by (rule merge_table_canonical[OF digest32.writer_store[OF assms(1)] assms(2-9)])

theorem mergeRows_three_way_witness:
  "\<exists>bld b1 w1 w' es. NewSortedBuilder DefaultOptions = Inr bld
    \<and> mergeRows pad32 m_git [] [0x74] (version (m_snapshot pad32 None) [0x74]) (version (m_snapshot pad32 (Some 2)) [0x74])
        (version (m_snapshot pad32 (Some 3)) [0x74]) (merge_emit w_lib m_pk (writer_Put pad32)) (bld, m_writer pad32) = Some (Inr ([], (b1, w1)))
    \<and> sb_Finish (writer_Put pad32) DefaultOptions b1 w1 = Some (Inr (\<lparr>troot = proot pad32 (canon DefaultOptions es), toptions = DefaultOptions\<rparr>, w'))
    \<and> elookup (ekey (m_row 2)) es = Some [2, 2, 4] \<and> elookup (ekey (m_row 3)) es = Some [2, 2, 6]"
proof -
  have "resolutions_ok []" by (simp add: resolutions_ok_def)
  moreover have "\<not> unresolved [] [0x74] k (elookup k []) (elookup k [m_row 2]) (elookup k [m_row 3])" for k
    using m_keys by (simp add: unresolved_def m_lookup elookup_def[of k "[]"])
  ultimately obtain bld b1 w1 w' es where r: "NewSortedBuilder DefaultOptions = Inr bld"
      "mergeRows pad32 m_git [] [0x74] (version (m_snapshot pad32 None) [0x74]) (version (m_snapshot pad32 (Some 2)) [0x74])
        (version (m_snapshot pad32 (Some 3)) [0x74]) (merge_emit w_lib m_pk (writer_Put pad32)) (bld, m_writer pad32) = Some (Inr ([], (b1, w1)))"
      "sb_Finish (writer_Put pad32) DefaultOptions b1 w1 = Some (Inr (\<lparr>troot = proot pad32 (canon DefaultOptions es), toptions = DefaultOptions\<rparr>, w'))"
      "\<forall>k. elookup k es = three_way [] [0x74] k (elookup k []) (elookup k [m_row 2]) (elookup k [m_row 3])"
    using mergeRows_three_way[OF pad.digest32_axioms m_writer_inv m_repr_None m_repr[OF pad.digest32_axioms] m_repr[OF pad.digest32_axioms],
        of "[]" 2 3 w_lib m_pk "[0x74]"] m_valid by auto
  moreover have "elookup (ekey (m_row 2)) es = Some [2, 2, 4]" "elookup (ekey (m_row 3)) es = Some [2, 2, 6]"
    using r(4) m_keys(3) m_keys(3)[symmetric] by (simp_all add: three_way_def m_lookup elookup_def[of _ "[]"]) (simp_all add: m_row_def)
  ultimately show ?thesis by blast
qed

text \<open>
  C36. \<open>MergeSnapshots\<close> returns an inventory exactly when it reports no conflict. Then every table of the
  result is the version that changed, the common version, the version a resolution selects, or, when both
  sides changed it under one schema, a table with that schema whose data tree is the canonical tree of the
  merged rows and whose index roots are those of the index trees of these rows. The inventory is sorted, lists
  of every table of the result its schema and every node of its data tree and of each of its index trees, and
  can be read in full from the writer, so that publishing it leaves no object behind. What the cache of
  validated tables holds for the three snapshots has to list its tables in the same way.
\<close>

theorem MergeSnapshots_result:
  assumes "digest32 H"
    and "MergeSnapshots H readGit lib decode identity cache w bs ls rs resolutions = Some (Inr ((m, hashes, conflicts), w', cache'))"
    and "writer_inv H readGit w" "vcache_ok cache" "\<forall>s \<in> {bs, ls, rs}. cache_covers H readGit identity cache s"
    and "cache_named H bs" "cache_named H ls" "cache_named H rs" "resolutions_ok resolutions"
  shows "(hashes = None \<longleftrightarrow> conflicts \<noteq> []) \<and> writer_inv H readGit w'
    \<and> (\<forall>hs. hashes = Some hs \<longrightarrow> sorted hs \<and> distinct hs \<and> (\<forall>h \<in> set hs. \<not> isl (writer_Get H readGit w' h))
        \<and> (\<forall>name t. map_of (mf_tables m) name = Some t \<longrightarrow> table_source H readGit lib decode {bs, ls, rs} (writer_Get H readGit w') hs name t)
        \<and> (\<forall>name. selected H readGit resolutions bs ls rs name (map_of (mf_tables m) name)))"
  by (rule digest32.MergeSnapshots_spec[OF assms])

theorem MergeSnapshots_result_witness:
  "\<exists>m hs w' cache' t es. MergeSnapshots pad32 m_git w_lib m_decode m_identity newValidationCache (m_writer pad32)
      (m_snapshot pad32 (Some 1)) (m_snapshot pad32 (Some 2)) (m_snapshot pad32 (Some 3)) [] = Some (Inr ((m, Some hs, []), w', cache'))
    \<and> (\<forall>h \<in> set hs. \<not> isl (writer_Get pad32 m_git w' h)) \<and> map_of (mf_tables m) [0x74] = Some t
    \<and> table_source pad32 m_git w_lib m_decode {m_snapshot pad32 (Some 1), m_snapshot pad32 (Some 2), m_snapshot pad32 (Some 3)} (writer_Get pad32 m_git w') hs [0x74] t
    \<and> DataRoot t = proot pad32 (canon DefaultOptions es)
    \<and> map (\<lambda>i. elookup (ekey (m_row i)) es) [1, 2, 3] = [None, Some [2, 2, 4], Some [2, 2, 6]]"
proof -
  let ?s = "\<lambda>i. m_snapshot pad32 (Some i)"
  let ?run = "MergeSnapshots pad32 m_git w_lib m_decode m_identity newValidationCache (m_writer pad32) (?s 1) (?s 2) (?s 3) []"
  have "case ?run of Some (Inr ((m, Some hs, cs), w', c')) \<Rightarrow> cs = [] | _ \<Rightarrow> False" by code_simp
  then obtain m hs w' c' where run: "?run = Some (Inr ((m, Some hs, []), w', c'))"
    by (auto split: option.splits sum.splits prod.splits)
  have cache: "vcache_ok newValidationCache" "\<forall>s \<in> {?s 1, ?s 2, ?s 3}. cache_covers pad32 m_git m_identity newValidationCache s"
    by (simp_all add: vcache_ok_def cache_counts_def over_limit_def newValidationCache_def cache_covers_def cache_entry_def)
  have "resolutions_ok []" by (simp add: resolutions_ok_def)
  note res = MergeSnapshots_result[OF pad.digest32_axioms run m_writer_inv cache m_named m_named m_named this]
  have differ: "\<not> equalVersion (version (?s 2) [0x74]) (version (?s 3) [0x74])" "\<not> equalVersion (version (?s 2) [0x74]) (version (?s 1) [0x74])"
      "\<not> equalVersion (version (?s 3) [0x74]) (version (?s 1) [0x74])" "\<not> schemas_differ (version (?s 1) [0x74]) (version (?s 2) [0x74]) (version (?s 3) [0x74])"
    by code_simp+
  have sel: "selected pad32 m_git [] (?s 1) (?s 2) (?s 3) [0x74] (map_of (mf_tables m) [0x74])" using res by blast
  obtain t where t: "map_of (mf_tables m) [0x74] = Some t"
      "rows_merged pad32 m_git [] [0x74] (version (?s 1) [0x74]) (version (?s 2) [0x74]) (version (?s 3) [0x74]) (DataRoot t)"
    using sel differ by (auto simp: selected_def Let_def)
  obtain es where es: "DataRoot t = proot pad32 (canon DefaultOptions es)"
      "\<forall>k. elookup k es = three_way [] [0x74] k (elookup k [m_row 1]) (elookup k [m_row 2]) (elookup k [m_row 3])"
    using t(2) m_repr[OF pad.digest32_axioms] unfolding rows_merged_def by force
  have "map (\<lambda>i. elookup (ekey (m_row i)) es) [1, 2, 3] = [None, Some [2, 2, 4], Some [2, 2, 6]]"
    using es(2) m_keys m_keys[symmetric] by (simp add: three_way_def m_lookup) (simp add: m_row_def)
  moreover have "\<forall>h \<in> set hs. \<not> isl (writer_Get pad32 m_git w' h)"
      "table_source pad32 m_git w_lib m_decode {?s 1, ?s 2, ?s 3} (writer_Get pad32 m_git w') hs [0x74] t" using res t(1) by simp_all
  ultimately show ?thesis
    using run t(1) es(1) by (intro exI[of _ m] exI[of _ hs] exI[of _ w'] exI[of _ c'] exI[of _ t] exI[of _ es]) simp
qed

section \<open>The cache of validated tables\<close>

text \<open>
  C38. Whatever tables are looked up and remembered, in whatever order, the cache of validated tables holds at most
  1024 tables and, unless it holds a single one, at most \<open>1 << 20\<close> object references; and a hit returns exactly what was last remembered
  for the key, and only to a snapshot that provides those objects.
\<close>

theorem validation_cache_bounded:
  "length (vc_tableOrder (cache_run ops)) \<le> maxValidatedTables
   \<and> (length (vc_tableOrder (cache_run ops)) > 1 \<longrightarrow> recorded_objects (vc_tableOrder (cache_run ops)) \<le> maxValidatedObjects)
   \<and> (\<forall>s key refs. fst (lookupTable (cache_run ops) s key) = Some refs \<longrightarrow> last_remembered ops key = Some refs \<and> Provides s refs)"
proof -
  have "vcache_ok (cache_run ops)" using cache_run_spec by blast
  then show ?thesis using cache_run_lookup by (auto simp: vcache_ok_def cache_counts_def over_limit_def maxValidatedTables_def)
qed

theorem validation_cache_bounded_witness:
  "vc_tableOrder (cache_run [Remember [1] [], Remember [2] [], Lookup (m_snapshot pad32 None) [1]]) =
     [\<lparr>ve_key = [1], ve_objects = []\<rparr>, \<lparr>ve_key = [2], ve_objects = []\<rparr>]
   \<and> recorded_objects (vc_tableOrder (cache_run [Remember [1] [], Remember [2] [], Lookup (m_snapshot pad32 None) [1]])) \<le> maxValidatedObjects
   \<and> last_remembered [Remember [1] [], Remember [2] [], Lookup (m_snapshot pad32 None) [1]] [1] = Some []"
proof -
  let ?ops = "[Remember [1] [], Remember [2] [], Lookup (m_snapshot pad32 None) [1]]"
  have run: "vc_tableOrder (cache_run ?ops) = [\<lparr>ve_key = [1], ve_objects = []\<rparr>, \<lparr>ve_key = [2], ve_objects = []\<rparr>]" by code_simp
  have "fst (lookupTable (cache_run ?ops) (m_snapshot pad32 None) [1]) = Some []" by code_simp
  then show ?thesis using validation_cache_bounded[of ?ops] run by simp
qed

end
