(* ===== verification/Engine_Checkpoint.thy ===== *)
theory Engine_Checkpoint
  imports Snapshot_Merge Table_Index Publication
begin

text \<open>
  The checkpoint of a working state with pending row edits (\<open>checkpointTypedEdits\<close> in \<open>engine/engine.go\<close>): the
  pending edits of every table are applied to its data tree, its index trees are brought up to date, and
  the new manifest and inventory go to \<^const>\<open>CheckpointPrepared\<close>.

  Reading the base snapshot (\<open>SnapshotCommit\<close>) and decoding a schema are parameters, as is publication. The
  state of the loop over the tables is a \<^typ>\<open>mergeState\<close> that reports no conflicts. Errors are returned
  without the state of the writer, which the caller drops.
\<close>

section \<open>Definitions\<close>

subsection \<open>Index trees\<close>

record indexDelta =
  id_get :: "hash \<Rightarrow> error + bytes"
  id_base :: Table
  id_data :: hash
  id_edits :: PendingRows

definition delta_usable :: "indexDelta option \<Rightarrow> Table \<Rightarrow> indexDisk list \<Rightarrow> bool" where
  "delta_usable delta table indexes =
     (case delta of
        None \<Rightarrow> False
      | Some d \<Rightarrow>
          SchemaRoot (id_base d) = SchemaRoot table \<and> DataRoot (id_base d) = DataRoot table
          \<and> list_all (\<lambda>idx. hash_Valid (index_or_empty (Indexes (id_base d)) (idx_Name idx))) indexes)"

text \<open>\<open>edits[:0]\<close> reuses the array of the sorted edits: what is written lies behind what is read.\<close>

fun order_loop :: "edit list \<Rightarrow> edit list \<Rightarrow> error + edit list" where
  "order_loop out [] = Inr out"
| "order_loop out (ed # eds) =
     (if out \<noteq> [] \<and> edkey (last out) = edkey ed then
        if \<not> eddelete (last out) \<and> \<not> eddelete ed then Inl DuplicateIndexKey
        else order_loop (butlast out @ [ed]) eds
      else order_loop (out @ [ed]) eds)"

definition orderIndexEdits :: "edit list \<Rightarrow> error + edit list" where
  "orderIndexEdits eds = order_loop [] (sort_key edkey eds)"

fun keyed_rows :: "sqllib \<Rightarrow> pkschema \<Rightarrow> row_edit list \<Rightarrow> error + (bytes \<times> rowEdit) list" where
  "keyed_rows lib schema [] = Inr []"
| "keyed_rows lib schema (re # res) =
     (case (if re_delete re then Inr [] else decodeRow lib (schema_columns schema) (re_value re)) of
        Inl e \<Rightarrow> Inl e
      | Inr row \<Rightarrow> map_sum id ((#) (re_key re, \<lparr>ed_row = row, ed_delete = re_delete re\<rparr>)) (keyed_rows lib schema res))"

fun apply_indexes ::
  "(hash \<Rightarrow> error + bytes) \<Rightarrow> ('s \<Rightarrow> bytes \<Rightarrow> error + hash \<times> 's) \<Rightarrow> Table \<Rightarrow> index_edits \<Rightarrow> indexDisk list \<Rightarrow> (bytes, hash) gomap \<Rightarrow> 's
    \<Rightarrow> (error + (bytes, hash) gomap \<times> 's) option" where
  "apply_indexes get put base derived [] roots s = Some (Inr (roots, s))"
| "apply_indexes get put base derived (idx # idxs) roots s =
     (case orderIndexEdits (edits_for derived (idx_Name idx)) of
        Inl e \<Rightarrow> Some (Inl e)
      | Inr eds \<Rightarrow>
          (case prolly_Open (index_or_empty (Indexes base) (idx_Name idx)) of
             Inl e \<Rightarrow> Some (Inl e)
           | Inr t \<Rightarrow>
               Option.bind (Apply (\<lambda>_. get) put s t eds) (\<lambda>r. case r of
                 Inl e \<Rightarrow> Some (Inl e)
               | Inr (t', s') \<Rightarrow> apply_indexes get put base derived idxs (AList.update (idx_Name idx) (troot t') roots) s')))"

definition applyIndexEdits ::
  "sqllib \<Rightarrow> ('s \<Rightarrow> hash \<Rightarrow> error + bytes) \<Rightarrow> ('s \<Rightarrow> bytes \<Rightarrow> error + hash \<times> 's) \<Rightarrow> pkschema \<Rightarrow> indexDisk list \<Rightarrow> hash \<Rightarrow> indexDelta \<Rightarrow> 's
    \<Rightarrow> (error + (bytes, hash) gomap option \<times> 's) option" where
  "applyIndexEdits lib get put schema indexes dataTree delta s =
     (case tree_Count (get s) dataTree of
        Inl e \<Rightarrow> Some (Inl e)
      | Inr n \<Rightarrow>
         if n = 0 then Some (Inr (None, s))
         else case keyed_rows lib schema (pending_all (id_edits delta)) of
           Inl e \<Rightarrow> Some (Inl e)
         | Inr rows \<Rightarrow>
             Option.bind (deriveIndexEdits lib (id_get delta) schema indexes (Some (id_data delta)) rows) (\<lambda>r. case r of
               Inl e \<Rightarrow> Some (Inl e)
             | Inr derived \<Rightarrow>
                 map_option (map_sum id (apfst Some)) (apply_indexes (id_get delta) put (id_base delta) derived indexes [] s)))"

definition checkpointIndexTrees ::
  "(bytes \<Rightarrow> bytes) \<Rightarrow> gitReader \<Rightarrow> sqllib \<Rightarrow> schemaDecoder \<Rightarrow> Table \<Rightarrow> (Writer \<Rightarrow> hash \<Rightarrow> error + bytes) \<Rightarrow> hash \<Rightarrow> indexDelta option \<Rightarrow> Writer
    \<Rightarrow> (error + ((bytes, hash) gomap option \<times> hash list) \<times> Writer) option" where
  "checkpointIndexTrees H readGit lib decode table dataGet dataTree delta w =
     (if \<not> hash_Valid (SchemaRoot table) then Some (Inr ((None, []), w))
      else case writer_Get H readGit w (SchemaRoot table) of
        Inl e \<Rightarrow> Some (Inl e)
      | Inr schemaData \<Rightarrow>
          (case decode schemaData of
             Inl e \<Rightarrow> Some (Inl e)
           | Inr (schema, indexes) \<Rightarrow>
               if indexes = [] then Some (Inr ((None, []), w))
               else Option.bind
                      (case delta of
                         Some d \<Rightarrow> if delta_usable delta table indexes
                           then applyIndexEdits lib dataGet (writer_Put H) schema indexes dataTree d w
                           else rebuildIndexesFromTree lib dataGet (writer_Put H) schema indexes dataTree w
                       | None \<Rightarrow> rebuildIndexesFromTree lib dataGet (writer_Put H) schema indexes dataTree w)
                      (\<lambda>r. case r of
                         Inl e \<Rightarrow> Some (Inl e)
                       | Inr (idxRoots, w1) \<Rightarrow>
                           map_option (map_sum id (\<lambda>hashes. ((idxRoots, hashes), w1)))
                             (index_hashes (writer_Get H readGit w1) (case idxRoots of None \<Rightarrow> [] | Some roots \<Rightarrow> roots)))))"

subsection \<open>One table\<close>

definition set_table :: "bytes \<Rightarrow> Table \<Rightarrow> hash list \<Rightarrow> Writer \<Rightarrow> mergeState \<Rightarrow> mergeState" where
  "set_table name table hashes w ms = put_table name table (add_hashes hashes (ms\<lparr>ms_writer := w\<rparr>))"

text \<open>A table without pending edits and with the schema of the base keeps its roots.\<close>

definition checkpoint_unchanged ::
  "(bytes \<Rightarrow> bytes) \<Rightarrow> gitReader \<Rightarrow> (nat \<Rightarrow> bytes) \<Rightarrow> Snapshot \<Rightarrow> bytes \<Rightarrow> Table \<Rightarrow> mergeState \<Rightarrow> (error + mergeState) option" where
  "checkpoint_unchanged H readGit identity bs name table ms =
     (let (cached, cache) = validatedTableObjects identity (ms_cache ms) bs name
      in Option.bind
           (case cached of
              Some objects \<Rightarrow> Some (Inr objects)
            | None \<Rightarrow> map_option (map_sum id ((#) (SchemaRoot table))) (Reachable (snapshot_read H readGit bs) (DataRoot table)))
           (\<lambda>r. case r of
              Inl e \<Rightarrow> Some (Inl e)
            | Inr objects \<Rightarrow> Some (Inr (put_table name table (add_hashes objects (ms\<lparr>ms_cache := cache\<rparr>))))))"

definition copy_schema :: "(bytes \<Rightarrow> bytes) \<Rightarrow> gitReader \<Rightarrow> Snapshot \<Rightarrow> Table \<Rightarrow> Writer \<Rightarrow> error + Writer" where
  "copy_schema H readGit snapshot table w =
     (case snapshot_read H readGit snapshot (SchemaRoot table) of
        Inl e \<Rightarrow> Inl e
      | Inr schemaData \<Rightarrow> map_sum id snd (writer_Put H w schemaData))"

text \<open>A table whose schema changed: its rows stay, its index trees are built from them.\<close>

definition checkpoint_schema ::
  "(bytes \<Rightarrow> bytes) \<Rightarrow> gitReader \<Rightarrow> sqllib \<Rightarrow> schemaDecoder \<Rightarrow> Snapshot \<Rightarrow> Snapshot \<Rightarrow> bytes \<Rightarrow> Table \<Rightarrow> mergeState
    \<Rightarrow> (error + mergeState) option" where
  "checkpoint_schema H readGit lib decode bs snapshot name table ms =
     (case (if hash_Valid (SchemaRoot table) then copy_schema H readGit snapshot table (ms_writer ms) else Inr (ms_writer ms)) of
        Inl e \<Rightarrow> Some (Inl e)
      | Inr w \<Rightarrow>
          (let schemaHashes = (if hash_Valid (SchemaRoot table) then [SchemaRoot table] else []);
               tbl = \<lparr>SchemaRoot = SchemaRoot table, DataRoot = DataRoot table, Indexes = []\<rparr>
           in if \<not> hash_Valid (DataRoot table) then Some (Inr (set_table name tbl schemaHashes w ms))
              else Option.bind (Reachable (snapshot_read H readGit bs) (DataRoot table)) (\<lambda>r. case r of
                Inl e \<Rightarrow> Some (Inl e)
              | Inr hashes \<Rightarrow>
                  Option.bind (checkpointIndexTrees H readGit lib decode table (\<lambda>_. snapshot_read H readGit bs) (DataRoot table) None w) (\<lambda>r. case r of
                    Inl e \<Rightarrow> Some (Inl e)
                  | Inr ((None, _), w') \<Rightarrow> Some (Inr (set_table name tbl (schemaHashes @ hashes) w' ms))
                  | Inr ((Some roots, idxHashes), w') \<Rightarrow>
                      Some (Inr (set_table name (tbl\<lparr>Indexes := roots\<rparr>) (schemaHashes @ hashes @ idxHashes) w' ms))))))"

definition row_edits :: "PendingRows \<Rightarrow> edit list" where
  "row_edits p = map (\<lambda>e. \<lparr>edkey = re_key e, edvalue = (if re_delete e then [] else re_value e), eddelete = re_delete e\<rparr>) (pending_all p)"

text \<open>The data tree of a table with pending edits: the edits applied to the old tree, or a new tree.\<close>

definition checkpoint_data ::
  "(bytes \<Rightarrow> bytes) \<Rightarrow> gitReader \<Rightarrow> Snapshot \<Rightarrow> Table \<Rightarrow> edit list \<Rightarrow> Writer \<Rightarrow> (error + tree \<times> Writer) option" where
  "checkpoint_data H readGit bs table edits w =
     (if hash_Valid (DataRoot table)
      then (case prolly_Open (DataRoot table) of
              Inl e \<Rightarrow> Some (Inl e)
            | Inr t \<Rightarrow> Apply (\<lambda>_. snapshot_read H readGit bs) (writer_Put H) w t edits)
      else Build (writer_Put H) w (puts edits) DefaultOptions)"

definition table_delta :: "(bytes \<Rightarrow> bytes) \<Rightarrow> gitReader \<Rightarrow> Snapshot \<Rightarrow> bytes \<Rightarrow> Table \<Rightarrow> PendingRows \<Rightarrow> indexDelta option" where
  "table_delta H readGit bs name table rowEdits =
     (if hash_Valid (DataRoot table)
      then map_option (\<lambda>baseTable. \<lparr>id_get = snapshot_read H readGit bs, id_base = baseTable, id_data = DataRoot table, id_edits = rowEdits\<rparr>)
             (map_of (mf_tables (sn_Manifest bs)) name)
      else None)"

definition schema_changed :: "Snapshot \<Rightarrow> bytes \<Rightarrow> Table \<Rightarrow> bool" where
  "schema_changed bs name table =
     (case map_of (mf_tables (sn_Manifest bs)) name of None \<Rightarrow> True | Some baseTable \<Rightarrow> SchemaRoot baseTable \<noteq> SchemaRoot table)"

definition checkpoint_pending ::
  "(bytes \<Rightarrow> bytes) \<Rightarrow> gitReader \<Rightarrow> sqllib \<Rightarrow> schemaDecoder \<Rightarrow> Snapshot \<Rightarrow> Snapshot \<Rightarrow> bytes \<Rightarrow> Table \<Rightarrow> PendingRows \<Rightarrow> mergeState
    \<Rightarrow> (error + mergeState) option" where
  "checkpoint_pending H readGit lib decode bs snapshot name table rowEdits ms =
     (case (if hash_Valid (SchemaRoot table) \<and> schema_changed bs name table
            then copy_schema H readGit snapshot table (ms_writer ms) else Inr (ms_writer ms)) of
        Inl e \<Rightarrow> Some (Inl e)
      | Inr w \<Rightarrow>
          (let schemaHashes = (if hash_Valid (SchemaRoot table) then [SchemaRoot table] else [])
           in Option.bind (checkpoint_data H readGit bs table (row_edits rowEdits) w) (\<lambda>r. case r of
                Inl e \<Rightarrow> Some (Inl e)
              | Inr (t, w1) \<Rightarrow>
                  Option.bind (Reachable (writer_Get H readGit w1) (troot t)) (\<lambda>r. case r of
                    Inl e \<Rightarrow> Some (Inl e)
                  | Inr hashes \<Rightarrow>
                      Option.bind (checkpointIndexTrees H readGit lib decode table (writer_Get H readGit) (troot t)
                                     (table_delta H readGit bs name table rowEdits) w1) (\<lambda>r. case r of
                        Inl e \<Rightarrow> Some (Inl e)
                      | Inr ((idxRoots, idxHashes), w2) \<Rightarrow>
                          Some (Inr (set_table name
                            \<lparr>SchemaRoot = SchemaRoot table, DataRoot = troot t, Indexes = (case idxRoots of None \<Rightarrow> [] | Some roots \<Rightarrow> roots)\<rparr>
                            (schemaHashes @ hashes @ (if idxRoots = None then [] else idxHashes)) w2 ms)))))))"

definition checkpoint_table ::
  "(bytes \<Rightarrow> bytes) \<Rightarrow> gitReader \<Rightarrow> sqllib \<Rightarrow> schemaDecoder \<Rightarrow> (nat \<Rightarrow> bytes) \<Rightarrow> (bytes, PendingRows) gomap \<Rightarrow> Snapshot \<Rightarrow> Snapshot
    \<Rightarrow> bytes \<times> Table \<Rightarrow> mergeState \<Rightarrow> (error + mergeState) option" where
  "checkpoint_table H readGit lib decode identity pending bs snapshot nt ms =
     (case map_of pending (fst nt) of
        Some rowEdits \<Rightarrow> checkpoint_pending H readGit lib decode bs snapshot (fst nt) (snd nt) rowEdits ms
      | None \<Rightarrow>
          if schema_changed bs (fst nt) (snd nt) then checkpoint_schema H readGit lib decode bs snapshot (fst nt) (snd nt) ms
          else checkpoint_unchanged H readGit identity bs (fst nt) (snd nt) ms)"

fun checkpoint_tables :: "('a \<Rightarrow> 's \<Rightarrow> (error + 's) option) \<Rightarrow> 'a list \<Rightarrow> 's \<Rightarrow> (error + 's) option" where
  "checkpoint_tables step [] ms = Some (Inr ms)"
| "checkpoint_tables step (nt # nts) ms =
     Option.bind (step nt ms) (\<lambda>r. case r of Inl e \<Rightarrow> Some (Inl e) | Inr ms' \<Rightarrow> checkpoint_tables step nts ms')"

subsection \<open>The checkpoint\<close>

text \<open>The writer and the manifest of a checkpoint, ready for publication.\<close>

definition prepare_checkpoint ::
  "(bytes \<Rightarrow> bytes) \<Rightarrow> gitReader \<Rightarrow> sqllib \<Rightarrow> schemaDecoder \<Rightarrow> (nat \<Rightarrow> bytes) \<Rightarrow> (bytes \<Rightarrow> error + Snapshot) \<Rightarrow> nat \<Rightarrow> validationCache
    \<Rightarrow> Snapshot \<Rightarrow> (bytes, PendingRows) gomap \<Rightarrow> (error + (Writer \<times> Manifest) \<times> validationCache) option" where
  "prepare_checkpoint H readGit lib decode identity snapshotCommit repo cache snapshot pending =
     (case snapshotCommit (sn_Commit snapshot) of
        Inl e \<Rightarrow> Some (Inl e)
      | Inr bs \<Rightarrow>
          (case BeginSnapshot repo (Some bs) of
             Inl e \<Rightarrow> Some (Inl e)
           | Inr w \<Rightarrow>
               Option.bind (checkpoint_tables (checkpoint_table H readGit lib decode identity pending bs snapshot)
                              (mf_tables (sn_Manifest snapshot))
                              \<lparr>ms_tables = [], ms_reachable = [], ms_conflicts = [], ms_writer = w, ms_cache = cache\<rparr>) (\<lambda>r. case r of
                 Inl e \<Rightarrow> Some (Inl e)
               | Inr ms \<Rightarrow>
                   (case RetainOnly (ms_writer ms) (ms_reachable ms) of
                      (Inl e, _) \<Rightarrow> Some (Inl e)
                    | (Inr _, w') \<Rightarrow>
                        Some (Inr ((w', merged_manifest (mf_DefaultDatabase (sn_Manifest snapshot)) (ms_tables ms)), ms_cache ms))))))"

definition checkpointTypedEdits ::
  "(Writer \<Rightarrow> Manifest \<Rightarrow> CommitResult \<times> error option) \<Rightarrow> repoEnv \<Rightarrow> disk \<Rightarrow> gitReader \<Rightarrow> sqllib \<Rightarrow> schemaDecoder \<Rightarrow> (nat \<Rightarrow> bytes) \<Rightarrow> nat
    \<Rightarrow> validationCache \<Rightarrow> Snapshot \<Rightarrow> (bytes, PendingRows) gomap \<Rightarrow> wstate \<Rightarrow> ((CommitResult \<times> error option) \<times> wstate) option" where
  "checkpointTypedEdits publish env dk readGit lib decode identity repo cache snapshot pending st =
     map_option (\<lambda>r. case r of
         Inl e \<Rightarrow> ((rejected, Some e), st)
       | Inr ((w, manifest), _) \<Rightarrow> CheckpointPrepared publish env repo dk w manifest st)
       (prepare_checkpoint (en_H env) readGit lib decode identity (en_snapshotCommit env) repo cache snapshot pending)"

end
