(* ===== verification/Apply_Closure.thy ===== *)
theory Apply_Closure
  imports Merge_Correct Engine_Checkpoint
begin

text \<open>
  \<open>Apply\<close> and the updates of index trees, too, change the store by \<open>Put\<close> alone, whatever tree and edits
  they are given.
\<close>

context put_closed
begin

lemma chunker_flush_closed: "chunker_flush put c s = Inr (c', s') \<Longrightarrow> Q s \<Longrightarrow> Q s'"
  using kept_Q[OF writeNode_closed] by (auto simp: chunker_flush_def Let_def split: if_splits sum.splits)

lemma take_edit_closed: "take_edit put o1 ed c s = Inr (c', s') \<Longrightarrow> Q s \<Longrightarrow> Q s'"
  using chunker_flush_closed by (auto simp: take_edit_def chunker_add_def Let_def split: if_splits)

lemma chunker_add_closed: "chunker_add put o1 e c s = Inr (c', s') \<Longrightarrow> Q s \<Longrightarrow> Q s'"
  using chunker_flush_closed by (auto simp: chunker_add_def Let_def split: if_splits)

lemma edits_before_closed: "edits_before put o1 key eds c s = Inr (eds', c', s') \<Longrightarrow> Q s \<Longrightarrow> Q s'"
  by (induction eds arbitrary: c s) (auto split: if_splits sum.splits dest: take_edit_closed)

lemma apply_entries_closed: "apply_entries put o1 es eds c s = Inr (eds', c', s') \<Longrightarrow> Q s \<Longrightarrow> Q s'"
proof (induction es arbitrary: eds c s)
  case (Cons e es)
  obtain eds1 c1 s1 where b: "edits_before put o1 (ekey e) eds c s = Inr (eds1, c1, s1)" using Cons.prems(1) by (auto split: sum.splits)
  have s1: "Q s1" by (rule edits_before_closed[OF b Cons.prems(2)])
  show ?case
    using Cons.prems(1) b s1 Cons.IH take_edit_closed[OF _ s1] chunker_add_closed[OF _ s1]
    by (auto split: if_splits sum.splits prod.splits)
qed simp

lemma apply_leaves_closed: "apply_leaves tget put o1 leaves eds c s = Inr (x, s') \<Longrightarrow> Q s \<Longrightarrow> Q s'"
  by (induction leaves arbitrary: eds c s) (auto split: if_splits sum.splits dest: apply_entries_closed)

lemma apply_rest_closed: "apply_rest put o1 eds c s = Inr (c', s') \<Longrightarrow> Q s \<Longrightarrow> Q s'"
  by (induction eds arbitrary: c s) (auto split: sum.splits dest: take_edit_closed)

lemma apply_links_closed:
  assumes "apply_links tget put o1 leaves eds c s = Inr (links, s')" "Q s"
  shows "Q s'"
proof -
  obtain x s1 where x: "apply_leaves tget put o1 leaves eds c s = Inr (x, s1)" using assms(1) by (auto simp: apply_links_def split: sum.splits prod.splits)
  have s1: "Q s1" by (rule apply_leaves_closed[OF x assms(2)])
  have "Q s'" if fin: "apply_finish put o1 eds1 c1 s1 = Inr (links, s')" for eds1 c1
  proof -
    obtain c2 s2 c3 s3 where r: "apply_rest put o1 eds1 c1 s1 = Inr (c2, s2)" "chunker_flush put c2 s2 = Inr (c3, s3)"
      using fin by (auto simp: apply_finish_def split: sum.splits)
    have "Q s3" by (rule chunker_flush_closed[OF r(2) apply_rest_closed[OF r(1) s1]])
    then show ?thesis using fin r kept_Q[OF writeNode_closed] by (auto simp: apply_finish_def split: if_splits sum.splits)
  qed
  then show ?thesis using assms(1) x s1 by (auto simp: apply_links_def split: sum.splits)
qed

lemma Apply_closed:
  assumes "Apply tget put s t eds = Some (Inr (t', s'))" "Q s"
  shows "Q s'"
proof (cases "eds = []")
  case False
  then obtain leaves links s1 where r:
      "apply_links tget put (toptions t) (drop (apply_start leaves (edkey (hd eds))) leaves) eds
         \<lparr>centries = [], clinks = take (apply_start leaves (edkey (hd eds))) leaves\<rparr> s = Inr (links, s1)"
      "buildFromLeafLinks put s1 links (toptions t) = Some (Inr (t', s'))"
    using assms(1) by (auto simp: Apply_def Let_def ok_option_simps split: option.splits if_splits sum.splits)
  have "Q s1" by (rule apply_links_closed[OF r(1) assms(2)])
  moreover have "kept s1 (Inr (t', s'))"
  proof (cases "length links = 1")
    case False
    then obtain q where "build_levels put (toptions t) 1 links s1 = Some q" "with_options (toptions t) q = Inr (t', s')"
      using r(2) by (auto simp: buildFromLeafLinks_def)
    then show ?thesis using with_options_kept[OF build_levels_closed, of "toptions t" 1 links s1 q "toptions t"] by simp
  qed (use r(2) in \<open>simp add: buildFromLeafLinks_def\<close>)
  ultimately show ?thesis by (rule kept_Q[rotated])
qed (use assms in \<open>simp add: Apply_def\<close>)

lemma apply_indexes_closed:
  "apply_indexes get put base derived idxs roots s = Some (Inr (roots', s')) \<Longrightarrow> Q s \<Longrightarrow> Q s'"
proof (induction idxs arbitrary: roots s)
  case (Cons idx idxs)
  then show ?case by (auto simp: ok_simps ok_option_simps dest: Apply_closed)
qed simp

lemma applyIndexEdits_closed:
  "applyIndexEdits lib get put schema indexes dataTree delta s = Some (Inr (roots, s')) \<Longrightarrow> Q s \<Longrightarrow> Q s'"
  by (auto simp: applyIndexEdits_def ok_simps ok_option_simps apfst_def split: if_splits dest: apply_indexes_closed)

end

end
