(* ===== verification/Checkpoint_Inventory.thy ===== *)
theory Checkpoint_Inventory
  imports Apply_Closure
begin

text \<open>
  The inventory of a checkpoint: which objects of every table \<open>prepare_checkpoint\<close> retains.
\<close>

section \<open>What is listed of a table\<close>

definition untouched :: "(bytes, PendingRows) gomap \<Rightarrow> Snapshot \<Rightarrow> bytes \<Rightarrow> Table \<Rightarrow> bool" where
  "untouched pending bs name t \<longleftrightarrow> map_of pending name = None \<and> \<not> schema_changed bs name t"

text \<open>What the cache of validated tables holds for a table of the base.\<close>

definition cached_objects :: "(nat \<Rightarrow> bytes) \<Rightarrow> validationCache \<Rightarrow> Snapshot \<Rightarrow> bytes \<Rightarrow> hash list option" where
  "cached_objects identity c bs name = fst (validatedTableObjects identity c bs name)"

definition table_trees :: "Table \<Rightarrow> hash set" where
  "table_trees t = (if hash_Valid (DataRoot t) then insert (DataRoot t) (snd ` set (Indexes t)) else {})"

text \<open>
  A table that is written is listed in full. A table that is not is listed as the cache holds it, or else
  by its schema and the nodes of its data tree; its index trees are left out.
\<close>

definition table_inventory ::
  "(nat \<Rightarrow> bytes) \<Rightarrow> validationCache \<Rightarrow> (bytes, PendingRows) gomap \<Rightarrow> Snapshot \<Rightarrow> (hash \<Rightarrow> error + bytes) \<Rightarrow> bytes \<times> Table \<Rightarrow> hash set" where
  "table_inventory identity c pending bs get nt =
     (let t = snd nt
      in if untouched pending bs (fst nt) t
         then case cached_objects identity c bs (fst nt) of
                Some objects \<Rightarrow> set objects
              | None \<Rightarrow> insert (SchemaRoot t) (nodes_of get (DataRoot t))
         else {h. h = SchemaRoot t \<and> hash_Valid h} \<union> (\<Union>rt \<in> table_trees t. nodes_of get rt))"

text \<open>The trees among them, which have to be readable.\<close>

definition inventory_trees ::
  "(nat \<Rightarrow> bytes) \<Rightarrow> validationCache \<Rightarrow> (bytes, PendingRows) gomap \<Rightarrow> Snapshot \<Rightarrow> bytes \<times> Table \<Rightarrow> hash set" where
  "inventory_trees identity c pending bs nt =
     (if untouched pending bs (fst nt) (snd nt)
      then if cached_objects identity c bs (fst nt) = None then {DataRoot (snd nt)} else {}
      else table_trees (snd nt))"

definition trees_read :: "(hash \<Rightarrow> error + bytes) \<Rightarrow> hash set \<Rightarrow> bool" where
  "trees_read get T \<longleftrightarrow> (\<forall>rt \<in> T. closed_nodes get (nodes_of get rt))"

lemma trees_read_grows:
  assumes "trees_read get T" "\<And>h d. get h = Inr d \<Longrightarrow> get' h = Inr d"
  shows "trees_read get' T" "rt \<in> T \<Longrightarrow> nodes_of get' rt = nodes_of get rt"
  using assms(1) nodes_of_grows[of get _ get', OF _ assms(2)] by (auto simp: trees_read_def)

lemma table_inventory_grows:
  assumes "trees_read get (inventory_trees identity c pending bs nt)" "\<And>h d. get h = Inr d \<Longrightarrow> get' h = Inr d"
  shows "table_inventory identity c pending bs get' nt = table_inventory identity c pending bs get nt"
proof -
  have eq: "nodes_of get' rt = nodes_of get rt" if "rt \<in> inventory_trees identity c pending bs nt" for rt
    by (rule trees_read_grows(2)[OF assms(1) _ that]) (rule assms(2))
  show ?thesis
  proof (cases "untouched pending bs (fst nt) (snd nt)")
    case True
    then show ?thesis using eq[of "DataRoot (snd nt)"] by (simp add: table_inventory_def inventory_trees_def Let_def split: option.split)
  next
    case False
    then have "(\<Union>rt \<in> table_trees (snd nt). nodes_of get' rt) = (\<Union>rt \<in> table_trees (snd nt). nodes_of get rt)"
      by (intro SUP_cong refl eq) (simp add: inventory_trees_def)
    then show ?thesis using False by (simp add: table_inventory_def Let_def)
  qed
qed

lemma index_hashes_nodes:
  assumes "index_hashes get m = Some (Inr hs)"
  shows "set hs = (\<Union>rt \<in> snd ` set m. nodes_of get rt) \<and> trees_read get (snd ` set m)"
  using assms
proof (induction m arbitrary: hs)
  case (Cons x m)
  obtain n h where x: "x = (n, h)" by fastforce
  obtain hs1 hs2 where hs: "Reachable get h = Some (Inr hs1)" "index_hashes get m = Some (Inr hs2)" "hs = hs1 @ hs2"
    using Cons.prems x by (auto simp: ok_simps ok_option_simps)
  show ?case using Reachable_nodes[OF hs(1)] Cons.IH[OF hs(2)] x hs(3) by (simp add: trees_read_def)
qed (simp add: trees_read_def)

section \<open>A checkpoint in progress\<close>

text \<open>A table keeps its name and its schema, and one that is not touched stays as it is.\<close>

definition carried :: "(bytes, PendingRows) gomap \<Rightarrow> Snapshot \<Rightarrow> bytes \<times> Table \<Rightarrow> bytes \<times> Table \<Rightarrow> bool" where
  "carried pending bs nt nt' \<longleftrightarrow> fst nt' = fst nt \<and> SchemaRoot (snd nt') = SchemaRoot (snd nt)
     \<and> (untouched pending bs (fst nt) (snd nt) \<longrightarrow> snd nt' = snd nt)"

definition checkpoint_inv ::
  "(bytes \<Rightarrow> bytes) \<Rightarrow> gitReader \<Rightarrow> (nat \<Rightarrow> bytes) \<Rightarrow> validationCache \<Rightarrow> (bytes, PendingRows) gomap \<Rightarrow> Snapshot \<Rightarrow> (bytes \<times> Table) list \<Rightarrow> mergeState \<Rightarrow> bool" where
  "checkpoint_inv H readGit identity c pending bs nts ms \<longleftrightarrow>
     (let get = writer_Get H readGit (ms_writer ms)
      in writer_inv H readGit (ms_writer ms)
       \<and> (\<forall>h d. snapshot_read H readGit bs h = Inr d \<longrightarrow> get h = Inr d)
       \<and> vcache_ok (ms_cache ms) \<and> (\<forall>k. cache_entry (ms_cache ms) k = cache_entry c k)
       \<and> set (ms_reachable ms) = (\<Union>nt \<in> set (ms_tables ms). table_inventory identity c pending bs get nt)
       \<and> (\<forall>nt \<in> set (ms_tables ms). trees_read get (inventory_trees identity c pending bs nt))
       \<and> list_all2 (carried pending bs) nts (ms_tables ms))"

lemma update_new: "k \<notin> fst ` set m \<Longrightarrow> AList.update k v m = m @ [(k, v)]"
  by (induction m) auto

lemma carried_names: "list_all2 (carried pending bs) nts nts' \<Longrightarrow> map fst nts' = map fst nts"
  by (induction rule: list_all2_induct) (auto simp: carried_def)

lemma checkpoint_inv_set:
  assumes inv: "checkpoint_inv H readGit identity c pending bs nts ms" and new: "fst nt \<notin> fst ` set nts"
    and w: "writer_inv H readGit w" "reads_stay (writer_Get H readGit) (ms_writer ms) w"
    and cache: "vcache_ok cache" "\<And>k. cache_entry cache k = cache_entry (ms_cache ms) k"
    and hs: "set hs = table_inventory identity c pending bs (writer_Get H readGit w) (fst nt, t)"
      "trees_read (writer_Get H readGit w) (inventory_trees identity c pending bs (fst nt, t))"
    and t: "SchemaRoot t = SchemaRoot (snd nt)" "untouched pending bs (fst nt) (snd nt) \<Longrightarrow> t = snd nt"
  shows "checkpoint_inv H readGit identity c pending bs (nts @ [nt]) (put_table (fst nt) t (add_hashes hs (ms\<lparr>ms_writer := w, ms_cache := cache\<rparr>)))"
proof -
  let ?get = "writer_Get H readGit (ms_writer ms)" and ?get' = "writer_Get H readGit w"
  have grow: "\<And>h d. ?get h = Inr d \<Longrightarrow> ?get' h = Inr d" using w(2) by (simp add: reads_stay_def)
  have old: "list_all2 (carried pending bs) nts (ms_tables ms)" using inv by (simp add: checkpoint_inv_def Let_def)
  have "fst nt \<notin> fst ` set (ms_tables ms)" using carried_names[OF old] new by (metis list.set_map)
  note upd = update_new[OF this]
  have "list_all2 (carried pending bs) (nts @ [nt]) (ms_tables ms @ [(fst nt, t)])"
    using t by (intro list_all2_appendI[OF old]) (simp add: carried_def)
  moreover have trees: "trees_read ?get (inventory_trees identity c pending bs x)" if "x \<in> set (ms_tables ms)" for x
    using inv that by (simp add: checkpoint_inv_def Let_def)
  moreover have "set (ms_reachable ms) = (\<Union>x \<in> set (ms_tables ms). table_inventory identity c pending bs ?get' x)"
    using inv table_inventory_grows[OF trees grow] by (simp add: checkpoint_inv_def Let_def)
  moreover have "trees_read ?get' (inventory_trees identity c pending bs x)" if "x \<in> set (ms_tables ms)" for x
    by (rule trees_read_grows(1)[OF trees[OF that]]) (rule grow)
  moreover have "\<forall>h d. snapshot_read H readGit bs h = Inr d \<longrightarrow> ?get' h = Inr d" using inv grow by (simp add: checkpoint_inv_def Let_def)
  moreover have "\<forall>k. cache_entry cache k = cache_entry c k" using inv cache(2) by (simp add: checkpoint_inv_def Let_def)
  ultimately show ?thesis
    using w(1) cache(1) hs by (auto simp: checkpoint_inv_def Let_def put_table_def add_hashes_def insert_all upd)
qed

section \<open>One table\<close>

lemma cached_objects_cong:
  assumes "\<And>k. cache_entry c' k = cache_entry c k"
  shows "cached_objects identity c' bs name = cached_objects identity c bs name"
  using assms by (simp add: cached_objects_def validatedTableObjects_def lookupTable_def split: option.split)

lemma touched_listed:
  assumes "\<not> untouched pending bs n t" "Reachable get1 (DataRoot t) = Some (Inr hs)" "hash_Valid (DataRoot t)"
    and "\<And>h d. get1 h = Inr d \<Longrightarrow> get h = Inr d"
    and "set idx = (\<Union>rt \<in> snd ` set (Indexes t). nodes_of get rt)" "trees_read get (snd ` set (Indexes t))"
  shows "set ((if hash_Valid (SchemaRoot t) then [SchemaRoot t] else []) @ hs @ idx) = table_inventory identity c pending bs get (n, t)"
    and "trees_read get (inventory_trees identity c pending bs (n, t))"
proof -
  note r = Reachable_nodes[OF assms(2)]
  have data: "nodes_of get (DataRoot t) = set hs" "closed_nodes get (nodes_of get (DataRoot t))"
    using nodes_of_grows[of get1 "DataRoot t" get, OF r(2) assms(4)] r(1) by simp_all
  show "set ((if hash_Valid (SchemaRoot t) then [SchemaRoot t] else []) @ hs @ idx) = table_inventory identity c pending bs get (n, t)"
    using assms(1,3,5) data(1) by (auto simp: table_inventory_def table_trees_def)
  show "trees_read get (inventory_trees identity c pending bs (n, t))"
    using assms(1,3,6) data(2) by (simp add: inventory_trees_def table_trees_def trees_read_def)
qed

lemma checkpoint_pending_cases:
  assumes run: "checkpoint_pending H readGit lib decode bs snapshot name t0 rowEdits ms = Some (Inr ms')"
  obtains w t w1 hashes idxRoots idxHashes w2 where
      "(if hash_Valid (SchemaRoot t0) \<and> schema_changed bs name t0 then copy_schema H readGit snapshot t0 (ms_writer ms) else Inr (ms_writer ms)) = Inr w"
      "checkpoint_data H readGit bs t0 (row_edits rowEdits) w = Some (Inr (t, w1))" "Reachable (writer_Get H readGit w1) (troot t) = Some (Inr hashes)"
      "checkpointIndexTrees H readGit lib decode t0 (writer_Get H readGit) (troot t) (table_delta H readGit bs name t0 rowEdits) w1 = Some (Inr ((idxRoots, idxHashes), w2))"
      "ms' = set_table name \<lparr>SchemaRoot = SchemaRoot t0, DataRoot = troot t, Indexes = (case idxRoots of None \<Rightarrow> [] | Some roots \<Rightarrow> roots)\<rparr>
         ((if hash_Valid (SchemaRoot t0) then [SchemaRoot t0] else []) @ hashes @ (if idxRoots = None then [] else idxHashes)) w2 ms"
proof -
  obtain w a where a: "(if hash_Valid (SchemaRoot t0) \<and> schema_changed bs name t0 then copy_schema H readGit snapshot t0 (ms_writer ms) else Inr (ms_writer ms)) = Inr w"
      "checkpoint_data H readGit bs t0 (row_edits rowEdits) w = Some (Inr a)"
    using run unfolding checkpoint_pending_def Let_def ok_simps ok_option_simps by blast
  obtain t w1 where tw: "a = (t, w1)" by fastforce
  note run1 = run[unfolded checkpoint_pending_def Let_def a(1) sum.case a(2)[unfolded tw] Option.bind.simps prod.case]
  then obtain hashes b where h: "Reachable (writer_Get H readGit w1) (troot t) = Some (Inr hashes)"
      "checkpointIndexTrees H readGit lib decode t0 (writer_Get H readGit) (troot t) (table_delta H readGit bs name t0 rowEdits) w1 = Some (Inr b)"
    unfolding ok_option_simps by blast
  obtain idxRoots idxHashes w2 where b: "b = ((idxRoots, idxHashes), w2)" by (metis prod.collapse)
  show thesis
    using run1[unfolded h(1) h(2)[unfolded b] Option.bind.simps sum.case prod.case] that[OF a(1) a(2)[unfolded tw] h(1) h(2)[unfolded b]] by simp
qed

lemma retain_loop_set: "retain_loop hs retained = (Inr (), retained') \<Longrightarrow> set retained' = set hs \<union> set retained"
  by (induction hs arbitrary: retained) (auto split: if_splits)

context digest32
begin

lemma Reachable_valid: "Reachable (writer_Get H readGit w) rt = Some (Inr hs) \<Longrightarrow> hash_Valid rt"
  using Reachable_nodes[of "writer_Get H readGit w" rt hs] closed_nodes_read[of "writer_Get H readGit w" _ rt]
  by (force simp: writer_Get_def split: if_splits)

lemma copy_schema_stays:
  assumes "copy_schema H readGit snapshot table w = Inr w'" "writer_inv H readGit w"
  shows "writer_inv H readGit w' \<and> reads_stay (writer_Get H readGit) w w'"
  using assms writer_put_stays[where readGit = readGit] by (auto simp: copy_schema_def ok_simps split: sum.splits)

lemma checkpoint_data_stays:
  assumes "checkpoint_data H readGit bs table edits w = Some (Inr (t, w'))" "writer_inv H readGit w"
  shows "writer_inv H readGit w' \<and> reads_stay (writer_Get H readGit) w w'"
proof -
  have w: "writer_inv H readGit w \<and> reads_stay (writer_Get H readGit) w w" using assms(2) by (simp add: reads_stay_def)
  show ?thesis
  proof (cases "hash_Valid (DataRoot table)")
    case True
    then obtain t0 where "Apply (\<lambda>_. snapshot_read H readGit bs) (writer_Put H) w t0 edits = Some (Inr (t, w'))"
      using assms(1) by (auto simp: checkpoint_data_def ok_simps)
    then show ?thesis by (rule wr.held.Apply_closed) (rule w)
  next
    case False
    then have "Build (writer_Put H) w (puts edits) DefaultOptions = Some (Inr (t, w'))" using assms(1) by (simp add: checkpoint_data_def)
    then show ?thesis using wr.held.kept_Q[OF wr.held.Build_closed] w by blast
  qed
qed

lemma checkpointIndexTrees_listed:
  assumes run: "checkpointIndexTrees H readGit lib decode table dataGet dataTree delta w = Some (Inr ((roots, hashes), w'))"
    and w: "writer_inv H readGit w" and m: "m = (case roots of None \<Rightarrow> [] | Some r \<Rightarrow> r)"
  shows "writer_inv H readGit w' \<and> reads_stay (writer_Get H readGit) w w'"
    and "set hashes = (\<Union>rt \<in> snd ` set m. nodes_of (writer_Get H readGit w') rt)" "trees_read (writer_Get H readGit w') (snd ` set m)"
proof -
  have st: "writer_inv H readGit w \<and> reads_stay (writer_Get H readGit) w w" using w by (simp add: reads_stay_def)
  consider "roots = None" "hashes = []" "w' = w"
    | schema indexes d where "applyIndexEdits lib dataGet (writer_Put H) schema indexes dataTree d w = Some (Inr (roots, w'))
        \<or> rebuildIndexesFromTree lib dataGet (writer_Put H) schema indexes dataTree w = Some (Inr (roots, w'))"
      "index_hashes (writer_Get H readGit w') m = Some (Inr hashes)"
    using run m unfolding checkpointIndexTrees_def by (auto simp: ok_simps ok_option_simps split: if_splits option.splits)
  then have "(writer_inv H readGit w' \<and> reads_stay (writer_Get H readGit) w w')
    \<and> set hashes = (\<Union>rt \<in> snd ` set m. nodes_of (writer_Get H readGit w') rt) \<and> trees_read (writer_Get H readGit w') (snd ` set m)"
  proof cases
    case 1
    then show ?thesis using st m by (simp add: trees_read_def)
  next
    case (2 schema indexes d)
    have "writer_inv H readGit w' \<and> reads_stay (writer_Get H readGit) w w'"
      using 2(1) wr.held.applyIndexEdits_closed[OF _ st] wr.held.rebuild_closed[OF _ st] by blast
    then show ?thesis using index_hashes_nodes[OF 2(2)] by simp
  qed
  then show "writer_inv H readGit w' \<and> reads_stay (writer_Get H readGit) w w'"
    "set hashes = (\<Union>rt \<in> snd ` set m. nodes_of (writer_Get H readGit w') rt)" "trees_read (writer_Get H readGit w') (snd ` set m)"
    by simp_all
qed

lemma unchanged_step:
  assumes run: "checkpoint_unchanged H readGit identity bs (fst nt) (snd nt) ms = Some (Inr ms')"
    and inv: "checkpoint_inv H readGit identity c pending bs nts ms" and new: "fst nt \<notin> fst ` set nts"
    and un: "untouched pending bs (fst nt) (snd nt)"
  shows "checkpoint_inv H readGit identity c pending bs (nts @ [nt]) ms'"
proof -
  let ?get = "writer_Get H readGit (ms_writer ms)" and ?t = "snd nt"
  have i: "writer_inv H readGit (ms_writer ms)" "vcache_ok (ms_cache ms)" "\<And>k. cache_entry (ms_cache ms) k = cache_entry c k"
      "\<And>h d. snapshot_read H readGit bs h = Inr d \<Longrightarrow> ?get h = Inr d"
    using inv by (simp_all add: checkpoint_inv_def Let_def)
  obtain cached cache where v: "validatedTableObjects identity (ms_cache ms) bs (fst nt) = (cached, cache)" by fastforce
  have cached: "cached_objects identity c bs (fst nt) = cached"
    using cached_objects_cong[of "ms_cache ms" c identity bs "fst nt"] i(3) v by (simp add: cached_objects_def)
  have cache: "vcache_ok cache" "\<And>k. cache_entry cache k = cache_entry (ms_cache ms) k"
    using v lookupTable_ok[OF i(2)] i(2) by (auto simp: validatedTableObjects_def apfst_def map_prod_def split: option.splits prod.splits) (metis snd_conv)+
  obtain objects where o: "ms' = put_table (fst nt) ?t (add_hashes objects (ms\<lparr>ms_cache := cache\<rparr>))"
      "cached = Some objects \<or> cached = None \<and> (\<exists>hs. Reachable (snapshot_read H readGit bs) (DataRoot ?t) = Some (Inr hs) \<and> objects = SchemaRoot ?t # hs)"
    using run v by (auto simp: checkpoint_unchanged_def ok_simps ok_option_simps split: option.splits)
  have "set objects = table_inventory identity c pending bs ?get (fst nt, ?t) \<and> trees_read ?get (inventory_trees identity c pending bs (fst nt, ?t))"
  proof (cases cached)
    case (Some hs)
    then show ?thesis using o(2) un cached by (simp add: table_inventory_def inventory_trees_def trees_read_def)
  next
    case None
    then obtain hs where hs: "Reachable (snapshot_read H readGit bs) (DataRoot ?t) = Some (Inr hs)" "objects = SchemaRoot ?t # hs" using o(2) by auto
    note r = Reachable_nodes[OF hs(1)]
    have "nodes_of ?get (DataRoot ?t) = set hs" "closed_nodes ?get (nodes_of ?get (DataRoot ?t))"
      using nodes_of_grows[of "snapshot_read H readGit bs" "DataRoot ?t" ?get, OF r(2) i(4)] r(1) by simp_all
    then show ?thesis using None hs(2) un cached by (simp add: table_inventory_def inventory_trees_def trees_read_def)
  qed
  then show ?thesis
    using checkpoint_inv_set[OF inv new i(1) _ cache, of objects ?t] o(1) un by (simp add: reads_stay_def)
qed

lemma schema_copied:
  assumes "(if b then copy_schema H readGit snapshot table w else Inr w) = Inr w'" "writer_inv H readGit w"
  shows "writer_inv H readGit w' \<and> reads_stay (writer_Get H readGit) w w'"
  using assms copy_schema_stays by (auto simp: reads_stay_def split: if_splits)

lemma reads_stay_trans: "reads_stay get s s1 \<Longrightarrow> reads_stay get s1 s2 \<Longrightarrow> reads_stay get s s2"
  by (simp add: reads_stay_def)

lemma pending_step:
  assumes run: "checkpoint_pending H readGit lib decode bs snapshot (fst nt) (snd nt) rowEdits ms = Some (Inr ms')"
    and inv: "checkpoint_inv H readGit identity c pending bs nts ms" and new: "fst nt \<notin> fst ` set nts"
    and p: "map_of pending (fst nt) = Some rowEdits"
  shows "checkpoint_inv H readGit identity c pending bs (nts @ [nt]) ms'"
proof -
  let ?t = "snd nt" and ?get = "writer_Get H readGit"
  have i: "writer_inv H readGit (ms_writer ms)" "vcache_ok (ms_cache ms)" using inv by (simp_all add: checkpoint_inv_def Let_def)
  obtain w t w1 hashes idxRoots idxHashes w2 where r:
      "(if hash_Valid (SchemaRoot ?t) \<and> schema_changed bs (fst nt) ?t then copy_schema H readGit snapshot ?t (ms_writer ms) else Inr (ms_writer ms)) = Inr w"
      "checkpoint_data H readGit bs ?t (row_edits rowEdits) w = Some (Inr (t, w1))" "Reachable (?get w1) (troot t) = Some (Inr hashes)"
      "checkpointIndexTrees H readGit lib decode ?t ?get (troot t) (table_delta H readGit bs (fst nt) ?t rowEdits) w1 = Some (Inr ((idxRoots, idxHashes), w2))"
      "ms' = set_table (fst nt) \<lparr>SchemaRoot = SchemaRoot ?t, DataRoot = troot t, Indexes = (case idxRoots of None \<Rightarrow> [] | Some roots \<Rightarrow> roots)\<rparr>
         ((if hash_Valid (SchemaRoot ?t) then [SchemaRoot ?t] else []) @ hashes @ (if idxRoots = None then [] else idxHashes)) w2 ms"
    by (rule checkpoint_pending_cases[OF run])
  let ?new = "\<lparr>SchemaRoot = SchemaRoot ?t, DataRoot = troot t, Indexes = (case idxRoots of None \<Rightarrow> [] | Some roots \<Rightarrow> roots)\<rparr>"
  have w: "writer_inv H readGit w \<and> reads_stay ?get (ms_writer ms) w" by (rule schema_copied[OF r(1) i(1)])
  have w1: "writer_inv H readGit w1 \<and> reads_stay ?get w w1" using checkpoint_data_stays[OF r(2)] w by blast
  note ix = checkpointIndexTrees_listed[OF r(4) conjunct1[OF w1] refl]
  have stay: "reads_stay ?get (ms_writer ms) w2"
    by (rule reads_stay_trans[OF conjunct2[OF w] reads_stay_trans[OF conjunct2[OF w1] conjunct2[OF ix(1)]]])
  have hs: "set (if idxRoots = None then [] else idxHashes) = (\<Union>rt \<in> snd ` set (Indexes ?new). nodes_of (?get w2) rt)"
    using ix(2) by (cases idxRoots) simp_all
  have valid: "hash_Valid (DataRoot ?new)" using Reachable_valid[OF r(3)] by simp
  have "\<not> untouched pending bs (fst nt) ?new" using p by (simp add: untouched_def)
  note l = touched_listed[OF this, of "?get w1" hashes "?get w2", OF _ valid _ hs]
  have "checkpoint_inv H readGit identity c pending bs (nts @ [nt]) (put_table (fst nt) ?new (add_hashes
      ((if hash_Valid (SchemaRoot ?t) then [SchemaRoot ?t] else []) @ hashes @ (if idxRoots = None then [] else idxHashes)) (ms\<lparr>ms_writer := w2, ms_cache := ms_cache ms\<rparr>)))"
    by (rule checkpoint_inv_set[OF inv new _ stay i(2) refl])
      (use l r(3) ix w1 p in \<open>auto simp: reads_stay_def untouched_def\<close>)
  then show ?thesis using r(5) by (simp add: set_table_def)
qed

lemma schema_step:
  assumes run: "checkpoint_schema H readGit lib decode bs snapshot (fst nt) (snd nt) ms = Some (Inr ms')"
    and inv: "checkpoint_inv H readGit identity c pending bs nts ms" and new: "fst nt \<notin> fst ` set nts"
    and p: "schema_changed bs (fst nt) (snd nt)"
  shows "checkpoint_inv H readGit identity c pending bs (nts @ [nt]) ms'"
proof -
  let ?t = "snd nt" and ?get = "writer_Get H readGit" and ?schema = "if hash_Valid (SchemaRoot (snd nt)) then [SchemaRoot (snd nt)] else []"
  have i: "writer_inv H readGit (ms_writer ms)" "vcache_ok (ms_cache ms)" "\<And>h d. snapshot_read H readGit bs h = Inr d \<Longrightarrow> ?get (ms_writer ms) h = Inr d"
    using inv by (simp_all add: checkpoint_inv_def Let_def)
  obtain w where w: "(if hash_Valid (SchemaRoot ?t) then copy_schema H readGit snapshot ?t (ms_writer ms) else Inr (ms_writer ms)) = Inr w"
    using run unfolding checkpoint_schema_def ok_simps by blast
  note st = schema_copied[OF w i(1)]
  have un: "\<not> untouched pending bs (fst nt) \<lparr>SchemaRoot = SchemaRoot ?t, DataRoot = d, Indexes = m\<rparr>" for d m
    using p by (simp add: untouched_def schema_changed_def cong: option.case_cong)
  have set: "checkpoint_inv H readGit identity c pending bs (nts @ [nt]) (set_table (fst nt) \<lparr>SchemaRoot = SchemaRoot ?t, DataRoot = DataRoot ?t, Indexes = m\<rparr> hs w' ms)"
    if "writer_inv H readGit w' \<and> reads_stay ?get (ms_writer ms) w'"
      "set hs = table_inventory identity c pending bs (?get w') (fst nt, \<lparr>SchemaRoot = SchemaRoot ?t, DataRoot = DataRoot ?t, Indexes = m\<rparr>)"
      "trees_read (?get w') (inventory_trees identity c pending bs (fst nt, \<lparr>SchemaRoot = SchemaRoot ?t, DataRoot = DataRoot ?t, Indexes = m\<rparr>))" for m hs w'
    using checkpoint_inv_set[OF inv new conjunct1[OF that(1)] conjunct2[OF that(1)] i(2) refl that(2,3)] p by (simp add: set_table_def untouched_def)
  show ?thesis
  proof (cases "hash_Valid (DataRoot ?t)")
    case False
    then have ms': "ms' = set_table (fst nt) \<lparr>SchemaRoot = SchemaRoot ?t, DataRoot = DataRoot ?t, Indexes = []\<rparr> ?schema w ms"
      using run by (simp add: checkpoint_schema_def w)
    show ?thesis
      unfolding ms' by (rule set[OF st]) (use un False in \<open>auto simp: table_inventory_def inventory_trees_def table_trees_def trees_read_def\<close>)
  next
    case True
    note run1 = run[unfolded checkpoint_schema_def w sum.case Let_def, simplified True not_True_eq_False if_False]
    obtain hashes b where r: "Reachable (snapshot_read H readGit bs) (DataRoot ?t) = Some (Inr hashes)"
        "checkpointIndexTrees H readGit lib decode ?t (\<lambda>_. snapshot_read H readGit bs) (DataRoot ?t) None w = Some (Inr b)"
      using run1 unfolding ok_option_simps by blast
    obtain roots idx w' where b: "b = ((roots, idx), w')" by (metis prod.collapse)
    note ix = checkpointIndexTrees_listed[OF r(2)[unfolded b] conjunct1[OF st] refl]
    have stay: "writer_inv H readGit w' \<and> reads_stay ?get (ms_writer ms) w'" using ix(1) reads_stay_trans[OF conjunct2[OF st]] by blast
    have grow: "?get w' h = Inr d" if "snapshot_read H readGit bs h = Inr d" for h d using i(3)[OF that] stay by (simp add: reads_stay_def)
    let ?new = "\<lparr>SchemaRoot = SchemaRoot ?t, DataRoot = DataRoot ?t, Indexes = (case roots of None \<Rightarrow> [] | Some m \<Rightarrow> m)\<rparr>"
    have ms': "ms' = set_table (fst nt) ?new (?schema @ hashes @ (if roots = None then [] else idx)) w' ms"
      using run1[unfolded r r(2)[unfolded b] Option.bind.simps sum.case prod.case] b by (auto split: option.splits)
    have hs: "set (if roots = None then [] else idx) = (\<Union>rt \<in> snd ` set (Indexes ?new). nodes_of (?get w') rt)"
      using ix(2) by (cases roots) simp_all
    note l = touched_listed[OF un, of "snapshot_read H readGit bs" "DataRoot ?t" "Indexes ?new" hashes "?get w'", simplified, OF r(1) True grow hs[simplified]]
    show ?thesis
      unfolding ms' by (rule set[OF stay]) (use l ix(3) in simp_all)
  qed
qed

section \<open>The checkpoint\<close>

lemma checkpoint_tables_inv:
  assumes "checkpoint_tables (checkpoint_table H readGit lib decode identity pending bs snapshot) nts ms = Some (Inr ms')"
    and "checkpoint_inv H readGit identity c pending bs nts0 ms" "distinct (map fst (nts0 @ nts))"
  shows "checkpoint_inv H readGit identity c pending bs (nts0 @ nts) ms'"
  using assms
proof (induction nts arbitrary: nts0 ms)
  case (Cons nt nts)
  obtain ms1 where ms1: "checkpoint_table H readGit lib decode identity pending bs snapshot nt ms = Some (Inr ms1)"
      "checkpoint_tables (checkpoint_table H readGit lib decode identity pending bs snapshot) nts ms1 = Some (Inr ms')"
    using Cons.prems(1) by (auto simp: ok_option_simps)
  have new: "fst nt \<notin> fst ` set nts0" using Cons.prems(3) by auto
  have "checkpoint_inv H readGit identity c pending bs (nts0 @ [nt]) ms1"
  proof (cases "map_of pending (fst nt)")
    case (Some rowEdits)
    then show ?thesis using ms1(1) pending_step[OF _ Cons.prems(2) new Some] by (simp add: checkpoint_table_def)
  next
    case None
    then show ?thesis
      using ms1(1) schema_step[OF _ Cons.prems(2) new] unchanged_step[OF _ Cons.prems(2) new]
      by (cases "schema_changed bs (fst nt) (snd nt)") (simp_all add: checkpoint_table_def untouched_def)
  qed
  then show ?case using Cons.IH[OF ms1(2), of "nts0 @ [nt]"] Cons.prems(3) by auto
qed simp

lemma prepare_checkpoint_inventory:
  assumes run: "prepare_checkpoint H readGit lib decode identity snapshotCommit repo cache snapshot pending = Some (Inr ((w, m), cache'))"
    and bs: "snapshotCommit (sn_Commit snapshot) = Inr bs" "snapshot_sound H readGit bs"
    and cache: "vcache_ok cache" and names: "distinct (map fst (mf_tables (sn_Manifest snapshot)))"
  shows "list_all2 (carried pending bs) (mf_tables (sn_Manifest snapshot)) (mf_tables m)"
    and "set (available_objects w) = (\<Union>nt \<in> set (mf_tables m). table_inventory identity cache pending bs (writer_Get H readGit w) nt)"
    and "\<forall>nt \<in> set (mf_tables m). trees_read (writer_Get H readGit w) (inventory_trees identity cache pending bs nt)"
proof -
  obtain w0 where w0: "BeginSnapshot repo (Some bs) = Inr w0" using run bs(1) by (auto simp: prepare_checkpoint_def ok_simps)
  let ?ms0 = "\<lparr>ms_tables = [], ms_reachable = [], ms_conflicts = [], ms_writer = w0, ms_cache = cache\<rparr>"
  obtain ms where ms: "checkpoint_tables (checkpoint_table H readGit lib decode identity pending bs snapshot) (mf_tables (sn_Manifest snapshot)) ?ms0 = Some (Inr ms)"
    using run unfolding prepare_checkpoint_def bs(1) w0 sum.case ok_option_simps by blast
  have m: "RetainOnly (ms_writer ms) (ms_reachable ms) = (Inr (), w)" "m = merged_manifest (mf_DefaultDatabase (sn_Manifest snapshot)) (ms_tables ms)"
    using run ms by (auto simp: prepare_checkpoint_def bs(1) w0 split: prod.split_asm sum.split_asm)
  have base: "w_base w0 = Some bs" "w_objects w0 = []" using w0 by (auto simp: BeginSnapshot_def split: if_splits)
  have "writer_Get H readGit w0 h = Inr d" if "snapshot_read H readGit bs h = Inr d" for h d
    using that snapshot_read_Sum[OF _ that] bs(2) hash_Valid_Sum base by (auto simp: writer_Get_def snapshot_sound_def)
  then have "checkpoint_inv H readGit identity cache pending bs [] ?ms0"
    using cache writer_inv_BeginSnapshot[OF bs(2) w0] by (simp add: checkpoint_inv_def Let_def)
  then have inv: "checkpoint_inv H readGit identity cache pending bs (mf_tables (sn_Manifest snapshot)) ms"
    using checkpoint_tables_inv[OF ms, of cache "[]"] names by simp
  obtain retained where ret: "retain_loop (ms_reachable ms) [] = (Inr (), retained)" "w = (ms_writer ms)\<lparr>w_retained := Some retained\<rparr>"
    using m(1) by (auto simp: RetainOnly_def split: if_splits prod.splits)
  have get: "writer_Get H readGit w = writer_Get H readGit (ms_writer ms)" using ret(2) by (simp add: fun_eq_iff writer_Get_def cong: option.case_cong)
  have "set retained = set (ms_reachable ms)" using retain_loop_set[OF ret(1)] by simp
  then have "set (available_objects w) = set (ms_reachable ms)" using ret(2) by (simp add: available_objects_def)
  moreover have "mf_tables m = ms_tables ms" using m(2) by (simp add: merged_manifest_def mf_tables_def)
  ultimately show "list_all2 (carried pending bs) (mf_tables (sn_Manifest snapshot)) (mf_tables m)"
      "set (available_objects w) = (\<Union>nt \<in> set (mf_tables m). table_inventory identity cache pending bs (writer_Get H readGit w) nt)"
      "\<forall>nt \<in> set (mf_tables m). trees_read (writer_Get H readGit w) (inventory_trees identity cache pending bs nt)"
    using inv unfolding get by (simp_all add: checkpoint_inv_def Let_def)
qed

end

end
