(* ===== verification/Checkpoint_Correct.thy ===== *)
theory Checkpoint_Correct
  imports Engine_Checkpoint Index_Rebuild Key_Order
begin

text \<open>
  The index trees of a checkpoint: updating the old trees with the index edits of the pending rows gives
  the same trees as building them from all rows.
\<close>

section \<open>Entries as maps\<close>

lemma elookup_iff:
  assumes "keys_sorted es"
  shows "elookup k es = Some v \<longleftrightarrow> \<lparr>ekey = k, evalue = v\<rparr> \<in> set es"
  using assms
proof (induction es)
  case (Cons e es)
  have "\<lparr>ekey = ekey e, evalue = v\<rparr> \<notin> set es" using Cons.prems by (auto simp: keys_sorted_def)
  then show ?case using Cons by (cases e) (auto simp: elookup_Cons keys_sorted_def)
qed (simp add: elookup_def)

lemma sorted_lookup_unique:
  assumes "keys_sorted xs" "keys_sorted ys" "\<And>k. elookup k xs = elookup k ys"
  shows "xs = ys"
proof -
  have "e \<in> set xs \<longleftrightarrow> e \<in> set ys" for e
    using elookup_iff[OF assms(1), of "ekey e" "evalue e"] elookup_iff[OF assms(2), of "ekey e" "evalue e"] assms(3) by (cases e) simp
  then have set: "set xs = set ys" by blast
  have inj: "inj_on ekey (set xs \<union> set ys)"
    using assms(1) unfolding keys_sorted_def strict_sorted_iff set distinct_map by (simp add: set)
  show ?thesis
    using assms(1,2) set inj by (intro map_sorted_distinct_set_unique[OF inj]) (auto simp: keys_sorted_def strict_sorted_iff)
qed

section \<open>Ordering index edits\<close>

text \<open>The effect of edits on a key depends on the edits of that key alone.\<close>

lemma index_effect_filter: "index_effect es I k = index_effect (filter (\<lambda>e. edkey e = k) es) I k"
proof -
  have "fold index_put es I k = fold index_put (filter (\<lambda>e. edkey e = k) es) J k" if "I k = J k" for I J
    using that
  proof (induction es arbitrary: I J)
    case (Cons e es)
    have "fold index_put es (index_put e I) k = fold index_put (filter (\<lambda>e. edkey e = k) es) (if edkey e = k then index_put e J else J) k"
      using Cons.prems by (intro Cons.IH) (simp add: index_put_def)
    then show ?case by simp
  qed simp
  then show ?thesis by (simp add: index_effect_def)
qed

lemma index_effect_sort: "index_effect (sort_key edkey es) I = index_effect es I"
proof
  fix k
  have "filter (\<lambda>e. edkey e = k) (sort_key edkey es) = filter (\<lambda>e. edkey e = k) es" by (rule sort_key_stable)
  then show "index_effect (sort_key edkey es) I k = index_effect es I k" using index_effect_filter by metis
qed

lemma order_loop_spec:
  assumes "edits_sorted out" "sorted (map edkey eds)" "\<forall>x \<in> set out. \<forall>y \<in> set eds. edkey x \<le> edkey y"
    and "distinct (map edkey (filter (\<lambda>e. \<not> eddelete e) (out @ eds)))"
  shows "\<exists>out'. order_loop out eds = Inr out' \<and> edits_sorted out' \<and> set out' \<subseteq> set (out @ eds)
    \<and> index_effect out' I = index_effect (out @ eds) I"
  using assms
proof (induction eds arbitrary: out)
  case (Cons ed eds)
  show ?case
  proof (cases "out \<noteq> [] \<and> edkey (last out) = edkey ed")
    case True
    then obtain out0 x where out: "out = out0 @ [x]" "edkey x = edkey ed" by (cases out rule: rev_cases) auto
    have "eddelete x \<or> eddelete ed" using Cons.prems(4) out by (auto split: if_splits)
    moreover have "edits_sorted (out0 @ [ed])" using Cons.prems(1) out by (auto simp: edits_sorted_def sorted_wrt_append)
    moreover have "\<forall>x \<in> set (out0 @ [ed]). \<forall>y \<in> set eds. edkey x \<le> edkey y" using Cons.prems(2,3) out by auto
    moreover have "distinct (map edkey (filter (\<lambda>e. \<not> eddelete e) ((out0 @ [ed]) @ eds)))"
      using Cons.prems(4) out by (auto split: if_splits)
    ultimately obtain out' where o: "order_loop (out0 @ [ed]) eds = Inr out'" "edits_sorted out'" "set out' \<subseteq> set ((out0 @ [ed]) @ eds)"
        "index_effect out' I = index_effect ((out0 @ [ed]) @ eds) I"
      using Cons.IH[of "out0 @ [ed]"] Cons.prems(2) by auto
    moreover have "index_effect ((out0 @ [ed]) @ eds) I = index_effect (out @ ed # eds) I"
      using out(2) by (simp add: out(1) index_effect_def) (simp add: index_put_def fun_upd_def comp_def cong: if_cong)
    ultimately show ?thesis using True out \<open>eddelete x \<or> eddelete ed\<close> by auto
  next
    case False
    have "edits_sorted (out @ [ed])"
    proof -
      have "edkey x < edkey ed" if "x \<in> set out" for x
      proof -
        have "edkey x \<le> edkey (last out)" using Cons.prems(1) that by (cases out rule: rev_cases) (auto simp: edits_sorted_def sorted_wrt_append)
        moreover have "edkey (last out) < edkey ed" using Cons.prems(3) False that by (cases out rule: rev_cases) (auto simp: order_le_less)
        ultimately show ?thesis by simp
      qed
      then show ?thesis using Cons.prems(1) by (auto simp: edits_sorted_def sorted_wrt_append)
    qed
    moreover have "\<forall>x \<in> set (out @ [ed]). \<forall>y \<in> set eds. edkey x \<le> edkey y" using Cons.prems(2,3) by auto
    ultimately obtain out' where "order_loop (out @ [ed]) eds = Inr out'" "edits_sorted out'" "set out' \<subseteq> set ((out @ [ed]) @ eds)"
        "index_effect out' I = index_effect ((out @ [ed]) @ eds) I"
      using Cons.IH[of "out @ [ed]"] Cons.prems(2,4) by auto
    then show ?thesis using False by auto
  qed
qed auto

lemma orderIndexEdits_spec:
  assumes "distinct (map edkey (filter (\<lambda>e. \<not> eddelete e) eds))"
  shows "\<exists>out. orderIndexEdits eds = Inr out \<and> edits_sorted out \<and> set out \<subseteq> set eds \<and> index_effect out I = index_effect eds I"
proof -
  have "distinct (map edkey (filter (\<lambda>e. \<not> eddelete e) (sort_key edkey eds)))"
    using assms by (metis (no_types, lifting) distinct_sort filter_sort sort_key_simps(1) mset_filter mset_map mset_sort distinct_count_atmost_1 mset_eq_imp_distinct_iff)
  then show ?thesis using order_loop_spec[of "[]" "sort_key edkey eds" I] by (simp add: orderIndexEdits_def edits_sorted_def index_effect_sort)
qed

section \<open>Edited entries as maps\<close>

lemma index_effect_distinct:
  assumes "distinct (map edkey eds)"
  shows "index_effect eds I k = (case find (\<lambda>ed. edkey ed = k) eds of None \<Rightarrow> I k | Some ed \<Rightarrow> if eddelete ed then None else Some (edvalue ed))"
  using assms
proof (induction eds arbitrary: I)
  case (Cons ed eds)
  have "find (\<lambda>x. edkey x = k) eds = None" if "edkey ed = k" using Cons.prems that by (auto simp: find_None_iff image_iff)
  then show ?case using Cons by (auto simp: index_effect_def index_put_def split: option.split)
qed (simp add: index_effect_def)

lemma edits_sorted_distinct: "edits_sorted eds \<Longrightarrow> distinct (map edkey eds)"
  by (simp add: edits_sorted_def strict_sorted_iff)

lemma find_distinct:
  "distinct (map edkey eds) \<Longrightarrow> find (\<lambda>ed. edkey ed = k) eds = Some ed \<longleftrightarrow> ed \<in> set eds \<and> edkey ed = k"
  by (induction eds) auto

lemma keys_sorted_edited:
  assumes "keys_sorted es" "edits_sorted eds"
  shows "keys_sorted (edited eds es)"
proof -
  have "distinct (map ekey (puts eds))" "distinct (map ekey es)"
    using keys_sorted_puts[OF assms(2)] assms(1) by (simp_all add: keys_sorted_def strict_sorted_iff)
  moreover have "ekey ` set (puts eds) \<subseteq> edkey ` set eds" using puts_keys by blast
  ultimately have "distinct (map ekey (filter (\<lambda>e. ekey e \<notin> edkey ` set eds) es @ puts eds))"
    by (auto simp: distinct_map_filter)
  then have "distinct (map ekey (edited eds es))"
    unfolding edited_def by (metis distinct_map distinct_sort set_sort)
  then show ?thesis by (simp add: keys_sorted_def strict_sorted_iff edited_def)
qed

lemma edited_lookup:
  assumes "keys_sorted es" "edits_sorted eds"
  shows "elookup k (edited eds es) = index_effect eds (\<lambda>k. elookup k es) k"
proof -
  note d = edits_sorted_distinct[OF assms(2)]
  have "elookup k (edited eds es) = Some v \<longleftrightarrow> index_effect eds (\<lambda>k. elookup k es) k = Some v" for v
  proof (cases "find (\<lambda>ed. edkey ed = k) eds")
    case None
    then have k: "k \<notin> edkey ` set eds" by (auto simp: find_None_iff)
    then have "\<lparr>ekey = k, evalue = v\<rparr> \<notin> set (puts eds)" using puts_keys[of "\<lparr>ekey = k, evalue = v\<rparr>" eds] by auto
    then show ?thesis
      using None k elookup_iff[OF keys_sorted_edited[OF assms], of k v] elookup_iff[OF assms(1), of k v]
      by (simp add: index_effect_distinct[OF d] edited_def)
  next
    case (Some ed)
    then have ed: "ed \<in> set eds" "edkey ed = k" using find_distinct[OF d] by auto
    have "\<lparr>ekey = k, evalue = v\<rparr> \<in> set (puts eds) \<longleftrightarrow> \<not> eddelete ed \<and> edvalue ed = v"
    proof -
      have "x = ed" if "x \<in> set eds" "edkey x = k" for x using find_distinct[OF d, of k x] Some that by simp
      moreover have "\<lparr>ekey = k, evalue = v\<rparr> \<in> set (puts eds) \<longleftrightarrow> (\<exists>x \<in> set eds. edkey x = k \<and> \<not> eddelete x \<and> edvalue x = v)"
        by (auto simp: puts_def edit_entry_def image_iff)
      ultimately show ?thesis using ed by blast
    qed
    moreover have "k \<in> edkey ` set eds" using ed by blast
    then have "\<lparr>ekey = k, evalue = v\<rparr> \<in> set (edited eds es) \<longleftrightarrow> \<lparr>ekey = k, evalue = v\<rparr> \<in> set (puts eds)" by (simp add: edited_def)
    ultimately show ?thesis
      using Some elookup_iff[OF keys_sorted_edited[OF assms], of k v] by (simp add: index_effect_distinct[OF d])
  qed
  then show ?thesis by (metis not_None_eq)
qed

section \<open>Index keys\<close>

lemma index_key_loop_length: "index_key_loop schema row ords out n = Inr (k, m) \<Longrightarrow> length out + length ords \<le> length k"
proof (induction ords arbitrary: out n)
  case (Cons ord ords)
  show ?case
  proof (cases "row_cell row ord")
    case None
    then show ?thesis using Cons.IH[of "out @ [0x00]" True] Cons.prems by simp
  next
    case (Some v)
    with Cons.prems obtain c where "index_key_loop schema row ords (out @ 0x01 # c) n = Inr (k, m)"
      by (auto simp: appendKeyColumn_dst[of "out @ [1]"] map_sum_def split: if_splits sum.splits)
    then show ?thesis using Cons.IH by fastforce
  qed
qed simp

lemma index_key_nonempty:
  assumes "index_key schema idx pk row = Some k" "idx_Columns idx \<noteq> []"
  shows "k \<noteq> []"
proof -
  obtain out n where "index_key_loop schema row (idx_Columns idx) [] False = Inr (out, n)" "k = out \<or> k = out @ pk"
  proof (cases "index_key_loop schema row (idx_Columns idx) [] False")
    case (Inr x)
    then show thesis using assms(1) that by (cases x) (simp add: index_key_def encodeIndexKey_def split: if_splits)
  qed (use assms(1) in \<open>simp add: index_key_def encodeIndexKey_def\<close>)
  then show ?thesis using index_key_loop_length[of schema row "idx_Columns idx" "[]" False out n] assms(2) by auto
qed

text \<open>The additions derived for an index have different keys when the edited rows do.\<close>

lemma row_puts_distinct:
  assumes "distinct (map fst rows)" "keys_unique schema idx (edited_rows B (map_of rows))"
  shows "distinct (map fst (concat (map (row_puts schema idx B) rows)))"
proof -
  have key: "k = k' \<longrightarrow> pk = pk'" if "(pk, e) \<in> set rows" "(pk', e') \<in> set rows" "(k, p) \<in> set (row_puts schema idx B (pk, e))"
      "(k', p') \<in> set (row_puts schema idx B (pk', e'))" for pk e pk' e' k p k' p'
  proof -
    have row: "\<exists>row. edited_rows B (map_of rows) pk = Some row \<and> index_key schema idx pk row = Some k"
      if "(pk, e) \<in> set rows" "(k, p) \<in> set (row_puts schema idx B (pk, e))" for pk e k p
    proof -
      have "new_key schema idx pk e = Some k" using that(2) by (auto simp: row_puts_def split: option.splits if_splits)
      moreover have "map_of rows pk = Some e" using that(1) assms(1) by simp
      ultimately show ?thesis by (auto simp: new_key_def edited_rows_def bind_eq_Some_conv)
    qed
    show ?thesis using row[OF that(1,3)] row[OF that(2,4)] assms(2) unfolding keys_unique_def by blast
  qed
  have "distinct (map fst (concat (map (row_puts schema idx B) xs)))" if "set xs \<subseteq> set rows" "distinct (map fst xs)" for xs
    using that
  proof (induction xs)
    case (Cons x xs)
    obtain pk e where x: "x = (pk, e)" by fastforce
    have one: "distinct (map fst (row_puts schema idx B x))" by (auto simp: row_puts_def split: option.split)
    have "fst ` set (row_puts schema idx B x) \<inter> fst ` set (concat (map (row_puts schema idx B) xs)) = {}"
    proof (rule equals0I)
      fix k assume "k \<in> fst ` set (row_puts schema idx B x) \<inter> fst ` set (concat (map (row_puts schema idx B) xs))"
      then obtain p y p' where "(k, p) \<in> set (row_puts schema idx B x)" "y \<in> set xs" "(k, p') \<in> set (row_puts schema idx B y)" by auto
      moreover obtain pk' e' where "y = (pk', e')" by fastforce
      ultimately have "pk = pk'" "(pk', e') \<in> set xs" using key[of pk e pk' e' k p k p'] Cons.prems(1) x by auto
      then show False using Cons.prems(2) x by force
    qed
    then show ?case using Cons one by simp
  qed simp
  then show ?thesis using assms(1) by blast
qed

section \<open>Both ways to the index trees\<close>

context content_store
begin

lemma Apply_index:
  assumes "inv s" "edits_check eds = None" "pstored g H (canon DefaultOptions es)" "entries_ok es" "entries_ok (edited eds es)" "edited eds es \<noteq> []"
  shows "\<exists>s'. Apply (\<lambda>_. g) put s \<lparr>troot = proot H (canon DefaultOptions es), toptions = DefaultOptions\<rparr> eds =
      Some (Inr (\<lparr>troot = proot H (canon DefaultOptions (edited eds es)), toptions = DefaultOptions\<rparr>, s')) \<and> inv s'"
proof (cases "eds = []")
  case True
  have "edited [] es = es" using assms(4) by (simp add: edited_def entries_ok_def keys_sorted_def strict_sorted_iff sorted_sort_id sort_key_id_if_sorted)
  then show ?thesis using True assms(1) by (simp add: Apply_def)
next
  case False
  show ?thesis
  proof (cases "es = []")
    case True
    obtain s' where "Apply (\<lambda>_. g) put s \<lparr>troot = proot H (canon DefaultOptions []), toptions = DefaultOptions\<rparr> eds =
        Some (Inr (\<lparr>troot = proot H (canon DefaultOptions (edited eds [])), toptions = DefaultOptions\<rparr>, s'))"
        "store_extends get H inv s s' (pobjects H (canon DefaultOptions (edited eds [])))"
      using other.Apply_from_empty[OF assms(1) default_chunking assms(3)[unfolded True] False assms(2) assms(5)[unfolded True]] by (elim exE conjE) (rule that)
    then show ?thesis using True store_extends_inv[of get H inv s s'] by simp
  next
    case ne: False
    show ?thesis
      using other.Apply_nonempty[OF assms(1) default_chunking assms(4) assms(3) False assms(2,5,6) ne] by (elim exE conjE) (auto dest: store_extends_inv)
  qed
qed

lemma apply_indexes_canon:
  assumes "inv s"
    and "\<forall>idx \<in> set idxs. \<exists>eds. orderIndexEdits (edits_for derived (idx_Name idx)) = Inr eds \<and> edits_check eds = None
      \<and> index_or_empty (Indexes base) (idx_Name idx) = proot H (canon DefaultOptions (old idx)) \<and> pstored g H (canon DefaultOptions (old idx))
      \<and> entries_ok (old idx) \<and> edited eds (old idx) = new idx \<and> entries_ok (new idx) \<and> new idx \<noteq> []"
  shows "\<exists>s'. apply_indexes g put base derived idxs roots s = Some (Inr (index_roots H new idxs roots, s'))"
  using assms
proof (induction idxs arbitrary: roots s)
  case (Cons idx idxs)
  obtain eds where e: "orderIndexEdits (edits_for derived (idx_Name idx)) = Inr eds" "edits_check eds = None"
      "index_or_empty (Indexes base) (idx_Name idx) = proot H (canon DefaultOptions (old idx))" "pstored g H (canon DefaultOptions (old idx))"
      "entries_ok (old idx)" "edited eds (old idx) = new idx" "entries_ok (new idx)" "new idx \<noteq> []"
    using Cons.prems(2) by auto
  obtain s1 where s1: "Apply (\<lambda>_. g) put s \<lparr>troot = proot H (canon DefaultOptions (old idx)), toptions = DefaultOptions\<rparr> eds =
      Some (Inr (\<lparr>troot = proot H (canon DefaultOptions (new idx)), toptions = DefaultOptions\<rparr>, s1))" "inv s1"
    using Apply_index[OF Cons.prems(1) e(2,4,5)] e(6-8) by auto
  have "hash_Valid (proot H (canon DefaultOptions (old idx)))" by (simp add: proot_def hash_Valid_Sum)
  then show ?case using Cons.IH[OF s1(2)] Cons.prems(2) e(1,3) s1(1) by (simp add: prolly_Open_def index_roots_def)
qed (simp add: index_roots_def)

end

subsection \<open>The rows of a checkpoint\<close>

lemma row_edits_sorted:
  assumes "pending_ok p"
  shows "edits_sorted (row_edits p)"
  using pending_list_ok[of "pruns p"] assms
  by (simp add: row_edits_def pending_all_list pending_ok_def run_ok_def edits_sorted_def comp_def)

lemma find_edit: "find (\<lambda>ed. edkey ed = k) (map f qs) = map_option f (map_of (map (\<lambda>e. (re_key e, e)) qs) k)" if "\<And>q. edkey (f q) = re_key q"
  by (induction qs) (auto simp: that)

lemma checkpoint_lookup:
  assumes "pending_ok p" "keys_sorted es"
  shows "elookup k (edited (row_edits p) es) =
    (case pending_map p k of None \<Rightarrow> elookup k es | Some q \<Rightarrow> if re_delete q then None else Some (re_value q))"
  unfolding edited_lookup[OF assms(2) row_edits_sorted[OF assms(1)]] index_effect_distinct[OF edits_sorted_distinct[OF row_edits_sorted[OF assms(1)]]]
  using assms(1) by (auto simp: row_edits_def pending_all_list find_edit pending_map_def run_map_def split: option.split)

lemma pending_decodes:
  assumes "ts_base_ok lib st es" "pending_map (ts_pending st) k = Some q"
  shows "decodePending lib st q = Inr (pending_edit lib st q)" "re_key q = k"
proof -
  have "q \<in> set (pending_list (pruns (ts_pending st))) \<and> re_key q = k"
    using map_of_SomeD[OF assms(2)[unfolded pending_map_def run_map_def]] by auto
  then show "decodePending lib st q = Inr (pending_edit lib st q)" "re_key q = k"
    using assms(1) by (auto simp: ts_base_ok_def list_all_iff)
qed

lemma keyed_rows_spec:
  assumes "ts_base_ok lib st es" "ts_edits st = []"
  shows "keyed_rows lib (ts_schema st) (pending_all (ts_pending st)) = Inr (edit_list lib st)"
proof -
  have "keyed_rows lib (ts_schema st) qs = Inr (map (\<lambda>q. (re_key q, pending_edit lib st q)) qs)"
    if "\<forall>q \<in> set qs. decodePending lib st q = Inr (pending_edit lib st q)" for qs
    using that
  proof (induction qs)
    case (Cons q qs)
    then show ?case by (cases "decodeRow lib (schema_columns (ts_schema st)) (re_value q)") (auto simp: decodePending_def split: if_splits)
  qed simp
  then show ?thesis using assms by (simp add: ts_base_ok_def pending_all_list edit_list_def list_all_iff)
qed

lemma checkpoint_row:
  assumes "ts_base_ok lib st es" "ts_edits st = []" "keys_sorted es"
  shows "table_view lib st es k = (case elookup k (edited (row_edits (ts_pending st)) es) of None \<Rightarrow> None
      | Some v \<Rightarrow> Some (entry_row lib (ts_schema st) \<lparr>ekey = k, evalue = v\<rparr>))"
    and "elookup k (edited (row_edits (ts_pending st)) es) = Some v \<Longrightarrow>
      decodeRow lib (schema_columns (ts_schema st)) v = Inr (entry_row lib (ts_schema st) \<lparr>ekey = k, evalue = v\<rparr>)"
proof -
  let ?p = "ts_pending st"
  have ok: "pending_ok ?p" using assms(1) by (simp add: ts_base_ok_def)
  note look = checkpoint_lookup[OF ok assms(3)]
  have ov: "overlay_edit lib st k = map_option (pending_edit lib st) (pending_map ?p k)" by (simp add: overlay_edit_def assms(2))
  have es: "decodeRow lib (schema_columns (ts_schema st)) v = Inr (entry_row lib (ts_schema st) \<lparr>ekey = k, evalue = v\<rparr>)" if "elookup k es = Some v" for v
    using assms(1) elookup_in[OF that] by (force simp: ts_base_ok_def list_all_iff entry_row_ok_def entry_row_def)
  have "table_view lib st es k = (case elookup k (edited (row_edits ?p) es) of None \<Rightarrow> None
        | Some v \<Rightarrow> Some (entry_row lib (ts_schema st) \<lparr>ekey = k, evalue = v\<rparr>))
    \<and> (\<forall>v. elookup k (edited (row_edits ?p) es) = Some v \<longrightarrow> decodeRow lib (schema_columns (ts_schema st)) v = Inr (entry_row lib (ts_schema st) \<lparr>ekey = k, evalue = v\<rparr>))"
  proof (cases "pending_map ?p k")
    case None
    then show ?thesis using es by (auto simp: look ov table_view_def base_row_def split: option.split)
  next
    case (Some q)
    note q = pending_decodes[OF assms(1) Some]
    show ?thesis
    proof (cases "re_delete q")
      case True
      then have "pending_edit lib st q = \<lparr>ed_row = [], ed_delete = True\<rparr>" using q(1) by (simp add: decodePending_def)
      then show ?thesis using Some True by (simp add: look ov table_view_def edit_result_def)
    next
      case False
      then obtain row where row: "decodeRow lib (schema_columns (ts_schema st)) (re_value q) = Inr row"
          "pending_edit lib st q = \<lparr>ed_row = row, ed_delete = False\<rparr>"
        using q(1) by (cases "decodeRow lib (schema_columns (ts_schema st)) (re_value q)") (auto simp: decodePending_def)
      then show ?thesis using Some False by (simp add: look ov table_view_def edit_result_def entry_row_def)
    qed
  qed
  then show "table_view lib st es k = (case elookup k (edited (row_edits ?p) es) of None \<Rightarrow> None
      | Some v \<Rightarrow> Some (entry_row lib (ts_schema st) \<lparr>ekey = k, evalue = v\<rparr>))"
    "elookup k (edited (row_edits ?p) es) = Some v \<Longrightarrow>
      decodeRow lib (schema_columns (ts_schema st)) v = Inr (entry_row lib (ts_schema st) \<lparr>ekey = k, evalue = v\<rparr>)" by blast+
qed

section \<open>Updated and rebuilt index trees\<close>

text \<open>The row of an entry of the new data tree, with its index key.\<close>

lemma checkpoint_entry:
  assumes "ts_base_ok lib st es" "ts_edits st = []" "ds = edited (row_edits (ts_pending st)) es"
  shows "keys_sorted ds"
    and "table_view lib st es pk = Some row \<longleftrightarrow> (\<exists>e \<in> set ds. ekey e = pk \<and> entry_row lib (ts_schema st) e = row)"
    and "e \<in> set ds \<Longrightarrow> decodeRow lib (schema_columns (ts_schema st)) (evalue e) = Inr (entry_row lib (ts_schema st) e)"
proof -
  have es: "keys_sorted es" using assms(1) by (auto simp: ts_base_ok_def dest: tree_content_sorted)
  have "pending_ok (ts_pending st)" using assms(1) by (simp add: ts_base_ok_def)
  then show ds: "keys_sorted ds" using keys_sorted_edited[OF es row_edits_sorted] assms(3) by simp
  have look: "elookup (ekey e) ds = Some (evalue e) \<longleftrightarrow> e \<in> set ds" for e using elookup_iff[OF ds, of "ekey e" "evalue e"] by (cases e) simp
  note row = checkpoint_row[OF assms(1,2) es, folded assms(3)]
  have view: "table_view lib st es (ekey e) = Some (entry_row lib (ts_schema st) e)" if "e \<in> set ds" for e
    using look[of e] that row(1)[of "ekey e"] by (cases e) simp
  show "table_view lib st es pk = Some row \<longleftrightarrow> (\<exists>e \<in> set ds. ekey e = pk \<and> entry_row lib (ts_schema st) e = row)"
  proof
    assume "table_view lib st es pk = Some row"
    then obtain v where "elookup pk ds = Some v" "entry_row lib (ts_schema st) \<lparr>ekey = pk, evalue = v\<rparr> = row"
      unfolding row(1)[of pk] by (auto split: option.splits)
    then show "\<exists>e \<in> set ds. ekey e = pk \<and> entry_row lib (ts_schema st) e = row"
      using elookup_iff[OF ds] by (intro bexI[of _ "\<lparr>ekey = pk, evalue = v\<rparr>"]) auto
  qed (use view in auto)
  show "decodeRow lib (schema_columns (ts_schema st)) (evalue e) = Inr (entry_row lib (ts_schema st) e)" if "e \<in> set ds"
    using row(2)[of "ekey e" "evalue e"] look[of e] that by (cases e) simp
qed

lemma checkpoint_index_key:
  assumes "ts_base_ok lib st es" "ts_edits st = []" "ds = edited (row_edits (ts_pending st)) es"
    and "indexable (ts_schema st) idx (table_view lib st es)" "e \<in> set ds"
  shows "index_key (ts_schema st) idx (ekey e) (entry_row lib (ts_schema st) e) = Some (ekey (index_entry lib (ts_schema st) idx e))"
  using assms(4,5) checkpoint_entry(2)[OF assms(1-3), of "ekey e" "entry_row lib (ts_schema st) e"] by (auto simp: indexable_def index_entry_def)

lemma rebuilt_spec:
  assumes "ts_base_ok lib st es" "ts_edits st = []" "ds = edited (row_edits (ts_pending st)) es"
    and "indexable (ts_schema st) idx (table_view lib st es)" "keys_unique (ts_schema st) idx (table_view lib st es)"
  shows "distinct (map ekey (map (index_entry lib (ts_schema st) idx) ds))"
    and "keys_sorted (rebuilt lib (ts_schema st) ds idx)"
    and "elookup k (rebuilt lib (ts_schema st) ds idx) = Some pk \<longleftrightarrow>
      (\<exists>row. table_view lib st es pk = Some row \<and> index_key (ts_schema st) idx pk row = Some k)"
proof -
  let ?ie = "index_entry lib (ts_schema st) idx" and ?new = "rebuilt lib (ts_schema st) ds idx"
  note entry = checkpoint_entry[OF assms(1-3)] checkpoint_index_key[OF assms(1-4)]
  have same: "e = e'" if "e \<in> set ds" "e' \<in> set ds" "ekey (?ie e) = ekey (?ie e')" for e e'
  proof -
    have v: "table_view lib st es (ekey e) = Some (entry_row lib (ts_schema st) e)" if "e \<in> set ds" for e
      unfolding entry(2) using that by blast
    have "ekey e = ekey e'"
      by (rule assms(5)[unfolded keys_unique_def, rule_format, OF v[OF that(1)] v[OF that(2)] entry(4)[OF that(1)]])
        (simp add: entry(4)[OF that(2)] that(3))
    then show ?thesis
      using entry(1) that(1,2) by (auto simp: keys_sorted_def strict_sorted_iff distinct_map dest: inj_onD)
  qed
  have "distinct ds" using entry(1) by (auto simp: keys_sorted_def strict_sorted_iff distinct_map)
  then show d: "distinct (map ekey (map ?ie ds))" using same by (auto simp: distinct_map comp_def intro!: inj_onI)
  then have "distinct (map ekey ?new)" unfolding rebuilt_def by (metis distinct_map distinct_sort set_sort)
  then show sorted: "keys_sorted ?new" by (simp add: keys_sorted_def strict_sorted_iff rebuilt_def)
  have "elookup k ?new = Some pk \<longleftrightarrow> (\<exists>e \<in> set ds. ?ie e = \<lparr>ekey = k, evalue = pk\<rparr>)"
    unfolding elookup_iff[OF sorted] by (auto simp: rebuilt_def image_iff eq_commute[of "\<lparr>ekey = k, evalue = pk\<rparr>"])
  also have "\<dots> \<longleftrightarrow> (\<exists>e \<in> set ds. ekey e = pk \<and> index_key (ts_schema st) idx pk (entry_row lib (ts_schema st) e) = Some k)"
  proof (rule bex_cong[OF refl])
    fix e assume "e \<in> set ds"
    moreover have "evalue (?ie e) = ekey e" by (simp add: index_entry_def)
    ultimately show "?ie e = \<lparr>ekey = k, evalue = pk\<rparr> \<longleftrightarrow> ekey e = pk \<and> index_key (ts_schema st) idx pk (entry_row lib (ts_schema st) e) = Some k"
      using entry(4)[of e] by (cases "?ie e") auto
  qed
  also have "\<dots> \<longleftrightarrow> (\<exists>row. table_view lib st es pk = Some row \<and> index_key (ts_schema st) idx pk row = Some k)"
    unfolding entry(2) by auto
  finally show "elookup k ?new = Some pk \<longleftrightarrow> (\<exists>row. table_view lib st es pk = Some row \<and> index_key (ts_schema st) idx pk row = Some k)" .
qed

lemma del_put_keys:
  assumes "idx_Columns idx \<noteq> []"
    and "ed \<in> set (map del_entry (concat (map (row_dels schema idx B) rows)) @ map (\<lambda>(k, pk). put_entry k pk) (concat (map (row_puts schema idx B) rows)))"
  shows "edkey ed \<noteq> []"
  using assms(2)
  by (auto dest: index_key_nonempty[OF _ assms(1)] simp: row_dels_def row_puts_def old_key_def new_key_def del_entry_def put_entry_def bind_eq_Some_conv eq_commute[of "Some []"] split: option.splits if_splits)

text \<open>The edits of one index, ordered, turn its old entries into the rebuilt ones.\<close>

lemma ordered_edits_rebuild:
  assumes "ts_base_ok lib st es" "ts_edits st = []" "ds = edited (row_edits (ts_pending st)) es"
    and "index_persisted st idx" "index_base_ok lib st es ies idx" "keys_sorted (ies (idx_Name idx))" "idx_Columns idx \<noteq> []"
    and "rows = edit_list lib st" "B = base_row lib (ts_schema st) es"
    and "eds = map del_entry (concat (map (row_dels (ts_schema st) idx B) rows)) @
        map (\<lambda>(k, pk). put_entry k pk) (concat (map (row_puts (ts_schema st) idx B) rows))"
  shows "\<exists>out. orderIndexEdits eds = Inr out \<and> edits_check out = None \<and> edited out (ies (idx_Name idx)) = rebuilt lib (ts_schema st) ds idx"
proof -
  let ?schema = "ts_schema st" and ?old = "ies (idx_Name idx)" and ?new = "rebuilt lib (ts_schema st) ds idx"
  have view: "table_view lib st es = edited_rows B (map_of rows)" by (simp add: assms(8,9) edit_list_overlay table_view_edited)
  have dist: "distinct (map fst rows)" unfolding assms(8) by (rule edit_list_distinct[OF assms(1)])
  have ok: "indexable ?schema idx (table_view lib st es)" "keys_unique ?schema idx (table_view lib st es)"
      "index_matches ?schema idx B (\<lambda>k. elookup k ?old)"
    using assms(4,5) by (simp_all add: index_base_ok_def assms(9))
  have "filter (\<lambda>e. \<not> eddelete e) eds = map (\<lambda>(k, pk). put_entry k pk) (concat (map (row_puts ?schema idx B) rows))"
    unfolding assms(10) by (simp add: filter_map comp_def del_entry_def put_entry_def case_prod_beta)
  then have puts: "distinct (map edkey (filter (\<lambda>e. \<not> eddelete e) eds))"
    using row_puts_distinct[OF dist, of ?schema idx B] ok(2) view by (simp add: put_entry_def comp_def case_prod_beta)
  obtain out where out: "orderIndexEdits eds = Inr out" "edits_sorted out" "set out \<subseteq> set eds"
      "index_effect out (\<lambda>k. elookup k ?old) = index_effect eds (\<lambda>k. elookup k ?old)"
    using orderIndexEdits_spec[OF puts, of "\<lambda>k. elookup k ?old"] by blast
  have "edkey ed \<noteq> []" if "ed \<in> set out" for ed using del_put_keys[OF assms(7)] out(3) that unfolding assms(10) by blast
  then have "edits_check out = None" using out(2) by (simp add: edits_check_sorted)
  moreover have "edited out ?old = ?new"
  proof (rule sorted_lookup_unique[OF keys_sorted_edited[OF assms(6) out(2)] rebuilt_spec(2)[OF assms(1-3) ok(1,2)]])
    fix k
    have "index_matches ?schema idx (table_view lib st es) (index_effect eds (\<lambda>k. elookup k ?old))"
      using derived_edits_match[OF dist refl ok(3)] ok(2) unfolding view assms(10) by simp
    then have "elookup k (edited out ?old) = Some pk \<longleftrightarrow> elookup k ?new = Some pk" for pk
      unfolding edited_lookup[OF assms(6) out(2)] out(4) rebuilt_spec(3)[OF assms(1-3) ok(1,2)] by (simp add: index_matches_def)
    then show "elookup k (edited out ?old) = elookup k ?new" by (metis not_None_eq)
  qed
  ultimately show ?thesis using out(1) by blast
qed

text \<open>What an index needs: columns, a stored canonical tree that agrees with the base rows, and new entries that fit in nodes.\<close>

definition index_tree_ok ::
  "(bytes \<Rightarrow> bytes) \<Rightarrow> sqllib \<Rightarrow> tableState \<Rightarrow> entry list \<Rightarrow> (bytes \<Rightarrow> entry list) \<Rightarrow> entry list \<Rightarrow> indexDisk \<Rightarrow> bool" where
  "index_tree_ok H lib st es ies ds idx \<longleftrightarrow>
     idx_Columns idx \<noteq> [] \<and> index_base_ok lib st es ies idx \<and>
     map_of (Indexes (ts_manifest st)) (idx_Name idx) = Some (proot H (canon DefaultOptions (ies (idx_Name idx)))) \<and>
     pstored (ts_store st) H (canon DefaultOptions (ies (idx_Name idx))) \<and> entries_ok (ies (idx_Name idx)) \<and>
     list_all (entry_ok \<circ> index_entry lib (ts_schema st) idx) ds"

definition state_delta :: "tableState \<Rightarrow> indexDelta" where
  "state_delta st = \<lparr>id_get = ts_store st, id_base = ts_manifest st, id_data = DataRoot (ts_manifest st), id_edits = ts_pending st\<rparr>"

context content_store
begin

lemma applyIndexEdits_rebuilds:
  assumes "inv s" "ts_base_ok lib st es" "ts_edits st = []" "hash_Valid (DataRoot (ts_manifest st))"
    and "distinct (map idx_Name idxs)" "\<forall>idx \<in> set idxs. index_tree_ok H lib st es ies ds idx"
    and "ds = edited (row_edits (ts_pending st)) es" "ds \<noteq> []" "length ds < 2 ^ 64"
    and "pvalid t" "pstored (get s) H t" "pentries t = ds"
  shows "\<exists>s'. applyIndexEdits lib get put (ts_schema st) idxs (proot H t) (state_delta st) s =
    Some (Inr (Some (index_roots H (rebuilt lib (ts_schema st) ds) idxs []), s'))"
proof -
  let ?rows = "edit_list lib st" and ?B = "base_row lib (ts_schema st) es"
  have persisted: "index_persisted st idx" if "idx \<in> set idxs" for idx
    using assms(6) that by (auto simp: index_tree_ok_def index_persisted_def proot_def hash_Valid_Sum)
  have ok: "\<forall>idx \<in> set idxs. index_persisted st idx \<and> index_base_ok lib st es ies idx"
    using persisted assms(6) by (simp add: index_tree_ok_def)
  obtain derived where derived:
      "deriveIndexEdits lib (ts_store st) (ts_schema st) idxs (Some (DataRoot (ts_manifest st))) ?rows = Some (Inr derived)"
      "\<forall>idx \<in> set idxs. edits_for derived (idx_Name idx) = map del_entry (concat (map (row_dels (ts_schema st) idx ?B) ?rows)) @
        map (\<lambda>(k, pk). put_entry k pk) (concat (map (row_puts (ts_schema st) idx ?B) ?rows))"
    using deriveIndexEdits_spec[OF assms(2,5) ok edit_list_overlay edit_list_distinct[OF assms(2)] refl refl] assms(4) by auto
  have "\<forall>idx \<in> set idxs. \<exists>eds. orderIndexEdits (edits_for derived (idx_Name idx)) = Inr eds \<and> edits_check eds = None
      \<and> index_or_empty (Indexes (ts_manifest st)) (idx_Name idx) = proot H (canon DefaultOptions (ies (idx_Name idx)))
      \<and> pstored (ts_store st) H (canon DefaultOptions (ies (idx_Name idx))) \<and> entries_ok (ies (idx_Name idx))
      \<and> edited eds (ies (idx_Name idx)) = rebuilt lib (ts_schema st) ds idx \<and> entries_ok (rebuilt lib (ts_schema st) ds idx)
      \<and> rebuilt lib (ts_schema st) ds idx \<noteq> []"
  proof
    fix idx assume idx: "idx \<in> set idxs"
    then have i: "index_tree_ok H lib st es ies ds idx" using assms(6) by blast
    then have b: "index_base_ok lib st es ies idx" "keys_sorted (ies (idx_Name idx))" "idx_Columns idx \<noteq> []"
      by (simp_all add: index_tree_ok_def entries_ok_def)
    obtain eds where eds: "orderIndexEdits (edits_for derived (idx_Name idx)) = Inr eds" "edits_check eds = None"
        "edited eds (ies (idx_Name idx)) = rebuilt lib (ts_schema st) ds idx"
      using ordered_edits_rebuild[OF assms(2,3,7) persisted[OF idx] b refl refl refl] derived(2) idx by auto
    have "keys_sorted (rebuilt lib (ts_schema st) ds idx)"
      using b(1) by (intro rebuilt_spec(2)[OF assms(2,3,7)]) (simp_all add: index_base_ok_def)
    moreover have "length (rebuilt lib (ts_schema st) ds idx) = length ds" by (simp add: rebuilt_def)
    moreover have "list_all entry_ok (rebuilt lib (ts_schema st) ds idx)" using i by (simp add: rebuilt_def index_tree_ok_def list_all_iff)
    ultimately have "entries_ok (rebuilt lib (ts_schema st) ds idx)" "rebuilt lib (ts_schema st) ds idx \<noteq> []"
      using assms(8,9) by (auto simp: entries_ok_def)
    then show "\<exists>eds. orderIndexEdits (edits_for derived (idx_Name idx)) = Inr eds \<and> edits_check eds = None
      \<and> index_or_empty (Indexes (ts_manifest st)) (idx_Name idx) = proot H (canon DefaultOptions (ies (idx_Name idx)))
      \<and> pstored (ts_store st) H (canon DefaultOptions (ies (idx_Name idx))) \<and> entries_ok (ies (idx_Name idx))
      \<and> edited eds (ies (idx_Name idx)) = rebuilt lib (ts_schema st) ds idx \<and> entries_ok (rebuilt lib (ts_schema st) ds idx)
      \<and> rebuilt lib (ts_schema st) ds idx \<noteq> []"
      using eds i by (intro exI[of _ eds]) (simp add: index_tree_ok_def index_or_empty_def)
  qed
  from apply_indexes_canon[OF assms(1) this, of "[]"] obtain s' where
    "apply_indexes (ts_store st) put (ts_manifest st) derived idxs [] s = Some (Inr (index_roots H (rebuilt lib (ts_schema st) ds) idxs [], s'))" by blast
  moreover have "of_nat (length ds) \<noteq> (0 :: uint64)"
    using assms(8,9) by (simp add: word_of_nat_eq_0_iff) (metis dvd_imp_le length_greater_0_conv not_le)
  moreover have "tree_Count (get s) (proot H t) = Inr (of_nat (length ds))" using tree_Count_pstored[OF assms(10,11)] assms(12) by simp
  ultimately show ?thesis
    using keyed_rows_spec[OF assms(2,3)] derived(1) by (simp add: applyIndexEdits_def state_delta_def)
qed

lemma rebuildIndexesFromTree_rebuilds:
  assumes "inv s" "ts_base_ok lib st es" "ts_edits st = []"
    and "distinct (map idx_Name idxs)" "\<forall>idx \<in> set idxs. index_tree_ok H lib st es ies ds idx"
    and "ds = edited (row_edits (ts_pending st)) es" "ds \<noteq> []" "length ds < 2 ^ 64"
    and "pvalid t" "pstored (get s) H t" "pentries t = ds"
  shows "\<exists>s'. rebuildIndexesFromTree lib get put (ts_schema st) idxs (proot H t) s =
    Some (Inr (Some (index_roots H (rebuilt lib (ts_schema st) ds) idxs []), s'))"
proof -
  let ?m = "\<lambda>idx. map (index_entry lib (ts_schema st) idx) ds"
  have i: "index_tree_ok H lib st es ies ds idx" "indexable (ts_schema st) idx (table_view lib st es)"
      "keys_unique (ts_schema st) idx (table_view lib st es)" if "idx \<in> set idxs" for idx
    using assms(5) that by (simp_all add: index_tree_ok_def index_base_ok_def)
  have "\<forall>e \<in> set ds. decodeRow lib (schema_columns (ts_schema st)) (evalue e) = Inr (entry_row lib (ts_schema st) e)
      \<and> (\<forall>idx \<in> set idxs. index_key (ts_schema st) idx (ekey e) (entry_row lib (ts_schema st) e) \<noteq> None)"
    using checkpoint_entry(3)[OF assms(2,3,6)] checkpoint_index_key[OF assms(2,3,6) i(2)] by simp
  from index_entries_spec[OF this, of "[]"] obtain m where m: "index_entries lib (ts_schema st) idxs ds [] = Inr m"
      "\<forall>n. entries_at m n = concat (map (\<lambda>e. per_name idxs (\<lambda>idx. [index_entry lib (ts_schema st) idx e]) n) ds)"
    by (auto simp: entries_at_def)
  have at: "entries_at m (idx_Name idx) = ?m idx" if "idx \<in> set idxs" for idx
    unfolding m(2)[rule_format] per_name_idx[OF assms(4) that] by (rule concat_map_singleton)
  have "\<forall>idx \<in> set idxs. distinct (map ekey (entries_at m (idx_Name idx))) \<and> list_all entry_ok (entries_at m (idx_Name idx))
      \<and> length (entries_at m (idx_Name idx)) < 2 ^ 64 \<and> sort_key ekey (entries_at m (idx_Name idx)) = rebuilt lib (ts_schema st) ds idx"
  proof
    fix idx assume idx: "idx \<in> set idxs"
    show "distinct (map ekey (entries_at m (idx_Name idx))) \<and> list_all entry_ok (entries_at m (idx_Name idx))
      \<and> length (entries_at m (idx_Name idx)) < 2 ^ 64 \<and> sort_key ekey (entries_at m (idx_Name idx)) = rebuilt lib (ts_schema st) ds idx"
      unfolding at[OF idx] using i(1)[OF idx] rebuilt_spec(1)[OF assms(2,3,6) i(2,3)[OF idx]] assms(8)
      by (simp add: rebuilt_def index_tree_ok_def list_all_iff)
  qed
  from build_indexes_canon[OF assms(1) this, of "[]"] m(1) show ?thesis
    using tree_Entries_pstored[OF assms(9,10)] assms(7,11) by (cases ds) (auto simp: rebuildIndexesFromTree_def simp del: index_entries.simps)
qed

end

end
