(* ===== verification/Checkpoint_Properties.thy ===== *)
theory Checkpoint_Properties
  imports Checkpoint_Inventory Checkpoint_Correct Merge_Correct Table_Properties
begin

text \<open>
  Properties of the engine's checkpoint, with a table of one row whose unique value moves to a new row,
  for the witnesses.
\<close>

section \<open>A small table\<close>

definition c_row :: "byte \<Rightarrow> entry" where
  "c_row i = \<lparr>ekey = [128, 0, 0, 0, 0, 0, 0, i], evalue = [2, 0, 2 * i, 1, 0x7A]\<rparr>"

definition c_entry :: "byte \<Rightarrow> entry" where
  "c_entry i = \<lparr>ekey = [1, 0x7A, 0, 1], evalue = [128, 0, 0, 0, 0, 0, 0, i]\<rparr>"

definition c_objects :: "(hash, bytes) gomap" where
  "c_objects = map (\<lambda>e. (proot pad32 (PLeaf [e]), pdata pad32 (PLeaf [e]))) [c_row 1, c_entry 1]"

definition c_get :: "hash \<Rightarrow> error + bytes" where
  "c_get h = (case map_of c_objects h of None \<Rightarrow> Inl StoreNotFound | Some d \<Rightarrow> Inr d)"

definition c_table :: Table where
  "c_table = \<lparr>SchemaRoot = storage_Sum pad32 [0x73], DataRoot = proot pad32 (PLeaf [c_row 1]), Indexes = [([0x75], proot pad32 (PLeaf [c_entry 1]))]\<rparr>"

definition c_pending :: PendingRows where
  "c_pending = \<lparr>pruns = [[\<lparr>re_key = ekey (c_row 1), re_value = [], re_delete = True, re_generation = 1\<rparr>,
     \<lparr>re_key = ekey (c_row 2), re_value = evalue (c_row 2), re_delete = False, re_generation = 1\<rparr>]]\<rparr>"

definition c_state :: tableState where
  "c_state = \<lparr>ts_schema = w_pk, ts_indexes = [w_index], ts_idxEdits = None, ts_rows = None, ts_manifest = c_table, ts_store = c_get,
     ts_pending = c_pending, ts_edits = [], ts_dirty = False\<rparr>"

text \<open>The writer of the checkpoint holds the new data tree.\<close>

definition c_writer :: Writer where
  "c_writer = \<lparr>w_repo = 0, w_base = None, w_expected = [], w_objects = [(proot pad32 (PLeaf [c_row 2]), pdata pad32 (PLeaf [c_row 2]))],
     w_objectOIDs = [], w_retained = None, w_parents = [], w_committed = False, w_workingLockHeld = False\<rparr>"

definition c_git :: gitReader where "c_git = (\<lambda>_. Inl StoreNotFound)"

lemma canon_single: "canon DefaultOptions [e] = PLeaf [e]"
  by (simp add: canon_def chunkEntries_def chunk_def shouldCut_def DefaultOptions_def Let_def ptree_levels_single)

lemma c_bounds: "entry_ok (c_row i)" "entry_ok (c_entry i)"
  by (simp_all add: entry_ok_def c_row_def c_entry_def)

lemma leaf_content:
  assumes "get (proot pad32 (PLeaf [e])) = Inr (pdata pad32 (PLeaf [e]))" "entry_ok e" "length (pdata pad32 (PLeaf [e])) < 2 ^ 32"
  shows "pvalid (PLeaf [e])" "pstored get pad32 (PLeaf [e])" "tree_content get (proot pad32 (PLeaf [e])) [e]" "hash_Valid (proot pad32 (PLeaf [e]))"
proof -
  show v: "pvalid (PLeaf [e])" using assms(2) by (simp add: pvalid_def keys_sorted_def)
  show s: "pstored get pad32 (PLeaf [e])" using assms(1) by (simp add: pstored_def pobjects_PLeaf proot_def)
  show h: "hash_Valid (proot pad32 (PLeaf [e]))" by (simp add: proot_def pad.hash_Valid_Sum)
  have "digest32 pad32 \<and> pvalid (PLeaf [e]) \<and> pstored get pad32 (PLeaf [e]) \<and> small_nodes pad32 (PLeaf [e])
      \<and> proot pad32 (PLeaf [e]) = proot pad32 (PLeaf [e]) \<and> [e] = pentries (PLeaf [e])"
    using v s assms(3) pad.digest32_axioms by (simp add: small_nodes_def pobjects_PLeaf)
  then show "tree_content get (proot pad32 (PLeaf [e])) [e]" using h unfolding tree_content_def by (simp only: if_True) blast
qed

lemma c_stored:
  "c_get (proot pad32 (PLeaf [c_row 1])) = Inr (pdata pad32 (PLeaf [c_row 1]))"
  "c_get (proot pad32 (PLeaf [c_entry 1])) = Inr (pdata pad32 (PLeaf [c_entry 1]))"
  "writer_Get pad32 c_git c_writer (proot pad32 (PLeaf [c_row 2])) = Inr (pdata pad32 (PLeaf [c_row 2]))"
  by code_simp+

lemma c_small:
  "length (pdata pad32 (PLeaf [c_row 1])) < 2 ^ 32" "length (pdata pad32 (PLeaf [c_entry 1])) < 2 ^ 32" "length (pdata pad32 (PLeaf [c_row 2])) < 2 ^ 32"
proof -
  have "list_all (\<lambda>e. length (pdata pad32 (PLeaf [e])) < 64) [c_row 1, c_entry 1, c_row 2]" by code_simp
  then show "length (pdata pad32 (PLeaf [c_row 1])) < 2 ^ 32" "length (pdata pad32 (PLeaf [c_entry 1])) < 2 ^ 32" "length (pdata pad32 (PLeaf [c_row 2])) < 2 ^ 32"
    by simp_all
qed

lemmas c_trees = leaf_content[of c_get "c_row 1", OF c_stored(1) c_bounds(1) c_small(1)]
  leaf_content[of c_get "c_entry 1", OF c_stored(2) c_bounds(2) c_small(2)]
  leaf_content[of "writer_Get pad32 c_git c_writer" "c_row 2", OF c_stored(3) c_bounds(1) c_small(3)]

lemma c_decode:
  "decodeRow w_lib w_columns (evalue (c_row 1)) = Inr (w_row 1 [0x7A])" "decodeRow w_lib w_columns (evalue (c_row 2)) = Inr (w_row 2 [0x7A])"
  by code_simp+

lemma c_edits: "edited (row_edits c_pending) [c_row 1] = [c_row 2]"
  by code_simp

lemma c_keys:
  "encodeKey w_pk (w_row 1 [0x7A]) = Inr (ekey (c_row 1))" "index_key w_pk w_index (ekey (c_row 1)) (w_row 1 [0x7A]) = Some (ekey (c_entry i))"
  "index_key w_pk w_index (ekey (c_row 2)) (w_row 2 [0x7A]) = Some (ekey (c_entry i))"
  using w_keys w_index_key by (simp_all add: c_row_def c_entry_def w_k1_def)

lemma c_fields:
  "ts_schema c_state = w_pk" "ts_manifest c_state = c_table" "ts_store c_state = c_get" "ts_pending c_state = c_pending" "ts_edits c_state = []"
  "schema_columns w_pk = w_columns" "idx_Name w_index = [0x75]" "idx_Columns w_index = [1]"
  by (simp_all add: c_state_def w_pk_def w_index_def)

lemma c_base: "ts_base_ok w_lib c_state [c_row 1]"
proof -
  have "entry_row_ok w_lib w_pk (c_row 1)" using c_decode(1) c_keys(1) by (simp add: entry_row_ok_def c_fields)
  moreover have "pending_ok c_pending" by code_simp
  moreover have "pending_list (pruns c_pending) = hd (pruns c_pending)" by code_simp
  then have "list_all (\<lambda>p. decodePending w_lib c_state p = Inr (pending_edit w_lib c_state p)) (pending_list (pruns c_pending))"
    using c_decode(2) by (simp add: c_pending_def decodePending_def pending_edit_def c_fields)
  ultimately show ?thesis using c_trees(3) by (simp add: ts_base_ok_def c_fields) (simp add: c_table_def)
qed

lemma c_view:
  "base_row w_lib w_pk [c_row 1] = [ekey (c_row 1) \<mapsto> w_row 1 [0x7A]]" "table_view w_lib c_state [c_row 1] = [ekey (c_row 2) \<mapsto> w_row 2 [0x7A]]"
proof -
  show "base_row w_lib w_pk [c_row 1] = [ekey (c_row 1) \<mapsto> w_row 1 [0x7A]]"
    using c_decode(1) by (auto simp: fun_eq_iff base_row_def elookup_Cons elookup_def c_fields)
  have sorted: "keys_sorted [c_row 1]" by (simp add: keys_sorted_def)
  show "table_view w_lib c_state [c_row 1] = [ekey (c_row 2) \<mapsto> w_row 2 [0x7A]]"
  proof
    fix k
    have "table_view w_lib c_state [c_row 1] k = (case elookup k [c_row 2] of None \<Rightarrow> None
        | Some v \<Rightarrow> Some (entry_row w_lib w_pk \<lparr>ekey = k, evalue = v\<rparr>))"
      using checkpoint_row(1)[OF c_base c_fields(5) sorted, of k] unfolding c_fields c_edits .
    then show "table_view w_lib c_state [c_row 1] k = [ekey (c_row 2) \<mapsto> w_row 2 [0x7A]] k"
      using c_decode(2) by (simp add: elookup_Cons elookup_def entry_row_def c_fields)
  qed
qed

lemma c_index: "index_tree_ok pad32 w_lib c_state [c_row 1] (\<lambda>_. [c_entry 1]) [c_row 2] w_index"
proof -
  have "index_content c_state [0x75] [c_entry 1]" using c_trees(7) by (simp add: index_content_def c_fields c_table_def)
  moreover have "index_matches w_pk w_index [ekey (c_row 1) \<mapsto> w_row 1 [0x7A]] (\<lambda>k. elookup k [c_entry 1])"
    using c_keys(2)[of 1] by (auto simp: index_matches_def elookup_Cons elookup_def split: if_splits) (simp_all add: c_row_def c_entry_def)
  ultimately have "index_base_ok w_lib c_state [c_row 1] (\<lambda>_. [c_entry 1]) w_index"
    using c_keys(2,3)[of 1] by (auto simp: index_base_ok_def c_fields c_view indexable_def keys_unique_def split: if_splits)
  moreover have "index_entry w_lib w_pk w_index (c_row 2) = c_entry 2" by code_simp
  then have "entry_ok (index_entry w_lib w_pk w_index (c_row 2))" using c_bounds by simp
  moreover have "entries_ok [c_entry 1]" using c_bounds by (simp add: entries_ok_def keys_sorted_def)
  ultimately show ?thesis using c_trees(6) by (simp add: index_tree_ok_def canon_single c_fields) (simp add: c_table_def)
qed

section \<open>Index trees\<close>

text \<open>
  C39. A checkpoint does not read a whole table to bring its indexes up to date: it applies to the old index
  trees the changes that the pending rows imply. This gives the trees that building the indexes from all rows
  of the new data tree gives, and both ways run to their end. The old trees have to be canonical and to agree
  with the old rows, and the new rows must not hold a unique value twice; a value may move from one row to
  another.
\<close>

theorem applyIndexEdits_rebuilds_indexes:
  assumes "digest32 H" "writer_inv H readGit w" "ts_base_ok lib st es" "ts_edits st = []" "hash_Valid (DataRoot (ts_manifest st))"
    and "ds = edited (row_edits (ts_pending st)) es" "ds \<noteq> []" "length ds < 2 ^ 64"
    and "distinct (map idx_Name idxs)" "\<forall>idx \<in> set idxs. index_tree_ok H lib st es ies ds idx"
    and "pvalid t" "pstored (writer_Get H readGit w) H t" "pentries t = ds"
  shows "\<exists>roots w1 w2. roots = index_roots H (rebuilt lib (ts_schema st) ds) idxs []
    \<and> applyIndexEdits lib (writer_Get H readGit) (writer_Put H) (ts_schema st) idxs (proot H t) (state_delta st) w = Some (Inr (Some roots, w1))
    \<and> rebuildIndexesFromTree lib (writer_Get H readGit) (writer_Put H) (ts_schema st) idxs (proot H t) w = Some (Inr (Some roots, w2))"
  using content_store.applyIndexEdits_rebuilds[OF digest32.writer_store[OF assms(1)] assms(2-5,9,10,6-8,11-13)]
    content_store.rebuildIndexesFromTree_rebuilds[OF digest32.writer_store[OF assms(1)] assms(2-4,9,10,6-8,11-13)]
  by blast

theorem applyIndexEdits_rebuilds_indexes_witness:
  "\<exists>w1 w2. applyIndexEdits w_lib (writer_Get pad32 c_git) (writer_Put pad32) w_pk [w_index] (proot pad32 (PLeaf [c_row 2])) (state_delta c_state) c_writer =
      Some (Inr (Some [([0x75], proot pad32 (PLeaf [c_entry 2]))], w1))
    \<and> rebuildIndexesFromTree w_lib (writer_Get pad32 c_git) (writer_Put pad32) w_pk [w_index] (proot pad32 (PLeaf [c_row 2])) c_writer =
      Some (Inr (Some [([0x75], proot pad32 (PLeaf [c_entry 2]))], w2))"
proof -
  have inv: "writer_inv pad32 c_git c_writer" by (simp add: writer_inv_def objects_named_def c_writer_def proot_def)
  have valid: "hash_Valid (DataRoot (ts_manifest c_state))" using c_trees(4) by (simp add: c_fields c_table_def)
  have ds: "[c_row 2] = edited (row_edits (ts_pending c_state)) [c_row 1]" by (simp add: c_fields c_edits)
  have "rebuilt w_lib w_pk [c_row 2] w_index = [c_entry 2]" by code_simp
  then have roots: "index_roots pad32 (rebuilt w_lib w_pk [c_row 2]) [w_index] [] = [([0x75], proot pad32 (PLeaf [c_entry 2]))]"
    by (simp add: index_roots_def canon_single c_fields)
  show ?thesis
    using applyIndexEdits_rebuilds_indexes[OF pad.digest32_axioms inv c_base c_fields(5) valid ds, of "[w_index]" "\<lambda>_. [c_entry 1]" "PLeaf [c_row 2]"]
      c_index c_trees(9,10) unfolding c_fields(1) roots by simp
qed

section \<open>The inventory\<close>

text \<open>A snapshot with an indexed table \<open>t\<close> and an empty table \<open>u\<close> without indexes, and a pending row of \<open>u\<close>.\<close>

definition c_plain :: Table where
  "c_plain = \<lparr>SchemaRoot = storage_Sum pad32 [0x70], DataRoot = [], Indexes = []\<rparr>"

definition c_snapshot :: Snapshot where
  "c_snapshot =
     (let objects = c_objects @ map (\<lambda>d. (storage_Sum pad32 d, d)) [[0x73], [0x70]]
      in \<lparr>sn_repo = 0, sn_Commit = [], sn_generation = 0,
          sn_Manifest = \<lparr>mf_FormatVersion = 6, mf_DefaultDatabase = [0x64], mf_Tables = Some [([0x74], c_table), ([0x75], c_plain)], mf_Objects = map fst objects\<rparr>,
          sn_objectSet = map fst objects, sn_objectOIDs = [], sn_cache = objects, sn_pendingEdits = None\<rparr>)"

definition c_decode_schema :: schemaDecoder where
  "c_decode_schema d = Inr (w_pk, if d = [0x73] then [w_index] else [])"

definition c_edits_u :: PendingRows where
  "c_edits_u = \<lparr>pruns = [[\<lparr>re_key = ekey (c_row 2), re_value = evalue (c_row 2), re_delete = False, re_generation = 1\<rparr>]]\<rparr>"

text \<open>
  C40. The inventory of a checkpoint, for any working state with pending edits and any base. Every table keeps
  its name and schema, and a table without pending edits whose schema is that of the base stays as it is. The
  objects the new snapshot retains are exactly the following, all trees of which the writer holds in full: of a
  table that was written, its schema and every node of its data tree and of all its index trees; of a table that
  was not, what the cache of validated tables recorded, and when it recorded nothing, its schema and the nodes of
  its data tree alone. So the index trees of such a table are lost unless another table lists them, although the
  manifest still names them.
\<close>

theorem checkpoint_inventory:
  assumes "digest32 H" "snapshotCommit (sn_Commit snapshot) = Inr bs" "snapshot_sound H readGit bs" "vcache_ok cache"
    and "distinct (map fst (mf_tables (sn_Manifest snapshot)))"
    and "prepare_checkpoint H readGit lib decode identity snapshotCommit repo cache snapshot pending = Some (Inr ((w, m), cache'))"
  shows "list_all2 (carried pending bs) (mf_tables (sn_Manifest snapshot)) (mf_tables m)
    \<and> set (available_objects w) = (\<Union>nt \<in> set (mf_tables m). table_inventory identity cache pending bs (writer_Get H readGit w) nt)
    \<and> (\<forall>nt \<in> set (mf_tables m). trees_read (writer_Get H readGit w) (inventory_trees identity cache pending bs nt))"
  using digest32.prepare_checkpoint_inventory[OF assms(1,6,2,3,4,5)] by blast

theorem checkpoint_inventory_witness:
  "\<exists>w m cache t r. prepare_checkpoint pad32 c_git w_lib c_decode_schema (\<lambda>_. []) (\<lambda>_. Inr c_snapshot) 0 newValidationCache c_snapshot [([0x75], c_edits_u)] =
      Some (Inr ((w, m), cache))
    \<and> map_of (mf_tables m) [0x74] = Some t \<and> map_of (Indexes t) [0x75] = Some r \<and> \<not> isl (snapshot_read pad32 c_git c_snapshot r)
    \<and> insert (SchemaRoot t) (nodes_of (writer_Get pad32 c_git w) (DataRoot t)) \<subseteq> set (available_objects w) \<and> r \<notin> set (available_objects w)"
proof -
  let ?run = "prepare_checkpoint pad32 c_git w_lib c_decode_schema (\<lambda>_. []) (\<lambda>_. Inr c_snapshot) 0 newValidationCache c_snapshot [([0x75], c_edits_u)]"
  have "case ?run of Some (Inr ((w, m), cache)) \<Rightarrow> (case map_of (mf_tables m) [0x74] of None \<Rightarrow> False | Some t \<Rightarrow>
      (case map_of (Indexes t) [0x75] of Some r \<Rightarrow> \<not> isl (snapshot_read pad32 c_git c_snapshot r) \<and> r \<notin> set (available_objects w) | None \<Rightarrow> False))
    | _ \<Rightarrow> False" by code_simp
  then obtain w m cache t r where run: "?run = Some (Inr ((w, m), cache))" and t: "map_of (mf_tables m) [0x74] = Some t" "map_of (Indexes t) [0x75] = Some r"
      "\<not> isl (snapshot_read pad32 c_git c_snapshot r)" "r \<notin> set (available_objects w)"
    by (auto split: option.splits sum.splits prod.splits)
  have "list_all (\<lambda>(h, d). h = storage_Sum pad32 d) (sn_cache c_snapshot)"
      "list_all (\<lambda>h. \<not> isl (snapshot_read pad32 c_git c_snapshot h)) (sn_objectSet c_snapshot)" by code_simp+
  then have "snapshot_sound pad32 c_git c_snapshot"
    by (auto simp: snapshot_sound_def cache_named_def list_all_iff dest: map_of_SomeD)
  moreover have "vcache_ok newValidationCache" by (simp add: vcache_ok_def cache_counts_def over_limit_def newValidationCache_def)
  moreover have "distinct (map fst (mf_tables (sn_Manifest c_snapshot)))" by code_simp
  ultimately have inv: "list_all2 (carried [([0x75], c_edits_u)] c_snapshot) (mf_tables (sn_Manifest c_snapshot)) (mf_tables m)"
      "set (available_objects w) = (\<Union>nt \<in> set (mf_tables m). table_inventory (\<lambda>_. []) newValidationCache [([0x75], c_edits_u)] c_snapshot (writer_Get pad32 c_git w) nt)"
    using checkpoint_inventory[OF pad.digest32_axioms _ _ _ _ run, of c_snapshot] by auto
  have "untouched [([0x75], c_edits_u)] c_snapshot [0x74] c_table" by code_simp
  then have "t = c_table"
    using inv(1) t(1) by (auto simp: c_snapshot_def Let_def mf_tables_def carried_def list_all2_Cons1 split: if_splits)
  moreover have "cached_objects (\<lambda>_. []) newValidationCache c_snapshot [0x74] = None" by code_simp
  ultimately have "table_inventory (\<lambda>_. []) newValidationCache [([0x75], c_edits_u)] c_snapshot (writer_Get pad32 c_git w) ([0x74], t) =
      insert (SchemaRoot t) (nodes_of (writer_Get pad32 c_git w) (DataRoot t))"
    using \<open>untouched [([0x75], c_edits_u)] c_snapshot [0x74] c_table\<close> by (simp add: table_inventory_def)
  then have "insert (SchemaRoot t) (nodes_of (writer_Get pad32 c_git w) (DataRoot t)) \<subseteq> set (available_objects w)"
    using inv(2) map_of_SomeD[OF t(1)] by blast
  then show ?thesis using run t by blast
qed

end
