(* ===== verification/Spec2Isabelle.thy ===== *)
theory Spec2Isabelle
  imports Prolly_Diverge Prolly_Forged Sorted_Builder Table_Properties Repository_Properties Journal_Properties Publication_Properties
    Merge_Properties Checkpoint_Properties
begin

text \<open>
  A verification of RepoDB, an SQL database that keeps its tables in a Git repository.

  \<^bold>\<open>The program.\<close> A table is a schema, a tree of rows and one tree per secondary index. Trees are Prolly
  trees: content-addressed search trees whose nodes are cut by a hash of the keys, so that equal contents
  give equal trees. A snapshot is a Git commit with a manifest (the tables and their roots) and the inventory
  of all objects. SQL transactions edit rows through an editor; their edits are appended to a journal
  beside the repository and kept as pending rows over the last snapshot; a checkpoint applies them to the
  trees and publishes a new commit; two histories are merged row by row. The Go code is in three layers:
  \<open>common/storage\<close> and \<open>common/prolly\<close> (objects and trees), \<open>common/repository\<close> (snapshots, journal,
  publication) and \<open>engine\<close> (codecs, table states, merges, and the glue to go-mysql-server).

  \<^bold>\<open>Shared theories.\<close> \<open>Repo_Prelude\<close> has the error type, the collections of facts, \<open>sort.Search\<close> and the lemmas
  the components share; \<open>Go_Binary\<close> the varints and fixed-width integers of \<open>encoding/binary\<close>; \<open>Sha256\<close> the
  digest; \<open>Sql_Values\<close> the SQL values and column types, with IEEE-754 conversions on bits.

  \<^bold>\<open>Objects and trees\<close> (\<open>common/storage\<close>, \<open>common/prolly\<close>).
  \<^item> \<open>Content_Store\<close>: \<open>Sum\<close>, \<open>Hash.Valid\<close>, the \<open>Store\<close> interface as the locale \<open>content_store\<close>, \<open>storage.Memory\<close> as
    an interpretation. \<open>Snapshot_Store\<close> interprets the same locale on snapshot writers.
  \<^item> \<open>Node_Codec\<close>, \<open>Node_Search\<close>: \<open>codec.go\<close> and \<open>offsets.go\<close>; decoding inverts encoding (C9), the offset cache
    does not change what a search finds.
  \<^item> \<open>Chunking\<close>, \<open>Prolly_Tree\<close>, \<open>Prolly_Build\<close>: options, boundary hashes, \<open>Build\<close>; the type \<open>ptree\<close> of abstract trees,
    \<open>canon\<close>, the canonical tree of a list of entries, and \<open>pstored\<close>, a tree held by a store. \<open>Build\<close> stores the
    canonical tree (C1); for options \<open>validate\<close> accepts it may run forever (C10, \<open>Prolly_Diverge\<close>).
  \<^item> \<open>Prolly_Apply\<close>, \<open>Apply_Correct\<close>: \<open>Apply\<close> rewrites the leaves its edits touch and yields the canonical tree of
    the edited entries (C2), and panics when it deletes every entry (C3). \<open>Sorted_Builder\<close>: the streaming
    builder gives the same tree (C4). \<open>Put_Closure\<close>, \<open>Apply_Closure\<close>: builders and updates change a store by \<open>Put\<close> alone.
  \<^item> \<open>Prolly_Get\<close>, \<open>Prolly_Iter\<close>, \<open>Prolly_Reverse\<close>, \<open>Prolly_Validate\<close>: \<open>Get\<close>, \<open>Count\<close>, the iterators, and the
    validating walk behind \<open>Validate\<close>, \<open>Reachable\<close> and \<open>Entries\<close> (C5 to C8, C11). \<open>Tree_Nodes\<close>: the nodes below a root of
    any store as an inductive set, which a successful \<open>Reachable\<close> lists exactly. \<open>Prolly_Forged\<close>: roots whose links claim wrong
    maximal keys pass the walk, although \<open>Get\<close> then misses keys (C12).

  \<^bold>\<open>The engine\<close> (\<open>engine\<close>).
  \<^item> \<open>Key_Codec\<close>, \<open>Key_Order\<close>, \<open>Key_Ranges\<close>: \<open>keycodec.go\<close>, \<open>ranges.go\<close> and the key encoders of \<open>catalog.go\<close>. Byte order of
    keys is SQL order (locale \<open>key_columns\<close>, interpreted on primary-key and index columns), prefixes are
    bounded, and ranges select exactly the rows in them (C13 to C16).
  \<^item> \<open>Row_Codec\<close>, \<open>Row_Roundtrip\<close>, \<open>Row_Project\<close>: \<open>rowcodec.go\<close>; round trip and projections (C17, C18).
  \<^item> \<open>Table_State\<close>, \<open>Table_View\<close>, \<open>Table_Index\<close>, \<open>Table_Editor\<close>, \<open>Editor_Correct\<close>, \<open>Editor_Undo\<close>: \<open>tableState\<close>, \<open>indexOverlay\<close> and
    \<open>editor\<close> of \<open>catalog.go\<close>. The abstract table is a map from keys to rows; \<open>Insert\<close>, \<open>Update\<close> and \<open>Delete\<close> refine its
    operations, index overlays agree with the rows, and \<open>DiscardChanges\<close> takes a statement back (C19 to C24).
  \<^item> \<open>Row_Merge\<close>, \<open>Validation_Cache\<close>, \<open>Snapshot_Merge\<close>, \<open>Merge_Correct\<close>: \<open>merge.go\<close> and the cache of validated tables of
    \<open>engine.go\<close>; three-way merges of snapshots and of rows, with inventories that list every node of every tree of the
    result, and the bounds of the cache (C36 to C38). \<open>Index_Rebuild\<close>: the index trees built from the rows of a table.
  \<^item> \<open>Engine_Checkpoint\<close>, \<open>Checkpoint_Correct\<close>, \<open>Checkpoint_Inventory\<close>: \<open>checkpointTypedEdits\<close> of \<open>engine.go\<close>, which applies
    the pending rows of every table to its trees. Index trees updated in place equal the rebuilt ones (C39). The inventory
    holds all nodes of the tables that are written, and of a table that is not what the cache of validated tables recorded,
    or else no nodes of its indexes (C40).

  \<^bold>\<open>The repository\<close> (\<open>common/repository\<close>).
  \<^item> \<open>Pending_Rows\<close>, \<open>Pending_Iter\<close>: \<open>pending.go\<close>; sorted runs of edits that refine an overlay of maps, with a
    logarithmic number of runs and ordered iterators (C25 to C27).
  \<^item> \<open>Snapshot_Store\<close>: \<open>Snapshot\<close>, \<open>Writer\<close> and \<open>takeWorkingWriter\<close> (\<open>repository.go\<close>, \<open>working.go\<close>).
  \<^item> \<open>Journal_Frames\<close>, \<open>Working_View\<close>, \<open>Journal_Load\<close>, \<open>Journal_Crash\<close>, \<open>Working_State\<close>, \<open>Working_Correct\<close>: the frames of the
    journal, the view of unpublished commits and the write log, replay with and without a cache, commits,
    recovery, checkpoints and compaction (\<open>working.go\<close>, \<open>writelog.go\<close>, \<open>journal_compact.go\<close>). A commit cut short at any
    byte is seen in full or not at all; the first of two conflicting transactions wins; compaction and the
    cache do not change the view (C28 to C33).
  \<^item> \<open>Publication\<close>, \<open>Publication_Correct\<close>: reading and publishing data commits, recovery of an unknown outcome,
    fast-forwards, the memo of snapshots (\<open>repository.go\<close>, \<open>snapshotmemo.go\<close>). What is published reads back, and the data
    ref moves as reported (C34, C35).

  The theories named \<open>..._Properties\<close> and this one state the properties of the library, each with the number the text before
  it gives, and evaluate them on small inputs.

  \<^bold>\<open>Conventions.\<close> Bytes and fixed-width integers are words; \<open>int\<close> values of Go are mathematical integers where
  the code bounds them by lengths in memory. An error is a value of the sum type \<open>error + 'a\<close>; a panic is an error
  of its own (\<open>IndexOutOfRange\<close>, \<open>NilDereference\<close>). Loops without an evident end are partial functions into an option,
  where \<^const>\<open>None\<close> means that the loop does not return; the properties state that they return. No fuel is used.
  \<open>reflect.DeepEqual\<close> of rows and of range bounds is equality of values, the \<open>int32\<close> positions of \<open>pending.go\<close> are natural
  numbers, and the flag that forbids to use a finished \<open>SortedBuilder\<close> again is not kept.
  Counts are 64-bit words, hence the bound \<open>2 ^ 64\<close> on the entries of a tree. A Go map is an association list in
  an arbitrary order. What lies outside the repository is a parameter: the digest (32 bytes long, and
  without collisions only where a property says so), JSON, collation weights, type conversion and decimal rounding of
  go-mysql-server, Git, the disk and the order of map iteration. The laws of Git and of the disk that a
  property needs are its hypotheses, and a witness meets them with a concrete Git.

  \<^bold>\<open>Not modelled.\<close> The servers, clients and commands (\<open>cmd\<close>, \<open>server\<close>, \<open>client\<close>), the experiments and benchmarks, and the
  processes, pipes and locks of \<open>common/git\<close> and \<open>common/robustio\<close> are input and output. The catalog's data definition
  statements, sessions, query execution, EXPLAIN and the performance counters are calls into go-mysql-server. The schema codec (\<open>decodeSchema\<close>)
  rests on JSON and on that library's type constructors and is a parameter. Of \<open>engine.go\<close>, opening an engine
  and \<open>walkTable\<close> with its cache of nodes are left out. Of \<open>repository.go\<close>, \<open>Init\<close>, \<open>Open\<close> and \<open>Discover\<close>
  are left out, and of \<open>working.go\<close> the queue of group commits. The integration of remote histories (\<open>integration\<close>) drives
  Git, the merge and the publication, and the checkers (\<open>check.go\<close>) report what the validating walk finds. Locks are not modelled: each
  operation that holds a lock is one step.
\<close>

section \<open>Inputs of the witnesses\<close>

definition w_entry :: "byte \<Rightarrow> entry" where
  "w_entry k = \<lparr>ekey = [k], evalue = [k + 100]\<rparr>"

definition w_tree :: ptree where
  "w_tree = PLeaf [w_entry 1, w_entry 2]"

definition w_store :: memory where
  "w_store = NewMemory(proot sha256 w_tree \<mapsto> pdata sha256 w_tree)"

lemma w_canon: "canon DefaultOptions [w_entry 1, w_entry 2] = w_tree"
  "canon DefaultOptions [w_entry 1, w_entry 2, w_entry 3] = PLeaf [w_entry 1, w_entry 2, w_entry 3]"
  by (simp_all add: canon_def chunkEntries_def chunk_def shouldCut_def DefaultOptions_def Let_def
      ptree_levels_single w_tree_def)

lemmas w_memory = sha.mem.content_store_axioms memory_inv_New[of sha256]

lemma w_chunking: "chunking_ok DefaultOptions"
  by (simp add: chunking_ok_def options_validate_def DefaultOptions_def)

lemma w_store_inv: "memory_inv sha256 w_store"
  by (simp add: memory_inv_def w_store_def NewMemory_def proot_def)

lemma w_stored: "pstored (memory_Get w_store) sha256 w_tree"
  by (simp add: pstored_def w_tree_def pobjects_PLeaf w_store_def memory_Get_def proot_def)

lemma w_entries_ok: "entries_ok [w_entry 1, w_entry 2]" "entries_ok [w_entry 1, w_entry 2, w_entry 3]"
  by (simp_all add: entries_ok_def keys_sorted_def w_entry_def entry_ok_def)

lemma w_valid: "pvalid w_tree"
  by (simp add: w_tree_def pvalid_def keys_sorted_def w_entry_def entry_ok_def)

lemma w_small: "small_nodes sha256 w_tree"
proof -
  have "length (pdata sha256 w_tree) = 12"
    unfolding w_tree_def w_entry_def by code_simp
  then show ?thesis by (simp add: small_nodes_def w_tree_def pobjects_PLeaf)
qed

section \<open>Prolly trees\<close>

text \<open>
  C1. \<open>Build\<close> returns, for valid options with \<open>MinChunkEntries \<ge> 2\<close> and distinct keys in any
  order: the root of the canonical tree of the sorted entries. The store then holds every node
  of that tree and everything it held before, and the tree holds exactly the entries.
\<close>

theorem Build_stores_canonical_tree:
  assumes "content_store H get put I" "I s" "chunking_ok o1"
    and "distinct (map ekey es)" "list_all entry_ok es" "length es < 2 ^ 64"
    and "no_collision get H s (pobjects H (canon o1 (sort_key ekey es)))"
  shows "\<exists>s'. Build put s es o1 = Some (Inr (\<lparr>troot = proot H (canon o1 (sort_key ekey es)), toptions = o1\<rparr>, s'))
    \<and> I s' \<and> (\<forall>h x. get s h = Inr x \<longrightarrow> get s' h = Inr x)
    \<and> pstored (get s') H (canon o1 (sort_key ekey es))
    \<and> pvalid (canon o1 (sort_key ekey es)) \<and> pentries (canon o1 (sort_key ekey es)) = sort_key ekey es"
proof -
  from content_store.Build_canon[OF assms(1,2,4,5,6,3)]
  obtain s' where s': "Build put s es o1 = Some (Inr (\<lparr>troot = proot H (canon o1 (sort_key ekey es)), toptions = o1\<rparr>, s'))"
      "store_extends get H I s s' (pobjects H (canon o1 (sort_key ekey es)))"
    by (elim exE conjE) (rule that)
  then show ?thesis
    using content_store.extends_pstored[OF assms(1) s'(2) assms(7)] store_extends_inv[OF s'(2)]
      store_extends_keeps[OF s'(2)] canon_correct[OF sort_key_entries_ok[OF assms(4-6)] assms(3)]
    by auto
qed

theorem Build_stores_canonical_tree_witness:
  "\<exists>s'. Build (memory_Put sha256) NewMemory [w_entry 2, w_entry 1] DefaultOptions =
      Some (Inr (\<lparr>troot = proot sha256 w_tree, toptions = DefaultOptions\<rparr>, s'))
    \<and> pstored (memory_Get s') sha256 w_tree"
proof -
  have sorted: "sort_key ekey [w_entry 2, w_entry 1] = [w_entry 1, w_entry 2]"
    by (simp add: w_entry_def)
  have "no_collision memory_Get sha256 NewMemory (pobjects sha256 (canon DefaultOptions (sort_key ekey [w_entry 2, w_entry 1])))"
    unfolding sorted w_canon by (simp add: no_collision_def memory_Get_def NewMemory_def w_tree_def pobjects_PLeaf)
  then show ?thesis
    using Build_stores_canonical_tree[OF w_memory(1), OF w_memory(2) w_chunking, of "[w_entry 2, w_entry 1]"] unfolding sorted w_canon
    by (auto simp: w_entry_def entry_ok_def)
qed

text \<open>
  C2. History independence: \<open>Apply\<close> of ordered edits to the canonical tree of \<open>es\<close> returns the
  canonical tree of the edited entries, the one \<open>Build\<close> makes of them. It writes no object outside
  the new tree, and every object of the new tree is written or belongs to the old tree. The old
  tree may live in another store. Excluded is the case in which \<open>Apply\<close> panics, stated next.
\<close>

theorem Apply_is_history_independent:
  assumes "tree_source H get put I tget" "I s" "chunking_ok o1" "entries_ok es"
    and "pstored (tget s) H (canon o1 es)" "eds \<noteq> []" "edits_check eds = None" "entries_ok (edited eds es)"
    and "es = [] \<or> edited eds es \<noteq> [] \<or> (\<exists>ed \<in> set eds. ekey (last es) < edkey ed)"
  shows "\<exists>s' D. Apply tget put s \<lparr>troot = proot H (canon o1 es), toptions = o1\<rparr> eds =
      Some (Inr (\<lparr>troot = proot H (canon o1 (edited eds es)), toptions = o1\<rparr>, s'))
    \<and> store_extends get H I s s' D \<and> D \<subseteq> pobjects H (canon o1 (edited eds es))
    \<and> pobjects H (canon o1 (edited eds es)) \<subseteq> D \<union> pobjects H (canon o1 es)"
proof (cases "es = []")
  case True
  from tree_source.Apply_from_empty[OF assms(1,2,3) assms(5)[unfolded True] assms(6,7) assms(8)[unfolded True]]
  show ?thesis unfolding True by (elim exE conjE) (intro exI conjI, assumption+, auto)
next
  case False
  show ?thesis
  proof (cases "edited eds es = []")
    case True
    then obtain ed where "ed \<in> set eds" "ekey (last es) < edkey ed" using assms(9) False by blast
    from tree_source.Apply_to_empty[OF assms(1,2,3,4,5,6,7) True False this]
    show ?thesis unfolding True by (elim exE conjE) (intro exI conjI, assumption+, auto)
  next
    case ne: False
    show ?thesis by (rule tree_source.Apply_nonempty[OF assms(1,2,3,4,5,6,7,8) ne False])
  qed
qed

theorem Apply_is_history_independent_witness:
  "\<exists>s'. Apply memory_Get (memory_Put sha256) w_store \<lparr>troot = proot sha256 w_tree, toptions = DefaultOptions\<rparr>
      [\<lparr>edkey = [3], edvalue = [103], eddelete = False\<rparr>] =
    Some (Inr (\<lparr>troot = proot sha256 (PLeaf [w_entry 1, w_entry 2, w_entry 3]), toptions = DefaultOptions\<rparr>, s'))"
proof -
  let ?eds = "[\<lparr>edkey = [3], edvalue = [103], eddelete = False\<rparr>]"
  have ed: "edited ?eds [w_entry 1, w_entry 2] = [w_entry 1, w_entry 2, w_entry 3]"
    by (simp add: edited_def puts_def edit_entry_def w_entry_def)
  show ?thesis
    using Apply_is_history_independent[OF sha.mem.same.tree_source_axioms, OF w_store_inv w_chunking w_entries_ok(1), of ?eds]
    unfolding ed w_canon using w_stored w_entries_ok(2) by auto
qed

text \<open>
  C3. The case \<open>Apply\<close> does not handle: edits that delete every entry and reach no further than
  the last one. The loop takes its early exit with no link at all, and \<open>buildFromLeafLinks\<close>
  indexes the empty slice: \<open>Apply\<close> panics.
\<close>

theorem Apply_panics_on_delete_all:
  assumes "tree_source H get put I tget" "I s" "chunking_ok o1" "entries_ok es" "es \<noteq> []"
    and "pstored (tget s) H (canon o1 es)" "eds \<noteq> []" "edits_check eds = None"
    and "edited eds es = []" "\<forall>ed \<in> set eds. edkey ed \<le> ekey (last es)"
  shows "Apply tget put s \<lparr>troot = proot H (canon o1 es), toptions = o1\<rparr> eds = Some (Inl IndexOutOfRange)"
  by (rule tree_source.Apply_panics[OF assms(1,2,3,4,6,7,8,9,5,10)])

theorem Apply_panics_on_delete_all_witness:
  "Apply memory_Get (memory_Put sha256) w_store \<lparr>troot = proot sha256 w_tree, toptions = DefaultOptions\<rparr>
      [\<lparr>edkey = [1], edvalue = [], eddelete = True\<rparr>, \<lparr>edkey = [2], edvalue = [], eddelete = True\<rparr>] =
    Some (Inl IndexOutOfRange)"
  using Apply_panics_on_delete_all[OF sha.mem.same.tree_source_axioms, OF w_store_inv w_chunking w_entries_ok(1),
      of "[\<lparr>edkey = [1], edvalue = [], eddelete = True\<rparr>, \<lparr>edkey = [2], edvalue = [], eddelete = True\<rparr>]"]
  unfolding w_canon using w_stored by (simp add: edited_def puts_def w_entry_def)

text \<open>
  C4. \<open>SortedBuilder\<close>: adding strictly ordered entries one by one and finishing returns the
  canonical tree, as \<open>Build\<close> does, with the nodes of the tree as the only objects written.
\<close>

theorem SortedBuilder_builds_canonical_tree:
  assumes "content_store H get put I" "I s" "chunking_ok o1" "entries_ok es" "NewSortedBuilder o1 = Inr b"
  shows "\<exists>b1 s1 s'. sb_adds put o1 es b s = Some (Inr (b1, s1))
    \<and> sb_Finish put o1 b1 s1 = Some (Inr (\<lparr>troot = proot H (canon o1 es), toptions = o1\<rparr>, s'))
    \<and> store_extends get H I s s' (pobjects H (canon o1 es))"
  by (rule content_store.sorted_builder_canon[OF assms(1,2,3,4,5)])

theorem SortedBuilder_builds_canonical_tree_witness:
  "\<exists>b1 s1 s'. sb_adds (memory_Put sha256) DefaultOptions [w_entry 1, w_entry 2]
      \<lparr>sbleaves = [], sblevels = [], sblastKey = [], sbhaveKey = False, sbfinished = False\<rparr> NewMemory = Some (Inr (b1, s1))
    \<and> sb_Finish (memory_Put sha256) DefaultOptions b1 s1 = Some (Inr (\<lparr>troot = proot sha256 w_tree, toptions = DefaultOptions\<rparr>, s'))"
proof -
  have "NewSortedBuilder DefaultOptions = Inr \<lparr>sbleaves = [], sblevels = [], sblastKey = [], sbhaveKey = False, sbfinished = False\<rparr>"
    using w_chunking by (simp add: NewSortedBuilder_def chunking_ok_def)
  from SortedBuilder_builds_canonical_tree[OF w_memory(1), OF w_memory(2) w_chunking w_entries_ok(1) this]
  show ?thesis unfolding w_canon by blast
qed

text \<open>
  C5. \<open>Get\<close> on a stored tree returns the value of the key's entry, or \<open>ErrNotFound\<close> when no entry
  has the key, for every state of the offset cache that is consistent with the store and every
  eviction choice; the cache stays consistent.
\<close>

theorem Get_returns_the_entry:
  assumes "digest32 H" "pvalid t" "pstored get H t" "small_nodes H t" "cache_ok get c"
  shows "\<exists>c'. cache_ok get c' \<and> tree_Get pick get key (proot H t) c =
    Some (case elookup key (pentries t) of None \<Rightarrow> Inl KeyNotFound | Some v \<Rightarrow> Inr v, c')"
  by (rule digest32.tree_Get_pstored[OF assms])

theorem Get_returns_the_entry_witness:
  "\<exists>c'. tree_Get (\<lambda>_. []) (memory_Get w_store) [2] (proot sha256 w_tree) (\<lambda>_. []) = Some (Inr [102], c')"
proof -
  have "elookup [2] (pentries w_tree) = Some [102]" by (simp add: elookup_def w_tree_def w_entry_def)
  then show ?thesis
    using Get_returns_the_entry[OF sha.digest32_axioms w_valid w_stored w_small cache_ok_empty, of "\<lambda>_. []" "[2]"] by auto
qed

text \<open>
  C6. The iterator of a stored tree returns its entries in key order and then reports the end;
  every call of \<open>Next\<close> returns.
\<close>

theorem Iterator_returns_all_entries:
  assumes "digest32 H" "pvalid t" "pstored get H t" "length (pentries t) < n"
  shows "\<exists>it it'. tree_Iterator get (proot H t) = Some (Inr it)
    \<and> iterator_take get n it = Some (Inr (pentries t, it'))"
proof -
  obtain it where it: "tree_Iterator get (proot H t) = Some (Inr it)" "iter_repr get H it (pentries t)"
    using digest32.tree_Iterator_pstored[OF assms(1-3)] by blast
  then show ?thesis using digest32.iterator_take_pstored[OF assms(1) it(2), of n] assms(4) by auto
qed

theorem Iterator_returns_all_entries_witness:
  "\<exists>it it'. tree_Iterator (memory_Get w_store) (proot sha256 w_tree) = Some (Inr it)
    \<and> iterator_take (memory_Get w_store) 3 it = Some (Inr ([w_entry 1, w_entry 2], it'))"
  using Iterator_returns_all_entries[OF sha.digest32_axioms w_valid w_stored, of 3] by (simp add: w_tree_def)

text \<open>
  C7. \<open>IteratorFrom\<close> starts at the first entry whose key is not below the start key and returns
  all entries from there.
\<close>

theorem IteratorFrom_returns_the_tail:
  assumes "digest32 H" "pvalid t" "pstored get H t" "length (pentries t) < n"
  shows "\<exists>it it'. tree_IteratorFrom get (proot H t) key = Some (Inr it)
    \<and> iterator_take get n it = Some (Inr (dropWhile (\<lambda>e. ekey e < key) (pentries t), it'))"
proof -
  obtain it where it: "tree_IteratorFrom get (proot H t) key = Some (Inr it)"
      "iter_repr get H it (dropWhile (\<lambda>e. ekey e < key) (pentries t))"
    using digest32.tree_IteratorFrom_pstored[OF assms(1-3)] by blast
  have "length (dropWhile (\<lambda>e. ekey e < key) (pentries t)) < n"
    using assms(4) length_dropWhile_le[of "\<lambda>e. ekey e < key" "pentries t"] by linarith
  then show ?thesis using it(1) digest32.iterator_take_pstored[OF assms(1) it(2), of n] by auto
qed

theorem IteratorFrom_returns_the_tail_witness:
  "\<exists>it it'. tree_IteratorFrom (memory_Get w_store) (proot sha256 w_tree) [1, 5] = Some (Inr it)
    \<and> iterator_take (memory_Get w_store) 3 it = Some (Inr ([w_entry 2], it'))"
  using IteratorFrom_returns_the_tail[OF sha.digest32_axioms w_valid w_stored, of 3 "[1, 5]"]
  by (simp add: w_tree_def w_entry_def)

text \<open>
  C8. \<open>ReverseIterator\<close> returns the entries below the exclusive bound in descending order, all of
  them without a bound, and then reports the end.
\<close>

theorem ReverseIterator_returns_entries_below:
  assumes "digest32 H" "pvalid t" "pstored get H t" "length (pentries t) < n"
  shows "\<exists>it it'. tree_ReverseIterator get (proot H t) bound = Some (Inr it)
    \<and> rev_take get n it = Some (Inr (rev (filter (below bound) (pentries t)), it'))"
proof -
  obtain it where it: "tree_ReverseIterator get (proot H t) bound = Some (Inr it)"
      "rev_repr get H it (rev (filter (below bound) (pentries t)))"
    using digest32.tree_ReverseIterator_pstored[OF assms(1-3)] by blast
  have "length (filter (below bound) (pentries t)) < n"
    using assms(4) length_filter_le[of "below bound" "pentries t"] by linarith
  then show ?thesis using it(1) digest32.rev_take_pstored[OF assms(1) it(2), of n] by auto
qed

theorem ReverseIterator_returns_entries_below_witness:
  "\<exists>it it'. tree_ReverseIterator (memory_Get w_store) (proot sha256 w_tree) None = Some (Inr it)
    \<and> rev_take (memory_Get w_store) 3 it = Some (Inr ([w_entry 2, w_entry 1], it'))"
  using ReverseIterator_returns_entries_below[OF sha.digest32_axioms w_valid w_stored, of 3 None]
  by (simp add: w_tree_def below_def)

text \<open>
  \<open>Count\<close> reads only the root and returns the number of entries.
\<close>

theorem Count_is_the_number_of_entries:
  assumes "digest32 H" "pvalid t" "pstored get H t"
  shows "tree_Count get (proot H t) = Inr (of_nat (length (pentries t)))"
  by (rule digest32.tree_Count_pstored[OF assms])

theorem Count_is_the_number_of_entries_witness:
  "tree_Count (memory_Get w_store) (proot sha256 w_tree) = Inr 2"
  using Count_is_the_number_of_entries[OF sha.digest32_axioms w_valid w_stored] by (simp add: w_tree_def)

text \<open>
  C9. The node codec round trip: an encoded node decodes to itself.
\<close>

theorem node_codec_roundtrip:
  assumes "node_ok n"
  shows "\<exists>data. encodeNode n = Inr data \<and> decodeNode h data = Inr n"
  by (rule decodeNode_encodeNode[OF assms])

theorem node_codec_roundtrip_witness:
  "\<exists>data. encodeNode \<lparr>nlevel = 0, nentries = [w_entry 7], nchildren = []\<rparr> = Inr data
    \<and> decodeNode [] data = Inr \<lparr>nlevel = 0, nentries = [w_entry 7], nchildren = []\<rparr>"
  by (rule node_codec_roundtrip) (simp add: node_ok_def entry_ok_def w_entry_def)

text \<open>
  C10. \<open>Build\<close> does not return for options that \<open>Options.validate\<close> accepts: with
  \<open>MinChunkEntries = 1\<close> two keys that end their chunks alone keep every level at two nodes.
\<close>

theorem Build_diverges_for_accepted_options:
  assumes "content_store H get put I" "I s"
  shows "options_validate tiny_options = Inr () \<and>
    Build put s [\<lparr>ekey = [0], evalue = []\<rparr>, \<lparr>ekey = [2], evalue = []\<rparr>] tiny_options = None"
  using content_store.Build_stuck[OF assms] tiny_options_valid by simp

theorem Build_diverges_for_accepted_options_witness:
  "Build (memory_Put sha256) NewMemory [\<lparr>ekey = [0], evalue = []\<rparr>, \<lparr>ekey = [2], evalue = []\<rparr>] tiny_options = None"
  using Build_diverges_for_accepted_options[OF w_memory(1), OF w_memory(2)] by simp

text \<open>
  C11. \<open>Reachable\<close> (and \<open>Validate\<close> without a cache) accepts every stored valid tree and lists the
  names of exactly its nodes, sorted and without repetition, although shared subtrees are walked
  once.
\<close>

theorem Reachable_lists_the_nodes:
  assumes "digest32 H" "pvalid t" "pstored get H t"
  shows "Reachable get (proot H t) = Some (Inr (sorted_list_of_set (proot H ` psubtrees t)))"
  by (rule digest32.Reachable_pstored[OF assms])

theorem Reachable_lists_the_nodes_witness:
  "Reachable (memory_Get w_store) (proot sha256 w_tree) = Some (Inr [proot sha256 w_tree])"
  using Reachable_lists_the_nodes[OF sha.digest32_axioms w_valid w_stored] by (simp add: w_tree_def)

text \<open>
  \<open>Entries\<close> returns the entries of a stored valid tree in key order.
\<close>

theorem Entries_returns_all_entries:
  assumes "digest32 H" "pvalid t" "pstored get H t"
  shows "tree_Entries get (proot H t) = Some (Inr (pentries t))"
  by (rule digest32.tree_Entries_pstored[OF assms])

theorem Entries_returns_all_entries_witness:
  "tree_Entries (memory_Get w_store) (proot sha256 w_tree) = Some (Inr [w_entry 1, w_entry 2])"
  using Entries_returns_all_entries[OF sha.digest32_axioms w_valid w_stored] by (simp add: w_tree_def)





end
